(* ===== verification/Wlan_Prelude.thy ===== *)
theory Wlan_Prelude
  imports Main "HOL-Library.Word"
begin

text \<open>
  Shared material of the development: the machine integer types of the driver, pointer chains
  (singly linked structures read off a next-pointer function), index masking of the
  power-of-two rings, and checked array stores.  Component theories add their own lemmas to the
  collections \<open>chain_rules\<close> and \<open>ring_rules\<close>.
\<close>

unbundle bit_operations_syntax

type_synonym u8 = "8 word"
type_synonym u16 = "16 word"
type_synonym u32 = "32 word"
type_synonym u64 = "64 word"
type_synonym mac_addr = "u8 list"

named_theorems chain_rules \<open>rewrite rules for pointer chains\<close>
named_theorems ring_rules \<open>rewrite rules for masked ring indices\<close>

section \<open>Pointer chains\<close>

text \<open>
  \<open>lseg nx p xs q\<close>: following the next pointers \<open>nx\<close> from the pointer \<open>p\<close> visits
  exactly the cells \<open>xs\<close>, in this order, and arrives at the pointer \<open>q\<close>.  \<open>None\<close> is
  the null pointer.
\<close>

primrec lseg :: "('a \<Rightarrow> 'a option) \<Rightarrow> 'a option \<Rightarrow> 'a list \<Rightarrow> 'a option \<Rightarrow> bool" where
  "lseg nx p [] q = (p = q)"
| "lseg nx p (c # cs) q = (p = Some c \<and> lseg nx (nx c) cs q)"

lemma lseg_append [chain_rules]:
  "lseg nx p (cs @ ds) q \<longleftrightarrow> (\<exists>r. lseg nx p cs r \<and> lseg nx r ds q)"
  by (induction cs arbitrary: p) auto

lemma lseg_null [chain_rules, simp]: "lseg nx None cs q \<longleftrightarrow> cs = [] \<and> q = None"
  by (cases cs) auto

lemma lseg_frame [chain_rules]:
  "c \<notin> set cs \<Longrightarrow> lseg (nx(c := r)) p cs q = lseg nx p cs q"
  by (induction cs arbitrary: p) auto

lemma lseg_cong:
  "(\<And>c. c \<in> set cs \<Longrightarrow> nx c = nx' c) \<Longrightarrow> lseg nx p cs q = lseg nx' p cs q"
  by (induction cs arbitrary: p) auto

lemma lseg_start_in:
  "lseg nx (Some c) cs None \<Longrightarrow> \<exists>ds. cs = c # ds \<and> lseg nx (nx c) ds None"
  by (cases cs) auto

lemma lseg_det: "lseg nx p cs None \<Longrightarrow> lseg nx p ds None \<Longrightarrow> cs = ds"
proof (induction cs arbitrary: p ds)
  case Nil
  then show ?case by (cases ds) auto
next
  case (Cons c cs)
  then show ?case by (cases ds) auto
qed

lemma lseg_acyclic: "lseg nx p cs None \<Longrightarrow> distinct cs"
proof (induction cs arbitrary: p)
  case Nil
  then show ?case by simp
next
  case (Cons c cs)
  then have tail: "lseg nx (nx c) cs None" by simp
  have "c \<notin> set cs"
  proof
    assume "c \<in> set cs"
    then obtain us vs where cs: "cs = us @ c # vs" by (meson split_list)
    from tail have "lseg nx (nx c) vs None"
      unfolding cs by (auto simp: lseg_append)
    with tail have "vs = cs" by (metis lseg_det)
    with cs show False by simp
  qed
  with Cons.IH [OF tail] show ?case by simp
qed

text \<open>Relinking the last cell of a segment moves its end point.\<close>

lemma lseg_relink:
  "lseg nx p (cs @ [c]) q \<Longrightarrow> distinct (cs @ [c]) \<Longrightarrow> lseg (nx(c := r)) p (cs @ [c]) r"
  by (auto simp: lseg_append lseg_frame)

lemma lseg_join:
  assumes "lseg nx p (cs @ [c]) q" and "lseg nx (Some d) (d # ds) r"
    and "distinct (cs @ c # d # ds)"
  shows "lseg (nx(c := Some d)) p ((cs @ [c]) @ d # ds) r"
proof -
  have "lseg (nx(c := Some d)) p (cs @ [c]) (Some d)"
    using assms by (auto simp: lseg_append lseg_frame)
  moreover have "lseg (nx(c := Some d)) (Some d) (d # ds) r"
    using assms(2,3) by (auto simp: lseg_frame)
  ultimately show ?thesis by (auto simp: lseg_append)
qed

text \<open>A run of consecutive cells, each linked to the next number.\<close>

lemma lseg_upt:
  assumes "a \<le> b" and "\<And>j. a \<le> j \<Longrightarrow> j < b \<Longrightarrow> nx (f j) = Some (f (Suc j))"
  shows "lseg nx (Some (f a)) (map f [a..<b]) (Some (f b))"
  using assms
proof (induction b rule: dec_induct)
  case base
  then show ?case by simp
next
  case (step n)
  then show ?case by (auto simp: lseg_append)
qed

section \<open>Checked array stores\<close>

text \<open>A C store \<open>a[i] = v\<close>: \<open>None\<close> is a store outside the array.\<close>

definition store_at :: "'a list \<Rightarrow> nat \<Rightarrow> 'a \<Rightarrow> 'a list option" where
  "store_at a i v = (if i < length a then Some (a[i := v]) else None)"

definition load_at :: "'a list \<Rightarrow> nat \<Rightarrow> 'a option" where
  "load_at a i = (if i < length a then Some (a ! i) else None)"

lemma store_at_ok [simp]: "i < length a \<Longrightarrow> store_at a i v = Some (a[i := v])"
  by (simp add: store_at_def)

lemma load_at_ok [simp]: "i < length a \<Longrightarrow> load_at a i = Some (a ! i)"
  by (simp add: load_at_def)

lemma store_at_length: "store_at a i v = Some b \<Longrightarrow> length b = length a"
  by (auto simp: store_at_def split: if_splits)

section \<open>Words and masks\<close>

lemma unat_inject [simp]:
  fixes a b :: "'a::len word"
  shows "unat a = unat b \<longleftrightarrow> a = b"
  by (auto intro: unsigned_word_eqI)

lemma ucast_u8_u16_u8 [simp]: "(ucast (ucast (x :: u8) :: u16) :: u8) = x"
  by transfer simp

lemma unat_Suc_no_wrap:
  fixes i m :: "'a::len word"
  assumes "i < m"
  shows "unat (i + 1) = Suc (unat i)"
proof -
  have "Suc (unat i) \<le> unat m" using assms by (simp add: word_less_nat_alt)
  also have "unat m < 2 ^ LENGTH('a)" by (rule unsigned_less)
  finally show ?thesis by (simp add: unat_word_ariths)
qed

lemma and_mask_nat [ring_rules]:
  fixes n :: nat shows "n AND (2 ^ k - Suc 0) = n mod 2 ^ k"
  by (metis One_nat_def mask_eq_exp_minus_1 take_bit_eq_mask take_bit_eq_mod)

lemma unat_and_mask [ring_rules]:
  fixes w m :: "'a::len word"
  assumes "unat m = 2 ^ k - Suc 0"
  shows "unat (w AND m) = unat w mod 2 ^ k"
  by (simp add: unsigned_and_eq assms and_mask_nat)

lemma unat_ucast_up [simp]:
  "unat (ucast (x :: u8) :: u16) = unat x" "unat (ucast (x :: u8) :: u32) = unat x"
  "unat (ucast (y :: u16) :: u32) = unat y" "unat (ucast (x :: u8) :: u64) = unat x"
  "unat (ucast (y :: u16) :: u64) = unat y" "unat (ucast (z :: u32) :: u64) = unat z"
  by (transfer, simp)+

text \<open>Stepping an index of a power-of-two ring.\<close>

lemma ring_next_index:
  fixes i m :: "'a::len word"
  assumes "unat m = 2 ^ n - Suc 0"
  shows "unat ((i + 1) AND m) = Suc (unat i) mod 2 ^ n"
proof -
  have "(2::nat) ^ n \<le> 2 ^ LENGTH('a)"
    using assms unsigned_less [of m, where ?'a = nat] by linarith
  then have "n \<le> LENGTH('a)" by simp
  then have "(2::nat) ^ n dvd 2 ^ LENGTH('a)" by (rule le_imp_power_dvd)
  then show ?thesis
    by (simp add: unat_and_mask [OF assms] unat_word_ariths mod_mod_cancel)
qed

text \<open>Fields of a word put side by side.\<close>

lemma or_push_bit_nat:
  fixes x y :: nat
  assumes "x < 2 ^ n"
  shows "x OR push_bit n y = x + y * 2 ^ n"
proof -
  have "x AND push_bit n y = 0"
  proof (rule bit_eqI)
    fix m
    have "\<not> bit x m" if "n \<le> m"
    proof -
      have "2 ^ n \<le> (2::nat) ^ m" using that by (simp add: power_increasing)
      then have "x div 2 ^ m = 0" by (intro div_less less_le_trans [OF assms])
      then show ?thesis by (simp add: bit_iff_odd)
    qed
    then show "bit (x AND push_bit n y) m = bit 0 m"
      by (auto simp: bit_and_iff bit_push_bit_iff)
  qed
  then show ?thesis by (simp add: disjunctive_add_eq_or [symmetric] push_bit_eq_mult)
qed
lemma unat_or_push_bit:
  fixes v w :: "'a::len word"
  assumes "unat v < 2 ^ n" and "unat w * 2 ^ n < 2 ^ LENGTH('a)"
  shows "unat (v OR push_bit n w) = unat v + unat w * 2 ^ n"
proof -
  have "take_bit LENGTH('a) (push_bit n (unat w)) = push_bit n (unat w)"
    using assms(2) by (simp add: take_bit_nat_eq_self push_bit_eq_mult)
  then show ?thesis
    using or_push_bit_nat [OF assms(1), of "unat w"]
    by (simp add: unsigned_or_eq unsigned_push_bit_eq)
qed
section \<open>Lists of lists\<close>

lemma concat_disjoint:
  "distinct (concat xss) \<Longrightarrow> i < length xss \<Longrightarrow> j < length xss \<Longrightarrow> i \<noteq> j \<Longrightarrow>
   set (xss ! i) \<inter> set (xss ! j) = {}"
proof (induction xss arbitrary: i j)
  case Nil
  then show ?case by simp
next
  case (Cons x xss)
  have "set x \<inter> set (xss ! m) = {}" if "m < length xss" for m
    using Cons.prems(1) nth_mem [OF that] by auto
  with Cons show ?case by (cases i; cases j) auto
qed

end
