(* ===== verification/Fifo_Queue.thy ===== *)
theory Fifo_Queue
  imports Wlan_Prelude
begin

text \<open>
  The contract the driver's pointer queues share: a container that hands out its elements in the
  order they were put in.  The provider states how a concrete state represents a list
  (\<open>rep\<close>) and proves three laws; the client lemmas below then hold for every run of puts and
  gets.  The free-index pool of an access point and the driver's TAILQ lists interpret the
  locale on their own definitions.
\<close>

datatype 'a qop = QGet | QPut 'a

primrec qputs :: "'a qop list \<Rightarrow> 'a list" where
  "qputs [] = []"
| "qputs (opn # ops) = (case opn of QGet \<Rightarrow> qputs ops | QPut x \<Rightarrow> x # qputs ops)"

text \<open>A run of operations on a concrete queue: the elements handed out and the final state.\<close>

fun qrun :: "('s \<Rightarrow> ('a \<times> 's) option) \<Rightarrow> ('a \<Rightarrow> 's \<Rightarrow> 's option) \<Rightarrow> 's \<Rightarrow> 'a qop list
    \<Rightarrow> ('a list \<times> 's) option" where
  "qrun get put s [] = Some ([], s)"
| "qrun get put s (QGet # ops) =
     (case get s of
        None \<Rightarrow> qrun get put s ops
      | Some (x, s') \<Rightarrow> map_option (\<lambda>(outs, t). (x # outs, t)) (qrun get put s' ops))"
| "qrun get put s (QPut x # ops) =
     (case put x s of None \<Rightarrow> None | Some s' \<Rightarrow> qrun get put s' ops)"

text \<open>
  The specification: the queue is a list.  Putting in an element that is already queued is a use
  outside the contract (\<open>None\<close>): the pointer structures would become cyclic.
\<close>

fun qspec :: "'a list \<Rightarrow> 'a qop list \<Rightarrow> ('a list \<times> 'a list) option" where
  "qspec xs [] = Some ([], xs)"
| "qspec [] (QGet # ops) = qspec [] ops"
| "qspec (x # xs) (QGet # ops) = map_option (\<lambda>(outs, ys). (x # outs, ys)) (qspec xs ops)"
| "qspec xs (QPut x # ops) = (if x \<in> set xs then None else qspec (xs @ [x]) ops)"

text \<open>
  The first-in first-out law: what was handed out followed by what is left is what was there at
  the start followed by what was put in.
\<close>

lemma qspec_fifo: "qspec xs ops = Some (outs, ys) \<Longrightarrow> outs @ ys = xs @ qputs ops"
  by (induction xs ops arbitrary: outs ys rule: qspec.induct) (auto split: if_splits)

lemma qspec_distinct: "qspec xs ops = Some (outs, ys) \<Longrightarrow> distinct xs \<Longrightarrow> distinct ys"
  by (induction xs ops arbitrary: outs ys rule: qspec.induct) (auto split: if_splits)

locale fifo_queue =
  fixes rep :: "'s \<Rightarrow> 'a list \<Rightarrow> bool"
    and get :: "'s \<Rightarrow> ('a \<times> 's) option"
    and put :: "'a \<Rightarrow> 's \<Rightarrow> 's option"
    and legal :: "'s \<Rightarrow> 'a \<Rightarrow> bool"
  assumes get_empty: "rep s [] \<Longrightarrow> get s = None"
    and get_front: "rep s (x # xs) \<Longrightarrow> \<exists>s'. get s = Some (x, s') \<and> rep s' xs \<and> legal s' = legal s"
    and put_back: "rep s xs \<Longrightarrow> x \<notin> set xs \<Longrightarrow> legal s x \<Longrightarrow>
      \<exists>s'. put x s = Some s' \<and> rep s' (xs @ [x]) \<and> legal s' = legal s"
begin

text \<open>Every run inside the contract refines the list specification, and no operation fails.\<close>

lemma run_refines:
  assumes "rep s xs" and "qspec xs ops = Some (outs, ys)" and "\<And>x. x \<in> set (qputs ops) \<Longrightarrow> legal s x"
  shows "\<exists>t. qrun get put s ops = Some (outs, t) \<and> rep t ys"
  using assms
proof (induction xs ops arbitrary: s outs ys rule: qspec.induct)
  case (1 xs)
  then show ?case by auto
next
  case (2 ops)
  then show ?case using get_empty [of s] by auto
next
  case (3 x xs ops)
  obtain s' where s': "get s = Some (x, s')" "rep s' xs" "legal s' = legal s"
    using "3.prems"(1) get_front by blast
  with "3" show ?case by fastforce
next
  case (4 xs x ops)
  then have "x \<notin> set xs" "legal s x" by (auto split: if_splits)
  then obtain s' where s': "put x s = Some s'" "rep s' (xs @ [x])" "legal s' = legal s"
    using "4.prems"(1) put_back by blast
  with "4" \<open>x \<notin> set xs\<close> show ?case by auto
qed

lemma get_cases:
  "rep s xs \<Longrightarrow> get s = Some (x, s') \<Longrightarrow> xs \<noteq> [] \<and> x = hd xs \<and> rep s' (tl xs)"
  using get_empty get_front by (cases xs) fastforce+

end

end
