(* ===== verification/Lim_Aid_Pool.thy ===== *)
theory Lim_Aid_Pool
  imports Fifo_Queue
begin

text \<open>
  The peer index (association id) pool of a protocol-engine session, \<open>limAIDmgmt.c\<close>: a
  singly linked free list threaded through the byte array \<open>gpLimPeerIdxpool\<close>, index 0 being
  the null link, with a head and a tail index.  A store outside the array is \<open>None\<close>.
\<close>

section \<open>State\<close>

datatype tLimSystemRole =
    eLIM_UNKNOWN_ROLE | eLIM_AP_ROLE | eLIM_STA_IN_IBSS_ROLE | eLIM_STA_ROLE
  | eLIM_BT_AMP_STA_ROLE | eLIM_BT_AMP_AP_ROLE | eLIM_P2P_DEVICE_ROLE | eLIM_P2P_DEVICE_GO
  | eLIM_P2P_DEVICE_CLIENT | eLIM_NDI_ROLE

datatype tVOS_CON_MODE =
    VOS_STA_MODE | VOS_STA_SAP_MODE | VOS_P2P_CLIENT_MODE | VOS_P2P_GO_MODE | VOS_MONITOR_MODE
  | VOS_FTM_MODE | VOS_IBSS_MODE | VOS_P2P_DEVICE_MODE | VOS_OCB_MODE | VOS_NDI_MODE

record pe_session =
  ps_valid :: bool
  limSystemRole :: tLimSystemRole
  pePersona :: tVOS_CON_MODE
  gpLimPeerIdxpool :: "u8 list"
  freePeerIdxHead :: u8
  freePeerIdxTail :: u8
  gLimNumOfCurrentSTAs :: u16

record lim_global =
  maxStation :: u16
  gLimAssocStaLimit :: u16
  glim_assoc_sta_limit_ap :: u16
  glim_assoc_sta_limit_go :: u16
  gpSession :: "pe_session list"

section \<open>Operations\<close>

text \<open>The loop that links index \<open>i\<close> to \<open>i + 1\<close> up to the last station.\<close>

function pool_link_loop :: "u8 list \<Rightarrow> u8 \<Rightarrow> u8 \<Rightarrow> (u8 list \<times> u8) option" where
  "pool_link_loop pool i maxAssocSta =
     (if i < maxAssocSta
      then (case store_at pool (unat i) (i + 1) of
              None \<Rightarrow> None
            | Some pool' \<Rightarrow> pool_link_loop pool' (i + 1) maxAssocSta)
      else Some (pool, i))"
  by pat_completeness auto
termination
  by (relation "measure (\<lambda>(pool, i, m). unat m - unat i)")
    (auto simp: unat_Suc_no_wrap word_less_nat_alt)

declare pool_link_loop.simps [simp del]

definition LIM_START_PEER_IDX :: u8 where "LIM_START_PEER_IDX = 1"
definition DPH_STA_HASH_INDEX_PEER :: u8 where "DPH_STA_HASH_INDEX_PEER = 1"

definition pool_start :: "tLimSystemRole \<Rightarrow> u8" where
  "pool_start role =
     (if role = eLIM_STA_ROLE then DPH_STA_HASH_INDEX_PEER + 1 else LIM_START_PEER_IDX)"

definition limInitPeerIdxpool :: "lim_global \<Rightarrow> pe_session \<Rightarrow> pe_session option" where
  "limInitPeerIdxpool lim s =
     (let maxAssocSta = (ucast (maxStation lim) :: u8);
          start = pool_start (limSystemRole s)
      in case store_at (gpLimPeerIdxpool s) 0 0 of
           None \<Rightarrow> None
         | Some pool0 \<Rightarrow>
             (case pool_link_loop pool0 start maxAssocSta of
                None \<Rightarrow> None
              | Some (pool1, i) \<Rightarrow>
                  (case store_at pool1 (unat i) 0 of
                     None \<Rightarrow> None
                   | Some pool2 \<Rightarrow>
                       Some (s\<lparr>gpLimPeerIdxpool := pool2, freePeerIdxHead := start,
                               freePeerIdxTail := i\<rparr>))))"

text \<open>The station count is summed in a byte, over the valid sessions.\<close>

definition peGetCurrentSTAsCount :: "lim_global \<Rightarrow> u8" where
  "peGetCurrentSTAsCount lim =
     fold (\<lambda>s n. if ps_valid s then n + ucast (gLimNumOfCurrentSTAs s) else n) (gpSession lim) 0"

text \<open>Taking the head of the free list; \<open>None\<close> when the list is empty.\<close>

definition pool_take :: "pe_session \<Rightarrow> (u8 \<times> pe_session) option" where
  "pool_take s =
     (if freePeerIdxHead s \<noteq> 0
      then let peerId = freePeerIdxHead s;
               h = gpLimPeerIdxpool s ! unat peerId
           in Some (peerId,
                s\<lparr>freePeerIdxHead := h,
                  freePeerIdxTail := (if h = 0 then 0 else freePeerIdxTail s),
                  gLimNumOfCurrentSTAs := gLimNumOfCurrentSTAs s + 1\<rparr>)
      else None)"

text \<open>The limit test of \<open>limAssignPeerIdx\<close>; the per-persona limit is truncated to a byte.\<close>

definition assoc_limit_reached :: "lim_global \<Rightarrow> pe_session \<Rightarrow> bool" where
  "assoc_limit_reached lim s =
     (let max_peer = (if pePersona s = VOS_STA_SAP_MODE then ucast (glim_assoc_sta_limit_ap lim)
                      else if pePersona s = VOS_P2P_GO_MODE then ucast (glim_assoc_sta_limit_go lim)
                      else (0 :: u8))
      in gLimAssocStaLimit lim \<le> ucast (peGetCurrentSTAsCount lim)
         \<or> (max_peer \<noteq> 0 \<and> ucast max_peer \<le> gLimNumOfCurrentSTAs s))"

text \<open>The returned index is 0 when none is handed out.\<close>

definition limAssignPeerIdx :: "lim_global \<Rightarrow> pe_session \<Rightarrow> u16 \<times> pe_session" where
  "limAssignPeerIdx lim s =
     (if assoc_limit_reached lim s then (0, s)
      else (case pool_take s of
              Some (peerId, s') \<Rightarrow> (ucast peerId, s')
            | None \<Rightarrow> (0, s)))"

definition limReleasePeerIdx :: "u16 \<Rightarrow> pe_session \<Rightarrow> pe_session option" where
  "limReleasePeerIdx peerIdx s0 =
     (let s = s0\<lparr>gLimNumOfCurrentSTAs := gLimNumOfCurrentSTAs s0 - 1\<rparr>;
          idx = (ucast peerIdx :: u8);
          linked = (if freePeerIdxTail s \<noteq> 0
                    then (case store_at (gpLimPeerIdxpool s) (unat (freePeerIdxTail s)) idx of
                            None \<Rightarrow> None
                          | Some pool \<Rightarrow> Some (s\<lparr>gpLimPeerIdxpool := pool, freePeerIdxTail := idx\<rparr>))
                    else Some (s\<lparr>freePeerIdxTail := idx, freePeerIdxHead := idx\<rparr>))
      in case linked of
           None \<Rightarrow> None
         | Some t \<Rightarrow>
             (case store_at (gpLimPeerIdxpool t) (unat idx) 0 of
                None \<Rightarrow> None
              | Some pool \<Rightarrow> Some (t\<lparr>gpLimPeerIdxpool := pool\<rparr>)))"

section \<open>The free list and its queue laws\<close>

definition idx_ptr :: "u8 \<Rightarrow> u8 option" where
  "idx_ptr i = (if i = 0 then None else Some i)"

lemma idx_ptr_simps [simp]:
  "idx_ptr 0 = None" "i \<noteq> 0 \<Longrightarrow> idx_ptr i = Some i" "idx_ptr i = None \<longleftrightarrow> i = 0"
  "idx_ptr i = Some j \<longleftrightarrow> i = j \<and> j \<noteq> 0"
  by (auto simp: idx_ptr_def)

definition pool_nx :: "pe_session \<Rightarrow> u8 \<Rightarrow> u8 option" where
  "pool_nx s i = idx_ptr (gpLimPeerIdxpool s ! unat i)"

definition pool_legal :: "pe_session \<Rightarrow> u8 \<Rightarrow> bool" where
  "pool_legal s i \<longleftrightarrow> i \<noteq> 0 \<and> unat i < length (gpLimPeerIdxpool s)"

definition pool_rep :: "pe_session \<Rightarrow> u8 list \<Rightarrow> bool" where
  "pool_rep s fs \<longleftrightarrow>
     lseg (pool_nx s) (idx_ptr (freePeerIdxHead s)) fs None \<and>
     list_all (pool_legal s) fs \<and>
     freePeerIdxTail s = (if fs = [] then 0 else last fs)"

lemma pool_nx_store:
  "unat i < length (gpLimPeerIdxpool s) \<Longrightarrow>
   pool_nx (s\<lparr>gpLimPeerIdxpool := (gpLimPeerIdxpool s)[unat i := v]\<rparr>)
     = (pool_nx s)(i := idx_ptr v)"
  by (rule ext) (simp add: pool_nx_def)

lemma pool_nx_other [simp]:
  "pool_nx (s\<lparr>freePeerIdxHead := h\<rparr>) = pool_nx s"
  "pool_nx (s\<lparr>freePeerIdxTail := h\<rparr>) = pool_nx s"
  "pool_nx (s\<lparr>gLimNumOfCurrentSTAs := n\<rparr>) = pool_nx s"
  by (simp_all add: pool_nx_def fun_eq_iff)

lemma pool_rep_distinct: "pool_rep s fs \<Longrightarrow> distinct fs"
  unfolding pool_rep_def by (blast intro: lseg_acyclic)

lemma pool_take_front:
  assumes "pool_rep s (x # xs)"
  shows "\<exists>s'. pool_take s = Some (x, s') \<and> pool_rep s' xs \<and> pool_legal s' = pool_legal s"
proof -
  from assms have h: "freePeerIdxHead s = x" "x \<noteq> 0" "lseg (pool_nx s) (pool_nx s x) xs None"
    by (auto simp: pool_rep_def)
  let ?h = "gpLimPeerIdxpool s ! unat x"
  have "?h = 0 \<longleftrightarrow> xs = []"
    using h by (cases xs) (auto simp: pool_nx_def)
  then show ?thesis
    using assms h by (auto simp: pool_take_def pool_rep_def pool_legal_def fun_eq_iff Let_def
        list_all_iff pool_nx_def [of s x])
qed

lemma pool_release_back:
  assumes rep: "pool_rep s fs" and new: "x \<notin> set fs" and legal: "pool_legal s x"
  shows "\<exists>s'. limReleasePeerIdx (ucast x) s = Some s' \<and> pool_rep s' (fs @ [x]) \<and>
    pool_legal s' = pool_legal s"
proof (cases "fs = []")
  case True
  then show ?thesis
    using rep legal by (auto simp: limReleasePeerIdx_def pool_rep_def pool_legal_def pool_nx_def
        fun_eq_iff Let_def)
next
  case False
  then obtain us l where fs: "fs = us @ [l]" by (cases fs rule: rev_cases) auto
  from rep have tail: "freePeerIdxTail s = l" "l \<noteq> 0" "unat l < length (gpLimPeerIdxpool s)"
    and seg: "lseg (pool_nx s) (idx_ptr (freePeerIdxHead s)) fs None"
    by (auto simp: pool_rep_def fs pool_legal_def)
  have x: "x \<noteq> 0" "unat x < length (gpLimPeerIdxpool s)" using legal by (auto simp: pool_legal_def)
  let ?pool = "(gpLimPeerIdxpool s)[unat l := x, unat x := 0]"
  let ?s = "s\<lparr>gLimNumOfCurrentSTAs := gLimNumOfCurrentSTAs s - 1, gpLimPeerIdxpool := ?pool,
              freePeerIdxTail := x\<rparr>"
  have nx: "pool_nx t = (pool_nx s)(l := Some x, x := None)" if "gpLimPeerIdxpool t = ?pool" for t
    using tail x that by (auto simp: pool_nx_def fun_eq_iff)
  have "lseg ((pool_nx s)(l := Some x)) (idx_ptr (freePeerIdxHead s)) fs (Some x)"
    using seg pool_rep_distinct [OF rep] unfolding fs by (rule lseg_relink)
  then have "lseg (pool_nx ?s) (idx_ptr (freePeerIdxHead s)) (fs @ [x]) None"
    using new by (auto simp: nx lseg_append lseg_frame)
  moreover have "limReleasePeerIdx (ucast x) s = Some ?s"
    using tail x by (simp add: limReleasePeerIdx_def Let_def)
  ultimately show ?thesis
    using rep legal by (auto simp: pool_rep_def pool_legal_def fun_eq_iff list_all_iff)
qed

interpretation aid: fifo_queue pool_rep pool_take "\<lambda>x. limReleasePeerIdx (ucast x)" pool_legal
proof
  show "pool_take s = None" if "pool_rep s []" for s
    using that by (simp add: pool_rep_def pool_take_def)
qed (auto intro: pool_take_front pool_release_back)

section \<open>Initialisation\<close>

lemma pool_link_loop_fills:
  assumes "i \<le> m" and "unat m \<le> length pool"
  shows "\<exists>pool'. pool_link_loop pool i m = Some (pool', m) \<and> length pool' = length pool \<and>
    (\<forall>j. pool' ! j = (if unat i \<le> j \<and> j < unat m then of_nat (Suc j) else pool ! j))"
  using assms
proof (induction pool i m rule: pool_link_loop.induct)
  case (1 pool i m)
  show ?case
  proof (cases "i < m")
    case True
    let ?p = "pool[unat i := i + 1]"
    have i: "unat i < length pool" "unat (i + 1) = Suc (unat i)" "i + 1 \<le> m"
      using True "1.prems" by (auto simp: word_less_nat_alt unat_Suc_no_wrap word_le_nat_alt)
    then obtain pool' where p: "pool_link_loop ?p (i + 1) m = Some (pool', m)"
        "length pool' = length pool"
        "\<And>j. pool' ! j = (if Suc (unat i) \<le> j \<and> j < unat m then of_nat (Suc j) else ?p ! j)"
      using "1.IH" [OF True, of ?p] "1.prems" by auto
    have "pool' ! j = (if unat i \<le> j \<and> j < unat m then of_nat (Suc j) else pool ! j)" for j
      using i True unfolding p(3) by (auto simp: nth_list_update word_less_nat_alt)
    then show ?thesis
      using p i True by (subst pool_link_loop.simps) auto
  next
    case False
    then show ?thesis
      using "1.prems" by (subst pool_link_loop.simps) (auto simp: word_less_nat_alt word_le_nat_alt)
  qed
qed

lemma limInitPeerIdxpool_rep:
  assumes "pool_start (limSystemRole s) \<le> ucast (maxStation lim)"
    and "unat (ucast (maxStation lim) :: u8) < length (gpLimPeerIdxpool s)"
  shows "\<exists>s'. limInitPeerIdxpool lim s = Some s' \<and>
    length (gpLimPeerIdxpool s') = length (gpLimPeerIdxpool s) \<and>
    pool_rep s' (map of_nat [unat (pool_start (limSystemRole s))..<Suc (unat (ucast (maxStation lim) :: u8))])"
proof -
  let ?m = "ucast (maxStation lim) :: u8" and ?a = "pool_start (limSystemRole s)"
  let ?p0 = "(gpLimPeerIdxpool s)[0 := 0]"
  obtain p where p: "pool_link_loop ?p0 ?a ?m = Some (p, ?m)" "length p = length (gpLimPeerIdxpool s)"
      "\<And>j. p ! j = (if unat ?a \<le> j \<and> j < unat ?m then of_nat (Suc j) else ?p0 ! j)"
    using pool_link_loop_fills [of ?a ?m ?p0] assms by auto
  let ?s = "s\<lparr>gpLimPeerIdxpool := p[unat ?m := 0], freePeerIdxHead := ?a, freePeerIdxTail := ?m\<rparr>"
  have init: "limInitPeerIdxpool lim s = Some ?s"
    using p assms(2) by (cases "gpLimPeerIdxpool s") (auto simp: limInitPeerIdxpool_def Let_def)
  have am: "unat ?a \<le> unat ?m" "0 < unat ?a" "?a \<noteq> 0" "unat ?m < 256"
    using assms(1) unsigned_less [of ?m]
    by (auto simp: word_le_nat_alt pool_start_def LIM_START_PEER_IDX_def DPH_STA_HASH_INDEX_PEER_def)
  have small: "unat (of_nat j :: u8) = j" if "j \<le> unat ?m" for j
    using that am by (simp add: unat_of_nat)
  have nz: "of_nat j \<noteq> (0::u8)" if "0 < j" "j \<le> unat ?m" for j
    using small [OF that(2)] that(1) by auto
  have "lseg (pool_nx ?s) (Some (of_nat (unat ?a))) (map of_nat [unat ?a..<unat ?m]) (Some (of_nat (unat ?m)))"
  proof (rule lseg_upt [OF am(1)])
    fix j assume j: "unat ?a \<le> j" "j < unat ?m"
    then show "pool_nx ?s (of_nat j) = Some (of_nat (Suc j))"
      using small [of j] nz [of "Suc j"] by (simp add: pool_nx_def p(3))
  qed
  moreover have "pool_nx ?s ?m = None"
    using p(2) assms(2) by (simp add: pool_nx_def)
  ultimately have "lseg (pool_nx ?s) (idx_ptr ?a) (map of_nat [unat ?a..<Suc (unat ?m)]) None"
    using am by (simp add: lseg_append)
  moreover have "list_all (pool_legal ?s) (map of_nat [unat ?a..<Suc (unat ?m)])"
    using am assms(2) p(2) nz small by (auto simp: list_all_iff pool_legal_def)
  ultimately have "pool_rep ?s (map of_nat [unat ?a..<Suc (unat ?m)])"
    using am by (simp add: pool_rep_def)
  with init p(2) show ?thesis by auto
qed

section \<open>Sessions that assign and release indices\<close>

text \<open>
  The states a session goes through between the initialisation of its pool and any number of
  assignments and releases; \<open>asg\<close> are the indices currently held by stations.  Limits and
  the other sessions may change between any two steps, so each step has its own \<open>lim\<close>.
\<close>

inductive aid_reach :: "pe_session \<Rightarrow> u8 list \<Rightarrow> bool" where
  init: "pool_start (limSystemRole s) \<le> ucast (maxStation lim) \<Longrightarrow>
    unat (ucast (maxStation lim) :: u8) < length (gpLimPeerIdxpool s) \<Longrightarrow>
    gLimNumOfCurrentSTAs s = 0 \<Longrightarrow> limInitPeerIdxpool lim s = Some s' \<Longrightarrow> aid_reach s' []"
| assign: "aid_reach s asg \<Longrightarrow> limAssignPeerIdx lim s = (idx, s') \<Longrightarrow> idx \<noteq> 0 \<Longrightarrow>
    aid_reach s' (ucast idx # asg)"
| refuse: "aid_reach s asg \<Longrightarrow> limAssignPeerIdx lim s = (0, s') \<Longrightarrow> aid_reach s' asg"
| release: "aid_reach s asg \<Longrightarrow> idx \<in> set asg \<Longrightarrow> limReleasePeerIdx (ucast idx) s = Some s' \<Longrightarrow>
    aid_reach s' (remove1 idx asg)"

definition aid_inv :: "pe_session \<Rightarrow> u8 list \<Rightarrow> bool" where
  "aid_inv s asg \<longleftrightarrow>
     (\<exists>fs. pool_rep s fs \<and> distinct (fs @ asg) \<and> list_all (pool_legal s) asg) \<and>
     gLimNumOfCurrentSTAs s = of_nat (length asg)"

lemma ucast_u8_u16_zero [simp]: "(ucast (x :: u8) :: u16) = 0 \<longleftrightarrow> x = 0"
  by (metis ucast_u8_u16_u8 ucast_0)

lemma limInit_count:
  "limInitPeerIdxpool lim s = Some s' \<Longrightarrow> gLimNumOfCurrentSTAs s' = gLimNumOfCurrentSTAs s"
  by (auto simp: limInitPeerIdxpool_def Let_def split: option.splits prod.splits)

lemma limRelease_count:
  "limReleasePeerIdx i s = Some s' \<Longrightarrow> gLimNumOfCurrentSTAs s' = gLimNumOfCurrentSTAs s - 1"
  by (auto simp: limReleasePeerIdx_def Let_def split: option.splits if_splits)

lemma limAssign_taken:
  "limAssignPeerIdx lim s = (idx, s') \<Longrightarrow> idx \<noteq> 0 \<Longrightarrow>
   \<exists>x. pool_take s = Some (x, s') \<and> idx = ucast x"
  by (auto simp: limAssignPeerIdx_def split: if_splits option.splits)

lemma limAssign_refused:
  assumes "limAssignPeerIdx lim s = (0, s')"
  shows "s' = s"
proof -
  have "x \<noteq> 0" if "pool_take s = Some (x, t)" for x t
    using that by (auto simp: pool_take_def Let_def split: if_splits)
  with assms show ?thesis by (auto simp: limAssignPeerIdx_def split: if_splits option.splits)
qed

lemma pool_take_count:
  "pool_take s = Some (x, s') \<Longrightarrow> gLimNumOfCurrentSTAs s' = gLimNumOfCurrentSTAs s + 1"
  by (auto simp: pool_take_def Let_def split: if_splits)

lemma aid_inv_assign:
  assumes "aid_inv s asg" and "pool_take s = Some (x, s')"
  shows "aid_inv s' (x # asg)"
proof -
  obtain fs where fs: "pool_rep s fs" "distinct (fs @ asg)" "list_all (pool_legal s) asg"
    using assms(1) by (auto simp: aid_inv_def)
  then obtain gs where gs: "fs = x # gs"
    using aid.get_cases [OF fs(1) assms(2)] by (cases fs) auto
  then have s': "pool_rep s' gs" "pool_legal s' = pool_legal s" "pool_legal s x"
    using pool_take_front [of s x gs] fs(1) assms(2) by (auto simp: pool_rep_def)
  then show ?thesis
    using assms fs gs pool_take_count [OF assms(2)] unfolding aid_inv_def
    by (intro conjI exI [of _ gs]) auto
qed

lemma aid_inv_release:
  assumes inv: "aid_inv s asg" and "x \<in> set asg" and rel: "limReleasePeerIdx (ucast x) s = Some s'"
  shows "aid_inv s' (remove1 x asg)"
proof -
  obtain fs where fs: "pool_rep s fs" "distinct (fs @ asg)" "list_all (pool_legal s) asg"
    using inv by (auto simp: aid_inv_def)
  have "x \<notin> set fs" "pool_legal s x" using fs assms(2) by (auto simp: list_all_iff)
  then have s': "pool_rep s' (fs @ [x])" "pool_legal s' = pool_legal s"
    using pool_release_back [OF fs(1), of x] rel by auto
  have "distinct ((fs @ [x]) @ remove1 x asg)" "list_all (pool_legal s') (remove1 x asg)"
    using fs s'(2) \<open>x \<notin> set fs\<close> notin_set_remove1 [of _ asg x] by (auto simp: list_all_iff)
  moreover obtain k where "length asg = Suc k"
    using assms(2) by (cases asg) auto
  then have "gLimNumOfCurrentSTAs s' = of_nat (length (remove1 x asg))"
    using inv assms(2) limRelease_count [OF rel] by (simp add: aid_inv_def length_remove1)
  ultimately show ?thesis using s'(1) unfolding aid_inv_def by blast
qed

lemma aid_reach_inv: "aid_reach s asg \<Longrightarrow> aid_inv s asg"
proof (induction rule: aid_reach.induct)
  case (init s lim s')
  then show ?case
    using limInitPeerIdxpool_rep [OF init(1,2)] limInit_count [OF init(4)]
    by (auto simp: aid_inv_def dest: pool_rep_distinct)
next
  case (assign s asg lim idx s')
  then obtain x where "pool_take s = Some (x, s')" "idx = ucast x"
    using limAssign_taken by blast
  then show ?case using aid_inv_assign [OF assign.IH] by simp
next
  case (refuse s asg lim s')
  then show ?case using limAssign_refused by blast
next
  case (release s asg idx s')
  then show ?case using aid_inv_release by blast
qed

section \<open>Properties\<close>

text \<open>
  C28. In every reachable session state no two stations hold the same peer index, no held index
  is the null index, and the station counter is the number of held indices; a release of a held
  index never stores outside the pool, and the next assignment, when it succeeds, gives an index
  nobody holds.
\<close>

theorem peer_indices_unique:
  assumes "aid_reach s asg"
  shows "distinct asg \<and> 0 \<notin> set asg \<and> gLimNumOfCurrentSTAs s = of_nat (length asg)
    \<and> (\<forall>idx\<in>set asg. limReleasePeerIdx (ucast idx) s \<noteq> None)
    \<and> (\<forall>lim idx s'. limAssignPeerIdx lim s = (idx, s') \<longrightarrow> idx \<noteq> 0 \<longrightarrow> ucast idx \<notin> set asg)"
proof -
  obtain fs where fs: "pool_rep s fs" "distinct (fs @ asg)" "list_all (pool_legal s) asg"
    and n: "gLimNumOfCurrentSTAs s = of_nat (length asg)"
    using aid_reach_inv [OF assms] by (auto simp: aid_inv_def)
  have rel: "\<forall>idx\<in>set asg. limReleasePeerIdx (ucast idx) s \<noteq> None"
    using pool_release_back [OF fs(1)] fs by (fastforce simp: list_all_iff)
  have "ucast idx \<notin> set asg" if "limAssignPeerIdx lim s = (idx, s')" "idx \<noteq> 0" for lim idx s'
    using limAssign_taken [OF that] aid.get_cases [OF fs(1)] fs(2)
    by (metis IntI UnCI disjoint_iff distinct_append hd_in_set ucast_u8_u16_u8)
  then show ?thesis using fs n rel by (auto simp: list_all_iff pool_legal_def)
qed

definition aid_ex_lim :: lim_global where
  "aid_ex_lim = \<lparr>maxStation = 3, gLimAssocStaLimit = 8, glim_assoc_sta_limit_ap = 8,
     glim_assoc_sta_limit_go = 8, gpSession = []\<rparr>"

definition aid_ex_raw :: pe_session where
  "aid_ex_raw = \<lparr>ps_valid = True, limSystemRole = eLIM_AP_ROLE, pePersona = VOS_STA_SAP_MODE,
     gpLimPeerIdxpool = [0, 0, 0, 0], freePeerIdxHead = 0, freePeerIdxTail = 0,
     gLimNumOfCurrentSTAs = 0\<rparr>"

definition aid_ex_start :: pe_session where
  "aid_ex_start = aid_ex_raw\<lparr>gpLimPeerIdxpool := [0, 2, 3, 0], freePeerIdxHead := 1,
     freePeerIdxTail := 3\<rparr>"

definition aid_ex_one :: pe_session where
  "aid_ex_one = aid_ex_start\<lparr>freePeerIdxHead := 2, gLimNumOfCurrentSTAs := 1\<rparr>"

lemmas aid_ex_defs = aid_ex_lim_def aid_ex_raw_def aid_ex_start_def aid_ex_one_def

lemma aid_ex_init: "limInitPeerIdxpool aid_ex_lim aid_ex_raw = Some aid_ex_start"
  by (simp add: aid_ex_defs limInitPeerIdxpool_def pool_start_def LIM_START_PEER_IDX_def
      pool_link_loop.simps store_at_def)

lemma aid_ex_assign: "limAssignPeerIdx aid_ex_lim aid_ex_start = (1, aid_ex_one)"
  by (simp add: aid_ex_defs limAssignPeerIdx_def assoc_limit_reached_def pool_take_def
      peGetCurrentSTAsCount_def)

lemma aid_ex_reach: "aid_reach aid_ex_one [1]"
proof -
  have "aid_reach aid_ex_start []"
    by (rule aid_reach.init [of aid_ex_raw aid_ex_lim])
      (simp_all add: aid_ex_init, simp_all add: aid_ex_defs pool_start_def LIM_START_PEER_IDX_def)
  from aid_reach.assign [OF this aid_ex_assign] show ?thesis by simp
qed

theorem peer_indices_unique_witness:
  "aid_reach aid_ex_one [1] \<and> distinct [1 :: u8] \<and> gLimNumOfCurrentSTAs aid_ex_one = 1
   \<and> limReleasePeerIdx (ucast (1 :: u8)) aid_ex_one \<noteq> None"
  using peer_indices_unique [OF aid_ex_reach] aid_ex_reach by auto

text \<open>
  The pool is a first-in first-out queue: for any run of assignments and releases in which an
  index is released only while it is not in the pool, the indices handed out followed by those
  still free are the initially free ones followed by the released ones, in order.
\<close>

theorem peer_index_fifo:
  assumes "pool_rep s fs" and "qspec fs ops = Some (outs, ys)" and "list_all (pool_legal s) (qputs ops)"
  shows "\<exists>t. qrun pool_take (\<lambda>i. limReleasePeerIdx (ucast i)) s ops = Some (outs, t) \<and> pool_rep t ys
    \<and> outs @ ys = fs @ qputs ops \<and> distinct ys"
  using aid.run_refines [OF assms(1,2)] assms qspec_fifo qspec_distinct [OF assms(2)]
    pool_rep_distinct [OF assms(1)]
  by (auto simp: list_all_iff)

theorem peer_index_fifo_witness:
  "\<exists>t. qrun pool_take (\<lambda>i. limReleasePeerIdx (ucast i)) aid_ex_start [QGet, QGet, QPut 1, QGet, QGet]
     = Some ([1, 2, 3, 1], t) \<and> pool_rep t []"
proof -
  have "pool_rep aid_ex_start [1, 2, 3]"
    by (simp add: pool_rep_def aid_ex_defs pool_nx_def pool_legal_def)
  from peer_index_fifo [OF this, of "[QGet, QGet, QPut 1, QGet, QGet]" "[1, 2, 3, 1]" "[]"]
  show ?thesis by (auto simp: pool_legal_def aid_ex_defs)
qed

text \<open>
  Initialising the pool of a session whose array has room for the last station index frees
  exactly the indices from the first one of the role (2 for a station, whose index 1 is the access
  point, 1 otherwise) to the last, in increasing order.
\<close>

theorem pool_init_free_list:
  assumes "pool_start (limSystemRole s) \<le> ucast (maxStation lim)"
    and "unat (ucast (maxStation lim) :: u8) < length (gpLimPeerIdxpool s)"
  shows "\<exists>s'. limInitPeerIdxpool lim s = Some s' \<and>
    pool_rep s' (map of_nat [if limSystemRole s = eLIM_STA_ROLE then 2 else 1
                             ..<Suc (unat (ucast (maxStation lim) :: u8))])"
proof -
  have "unat (pool_start (limSystemRole s)) = (if limSystemRole s = eLIM_STA_ROLE then 2 else 1)"
    by (simp add: pool_start_def LIM_START_PEER_IDX_def DPH_STA_HASH_INDEX_PEER_def)
  with limInitPeerIdxpool_rep [OF assms] show ?thesis by auto
qed

theorem pool_init_free_list_witness:
  "\<exists>s'. limInitPeerIdxpool aid_ex_lim aid_ex_raw = Some s' \<and> pool_rep s' [1, 2, 3]"
  using pool_init_free_list [of aid_ex_raw aid_ex_lim]
  by (simp add: aid_ex_defs pool_start_def LIM_START_PEER_IDX_def upt_rec)

end
