(* ===== verification/Keyed_Table.thy ===== *)
theory Keyed_Table
  imports Wlan_Prelude
begin

text \<open>
  The contract of the driver's address tables: a container that finds an element by its key.  The
  provider says which partial map a concrete state represents and proves one law per operation; the
  lemmas below then hold for every run of insertions and removals.  The station table of the protocol
  engine and the peer table of the data path interpret the locale on their own definitions.
\<close>

datatype ('k, 'e) kop = KAdd 'k 'e | KDel 'k 'e

fun krun :: "('k \<Rightarrow> 'e \<Rightarrow> 's \<Rightarrow> 's option) \<Rightarrow> ('k \<Rightarrow> 'e \<Rightarrow> 's \<Rightarrow> 's option) \<Rightarrow> ('k, 'e) kop list \<Rightarrow> 's
    \<Rightarrow> 's option" where
  "krun add del [] s = Some s"
| "krun add del (KAdd k e # ops) s = Option.bind (add k e s) (krun add del ops)"
| "krun add del (KDel k e # ops) s = Option.bind (del k e s) (krun add del ops)"

text \<open>
  The specification: a map with one element per key and one key per element.  Adding a key or an
  element twice and removing what is not there are uses outside the contract.
\<close>

fun kspec :: "('k, 'e) kop list \<Rightarrow> ('k \<rightharpoonup> 'e) \<Rightarrow> ('k \<rightharpoonup> 'e) option" where
  "kspec [] m = Some m"
| "kspec (KAdd k e # ops) m = (if m k = None \<and> e \<notin> ran m then kspec ops (m(k \<mapsto> e)) else None)"
| "kspec (KDel k e # ops) m = (if m k = Some e then kspec ops (m(k := None)) else None)"

fun kadds :: "('k, 'e) kop list \<Rightarrow> ('k \<times> 'e) set" where
  "kadds [] = {}"
| "kadds (KAdd k e # ops) = insert (k, e) (kadds ops)"
| "kadds (KDel k e # ops) = kadds ops"

locale keyed_table =
  fixes rep :: "'s \<Rightarrow> ('k \<rightharpoonup> 'e) \<Rightarrow> bool"
    and look :: "'k \<Rightarrow> 's \<Rightarrow> 'e option option"
    and add :: "'k \<Rightarrow> 'e \<Rightarrow> 's \<Rightarrow> 's option"
    and del :: "'k \<Rightarrow> 'e \<Rightarrow> 's \<Rightarrow> 's option"
    and legal :: "'s \<Rightarrow> 'k \<Rightarrow> 'e \<Rightarrow> bool"
    and key :: "'k \<Rightarrow> bool"
  assumes look_rep: "rep s m \<Longrightarrow> key k \<Longrightarrow> look k s = Some (m k)"
    and add_rep: "rep s m \<Longrightarrow> m k = None \<Longrightarrow> e \<notin> ran m \<Longrightarrow> legal s k e \<Longrightarrow>
      \<exists>s'. add k e s = Some s' \<and> rep s' (m(k \<mapsto> e)) \<and> (\<forall>c f. legal s c f \<longrightarrow> legal s' c f)"
    and del_rep: "rep s m \<Longrightarrow> m k = Some e \<Longrightarrow>
      \<exists>s'. del k e s = Some s' \<and> rep s' (m(k := None)) \<and> (\<forall>c f. legal s c f \<longrightarrow> legal s' c f)"
begin

lemma krun_refines:
  assumes "rep s m" and "kspec ops m = Some m'" and "\<And>k e. (k, e) \<in> kadds ops \<Longrightarrow> legal s k e"
  shows "\<exists>t. krun add del ops s = Some t \<and> rep t m' \<and> (\<forall>k. key k \<longrightarrow> look k t = Some (m' k))"
  using assms
proof (induction ops m arbitrary: s rule: kspec.induct)
  case (1 m)
  then show ?case using look_rep by auto
next
  case (2 k e ops m)
  then have "m k = None" "e \<notin> ran m" by (auto split: if_splits)
  moreover have "legal s k e" using 2(4) by simp
  ultimately obtain s' where s': "add k e s = Some s'" "rep s' (m(k \<mapsto> e))"
    "\<forall>c f. legal s c f \<longrightarrow> legal s' c f"
    using add_rep [OF 2(2)] by blast
  have "kspec ops (m(k \<mapsto> e)) = Some m'" using 2(3) by (auto split: if_splits)
  moreover have "legal s' c f" if "(c, f) \<in> kadds ops" for c f using s'(3) 2(4) that by simp
  ultimately show ?case using 2(1) [OF _ s'(2)] s'(1) \<open>m k = None\<close> \<open>e \<notin> ran m\<close>
    by (simp del: fun_upd_apply)
next
  case (3 k e ops m)
  then have "m k = Some e" by (auto split: if_splits)
  then obtain s' where s': "del k e s = Some s'" "rep s' (m(k := None))" "\<forall>c f. legal s c f \<longrightarrow> legal s' c f"
    using del_rep [OF 3(2)] by blast
  have "kspec ops (m(k := None)) = Some m'" using 3(3) by (auto split: if_splits)
  moreover have "legal s' c f" if "(c, f) \<in> kadds ops" for c f using s'(3) 3(4) that by simp
  ultimately show ?case using 3(1) [OF _ s'(2)] s'(1) \<open>m k = Some e\<close> by (simp del: fun_upd_apply)
qed

text \<open>Removing what was just added gives back the table, for every key.\<close>

lemma add_del:
  assumes "rep s m" and "m k = None" and "e \<notin> ran m" and "legal s k e"
  shows "\<exists>t. krun add del [KAdd k e, KDel k e] s = Some t \<and> (\<forall>c. key c \<longrightarrow> look c t = look c s)"
proof -
  have "kspec [KAdd k e, KDel k e] m = Some m" using assms(2,3) by (simp add: fun_upd_idem)
  from krun_refines [OF assms(1) this] assms(4) look_rep [OF assms(1)] show ?thesis by auto
qed

end

end
