(* ===== verification/Dph_Hash_Table.thy ===== *)
theory Dph_Hash_Table
  imports Keyed_Table
begin

text \<open>
  The station table of a session (\<open>dphHashTable.c\<close>): an array of nodes, one per association id, and
  a hash table of chains of nodes by MAC address.  A node pointer is the index of the node.  Of the
  node's fields those are modelled that the file names; \<open>dphInitStaState\<close> clears the others, and no
  other operation touches them.  \<open>None\<close> is an access outside an array, a division by zero or a loop
  that does not end.
\<close>

section \<open>State\<close>

record dph_node =
  dn_valid :: bool
  dn_added :: bool
  dn_encPolicy :: u8
  dn_assocId :: u16
  dn_staAddr :: mac_addr
  dn_staIndex :: u16
  dn_fragSize :: u16
  dn_isDisassocDeauthInProgress :: u8
  dn_last_assoc_received_time :: u32
  dn_sta_deletion_in_progress :: bool
  dn_next :: "nat option"

record dph_table =
  dt_bins :: "nat option list"
  dt_nodes :: "dph_node list"
  dt_size :: u16

definition HAL_STA_INVALID_IDX :: u16 where "HAL_STA_INVALID_IDX = 0xFF"

definition node_upd :: "nat \<Rightarrow> (dph_node \<Rightarrow> dph_node) \<Rightarrow> dph_table \<Rightarrow> dph_table option" where
  "node_upd n f t = (case load_at (dt_nodes t) n of
      None \<Rightarrow> None
    | Some nd \<Rightarrow> Some (t\<lparr>dt_nodes := (dt_nodes t)[n := f nd]\<rparr>))"

definition dn_init :: "nat \<Rightarrow> dph_node \<Rightarrow> dph_node" where
  "dn_init i nd = nd\<lparr>dn_valid := False, dn_added := False, dn_assocId := of_nat i\<rparr>"

section \<open>Operations\<close>

fun clear_bins :: "nat \<Rightarrow> nat option list \<Rightarrow> nat option list option" where
  "clear_bins 0 bs = Some bs"
| "clear_bins (Suc n) bs = Option.bind (clear_bins n bs) (\<lambda>cs. store_at cs n None)"

fun init_nodes :: "nat \<Rightarrow> dph_node list \<Rightarrow> dph_node list option" where
  "init_nodes 0 ns = Some ns"
| "init_nodes (Suc n) ns =
     Option.bind (init_nodes n ns) (\<lambda>ms. Option.bind (load_at ms n) (\<lambda>nd. store_at ms n (dn_init n nd)))"

definition dphHashTableClassInit :: "dph_table \<Rightarrow> dph_table option" where
  "dphHashTableClassInit t =
     (case (clear_bins (unat (dt_size t)) (dt_bins t), init_nodes (unat (dt_size t)) (dt_nodes t)) of
        (Some bs, Some ns) \<Rightarrow> Some (t\<lparr>dt_bins := bs, dt_nodes := ns\<rparr>)
      | _ \<Rightarrow> None)"

definition hashFunction :: "mac_addr \<Rightarrow> u16 \<Rightarrow> nat option" where
  "hashFunction staAddr numSta =
     (if numSta = 0 \<or> length staAddr < 6 then None
      else Some (unat (fold (\<lambda>b sum. sum + ucast b) (take 6 staAddr) 0 mod numSta :: u16)))"

definition dphCompareMacAddr :: "mac_addr \<Rightarrow> mac_addr \<Rightarrow> bool" where
  "dphCompareMacAddr a1 a2 \<longleftrightarrow>
     a1 ! 0 = a2 ! 0 \<and> a1 ! 1 = a2 ! 1 \<and> a1 ! 2 = a2 ! 2 \<and> a1 ! 3 = a2 ! 3 \<and> a1 ! 4 = a2 ! 4 \<and> a1 ! 5 = a2 ! 5"

partial_function (option) lookup_from :: "mac_addr \<Rightarrow> dph_table \<Rightarrow> nat option \<Rightarrow> nat option option" where
  "lookup_from staAddr t p =
     (case p of
        None \<Rightarrow> Some None
      | Some n \<Rightarrow>
          (case load_at (dt_nodes t) n of
             None \<Rightarrow> None
           | Some nd \<Rightarrow>
               (if dphCompareMacAddr staAddr (dn_staAddr nd) then Some (Some n)
                else lookup_from staAddr t (dn_next nd))))"

text \<open>The node and its association id.\<close>

definition dphLookupHashEntry :: "mac_addr \<Rightarrow> dph_table \<Rightarrow> (nat \<times> u16) option option" where
  "dphLookupHashEntry staAddr t =
     (case hashFunction staAddr (dt_size t) of
        None \<Rightarrow> None
      | Some index \<Rightarrow>
          (case load_at (dt_bins t) index of
             None \<Rightarrow> None
           | Some p \<Rightarrow>
               map_option (map_option (\<lambda>n. (n, dn_assocId (dt_nodes t ! n)))) (lookup_from staAddr t p)))"

definition dphGetHashEntry :: "u16 \<Rightarrow> dph_table \<Rightarrow> nat option option" where
  "dphGetHashEntry peerIdx t =
     (if peerIdx < dt_size t
      then map_option (\<lambda>nd. if dn_added nd then Some (unat peerIdx) else None)
             (load_at (dt_nodes t) (unat peerIdx))
      else Some None)"

definition getNode :: "u8 \<Rightarrow> nat" where "getNode assocId = unat assocId"

text \<open>The loop counter has eight bits, the size of the table sixteen.\<close>

partial_function (option) lookup_aid_from :: "u16 \<Rightarrow> dph_table \<Rightarrow> u8 \<Rightarrow> u8 option option" where
  "lookup_aid_from staIdx t i =
     (if ucast i < dt_size t
      then (case load_at (dt_nodes t) (unat i) of
              None \<Rightarrow> None
            | Some nd \<Rightarrow>
                (if dn_added nd \<and> dn_staIndex nd = staIdx then Some (Some i)
                 else lookup_aid_from staIdx t (i + 1)))
      else Some (if ucast i = dt_size t then None else Some i))"

definition dphLookupAssocId :: "u16 \<Rightarrow> dph_table \<Rightarrow> u8 option option" where
  "dphLookupAssocId staIdx t = lookup_aid_from staIdx t 0"

text \<open>
  \<open>frag_threshold\<close> is the configured fragmentation threshold, when it can be read.
\<close>

definition sta_init :: "u32 option \<Rightarrow> mac_addr \<Rightarrow> u16 \<Rightarrow> bool \<Rightarrow> dph_node \<Rightarrow> dph_node" where
  "sta_init frag_threshold staAddr assocId validStaIdx old =
     \<lparr>dn_valid = True, dn_added = True, dn_encPolicy = 0, dn_assocId = assocId, dn_staAddr = take 6 staAddr,
      dn_staIndex = (if validStaIdx then dn_staIndex old else HAL_STA_INVALID_IDX),
      dn_fragSize = (case frag_threshold of None \<Rightarrow> 0 | Some v \<Rightarrow> ucast v),
      dn_isDisassocDeauthInProgress = 0, dn_last_assoc_received_time = 0,
      dn_sta_deletion_in_progress = False, dn_next = dn_next old\<rparr>"

definition dphInitStaState ::
  "u32 option \<Rightarrow> mac_addr \<Rightarrow> u16 \<Rightarrow> bool \<Rightarrow> dph_table \<Rightarrow> (nat option \<times> dph_table) option" where
  "dphInitStaState frag_threshold staAddr assocId validStaIdx t =
     (if dt_size t \<le> assocId then Some (None, t)
      else (let n = getNode (ucast assocId)
            in map_option (Pair (Some n)) (node_upd n (sta_init frag_threshold staAddr assocId validStaIdx) t)))"

text \<open>
  The search of \<open>dphAddHashEntry\<close>: the first node of the chain that links to itself or has the address
  or the id; the entry is refused when there is one.
\<close>

partial_function (option) add_refused :: "mac_addr \<Rightarrow> u16 \<Rightarrow> nat option \<Rightarrow> dph_table \<Rightarrow> nat option option" where
  "add_refused staAddr assocId p t =
     (case p of
        None \<Rightarrow> Some None
      | Some n \<Rightarrow>
          (case load_at (dt_nodes t) n of
             None \<Rightarrow> None
           | Some nd \<Rightarrow>
               (if dn_next nd = Some n \<or> dphCompareMacAddr staAddr (dn_staAddr nd) \<or> dn_assocId nd = assocId
                then Some (Some n)
                else add_refused staAddr assocId (dn_next nd) t)))"

definition dphAddHashEntry ::
  "u32 option \<Rightarrow> mac_addr \<Rightarrow> u16 \<Rightarrow> dph_table \<Rightarrow> (nat option \<times> dph_table) option" where
  "dphAddHashEntry frag_threshold staAddr assocId t =
     (case hashFunction staAddr (dt_size t) of
        None \<Rightarrow> None
      | Some index \<Rightarrow>
          (if dt_size t \<le> assocId then Some (None, t)
           else (case (load_at (dt_nodes t) (unat assocId), load_at (dt_bins t) index) of
                   (Some nd, Some p) \<Rightarrow>
                     (if dn_added nd then Some (None, t)
                      else (case add_refused staAddr assocId p t of
                              None \<Rightarrow> None
                            | Some (Some _) \<Rightarrow> Some (None, t)
                            | Some None \<Rightarrow>
                                (case dphInitStaState frag_threshold staAddr assocId False t of
                                   None \<Rightarrow> None
                                 | Some (None, t1) \<Rightarrow> Some (None, t1)
                                 | Some (Some _, t1) \<Rightarrow>
                                     (case node_upd (unat assocId) (\<lambda>nd. nd\<lparr>dn_next := p\<rparr>) t1 of
                                        None \<Rightarrow> None
                                      | Some t2 \<Rightarrow>
                                          Some (Some (unat assocId),
                                            t2\<lparr>dt_bins := (dt_bins t2)[index := Some (unat assocId)]\<rparr>)))))
                 | _ \<Rightarrow> None)))"

text \<open>The search of \<open>dphDeleteHashEntry\<close>: the node and the one before it, \<open>Inl\<close> for a self link.\<close>

partial_function (option) del_find ::
  "mac_addr \<Rightarrow> nat option \<Rightarrow> nat option \<Rightarrow> dph_table \<Rightarrow> (unit + nat option \<times> nat option) option" where
  "del_find staAddr prev p t =
     (case p of
        None \<Rightarrow> Some (Inr (prev, None))
      | Some n \<Rightarrow>
          (case load_at (dt_nodes t) n of
             None \<Rightarrow> None
           | Some nd \<Rightarrow>
               (if dphCompareMacAddr staAddr (dn_staAddr nd) then Some (Inr (prev, Some n))
                else if prev = Some n then Some (Inl ())
                else del_find staAddr (Some n) (dn_next nd) t)))"

definition dn_clear :: "dph_node \<Rightarrow> dph_node" where
  "dn_clear nd = nd\<lparr>dn_added := False, dn_isDisassocDeauthInProgress := 0, dn_last_assoc_received_time := 0,
     dn_sta_deletion_in_progress := False, dn_next := None\<rparr>"

text \<open>\<open>True\<close> is \<open>eSIR_SUCCESS\<close>.\<close>

definition dphDeleteHashEntry :: "mac_addr \<Rightarrow> u16 \<Rightarrow> dph_table \<Rightarrow> (bool \<times> dph_table) option" where
  "dphDeleteHashEntry staAddr assocId t =
     (case hashFunction staAddr (dt_size t) of
        None \<Rightarrow> None
      | Some index \<Rightarrow>
          (if dt_size t \<le> assocId then Some (False, t)
           else (case (load_at (dt_nodes t) (unat assocId), load_at (dt_bins t) index) of
                   (Some nd, Some p) \<Rightarrow>
                     (if \<not> dn_added nd then Some (False, t)
                      else (case del_find staAddr None p t of
                              None \<Rightarrow> None
                            | Some (Inl _) \<Rightarrow> Some (False, t)
                            | Some (Inr (prev, None)) \<Rightarrow> Some (False, t)
                            | Some (Inr (prev, Some n)) \<Rightarrow>
                                (case node_upd n (\<lambda>nd. nd\<lparr>dn_valid := False, dn_staAddr := replicate 6 0\<rparr>) t of
                                   None \<Rightarrow> None
                                 | Some t1 \<Rightarrow>
                                     (case (case prev of
                                              None \<Rightarrow> Some (t1\<lparr>dt_bins := (dt_bins t1)[index := dn_next (dt_nodes t1 ! n)]\<rparr>)
                                            | Some q \<Rightarrow> node_upd q (\<lambda>nd. nd\<lparr>dn_next := dn_next (dt_nodes t1 ! n)\<rparr>) t1) of
                                        None \<Rightarrow> None
                                      | Some t2 \<Rightarrow> map_option (Pair True) (node_upd n dn_clear t2)))))
                 | _ \<Rightarrow> None)))"

definition dph_entry_exist :: "mac_addr \<Rightarrow> u16 \<Rightarrow> dph_table \<Rightarrow> bool option" where
  "dph_entry_exist staAddr assocId t =
     (case hashFunction staAddr (dt_size t) of
        None \<Rightarrow> None
      | Some _ \<Rightarrow>
          (if dt_size t \<le> assocId then Some False
           else (case load_at (dt_nodes t) (unat assocId) of
                   None \<Rightarrow> None
                 | Some nd \<Rightarrow>
                     (if dn_added nd then Some True
                      else map_option (\<lambda>r. r \<noteq> None) (dphLookupHashEntry staAddr t)))))"

section \<open>The table a state represents\<close>

abbreviation dph_next :: "dph_table \<Rightarrow> nat \<Rightarrow> nat option" where
  "dph_next t n \<equiv> dn_next (dt_nodes t ! n)"

text \<open>
  A well-formed table with the chains \<open>B\<close>: a node is in the chain of the hash of its address exactly
  when it is added; no two added nodes have the same address.
\<close>

definition dph_inv :: "dph_table \<Rightarrow> (nat \<Rightarrow> nat list) \<Rightarrow> bool" where
  "dph_inv t B \<longleftrightarrow> dt_size t \<noteq> 0 \<and> dt_size t \<le> 256 \<and>
     length (dt_bins t) = unat (dt_size t) \<and> length (dt_nodes t) = unat (dt_size t) \<and>
     (\<forall>i < unat (dt_size t). lseg (dph_next t) (dt_bins t ! i) (B i) None) \<and>
     (\<forall>i < unat (dt_size t). \<forall>n. n \<in> set (B i) \<longleftrightarrow> n < unat (dt_size t) \<and> dn_added (dt_nodes t ! n) \<and>
        hashFunction (dn_staAddr (dt_nodes t ! n)) (dt_size t) = Some i) \<and>
     (\<forall>n < unat (dt_size t). dn_assocId (dt_nodes t ! n) = of_nat n \<and>
        (dn_added (dt_nodes t ! n) \<longrightarrow> length (dn_staAddr (dt_nodes t ! n)) = 6)) \<and>
     inj_on (\<lambda>n. dn_staAddr (dt_nodes t ! n)) {n. n < unat (dt_size t) \<and> dn_added (dt_nodes t ! n)}"

definition dph_rep :: "dph_table \<Rightarrow> (mac_addr \<rightharpoonup> u16) \<Rightarrow> bool" where
  "dph_rep t m \<longleftrightarrow> (\<exists>B. dph_inv t B) \<and>
     (\<forall>a e. m a = Some e \<longleftrightarrow> e < dt_size t \<and> dn_added (dt_nodes t ! unat e) \<and> dn_staAddr (dt_nodes t ! unat e) = a)"

lemma hash_bound:
  assumes "hashFunction a sz = Some i"
  shows "i < unat sz"
proof -
  have "0 < unat sz" using assms by (auto simp: hashFunction_def unat_gt_0 split: if_splits)
  then show ?thesis using assms by (auto simp: hashFunction_def unat_mod split: if_splits)
qed

lemma hash_ex: "length a = 6 \<Longrightarrow> sz \<noteq> 0 \<Longrightarrow> \<exists>i. hashFunction a sz = Some i"
  by (simp add: hashFunction_def)

lemma compare_mac:
  assumes "length a = 6" and "length b = 6"
  shows "dphCompareMacAddr a b \<longleftrightarrow> a = b"
proof -
  have "dphCompareMacAddr a b \<longleftrightarrow> (\<forall>i < 6. a ! i = b ! i)"
    by (simp add: dphCompareMacAddr_def eval_nat_numeral All_less_Suc conj_ac)
  then show ?thesis using assms by (simp add: list_eq_iff_nth_eq)
qed

lemma lookup_from_rep:
  assumes "lseg (dph_next t) p ns None" and "\<forall>n \<in> set ns. n < length (dt_nodes t)"
  shows "lookup_from a t p = Some (find (\<lambda>n. dphCompareMacAddr a (dn_staAddr (dt_nodes t ! n))) ns)"
  using assms
proof (induction ns arbitrary: p)
  case Nil
  then show ?case by (subst lookup_from.simps) simp
next
  case (Cons n ns)
  then show ?case by (subst lookup_from.simps) simp
qed

lemma add_refused_rep:
  assumes "lseg (dph_next t) p ns None" and "\<forall>n \<in> set ns. n < length (dt_nodes t)"
  shows "add_refused a aid p t = Some (find (\<lambda>n. dphCompareMacAddr a (dn_staAddr (dt_nodes t ! n)) \<or>
    dn_assocId (dt_nodes t ! n) = aid) ns)"
  using assms
proof (induction ns arbitrary: p)
  case Nil
  then show ?case by (subst add_refused.simps) simp
next
  case (Cons n ns)
  have "n \<notin> set ns" using lseg_acyclic [OF Cons.prems(1)] by simp
  then have "dph_next t n \<noteq> Some n" using Cons.prems(1) by (cases ns) auto
  with Cons show ?case by (subst add_refused.simps) simp
qed

lemma del_find_rep:
  assumes "lseg (dph_next t) p (us @ n # vs) None" and "\<forall>n \<in> set (us @ n # vs). n < length (dt_nodes t)"
    and "\<forall>u \<in> set us. \<not> dphCompareMacAddr a (dn_staAddr (dt_nodes t ! u))"
    and "dphCompareMacAddr a (dn_staAddr (dt_nodes t ! n))" and "\<forall>q. prev = Some q \<longrightarrow> q \<notin> set us"
  shows "del_find a prev p t = Some (Inr (if us = [] then prev else Some (last us), Some n))"
  using assms
proof (induction us arbitrary: p prev)
  case Nil
  then show ?case by (subst del_find.simps) simp
next
  case (Cons u us)
  have "u \<notin> set us" using lseg_acyclic [OF Cons.prems(1)] by simp
  with Cons show ?case by (subst del_find.simps) auto
qed

lemma dph_chain:
  assumes "dph_inv t B" and "i < unat (dt_size t)"
  shows "lseg (dph_next t) (dt_bins t ! i) (B i) None" "\<forall>n \<in> set (B i). n < length (dt_nodes t)" "distinct (B i)"
  using assms lseg_acyclic by (auto simp: dph_inv_def)

lemma dph_in_chain:
  assumes "dph_inv t B" and "n < unat (dt_size t)" and "dn_added (dt_nodes t ! n)"
    and "hashFunction (dn_staAddr (dt_nodes t ! n)) (dt_size t) = Some i"
  shows "n \<in> set (B i)"
  using assms hash_bound [OF assms(4)] by (simp add: dph_inv_def)

lemma unat_of_nat_lt:
  fixes w :: u16
  assumes "n < unat w"
  shows "unat (of_nat n :: u16) = n"
proof -
  have "n < 2 ^ LENGTH(16)" using assms unsigned_less [of w, where ?'a = nat] by simp
  then show ?thesis by (simp add: unsigned_of_nat take_bit_nat_eq_self)
qed

text \<open>What the invariant gives for the chain of an address.\<close>

lemma dph_bin:
  assumes "dph_inv t B" and "length a = 6"
  obtains i where "hashFunction a (dt_size t) = Some i" "i < unat (dt_size t)"
    "load_at (dt_bins t) i = Some (dt_bins t ! i)"
proof -
  have "dt_size t \<noteq> 0" "length (dt_bins t) = unat (dt_size t)" using assms(1) by (simp_all add: dph_inv_def)
  then show ?thesis using that hash_ex [OF assms(2)] hash_bound by (metis load_at_ok)
qed

lemma dph_same_addr:
  assumes "dph_inv t B" and "i < unat (dt_size t)" and "n \<in> set (B i)" and "length a = 6"
  shows "dphCompareMacAddr a (dn_staAddr (dt_nodes t ! n)) \<longleftrightarrow> dn_staAddr (dt_nodes t ! n) = a"
proof -
  have "length (dn_staAddr (dt_nodes t ! n)) = 6" using assms(1-3) by (simp add: dph_inv_def)
  then show ?thesis using compare_mac [OF assms(4)] by auto
qed

lemma dph_lookup_rep:
  assumes "dph_rep t m" and "length a = 6"
  shows "dphLookupHashEntry a t = Some (map_option (\<lambda>e. (unat e, e)) (m a))"
proof -
  obtain B where B: "dph_inv t B" using assms(1) by (auto simp: dph_rep_def)
  obtain i where i: "hashFunction a (dt_size t) = Some i" "i < unat (dt_size t)"
    "load_at (dt_bins t) i = Some (dt_bins t ! i)" by (rule dph_bin [OF B assms(2)])
  let ?P = "\<lambda>n. dphCompareMacAddr a (dn_staAddr (dt_nodes t ! n))"
  have look: "dphLookupHashEntry a t = Some (map_option (\<lambda>n. (n, dn_assocId (dt_nodes t ! n))) (find ?P (B i)))"
    using i lookup_from_rep [OF dph_chain(1,2) [OF B i(2)]] by (simp add: dphLookupHashEntry_def)
  show ?thesis
  proof (cases "find ?P (B i)")
    case None
    have "m a = None"
    proof (rule ccontr)
      assume "m a \<noteq> None"
      then obtain e where e: "m a = Some e" by auto
      then have "unat e < unat (dt_size t)" "dn_added (dt_nodes t ! unat e)" "dn_staAddr (dt_nodes t ! unat e) = a"
        using assms(1) by (auto simp: dph_rep_def word_less_nat_alt)
      then have "unat e \<in> set (B i)" using dph_in_chain [OF B] i(1) by simp
      then have "\<not> ?P (unat e)" using None by (auto simp: find_None_iff)
      then show False using dph_same_addr [OF B i(2) \<open>unat e \<in> set (B i)\<close> assms(2)]
          \<open>dn_staAddr (dt_nodes t ! unat e) = a\<close> by simp
    qed
    then show ?thesis using look None by simp
  next
    case (Some n)
    then have n: "n \<in> set (B i)" "?P n" by (auto simp: find_Some_iff)
    then have "n < unat (dt_size t)" "dn_added (dt_nodes t ! n)" "dn_staAddr (dt_nodes t ! n) = a"
      using B i(2) dph_same_addr [OF B i(2) n(1) assms(2)] by (auto simp: dph_inv_def)
    moreover have "dn_assocId (dt_nodes t ! n) = of_nat n" using B \<open>n < unat (dt_size t)\<close> by (simp add: dph_inv_def)
    moreover have "unat (of_nat n :: u16) = n" using \<open>n < unat (dt_size t)\<close> by (rule unat_of_nat_lt)
    ultimately have "m a = Some (of_nat n)"
      using assms(1) by (simp add: dph_rep_def word_less_nat_alt)
    then show ?thesis using look Some \<open>dn_assocId (dt_nodes t ! n) = of_nat n\<close> \<open>unat (of_nat n :: u16) = n\<close> by simp
  qed
qed

lemma dph_not_added:
  assumes "dph_rep t m" and "e \<notin> ran m" and "e < dt_size t"
  shows "\<not> dn_added (dt_nodes t ! unat e)"
  using assms by (auto simp: dph_rep_def ran_def)

lemma dph_add_rep:
  assumes rep: "dph_rep t m" and a: "length a = 6" "m a = None" and e: "e \<notin> ran m" "e < dt_size t"
  shows "\<exists>t'. dphAddHashEntry fr a e t = Some (Some (unat e), t') \<and> dph_rep t' (m(a \<mapsto> e)) \<and> dt_size t' = dt_size t"
proof -
  obtain B where B: "dph_inv t B" using rep by (auto simp: dph_rep_def)
  obtain i where i: "hashFunction a (dt_size t) = Some i" "i < unat (dt_size t)"
    "load_at (dt_bins t) i = Some (dt_bins t ! i)" by (rule dph_bin [OF B a(1)])
  define n where "n = unat e"
  have n: "n < unat (dt_size t)" "\<not> dn_added (dt_nodes t ! n)" "of_nat n = e"
    using e dph_not_added [OF rep e] by (simp_all add: n_def word_less_nat_alt)
  have len: "length (dt_nodes t) = unat (dt_size t)" "length (dt_bins t) = unat (dt_size t)" "dt_size t \<le> 256"
    using B by (simp_all add: dph_inv_def)
  have "n \<notin> set (B i)" using B i(2) n by (simp add: dph_inv_def)
  have in_bin: "c < unat (dt_size t) \<and> dn_added (dt_nodes t ! c) \<and> dn_assocId (dt_nodes t ! c) = of_nat c" if "c \<in> set (B i)" for c
    using B i(2) that by (auto simp: dph_inv_def)
  have "find (\<lambda>c. dphCompareMacAddr a (dn_staAddr (dt_nodes t ! c)) \<or> dn_assocId (dt_nodes t ! c) = e) (B i) = None"
  proof -
    have "\<not> dphCompareMacAddr a (dn_staAddr (dt_nodes t ! c)) \<and> dn_assocId (dt_nodes t ! c) \<noteq> e" if c: "c \<in> set (B i)" for c
    proof
      note in_bin [OF c]
      moreover from this have "unat (of_nat c :: u16) = c" using unat_of_nat_lt by blast
      ultimately have "m (dn_staAddr (dt_nodes t ! c)) = Some (of_nat c)" "of_nat c \<noteq> e"
        using rep c \<open>n \<notin> set (B i)\<close> by (auto simp: dph_rep_def word_less_nat_alt n_def)
      then show "\<not> dphCompareMacAddr a (dn_staAddr (dt_nodes t ! c))" "dn_assocId (dt_nodes t ! c) \<noteq> e"
        using a(2) dph_same_addr [OF B i(2) c a(1)] in_bin [OF c] by auto
    qed
    then show ?thesis by (auto simp: find_None_iff)
  qed
  then have ok: "add_refused a e (dt_bins t ! i) t = Some None"
    using add_refused_rep [OF dph_chain(1,2) [OF B i(2)]] by simp
  have get: "getNode (ucast e) = n"
  proof -
    have "unat e < 256" using e(2) len(3) by (simp add: word_less_nat_alt word_le_nat_alt)
    then show ?thesis by (simp add: getNode_def n_def unsigned_ucast_eq take_bit_nat_eq_self)
  qed
  define nd where "nd = (sta_init fr a e False (dt_nodes t ! n))\<lparr>dn_next := dt_bins t ! i\<rparr>"
  define t' where "t' = t\<lparr>dt_nodes := (dt_nodes t)[n := nd], dt_bins := (dt_bins t)[i := Some n]\<rparr>"
  have "dphAddHashEntry fr a e t = Some (Some n, t')"
    using i n len ok get e(2)
    by (simp add: dphAddHashEntry_def dphInitStaState_def node_upd_def Let_def n_def [symmetric] t'_def nd_def not_le)
  moreover have "dph_inv t' (B(i := n # B i))"
  proof -
    have nd: "dn_added nd" "dn_staAddr nd = a" "dn_assocId nd = e" "dn_next nd = dt_bins t ! i"
      using a(1) by (simp_all add: nd_def sta_init_def)
    have node: "dt_nodes t' ! c = (if c = n then nd else dt_nodes t ! c)" for c
      using n len by (simp add: t'_def)
    have bin: "dt_bins t' ! j = (if j = i then Some n else dt_bins t ! j)" for j
      using i len by (simp add: t'_def)
    have out: "n \<notin> set (B j)" if "j < unat (dt_size t)" for j using B that n(2) by (simp add: dph_inv_def)
    have nx: "dph_next t' = (dph_next t)(n := dt_bins t ! i)" by (auto simp: node nd)
    have "lseg (dph_next t') (dt_bins t' ! j) ((B(i := n # B i)) j) None" if "j < unat (dt_size t)" for j
      using dph_chain(1) [OF B that] dph_chain(1) [OF B i(2)] out [OF that] out [OF i(2)]
      by (simp add: nx bin lseg_frame)
    moreover have "c \<in> set ((B(i := n # B i)) j) \<longleftrightarrow> c < unat (dt_size t) \<and> dn_added (dt_nodes t' ! c) \<and>
        hashFunction (dn_staAddr (dt_nodes t' ! c)) (dt_size t) = Some j" if "j < unat (dt_size t)" for c j
      using B that out [OF that] n(1) i(1) by (auto simp: node nd dph_inv_def)
    moreover have "inj_on (\<lambda>c. dn_staAddr (dt_nodes t' ! c)) {c. c < unat (dt_size t) \<and> dn_added (dt_nodes t' ! c)}"
    proof -
      have "dn_staAddr (dt_nodes t ! c) \<noteq> a" if "c < unat (dt_size t)" "dn_added (dt_nodes t ! c)" for c
      proof
        assume "dn_staAddr (dt_nodes t ! c) = a"
        then have "m a = Some (of_nat c)"
          using rep that unat_of_nat_lt [OF that(1)] by (simp add: dph_rep_def word_less_nat_alt)
        then show False using a(2) by simp
      qed
      moreover have "inj_on (\<lambda>c. dn_staAddr (dt_nodes t ! c)) {c. c < unat (dt_size t) \<and> dn_added (dt_nodes t ! c)}"
        using B by (simp add: dph_inv_def)
      ultimately show ?thesis by (auto simp: inj_on_def node nd)
    qed
    moreover have "dn_assocId (dt_nodes t' ! c) = of_nat c \<and>
        (dn_added (dt_nodes t' ! c) \<longrightarrow> length (dn_staAddr (dt_nodes t' ! c)) = 6)" if "c < unat (dt_size t)" for c
      using B that a(1) n(3) by (simp add: dph_inv_def node nd)
    moreover have "dt_size t' = dt_size t" "length (dt_bins t') = unat (dt_size t)"
      "length (dt_nodes t') = unat (dt_size t)" "dt_size t \<noteq> 0"
      using B len by (simp_all add: t'_def dph_inv_def)
    ultimately show ?thesis using len(3) by (simp add: dph_inv_def)
  qed
  moreover have "(m(a \<mapsto> e)) c = Some f \<longleftrightarrow> f < dt_size t' \<and> dn_added (dt_nodes t' ! unat f) \<and> dn_staAddr (dt_nodes t' ! unat f) = c"
    for c f
  proof -
    have "dn_staAddr (dt_nodes t' ! unat f) = (if f = e then a else dn_staAddr (dt_nodes t ! unat f))"
      "dn_added (dt_nodes t' ! unat f) \<longleftrightarrow> f = e \<or> dn_added (dt_nodes t ! unat f)"
      using n len a(1) by (auto simp: t'_def nd_def sta_init_def nth_list_update n_def)
    moreover have "m c = Some f \<longleftrightarrow> f < dt_size t \<and> dn_added (dt_nodes t ! unat f) \<and> dn_staAddr (dt_nodes t ! unat f) = c"
      using rep by (simp add: dph_rep_def)
    moreover have "dt_size t' = dt_size t" by (simp add: t'_def)
    ultimately show ?thesis using a(2) e by (auto simp: ran_def)
  qed
  ultimately show ?thesis by (auto simp: dph_rep_def t'_def n_def)
qed

lemma dph_del_rep:
  assumes rep: "dph_rep t m" and m: "m a = Some e"
  shows "\<exists>t'. dphDeleteHashEntry a e t = Some (True, t') \<and> dph_rep t' (m(a := None)) \<and> dt_size t' = dt_size t"
proof -
  obtain B where B: "dph_inv t B" using rep by (auto simp: dph_rep_def)
  define n where "n = unat e"
  have n: "n < unat (dt_size t)" "dn_added (dt_nodes t ! n)" "dn_staAddr (dt_nodes t ! n) = a" "e < dt_size t"
    using rep m by (simp_all add: dph_rep_def n_def word_less_nat_alt)
  then have a: "length a = 6" using B by (auto simp: dph_inv_def)
  obtain i where i: "hashFunction a (dt_size t) = Some i" "i < unat (dt_size t)"
    "load_at (dt_bins t) i = Some (dt_bins t ! i)" by (rule dph_bin [OF B a])
  have len: "length (dt_nodes t) = unat (dt_size t)" "length (dt_bins t) = unat (dt_size t)"
    using B by (simp_all add: dph_inv_def)
  have nB: "n \<in> set (B i)" using dph_in_chain [OF B n(1,2)] i(1) n(3) by simp
  then obtain us vs where us: "B i = us @ n # vs" by (meson split_list)
  note chain = dph_chain [OF B i(2), unfolded us]
  have uniq: "c = n" if "c < unat (dt_size t)" "dn_added (dt_nodes t ! c)" "dn_staAddr (dt_nodes t ! c) = a" for c
    using B that n by (auto simp: dph_inv_def inj_on_def)
  have in_bin: "c < unat (dt_size t) \<and> dn_added (dt_nodes t ! c)" if "c \<in> set (B i)" for c
    using B i(2) that by (auto simp: dph_inv_def)
  have find: "del_find a None (dt_bins t ! i) t = Some (Inr (if us = [] then None else Some (last us), Some n))"
  proof (rule del_find_rep [OF chain(1,2)])
    show "dphCompareMacAddr a (dn_staAddr (dt_nodes t ! n))" using dph_same_addr [OF B i(2) nB a] n(3) by simp
    show "\<forall>u \<in> set us. \<not> dphCompareMacAddr a (dn_staAddr (dt_nodes t ! u))"
    proof
      fix u assume u: "u \<in> set us"
      then have "u \<in> set (B i)" "u \<noteq> n" using chain(3) by (auto simp: us)
      then show "\<not> dphCompareMacAddr a (dn_staAddr (dt_nodes t ! u))"
        using dph_same_addr [OF B i(2) _ a] uniq in_bin by blast
    qed
  qed simp
  define nd where "nd = dn_clear ((dt_nodes t ! n)\<lparr>dn_valid := False, dn_staAddr := replicate 6 0\<rparr>)"
  define ns where "ns = (if us = [] then dt_nodes t
    else (dt_nodes t)[last us := (dt_nodes t ! last us)\<lparr>dn_next := dph_next t n\<rparr>])"
  define t' where "t' = t\<lparr>dt_nodes := ns[n := nd],
    dt_bins := (if us = [] then (dt_bins t)[i := dph_next t n] else dt_bins t)\<rparr>"
  have lu: "us \<noteq> [] \<Longrightarrow> last us \<noteq> n \<and> last us < length (dt_nodes t) \<and> last us \<in> set us"
    using chain(2,3) last_in_set [of us] by auto
  have "dphDeleteHashEntry a e t = Some (True, t')"
    using i n len find lu
    by (cases "us = []")
      (auto simp: dphDeleteHashEntry_def node_upd_def n_def [symmetric] t'_def nd_def ns_def not_le list_update_swap)
  moreover have node: "dt_nodes t' ! c = (if c = n then nd else if us \<noteq> [] \<and> c = last us
      then (dt_nodes t ! c)\<lparr>dn_next := dph_next t n\<rparr> else dt_nodes t ! c)" for c
    using n lu len by (auto simp: t'_def ns_def)
  have nd: "\<not> dn_added nd" "dn_assocId nd = dn_assocId (dt_nodes t ! n)" "dn_next nd = None"
    by (simp_all add: nd_def dn_clear_def)
  have others: "dn_added (dt_nodes t' ! c) \<longleftrightarrow> c \<noteq> n \<and> dn_added (dt_nodes t ! c)"
    "dn_assocId (dt_nodes t' ! c) = dn_assocId (dt_nodes t ! c)"
    "c \<noteq> n \<Longrightarrow> dn_staAddr (dt_nodes t' ! c) = dn_staAddr (dt_nodes t ! c)" for c
    using nd by (auto simp: node)
  have sz: "dt_size t' = dt_size t" "length (dt_bins t') = unat (dt_size t)" "length (dt_nodes t') = unat (dt_size t)"
    using len by (simp_all add: t'_def ns_def)
  have "dph_inv t' (B(i := us @ vs))"
  proof -
    have nx: "dph_next t' = (if us = [] then dph_next t else (dph_next t)(last us := dph_next t n))(n := None)"
      using lu by (auto simp: node nd)
    have bin: "dt_bins t' ! j = (if j = i \<and> us = [] then dph_next t n else dt_bins t ! j)" for j
      using i(2) len by (simp add: t'_def)
    have out: "n \<notin> set (B j) \<and> (us \<noteq> [] \<longrightarrow> last us \<notin> set (B j))" if "j < unat (dt_size t)" "j \<noteq> i" for j
    proof -
      have "n \<in> set (B i)" "us \<noteq> [] \<longrightarrow> last us \<in> set (B i)" using lu by (auto simp: us)
      then show ?thesis using B that i(2) by (auto simp: dph_inv_def)
    qed
    have "lseg (dph_next t') (dt_bins t' ! j) ((B(i := us @ vs)) j) None" if "j < unat (dt_size t)" for j
    proof (cases "j = i")
      case False
      then show ?thesis
        using dph_chain(1) [OF B that] out [OF that False] by (simp add: nx bin lseg_frame)
    next
      case True
      obtain r where r: "lseg (dph_next t) (dt_bins t ! i) us (Some n)" "lseg (dph_next t) (dph_next t n) vs None"
        using chain(1) by (auto simp: lseg_append)
      show ?thesis
      proof (cases us rule: rev_cases)
        case Nil
        then show ?thesis using r chain(3) True i len by (simp add: nx bin lseg_frame)
      next
        case (snoc ws w)
        then have "lseg ((dph_next t)(w := dph_next t n)) (dt_bins t ! i) (ws @ [w]) (dph_next t n)"
          using r(1) chain(3) by (intro lseg_relink) auto
        moreover have "lseg ((dph_next t)(w := dph_next t n)) (dph_next t n) vs None"
          using r(2) chain(3) snoc by (simp add: lseg_frame)
        ultimately have "lseg ((dph_next t)(w := dph_next t n)) (dt_bins t ! i) (us @ vs) None"
          using snoc by (auto simp: lseg_append)
        then show ?thesis using chain(3) True snoc by (simp add: nx bin lseg_frame)
      qed
    qed
    moreover have "c \<in> set ((B(i := us @ vs)) j) \<longleftrightarrow> c < unat (dt_size t) \<and> dn_added (dt_nodes t' ! c) \<and>
        hashFunction (dn_staAddr (dt_nodes t' ! c)) (dt_size t) = Some j" if "j < unat (dt_size t)" for c j
    proof -
      have "c \<in> set (B j) \<longleftrightarrow> c < unat (dt_size t) \<and> dn_added (dt_nodes t ! c) \<and>
        hashFunction (dn_staAddr (dt_nodes t ! c)) (dt_size t) = Some j" using B that by (simp add: dph_inv_def)
      moreover have "c \<in> set ((B(i := us @ vs)) j) \<longleftrightarrow> c \<in> set (B j) \<and> c \<noteq> n"
        using out [OF that] chain(3) by (cases "j = i") (auto simp: us)
      ultimately show ?thesis using others [of c] by auto
    qed
    moreover have "inj_on (\<lambda>c. dn_staAddr (dt_nodes t' ! c)) {c. c < unat (dt_size t) \<and> dn_added (dt_nodes t' ! c)}"
      using B others by (auto simp: dph_inv_def inj_on_def)
    moreover have "dn_assocId (dt_nodes t' ! c) = of_nat c \<and>
        (dn_added (dt_nodes t' ! c) \<longrightarrow> length (dn_staAddr (dt_nodes t' ! c)) = 6)" if "c < unat (dt_size t)" for c
      using B that others [of c] by (auto simp: dph_inv_def)
    moreover have "dt_size t \<noteq> 0" "dt_size t \<le> 256" using B by (simp_all add: dph_inv_def)
    ultimately show ?thesis using sz by (simp add: dph_inv_def)
  qed
  moreover have "(m(a := None)) c = Some f \<longleftrightarrow> f < dt_size t' \<and> dn_added (dt_nodes t' ! unat f) \<and> dn_staAddr (dt_nodes t' ! unat f) = c"
    for c f
  proof (cases "f = e")
    case True
    then show ?thesis using rep m others(1) [of n] n(3) by (auto simp: dph_rep_def n_def)
  next
    case False
    then have "unat f \<noteq> n" by (simp add: n_def)
    moreover have "m c = Some f \<longleftrightarrow> f < dt_size t \<and> dn_added (dt_nodes t ! unat f) \<and> dn_staAddr (dt_nodes t ! unat f) = c"
      using rep by (simp add: dph_rep_def)
    moreover have "c = a \<Longrightarrow> \<not> (f < dt_size t \<and> dn_added (dt_nodes t ! unat f) \<and> dn_staAddr (dt_nodes t ! unat f) = c)"
      using uniq [of "unat f"] \<open>unat f \<noteq> n\<close> by (auto simp: word_less_nat_alt)
    ultimately show ?thesis using others [of "unat f"] by (auto simp: sz)
  qed
  ultimately show ?thesis using sz by (auto simp: dph_rep_def)
qed

section \<open>The table as a map\<close>

definition dph_look :: "mac_addr \<Rightarrow> dph_table \<Rightarrow> u16 option option" where
  "dph_look a t = map_option (map_option snd) (dphLookupHashEntry a t)"

definition dph_add :: "u32 option \<Rightarrow> mac_addr \<Rightarrow> u16 \<Rightarrow> dph_table \<Rightarrow> dph_table option" where
  "dph_add fr a e t = (case dphAddHashEntry fr a e t of Some (Some _, t') \<Rightarrow> Some t' | _ \<Rightarrow> None)"

definition dph_del :: "mac_addr \<Rightarrow> u16 \<Rightarrow> dph_table \<Rightarrow> dph_table option" where
  "dph_del a e t = (case dphDeleteHashEntry a e t of Some (True, t') \<Rightarrow> Some t' | _ \<Rightarrow> None)"

definition dph_legal :: "dph_table \<Rightarrow> mac_addr \<Rightarrow> u16 \<Rightarrow> bool" where
  "dph_legal t a e \<longleftrightarrow> length a = 6 \<and> e < dt_size t"

interpretation dph: keyed_table dph_rep dph_look "dph_add fr" dph_del dph_legal "\<lambda>a. length a = 6" for fr
proof
  show "dph_look a t = Some (m a)" if "dph_rep t m" "length a = 6" for t m a
    using dph_lookup_rep [OF that] by (cases "m a") (simp_all add: dph_look_def)
  show "\<exists>t'. dph_add fr a e t = Some t' \<and> dph_rep t' (m(a \<mapsto> e)) \<and> (\<forall>c f. dph_legal t c f \<longrightarrow> dph_legal t' c f)"
    if "dph_rep t m" "m a = None" "e \<notin> ran m" "dph_legal t a e" for t m a e
    using dph_add_rep [OF that(1) _ that(2,3), of fr] that(4) by (auto simp: dph_add_def dph_legal_def simp del: fun_upd_apply)
  show "\<exists>t'. dph_del a e t = Some t' \<and> dph_rep t' (m(a := None)) \<and> (\<forall>c f. dph_legal t c f \<longrightarrow> dph_legal t' c f)"
    if "dph_rep t m" "m a = Some e" for t m a e
    using dph_del_rep [OF that] by (auto simp: dph_del_def dph_legal_def simp del: fun_upd_apply)
qed

section \<open>Initialisation\<close>

lemma clear_bins_rep: "n \<le> length bs \<Longrightarrow> clear_bins n bs = Some (replicate n None @ drop n bs)"
proof (induction n)
  case (Suc n)
  then have "drop n bs = (bs ! n) # drop (Suc n) bs" by (simp add: Cons_nth_drop_Suc)
  with Suc show ?case by (simp add: store_at_def list_update_append replicate_append_same flip: replicate_app_Cons_same)
qed simp

lemma init_nodes_rep:
  "n \<le> length ns \<Longrightarrow> init_nodes n ns = Some (map (\<lambda>i. dn_init i (ns ! i)) [0..<n] @ drop n ns)"
proof (induction n)
  case (Suc n)
  then have "drop n ns = (ns ! n) # drop (Suc n) ns" by (simp add: Cons_nth_drop_Suc)
  with Suc show ?case by (simp add: store_at_def load_at_def list_update_append nth_append)
qed simp

lemma dph_init_rep:
  assumes "0 < dt_size t" and "dt_size t \<le> 256" and "length (dt_bins t) = unat (dt_size t)"
    and "length (dt_nodes t) = unat (dt_size t)"
  shows "\<exists>t'. dphHashTableClassInit t = Some t' \<and> dph_rep t' Map.empty \<and> dt_size t' = dt_size t"
proof -
  define t' where "t' = t\<lparr>dt_bins := replicate (unat (dt_size t)) None,
    dt_nodes := map (\<lambda>i. dn_init i (dt_nodes t ! i)) [0..<unat (dt_size t)]\<rparr>"
  have "dphHashTableClassInit t = Some t'"
    using clear_bins_rep [of "unat (dt_size t)" "dt_bins t"] init_nodes_rep [of "unat (dt_size t)" "dt_nodes t"] assms
    by (simp add: dphHashTableClassInit_def t'_def)
  moreover have node: "\<not> dn_added (dt_nodes t' ! c)" "dn_assocId (dt_nodes t' ! c) = of_nat c" if "c < unat (dt_size t)" for c
    using that by (simp_all add: t'_def dn_init_def)
  moreover have sz: "dt_size t' = dt_size t" "dt_bins t' = replicate (unat (dt_size t)) None"
    "length (dt_nodes t') = unat (dt_size t)" by (simp_all add: t'_def)
  moreover have "dph_inv t' (\<lambda>_. [])"
    unfolding dph_inv_def sz using assms node by (auto simp: word_gt_0 inj_on_def)
  moreover have "\<not> dn_added (dt_nodes t' ! unat e)" if "e < dt_size t'" for e
    using that node sz by (simp add: word_less_nat_alt)
  ultimately show ?thesis by (auto simp: dph_rep_def)
qed

section \<open>The station of an index\<close>

lemma lookup_aid_from_rep:
  assumes "unat (dt_size t) < 256" and "length (dt_nodes t) = unat (dt_size t)" and "unat i \<le> unat (dt_size t)"
  shows "lookup_aid_from staIdx t i = Some (map_option of_nat
    (find (\<lambda>n. dn_added (dt_nodes t ! n) \<and> dn_staIndex (dt_nodes t ! n) = staIdx) [unat i..<unat (dt_size t)]))"
  using assms(3)
proof (induction "unat (dt_size t) - unat i" arbitrary: i)
  case 0
  then have "dt_size t = ucast i" by (simp add: le_antisym flip: unat_inject)
  then show ?case by (subst lookup_aid_from.simps) simp
next
  case (Suc d)
  then have lt: "unat i < unat (dt_size t)" by simp
  then have s: "unat (i + 1) = Suc (unat i)" using assms(1) by (simp add: unat_word_ariths)
  have u: "[unat i..<unat (dt_size t)] = unat i # [unat (i + 1)..<unat (dt_size t)]"
    using lt s by (simp add: upt_conv_Cons)
  have "ucast i < dt_size t" using lt by (simp add: word_less_nat_alt)
  moreover have "load_at (dt_nodes t) (unat i) = Some (dt_nodes t ! unat i)" using lt assms(2) by simp
  moreover have "lookup_aid_from staIdx t (i + 1) = Some (map_option of_nat
    (find (\<lambda>n. dn_added (dt_nodes t ! n) \<and> dn_staIndex (dt_nodes t ! n) = staIdx) [unat (i + 1)..<unat (dt_size t)]))"
    using Suc.hyps(2) lt s by (intro Suc.hyps(1)) simp_all
  ultimately show ?case unfolding u by (subst lookup_aid_from.simps) simp
qed

text \<open>With 256 entries or more the counter wraps and a search without a match has no end.\<close>

lemma lookup_aid_from_diverges:
  assumes "lookup_aid_from staIdx t i = Some r"
  shows "256 \<le> dt_size t \<longrightarrow> (\<exists>n < 256. dn_added (dt_nodes t ! n) \<and> dn_staIndex (dt_nodes t ! n) = staIdx)"
proof (rule lookup_aid_from.raw_induct [OF _ assms])
  fix f staIdx and t :: dph_table and i :: u8 and r
  assume IH: "\<And>staIdx t i r. f staIdx t i = Some r \<Longrightarrow>
      256 \<le> dt_size t \<longrightarrow> (\<exists>n < 256. dn_added (dt_nodes t ! n) \<and> dn_staIndex (dt_nodes t ! n) = staIdx)"
    and step: "(if ucast i < dt_size t
      then (case load_at (dt_nodes t) (unat i) of
              None \<Rightarrow> None
            | Some nd \<Rightarrow>
                (if dn_added nd \<and> dn_staIndex nd = staIdx then Some (Some i) else f staIdx t (i + 1)))
      else Some (if ucast i = dt_size t then None else Some i)) = Some r"
  show "256 \<le> dt_size t \<longrightarrow> (\<exists>n < 256. dn_added (dt_nodes t ! n) \<and> dn_staIndex (dt_nodes t ! n) = staIdx)"
  proof
    assume sz: "256 \<le> dt_size t"
    have i: "unat i < 256" using unsigned_less [of i, where ?'a = nat] by simp
    then have "ucast i < dt_size t" using sz by (simp add: word_less_nat_alt word_le_nat_alt)
    then show "\<exists>n < 256. dn_added (dt_nodes t ! n) \<and> dn_staIndex (dt_nodes t ! n) = staIdx"
      using step IH [of staIdx t "i + 1" r] sz i by (auto simp: load_at_def split: if_splits)
  qed
qed

section \<open>Properties\<close>

text \<open>
  C24. The station table refines a finite map: after its initialisation, any sequence of additions
  (of an address and an id not in use) and removals (of an address with its id) succeeds, and then a
  lookup of any address finds exactly the node and the id the map gives, or nothing.
\<close>

theorem dph_table_refines_map:
  assumes "0 < dt_size t" and "dt_size t \<le> 256" and "length (dt_bins t) = unat (dt_size t)"
    and "length (dt_nodes t) = unat (dt_size t)"
    and "kspec ops Map.empty = Some m" and "\<forall>(a, e) \<in> kadds ops. length a = 6 \<and> e < dt_size t"
  shows "\<exists>t0 t1. dphHashTableClassInit t = Some t0 \<and> krun (dph_add fr) dph_del ops t0 = Some t1 \<and>
    (\<forall>a. length a = 6 \<longrightarrow> dphLookupHashEntry a t1 = Some (map_option (\<lambda>e. (unat e, e)) (m a)))"
proof -
  obtain t0 where t0: "dphHashTableClassInit t = Some t0" "dph_rep t0 Map.empty" "dt_size t0 = dt_size t"
    using dph_init_rep [OF assms(1-4)] by blast
  have "\<And>a e. (a, e) \<in> kadds ops \<Longrightarrow> dph_legal t0 a e" using assms(6) t0(3) by (auto simp: dph_legal_def)
  from dph.krun_refines [OF t0(2) assms(5) this, of fr]
  obtain t1 where "krun (dph_add fr) dph_del ops t0 = Some t1" "dph_rep t1 m" by blast
  then show ?thesis using t0(1) dph_lookup_rep by blast
qed

definition dph_ex :: dph_table where
  "dph_ex = \<lparr>dt_bins = replicate 4 None, dt_nodes = replicate 4
     \<lparr>dn_valid = False, dn_added = False, dn_encPolicy = 0, dn_assocId = 0, dn_staAddr = replicate 6 0,
      dn_staIndex = 0, dn_fragSize = 0, dn_isDisassocDeauthInProgress = 0, dn_last_assoc_received_time = 0,
      dn_sta_deletion_in_progress = False, dn_next = None\<rparr>, dt_size = 4\<rparr>"

text \<open>Two addresses with the same hash; the one added first is removed.\<close>

theorem dph_table_refines_map_witness:
  "\<exists>t0 t1. dphHashTableClassInit dph_ex = Some t0 \<and>
    krun (dph_add None) dph_del [KAdd [1, 2, 3, 4, 5, 6] 1, KAdd [6, 5, 4, 3, 2, 1] 2, KDel [1, 2, 3, 4, 5, 6] 1] t0 = Some t1 \<and>
    dphLookupHashEntry [6, 5, 4, 3, 2, 1] t1 = Some (Some (2, 2)) \<and>
    dphLookupHashEntry [1, 2, 3, 4, 5, 6] t1 = Some None"
  using dph_table_refines_map [of dph_ex "[KAdd [1, 2, 3, 4, 5, 6] 1, KAdd [6, 5, 4, 3, 2, 1] 2, KDel [1, 2, 3, 4, 5, 6] 1]" _ None]
  by (fastforce simp: dph_ex_def)

text \<open>
  An addition of an id that is out of range or in use, or of an address that is in the table, is
  refused and changes nothing.
\<close>

theorem dph_add_refused:
  assumes "dph_rep t m" and "length a = 6" and "dt_size t \<le> e \<or> e \<in> ran m \<or> m a \<noteq> None"
  shows "dphAddHashEntry fr a e t = Some (None, t)"
proof (cases "dt_size t \<le> e \<or> e \<in> ran m")
  case True
  obtain B where B: "dph_inv t B" using assms(1) by (auto simp: dph_rep_def)
  obtain i where i: "hashFunction a (dt_size t) = Some i" "load_at (dt_bins t) i = Some (dt_bins t ! i)"
    using dph_bin [OF B assms(2)] by metis
  have "load_at (dt_nodes t) (unat e) = Some (dt_nodes t ! unat e) \<and> dn_added (dt_nodes t ! unat e)" if "e < dt_size t"
  proof -
    obtain b where "m b = Some e" using True \<open>e < dt_size t\<close> by (auto simp: ran_def)
    then have "dn_added (dt_nodes t ! unat e)" using assms(1) by (simp add: dph_rep_def)
    then show ?thesis using B that by (simp add: dph_inv_def word_less_nat_alt)
  qed
  then show ?thesis using i by (auto simp: dphAddHashEntry_def not_le)
next
  case False
  then obtain f where f: "m a = Some f" "e < dt_size t" using assms(3) by (auto simp: not_le)
  obtain B where B: "dph_inv t B" using assms(1) by (auto simp: dph_rep_def)
  obtain i where i: "hashFunction a (dt_size t) = Some i" "i < unat (dt_size t)" "load_at (dt_bins t) i = Some (dt_bins t ! i)"
    by (rule dph_bin [OF B assms(2)])
  have n: "unat f < unat (dt_size t)" "dn_added (dt_nodes t ! unat f)" "dn_staAddr (dt_nodes t ! unat f) = a"
    using assms(1) f(1) by (auto simp: dph_rep_def word_less_nat_alt)
  have "unat f \<in> set (B i)" using dph_in_chain [OF B n(1,2)] n(3) i(1) by simp
  moreover have "dphCompareMacAddr a (dn_staAddr (dt_nodes t ! unat f))"
    using dph_same_addr [OF B i(2) \<open>unat f \<in> set (B i)\<close> assms(2)] n(3) by simp
  ultimately have "find (\<lambda>n. dphCompareMacAddr a (dn_staAddr (dt_nodes t ! n)) \<or> dn_assocId (dt_nodes t ! n) = e) (B i) \<noteq> None"
    by (auto simp: find_None_iff)
  then obtain c where "add_refused a e (dt_bins t ! i) t = Some (Some c)"
    using add_refused_rep [OF dph_chain(1,2) [OF B i(2)]] by auto
  moreover have "load_at (dt_nodes t) (unat e) = Some (dt_nodes t ! unat e)"
    using f(2) B by (simp add: dph_inv_def word_less_nat_alt)
  ultimately show ?thesis using i f(2) by (auto simp: dphAddHashEntry_def not_le)
qed

theorem dph_add_refused_witness:
  "\<exists>t0. dphHashTableClassInit dph_ex = Some t0 \<and> dphAddHashEntry None (replicate 6 7) 9 t0 = Some (None, t0)"
proof -
  obtain t0 where t0: "dphHashTableClassInit dph_ex = Some t0" "dph_rep t0 Map.empty" "dt_size t0 = 4"
    using dph_init_rep [of dph_ex] by (auto simp: dph_ex_def)
  from dph_add_refused [OF t0(2), of "replicate 6 7" 9 None] t0 show ?thesis by simp
qed

text \<open>
  The search for the station of an index ends and finds the first added node with that index when
  the table has less than 256 entries; with 256 entries or more the 8-bit counter of the loop wraps, and
  a search for an index that no node has does not end.
\<close>

lemma dph_lookup_assoc_id_ends:
  assumes "length (dt_nodes t) = unat (dt_size t)"
  shows "(dt_size t < 256 \<longrightarrow> dphLookupAssocId staIdx t = Some (map_option of_nat
      (find (\<lambda>n. dn_added (dt_nodes t ! n) \<and> dn_staIndex (dt_nodes t ! n) = staIdx) [0..<unat (dt_size t)]))) \<and>
    (256 \<le> dt_size t \<longrightarrow> (\<forall>n < 256. \<not> (dn_added (dt_nodes t ! n) \<and> dn_staIndex (dt_nodes t ! n) = staIdx)) \<longrightarrow>
      dphLookupAssocId staIdx t = None)"
proof (intro conjI impI)
  assume "dt_size t < 256"
  then show "dphLookupAssocId staIdx t = Some (map_option of_nat
      (find (\<lambda>n. dn_added (dt_nodes t ! n) \<and> dn_staIndex (dt_nodes t ! n) = staIdx) [0..<unat (dt_size t)]))"
    using lookup_aid_from_rep [of t 0 staIdx] assms by (simp add: dphLookupAssocId_def word_less_nat_alt)
next
  assume "256 \<le> dt_size t" "\<forall>n < 256. \<not> (dn_added (dt_nodes t ! n) \<and> dn_staIndex (dt_nodes t ! n) = staIdx)"
  then show "dphLookupAssocId staIdx t = None"
    using lookup_aid_from_diverges [of staIdx t 0] by (cases "lookup_aid_from staIdx t 0") (auto simp: dphLookupAssocId_def)
qed

theorem dph_lookup_assoc_id_ends_witness:
  "dphLookupAssocId 3 dph_ex = Some None \<and>
   dphLookupAssocId 3 (dph_ex\<lparr>dt_nodes := replicate 256 (hd (dt_nodes dph_ex)), dt_size := 256\<rparr>) = None"
proof
  have "find (\<lambda>n. dn_added (dt_nodes dph_ex ! n) \<and> dn_staIndex (dt_nodes dph_ex ! n) = 3) [0..<4] = None"
    by (auto simp: find_None_iff dph_ex_def)
  then show "dphLookupAssocId 3 dph_ex = Some None"
    using dph_lookup_assoc_id_ends [of dph_ex 3] by (simp add: dph_ex_def)
next
  define t where "t = dph_ex\<lparr>dt_nodes := replicate 256 (hd (dt_nodes dph_ex)), dt_size := 256\<rparr>"
  have "\<not> dn_added (dt_nodes t ! n)" if "n < 256" for n
    using that by (simp add: t_def dph_ex_def)
  moreover have "length (dt_nodes t) = 256" "dt_size t = 256" by (simp_all add: t_def)
  ultimately show "dphLookupAssocId 3 (dph_ex\<lparr>dt_nodes := replicate 256 (hd (dt_nodes dph_ex)), dt_size := 256\<rparr>) = None"
    using dph_lookup_assoc_id_ends [of t 3] unfolding t_def [symmetric] by simp
qed

end
