(* ===== verification/Tailq.thy ===== *)
theory Tailq
  imports Fifo_Queue
begin

text \<open>
  The intrusive tail queues of \<open>queue.h\<close>.  Every element has a next pointer and the address of
  the previous next field; a head has the first pointer and the address of the last next field.
  The address of a next field is either that of a head or that of an element's link.  Several heads
  may share one link field, as the bins of a hash table do.  \<open>None\<close> is a store through a null
  \<open>tqe_prev\<close>.
\<close>

section \<open>State and operations\<close>

datatype ('h, 'e) tq_addr = HeadFirst 'h | NextOf 'e

record ('h, 'e) tailqs =
  tqh_first :: "'h \<Rightarrow> 'e option"
  tqh_last :: "'h \<Rightarrow> ('h, 'e) tq_addr"
  tqe_next :: "'e \<Rightarrow> 'e option"
  tqe_prev :: "'e \<Rightarrow> ('h, 'e) tq_addr option"

fun tq_write :: "('h, 'e) tq_addr \<Rightarrow> 'e option \<Rightarrow> ('h, 'e) tailqs \<Rightarrow> ('h, 'e) tailqs" where
  "tq_write (HeadFirst h) v q = q\<lparr>tqh_first := (tqh_first q)(h := v)\<rparr>"
| "tq_write (NextOf e) v q = q\<lparr>tqe_next := (tqe_next q)(e := v)\<rparr>"

definition TAILQ_INIT :: "'h \<Rightarrow> ('h, 'e) tailqs \<Rightarrow> ('h, 'e) tailqs" where
  "TAILQ_INIT h q =
     q\<lparr>tqh_first := (tqh_first q)(h := None), tqh_last := (tqh_last q)(h := HeadFirst h)\<rparr>"

definition TAILQ_INSERT_TAIL :: "'h \<Rightarrow> 'e \<Rightarrow> ('h, 'e) tailqs \<Rightarrow> ('h, 'e) tailqs" where
  "TAILQ_INSERT_TAIL h e q0 =
     (let q1 = q0\<lparr>tqe_next := (tqe_next q0)(e := None)\<rparr>;
          q2 = q1\<lparr>tqe_prev := (tqe_prev q1)(e := Some (tqh_last q1 h))\<rparr>;
          q3 = tq_write (tqh_last q2 h) (Some e) q2
      in q3\<lparr>tqh_last := (tqh_last q3)(h := NextOf e)\<rparr>)"

definition TAILQ_REMOVE :: "'h \<Rightarrow> 'e \<Rightarrow> ('h, 'e) tailqs \<Rightarrow> ('h, 'e) tailqs option" where
  "TAILQ_REMOVE h e q =
     (case tqe_prev q e of
        None \<Rightarrow> None
      | Some a \<Rightarrow>
          (let q1 = (case tqe_next q e of
                       Some n \<Rightarrow> q\<lparr>tqe_prev := (tqe_prev q)(n := Some a)\<rparr>
                     | None \<Rightarrow> q\<lparr>tqh_last := (tqh_last q)(h := a)\<rparr>)
           in Some (tq_write a (tqe_next q e) q1)))"

definition TAILQ_EMPTY :: "'h \<Rightarrow> ('h, 'e) tailqs \<Rightarrow> bool" where
  "TAILQ_EMPTY h q \<longleftrightarrow> tqh_first q h = None"

text \<open>
  The search of a \<open>TAILQ_FOREACH\<close> with an early exit: the first element satisfying the test.
  A cyclic list would not end the loop.
\<close>

partial_function (option) tq_find_from ::
  "('e \<Rightarrow> bool) \<Rightarrow> ('h, 'e) tailqs \<Rightarrow> 'e option \<Rightarrow> 'e option option" where
  "tq_find_from P q p =
     (case p of
        None \<Rightarrow> Some None
      | Some e \<Rightarrow> if P e then Some (Some e) else tq_find_from P q (tqe_next q e))"

section \<open>The list a head represents\<close>

primrec prevs_ok :: "('h, 'e) tailqs \<Rightarrow> ('h, 'e) tq_addr \<Rightarrow> 'e list \<Rightarrow> bool" where
  "prevs_ok q a [] = True"
| "prevs_ok q a (e # es) = (tqe_prev q e = Some a \<and> prevs_ok q (NextOf e) es)"

definition tq_end :: "'h \<Rightarrow> 'e list \<Rightarrow> ('h, 'e) tq_addr" where
  "tq_end h es = (if es = [] then HeadFirst h else NextOf (last es))"

definition tailq_rep :: "'h \<Rightarrow> ('h, 'e) tailqs \<Rightarrow> 'e list \<Rightarrow> bool" where
  "tailq_rep h q es \<longleftrightarrow>
     lseg (tqe_next q) (tqh_first q h) es None \<and> tqh_last q h = tq_end h es \<and>
     prevs_ok q (HeadFirst h) es"

lemma prevs_ok_append [chain_rules]:
  "prevs_ok q a (es @ fs) \<longleftrightarrow> prevs_ok q a es \<and>
     prevs_ok q (if es = [] then a else NextOf (last es)) fs"
  by (induction es arbitrary: a) auto

lemma prevs_ok_cong:
  "(\<And>e. e \<in> set es \<Longrightarrow> tqe_prev q e = tqe_prev q' e) \<Longrightarrow> prevs_ok q a es = prevs_ok q' a es"
  by (induction es arbitrary: a) auto

lemma prevs_ok_frame:
  "tqe_prev q' = (tqe_prev q)(v := x) \<Longrightarrow> v \<notin> set es \<Longrightarrow> prevs_ok q' a es = prevs_ok q a es"
  by (rule prevs_ok_cong) auto

lemma tailq_rep_distinct: "tailq_rep h q es \<Longrightarrow> distinct es"
  unfolding tailq_rep_def by (blast intro: lseg_acyclic)

lemma tailq_rep_unique: "tailq_rep h q es \<Longrightarrow> tailq_rep h q fs \<Longrightarrow> es = fs"
  unfolding tailq_rep_def by (blast intro: lseg_det)

lemma tailq_rep_init: "tailq_rep h (TAILQ_INIT h q) []"
  by (simp add: tailq_rep_def TAILQ_INIT_def tq_end_def)

lemma TAILQ_EMPTY_iff: "tailq_rep h q es \<Longrightarrow> TAILQ_EMPTY h q \<longleftrightarrow> es = []"
  by (cases es) (auto simp: tailq_rep_def TAILQ_EMPTY_def)

lemma tailq_insert_tail:
  assumes rep: "tailq_rep h q es" and new: "e \<notin> set es"
  shows "tailq_rep h (TAILQ_INSERT_TAIL h e q) (es @ [e])"
proof (cases es rule: rev_cases)
  case Nil
  then show ?thesis
    using rep by (simp add: tailq_rep_def TAILQ_INSERT_TAIL_def tq_end_def Let_def)
next
  case (snoc us l)
  have last: "tqh_last q h = NextOf l" and seg: "lseg (tqe_next q) (tqh_first q h) es None"
    and prv: "prevs_ok q (HeadFirst h) es"
    using rep by (auto simp: tailq_rep_def tq_end_def snoc)
  let ?q = "TAILQ_INSERT_TAIL h e q"
  have f: "tqe_next ?q = (tqe_next q)(e := None, l := Some e)" "tqh_first ?q = tqh_first q"
    "tqh_last ?q h = NextOf e" "tqe_prev ?q = (tqe_prev q)(e := Some (NextOf l))"
    using last new snoc by (auto simp: TAILQ_INSERT_TAIL_def Let_def)
  have "lseg ((tqe_next q)(e := None)) (tqh_first q h) (us @ [l]) None"
    using seg new by (simp add: lseg_frame snoc)
  then have "lseg (tqe_next ?q) (tqh_first q h) (us @ [l]) (Some e)"
    unfolding f using tailq_rep_distinct [OF rep] snoc by (intro lseg_relink) auto
  then have "lseg (tqe_next ?q) (tqh_first q h) (es @ [e]) None"
    using new by (auto simp: lseg_append f snoc)
  moreover have "prevs_ok ?q (HeadFirst h) es"
    using prv new by (subst prevs_ok_cong [of _ _ q]) (auto simp: f)
  ultimately show ?thesis
    by (auto simp: tailq_rep_def f tq_end_def prevs_ok_append snoc)
qed

text \<open>What a removal in the middle, at the front and at the back have in common.\<close>

lemma tailq_remove:
  assumes rep: "tailq_rep h q (us @ e # vs)"
  shows "\<exists>q'. TAILQ_REMOVE h e q = Some q' \<and> tailq_rep h q' (us @ vs)"
proof -
  have dist: "distinct (us @ e # vs)" using rep by (rule tailq_rep_distinct)
  define a where "a = (tq_end h us :: ('a, 'b) tq_addr)"
  have prv: "prevs_ok q (HeadFirst h) us" "tqe_prev q e = Some a" "prevs_ok q (NextOf e) vs"
    and seg: "lseg (tqe_next q) (tqh_first q h) us (Some e)" "lseg (tqe_next q) (tqe_next q e) vs None"
    and last: "tqh_last q h = (if vs = [] then NextOf e else NextOf (last vs))"
    using rep by (auto simp: tailq_rep_def prevs_ok_append lseg_append a_def tq_end_def)
  obtain q' where q': "TAILQ_REMOVE h e q = Some q'"
    using prv by (simp add: TAILQ_REMOVE_def)
  have nxt: "lseg (tqe_next q') (tqh_first q' h) us (tqe_next q e)"
      and nxt': "lseg (tqe_next q') (tqe_next q e) vs None"
  proof -
    have eq: "tqe_next q' = (case a of HeadFirst _ \<Rightarrow> tqe_next q | NextOf f \<Rightarrow> (tqe_next q)(f := tqe_next q e))"
      "tqh_first q' = (case a of HeadFirst g \<Rightarrow> (tqh_first q)(g := tqe_next q e) | NextOf f \<Rightarrow> tqh_first q)"
      using q' prv by (auto simp: TAILQ_REMOVE_def Let_def split: option.splits tq_addr.splits)
    show "lseg (tqe_next q') (tqh_first q' h) us (tqe_next q e)"
      using seg dist by (cases us rule: rev_cases) (auto simp: eq a_def tq_end_def lseg_append lseg_frame)
    show "lseg (tqe_next q') (tqe_next q e) vs None"
      using seg dist by (cases us rule: rev_cases) (auto simp: eq a_def tq_end_def lseg_frame)
  qed
  have "prevs_ok q' (HeadFirst h) us \<and> prevs_ok q' a vs \<and> tqh_last q' h = tq_end h (us @ vs)"
  proof (cases vs)
    case Nil
    then have "tqe_prev q' = tqe_prev q" "tqh_last q' = (tqh_last q)(h := a)"
      using q' prv seg by (auto simp: TAILQ_REMOVE_def Let_def a_def tq_end_def split: option.splits)
    then show ?thesis using prv Nil by (auto simp: a_def tq_end_def cong: prevs_ok_cong)
  next
    case (Cons v ws)
    then have "tqe_prev q' = (tqe_prev q)(v := Some a)" "tqh_last q' = tqh_last q"
      using q' prv seg by (auto simp: TAILQ_REMOVE_def Let_def a_def tq_end_def split: option.splits)
    then have "prevs_ok q' (HeadFirst h) us" "prevs_ok q' (NextOf v) ws" "tqe_prev q' v = Some a"
        "tqh_last q' h = tqh_last q h"
      using prv dist Cons by (auto simp: prevs_ok_frame [of q' q v])
    then show ?thesis using last Cons by (auto simp: tq_end_def)
  qed
  then have "tailq_rep h q' (us @ vs)"
    using nxt nxt' by (auto simp: tailq_rep_def lseg_append prevs_ok_append a_def tq_end_def split: if_splits)
  with q' show ?thesis by blast
qed

lemma tq_find_from_rep:
  "lseg (tqe_next q) p es None \<Longrightarrow> tq_find_from P q p = Some (find P es)"
proof (induction es arbitrary: p)
  case Nil
  then show ?case by (subst tq_find_from.simps) simp
next
  case (Cons e es)
  then show ?case by (subst tq_find_from.simps) auto
qed

text \<open>Operations on one head leave the lists of the other heads alone.\<close>

lemma TAILQ_INSERT_TAIL_fields:
  "tqe_next (TAILQ_INSERT_TAIL h e q) =
     (case tqh_last q h of HeadFirst _ \<Rightarrow> (tqe_next q)(e := None)
                         | NextOf l \<Rightarrow> (tqe_next q)(e := None, l := Some e))"
  "tqe_prev (TAILQ_INSERT_TAIL h e q) = (tqe_prev q)(e := Some (tqh_last q h))"
  "tqh_first (TAILQ_INSERT_TAIL h e q) =
     (case tqh_last q h of HeadFirst g \<Rightarrow> (tqh_first q)(g := Some e) | NextOf _ \<Rightarrow> tqh_first q)"
  "tqh_last (TAILQ_INSERT_TAIL h e q) = (tqh_last q)(h := NextOf e)"
  by (cases "tqh_last q h"; simp add: TAILQ_INSERT_TAIL_def Let_def)+

lemma tq_write_fields:
  "tqe_next (tq_write a v q) =
     (case a of HeadFirst _ \<Rightarrow> tqe_next q | NextOf l \<Rightarrow> (tqe_next q)(l := v))"
  "tqh_first (tq_write a v q) =
     (case a of HeadFirst g \<Rightarrow> (tqh_first q)(g := v) | NextOf _ \<Rightarrow> tqh_first q)"
  "tqe_prev (tq_write a v q) = tqe_prev q" "tqh_last (tq_write a v q) = tqh_last q"
  by (cases a; simp)+

lemma tailq_rep_cong:
  assumes "\<And>c. c \<in> set fs \<Longrightarrow> tqe_next q' c = tqe_next q c"
    and "\<And>c. c \<in> set fs \<Longrightarrow> tqe_prev q' c = tqe_prev q c"
    and "tqh_first q' g = tqh_first q g" and "tqh_last q' g = tqh_last q g"
    and "tailq_rep g q fs"
  shows "tailq_rep g q' fs"
  using assms lseg_cong [of fs "tqe_next q'" "tqe_next q"] prevs_ok_cong [of fs q' q]
  by (simp add: tailq_rep_def)

text \<open>The cell an address of a list's own next fields belongs to is a cell of the list.\<close>

lemma tq_end_not_other:
  assumes "set es \<inter> set fs = {}" and "c \<in> set fs"
  shows "tq_end h es \<noteq> NextOf c" "g \<noteq> h \<Longrightarrow> tq_end h es \<noteq> HeadFirst g"
proof -
  have "last es \<notin> set fs" if "es \<noteq> []" using last_in_set [OF that] assms(1) by blast
  with assms(2) show "tq_end h es \<noteq> NextOf c" "g \<noteq> h \<Longrightarrow> tq_end h es \<noteq> HeadFirst g"
    by (auto simp: tq_end_def)
qed

lemma tailq_insert_tail_frame:
  assumes h: "tailq_rep h q es" and g: "tailq_rep g q fs" and gh: "g \<noteq> h" and e: "e \<notin> set fs"
    and dis: "set es \<inter> set fs = {}"
  shows "tailq_rep g (TAILQ_INSERT_TAIL h e q) fs"
proof (rule tailq_rep_cong [OF _ _ _ _ g])
  have last: "tqh_last q h = tq_end h es" using h by (simp add: tailq_rep_def)
  show "tqe_next (TAILQ_INSERT_TAIL h e q) c = tqe_next q c" if "c \<in> set fs" for c
    using tq_end_not_other(1) [OF dis that, of h] that e
    by (cases "tq_end h es") (auto simp: TAILQ_INSERT_TAIL_fields last)
  show "tqh_first (TAILQ_INSERT_TAIL h e q) g = tqh_first q g"
    using gh by (simp add: TAILQ_INSERT_TAIL_fields last tq_end_def)
qed (use e gh in \<open>auto simp: TAILQ_INSERT_TAIL_fields\<close>)

lemma tailq_remove_frame:
  assumes h: "tailq_rep h q (us @ e # vs)" and g: "tailq_rep g q fs" and gh: "g \<noteq> h"
    and dis: "set (us @ e # vs) \<inter> set fs = {}" and q': "TAILQ_REMOVE h e q = Some q'"
  shows "tailq_rep g q' fs"
proof (rule tailq_rep_cong [OF _ _ _ _ g])
  have prv: "tqe_prev q e = Some (tq_end h us)"
    using h by (simp add: tailq_rep_def prevs_ok_append tq_end_def)
  have "lseg (tqe_next q) (tqe_next q e) vs None"
    using h by (auto simp: tailq_rep_def lseg_append)
  then have n: "tqe_next q e = (case vs of [] \<Rightarrow> None | v # _ \<Rightarrow> Some v)"
    by (cases vs) auto
  have us: "set us \<inter> set fs = {}" using dis by auto
  show "tqe_next q' c = tqe_next q c" if "c \<in> set fs" for c
    using tq_end_not_other(1) [OF us that, of h] q' prv n
    by (cases "tq_end h us"; cases vs) (auto simp: TAILQ_REMOVE_def tq_write_fields)
  show "tqe_prev q' c = tqe_prev q c" if "c \<in> set fs" for c
    using q' prv n that dis by (cases vs) (auto simp: TAILQ_REMOVE_def tq_write_fields)
  show "tqh_first q' g = tqh_first q g"
    using q' prv n gh by (cases vs) (auto simp: TAILQ_REMOVE_def tq_write_fields tq_end_def)
  show "tqh_last q' g = tqh_last q g"
    using q' prv n gh by (cases vs) (auto simp: TAILQ_REMOVE_def tq_write_fields)
qed

section \<open>The queue laws\<close>

definition tq_take :: "'h \<Rightarrow> ('h, 'e) tailqs \<Rightarrow> ('e \<times> ('h, 'e) tailqs) option" where
  "tq_take h q =
     (case tqh_first q h of None \<Rightarrow> None | Some e \<Rightarrow> map_option (Pair e) (TAILQ_REMOVE h e q))"

interpretation tq: fifo_queue "tailq_rep h" "tq_take h" "\<lambda>e q. Some (TAILQ_INSERT_TAIL h e q)"
  "\<lambda>_ _. True" for h
proof
  show "tq_take h q = None" if "tailq_rep h q []" for q
    using that by (simp add: tq_take_def tailq_rep_def)
  show "\<exists>q'. tq_take h q = Some (e, q') \<and> tailq_rep h q' es \<and> (\<lambda>_. True) = (\<lambda>_. True)"
    if "tailq_rep h q (e # es)" for q e es
    using that tailq_remove [of h q "[]" e es] by (auto simp: tq_take_def tailq_rep_def)
qed (auto intro: tailq_insert_tail)

end
