(* ===== verification/Rx_State.thy ===== *)
theory Rx_State
  imports Tailq
begin

text \<open>
  The state of the receive data path: network buffers with their receive descriptors, and the
  per-peer, per-TID receive state of \<open>struct ol_txrx_peer_t\<close>.  A buffer is a number; the links
  between buffers are the \<open>nb_next\<close> field, \<open>None\<close> being the null pointer.  Everything a handler
  of one physical device touches is one record, so a handler is a function from the record to an
  optional record: \<open>None\<close> is a null or out-of-bounds dereference or a loop that does not end.
  The build modelled is the low-latency one (PCI, no \<open>CONFIG_HL_SUPPORT\<close>, no host reorder
  timeout).
\<close>

section \<open>Data\<close>

type_synonym nbuf = nat
type_synonym peer = nat

datatype htt_sec_type =
    htt_sec_type_none | htt_sec_type_wep128 | htt_sec_type_wep104 | htt_sec_type_wep40
  | htt_sec_type_tkip | htt_sec_type_tkip_nomic | htt_sec_type_aes_ccmp | htt_sec_type_wapi

datatype wlan_op_mode =
    wlan_op_mode_unknown | wlan_op_mode_ap | wlan_op_mode_ibss | wlan_op_mode_sta
  | wlan_op_mode_monitor | wlan_op_mode_ocb | wlan_op_mode_ndi

datatype htt_rx_flush_action = htt_rx_flush_release | htt_rx_flush_discard

text \<open>The union of packet numbers: \<open>pn24\<close> and \<open>pn48\<close> are the low words of \<open>pn128[0]\<close>.\<close>

record htt_rx_pn =
  pn128_0 :: u64
  pn128_1 :: u64

text \<open>The fields of the hardware receive descriptor the data path reads.\<close>

record rx_desc =
  d_seq_num :: u16
  d_tid :: u8
  d_retry :: bool
  d_mcast :: bool
  d_encrypted :: bool
  d_frag :: bool
  d_completes_mpdu :: bool
  d_pn_31_0 :: u32
  d_pn_47_32 :: u16
  d_wapi_63_48 :: u16
  d_wapi_95_64 :: u32
  d_wapi_127_96 :: u32

record rx_elem =
  el_head :: "nbuf option"
  el_tail :: "nbuf option"

text \<open>
  \<open>ro_array\<close> is \<open>None\<close> while the array pointer is the address of the embedded element
  \<open>base\<close>.
\<close>

record rx_reorder =
  win_sz :: u8
  win_sz_mask :: u8
  num_mpdus :: u8
  ro_array :: "rx_elem list option"
  ro_base :: rx_elem
  defrag_timeout_ms :: u32
  ro_tid :: u16

record reorder_record =
  rr_msg_type :: u8
  rr_tid :: u8
  rr_peer_id :: u16
  rr_start_seq :: u8
  rr_end_seq :: u8
  rr_reorder_idx :: u8

record reorder_history =
  rh_curr_index :: u8
  rh_wrap_around :: bool
  rh_record :: "reorder_record list"

text \<open>Per-peer data that is not per TID; index 0 of a security array is multicast.\<close>

record rx_peer =
  pr_valid :: bool
  pr_local_id :: u16
  pr_opmode :: wlan_op_mode
  pr_safemode :: bool
  sec_type_mcast :: htt_sec_type
  sec_type_ucast :: htt_sec_type
  michael_key_mcast :: "u32 list"
  michael_key_ucast :: "u32 list"
  fw_pn_check :: bool
  pr_history :: "reorder_history option"

type_synonym tidk = "peer \<times> u8"

record rx_state =
  nb_next :: "nbuf \<Rightarrow> nbuf option"
  nb_desc :: "nbuf \<Rightarrow> rx_desc"
  nb_data :: "nbuf \<Rightarrow> u8 list"
  nb_freed :: "nbuf list"
  peers :: "peer \<Rightarrow> rx_peer"
  peer_id_map :: "peer option list"
  max_peer_id :: u16
  ocb_peer :: "peer option"
  tids_rx_reorder :: "tidk \<Rightarrow> rx_reorder"
  tids_last_pn :: "tidk \<Rightarrow> htt_rx_pn"
  tids_last_pn_valid :: "tidk \<Rightarrow> bool"
  tids_next_rel_idx :: "tidk \<Rightarrow> u16"
  tids_last_seq :: "tidk \<Rightarrow> u16"
  tids_mcast_last_seq :: "tidk \<Rightarrow> u16"
  waitlist :: "(unit, tidk) tailqs"
  mc_dup_drop :: nat
  pn_replays :: "nat \<Rightarrow> u32"

definition OL_TXRX_NUM_EXT_TIDS :: u8 where "OL_TXRX_NUM_EXT_TIDS = 20"
definition OL_RX_MCAST_TID :: u8 where "OL_RX_MCAST_TID = 18"
definition IEEE80211_SEQ_MAX :: u16 where "IEEE80211_SEQ_MAX = 4096"
definition INVALID_REORDER_INDEX :: u16 where "INVALID_REORDER_INDEX = 0xFFFF"

definition ol_txrx_peer_find_by_id :: "u16 \<Rightarrow> rx_state \<Rightarrow> peer option option" where
  "ol_txrx_peer_find_by_id peer_id s =
     (if max_peer_id s < peer_id then Some None
      else (case load_at (peer_id_map s) (unat peer_id) of
              None \<Rightarrow> None
            | Some None \<Rightarrow> Some None
            | Some (Some p) \<Rightarrow> Some (if pr_valid (peers s p) then Some p else None)))"

section \<open>Buffer operations\<close>

definition adf_nbuf_set_next :: "nbuf \<Rightarrow> nbuf option \<Rightarrow> rx_state \<Rightarrow> rx_state" where
  "adf_nbuf_set_next b v s = s\<lparr>nb_next := (nb_next s)(b := v)\<rparr>"

definition htt_rx_desc_frame_free :: "nbuf \<Rightarrow> rx_state \<Rightarrow> rx_state" where
  "htt_rx_desc_frame_free b s = s\<lparr>nb_freed := nb_freed s @ [b]\<rparr>"

partial_function (option) ol_rx_frames_free :: "nbuf option \<Rightarrow> rx_state \<Rightarrow> rx_state option" where
  "ol_rx_frames_free frag s =
     (case frag of
        None \<Rightarrow> Some s
      | Some b \<Rightarrow> ol_rx_frames_free (nb_next s b) (htt_rx_desc_frame_free b s))"

text \<open>The last buffer of the frame (MPDU) that starts at a buffer, and the first of the next.\<close>

partial_function (option) ol_rx_mpdu_list_next ::
  "nbuf \<Rightarrow> rx_state \<Rightarrow> (nbuf \<times> nbuf option) option" where
  "ol_rx_mpdu_list_next msdu s =
     (if d_completes_mpdu (nb_desc s msdu) then Some (msdu, nb_next s msdu)
      else (case nb_next s msdu of
              None \<Rightarrow> None
            | Some m \<Rightarrow> ol_rx_mpdu_list_next m s))"

text \<open>Freeing the buffers from one to another, the end of the MPDU.\<close>

partial_function (option) free_mpdu :: "nbuf \<Rightarrow> nbuf option \<Rightarrow> rx_state \<Rightarrow> rx_state option" where
  "free_mpdu msdu mpdu_tail s =
     (let s' = htt_rx_desc_frame_free msdu s
      in if Some msdu = mpdu_tail then Some s'
         else (case nb_next s msdu of
                 None \<Rightarrow> None
               | Some m \<Rightarrow> free_mpdu m mpdu_tail s'))"

definition ro_get :: "rx_reorder \<Rightarrow> nat \<Rightarrow> rx_elem option" where
  "ro_get r i = (case ro_array r of None \<Rightarrow> load_at [ro_base r] i | Some a \<Rightarrow> load_at a i)"

definition ro_put :: "rx_reorder \<Rightarrow> nat \<Rightarrow> rx_elem \<Rightarrow> rx_reorder option" where
  "ro_put r i e =
     (case ro_array r of
        None \<Rightarrow> if i = 0 then Some (r\<lparr>ro_base := e\<rparr>) else None
      | Some a \<Rightarrow> map_option (\<lambda>a'. r\<lparr>ro_array := Some a'\<rparr>) (store_at a i e))"

definition upd_reorder :: "tidk \<Rightarrow> rx_reorder \<Rightarrow> rx_state \<Rightarrow> rx_state" where
  "upd_reorder k r s = s\<lparr>tids_rx_reorder := (tids_rx_reorder s)(k := r)\<rparr>"

abbreviation empty_elem :: rx_elem where
  "empty_elem \<equiv> \<lparr>el_head = None, el_tail = None\<rparr>"

section \<open>Lists of buffers\<close>

lemma nb_next_set [simp]: "nb_next (adf_nbuf_set_next b v s) = (nb_next s)(b := v)"
  by (simp add: adf_nbuf_set_next_def)

lemma nb_next_free [simp]: "nb_next (htt_rx_desc_frame_free b s) = nb_next s"
  by (simp add: htt_rx_desc_frame_free_def)

lemma nb_next_upd_reorder [simp]: "nb_next (upd_reorder k r s) = nb_next s"
  by (simp add: upd_reorder_def)

lemma tids_rx_reorder_upd [simp]:
  "tids_rx_reorder (upd_reorder k r s) = (tids_rx_reorder s)(k := r)"
  by (simp add: upd_reorder_def)

lemma tids_rx_reorder_set [simp]:
  "tids_rx_reorder (adf_nbuf_set_next b v s) = tids_rx_reorder s"
  by (simp add: adf_nbuf_set_next_def)

text \<open>Freeing a null-terminated list ends and frees exactly its buffers, in order.\<close>

lemma ol_rx_frames_free_rep:
  "lseg (nb_next s) p bs None \<Longrightarrow>
   ol_rx_frames_free p s = Some (s\<lparr>nb_freed := nb_freed s @ bs\<rparr>)"
proof (induction bs arbitrary: p s)
  case Nil
  then show ?case by (subst ol_rx_frames_free.simps) simp
next
  case (Cons b bs)
  then show ?case
    by (subst ol_rx_frames_free.simps) (simp add: htt_rx_desc_frame_free_def)
qed

lemma free_mpdu_rep:
  "lseg (nb_next s) (Some b) bs q \<Longrightarrow> distinct bs \<Longrightarrow> bs \<noteq> [] \<Longrightarrow>
   free_mpdu b (Some (last bs)) s = Some (s\<lparr>nb_freed := nb_freed s @ bs\<rparr>)"
proof (induction bs arbitrary: b s)
  case Nil
  then show ?case by simp
next
  case (Cons c cs)
  show ?case
  proof (cases cs)
    case Nil
    with Cons.prems show ?thesis
      by (subst free_mpdu.simps) (auto simp: htt_rx_desc_frame_free_def Let_def)
  next
    case (Cons d ds)
    with Cons.prems Cons.IH [of "htt_rx_desc_frame_free b s" d] show ?thesis
      by (subst free_mpdu.simps) (auto simp: htt_rx_desc_frame_free_def Let_def)
  qed
qed

text \<open>
  The buffers of one MPDU: linked up to a buffer that completes it, none before it completing it.
\<close>

definition mpdu_ok :: "rx_state \<Rightarrow> nbuf list \<Rightarrow> bool" where
  "mpdu_ok s bs \<longleftrightarrow> bs \<noteq> [] \<and> d_completes_mpdu (nb_desc s (last bs)) \<and>
     list_all (\<lambda>b. \<not> d_completes_mpdu (nb_desc s b)) (butlast bs)"

lemma ol_rx_mpdu_list_next_rep:
  assumes "lseg (nb_next s) (Some b) bs q" and "mpdu_ok s bs"
  shows "ol_rx_mpdu_list_next b s = Some (last bs, q)"
  using assms
proof (induction bs arbitrary: b)
  case Nil
  then show ?case by (simp add: mpdu_ok_def)
next
  case (Cons c cs)
  show ?case
  proof (cases cs)
    case Nil
    with Cons.prems show ?thesis
      by (subst ol_rx_mpdu_list_next.simps) (auto simp: mpdu_ok_def)
  next
    case (Cons d ds)
    with Cons.prems Cons.IH [of d] show ?thesis
      by (subst ol_rx_mpdu_list_next.simps) (auto simp: mpdu_ok_def)
  qed
qed

section \<open>A quiescent state\<close>

text \<open>A device with no frames: the state concrete examples start from.\<close>

definition rx_desc0 :: rx_desc where
  "rx_desc0 = \<lparr>d_seq_num = 0, d_tid = 0, d_retry = False, d_mcast = False, d_encrypted = False,
     d_frag = False, d_completes_mpdu = True, d_pn_31_0 = 0, d_pn_47_32 = 0, d_wapi_63_48 = 0,
     d_wapi_95_64 = 0, d_wapi_127_96 = 0\<rparr>"

definition rx_reorder0 :: rx_reorder where
  "rx_reorder0 = \<lparr>win_sz = 1, win_sz_mask = 0, num_mpdus = 0, ro_array = None, ro_base = empty_elem,
     defrag_timeout_ms = 0, ro_tid = 0\<rparr>"

definition rx_peer0 :: rx_peer where
  "rx_peer0 = \<lparr>pr_valid = True, pr_local_id = 0, pr_opmode = wlan_op_mode_sta, pr_safemode = False,
     sec_type_mcast = htt_sec_type_aes_ccmp, sec_type_ucast = htt_sec_type_aes_ccmp,
     michael_key_mcast = [0, 0], michael_key_ucast = [0, 0], fw_pn_check = False,
     pr_history = None\<rparr>"

definition rx_quiet :: rx_state where
  "rx_quiet = \<lparr>nb_next = (\<lambda>_. None), nb_desc = (\<lambda>_. rx_desc0), nb_data = (\<lambda>_. []), nb_freed = [],
     peers = (\<lambda>_. rx_peer0), peer_id_map = [Some 0], max_peer_id = 0, ocb_peer = None,
     tids_rx_reorder = (\<lambda>k. rx_reorder0\<lparr>ro_tid := ucast (snd k)\<rparr>),
     tids_last_pn = (\<lambda>_. \<lparr>pn128_0 = 0, pn128_1 = 0\<rparr>), tids_last_pn_valid = (\<lambda>_. False),
     tids_next_rel_idx = (\<lambda>_. 0), tids_last_seq = (\<lambda>_. IEEE80211_SEQ_MAX),
     tids_mcast_last_seq = (\<lambda>_. IEEE80211_SEQ_MAX),
     waitlist = \<lparr>tqh_first = (\<lambda>_. None), tqh_last = (\<lambda>_. HeadFirst ()), tqe_next = (\<lambda>_. None),
                 tqe_prev = (\<lambda>_. None)\<rparr>,
     mc_dup_drop = 0, pn_replays = (\<lambda>_. 0)\<rparr>"

lemmas rx_quiet_defs = rx_quiet_def rx_peer0_def rx_reorder0_def rx_desc0_def

end
