(* ===== verification/Rx_Waitlist.thy ===== *)
theory Rx_Waitlist
  imports Rx_State
begin

text \<open>
  The list of TIDs that wait for more fragments (\<open>ol_rx_defrag.c\<close>), kept in order of their
  timeouts, and the release of the fragments held for a TID.
\<close>

section \<open>Operations\<close>

definition ol_rx_defrag_waitlist_add :: "tidk \<Rightarrow> rx_state \<Rightarrow> rx_state" where
  "ol_rx_defrag_waitlist_add k s = s\<lparr>waitlist := TAILQ_INSERT_TAIL () k (waitlist s)\<rparr>"

definition tq_clear :: "tidk \<Rightarrow> (unit, tidk) tailqs \<Rightarrow> (unit, tidk) tailqs" where
  "tq_clear k q = q\<lparr>tqe_next := (tqe_next q)(k := None), tqe_prev := (tqe_prev q)(k := None)\<rparr>"

definition ol_rx_defrag_waitlist_remove :: "tidk \<Rightarrow> rx_state \<Rightarrow> rx_state option" where
  "ol_rx_defrag_waitlist_remove k s =
     (if tqe_prev (waitlist s) k \<noteq> None
      then (case TAILQ_REMOVE () k (waitlist s) of
              None \<Rightarrow> None
            | Some q \<Rightarrow> Some (s\<lparr>waitlist := tq_clear k q\<rparr>))
      else if tqe_next (waitlist s) k \<noteq> None
      then Some (s\<lparr>waitlist := (waitlist s)\<lparr>tqe_next := (tqe_next (waitlist s))(k := None)\<rparr>\<rparr>)
      else Some s)"

definition ol_rx_reorder_flush_frag :: "tidk \<Rightarrow> u16 \<Rightarrow> rx_state \<Rightarrow> rx_state option" where
  "ol_rx_reorder_flush_frag k seq_num s =
     (let i = unat (seq_num AND ucast (win_sz_mask (tids_rx_reorder s k)))
      in case ro_get (tids_rx_reorder s k) i of
           None \<Rightarrow> None
         | Some e \<Rightarrow>
             (if el_head e = None then Some s
              else (case ol_rx_frames_free (el_head e) s of
                      None \<Rightarrow> None
                    | Some s1 \<Rightarrow>
                        (case ro_put (tids_rx_reorder s1 k) i empty_elem of
                           None \<Rightarrow> None
                         | Some r \<Rightarrow> Some (upd_reorder k r s1)))))"

text \<open>
  The pointer arithmetic that goes from a waiting element back to its peer uses the TID stored in
  the element: with another TID than the element's own the peer pointer would be garbage
  (\<open>None\<close>).
\<close>

partial_function (option) waitlist_flush_from ::
  "u32 \<Rightarrow> tidk option \<Rightarrow> rx_state \<Rightarrow> rx_state option" where
  "waitlist_flush_from now_ms p s =
     (case p of
        None \<Rightarrow> Some s
      | Some k \<Rightarrow>
          (let tmp = tqe_next (waitlist s) k;
               r = tids_rx_reorder s k
           in if now_ms < defrag_timeout_ms r then Some s
              else if ucast OL_TXRX_NUM_EXT_TIDS \<le> ro_tid r then waitlist_flush_from now_ms tmp s
              else if ro_tid r \<noteq> ucast (snd k) then None
              else (case ol_rx_defrag_waitlist_remove k s of
                      None \<Rightarrow> None
                    | Some s1 \<Rightarrow>
                        (case ol_rx_reorder_flush_frag k 0 s1 of
                           None \<Rightarrow> None
                         | Some s2 \<Rightarrow> waitlist_flush_from now_ms tmp s2))))"

definition ol_rx_defrag_waitlist_flush :: "u32 \<Rightarrow> rx_state \<Rightarrow> rx_state option" where
  "ol_rx_defrag_waitlist_flush now_ms s =
     waitlist_flush_from now_ms (tqh_first (waitlist s) ()) s"

section \<open>Lemmas\<close>

lemma waitlist_other [simp]:
  "waitlist (upd_reorder k r s) = waitlist s"
  "waitlist (adf_nbuf_set_next b v s) = waitlist s"
  "waitlist (htt_rx_desc_frame_free b s) = waitlist s"
  by (simp_all add: upd_reorder_def adf_nbuf_set_next_def htt_rx_desc_frame_free_def)

lemma tailq_rep_clear: "tailq_rep () q es \<Longrightarrow> k \<notin> set es \<Longrightarrow> tailq_rep () (tq_clear k q) es"
  by (rule tailq_rep_cong [of _ _ q]) (auto simp: tq_clear_def)

lemma tailq_rep_prev: "tailq_rep h q es \<Longrightarrow> k \<in> set es \<Longrightarrow> tqe_prev q k \<noteq> None"
  by (auto simp: tailq_rep_def prevs_ok_append dest!: split_list)

text \<open>
  A well-formed waitlist: the head lists exactly the elements whose back pointer is set.
\<close>

definition waitlist_rep :: "rx_state \<Rightarrow> tidk list \<Rightarrow> bool" where
  "waitlist_rep s ks \<longleftrightarrow> tailq_rep () (waitlist s) ks \<and>
     {k. tqe_prev (waitlist s) k \<noteq> None \<or> tqe_next (waitlist s) k \<noteq> None} \<subseteq> set ks"

lemma waitlist_out:
  "waitlist_rep s ks \<Longrightarrow> k \<notin> set ks \<Longrightarrow> tqe_prev (waitlist s) k = None \<and> tqe_next (waitlist s) k = None"
  unfolding waitlist_rep_def by blast

lemma waitlist_rep_cong: "waitlist s' = waitlist s \<Longrightarrow> waitlist_rep s' ks = waitlist_rep s ks"
  by (simp add: waitlist_rep_def)

lemma TAILQ_REMOVE_prev_other:
  assumes "tailq_rep h q (us @ k # vs)" "TAILQ_REMOVE h k q = Some q'" "c \<notin> set (us @ k # vs)"
  shows "tqe_prev q' c = tqe_prev q c \<and> tqe_next q' c = tqe_next q c"
proof -
  have prv: "tqe_prev q k = Some (tq_end h us)" and "lseg (tqe_next q) (tqe_next q k) vs None"
    using assms(1) by (auto simp: tailq_rep_def prevs_ok_append lseg_append tq_end_def)
  then have n: "tqe_next q k = (case vs of [] \<Rightarrow> None | v # _ \<Rightarrow> Some v)" by (cases vs) auto
  have "tq_end h us \<noteq> NextOf c"
    using tq_end_not_other(1) [of us "[c]" c h] assms(3) last_in_set [of us] by (auto simp: tq_end_def)
  then show ?thesis
    using assms(2,3) prv n by (cases "tq_end h us"; cases vs) (auto simp: TAILQ_REMOVE_def tq_write_fields)
qed

lemma waitlist_remove_in:
  assumes "waitlist_rep s (us @ k # vs)"
  shows "\<exists>q. ol_rx_defrag_waitlist_remove k s = Some (s\<lparr>waitlist := q\<rparr>)
     \<and> waitlist_rep (s\<lparr>waitlist := q\<rparr>) (us @ vs)"
proof -
  let ?q = "waitlist s"
  have rep: "tailq_rep () ?q (us @ k # vs)" using assms by (simp add: waitlist_rep_def)
  obtain q' where q': "TAILQ_REMOVE () k ?q = Some q'" "tailq_rep () q' (us @ vs)"
    using tailq_remove [OF rep] by blast
  have k: "k \<notin> set (us @ vs)" using tailq_rep_distinct [OF rep] by auto
  have "tqe_prev (tq_clear k q') c = None \<and> tqe_next (tq_clear k q') c = None" if "c \<notin> set (us @ vs)" for c
  proof (cases "c = k")
    case False
    then have "c \<notin> set (us @ k # vs)" using that by auto
    with TAILQ_REMOVE_prev_other [OF rep q'(1) this] False waitlist_out [OF assms this]
    show ?thesis by (simp add: tq_clear_def)
  qed (simp add: tq_clear_def)
  then have "waitlist_rep (s\<lparr>waitlist := tq_clear k q'\<rparr>) (us @ vs)"
    using tailq_rep_clear [OF q'(2) k] unfolding waitlist_rep_def by fastforce
  moreover have "tqe_prev ?q k \<noteq> None" using tailq_rep_prev [OF rep] by simp
  ultimately show ?thesis using q'(1) by (auto simp: ol_rx_defrag_waitlist_remove_def)
qed

lemma waitlist_remove_out:
  "waitlist_rep s ks \<Longrightarrow> k \<notin> set ks \<Longrightarrow> ol_rx_defrag_waitlist_remove k s = Some s"
  by (simp add: ol_rx_defrag_waitlist_remove_def waitlist_out)

lemma waitlist_remove:
  assumes "waitlist_rep s ks"
  shows "\<exists>q. ol_rx_defrag_waitlist_remove k s = Some (s\<lparr>waitlist := q\<rparr>)
     \<and> waitlist_rep (s\<lparr>waitlist := q\<rparr>) (remove1 k ks)"
proof (cases "k \<in> set ks")
  case True
  then obtain us vs where ks: "ks = us @ k # vs" "k \<notin> set us" by (meson split_list_first)
  then have "remove1 k ks = us @ vs" by (simp add: remove1_append)
  then show ?thesis using waitlist_remove_in [of s us k vs] assms ks by auto
next
  case False
  then show ?thesis
    using waitlist_remove_out [OF assms] assms by (intro exI [of _ "waitlist s"]) (simp add: remove1_idem)
qed

lemma waitlist_add:
  assumes "waitlist_rep s ks" and "k \<notin> set ks"
  shows "waitlist_rep (ol_rx_defrag_waitlist_add k s) (ks @ [k])"
proof -
  have rep: "tailq_rep () (waitlist s) ks" using assms by (simp add: waitlist_rep_def)
  then have last: "tqh_last (waitlist s) () = tq_end () ks" by (simp add: tailq_rep_def)
  have "tqe_next (TAILQ_INSERT_TAIL () k (waitlist s)) c = None" if "c \<notin> set (ks @ [k])" for c
    using that assms tq_end_not_other(1) [of ks "[c]" c "()"]
    by (cases "tq_end () ks") (auto simp: TAILQ_INSERT_TAIL_fields last waitlist_out)
  moreover have "tqe_prev (TAILQ_INSERT_TAIL () k (waitlist s)) c = None" if "c \<notin> set (ks @ [k])" for c
    using that waitlist_out [OF assms(1), of c] by (simp add: TAILQ_INSERT_TAIL_fields)
  ultimately show ?thesis
    using tailq_insert_tail [OF rep assms(2)]
    unfolding waitlist_rep_def ol_rx_defrag_waitlist_add_def by fastforce
qed

section \<open>Timing out\<close>

text \<open>The fragments a TID holds: the null-terminated list of its slot 0.\<close>

definition frag_slot :: "rx_state \<Rightarrow> tidk \<Rightarrow> nbuf list \<Rightarrow> bool" where
  "frag_slot s k fs \<longleftrightarrow>
     (\<exists>e. ro_get (tids_rx_reorder s k) 0 = Some e \<and> lseg (nb_next s) (el_head e) fs None)"

definition tid_well_set :: "rx_state \<Rightarrow> tidk \<Rightarrow> bool" where
  "tid_well_set s k \<longleftrightarrow> snd k < OL_TXRX_NUM_EXT_TIDS \<and> ro_tid (tids_rx_reorder s k) = ucast (snd k)"

lemma frag_slot_cong:
  "tids_rx_reorder s' k = tids_rx_reorder s k \<Longrightarrow> nb_next s' = nb_next s \<Longrightarrow>
   frag_slot s' k fs = frag_slot s k fs"
  by (simp add: frag_slot_def)

lemma ro_get_put:
  assumes "ro_get r i = Some e"
  shows "\<exists>r'. ro_put r i v = Some r' \<and> ro_get r' i = Some v \<and> ro_tid r' = ro_tid r"
  using assms by (cases "ro_array r") (auto simp: ro_get_def ro_put_def load_at_def store_at_def split: if_splits)

lemma flush_frag_rep:
  assumes "frag_slot s k fs"
  shows "\<exists>r. ol_rx_reorder_flush_frag k 0 s
      = Some (s\<lparr>nb_freed := nb_freed s @ fs, tids_rx_reorder := (tids_rx_reorder s)(k := r)\<rparr>) \<and>
    frag_slot (s\<lparr>nb_freed := nb_freed s @ fs, tids_rx_reorder := (tids_rx_reorder s)(k := r)\<rparr>) k []"
proof -
  obtain e where e: "ro_get (tids_rx_reorder s k) 0 = Some e" "lseg (nb_next s) (el_head e) fs None"
    using assms by (auto simp: frag_slot_def)
  obtain r where r: "ro_put (tids_rx_reorder s k) 0 empty_elem = Some r" "ro_get r 0 = Some empty_elem"
    using ro_get_put [OF e(1)] by blast
  show ?thesis
  proof (cases "el_head e")
    case None
    then show ?thesis using e
      by (intro exI [of _ "tids_rx_reorder s k"]) (simp add: ol_rx_reorder_flush_frag_def Let_def frag_slot_def)
  next
    case (Some h)
    then show ?thesis using e r ol_rx_frames_free_rep [OF e(2)]
      by (intro exI [of _ r]) (simp add: ol_rx_reorder_flush_frag_def Let_def frag_slot_def upd_reorder_def)
  qed
qed

lemma waitlist_rep_first:
  "waitlist_rep s ks \<Longrightarrow> tqh_first (waitlist s) () = (case ks of [] \<Rightarrow> None | k # _ \<Rightarrow> Some k)"
  by (cases ks) (auto simp: waitlist_rep_def tailq_rep_def)

lemma waitlist_rep_next:
  "waitlist_rep s (k # ks) \<Longrightarrow> tqe_next (waitlist s) k = (case ks of [] \<Rightarrow> None | j # _ \<Rightarrow> Some j)"
  by (cases ks) (auto simp: waitlist_rep_def tailq_rep_def)

abbreviation expired :: "u32 \<Rightarrow> rx_state \<Rightarrow> tidk \<Rightarrow> bool" where
  "expired now s k \<equiv> defrag_timeout_ms (tids_rx_reorder s k) \<le> now"

lemma waitlist_flush_from_rep:
  assumes "waitlist_rep s ks" and "\<And>k. k \<in> set ks \<Longrightarrow> tid_well_set s k \<and> frag_slot s k (F k)"
  shows "\<exists>s'. waitlist_flush_from now (tqh_first (waitlist s) ()) s = Some s' \<and>
    waitlist_rep s' (dropWhile (expired now s) ks) \<and>
    nb_freed s' = nb_freed s @ concat (map F (takeWhile (expired now s) ks)) \<and>
    (\<forall>k\<in>set (takeWhile (expired now s) ks). frag_slot s' k []) \<and>
    nb_next s' = nb_next s \<and>
    (\<forall>k. k \<notin> set (takeWhile (expired now s) ks) \<longrightarrow> tids_rx_reorder s' k = tids_rx_reorder s k)"
  using assms
proof (induction ks arbitrary: s)
  case Nil
  then show ?case using waitlist_rep_first [OF Nil(1)] by (subst waitlist_flush_from.simps) simp
next
  case (Cons k ks)
  have first: "tqh_first (waitlist s) () = Some k" using waitlist_rep_first [OF Cons.prems(1)] by simp
  show ?case
  proof (cases "expired now s k")
    case False
    then have "takeWhile (expired now s) (k # ks) = []" "dropWhile (expired now s) (k # ks) = k # ks"
      by (simp_all only: takeWhile.simps dropWhile.simps if_False)
    moreover have "waitlist_flush_from now (Some k) s = Some s"
      using False [unfolded not_le] by (subst waitlist_flush_from.simps) (simp add: Let_def)
    ultimately show ?thesis unfolding first using Cons.prems(1) by simp
  next
    case True
    have k: "tid_well_set s k" "frag_slot s k (F k)" and kn: "k \<notin> set ks"
      using Cons.prems tailq_rep_distinct [of "()" "waitlist s" "k # ks"] by (auto simp: waitlist_rep_def)
    obtain q where q: "ol_rx_defrag_waitlist_remove k s = Some (s\<lparr>waitlist := q\<rparr>)"
      "waitlist_rep (s\<lparr>waitlist := q\<rparr>) ks"
      using waitlist_remove_in [of s "[]" k ks] Cons.prems(1) by auto
    have fk: "frag_slot (s\<lparr>waitlist := q\<rparr>) k (F k)" using k(2) by (simp add: frag_slot_def)
    obtain r where r: "ol_rx_reorder_flush_frag k 0 (s\<lparr>waitlist := q\<rparr>)
      = Some (s\<lparr>waitlist := q, nb_freed := nb_freed s @ F k, tids_rx_reorder := (tids_rx_reorder s)(k := r)\<rparr>)"
      "frag_slot (s\<lparr>waitlist := q, nb_freed := nb_freed s @ F k, tids_rx_reorder := (tids_rx_reorder s)(k := r)\<rparr>) k []"
      using flush_frag_rep [OF fk] by auto
    let ?s = "s\<lparr>waitlist := q, nb_freed := nb_freed s @ F k, tids_rx_reorder := (tids_rx_reorder s)(k := r)\<rparr>"
    have wl: "waitlist_rep ?s ks" using q(2) by (simp add: waitlist_rep_def)
    have "tid_well_set ?s j \<and> frag_slot ?s j (F j)" if "j \<in> set ks" for j
      using Cons.prems(2) [of j] that kn by (auto simp: tid_well_set_def frag_slot_def)
    then obtain s' where s': "waitlist_flush_from now (tqh_first (waitlist ?s) ()) ?s = Some s'"
      "waitlist_rep s' (dropWhile (expired now ?s) ks)"
      "nb_freed s' = nb_freed ?s @ concat (map F (takeWhile (expired now ?s) ks))"
      "\<forall>j\<in>set (takeWhile (expired now ?s) ks). frag_slot s' j []" "nb_next s' = nb_next ?s"
      "\<forall>j. j \<notin> set (takeWhile (expired now ?s) ks) \<longrightarrow> tids_rx_reorder s' j = tids_rx_reorder ?s j"
      using Cons.IH [OF wl] by blast
    have same: "takeWhile (expired now ?s) ks = takeWhile (expired now s) ks"
      "dropWhile (expired now ?s) ks = dropWhile (expired now s) ks"
      using kn by (auto intro!: takeWhile_cong dropWhile_cong)
    have tmp: "tqe_next (waitlist s) k = tqh_first (waitlist ?s) ()"
      using waitlist_rep_next [OF Cons.prems(1)] waitlist_rep_first [OF wl] by simp
    have "k \<notin> set (takeWhile (expired now ?s) ks)"
      using kn set_takeWhileD [of k "expired now ?s" ks] by blast
    with s'(6) have "tids_rx_reorder s' k = tids_rx_reorder ?s k" by blast
    from frag_slot_cong [OF this s'(5)] r(2) have "frag_slot s' k []" by blast
    moreover have "waitlist_flush_from now (Some k) s = Some s'"
      using True k(1) q(1) r(1) s'(1) tmp
      by (subst waitlist_flush_from.simps)
        (simp add: Let_def tid_well_set_def word_less_nat_alt word_le_nat_alt)
    ultimately show ?thesis
      using s' True unfolding same first by (intro exI [of _ s']) auto
  qed
qed

text \<open>
  C27. The periodic flush of the waitlist frees exactly the fragments of the TIDs at the front of the
  list whose timeouts have passed, in list order, leaves their slots empty and takes them off the
  list; it stops at the first TID that may still wait and changes nothing from there on.
\<close>

theorem waitlist_flush_expired:
  assumes "waitlist_rep s ks" and "\<And>k. k \<in> set ks \<Longrightarrow> tid_well_set s k \<and> frag_slot s k (F k)"
  shows "\<exists>s'. ol_rx_defrag_waitlist_flush now s = Some s' \<and>
    waitlist_rep s' (dropWhile (expired now s) ks) \<and>
    nb_freed s' = nb_freed s @ concat (map F (takeWhile (expired now s) ks)) \<and>
    (\<forall>k\<in>set (takeWhile (expired now s) ks). frag_slot s' k []) \<and>
    (\<forall>k. k \<notin> set (takeWhile (expired now s) ks) \<longrightarrow> tids_rx_reorder s' k = tids_rx_reorder s k)"
  using waitlist_flush_from_rep [OF assms, of now] by (auto simp: ol_rx_defrag_waitlist_flush_def)

definition waitlist_ex :: rx_state where
  "waitlist_ex = ol_rx_defrag_waitlist_add (0, 6) (ol_rx_defrag_waitlist_add (0, 5)
     (rx_quiet\<lparr>nb_next := (\<lambda>_. None)(7 := Some 8),
        tids_rx_reorder := (\<lambda>k. rx_reorder0\<lparr>ro_tid := ucast (snd k),
          ro_base := (if snd k = 5 then \<lparr>el_head = Some 7, el_tail = Some 8\<rparr> else empty_elem),
          defrag_timeout_ms := (if snd k = 5 then 100 else 200)\<rparr>)\<rparr>))"

theorem waitlist_flush_expired_witness:
  "\<exists>s'. ol_rx_defrag_waitlist_flush 150 waitlist_ex = Some s' \<and> waitlist_rep s' [(0, 6)] \<and> nb_freed s' = [7, 8]"
proof -
  let ?F = "\<lambda>k :: tidk. if snd k = 5 then [7, 8 :: nat] else []"
  let ?s0 = "rx_quiet\<lparr>nb_next := (\<lambda>_. None)(7 := Some 8),
        tids_rx_reorder := (\<lambda>k. rx_reorder0\<lparr>ro_tid := ucast (snd k),
          ro_base := (if snd k = 5 then \<lparr>el_head = Some 7, el_tail = Some 8\<rparr> else empty_elem),
          defrag_timeout_ms := (if snd k = 5 then 100 else 200)\<rparr>)\<rparr>"
  have "waitlist_rep ?s0 []"
    by (simp add: waitlist_rep_def rx_quiet_def tailq_rep_def tq_end_def)
  from waitlist_add [OF this, of "(0, 5)"] have "waitlist_rep (ol_rx_defrag_waitlist_add (0, 5) ?s0) [(0, 5)]" by simp
  from waitlist_add [OF this, of "(0, 6)"] have wl: "waitlist_rep waitlist_ex [(0, 5), (0, 6)]"
    by (simp add: waitlist_ex_def)
  have "tid_well_set waitlist_ex k \<and> frag_slot waitlist_ex k (?F k)" if "k \<in> set [(0, 5), (0, 6)]" for k
    using that by (auto simp: tid_well_set_def frag_slot_def waitlist_ex_def ol_rx_defrag_waitlist_add_def
        OL_TXRX_NUM_EXT_TIDS_def rx_reorder0_def ro_get_def)
  from waitlist_flush_expired [OF wl this, of 150]
  show ?thesis by (simp add: waitlist_ex_def ol_rx_defrag_waitlist_add_def rx_quiet_def) blast
qed

end
