(* ===== verification/Rx_Reorder.thy ===== *)
theory Rx_Reorder
  imports Rx_Waitlist "HOL-Library.Multiset"
begin

text \<open>
  The receive reorder rings (\<open>ol_rx_reorder.c\<close>): storing an MPDU into the slot of its sequence
  number, releasing or flushing a range of slots as one list, growing the ring when a block-ack
  agreement starts and shrinking it when it ends, and the duplicate check.  The function a list of
  buffers is handed to (\<open>peer->rx_opt_proc\<close>, a function pointer) is the argument \<open>opt\<close>.
\<close>

section \<open>Operations\<close>

definition g_log2ceil :: "u8 list" where
  "g_log2ceil = [1, 1, 2] @ replicate 2 4 @ replicate 4 8 @ replicate 8 16 @ replicate 16 32
     @ replicate 32 64"

definition ol_rx_reorder_init :: "u8 \<Rightarrow> rx_reorder \<Rightarrow> rx_reorder" where
  "ol_rx_reorder_init tid r =
     r\<lparr>win_sz := 1, win_sz_mask := 0, ro_array := None, ro_base := empty_elem,
       ro_tid := ucast tid, defrag_timeout_ms := 0\<rparr>"

text \<open>The whole function of the source: the waitlist links of the element are cleared too.\<close>

definition reorder_init_at :: "tidk \<Rightarrow> rx_state \<Rightarrow> rx_state" where
  "reorder_init_at k s =
     (upd_reorder k (ol_rx_reorder_init (snd k) (tids_rx_reorder s k)) s)
       \<lparr>waitlist := tq_clear k (waitlist s)\<rparr>"

definition OL_MAX_RX_REORDER_HISTORY :: u8 where "OL_MAX_RX_REORDER_HISTORY = 50"

definition history_add :: "reorder_record \<Rightarrow> reorder_history \<Rightarrow> reorder_history option" where
  "history_add rec h =
     (let index = rh_curr_index h;
          h1 = h\<lparr>rh_curr_index := rh_curr_index h + 1\<rparr>
      in case store_at (rh_record h1) (unat index) rec of
           None \<Rightarrow> None
         | Some recs \<Rightarrow>
             (let h2 = h1\<lparr>rh_record := recs\<rparr>
              in Some (if OL_MAX_RX_REORDER_HISTORY \<le> rh_curr_index h2
                       then h2\<lparr>rh_curr_index := 0, rh_wrap_around := True\<rparr> else h2)))"

definition ol_rx_reorder_update_history ::
  "peer \<Rightarrow> u8 \<Rightarrow> u8 \<Rightarrow> u8 \<Rightarrow> u8 \<Rightarrow> u8 \<Rightarrow> rx_state \<Rightarrow> rx_state option" where
  "ol_rx_reorder_update_history p msg_type tid start_seq end_seq reorder_idx s =
     (case pr_history (peers s p) of
        None \<Rightarrow> Some s
      | Some h \<Rightarrow>
          (case history_add \<lparr>rr_msg_type = msg_type, rr_tid = tid, rr_peer_id = pr_local_id (peers s p),
                  rr_start_seq = start_seq, rr_end_seq = end_seq, rr_reorder_idx = reorder_idx\<rparr> h of
             None \<Rightarrow> None
           | Some h' \<Rightarrow>
               Some (s\<lparr>peers := (peers s)(p := (peers s p)\<lparr>pr_history := Some h'\<rparr>)\<rparr>)))"

datatype htt_rx_status = htt_rx_status_ok | htt_rx_status_err_replay

definition ol_rx_reorder_seq_num_check :: "u32 \<Rightarrow> u16 \<Rightarrow> htt_rx_status" where
  "ol_rx_reorder_seq_num_check seq_num last_seq =
     (if last_seq = IEEE80211_SEQ_MAX then htt_rx_status_ok
      else if (seq_num - 1 - ucast last_seq) AND (ucast IEEE80211_SEQ_MAX - 1)
                > ucast IEEE80211_SEQ_MAX div 2
      then htt_rx_status_err_replay else htt_rx_status_ok)"

definition ol_rx_seq_num_check :: "tidk \<Rightarrow> rx_desc \<Rightarrow> rx_state \<Rightarrow> htt_rx_status \<times> rx_state" where
  "ol_rx_seq_num_check k d s =
     (let seq_num = d_seq_num d
      in if snd k = OL_RX_MCAST_TID
         then (let pkt_tid = d_tid d
               in if OL_TXRX_NUM_EXT_TIDS \<le> pkt_tid then (htt_rx_status_ok, s)
                  else if d_retry d \<and> seq_num = tids_mcast_last_seq s (fst k, pkt_tid)
                  then (htt_rx_status_err_replay, s\<lparr>mc_dup_drop := mc_dup_drop s + 1\<rparr>)
                  else (htt_rx_status_ok,
                        s\<lparr>tids_mcast_last_seq :=
                            (tids_mcast_last_seq s)((fst k, pkt_tid) := seq_num)\<rparr>))
         else (ol_rx_reorder_seq_num_check (ucast seq_num) (tids_last_seq s k), s))"

definition reorder_mask :: "tidk \<Rightarrow> rx_state \<Rightarrow> u32" where
  "reorder_mask k s = ucast (win_sz_mask (tids_rx_reorder s k))"

definition ol_rx_reorder_store ::
  "tidk \<Rightarrow> u32 \<Rightarrow> nbuf option \<Rightarrow> nbuf option \<Rightarrow> rx_state \<Rightarrow> rx_state option" where
  "ol_rx_reorder_store k idx head_msdu tail_msdu s =
     (let i = unat (idx AND reorder_mask k s);
          r = tids_rx_reorder s k
      in case ro_get r i of
           None \<Rightarrow> None
         | Some e \<Rightarrow>
             (case (case el_head e of
                      Some _ \<Rightarrow> map_option (\<lambda>t. (adf_nbuf_set_next t head_msdu s, e)) (el_tail e)
                    | None \<Rightarrow> Some (s, e\<lparr>el_head := head_msdu\<rparr>)) of
                None \<Rightarrow> None
              | Some (s1, e1) \<Rightarrow>
                  map_option (\<lambda>r'. upd_reorder k r' s1) (ro_put r i (e1\<lparr>el_tail := tail_msdu\<rparr>))))"

type_synonym rx_proc = "tidk \<Rightarrow> nbuf \<Rightarrow> rx_state \<Rightarrow> rx_state option"

text \<open>The loop of the release over the slots after the first.\<close>

partial_function (option) release_loop ::
  "tidk \<Rightarrow> u32 \<Rightarrow> u32 \<Rightarrow> u32 \<Rightarrow> nbuf option \<Rightarrow> rx_state \<Rightarrow> (nbuf option \<times> rx_state) option" where
  "release_loop k win_mask idx_end idx tail_msdu s =
     (if idx = idx_end then Some (tail_msdu, s)
      else (case ro_get (tids_rx_reorder s k) (unat idx) of
              None \<Rightarrow> None
            | Some e \<Rightarrow>
                (let s1 = (case (el_head e, tail_msdu) of
                             (Some h, Some t) \<Rightarrow> adf_nbuf_set_next t (Some h) s
                           | _ \<Rightarrow> s);
                     tail' = (if el_head e = None then tail_msdu else el_tail e)
                 in case ro_put (tids_rx_reorder s1 k) (unat idx) empty_elem of
                      None \<Rightarrow> None
                    | Some r \<Rightarrow>
                        release_loop k win_mask idx_end ((idx + 1) AND win_mask) tail'
                          (upd_reorder k r s1))))"

definition ol_rx_reorder_release ::
  "rx_proc \<Rightarrow> tidk \<Rightarrow> u32 \<Rightarrow> u32 \<Rightarrow> rx_state \<Rightarrow> rx_state option" where
  "ol_rx_reorder_release opt k idx_start0 idx_end0 s0 =
     (let s1 = s0\<lparr>tids_next_rel_idx := (tids_next_rel_idx s0)(k := ucast idx_end0)\<rparr>;
          win_mask = reorder_mask k s1;
          idx_start = idx_start0 AND win_mask;
          idx_end = idx_end0 AND win_mask
      in case ro_get (tids_rx_reorder s1 k) (unat idx_start) of
           None \<Rightarrow> None
         | Some e \<Rightarrow>
             (case ro_put (tids_rx_reorder s1 k) (unat idx_start) empty_elem of
                None \<Rightarrow> None
              | Some r \<Rightarrow>
                  (case release_loop k win_mask idx_end ((idx_start + 1) AND win_mask) (el_tail e)
                          (upd_reorder k r s1) of
                     None \<Rightarrow> None
                   | Some (tail_msdu, s2) \<Rightarrow>
                       (case el_head e of
                          None \<Rightarrow> Some s2
                        | Some h \<Rightarrow>
                            (let s3 = s2\<lparr>tids_last_seq :=
                                           (tids_last_seq s2)(k := d_seq_num (nb_desc s2 h))\<rparr>
                             in case tail_msdu of
                                  None \<Rightarrow> None
                                | Some t \<Rightarrow> opt k h (adf_nbuf_set_next t None s3))))))"

text \<open>
  The loop of the flush: a do-while over the slots, gathering the non-empty ones into one list.
\<close>

partial_function (option) flush_loop ::
  "tidk \<Rightarrow> u32 \<Rightarrow> u32 \<Rightarrow> u32 \<Rightarrow> nbuf option \<Rightarrow> nbuf option \<Rightarrow> rx_state
    \<Rightarrow> (nbuf option \<times> nbuf option \<times> rx_state) option" where
  "flush_loop k win_mask idx_end idx head_msdu tail_msdu s =
     (case ro_get (tids_rx_reorder s k) (unat idx) of
        None \<Rightarrow> None
      | Some e \<Rightarrow>
          (let idx' = (idx + 1) AND win_mask
           in case (case el_head e of
                      None \<Rightarrow> Some (head_msdu, tail_msdu, s)
                    | Some h \<Rightarrow>
                        (case (head_msdu, tail_msdu) of
                           (None, _) \<Rightarrow>
                             map_option (\<lambda>r. (el_head e, el_tail e, upd_reorder k r s))
                               (ro_put (tids_rx_reorder s k) (unat idx) empty_elem)
                         | (Some _, None) \<Rightarrow> None
                         | (Some _, Some t) \<Rightarrow>
                             (let s1 = adf_nbuf_set_next t (Some h) s
                              in map_option (\<lambda>r. (head_msdu, el_tail e, upd_reorder k r s1))
                                   (ro_put (tids_rx_reorder s1 k) (unat idx) empty_elem)))) of
                None \<Rightarrow> None
              | Some (hd', tl', s') \<Rightarrow>
                  (if idx' \<noteq> idx_end then flush_loop k win_mask idx_end idx' hd' tl' s'
                   else Some (hd', tl', s'))))"

definition ol_rx_reorder_flush ::
  "rx_proc \<Rightarrow> tidk \<Rightarrow> u32 \<Rightarrow> u32 \<Rightarrow> htt_rx_flush_action \<Rightarrow> rx_state \<Rightarrow> rx_state option" where
  "ol_rx_reorder_flush opt k idx_start0 idx_end0 action s0 =
     (let win_mask = reorder_mask k s0;
          whole = (idx_end0 = 0xffff);
          idx_end1 = (if whole then idx_start0 else idx_end0);
          s1 = s0\<lparr>tids_next_rel_idx :=
                    (tids_next_rel_idx s0)(k := if whole then 0 else ucast idx_end0)\<rparr>
      in case flush_loop k win_mask (idx_end1 AND win_mask) (idx_start0 AND win_mask) None None s1 of
           None \<Rightarrow> None
         | Some (head_msdu, tail_msdu, s2) \<Rightarrow>
             (case ol_rx_defrag_waitlist_remove k s2 of
                None \<Rightarrow> None
              | Some s3 \<Rightarrow>
                  (case (head_msdu, tail_msdu) of
                     (None, _) \<Rightarrow> Some s3
                   | (Some _, None) \<Rightarrow> None
                   | (Some h, Some t) \<Rightarrow>
                       (let s4 = adf_nbuf_set_next t None
                              (s3\<lparr>tids_last_seq := (tids_last_seq s3)(k := d_seq_num (nb_desc s3 h))\<rparr>)
                        in if action = htt_rx_flush_release then opt k h s4
                           else ol_rx_frames_free (Some h) s4))))"

text \<open>The two loops that look for the first hole: past the empty slots, then past the full ones.\<close>

partial_function (option) skip_slots ::
  "bool \<Rightarrow> u32 \<Rightarrow> u32 \<Rightarrow> rx_reorder \<Rightarrow> u32 option" where
  "skip_slots full win_mask idx r =
     (if idx = 0 then Some idx
      else (case ro_get r (unat idx) of
              None \<Rightarrow> None
            | Some e \<Rightarrow> (if (el_head e \<noteq> None) = full
                         then skip_slots full win_mask ((idx + 1) AND win_mask) r else Some idx)))"

definition ol_rx_reorder_first_hole :: "tidk \<Rightarrow> rx_state \<Rightarrow> u32 option" where
  "ol_rx_reorder_first_hole k s =
     (let r = tids_rx_reorder s k; win_mask = reorder_mask k s
      in case skip_slots False win_mask (1 AND win_mask) r of
           None \<Rightarrow> None
         | Some i \<Rightarrow> skip_slots True win_mask i r)"

primrec flush_tids :: "rx_proc \<Rightarrow> peer \<Rightarrow> u8 list \<Rightarrow> rx_state \<Rightarrow> rx_state option" where
  "flush_tids opt p [] s = Some s"
| "flush_tids opt p (t # ts) s =
     (case ol_rx_reorder_flush opt (p, t) 0 0 htt_rx_flush_discard s of
        None \<Rightarrow> None
      | Some s' \<Rightarrow> flush_tids opt p ts s')"

definition ol_rx_reorder_peer_cleanup :: "rx_proc \<Rightarrow> peer \<Rightarrow> rx_state \<Rightarrow> rx_state option" where
  "ol_rx_reorder_peer_cleanup opt p s =
     flush_tids opt p (map of_nat [0..<unat OL_TXRX_NUM_EXT_TIDS]) s"

section \<open>Handlers of target messages\<close>

text \<open>A store through the null pointer of a failed allocation is \<open>None\<close>.\<close>

definition ol_rx_addba_handler ::
  "bool \<Rightarrow> u16 \<Rightarrow> u8 \<Rightarrow> u8 \<Rightarrow> bool \<Rightarrow> rx_state \<Rightarrow> rx_state option" where
  "ol_rx_addba_handler mem_ok peer_id tid winsz failed s =
     (if OL_TXRX_NUM_EXT_TIDS \<le> tid then Some s
      else (case ol_txrx_peer_find_by_id peer_id s of
              None \<Rightarrow> None
            | Some None \<Rightarrow> Some s
            | Some (Some p) \<Rightarrow>
                (if failed then Some s
                 else (let s1 = s\<lparr>tids_last_seq := (tids_last_seq s)((p, tid) := IEEE80211_SEQ_MAX)\<rparr>
                       in case load_at g_log2ceil (unat winsz) of
                            None \<Rightarrow> None
                          | Some round_pwr2_win_sz \<Rightarrow>
                              (if \<not> mem_ok then None
                               else let r = (tids_rx_reorder s1 (p, tid))
                                        \<lparr>win_sz := winsz,
                                         ro_array := Some (replicate (unat round_pwr2_win_sz) empty_elem),
                                         win_sz_mask := round_pwr2_win_sz - 1, num_mpdus := 0\<rparr>
                                    in Some ((upd_reorder (p, tid) r s1)
                                         \<lparr>tids_next_rel_idx :=
                                            (tids_next_rel_idx s1)((p, tid) := 0)\<rparr>))))))"

definition ol_rx_delba_handler :: "u16 \<Rightarrow> u8 \<Rightarrow> rx_state \<Rightarrow> rx_state option" where
  "ol_rx_delba_handler peer_id tid s =
     (if OL_TXRX_NUM_EXT_TIDS \<le> tid then Some s
      else (case ol_txrx_peer_find_by_id peer_id s of
              None \<Rightarrow> None
            | Some None \<Rightarrow> Some s
            | Some (Some p) \<Rightarrow>
                Some (reorder_init_at (p, tid)
                  (s\<lparr>tids_next_rel_idx :=
                       (tids_next_rel_idx s)((p, tid) := INVALID_REORDER_INDEX)\<rparr>))))"

definition ol_rx_flush_handler ::
  "(peer \<Rightarrow> rx_proc) \<Rightarrow> u16 \<Rightarrow> u8 \<Rightarrow> u16 \<Rightarrow> u16 \<Rightarrow> htt_rx_flush_action \<Rightarrow> rx_state \<Rightarrow> rx_state option" where
  "ol_rx_flush_handler opt peer_id tid idx_start idx_end action s =
     (if OL_TXRX_NUM_EXT_TIDS \<le> tid then Some s
      else (case ol_txrx_peer_find_by_id peer_id s of
              None \<Rightarrow> None
            | Some None \<Rightarrow> Some s
            | Some (Some p) \<Rightarrow>
                (case ro_get (tids_rx_reorder s (p, tid))
                        (unat (idx_start AND ucast (win_sz_mask (tids_rx_reorder s (p, tid))))) of
                   None \<Rightarrow> None
                 | Some e \<Rightarrow>
                     (case el_head e of
                        Some h \<Rightarrow>
                          if d_frag (nb_desc s h) then ol_rx_reorder_flush_frag (p, tid) idx_start s
                          else ol_rx_reorder_flush (opt p) (p, tid) (ucast idx_start) (ucast idx_end) action s
                      | None \<Rightarrow>
                          ol_rx_reorder_flush (opt p) (p, tid) (ucast idx_start) (ucast idx_end) action s))))"

section \<open>The ring as a list of frame lists\<close>

definition slots :: "rx_reorder \<Rightarrow> rx_elem list" where
  "slots r = (case ro_array r of None \<Rightarrow> [ro_base r] | Some a \<Rightarrow> a)"

lemma ro_get_slots [ring_rules]: "ro_get r i = load_at (slots r) i"
  by (simp add: ro_get_def slots_def split: option.splits)

lemma ro_put_slots:
  "i < length (slots r) \<Longrightarrow>
   \<exists>r'. ro_put r i e = Some r' \<and> slots r' = (slots r)[i := e] \<and> win_sz_mask r' = win_sz_mask r
     \<and> defrag_timeout_ms r' = defrag_timeout_ms r \<and> ro_tid r' = ro_tid r"
  by (auto simp: ro_put_def slots_def split: option.splits)

text \<open>An element holds a list of buffers: linked from its head, its tail being the last.\<close>

definition slot_rep :: "(nbuf \<Rightarrow> nbuf option) \<Rightarrow> rx_elem \<Rightarrow> nbuf list \<Rightarrow> bool" where
  "slot_rep nx e bs \<longleftrightarrow>
     (if bs = [] then e = empty_elem
      else (\<exists>q. lseg nx (el_head e) bs q) \<and> el_tail e = Some (last bs))"

lemma slot_rep_cong:
  assumes "\<And>c. c \<in> set bs \<Longrightarrow> nx c = nx' c"
  shows "slot_rep nx e bs = slot_rep nx' e bs"
proof -
  have "lseg nx p bs = lseg nx' p bs" for p
    by (rule ext) (simp add: lseg_cong [of bs nx nx', OF assms])
  then show ?thesis unfolding slot_rep_def by simp
qed

lemma slot_rep_frame [chain_rules]:
  "c \<notin> set bs \<Longrightarrow> slot_rep (nx(c := v)) e bs = slot_rep nx e bs"
  by (rule slot_rep_cong) auto

lemma slot_rep_head: "slot_rep nx e bs \<Longrightarrow> el_head e = (if bs = [] then None else Some (hd bs))"
  by (cases bs) (auto simp: slot_rep_def)

text \<open>Appending the list of one element to that of another, as all the ring's loops do.\<close>

definition join_elem :: "rx_elem \<Rightarrow> rx_elem \<Rightarrow> rx_elem" where
  "join_elem a e =
     (if el_head e = None then a
      else if el_head a = None then e else \<lparr>el_head = el_head a, el_tail = el_tail e\<rparr>)"

definition join_next :: "(nbuf \<Rightarrow> nbuf option) \<Rightarrow> rx_elem \<Rightarrow> rx_elem \<Rightarrow> nbuf \<Rightarrow> nbuf option" where
  "join_next nx a e =
     (case (el_head e, el_tail a) of (Some h, Some t) \<Rightarrow> nx(t := Some h) | _ \<Rightarrow> nx)"

lemma join_rep:
  assumes a: "slot_rep nx a as" and e: "slot_rep nx e es" and dist: "distinct (as @ es)"
  shows "slot_rep (join_next nx a e) (join_elem a e) (as @ es)"
proof (cases "as = [] \<or> es = []")
  case True
  then show ?thesis
    using a e slot_rep_head [OF a] slot_rep_head [OF e]
    by (auto simp: join_next_def join_elem_def slot_rep_def split: if_splits)
next
  case False
  then obtain us l d ds where as: "as = us @ [l]" and es: "es = d # ds"
    by (metis neq_Nil_conv rev_exhaust)
  obtain p q where "lseg nx (el_head a) (us @ [l]) p" "lseg nx (Some d) (d # ds) q"
      "el_tail a = Some l" "el_tail e = Some (last es)" "el_head e = Some d"
    using a e by (auto simp: slot_rep_def as es)
  moreover from this have "lseg (nx(l := Some d)) (el_head a) ((us @ [l]) @ d # ds) q"
    using dist as es by (intro lseg_join) auto
  ultimately show ?thesis
    using slot_rep_head [OF a] by (auto simp: slot_rep_def join_next_def join_elem_def as es)
qed

lemma join_frame:
  "slot_rep nx a as \<Longrightarrow> set as \<inter> set bs = {} \<Longrightarrow>
   slot_rep (join_next nx a e) f bs = slot_rep nx f bs"
  by (rule slot_rep_cong)
    (auto simp: join_next_def slot_rep_def split: option.splits if_splits dest: last_in_set)

text \<open>
  The specification of gathering: take the lists of \<open>d\<close> consecutive slots of the ring, from slot
  \<open>i\<close> on, leaving them empty.
\<close>

primrec ring_take :: "nat \<Rightarrow> nat \<Rightarrow> 'a list list \<Rightarrow> 'a list \<times> 'a list list" where
  "ring_take 0 i bss = ([], bss)"
| "ring_take (Suc d) i bss =
     (let (out, rest) = ring_take d (Suc i mod length bss) (bss[i := []]) in (bss ! i @ out, rest))"

text \<open>How many slots a range covers: the whole ring when it starts where it ends.\<close>

definition ring_count :: "nat \<Rightarrow> nat \<Rightarrow> nat \<Rightarrow> nat" where
  "ring_count n a b = (if a < b then b - a else b + n - a)"

lemma ring_take_length: "length (snd (ring_take d i bss)) = length bss"
  by (induction d arbitrary: i bss) (simp_all add: Let_def case_prod_beta)

lemma ring_take_mset:
  "i < length bss \<Longrightarrow> mset (fst (ring_take d i bss)) + mset (concat (snd (ring_take d i bss))) = mset (concat bss)"
proof (induction d arbitrary: i bss)
  case 0
  then show ?case by simp
next
  case (Suc d)
  let ?i = "Suc i mod length bss" and ?b = "bss[i := []]"
  have "0 < length bss" using Suc.prems by linarith
  then have "?i < length ?b" by simp
  from Suc.IH [OF this] have
    "mset (fst (ring_take d ?i ?b)) + mset (concat (snd (ring_take d ?i ?b))) = mset (concat ?b)" .
  moreover have "mset (bss ! i) + mset (concat ?b) = mset (concat bss)"
    using Suc.prems
    by (subst (3) id_take_nth_drop [OF Suc.prems]) (simp add: upd_conv_take_nth_drop ac_simps)
  ultimately show ?case by (simp add: Let_def case_prod_beta ac_simps)
qed

definition gathered :: "rx_state \<Rightarrow> tidk \<Rightarrow> rx_elem \<Rightarrow> nbuf list \<Rightarrow> nbuf list list \<Rightarrow> bool" where
  "gathered s k a ac bss \<longleftrightarrow>
     slot_rep (nb_next s) a ac \<and> distinct (ac @ concat bss) \<and>
     list_all2 (slot_rep (nb_next s)) (slots (tids_rx_reorder s k)) bss"

text \<open>
  What a loop over the ring of \<open>k\<close> may change: the slots of that ring, and links of the buffers
  \<open>D\<close>.
\<close>

definition ring_change :: "tidk \<Rightarrow> nbuf set \<Rightarrow> rx_state \<Rightarrow> rx_state \<Rightarrow> bool" where
  "ring_change k D s s' \<longleftrightarrow>
     (\<exists>nx r. s' = s\<lparr>nb_next := nx, tids_rx_reorder := (tids_rx_reorder s)(k := r)\<rparr>
        \<and> win_sz_mask r = win_sz_mask (tids_rx_reorder s k)
        \<and> defrag_timeout_ms r = defrag_timeout_ms (tids_rx_reorder s k)
        \<and> ro_tid r = ro_tid (tids_rx_reorder s k) \<and> (\<forall>c. c \<notin> D \<longrightarrow> nx c = nb_next s c))"

lemma ring_change_refl: "ring_change k D s s"
  unfolding ring_change_def
  by (intro exI [of _ "nb_next s"] exI [of _ "tids_rx_reorder s k"]) simp

lemma ring_change_trans:
  assumes "ring_change k D s t" and "ring_change k D t u"
  shows "ring_change k D s u"
proof -
  obtain nx r where t: "t = s\<lparr>nb_next := nx, tids_rx_reorder := (tids_rx_reorder s)(k := r)\<rparr>"
    "win_sz_mask r = win_sz_mask (tids_rx_reorder s k)"
    "defrag_timeout_ms r = defrag_timeout_ms (tids_rx_reorder s k)"
    "ro_tid r = ro_tid (tids_rx_reorder s k)" "\<forall>c. c \<notin> D \<longrightarrow> nx c = nb_next s c"
    using assms(1) by (auto simp: ring_change_def)
  obtain ny q where "u = t\<lparr>nb_next := ny, tids_rx_reorder := (tids_rx_reorder t)(k := q)\<rparr>"
    "win_sz_mask q = win_sz_mask (tids_rx_reorder t k)"
    "defrag_timeout_ms q = defrag_timeout_ms (tids_rx_reorder t k)"
    "ro_tid q = ro_tid (tids_rx_reorder t k)" "\<forall>c. c \<notin> D \<longrightarrow> ny c = nb_next t c"
    using assms(2) by (auto simp: ring_change_def)
  with t show ?thesis
    unfolding ring_change_def by (intro exI [of _ ny] exI [of _ q]) simp
qed

lemma ring_change_mono: "ring_change k D s s' \<Longrightarrow> D \<subseteq> E \<Longrightarrow> ring_change k E s s'"
  unfolding ring_change_def by blast

lemma ring_change_mask: "ring_change k D s s' \<Longrightarrow> reorder_mask k s' = reorder_mask k s"
  by (auto simp: ring_change_def reorder_mask_def)

lemma ro_put_same: "i < length (slots r) \<Longrightarrow> ro_put r i (slots r ! i) = Some r"
  by (auto simp: ro_put_def slots_def split: option.splits)

text \<open>
  One step of a gathering loop: the list of slot \<open>i\<close> is linked behind the gathered list and the
  slot is emptied.
\<close>

lemma gather_step:
  assumes g: "gathered s k a ac bss" and i: "i < length bss"
  shows "\<exists>e r. ro_get (tids_rx_reorder s k) i = Some e \<and> slot_rep (nb_next s) e (bss ! i) \<and>
    ro_put (tids_rx_reorder s k) i empty_elem = Some r \<and>
    gathered (s\<lparr>nb_next := join_next (nb_next s) a e, tids_rx_reorder := (tids_rx_reorder s)(k := r)\<rparr>)
      k (join_elem a e) (ac @ bss ! i) (bss[i := []]) \<and>
    ring_change k (set ac \<union> set (concat bss)) s
      (s\<lparr>nb_next := join_next (nb_next s) a e, tids_rx_reorder := (tids_rx_reorder s)(k := r)\<rparr>)"
proof -
  let ?r = "tids_rx_reorder s k" and ?nx = "nb_next s"
  have len: "length (slots ?r) = length bss" and all: "list_all2 (slot_rep ?nx) (slots ?r) bss"
    and a: "slot_rep ?nx a ac" and dist: "distinct (ac @ concat bss)"
    using g by (auto simp: gathered_def dest: list_all2_lengthD)
  let ?e = "slots ?r ! i"
  have e: "slot_rep ?nx ?e (bss ! i)" using all i by (simp add: list_all2_conv_all_nth)
  obtain r where r: "ro_put ?r i empty_elem = Some r" "slots r = (slots ?r)[i := empty_elem]"
    "win_sz_mask r = win_sz_mask ?r" "defrag_timeout_ms r = defrag_timeout_ms ?r" "ro_tid r = ro_tid ?r"
    using ro_put_slots [of i ?r empty_elem] i len by auto
  let ?nx' = "join_next ?nx a ?e"
  have bss: "bss = take i bss @ bss ! i # drop (Suc i) bss" using id_take_nth_drop [OF i] .
  have split: "concat bss = concat (take i bss) @ bss ! i @ concat (drop (Suc i) bss)"
    by (subst bss) simp
  have upd: "concat (bss[i := []]) = concat (take i bss) @ concat (drop (Suc i) bss)"
    using i by (simp add: upd_conv_take_nth_drop)
  have "distinct ((ac @ bss ! i) @ concat (bss[i := []]))"
    using dist unfolding split upd by auto
  moreover have "slot_rep ?nx' (join_elem a ?e) (ac @ bss ! i)"
    using a e dist split by (intro join_rep) auto
  moreover have "list_all2 (slot_rep ?nx') ((slots ?r)[i := empty_elem]) (bss[i := []])"
  proof (rule list_all2_all_nthI)
    fix j assume j: "j < length ((slots ?r)[i := empty_elem])"
    then have "set ac \<inter> set (bss ! j) = {}" using dist len by fastforce
    then have "slot_rep ?nx' (slots ?r ! j) (bss ! j) = slot_rep ?nx (slots ?r ! j) (bss ! j)"
      by (rule join_frame [OF a])
    then show "slot_rep ?nx' ((slots ?r)[i := empty_elem] ! j) (bss[i := []] ! j)"
      using j len all by (cases "j = i") (auto simp: list_all2_conv_all_nth slot_rep_def)
  qed (simp add: len)
  moreover have "?nx' c = ?nx c" if "c \<notin> set ac" for c
    using that a by (auto simp: join_next_def slot_rep_def split: option.splits if_splits)
  ultimately show ?thesis
    using r i len e
    by (intro exI [of _ ?e] exI [of _ r])
      (auto simp: ro_get_slots gathered_def ring_change_def intro!: exI [of _ ?nx'] exI [of _ r])
qed

lemma gathered_distinct_set:
  assumes "i < length bss"
  shows "set (ac @ bss ! i) \<union> set (concat (bss[i := []])) = set ac \<union> set (concat bss)"
proof -
  have "set (concat bss) = set (bss ! i) \<union> set (concat (bss[i := []]))"
    using assms by (subst id_take_nth_drop [OF assms]) (auto simp: upd_conv_take_nth_drop)
  then show ?thesis by auto
qed

lemma mod_step_ne: "0 < d \<Longrightarrow> d < n \<Longrightarrow> (x + d) mod n \<noteq> x mod (n :: nat)"
  by (metis add_diff_cancel_left' le_add1 mod_eq_dvd_iff_nat nat_dvd_not_less)

text \<open>The body of the flush loop is the gathering step.\<close>

lemma flush_body:
  assumes g: "gathered s k a ac bss" and e: "slot_rep (nb_next s) e (bss ! i)"
    and get: "ro_get (tids_rx_reorder s k) i = Some e"
    and put: "ro_put (tids_rx_reorder s k) i empty_elem = Some r"
  shows "(case el_head e of
            None \<Rightarrow> Some (el_head a, el_tail a, s)
          | Some h \<Rightarrow>
              (case (el_head a, el_tail a) of
                 (None, _) \<Rightarrow>
                   map_option (\<lambda>r. (el_head e, el_tail e, upd_reorder k r s))
                     (ro_put (tids_rx_reorder s k) i empty_elem)
               | (Some _, None) \<Rightarrow> None
               | (Some _, Some t) \<Rightarrow>
                   (let s1 = adf_nbuf_set_next t (Some h) s
                    in map_option (\<lambda>r. (el_head a, el_tail e, upd_reorder k r s1))
                         (ro_put (tids_rx_reorder s1 k) i empty_elem))))
       = Some (el_head (join_elem a e), el_tail (join_elem a e),
           s\<lparr>nb_next := join_next (nb_next s) a e, tids_rx_reorder := (tids_rx_reorder s)(k := r)\<rparr>)"
proof (cases "el_head e")
  case None
  then have "e = empty_elem" using e slot_rep_head [OF e] by (auto simp: slot_rep_def split: if_splits)
  then have "r = tids_rx_reorder s k"
    using put get ro_put_same [of i "tids_rx_reorder s k"] by (auto simp: ro_get_slots load_at_def split: if_splits)
  then show ?thesis using None by (simp add: join_elem_def join_next_def)
next
  case (Some h)
  have a: "slot_rep (nb_next s) a ac" using g by (simp add: gathered_def)
  show ?thesis
  proof (cases "ac = []")
    case True
    then show ?thesis using a put Some by (simp add: slot_rep_def join_elem_def join_next_def upd_reorder_def)
  next
    case False
    then obtain f t where "el_head a = Some f" "el_tail a = Some t"
      using a slot_rep_head [OF a] by (auto simp: slot_rep_def)
    then show ?thesis using put Some
      by (simp add: join_elem_def join_next_def upd_reorder_def adf_nbuf_set_next_def)
  qed
qed

lemma flush_loop_rep:
  assumes "gathered s k a ac bss" and "length bss = 2 ^ n" and "unat m = 2 ^ n - Suc 0"
    and "unat idx < 2 ^ n" and "unat idx_end = (unat idx + Suc d) mod 2 ^ n" and "d < 2 ^ n"
  shows "\<exists>a' s'. flush_loop k m idx_end idx (el_head a) (el_tail a) s = Some (el_head a', el_tail a', s') \<and>
    gathered s' k a' (ac @ fst (ring_take (Suc d) (unat idx) bss)) (snd (ring_take (Suc d) (unat idx) bss)) \<and>
    ring_change k (set ac \<union> set (concat bss)) s s'"
  using assms
proof (induction d arbitrary: s a ac bss idx)
  case (0 s a ac bss idx)
  let ?i = "unat idx"
  have i: "?i < length bss" using 0 by simp
  obtain e r where get: "ro_get (tids_rx_reorder s k) ?i = Some e" and e: "slot_rep (nb_next s) e (bss ! ?i)"
    and put: "ro_put (tids_rx_reorder s k) ?i empty_elem = Some r"
    and g: "gathered (s\<lparr>nb_next := join_next (nb_next s) a e, tids_rx_reorder := (tids_rx_reorder s)(k := r)\<rparr>)
      k (join_elem a e) (ac @ bss ! ?i) (bss[?i := []])"
    and c: "ring_change k (set ac \<union> set (concat bss)) s
      (s\<lparr>nb_next := join_next (nb_next s) a e, tids_rx_reorder := (tids_rx_reorder s)(k := r)\<rparr>)"
    using gather_step [OF 0(1) i] by blast
  have "(idx + 1) AND m = idx_end"
    using 0 ring_next_index [OF 0(3), of idx] by (simp flip: unat_inject)
  with g c show ?case
    by (subst flush_loop.simps)
      (simp add: get flush_body [OF 0(1) e get put] Let_def case_prod_beta, blast)
next
  case (Suc d s a ac bss idx)
  let ?i = "unat idx"
  have i: "?i < length bss" using Suc.prems by simp
  obtain e r where get: "ro_get (tids_rx_reorder s k) ?i = Some e" and e: "slot_rep (nb_next s) e (bss ! ?i)"
    and put: "ro_put (tids_rx_reorder s k) ?i empty_elem = Some r"
    and g: "gathered (s\<lparr>nb_next := join_next (nb_next s) a e, tids_rx_reorder := (tids_rx_reorder s)(k := r)\<rparr>)
      k (join_elem a e) (ac @ bss ! ?i) (bss[?i := []])" (is "gathered ?s1 _ _ _ _")
    and c: "ring_change k (set ac \<union> set (concat bss)) s
      (s\<lparr>nb_next := join_next (nb_next s) a e, tids_rx_reorder := (tids_rx_reorder s)(k := r)\<rparr>)"
    using gather_step [OF Suc.prems(1) i] by blast
  let ?idx = "(idx + 1) AND m"
  have nxt: "unat ?idx = Suc ?i mod 2 ^ n" by (rule ring_next_index [OF Suc.prems(3)])
  have ends: "unat idx_end = (unat ?idx + Suc d) mod 2 ^ n"
    using Suc.prems(5) mod_add_left_eq [of "Suc ?i" "2 ^ n" "Suc d"] unfolding nxt by simp
  have "unat idx_end \<noteq> unat ?idx"
    unfolding ends using mod_step_ne [of "Suc d" "2 ^ n" "unat ?idx"] Suc.prems(6) nxt by simp
  then have ne: "?idx \<noteq> idx_end" by auto
  obtain a' s' where *: "flush_loop k m idx_end ?idx (el_head (join_elem a e)) (el_tail (join_elem a e)) ?s1
      = Some (el_head a', el_tail a', s')"
    "gathered s' k a' ((ac @ bss ! ?i) @ fst (ring_take (Suc d) (unat ?idx) (bss[?i := []])))
      (snd (ring_take (Suc d) (unat ?idx) (bss[?i := []])))"
    "ring_change k (set (ac @ bss ! ?i) \<union> set (concat (bss[?i := []]))) ?s1 s'"
    using Suc.IH [OF g _ Suc.prems(3) _ ends] Suc.prems(2,6) nxt by auto
  have "ring_take (Suc (Suc d)) ?i bss
      = (bss ! ?i @ fst (ring_take (Suc d) (unat ?idx) (bss[?i := []])),
         snd (ring_take (Suc d) (unat ?idx) (bss[?i := []])))"
    using Suc.prems(2) by (simp add: nxt Let_def case_prod_beta)
  moreover have "flush_loop k m idx_end idx (el_head a) (el_tail a) s = Some (el_head a', el_tail a', s')"
    using ne *(1) by (subst flush_loop.simps)
      (simp add: get flush_body [OF Suc.prems(1) e get put] Let_def)
  ultimately show ?case
    using *(2,3) ring_change_trans [OF c] gathered_distinct_set [OF i, of ac] by fastforce
qed

lemma ring_count_Suc:
  assumes "a < n" and "b < n"
  obtains d where "ring_count n a b = Suc d" "d < n" "(a + Suc d) mod n = b"
proof
  show c: "ring_count n a b = Suc (ring_count n a b - 1)" and "ring_count n a b - 1 < n"
    using assms by (auto simp: ring_count_def)
  have "a + ring_count n a b = (if a < b then b else b + n)"
    using assms by (simp add: ring_count_def)
  then have "(a + ring_count n a b) mod n = b" using assms(2) by simp
  then show "(a + Suc (ring_count n a b - 1)) mod n = b"
    unfolding c [symmetric] .
qed

lemma release_loop_rep:
  assumes "gathered s k a ac bss" and "length bss = 2 ^ n" and "unat m = 2 ^ n - Suc 0"
    and "unat idx < 2 ^ n" and "unat idx_end = (unat idx + d) mod 2 ^ n" and "d < 2 ^ n"
  shows "\<exists>a' s'. release_loop k m idx_end idx (el_tail a) s = Some (el_tail a', s') \<and>
    gathered s' k a' (ac @ fst (ring_take d (unat idx) bss)) (snd (ring_take d (unat idx) bss)) \<and>
    ring_change k (set ac \<union> set (concat bss)) s s'"
  using assms
proof (induction d arbitrary: s a ac bss idx)
  case (0 s a ac bss idx)
  then have "idx = idx_end" by (simp flip: unat_inject)
  then have "release_loop k m idx_end idx (el_tail a) s = Some (el_tail a, s)"
    by (subst release_loop.simps) simp
  then show ?case using 0(1) ring_change_refl by fastforce
next
  case (Suc d s a ac bss idx)
  let ?i = "unat idx"
  have i: "?i < length bss" using Suc.prems by simp
  obtain e r where get: "ro_get (tids_rx_reorder s k) ?i = Some e"
    and put: "ro_put (tids_rx_reorder s k) ?i empty_elem = Some r"
    and g: "gathered (s\<lparr>nb_next := join_next (nb_next s) a e, tids_rx_reorder := (tids_rx_reorder s)(k := r)\<rparr>)
      k (join_elem a e) (ac @ bss ! ?i) (bss[?i := []])" (is "gathered ?s1 _ _ _ _")
    and c: "ring_change k (set ac \<union> set (concat bss)) s
      (s\<lparr>nb_next := join_next (nb_next s) a e, tids_rx_reorder := (tids_rx_reorder s)(k := r)\<rparr>)"
    using gather_step [OF Suc.prems(1) i] by blast
  let ?idx = "(idx + 1) AND m"
  have nxt: "unat ?idx = Suc ?i mod 2 ^ n" by (rule ring_next_index [OF Suc.prems(3)])
  have ends: "unat idx_end = (unat ?idx + d) mod 2 ^ n"
    using Suc.prems(5) mod_add_left_eq [of "Suc ?i" "2 ^ n" d] unfolding nxt by simp
  have "unat idx_end \<noteq> ?i"
    using mod_step_ne [of "Suc d" "2 ^ n" ?i] Suc.prems(4,5,6) by simp
  then have ne: "idx \<noteq> idx_end" by auto
  obtain a' s' where *: "release_loop k m idx_end ?idx (el_tail (join_elem a e)) ?s1 = Some (el_tail a', s')"
    "gathered s' k a' ((ac @ bss ! ?i) @ fst (ring_take d (unat ?idx) (bss[?i := []])))
      (snd (ring_take d (unat ?idx) (bss[?i := []])))"
    "ring_change k (set (ac @ bss ! ?i) \<union> set (concat (bss[?i := []]))) ?s1 s'"
    using Suc.IH [OF g _ Suc.prems(3) _ ends] Suc.prems(2,6) nxt by auto
  have ring: "ring_take (Suc d) ?i bss
      = (bss ! ?i @ fst (ring_take d (unat ?idx) (bss[?i := []])),
         snd (ring_take d (unat ?idx) (bss[?i := []])))"
    using Suc.prems(2) by (simp add: nxt Let_def case_prod_beta)
  have s1: "(case el_head e of None \<Rightarrow> s
      | Some h \<Rightarrow> case el_tail a of None \<Rightarrow> s | Some t \<Rightarrow> adf_nbuf_set_next t (Some h) s)
      = s\<lparr>nb_next := join_next (nb_next s) a e\<rparr>"
    by (cases "el_head e"; cases "el_tail a"; simp add: join_next_def adf_nbuf_set_next_def)
  have a: "slot_rep (nb_next s) a ac" using Suc.prems(1) by (simp add: gathered_def)
  have tail: "(if el_head e = None then el_tail a else el_tail e) = el_tail (join_elem a e)"
    by (simp add: join_elem_def)
  have "release_loop k m idx_end idx (el_tail a) s = Some (el_tail a', s')"
    using ne *(1) by (subst release_loop.simps) (simp add: get put s1 tail Let_def upd_reorder_def)
  moreover have "ring_change k (set ac \<union> set (concat bss)) s s'"
    using *(3) ring_change_trans [OF c] gathered_distinct_set [OF i, of ac] by simp
  ultimately show ?case unfolding ring using *(2) by auto
qed

section \<open>Ring invariant\<close>

definition ring_rep :: "rx_state \<Rightarrow> tidk \<Rightarrow> nbuf list list \<Rightarrow> bool" where
  "ring_rep s k bss \<longleftrightarrow>
     list_all2 (slot_rep (nb_next s)) (slots (tids_rx_reorder s k)) bss \<and> distinct (concat bss) \<and>
     (\<exists>n. length bss = 2 ^ n \<and> unat (win_sz_mask (tids_rx_reorder s k)) = 2 ^ n - Suc 0)"

lemma ring_rep_gathered: "ring_rep s k bss \<Longrightarrow> gathered s k empty_elem [] bss"
  by (simp add: ring_rep_def gathered_def slot_rep_def)

lemma gathered_ring_rep:
  "gathered s' k a ac bss' \<Longrightarrow> ring_rep s k bss \<Longrightarrow> ring_change k D s s' \<Longrightarrow> length bss' = length bss
   \<Longrightarrow> ring_rep s' k bss'"
  by (auto simp: ring_rep_def gathered_def ring_change_def)

lemma ring_rep_cong:
  assumes "ring_rep s k bss" and "tids_rx_reorder s' k = tids_rx_reorder s k"
    and "\<And>c. c \<in> set (concat bss) \<Longrightarrow> nb_next s' c = nb_next s c"
  shows "ring_rep s' k bss"
proof -
  have "slot_rep (nb_next s') e bs = slot_rep (nb_next s) e bs" if "bs \<in> set bss" for e bs
    using assms(3) that by (intro slot_rep_cong) auto
  then show ?thesis
    using assms(1,2) by (auto simp: ring_rep_def list_all2_conv_all_nth)
qed

text \<open>The indices a handler computes from its arguments by masking.\<close>

lemma ring_index:
  assumes "ring_rep s k bss"
  shows "unat (w AND reorder_mask k s) = unat w mod length bss" "0 < length bss"
  using assms by (auto simp: ring_rep_def reorder_mask_def unat_and_mask)

abbreviation ring_range :: "nbuf list list \<Rightarrow> u32 \<Rightarrow> u32 \<Rightarrow> nbuf list \<times> nbuf list list" where
  "ring_range bss idx_start idx_end \<equiv>
     ring_take (ring_count (length bss) (unat idx_start mod length bss) (unat idx_end mod length bss))
       (unat idx_start mod length bss) bss"

text \<open>The fields the loops leave alone, read off a \<open>ring_change\<close>.\<close>

lemma ring_change_fields:
  assumes "ring_change k D s s'"
  shows "nb_desc s' = nb_desc s" "nb_freed s' = nb_freed s" "waitlist s' = waitlist s"
    "tids_next_rel_idx s' = tids_next_rel_idx s" "tids_last_seq s' = tids_last_seq s"
    "j \<noteq> k \<Longrightarrow> tids_rx_reorder s' j = tids_rx_reorder s j"
    "c \<notin> D \<Longrightarrow> nb_next s' c = nb_next s c" "peers s' = peers s"
  using assms by (auto simp: ring_change_def)

lemma ring_rep_fields [simp]:
  "ring_rep (s\<lparr>tids_next_rel_idx := x\<rparr>) k bss = ring_rep s k bss"
  "ring_rep (s\<lparr>tids_last_seq := y\<rparr>) k bss = ring_rep s k bss"
  "ring_rep (s\<lparr>waitlist := w\<rparr>) k bss = ring_rep s k bss"
  "ring_rep (s\<lparr>nb_freed := v\<rparr>) k bss = ring_rep s k bss"
  by (simp_all add: ring_rep_def)

lemma slot_rep_terminate:
  assumes "slot_rep nx a bs" and "bs \<noteq> []" and "distinct bs"
  shows "\<exists>t. el_tail a = Some t \<and> el_head a = Some (hd bs) \<and> t \<in> set bs \<and>
    lseg (nx(t := None)) (Some (hd bs)) bs None"
proof -
  obtain us l where bs: "bs = us @ [l]" using assms(2) by (cases bs rule: rev_cases) auto
  obtain q where "lseg nx (el_head a) (us @ [l]) q" "el_tail a = Some l"
    using assms(1,2) by (auto simp: slot_rep_def bs)
  then show ?thesis
    using lseg_relink [of nx "el_head a" us l q None] assms(3) slot_rep_head [OF assms(1)] assms(2)
    by (auto simp: bs)
qed

text \<open>The release up to the hand-over, whether or not the first slot is empty.\<close>

lemma release_core:
  fixes idx_start idx_end :: u32
  assumes ring: "ring_rep s k bss" and take: "ring_range bss idx_start idx_end = (out, rest)"
  defines "a \<equiv> idx_start AND reorder_mask k s" and "m \<equiv> reorder_mask k s"
  shows "\<exists>e r a' s'. ro_get (tids_rx_reorder s k) (unat a) = Some e \<and>
    slot_rep (nb_next s) e (bss ! (unat idx_start mod length bss)) \<and>
    ro_put (tids_rx_reorder s k) (unat a) empty_elem = Some r \<and>
    release_loop k m (idx_end AND m) ((a + 1) AND m) (el_tail e) (upd_reorder k r s)
      = Some (el_tail a', s') \<and>
    gathered s' k a' out rest \<and> ring_change k (set (concat bss)) s s'"
proof -
  obtain n where n: "length bss = 2 ^ n" "unat m = 2 ^ n - Suc 0"
    using ring by (auto simp: ring_rep_def m_def reorder_mask_def)
  have ua: "unat a = unat idx_start mod length bss" and ub: "unat (idx_end AND m) = unat idx_end mod length bss"
    using ring_index [OF ring] by (auto simp: a_def m_def)
  have i: "unat a < length bss" "unat (idx_end AND m) < length bss"
    unfolding ua ub using n(1) by simp_all
  obtain d where d: "ring_count (length bss) (unat a) (unat (idx_end AND m)) = Suc d" "d < length bss"
      "(unat a + Suc d) mod length bss = unat (idx_end AND m)"
    using ring_count_Suc [OF i] by blast
  obtain e r where get: "ro_get (tids_rx_reorder s k) (unat a) = Some e"
    and e: "slot_rep (nb_next s) e (bss ! unat a)"
    and put: "ro_put (tids_rx_reorder s k) (unat a) empty_elem = Some r"
    and g: "gathered (s\<lparr>nb_next := join_next (nb_next s) empty_elem e, tids_rx_reorder := (tids_rx_reorder s)(k := r)\<rparr>)
      k (join_elem empty_elem e) (bss ! unat a) (bss[unat a := []])"
    and c: "ring_change k (set (concat bss)) s
      (s\<lparr>nb_next := join_next (nb_next s) empty_elem e, tids_rx_reorder := (tids_rx_reorder s)(k := r)\<rparr>)"
    using gather_step [OF ring_rep_gathered [OF ring] i(1)] by auto
  have "join_next (nb_next s) empty_elem e = nb_next s"
    by (cases "el_head e") (simp_all add: join_next_def)
  then have up: "s\<lparr>nb_next := join_next (nb_next s) empty_elem e, tids_rx_reorder := (tids_rx_reorder s)(k := r)\<rparr>
      = upd_reorder k r s" by (simp add: upd_reorder_def)
  have je: "join_elem empty_elem e = e"
    using e slot_rep_head [OF e] by (auto simp: join_elem_def slot_rep_def split: if_splits)
  let ?i = "(a + 1) AND m"
  have nxt: "unat ?i = Suc (unat a) mod 2 ^ n" by (rule ring_next_index [OF n(2)])
  have "unat (idx_end AND m) = (unat ?i + d) mod 2 ^ n"
    using d(3) mod_add_left_eq [of "Suc (unat a)" "2 ^ n" d] unfolding nxt n(1) by simp
  then obtain a' s' where l: "release_loop k m (idx_end AND m) ?i (el_tail e) (upd_reorder k r s) = Some (el_tail a', s')"
    "gathered s' k a' (bss ! unat a @ fst (ring_take d (unat ?i) (bss[unat a := []])))
      (snd (ring_take d (unat ?i) (bss[unat a := []])))"
    "ring_change k (set (bss ! unat a) \<union> set (concat (bss[unat a := []]))) (upd_reorder k r s) s'"
    using release_loop_rep [OF g [unfolded up je], of n m ?i "idx_end AND m" d] n d(2) nxt by auto
  have "out = bss ! unat a @ fst (ring_take d (unat ?i) (bss[unat a := []]))"
    "rest = snd (ring_take d (unat ?i) (bss[unat a := []]))"
    using take d(1) unfolding ua [symmetric] ub [symmetric] by (auto simp: n(1) nxt Let_def case_prod_beta)
  moreover have "ring_change k (set (concat bss)) s s'"
    using ring_change_trans [OF c [unfolded up]] l(3) gathered_distinct_set [OF i(1), of "[]"] by simp
  ultimately show ?thesis
    using get put e l ua by auto
qed

text \<open>Other rings keep their contents through a change that only relinks other buffers.\<close>

lemma ring_change_other:
  assumes "ring_change k D s s'" and "j \<noteq> k" and "ring_rep s j cs" and "set (concat cs) \<inter> D = {}"
  shows "ring_rep s' j cs"
proof (rule ring_rep_cong [OF assms(3)])
  show "tids_rx_reorder s' j = tids_rx_reorder s j" by (rule ring_change_fields(6) [OF assms(1,2)])
  show "nb_next s' c = nb_next s c" if "c \<in> set (concat cs)" for c
    using ring_change_fields(7) [OF assms(1)] assms(4) that by blast
qed

lemma ring_take_facts:
  assumes "ring_range bss idx_start idx_end = (out, rest)" and "0 < length bss"
  shows "length rest = length bss" "mset out + mset (concat rest) = mset (concat bss)"
  using ring_take_length ring_take_mset [of "unat idx_start mod length bss" bss] assms
  by (metis mod_less_divisor snd_conv, metis mod_less_divisor fst_conv snd_conv)

lemma ring_range_first:
  assumes "ring_range bss idx_start idx_end = (out, rest)" and "0 < length bss"
  shows "\<exists>os. out = bss ! (unat idx_start mod length bss) @ os"
proof -
  have "unat idx_start mod length bss < length bss" "unat idx_end mod length bss < length bss"
    using assms(2) by simp_all
  then obtain d where "ring_count (length bss) (unat idx_start mod length bss)
      (unat idx_end mod length bss) = Suc d"
    using ring_count_Suc by blast
  then show ?thesis using assms(1) by (auto simp: Let_def case_prod_beta)
qed

lemma ring_terminate:
  assumes "ring_rep s k bss" and "t \<notin> set (concat bss)"
  shows "ring_rep (adf_nbuf_set_next t v s) k bss"
  using assms by (intro ring_rep_cong [OF assms(1)]) (auto simp: adf_nbuf_set_next_def)

lemma adf_nbuf_set_next_fields [simp]:
  "nb_desc (adf_nbuf_set_next b v s) = nb_desc s" "nb_freed (adf_nbuf_set_next b v s) = nb_freed s"
  "tids_last_seq (adf_nbuf_set_next b v s) = tids_last_seq s"
  "tids_next_rel_idx (adf_nbuf_set_next b v s) = tids_next_rel_idx s"
  by (simp_all add: adf_nbuf_set_next_def)

text \<open>What the last step of a hand-over produces from the gathered list.\<close>

lemma hand_over:
  assumes g: "gathered t k a out rest" and ring: "ring_rep s k bss" and c: "ring_change k D s t"
    and len: "length rest = length bss" and ne: "out \<noteq> []" and t': "tids_rx_reorder t' = tids_rx_reorder t"
    "nb_next t' = nb_next t" and l: "el_tail a = Some l"
  shows "el_head a = Some (hd out) \<and> lseg (nb_next (adf_nbuf_set_next l None t')) (Some (hd out)) out None \<and>
    ring_rep (adf_nbuf_set_next l None t') k rest \<and> l \<in> set out"
proof -
  have sl: "slot_rep (nb_next t) a out" and dist: "distinct (out @ concat rest)"
    using g by (auto simp: gathered_def)
  have "ring_rep t k rest" by (rule gathered_ring_rep [OF g ring c len])
  then have "ring_rep t' k rest" by (rule ring_rep_cong) (simp_all add: t')
  then have "ring_rep (adf_nbuf_set_next l None t') k rest"
    using slot_rep_terminate [OF sl ne] dist l by (intro ring_terminate) auto
  with slot_rep_terminate [OF sl ne] dist l show ?thesis by (auto simp: t')
qed

text \<open>The flush up to the hand-over.\<close>

abbreviation flush_end :: "u32 \<Rightarrow> u32 \<Rightarrow> u32" where
  "flush_end idx_start idx_end \<equiv> (if idx_end = 0xffff then idx_start else idx_end)"

lemma flush_core:
  fixes idx_start idx_end :: u32
  assumes ring: "ring_rep s k bss" and take: "ring_range bss idx_start idx_end = (out, rest)"
  shows "\<exists>a' s'. flush_loop k (reorder_mask k s) (idx_end AND reorder_mask k s)
      (idx_start AND reorder_mask k s) None None s = Some (el_head a', el_tail a', s') \<and>
    gathered s' k a' out rest \<and> ring_change k (set (concat bss)) s s'"
proof -
  obtain n where n: "length bss = 2 ^ n" "unat (reorder_mask k s) = 2 ^ n - Suc 0"
    using ring by (auto simp: ring_rep_def reorder_mask_def)
  let ?a = "idx_start AND reorder_mask k s" and ?b = "idx_end AND reorder_mask k s"
  have ua: "unat ?a = unat idx_start mod length bss" and ub: "unat ?b = unat idx_end mod length bss"
    using ring_index [OF ring] by auto
  have i: "unat ?a < length bss" "unat ?b < length bss" unfolding ua ub using n(1) by simp_all
  obtain d where d: "ring_count (length bss) (unat ?a) (unat ?b) = Suc d" "d < length bss"
      "(unat ?a + Suc d) mod length bss = unat ?b"
    using ring_count_Suc [OF i] by blast
  have "ring_take (Suc d) (unat ?a) bss = (out, rest)"
    using take d(1) unfolding ua ub by metis
  then show ?thesis
    using flush_loop_rep [OF ring_rep_gathered [OF ring] n(1,2), of ?a ?b d] i(1) d(2,3)
    unfolding n(1) by (auto simp del: ring_take.simps)
qed

lemma flush_rep:
  assumes ring: "ring_rep s k bss" and wl: "waitlist_rep s ks"
    and take: "ring_range bss idx_start (flush_end idx_start idx_end) = (out, rest)"
  shows "\<exists>t. ring_rep t k rest \<and> waitlist_rep t (remove1 k ks) \<and> nb_freed t = nb_freed s \<and>
    (\<forall>j cs. j \<noteq> k \<longrightarrow> ring_rep s j cs \<longrightarrow> set (concat cs) \<inter> set (concat bss) = {} \<longrightarrow> ring_rep t j cs) \<and>
    (if out = [] then ol_rx_reorder_flush opt k idx_start idx_end action s = Some t
     else lseg (nb_next t) (Some (hd out)) out None \<and> tids_last_seq t k = d_seq_num (nb_desc s (hd out)) \<and>
       ol_rx_reorder_flush opt k idx_start idx_end action s =
         (if action = htt_rx_flush_release then opt k (hd out) t else ol_rx_frames_free (Some (hd out)) t))"
proof -
  let ?s = "s\<lparr>tids_next_rel_idx :=
      (tids_next_rel_idx s)(k := if idx_end = 0xffff then 0 else ucast idx_end)\<rparr>"
  have mask: "reorder_mask k ?s = reorder_mask k s" by (simp add: reorder_mask_def)
  have r1: "ring_rep ?s k bss" using ring by simp
  obtain a t where loop: "flush_loop k (reorder_mask k s) (flush_end idx_start idx_end AND reorder_mask k s)
      (idx_start AND reorder_mask k s) None None ?s = Some (el_head a, el_tail a, t)"
    and g: "gathered t k a out rest" and c: "ring_change k (set (concat bss)) ?s t"
    using flush_core [OF r1 take] unfolding mask by blast
  have len: "length rest = length bss" using ring_take_facts [OF take] ring_index(2) [OF ring] by blast
  have rt: "ring_rep t k rest" by (rule gathered_ring_rep [OF g r1 c len])
  have sl: "slot_rep (nb_next t) a out" "distinct out" using g by (auto simp: gathered_def)
  have "waitlist_rep t ks" using wl ring_change_fields(3) [OF c] by (simp add: waitlist_rep_def)
  then obtain q where q: "ol_rx_defrag_waitlist_remove k t = Some (t\<lparr>waitlist := q\<rparr>)"
    "waitlist_rep (t\<lparr>waitlist := q\<rparr>) (remove1 k ks)"
    using waitlist_remove by blast
  have sub: "set out \<subseteq> set (concat bss)"
    using ring_take_facts(2) [OF take] ring_index(2) [OF ring]
    by (metis Un_upper1 set_append set_mset_mset set_mset_union)
  have oth: "ring_rep t j cs" if "j \<noteq> k" "ring_rep s j cs" "set (concat cs) \<inter> set (concat bss) = {}" for j cs
    using ring_change_other [OF c that(1) _ that(3)] that(2) by simp
  show ?thesis
  proof (cases "out = []")
    case True
    then have "el_head a = None" using slot_rep_head [OF sl(1)] by simp
    then have "ol_rx_reorder_flush opt k idx_start idx_end action s = Some (t\<lparr>waitlist := q\<rparr>)"
      using loop q(1) by (simp add: ol_rx_reorder_flush_def Let_def)
    with True rt q(2) ring_change_fields [OF c] oth show ?thesis
      by (intro exI [of _ "t\<lparr>waitlist := q\<rparr>"]) simp
  next
    case False
    obtain l where l: "el_tail a = Some l" "el_head a = Some (hd out)"
      using slot_rep_terminate [OF sl(1) False sl(2)] by blast
    let ?t = "t\<lparr>waitlist := q, tids_last_seq := (tids_last_seq t)(k := d_seq_num (nb_desc t (hd out)))\<rparr>"
    have h: "lseg (nb_next (adf_nbuf_set_next l None ?t)) (Some (hd out)) out None"
      "ring_rep (adf_nbuf_set_next l None ?t) k rest" "l \<in> set out"
      using hand_over [OF g r1 c len False _ _ l(1), of ?t] by simp_all
    moreover have "ring_rep (adf_nbuf_set_next l None ?t) j cs"
      if "j \<noteq> k" "ring_rep s j cs" "set (concat cs) \<inter> set (concat bss) = {}" for j cs
      using oth [OF that] that(3) sub h(3) by (intro ring_terminate) auto
    moreover have "waitlist_rep (adf_nbuf_set_next l None ?t) (remove1 k ks)"
      using q(2) by (simp add: waitlist_rep_def)
    moreover have "ol_rx_reorder_flush opt k idx_start idx_end action s =
         (if action = htt_rx_flush_release then opt k (hd out) (adf_nbuf_set_next l None ?t)
          else ol_rx_frames_free (Some (hd out)) (adf_nbuf_set_next l None ?t))"
      using loop q(1) l by (simp add: ol_rx_reorder_flush_def Let_def)
    ultimately show ?thesis
      using False ring_change_fields [OF c] by (intro exI [of _ "adf_nbuf_set_next l None ?t"]) simp
  qed
qed

text \<open>Storing a list of linked buffers joins it to its slot.\<close>

lemma store_rep:
  assumes ring: "ring_rep s k bss" and new: "lseg (nb_next s) (Some (hd bs)) bs q" "bs \<noteq> []"
    and dist: "distinct (concat bss @ bs)"
  shows "\<exists>s'. ol_rx_reorder_store k idx (Some (hd bs)) (Some (last bs)) s = Some s' \<and>
    ring_rep s' k (bss[unat idx mod length bss := bss ! (unat idx mod length bss) @ bs]) \<and>
    ring_change k (set (concat bss)) s s'"
proof -
  let ?r = "tids_rx_reorder s k" and ?nx = "nb_next s" and ?i = "unat idx mod length bss"
  let ?f = "\<lparr>el_head = Some (hd bs), el_tail = Some (last bs)\<rparr>"
  have all: "list_all2 (slot_rep ?nx) (slots ?r) bss" and len: "length (slots ?r) = length bss"
    using ring by (auto simp: ring_rep_def dest: list_all2_lengthD)
  have ui: "unat (idx AND reorder_mask k s) = ?i" and i: "?i < length bss"
    using ring_index [OF ring] by simp_all
  let ?e = "slots ?r ! ?i"
  have e: "slot_rep ?nx ?e (bss ! ?i)" using all i by (simp add: list_all2_conv_all_nth)
  have f: "slot_rep ?nx ?f bs" using new by (auto simp: slot_rep_def)
  have split: "concat bss = concat (take ?i bss) @ bss ! ?i @ concat (drop (Suc ?i) bss)"
    by (subst id_take_nth_drop [OF i]) simp
  obtain r where r: "ro_put ?r ?i (join_elem ?e ?f) = Some r" "slots r = (slots ?r)[?i := join_elem ?e ?f]"
    "win_sz_mask r = win_sz_mask ?r" "defrag_timeout_ms r = defrag_timeout_ms ?r" "ro_tid r = ro_tid ?r"
    using ro_put_slots [of ?i ?r "join_elem ?e ?f"] i len by auto
  let ?s = "s\<lparr>nb_next := join_next ?nx ?e ?f, tids_rx_reorder := (tids_rx_reorder s)(k := r)\<rparr>"
  have "ol_rx_reorder_store k idx (Some (hd bs)) (Some (last bs)) s = Some ?s"
  proof (cases "bss ! ?i = []")
    case True
    then have "?e = empty_elem" using e by (simp add: slot_rep_def)
    then show ?thesis using r(1) i len
      by (simp add: ol_rx_reorder_store_def Let_def ui ro_get_slots join_elem_def join_next_def upd_reorder_def)
  next
    case False
    then obtain h t where ht: "el_head ?e = Some h" "el_tail ?e = Some t"
      using e slot_rep_head [OF e] by (auto simp: slot_rep_def)
    then have "join_elem ?e ?f = ?e\<lparr>el_tail := Some (last bs)\<rparr>"
      by (cases ?e) (simp add: join_elem_def)
    with r(1) have "ro_put ?r ?i (?e\<lparr>el_tail := Some (last bs)\<rparr>) = Some r" by metis
    with ht show ?thesis using i len
      by (simp add: ol_rx_reorder_store_def Let_def ui ro_get_slots join_next_def upd_reorder_def
          adf_nbuf_set_next_def)
  qed
  moreover have "slot_rep (join_next ?nx ?e ?f) (join_elem ?e ?f) (bss ! ?i @ bs)"
    using e f dist split by (intro join_rep) auto
  moreover have "slot_rep (join_next ?nx ?e ?f) (slots ?r ! j) (bss ! j)" if "j < length bss" "j \<noteq> ?i" for j
  proof -
    have "set (bss ! ?i) \<inter> set (bss ! j) = {}"
      using concat_disjoint [of bss ?i j] dist i that by simp
    then show ?thesis
      using join_frame [OF e, of "bss ! j" ?f "slots ?r ! j"] all that by (simp add: list_all2_conv_all_nth)
  qed
  moreover have "distinct (concat (bss[?i := bss ! ?i @ bs]))"
    using dist i unfolding split by (auto simp: upd_conv_take_nth_drop)
  moreover have "join_next ?nx ?e ?f c = ?nx c" if "c \<notin> set (concat bss)" for c
    using that e split by (auto simp: join_next_def slot_rep_def split: option.splits if_splits)
  ultimately show ?thesis
    using r ring len
    by (intro exI [of _ ?s]) (auto simp: ring_rep_def ring_change_def list_all2_conv_all_nth nth_list_update
        intro!: exI [of _ "join_next ?nx ?e ?f"] exI [of _ r])
qed

end
