(* ===== verification/Rx_Reorder_Props.thy ===== *)
theory Rx_Reorder_Props
  imports Rx_Reorder
begin

text \<open>
  The properties of the receive reorder rings: release, flush and store against the list
  specification \<open>ring_take\<close>, the block-ack handlers, the duplicate check, the history ring and
  the peer clean-up.
\<close>

section \<open>An example ring\<close>

text \<open>
  A block-ack window of four slots; slot 1 holds the frames 10 and 11, slot 2 is empty, slot 3
  holds frame 12.
\<close>

definition rx_ex_ring :: rx_state where
  "rx_ex_ring = rx_quiet\<lparr>nb_next := (\<lambda>_. None)(10 := Some 11),
     nb_desc := (\<lambda>b. rx_desc0\<lparr>d_seq_num := of_nat b\<rparr>),
     tids_rx_reorder := (\<lambda>k. rx_reorder0\<lparr>ro_tid := ucast (snd k), win_sz := 4, win_sz_mask := 3,
       ro_array := Some [empty_elem, \<lparr>el_head = Some 10, el_tail = Some 11\<rparr>, empty_elem,
                         \<lparr>el_head = Some 12, el_tail = Some 12\<rparr>]\<rparr>)\<rparr>"

lemma rx_ex_ring_rep: "ring_rep rx_ex_ring (0, 0) [[], [10, 11], [], [12]]"
proof -
  have "lseg [10 \<mapsto> 11] (Some 10) [10, 11 :: nat] None" "lseg [10 \<mapsto> 11] (Some 12) [12 :: nat] None"
    by simp_all
  moreover have "(4::nat) = 2 ^ 2" by simp
  ultimately show ?thesis
    unfolding ring_rep_def
    by (intro conjI exI [of _ 2]) (auto simp: rx_ex_ring_def slots_def rx_reorder0_def slot_rep_def)
qed

lemma rx_ex_ring_range:
  "ring_range [[], [10, 11], [], [12]] 1 0 = ([10, 11, 12], [[], [], [], []])"
  "ring_range [[], [10, 11], [], [12]] 2 0 = ([12], [[], [10, 11], [], []])"
  "ring_range [[], [10, 11], [], [12]] 0 0 = ([10, 11, 12], [[], [], [], []])"
  by code_simp+

lemma rx_ex_ring_fields:
  "nb_freed rx_ex_ring = []" "nb_desc rx_ex_ring b = rx_desc0\<lparr>d_seq_num := of_nat b\<rparr>"
  "waitlist rx_ex_ring = waitlist rx_quiet" "d_seq_num rx_desc0 = 0"
  by (simp_all add: rx_ex_ring_def rx_quiet_def rx_desc0_def)

section \<open>Discarding\<close>

lemma flush_discard_rep:
  assumes "ring_rep s k bss" and "waitlist_rep s ks"
    and "ring_range bss idx_start (flush_end idx_start idx_end) = (out, rest)"
  shows "\<exists>s'. ol_rx_reorder_flush opt k idx_start idx_end htt_rx_flush_discard s = Some s' \<and>
    nb_freed s' = nb_freed s @ out \<and> ring_rep s' k rest \<and> waitlist_rep s' (remove1 k ks) \<and>
    (\<forall>j cs. j \<noteq> k \<longrightarrow> ring_rep s j cs \<longrightarrow> set (concat cs) \<inter> set (concat bss) = {} \<longrightarrow> ring_rep s' j cs)"
proof -
  obtain t where t: "ring_rep t k rest" "waitlist_rep t (remove1 k ks)" "nb_freed t = nb_freed s"
    "\<forall>j cs. j \<noteq> k \<longrightarrow> ring_rep s j cs \<longrightarrow> set (concat cs) \<inter> set (concat bss) = {} \<longrightarrow> ring_rep t j cs"
    "if out = [] then ol_rx_reorder_flush opt k idx_start idx_end htt_rx_flush_discard s = Some t
     else lseg (nb_next t) (Some (hd out)) out None \<and> tids_last_seq t k = d_seq_num (nb_desc s (hd out)) \<and>
       ol_rx_reorder_flush opt k idx_start idx_end htt_rx_flush_discard s =
         (if htt_rx_flush_discard = htt_rx_flush_release then opt k (hd out) t
          else ol_rx_frames_free (Some (hd out)) t)"
    using flush_rep [OF assms, of opt htt_rx_flush_discard] by blast
  show ?thesis
  proof (cases "out = []")
    case True
    with t show ?thesis by auto
  next
    case False
    then have "ol_rx_reorder_flush opt k idx_start idx_end htt_rx_flush_discard s
        = Some (t\<lparr>nb_freed := nb_freed t @ out\<rparr>)"
      using t(5) by (simp add: ol_rx_frames_free_rep)
    moreover have "waitlist_rep (t\<lparr>nb_freed := nb_freed t @ out\<rparr>) (remove1 k ks)"
      using t(2) by (simp add: waitlist_rep_def)
    ultimately show ?thesis using t(1,3,4) by auto
  qed
qed

text \<open>Taking all slots of a ring from slot 0 empties it.\<close>

lemma ring_take_block:
  "i + d \<le> length bss \<Longrightarrow> ring_take d i bss
     = (concat (take d (drop i bss)), take i bss @ replicate d [] @ drop (i + d) bss)"
proof (induction d arbitrary: i bss)
  case 0
  then show ?case by simp
next
  case (Suc d)
  let ?b = "bss[i := []]"
  have *: "drop i bss = bss ! i # drop (Suc i) bss" using Suc.prems by (simp add: Cons_nth_drop_Suc)
  show ?case
  proof (cases d)
    case 0
    then show ?thesis using Suc.prems * by (simp add: upd_conv_take_nth_drop)
  next
    case (Suc m)
    then have "Suc i mod length bss = Suc i" using Suc.prems by simp
    then show ?thesis
      using Suc.prems Suc.IH [of "Suc i" ?b] * by (simp add: upd_conv_take_nth_drop Let_def add.commute)
  qed
qed

lemma ring_range_all:
  "bss \<noteq> [] \<Longrightarrow> ring_range bss 0 0 = (concat bss, replicate (length bss) [])"
  using ring_take_block [of 0 "length bss" bss] by (simp add: ring_count_def)

section \<open>Properties of the ring\<close>

lemma release_rep:
  assumes ring: "ring_rep s k bss" and take: "ring_range bss idx_start idx_end = (out, rest)"
    and first: "bss ! (unat idx_start mod length bss) \<noteq> []"
  shows "\<exists>s'. ol_rx_reorder_release opt k idx_start idx_end s = opt k (hd out) s' \<and>
    lseg (nb_next s') (Some (hd out)) out None \<and> ring_rep s' k rest \<and>
    mset out + mset (concat rest) = mset (concat bss) \<and> nb_freed s' = nb_freed s \<and>
    tids_last_seq s' k = d_seq_num (nb_desc s (hd out)) \<and> tids_next_rel_idx s' k = ucast idx_end \<and>
    (\<forall>j cs. j \<noteq> k \<longrightarrow> ring_rep s j cs \<longrightarrow> set (concat cs) \<inter> set (concat bss) = {} \<longrightarrow> ring_rep s' j cs) \<and>
    peers s' = peers s"
proof -
  let ?s = "s\<lparr>tids_next_rel_idx := (tids_next_rel_idx s)(k := ucast idx_end)\<rparr>"
  let ?i = "unat idx_start mod length bss"
  have mask: "reorder_mask k ?s = reorder_mask k s" by (simp add: reorder_mask_def)
  have r1: "ring_rep ?s k bss" using ring by simp
  obtain e r a t where core: "ro_get (tids_rx_reorder ?s k) (unat (idx_start AND reorder_mask k s)) = Some e"
    "slot_rep (nb_next ?s) e (bss ! ?i)"
    "ro_put (tids_rx_reorder ?s k) (unat (idx_start AND reorder_mask k s)) empty_elem = Some r"
    "release_loop k (reorder_mask k s) (idx_end AND reorder_mask k s)
       ((idx_start AND reorder_mask k s) + 1 AND reorder_mask k s) (el_tail e) (upd_reorder k r ?s)
      = Some (el_tail a, t)"
    and g: "gathered t k a out rest" and c: "ring_change k (set (concat bss)) ?s t"
    using release_core [OF r1 take] unfolding mask by auto
  have facts: "length rest = length bss" "mset out + mset (concat rest) = mset (concat bss)"
    using ring_take_facts [OF take] ring_index(2) [OF ring] by blast+
  obtain os where os: "out = bss ! ?i @ os"
    using ring_range_first [OF take] ring_index(2) [OF ring] by blast
  have hd: "out \<noteq> []" "el_head e = Some (hd out)"
    using os first slot_rep_head [OF core(2)] by auto
  let ?t = "t\<lparr>tids_last_seq := (tids_last_seq t)(k := d_seq_num (nb_desc t (hd out)))\<rparr>"
  have sl: "slot_rep (nb_next t) a out" "distinct out" using g by (auto simp: gathered_def)
  obtain l where l: "el_tail a = Some l" using slot_rep_terminate [OF sl(1) hd(1) sl(2)] by blast
  have h: "lseg (nb_next (adf_nbuf_set_next l None ?t)) (Some (hd out)) out None"
    "ring_rep (adf_nbuf_set_next l None ?t) k rest" "l \<in> set out"
    using hand_over [OF g r1 c facts(1) hd(1) _ _ l, of ?t] by simp_all
  have taken: "set out \<subseteq> set (concat bss)"
    using facts(2) by (metis Un_upper1 set_append set_mset_mset set_mset_union)
  have "ol_rx_reorder_release opt k idx_start idx_end s = opt k (hd out) (adf_nbuf_set_next l None ?t)"
    using core hd(2) l by (simp add: ol_rx_reorder_release_def Let_def mask)
  moreover have "ring_rep (adf_nbuf_set_next l None ?t) j cs"
    if j: "j \<noteq> k" and cs: "ring_rep s j cs" and dis: "set (concat cs) \<inter> set (concat bss) = {}" for j cs
  proof -
    have "ring_rep ?t j cs" using ring_change_other [OF c j _ dis] cs by simp
    moreover have "l \<notin> set (concat cs)"
      using h(3) dis taken by blast
    ultimately show ?thesis by (rule ring_terminate)
  qed
  ultimately show ?thesis
    using h facts(2) ring_change_fields [OF c] by (intro exI [of _ "adf_nbuf_set_next l None ?t"]) (auto simp: adf_nbuf_set_next_def)
qed


text \<open>
  A release of a range whose first slot is empty hands nothing over: the frames of all other
  slots of the range are unlinked from the ring, but neither delivered nor freed.
\<close>

lemma reorder_release_first_empty:
  assumes ring: "ring_rep s k bss" and take: "ring_range bss idx_start idx_end = (out, rest)"
    and first: "bss ! (unat idx_start mod length bss) = []"
  shows "\<exists>s'. ol_rx_reorder_release opt k idx_start idx_end s = Some s' \<and> ring_rep s' k rest \<and>
    nb_freed s' = nb_freed s \<and> tids_last_seq s' k = tids_last_seq s k \<and>
    mset (concat rest) = mset (concat bss) - mset out"
proof -
  let ?s = "s\<lparr>tids_next_rel_idx := (tids_next_rel_idx s)(k := ucast idx_end)\<rparr>"
  let ?i = "unat idx_start mod length bss"
  have mask: "reorder_mask k ?s = reorder_mask k s" by (simp add: reorder_mask_def)
  have r1: "ring_rep ?s k bss" using ring by simp
  obtain e r a t where core: "ro_get (tids_rx_reorder ?s k) (unat (idx_start AND reorder_mask k s)) = Some e"
    "slot_rep (nb_next ?s) e (bss ! ?i)"
    "ro_put (tids_rx_reorder ?s k) (unat (idx_start AND reorder_mask k s)) empty_elem = Some r"
    "release_loop k (reorder_mask k s) (idx_end AND reorder_mask k s)
       ((idx_start AND reorder_mask k s) + 1 AND reorder_mask k s) (el_tail e) (upd_reorder k r ?s)
      = Some (el_tail a, t)"
    and g: "gathered t k a out rest" and c: "ring_change k (set (concat bss)) ?s t"
    using release_core [OF r1 take] unfolding mask by auto
  have facts: "length rest = length bss" "mset out + mset (concat rest) = mset (concat bss)"
    using ring_take_facts [OF take] ring_index(2) [OF ring] by blast+
  have "el_head e = None" using slot_rep_head [OF core(2)] first by simp
  then have "ol_rx_reorder_release opt k idx_start idx_end s = Some t"
    using core by (simp add: ol_rx_reorder_release_def Let_def mask)
  moreover have "mset (concat rest) = mset (concat bss) - mset out"
    using facts(2) by (metis add_diff_cancel_left')
  ultimately show ?thesis
    using gathered_ring_rep [OF g r1 c facts(1)] ring_change_fields [OF c] by auto
qed


theorem reorder_release_first_empty_witness:
  "\<exists>s'. ol_rx_reorder_release (\<lambda>k b s. Some s) (0, 0) 2 0 rx_ex_ring = Some s' \<and>
     ring_rep s' (0, 0) [[], [10, 11], [], []] \<and> nb_freed s' = []"
proof -
  have "[[], [10, 11], [], [12 :: nat]] ! (unat (2 :: u32) mod length [[], [10, 11], [], [12 :: nat]]) = []"
    by code_simp
  from reorder_release_first_empty [OF rx_ex_ring_rep rx_ex_ring_range(2) this, of "\<lambda>k b s. Some s"]
  show ?thesis by (auto simp: rx_ex_ring_fields)
qed

text \<open>
  C16. A flush with the discard action frees exactly the frames of the slots of the range, in ring
  order and once each, wherever in the range the empty slots are; it empties the range and takes the
  TID off the list of TIDs waiting for fragments.
\<close>

theorem reorder_flush_discards:
  assumes "ring_rep s k bss" and "waitlist_rep s ks"
    and "ring_range bss idx_start (flush_end idx_start idx_end) = (out, rest)"
  shows "\<exists>s'. ol_rx_reorder_flush opt k idx_start idx_end htt_rx_flush_discard s = Some s' \<and>
    nb_freed s' = nb_freed s @ out \<and> ring_rep s' k rest \<and> waitlist_rep s' (remove1 k ks)"
  using flush_discard_rep [OF assms] by blast

lemma rx_quiet_waitlist: "waitlist s = waitlist rx_quiet \<Longrightarrow> waitlist_rep s []"
  by (simp add: waitlist_rep_def rx_quiet_def tailq_rep_def tq_end_def)

theorem reorder_flush_discards_witness:
  "\<exists>s'. ol_rx_reorder_flush (\<lambda>k b s. Some s) (0, 0) 2 0 htt_rx_flush_discard rx_ex_ring = Some s' \<and>
     nb_freed s' = [12] \<and> ring_rep s' (0, 0) [[], [10, 11], [], []]"
proof -
  have "waitlist_rep rx_ex_ring []" by (rule rx_quiet_waitlist) (rule rx_ex_ring_fields)
  moreover have "flush_end 2 0 = 0" by simp
  ultimately show ?thesis
    using reorder_flush_discards [OF rx_ex_ring_rep, of "[]" 2 0 "[12]" "[[], [10, 11], [], []]"]
      rx_ex_ring_range(2)
    by (simp only: rx_ex_ring_fields append_Nil) blast
qed

text \<open>
  A flush with the release action hands the frames of the range to the receive function as
  one null-terminated list in ring order, even when its first slots are empty; the value 0xffff as
  end of the range stands for the whole ring.
\<close>

lemma reorder_flush_delivers:
  assumes "ring_rep s k bss" and "waitlist_rep s ks"
    and "ring_range bss idx_start (flush_end idx_start idx_end) = (out, rest)" and "out \<noteq> []"
  shows "\<exists>s'. ol_rx_reorder_flush opt k idx_start idx_end htt_rx_flush_release s = opt k (hd out) s' \<and>
    lseg (nb_next s') (Some (hd out)) out None \<and> ring_rep s' k rest \<and> nb_freed s' = nb_freed s \<and>
    tids_last_seq s' k = d_seq_num (nb_desc s (hd out)) \<and> waitlist_rep s' (remove1 k ks)"
  using flush_rep [OF assms(1-3), of opt htt_rx_flush_release] assms(4) by auto

theorem reorder_flush_delivers_witness:
  "\<exists>s'. ol_rx_reorder_flush (\<lambda>k b s. Some s) (0, 0) 0 0xffff htt_rx_flush_release rx_ex_ring = Some s' \<and>
     lseg (nb_next s') (Some 10) [10, 11, 12] None \<and> nb_freed s' = []"
proof -
  have "waitlist_rep rx_ex_ring []" by (rule rx_quiet_waitlist) (rule rx_ex_ring_fields)
  moreover have "flush_end 0 0xffff = 0" by simp
  ultimately show ?thesis
    using reorder_flush_delivers [OF rx_ex_ring_rep, where ks = "[]" and idx_start = 0 and idx_end = "0xffff" and out = "[10, 11, 12]" and rest = "[[], [], [], []]" and opt = "\<lambda>k b s. Some s"] rx_ex_ring_range(3)
    by (simp only: rx_ex_ring_fields) auto
qed

text \<open>
  Storing an MPDU, a list of linked buffers, appends it to the frames of the slot its index
  selects and changes no other slot and no other TID's ring.
\<close>

theorem reorder_store_appends:
  assumes "ring_rep s k bss" and "lseg (nb_next s) (Some (hd bs)) bs q" and "bs \<noteq> []"
    and "distinct (concat bss @ bs)"
  shows "\<exists>s'. ol_rx_reorder_store k idx (Some (hd bs)) (Some (last bs)) s = Some s' \<and>
    ring_rep s' k (bss[unat idx mod length bss := bss ! (unat idx mod length bss) @ bs]) \<and>
    (\<forall>j cs. j \<noteq> k \<longrightarrow> ring_rep s j cs \<longrightarrow> set (concat cs) \<inter> set (concat bss) = {} \<longrightarrow> ring_rep s' j cs)"
  using store_rep [OF assms] ring_change_other by blast

theorem reorder_store_appends_witness:
  "\<exists>s'. ol_rx_reorder_store (0, 0) 7 (Some 20) (Some 20) rx_ex_ring = Some s' \<and>
     ring_rep s' (0, 0) [[], [10, 11], [], [12, 20]]"
proof -
  have "lseg (nb_next rx_ex_ring) (Some (hd [20])) [20] None" "[20 :: nat] \<noteq> []"
    "distinct (concat [[], [10, 11], [], [12]] @ [20 :: nat])"
    by (simp_all add: rx_ex_ring_def)
  from reorder_store_appends [OF rx_ex_ring_rep this, of 7] show ?thesis by auto
qed

section \<open>Block-ack agreements\<close>

text \<open>The rounding table holds the least power of two that covers the window.\<close>

lemma g_log2ceil_all:
  "list_all (\<lambda>w. \<exists>n\<in>{0..6}. unat (g_log2ceil ! w) = 2 ^ n \<and> w \<le> 2 ^ n \<and> (1 < w \<longrightarrow> 2 ^ n < 2 * w))
     [0..<65]"
  by code_simp

lemma g_log2ceil_pow2:
  assumes "w \<le> 64"
  shows "\<exists>n. unat (g_log2ceil ! w) = 2 ^ n \<and> n \<le> 6 \<and> w \<le> 2 ^ n \<and> (1 < w \<longrightarrow> 2 ^ n < 2 * w)"
proof -
  have "w \<in> set [0..<65]" using assms by simp
  with g_log2ceil_all show ?thesis unfolding list_all_iff by fastforce
qed

lemma g_log2ceil_length: "length g_log2ceil = 65"
  by (simp add: g_log2ceil_def)

lemma replicate_empty_rep: "list_all2 (slot_rep nx) (replicate n empty_elem) (replicate n [])"
  by (simp add: list_all2_conv_all_nth slot_rep_def)

lemma concat_replicate_Nil [simp]: "concat (replicate n []) = []"
  by (induction n) auto

text \<open>
  Starting a block-ack agreement of window \<open>w\<close> for a known peer gives the TID a ring of
  empty slots whose size is the least power of two not below \<open>w\<close>, with the mask of that size, the
  release index 0 and no valid last sequence number; for a window above 64 the handler reads
  outside its rounding table.
\<close>

theorem addba_sets_up_ring:
  assumes "tid < OL_TXRX_NUM_EXT_TIDS" and "ol_txrx_peer_find_by_id pid s = Some (Some p)"
  shows "if unat w \<le> 64 then
      \<exists>s' n. ol_rx_addba_handler True pid tid w False s = Some s' \<and>
        ring_rep s' (p, tid) (replicate (2 ^ n) []) \<and> unat w \<le> 2 ^ n \<and> (1 < unat w \<longrightarrow> 2 ^ n < 2 * unat w) \<and>
        win_sz (tids_rx_reorder s' (p, tid)) = w \<and> tids_next_rel_idx s' (p, tid) = 0 \<and>
        tids_last_seq s' (p, tid) = IEEE80211_SEQ_MAX \<and> nb_freed s' = nb_freed s
    else ol_rx_addba_handler True pid tid w False s = None"
proof (cases "unat w \<le> 64")
  case True
  obtain n where n: "unat (g_log2ceil ! unat w) = 2 ^ n" "unat w \<le> 2 ^ n" "1 < unat w \<longrightarrow> 2 ^ n < 2 * unat w"
    using g_log2ceil_pow2 [OF True] by blast
  let ?g = "g_log2ceil ! unat w"
  have "?g \<noteq> 0" using n(1) by (metis unat_0 power_not_zero zero_neq_numeral)
  then have mask: "unat (?g - 1) = 2 ^ n - Suc 0" by (simp add: unat_minus_one n(1))
  have "load_at g_log2ceil (unat w) = Some ?g" using True by (simp add: g_log2ceil_length)
  then have "\<exists>s'. ol_rx_addba_handler True pid tid w False s = Some s' \<and>
      ring_rep s' (p, tid) (replicate (2 ^ n) []) \<and> unat w \<le> 2 ^ n \<and> (1 < unat w \<longrightarrow> 2 ^ n < 2 * unat w) \<and>
      win_sz (tids_rx_reorder s' (p, tid)) = w \<and> tids_next_rel_idx s' (p, tid) = 0 \<and>
      tids_last_seq s' (p, tid) = IEEE80211_SEQ_MAX \<and> nb_freed s' = nb_freed s"
    using assms n mask replicate_empty_rep
    by (auto simp: ol_rx_addba_handler_def Let_def ring_rep_def slots_def upd_reorder_def intro!: exI [of _ n])
  with True show ?thesis by auto
next
  case False
  then show ?thesis
    using assms by (simp add: ol_rx_addba_handler_def Let_def load_at_def g_log2ceil_length)
qed

lemma rx_quiet_peer: "ol_txrx_peer_find_by_id 0 rx_quiet = Some (Some 0)"
  by (simp add: ol_txrx_peer_find_by_id_def rx_quiet_def load_at_def rx_peer0_def)

theorem addba_sets_up_ring_witness:
  "(\<exists>s' n. ol_rx_addba_handler True 0 5 48 False rx_quiet = Some s' \<and> ring_rep s' (0, 5) (replicate (2 ^ n) [])
      \<and> 48 \<le> (2::nat) ^ n) \<and> ol_rx_addba_handler True 0 5 65 False rx_quiet = None"
  using addba_sets_up_ring [OF _ rx_quiet_peer, of 5 48] addba_sets_up_ring [OF _ rx_quiet_peer, of 5 65]
  by (auto simp: OL_TXRX_NUM_EXT_TIDS_def)

text \<open>
  Ending a block-ack agreement puts the TID of a known peer back to a ring of one empty slot
  with an invalid release index, whatever the ring held: the frames in it are not freed.
\<close>

theorem delba_resets_ring:
  assumes "tid < OL_TXRX_NUM_EXT_TIDS" and "ol_txrx_peer_find_by_id pid s = Some (Some p)"
  shows "\<exists>s'. ol_rx_delba_handler pid tid s = Some s' \<and> ring_rep s' (p, tid) [[]] \<and>
    win_sz (tids_rx_reorder s' (p, tid)) = 1 \<and> tids_next_rel_idx s' (p, tid) = INVALID_REORDER_INDEX \<and>
    nb_freed s' = nb_freed s \<and> (\<forall>j bss. j \<noteq> (p, tid) \<longrightarrow> ring_rep s j bss \<longrightarrow> ring_rep s' j bss)"
proof -
  let ?r = "ol_rx_reorder_init tid (tids_rx_reorder s (p, tid))"
  let ?s = "reorder_init_at (p, tid)
    (s\<lparr>tids_next_rel_idx := (tids_next_rel_idx s)((p, tid) := INVALID_REORDER_INDEX)\<rparr>)"
  have run: "ol_rx_delba_handler pid tid s = Some ?s"
    using assms by (simp add: ol_rx_delba_handler_def)
  have eq: "tids_rx_reorder ?s = (tids_rx_reorder s)((p, tid) := ?r)" "nb_next ?s = nb_next s"
    by (simp_all add: reorder_init_at_def upd_reorder_def)
  have "\<exists>n. Suc 0 = 2 ^ n \<and> (2::nat) ^ n - Suc 0 = 0" by (rule exI [of _ 0]) simp
  then have "ring_rep ?s (p, tid) [[]]"
    by (simp add: ring_rep_def eq ol_rx_reorder_init_def slots_def slot_rep_def)
  moreover have "ring_rep ?s j bss" if "j \<noteq> (p, tid)" "ring_rep s j bss" for j bss
    by (rule ring_rep_cong [OF that(2)]) (use that(1) in \<open>simp_all add: eq\<close>)
  moreover have "win_sz (tids_rx_reorder ?s (p, tid)) = 1"
    "tids_next_rel_idx ?s (p, tid) = INVALID_REORDER_INDEX" "nb_freed ?s = nb_freed s"
    by (simp_all add: eq ol_rx_reorder_init_def, simp_all add: reorder_init_at_def upd_reorder_def)
  ultimately show ?thesis using run by blast
qed

theorem delba_resets_ring_witness:
  "\<exists>s'. ol_rx_delba_handler 0 5 rx_quiet = Some s' \<and> ring_rep s' (0, 5) [[]]"
  using delba_resets_ring [OF _ rx_quiet_peer, of 5] by (auto simp: OL_TXRX_NUM_EXT_TIDS_def)

text \<open>
  Ending a block-ack agreement clears the links of the TID's waitlist element without unlinking
  it: when the TID waits for fragments, a walk of the waitlist afterwards ends at that TID, so the
  TIDs queued behind it are never timed out by it, and a removal of the TID leaves it in the list.
\<close>

lemma delba_truncates_waitlist:
  assumes "tid < OL_TXRX_NUM_EXT_TIDS" and "ol_txrx_peer_find_by_id pid s = Some (Some p)"
    and wl: "waitlist_rep s (us @ (p, tid) # vs)"
  shows "\<exists>s'. ol_rx_delba_handler pid tid s = Some s' \<and>
    lseg (tqe_next (waitlist s')) (tqh_first (waitlist s') ()) (us @ [(p, tid)]) None \<and>
    ol_rx_defrag_waitlist_remove (p, tid) s' = Some s'"
proof -
  let ?s = "reorder_init_at (p, tid)
    (s\<lparr>tids_next_rel_idx := (tids_next_rel_idx s)((p, tid) := INVALID_REORDER_INDEX)\<rparr>)"
  have rep: "tailq_rep () (waitlist s) (us @ (p, tid) # vs)" using wl by (simp add: waitlist_rep_def)
  then obtain q where "lseg (tqe_next (waitlist s)) (tqh_first (waitlist s) ()) (us @ [(p, tid)]) q"
    by (auto simp: tailq_rep_def lseg_append)
  moreover have "distinct (us @ [(p, tid)])" using tailq_rep_distinct [OF rep] by auto
  ultimately have "lseg ((tqe_next (waitlist s))((p, tid) := None)) (tqh_first (waitlist s) ())
      (us @ [(p, tid)]) None"
    by (rule lseg_relink)
  moreover have w: "waitlist ?s = tq_clear (p, tid) (waitlist s)" by (simp add: reorder_init_at_def)
  ultimately have "lseg (tqe_next (waitlist ?s)) (tqh_first (waitlist ?s) ()) (us @ [(p, tid)]) None"
    by (simp add: tq_clear_def)
  moreover have "ol_rx_defrag_waitlist_remove (p, tid) ?s = Some ?s"
    unfolding ol_rx_defrag_waitlist_remove_def w by (simp add: tq_clear_def)
  moreover have "ol_rx_delba_handler pid tid s = Some ?s"
    using assms by (simp add: ol_rx_delba_handler_def)
  ultimately show ?thesis by blast
qed

theorem delba_truncates_waitlist_witness:
  "\<exists>s s'. ol_rx_delba_handler 0 5 s = Some s' \<and> waitlist_rep s [(0, 5), (0, 6)] \<and>
     lseg (tqe_next (waitlist s')) (tqh_first (waitlist s') ()) [(0, 5)] None"
proof -
  let ?s = "ol_rx_defrag_waitlist_add (0, 6) (ol_rx_defrag_waitlist_add (0, 5) rx_quiet)"
  have "waitlist_rep (ol_rx_defrag_waitlist_add (0, 5) rx_quiet) ([] @ [(0, 5)])"
    by (rule waitlist_add) (simp_all add: rx_quiet_waitlist)
  from waitlist_add [OF this, of "(0, 6)"] have wl: "waitlist_rep ?s ([] @ (0, 5) # [(0, 6)])" by simp
  have "ol_txrx_peer_find_by_id 0 ?s = Some (Some 0)"
    by (simp add: ol_txrx_peer_find_by_id_def ol_rx_defrag_waitlist_add_def rx_quiet_def load_at_def
        rx_peer0_def)
  from delba_truncates_waitlist [OF _ this wl] wl show ?thesis
    by (auto simp: OL_TXRX_NUM_EXT_TIDS_def)
qed

section \<open>Duplicate detection\<close>

lemma seq_max_words:
  "ucast IEEE80211_SEQ_MAX - 1 = (4095 :: u32)" "ucast IEEE80211_SEQ_MAX div 2 = (2048 :: u32)"
  by (simp_all add: IEEE80211_SEQ_MAX_def)

lemma seq_delta_mod:
  "unat ((q - 1 - l) AND (4095 :: u32)) = nat ((uint q - 1 - uint l) mod 4096)"
proof -
  have "uint ((q - 1 - l) AND 4095) = uint (q - 1 - l) mod 4096"
  proof -
    have "a AND 4095 = a mod 4096" for a :: int
      using take_bit_eq_mask [of 12 a] by (simp add: take_bit_eq_mod mask_eq_exp_minus_1)
    then show ?thesis by (simp add: unsigned_and_eq)
  qed
  also have "\<dots> = (uint q - 1 - uint l) mod 4096"
    by (simp add: uint_word_ariths mod_mod_cancel mod_diff_left_eq)
  finally show ?thesis by (simp add: unat_eq_nat_uint)
qed

lemma seq_window_arith:
  fixes q l :: nat
  assumes "q < 4096" and "l < 4096"
  shows "(int q - 1 - int l) mod 4096 \<le> 2048 \<longleftrightarrow> (\<exists>d\<in>{1..2049}. q = (l + d) mod 4096)"
proof -
  define D where "D = (if l < q then q - l else q + 4096 - l)"
  have D: "1 \<le> D" "D \<le> 4096" "l + D = (if l < q then q else q + 4096)"
    using assms by (auto simp: D_def)
  have delta: "(int q - 1 - int l) mod 4096 = int D - 1"
  proof (cases "l < q")
    case True
    then show ?thesis using assms by (simp add: D_def)
  next
    case False
    have "(int q - 1 - int l) mod 4096 = (int q - 1 - int l + 4096) mod 4096"
      by (rule mod_add_self2 [symmetric])
    also have "\<dots> = int q - 1 - int l + 4096" using False assms by (intro mod_pos_pos_trivial) auto
    finally show ?thesis using False assms by (simp add: D_def)
  qed
  have fwd: "q = (l + D) mod 4096" using D(3) assms(1) by simp
  have uniq: "d = D" if "1 \<le> d" "d \<le> 2049" "q = (l + d) mod 4096" for d
  proof (cases "l + d < 4096")
    case True
    then show ?thesis using that by (simp add: D_def)
  next
    case False
    then have "(l + d) mod 4096 = l + d - 4096" using that(2) assms(2) by (simp add: mod_if)
    then show ?thesis using that False assms by (simp add: D_def)
  qed
  show ?thesis
  proof
    assume "(int q - 1 - int l) mod 4096 \<le> 2048"
    then have "D \<in> {1..2049}" using delta D(1) by simp
    with fwd show "\<exists>d\<in>{1..2049}. q = (l + d) mod 4096" by blast
  next
    assume "\<exists>d\<in>{1..2049}. q = (l + d) mod 4096"
    then obtain d where "1 \<le> d" "d \<le> 2049" "q = (l + d) mod 4096" by auto
    then show "(int q - 1 - int l) mod 4096 \<le> 2048" using uniq delta by auto
  qed
qed
text \<open>
  The duplicate check of a TID without aggregation accepts a sequence number exactly when no
  last number is valid or the number lies 1 to 2049 ahead of the last one, modulo 4096: a repetition
  and anything in the other half of the sequence space is a replay.
\<close>

theorem seq_num_window:
  assumes "seq < (4096 :: u16)" and "lst \<le> IEEE80211_SEQ_MAX"
  shows "ol_rx_reorder_seq_num_check (ucast seq) lst = htt_rx_status_ok \<longleftrightarrow>
    lst = IEEE80211_SEQ_MAX \<or> (\<exists>d\<in>{1..2049}. unat seq = (unat lst + d) mod 4096)"
proof (cases "lst = IEEE80211_SEQ_MAX")
  case True
  then show ?thesis by (simp only: ol_rx_reorder_seq_num_check_def if_True simp_thms)
next
  case False
  then have "lst < IEEE80211_SEQ_MAX" using assms(2) by (rule order.not_eq_order_implies_strict)
  then have l: "unat lst < 4096" by (simp add: IEEE80211_SEQ_MAX_def word_less_nat_alt)
  have q: "unat seq < 4096" using assms(1) by (simp add: word_less_nat_alt)
  have uint: "uint (ucast x :: u32) = int (unat x)" for x :: u16
    by (simp only: uint_nat unat_ucast_up)
  have "(ucast seq - 1 - ucast lst) AND (4095 :: u32) > 2048 \<longleftrightarrow>
      nat ((int (unat seq) - 1 - int (unat lst)) mod 4096) > 2048"
    unfolding word_less_nat_alt seq_delta_mod uint by simp
  moreover have "ol_rx_reorder_seq_num_check (ucast seq) lst = htt_rx_status_ok \<longleftrightarrow>
      \<not> (ucast seq - 1 - ucast lst) AND (4095 :: u32) > 2048"
    using False unfolding ol_rx_reorder_seq_num_check_def seq_max_words
    by (simp only: if_False htt_rx_status.distinct split: if_split) blast
  ultimately have "ol_rx_reorder_seq_num_check (ucast seq) lst = htt_rx_status_ok \<longleftrightarrow>
      (int (unat seq) - 1 - int (unat lst)) mod 4096 \<le> 2048"
    by linarith
  also have "\<dots> \<longleftrightarrow> (\<exists>d\<in>{1..2049}. unat seq = (unat lst + d) mod 4096)"
    by (rule seq_window_arith [OF q l])
  finally show ?thesis using False by simp
qed

theorem seq_num_window_witness:
  "ol_rx_reorder_seq_num_check (ucast (3 :: u16)) 4094 = htt_rx_status_ok
   \<and> ol_rx_reorder_seq_num_check (ucast (4094 :: u16)) 4094 \<noteq> htt_rx_status_ok"
proof -
  have "\<not> (\<exists>d\<in>{1..2049}. (4094 :: nat) = (4094 + d) mod 4096)"
    by (subst seq_window_arith [symmetric]) simp_all
  moreover have "\<exists>d\<in>{1..2049}. (3 :: nat) = (4094 + d) mod 4096" by (rule bexI [of _ 5]) simp_all
  ultimately show ?thesis
    using seq_num_window [of 3 4094] seq_num_window [of 4094 4094] by (simp add: IEEE80211_SEQ_MAX_def)
qed

text \<open>
  A multicast frame whose TID is valid, received right after an accepted frame of the same TID
  with the same sequence number and the retry bit set, is dropped as a duplicate.
\<close>

theorem mcast_retransmission_dropped:
  assumes "ol_rx_seq_num_check (p, OL_RX_MCAST_TID) d s = (htt_rx_status_ok, s')"
    and "d_tid d < OL_TXRX_NUM_EXT_TIDS" and "d_tid d' = d_tid d" and "d_seq_num d' = d_seq_num d"
    and "d_retry d'"
  shows "fst (ol_rx_seq_num_check (p, OL_RX_MCAST_TID) d' s') = htt_rx_status_err_replay \<and>
    tids_last_seq s' = tids_last_seq s"
  using assms by (auto simp: ol_rx_seq_num_check_def Let_def split: if_splits)

theorem mcast_retransmission_dropped_witness:
  "\<exists>s'. ol_rx_seq_num_check (0, OL_RX_MCAST_TID) (rx_desc0\<lparr>d_seq_num := 77\<rparr>) rx_quiet
        = (htt_rx_status_ok, s') \<and>
     fst (ol_rx_seq_num_check (0, OL_RX_MCAST_TID) (rx_desc0\<lparr>d_seq_num := 77, d_retry := True\<rparr>) s')
        = htt_rx_status_err_replay"
proof -
  let ?r = "ol_rx_seq_num_check (0, OL_RX_MCAST_TID) (rx_desc0\<lparr>d_seq_num := 77\<rparr>) rx_quiet"
  have "fst ?r = htt_rx_status_ok"
    by (simp add: ol_rx_seq_num_check_def rx_quiet_defs OL_TXRX_NUM_EXT_TIDS_def Let_def IEEE80211_SEQ_MAX_def)
  then have r: "?r = (htt_rx_status_ok, snd ?r)" by (simp add: prod_eq_iff)
  with mcast_retransmission_dropped [OF r, of "rx_desc0\<lparr>d_seq_num := 77, d_retry := True\<rparr>"]
  show ?thesis by (auto simp: rx_desc0_def OL_TXRX_NUM_EXT_TIDS_def)
qed

section \<open>Peer clean-up\<close>

lemma flush_tids_rep:
  assumes "\<And>t. t \<in> set ts \<Longrightarrow> ring_rep s (p, t) (B t)" and "waitlist_rep s ks"
    and "distinct ts" and "\<And>t u. t \<in> set ts \<Longrightarrow> u \<in> set ts \<Longrightarrow> t \<noteq> u \<Longrightarrow>
      set (concat (B t)) \<inter> set (concat (B u)) = {}"
  shows "\<exists>s'. flush_tids opt p ts s = Some s' \<and>
    nb_freed s' = nb_freed s @ concat (map (\<lambda>t. concat (B t)) ts) \<and>
    (\<forall>t\<in>set ts. ring_rep s' (p, t) (replicate (length (B t)) [])) \<and>
    waitlist_rep s' (foldl (\<lambda>ks t. remove1 (p, t) ks) ks ts) \<and>
    (\<forall>j cs. j \<notin> Pair p ` set ts \<longrightarrow> ring_rep s j cs \<longrightarrow>
       (\<forall>t\<in>set ts. set (concat cs) \<inter> set (concat (B t)) = {}) \<longrightarrow> ring_rep s' j cs)"
  using assms
proof (induction ts arbitrary: s ks)
  case Nil
  then show ?case by auto
next
  case (Cons t ts)
  have rt: "ring_rep s (p, t) (B t)" using Cons.prems(1) by simp
  have "B t \<noteq> []" using ring_index(2) [OF rt] by auto
  then have take: "ring_range (B t) 0 (flush_end 0 0) = (concat (B t), replicate (length (B t)) [])"
    using ring_range_all by simp
  obtain s1 where s1: "ol_rx_reorder_flush opt (p, t) 0 0 htt_rx_flush_discard s = Some s1"
    "nb_freed s1 = nb_freed s @ concat (B t)" "ring_rep s1 (p, t) (replicate (length (B t)) [])"
    "waitlist_rep s1 (remove1 (p, t) ks)"
    "\<And>j cs. j \<noteq> (p, t) \<Longrightarrow> ring_rep s j cs \<Longrightarrow> set (concat cs) \<inter> set (concat (B t)) = {} \<Longrightarrow> ring_rep s1 j cs"
    using flush_discard_rep [OF rt Cons.prems(2) take, of opt] by blast
  have "ring_rep s1 (p, u) (B u)" if "u \<in> set ts" for u
    using that Cons.prems(1,3) Cons.prems(4) [of u t] by (intro s1(5)) auto
  then obtain s2 where s2: "flush_tids opt p ts s1 = Some s2"
    "nb_freed s2 = nb_freed s1 @ concat (map (\<lambda>t. concat (B t)) ts)"
    "\<forall>t\<in>set ts. ring_rep s2 (p, t) (replicate (length (B t)) [])"
    "waitlist_rep s2 (foldl (\<lambda>ks t. remove1 (p, t) ks) (remove1 (p, t) ks) ts)"
    "\<And>j cs. j \<notin> Pair p ` set ts \<Longrightarrow> ring_rep s1 j cs \<Longrightarrow>
       (\<forall>t\<in>set ts. set (concat cs) \<inter> set (concat (B t)) = {}) \<Longrightarrow> ring_rep s2 j cs"
    using Cons.IH [OF _ s1(4)] Cons.prems(3,4) by force
  have "ring_rep s2 (p, t) (replicate (length (B t)) [])"
    using s1(3) Cons.prems(3) by (intro s2(5)) auto
  then show ?case
    using s1 s2 by (intro exI [of _ s2]) auto
qed

text \<open>
  C23. Removing a peer empties the rings of all its TIDs and frees every frame they hold exactly
  once, TID by TID and in ring order; other peers' rings keep their frames.
\<close>

theorem peer_cleanup_frees_all:
  assumes "\<And>t. t < OL_TXRX_NUM_EXT_TIDS \<Longrightarrow> ring_rep s (p, t) (B t)" and "waitlist_rep s ks"
    and "\<And>t u. t < OL_TXRX_NUM_EXT_TIDS \<Longrightarrow> u < OL_TXRX_NUM_EXT_TIDS \<Longrightarrow> t \<noteq> u \<Longrightarrow>
      set (concat (B t)) \<inter> set (concat (B u)) = {}"
  shows "\<exists>s'. ol_rx_reorder_peer_cleanup opt p s = Some s' \<and>
    nb_freed s' = nb_freed s @ concat (map (\<lambda>t. concat (B (of_nat t))) [0..<20]) \<and>
    (\<forall>t<OL_TXRX_NUM_EXT_TIDS. ring_rep s' (p, t) (replicate (length (B t)) [])) \<and>
    (\<forall>j cs. fst j \<noteq> p \<longrightarrow> ring_rep s j cs \<longrightarrow>
       (\<forall>t<OL_TXRX_NUM_EXT_TIDS. set (concat cs) \<inter> set (concat (B t)) = {}) \<longrightarrow> ring_rep s' j cs)"
proof -
  let ?ts = "map of_nat [0..<unat OL_TXRX_NUM_EXT_TIDS] :: u8 list"
  have n: "unat OL_TXRX_NUM_EXT_TIDS = 20" by (simp add: OL_TXRX_NUM_EXT_TIDS_def)
  have ts: "set ?ts = {t. t < OL_TXRX_NUM_EXT_TIDS}"
  proof (intro set_eqI iffI)
    fix t assume "t \<in> set ?ts"
    then obtain i where "t = of_nat i" "i < 20" by (auto simp: n)
    then show "t \<in> {t. t < OL_TXRX_NUM_EXT_TIDS}" by (simp add: word_less_nat_alt n unat_of_nat)
  next
    fix t assume "t \<in> {t. t < OL_TXRX_NUM_EXT_TIDS}"
    then have "unat t < 20" by (simp add: word_less_nat_alt n)
    then show "t \<in> set ?ts" by (auto simp: n intro!: image_eqI [of _ _ "unat t"])
  qed
  have "inj_on (of_nat :: nat \<Rightarrow> u8) {0..<20}"
  proof (rule inj_onI)
    fix i j assume ij: "i \<in> {0..<20}" "j \<in> {0..<20}" and "of_nat i = (of_nat j :: u8)"
    then have "unat (of_nat i :: u8) = unat (of_nat j :: u8)" by (simp only:)
    with ij show "i = j" unfolding unat_of_nat by simp
  qed
  then have dist: "distinct ?ts" by (simp add: n distinct_map)
  have "\<exists>s'. flush_tids opt p ?ts s = Some s' \<and>
    nb_freed s' = nb_freed s @ concat (map (\<lambda>t. concat (B t)) ?ts) \<and>
    (\<forall>t\<in>set ?ts. ring_rep s' (p, t) (replicate (length (B t)) [])) \<and>
    waitlist_rep s' (foldl (\<lambda>ks t. remove1 (p, t) ks) ks ?ts) \<and>
    (\<forall>j cs. j \<notin> Pair p ` set ?ts \<longrightarrow> ring_rep s j cs \<longrightarrow>
       (\<forall>t\<in>set ?ts. set (concat cs) \<inter> set (concat (B t)) = {}) \<longrightarrow> ring_rep s' j cs)"
    using assms by (intro flush_tids_rep [OF _ _ dist]) (simp_all only: ts mem_Collect_eq)
  then obtain s' where s': "flush_tids opt p ?ts s = Some s'"
    "nb_freed s' = nb_freed s @ concat (map (\<lambda>t. concat (B t)) ?ts)"
    "\<forall>t\<in>set ?ts. ring_rep s' (p, t) (replicate (length (B t)) [])"
    "\<forall>j cs. j \<notin> Pair p ` set ?ts \<longrightarrow> ring_rep s j cs \<longrightarrow>
       (\<forall>t\<in>set ?ts. set (concat cs) \<inter> set (concat (B t)) = {}) \<longrightarrow> ring_rep s' j cs"
    by blast
  have "ring_rep s' j cs" if "fst j \<noteq> p" "ring_rep s j cs"
      "\<forall>t<OL_TXRX_NUM_EXT_TIDS. set (concat cs) \<inter> set (concat (B t)) = {}" for j cs
    using s'(4) that unfolding ts by (cases j) auto
  moreover have "nb_freed s' = nb_freed s @ concat (map (\<lambda>t. concat (B (of_nat t))) [0..<20])"
    using s'(2) by (simp only: n map_map comp_def)
  moreover have "\<forall>t<OL_TXRX_NUM_EXT_TIDS. ring_rep s' (p, t) (replicate (length (B t)) [])"
    using s'(3) unfolding ts by blast
  moreover have "ol_rx_reorder_peer_cleanup opt p s = Some s'"
    using s'(1) by (simp only: ol_rx_reorder_peer_cleanup_def)
  ultimately show ?thesis by blast
qed

theorem peer_cleanup_frees_all_witness:
  "\<exists>s'. ol_rx_reorder_peer_cleanup (\<lambda>k b s. Some s) 0
        (rx_ex_ring\<lparr>tids_rx_reorder := (tids_rx_reorder rx_quiet)((0, 0) := tids_rx_reorder rx_ex_ring (0, 0))\<rparr>)
      = Some s' \<and> nb_freed s' = [10, 11, 12]"
proof -
  let ?s = "rx_ex_ring\<lparr>tids_rx_reorder := (tids_rx_reorder rx_quiet)((0, 0) := tids_rx_reorder rx_ex_ring (0, 0))\<rparr>"
  let ?B = "\<lambda>t :: u8. if t = 0 then [[], [10, 11], [], [12 :: nat]] else [[]]"
  have zero: "ring_rep ?s (0, 0) [[], [10, 11], [], [12]]"
    by (rule ring_rep_cong [OF rx_ex_ring_rep]) simp_all
  have one: "ring_rep ?s (0, t) [[]]" if "t \<noteq> 0" for t
    using that by (simp add: ring_rep_def rx_quiet_def rx_reorder0_def slots_def slot_rep_def)
      (rule exI [of _ 0], simp)
  have wl: "waitlist_rep ?s []" by (rule rx_quiet_waitlist) (simp add: rx_ex_ring_fields)
  have B: "ring_rep ?s (0, t) (?B t)" for t using zero one by simp
  have D: "set (concat (?B t)) \<inter> set (concat (?B u)) = {}" if "t \<noteq> u" for t u
    using that by auto
  have F: "concat (map (\<lambda>t. concat (?B (of_nat t))) [0..<20]) = [10, 11, 12]" by code_simp
  show ?thesis
    using peer_cleanup_frees_all [of ?s 0 ?B "[]" "\<lambda>k b s. Some s", OF B wl D] F
    by (simp add: rx_ex_ring_fields) blast
qed

section \<open>The history ring\<close>

primrec history_adds :: "reorder_record list \<Rightarrow> reorder_history \<Rightarrow> reorder_history option" where
  "history_adds [] h = Some h"
| "history_adds (r # rs) h = Option.bind (history_add r h) (history_adds rs)"

lemma history_adds_snoc:
  "history_adds (rs @ [r]) h = Option.bind (history_adds rs h) (history_add r)"
  by (induction rs arbitrary: h) (auto split: Option.bind_split)

lemma history_add_step:
  assumes "length (rh_record h) = 50" and "unat (rh_curr_index h) = m mod 50"
  shows "\<exists>h'. history_add r h = Some h' \<and> rh_record h' = (rh_record h)[m mod 50 := r] \<and>
    unat (rh_curr_index h') = Suc m mod 50 \<and>
    (rh_wrap_around h' \<longleftrightarrow> rh_wrap_around h \<or> Suc m mod 50 = 0)"
proof -
  have lt: "m mod 50 < 50" by simp
  have "unat (rh_curr_index h + 1) = Suc (m mod 50)"
    using assms(2) lt by (simp add: unat_word_ariths)
  moreover have "OL_MAX_RX_REORDER_HISTORY \<le> rh_curr_index h + 1 \<longleftrightarrow> 50 \<le> unat (rh_curr_index h + 1)"
    by (simp add: OL_MAX_RX_REORDER_HISTORY_def word_le_nat_alt)
  moreover have "Suc m mod 50 = (if m mod 50 = 49 then 0 else Suc (m mod 50))" by (simp add: mod_Suc)
  ultimately show ?thesis
    using assms lt by (cases "m mod 50 = 49") (simp_all add: history_add_def Let_def)
qed

text \<open>
  Logging any number of records into an empty history never writes outside its 50 entries and
  keeps the latest 50: record \<open>j\<close> of the run is found at index \<open>j mod 50\<close> unless 50 newer ones
  followed, the write index is the number of records modulo 50, and the wrap flag says whether 50 or
  more records were logged.
\<close>

theorem history_keeps_latest:
  assumes "length (rh_record h) = 50" and "rh_curr_index h = 0" and "\<not> rh_wrap_around h"
  shows "\<exists>h'. history_adds rs h = Some h' \<and> unat (rh_curr_index h') = length rs mod 50 \<and>
    (rh_wrap_around h' \<longleftrightarrow> 50 \<le> length rs) \<and> length (rh_record h') = 50 \<and>
    (\<forall>j<length rs. length rs \<le> j + 50 \<longrightarrow> rh_record h' ! (j mod 50) = rs ! j)"
proof (induction rs rule: rev_induct)
  case Nil
  then show ?case using assms by simp
next
  case (snoc r rs)
  from snoc obtain h1 where h1: "history_adds rs h = Some h1" "unat (rh_curr_index h1) = length rs mod 50"
    "rh_wrap_around h1 \<longleftrightarrow> 50 \<le> length rs" "length (rh_record h1) = 50"
    "\<forall>j<length rs. length rs \<le> j + 50 \<longrightarrow> rh_record h1 ! (j mod 50) = rs ! j"
    by (elim exE conjE)
  obtain h2 where h2: "history_add r h1 = Some h2" "rh_record h2 = (rh_record h1)[length rs mod 50 := r]"
    "unat (rh_curr_index h2) = Suc (length rs) mod 50"
    "rh_wrap_around h2 \<longleftrightarrow> rh_wrap_around h1 \<or> Suc (length rs) mod 50 = 0"
    using history_add_step [OF h1(4,2), of r] by (elim exE conjE)
  have rec: "rh_record h2 ! (j mod 50) = (rs @ [r]) ! j"
    if j: "j < Suc (length rs)" "Suc (length rs) \<le> j + 50" for j
  proof (cases "j = length rs")
    case True
    have "length rs mod 50 < length (rh_record h1)" unfolding h1(4) by simp
    then show ?thesis unfolding True h2(2) by simp
  next
    case False
    then have d: "j < length rs" "length rs - j < 50" using j by auto
    then have "j + (length rs - j) = length rs" "0 < length rs - j" by linarith+
    then have "j mod 50 \<noteq> length rs mod 50" using mod_step_ne [of "length rs - j" 50 j] d(2) by metis
    then have "rh_record h2 ! (j mod 50) = rh_record h1 ! (j mod 50)" by (simp only: h2(2) nth_list_update_neq)
    also have "\<dots> = rs ! j"
    proof -
      have "length rs \<le> j + 50" using d by linarith
      then show ?thesis using h1(5) d(1) by blast
    qed
    finally show ?thesis using d(1) by (simp only: nth_append if_True)
  qed
  moreover have "(50 \<le> n \<or> Suc n mod 50 = 0) \<longleftrightarrow> 50 \<le> Suc n" for n :: nat
  proof (cases "Suc n < 50")
    case True
    then have "Suc n mod 50 = Suc n" by (rule mod_less)
    with True show ?thesis by simp
  next
    case False
    then have "n = 49 \<or> 50 \<le> n" by linarith
    with False show ?thesis by auto
  qed
  then have "rh_wrap_around h2 \<longleftrightarrow> 50 \<le> Suc (length rs)" unfolding h2(4) h1(3) .
  moreover have "history_adds (rs @ [r]) h = Some h2" by (simp add: history_adds_snoc h1(1) h2(1))
  moreover have "length (rh_record h2) = 50" using h1(4) h2(2) by simp
  moreover have "length (rs @ [r]) = Suc (length rs)" by simp
  ultimately show ?case using h2(3) by (intro exI [of _ h2] conjI) (simp_all only: simp_thms, blast)
qed

definition history_ex_record :: "nat \<Rightarrow> reorder_record" where
  "history_ex_record n = \<lparr>rr_msg_type = 0, rr_tid = 0, rr_peer_id = of_nat n, rr_start_seq = 0, rr_end_seq = 0,
     rr_reorder_idx = 0\<rparr>"

theorem history_keeps_latest_witness:
  "\<exists>h'. history_adds (map history_ex_record [0..<52])
        \<lparr>rh_curr_index = 0, rh_wrap_around = False, rh_record = replicate 50 (history_ex_record 99)\<rparr> = Some h' \<and>
     unat (rh_curr_index h') = 2 \<and> rh_wrap_around h' \<and> rh_record h' ! 1 = history_ex_record 51"
proof -
  let ?h = "\<lparr>rh_curr_index = 0, rh_wrap_around = False, rh_record = replicate 50 (history_ex_record 99)\<rparr>"
  have "length (rh_record ?h) = 50" "rh_curr_index ?h = 0" "\<not> rh_wrap_around ?h" by simp_all
  from history_keeps_latest [OF this, of "map history_ex_record [0..<52]"]
  obtain h' where h': "history_adds (map history_ex_record [0..<52]) ?h = Some h'"
    "unat (rh_curr_index h') = 52 mod 50" "rh_wrap_around h' \<longleftrightarrow> 50 \<le> (52 :: nat)"
    "\<forall>j<52. 52 \<le> j + 50 \<longrightarrow> rh_record h' ! (j mod 50) = map history_ex_record [0..<52] ! j"
    by auto
  have "rh_record h' ! (51 mod 50) = map history_ex_record [0..<52] ! 51"
    using spec [OF h'(4), of 51] by simp
  with h' show ?thesis by auto
qed

end
