(* ===== verification/Rx_Pn_Ind.thy ===== *)
theory Rx_Pn_Ind
  imports Rx_Reorder_Props
begin

text \<open>
  The handler of the target's packet-number indication (\<open>ol_rx_pn_ind_handler\<close> in
  \<open>ol_rx_reorder.c\<close>): a range of reorder slots is released, except for the MPDUs the target
  lists as replays, which are freed.
\<close>

section \<open>Operations\<close>

text \<open>
  One slot.  The list of failed slots is read in order; its entries are bytes compared with the slot
  number.  A read past the list is \<open>None\<close>.
\<close>

definition pn_ind_failed :: "u16 \<Rightarrow> u8 list \<Rightarrow> nat \<Rightarrow> u8 \<Rightarrow> bool option" where
  "pn_ind_failed seq_num pn_ie i cnt =
     (if cnt = 0 then Some False
      else map_option (\<lambda>v. seq_num = ucast v) (load_at pn_ie i))"

definition pn_ind_slot ::
  "tidk \<Rightarrow> u16 \<Rightarrow> u8 list \<Rightarrow> nat \<Rightarrow> u8 \<Rightarrow> nbuf option \<Rightarrow> nbuf option \<Rightarrow> rx_state
    \<Rightarrow> (nat \<times> u8 \<times> nbuf option \<times> nbuf option \<times> rx_state) option" where
  "pn_ind_slot k seq_num pn_ie i cnt head_msdu tail_msdu s =
     (case ro_get (tids_rx_reorder s k) (unat seq_num) of
        None \<Rightarrow> None
      | Some e \<Rightarrow>
          (case el_head e of
             None \<Rightarrow> Some (i, cnt, head_msdu, tail_msdu, s)
           | Some msdu \<Rightarrow>
               (case (case pn_ind_failed seq_num pn_ie i cnt of
                        None \<Rightarrow> None
                      | Some True \<Rightarrow>
                          map_option (\<lambda>s'. (i + 1, cnt - 1, head_msdu, tail_msdu, s'))
                            (free_mpdu msdu (el_tail e) s)
                      | Some False \<Rightarrow>
                          (case (head_msdu, tail_msdu) of
                             (None, _) \<Rightarrow> Some (i, cnt, Some msdu, el_tail e, s)
                           | (Some _, None) \<Rightarrow> None
                           | (Some _, Some t) \<Rightarrow>
                               Some (i, cnt, head_msdu, el_tail e, adf_nbuf_set_next t (Some msdu) s))) of
                  None \<Rightarrow> None
                | Some (i', cnt', hd', tl', s') \<Rightarrow>
                    map_option (\<lambda>r. (i', cnt', hd', tl', upd_reorder k r s'))
                      (ro_put (tids_rx_reorder s' k) (unat seq_num) empty_elem))))"

partial_function (option) pn_ind_loop ::
  "tidk \<Rightarrow> u16 \<Rightarrow> u16 \<Rightarrow> u8 list \<Rightarrow> u16 \<Rightarrow> nat \<Rightarrow> u8 \<Rightarrow> nbuf option \<Rightarrow> nbuf option \<Rightarrow> rx_state
    \<Rightarrow> (nbuf option \<times> nbuf option \<times> rx_state) option" where
  "pn_ind_loop k win_mask seq_num_end pn_ie seq_num i cnt head_msdu tail_msdu s =
     (case pn_ind_slot k seq_num pn_ie i cnt head_msdu tail_msdu s of
        None \<Rightarrow> None
      | Some (i', cnt', hd', tl', s') \<Rightarrow>
          (if (seq_num + 1) AND win_mask \<noteq> seq_num_end
           then pn_ind_loop k win_mask seq_num_end pn_ie ((seq_num + 1) AND win_mask) i' cnt' hd' tl' s'
           else Some (hd', tl', s')))"

definition ol_rx_pn_ind_handler ::
  "(peer \<Rightarrow> rx_proc) \<Rightarrow> u16 \<Rightarrow> u8 \<Rightarrow> u16 \<Rightarrow> u16 \<Rightarrow> u8 \<Rightarrow> u8 list \<Rightarrow> rx_state \<Rightarrow> rx_state option" where
  "ol_rx_pn_ind_handler opt peer_id tid seq_num_start seq_num_end pn_ie_cnt pn_ie s =
     (if OL_TXRX_NUM_EXT_TIDS \<le> tid then Some s
      else (case ol_txrx_peer_find_by_id peer_id s of
              None \<Rightarrow> None
            | Some found \<Rightarrow>
                (case (if found = None then ocb_peer s else found) of
                   None \<Rightarrow> Some s
                 | Some p \<Rightarrow>
                     (let s1 = s\<lparr>peers := (peers s)(p := (peers s p)\<lparr>fw_pn_check := True\<rparr>)\<rparr>;
                          win_mask = ucast (win_sz_mask (tids_rx_reorder s1 (p, tid)))
                      in case pn_ind_loop (p, tid) win_mask (seq_num_end AND win_mask) pn_ie
                              (seq_num_start AND win_mask) 0 pn_ie_cnt None None s1 of
                           None \<Rightarrow> None
                         | Some (None, _, s2) \<Rightarrow> Some s2
                         | Some (Some h, None, s2) \<Rightarrow> None
                         | Some (Some h, Some t, s2) \<Rightarrow> opt p (p, tid) h (adf_nbuf_set_next t None s2)))))"

section \<open>Specification\<close>

text \<open>
  From \<open>d\<close> slots on, starting at slot \<open>j\<close>, with the remaining failed slot numbers: the
  buffers delivered and the buffers freed.
\<close>

primrec pn_take :: "nat \<Rightarrow> nat \<Rightarrow> nbuf list list \<Rightarrow> u8 list \<Rightarrow> nbuf list \<times> nbuf list" where
  "pn_take 0 j bss ies = ([], [])"
| "pn_take (Suc d) j bss ies =
     (if bss ! j \<noteq> [] \<and> ies \<noteq> [] \<and> unat (hd ies) = j
      then (let (out, fr) = pn_take d (Suc j mod length bss) (bss[j := []]) (tl ies)
            in (out, bss ! j @ fr))
      else (let (out, fr) = pn_take d (Suc j mod length bss) (bss[j := []]) ies
            in (bss ! j @ out, fr)))"

primrec clear_slots :: "nat \<Rightarrow> nat \<Rightarrow> nbuf list list \<Rightarrow> nbuf list list" where
  "clear_slots 0 j bss = bss"
| "clear_slots (Suc d) j bss = clear_slots d (Suc j mod length bss) (bss[j := []])"

lemma clear_slots_ring_take: "clear_slots d j bss = snd (ring_take d j bss)"
  by (induction d arbitrary: j bss) (auto simp: Let_def case_prod_beta)

lemma pn_take_mset:
  "j < length bss \<Longrightarrow>
   mset (fst (pn_take d j bss ies)) + mset (snd (pn_take d j bss ies)) = mset (fst (ring_take d j bss))"
proof (induction d arbitrary: j bss ies)
  case 0
  then show ?case by simp
next
  case (Suc d)
  have "0 < length bss" using Suc.prems by linarith
  then have "Suc j mod length bss < length (bss[j := []])" by simp
  note IH = Suc.IH [OF this]
  show ?case
    using IH [of "tl ies"] IH [of ies] by (simp add: Let_def case_prod_beta ac_simps)
qed

section \<open>The loop against the specification\<close>

lemma drop_step:
  assumes g: "gathered s k a ac bss" and j: "j < length bss"
    and put: "ro_put (tids_rx_reorder s k) j empty_elem = Some r"
  shows "gathered (upd_reorder k r s) k a ac (bss[j := []]) \<and> ring_change k D s (upd_reorder k r s)"
proof -
  let ?r = "tids_rx_reorder s k"
  have all: "list_all2 (slot_rep (nb_next s)) (slots ?r) bss" and dist: "distinct (ac @ concat bss)"
    and a: "slot_rep (nb_next s) a ac"
    using g by (auto simp: gathered_def)
  then have r: "slots r = (slots ?r)[j := empty_elem]" "win_sz_mask r = win_sz_mask ?r"
    "defrag_timeout_ms r = defrag_timeout_ms ?r" "ro_tid r = ro_tid ?r"
    using ro_put_slots [of j ?r empty_elem] put j by (auto dest: list_all2_lengthD)
  have "list_all2 (slot_rep (nb_next s)) ((slots ?r)[j := empty_elem]) (bss[j := []])"
    using all by (intro list_all2_update_cong) (auto simp: slot_rep_def)
  moreover have "distinct (ac @ concat (bss[j := []]))"
  proof -
    have "concat bss = concat (take j bss) @ bss ! j @ concat (drop (Suc j) bss)"
      by (subst id_take_nth_drop [OF j]) simp
    then show ?thesis using dist j by (auto simp: upd_conv_take_nth_drop)
  qed
  moreover have "ring_change k D s (upd_reorder k r s)"
    unfolding ring_change_def using r
    by (intro exI [of _ "nb_next s"] exI [of _ r]) (simp add: upd_reorder_def)
  ultimately show ?thesis using a r(1) by (simp add: gathered_def)
qed

lemma pn_ind_failed_iff:
  assumes "i + unat cnt \<le> length pn_ie"
  defines "ies \<equiv> take (unat cnt) (drop i pn_ie)"
  shows "pn_ind_failed seq_num pn_ie i cnt = Some (ies \<noteq> [] \<and> unat (hd ies) = unat seq_num)"
proof (cases "cnt = 0")
  case True
  then show ?thesis by (simp add: pn_ind_failed_def ies_def)
next
  case False
  then have pos: "0 < unat cnt" by (simp add: unat_gt_0)
  then have "drop i pn_ie = pn_ie ! i # drop (Suc i) pn_ie" using assms(1) by (simp add: Cons_nth_drop_Suc)
  then have "ies = pn_ie ! i # take (unat cnt - 1) (drop (Suc i) pn_ie)"
    using pos by (cases "unat cnt") (auto simp: ies_def)
  moreover have "load_at pn_ie i = Some (pn_ie ! i)" using pos assms(1) by simp
  moreover have "(seq_num = ucast (pn_ie ! i)) = (unat (pn_ie ! i) = unat seq_num)"
    by (metis unat_inject unat_ucast_up(1))
  ultimately show ?thesis using False by (simp add: pn_ind_failed_def)
qed

lemma pn_ind_slot_rep:
  assumes g: "gathered s k a ac bss" and j: "unat seq_num < length bss" and i: "i + unat cnt \<le> length pn_ie"
    and ies: "ies = take (unat cnt) (drop i pn_ie)"
  defines "failed \<equiv> bss ! unat seq_num \<noteq> [] \<and> ies \<noteq> [] \<and> unat (hd ies) = unat seq_num"
  shows "\<exists>i' cnt' a' s1. pn_ind_slot k seq_num pn_ie i cnt (el_head a) (el_tail a) s
      = Some (i', cnt', el_head a', el_tail a',
          s1\<lparr>nb_freed := nb_freed s @ (if failed then bss ! unat seq_num else [])\<rparr>) \<and>
    gathered s1 k a' (ac @ (if failed then [] else bss ! unat seq_num)) (bss[unat seq_num := []]) \<and>
    ring_change k (set ac \<union> set (concat bss)) s s1 \<and> i' + unat cnt' \<le> length pn_ie \<and>
    (if failed then tl ies else ies) = take (unat cnt') (drop i' pn_ie)"
proof -
  let ?j = "unat seq_num"
  obtain e r where get: "ro_get (tids_rx_reorder s k) ?j = Some e" and e: "slot_rep (nb_next s) e (bss ! ?j)"
    and put: "ro_put (tids_rx_reorder s k) ?j empty_elem = Some r"
    and g1: "gathered (s\<lparr>nb_next := join_next (nb_next s) a e, tids_rx_reorder := (tids_rx_reorder s)(k := r)\<rparr>)
      k (join_elem a e) (ac @ bss ! ?j) (bss[?j := []])" (is "gathered ?s1 _ _ _ _")
    and c1: "ring_change k (set ac \<union> set (concat bss)) s
      (s\<lparr>nb_next := join_next (nb_next s) a e, tids_rx_reorder := (tids_rx_reorder s)(k := r)\<rparr>)"
    using gather_step [OF g j] by blast
  note fail = pn_ind_failed_iff [OF i, of seq_num, folded ies]
  show ?thesis
  proof (cases failed)
    case True
    then have ne: "bss ! ?j \<noteq> []" and f: "pn_ind_failed seq_num pn_ie i cnt = Some True"
      using fail by (auto simp: failed_def)
    have dist: "distinct (bss ! ?j)" using g j by (auto simp: gathered_def distinct_concat_iff)
    obtain q where q: "lseg (nb_next s) (el_head e) (bss ! ?j) q" "el_tail e = Some (last (bss ! ?j))"
      using e ne by (auto simp: slot_rep_def)
    obtain h where h: "el_head e = Some h" using slot_rep_head [OF e] ne by auto
    have free: "free_mpdu h (el_tail e) s = Some (s\<lparr>nb_freed := nb_freed s @ bss ! ?j\<rparr>)"
      using free_mpdu_rep [of s h "bss ! ?j" q] q h ne dist by simp
    have pos: "0 < unat cnt" using True ies by (auto simp: failed_def)
    then have "unat (cnt - 1) = unat cnt - 1" by (metis unat_gt_0 unat_minus_one)
    moreover from this have "tl ies = take (unat (cnt - 1)) (drop (i + 1) pn_ie)"
      using pos i ies by (simp add: tl_take drop_Suc tl_drop)
    moreover have "upd_reorder k r (s\<lparr>nb_freed := f\<rparr>) = (upd_reorder k r s)\<lparr>nb_freed := f\<rparr>" for f
      by (simp add: upd_reorder_def)
    ultimately show ?thesis
      using True get put h f free drop_step [OF g j put] i pos
      by (intro exI [of _ "i + 1"] exI [of _ "cnt - 1"] exI [of _ a] exI [of _ "upd_reorder k r s"])
        (simp add: pn_ind_slot_def)
  next
    case False
    have "pn_ind_slot k seq_num pn_ie i cnt (el_head a) (el_tail a) s
        = Some (i, cnt, el_head (join_elem a e), el_tail (join_elem a e), ?s1)"
    proof (cases "bss ! ?j = []")
      case True
      then have "e = empty_elem" using e by (simp add: slot_rep_def)
      moreover from this have "r = tids_rx_reorder s k"
        using put get ro_put_same [of ?j "tids_rx_reorder s k"] by (auto simp: ro_get_slots load_at_def split: if_splits)
      ultimately show ?thesis using get by (simp add: pn_ind_slot_def join_elem_def join_next_def)
    next
      case ne: False
      then have f: "pn_ind_failed seq_num pn_ie i cnt = Some False"
        using fail False by (auto simp: failed_def)
      obtain h where h: "el_head e = Some h" using slot_rep_head [OF e] ne by auto
      show ?thesis
      proof (cases "ac = []")
        case True
        then have "a = empty_elem" using g by (simp add: gathered_def slot_rep_def)
        then show ?thesis using get put h f
          by (simp add: pn_ind_slot_def join_elem_def join_next_def upd_reorder_def)
      next
        case False
        then obtain x y where "el_head a = Some x" "el_tail a = Some y"
          using g slot_rep_head [of "nb_next s" a ac] by (auto simp: gathered_def slot_rep_def)
        then show ?thesis using get put h f
          by (simp add: pn_ind_slot_def join_elem_def join_next_def upd_reorder_def adf_nbuf_set_next_def)
      qed
    qed
    moreover have "?s1\<lparr>nb_freed := nb_freed s @ []\<rparr> = ?s1" by simp
    ultimately show ?thesis
      using False g1 c1 i ies
      by (intro exI [of _ i] exI [of _ cnt] exI [of _ "join_elem a e"] exI [of _ ?s1]) simp
  qed
qed

lemma gathered_freed [simp]: "gathered (s\<lparr>nb_freed := f\<rparr>) k a ac bss = gathered s k a ac bss"
  by (simp add: gathered_def)

lemma ring_change_freed:
  assumes "ring_change k D (s\<lparr>nb_freed := f\<rparr>) t"
  shows "ring_change k D s (t\<lparr>nb_freed := nb_freed s\<rparr>)"
proof -
  obtain nx r where "t = s\<lparr>nb_freed := f, nb_next := nx, tids_rx_reorder := (tids_rx_reorder s)(k := r)\<rparr>"
    "win_sz_mask r = win_sz_mask (tids_rx_reorder s k)"
    "defrag_timeout_ms r = defrag_timeout_ms (tids_rx_reorder s k)"
    "ro_tid r = ro_tid (tids_rx_reorder s k)" "\<forall>c. c \<notin> D \<longrightarrow> nx c = nb_next s c"
    using assms by (auto simp: ring_change_def)
  then show ?thesis unfolding ring_change_def by (intro exI [of _ nx] exI [of _ r]) simp
qed

lemma pn_take_Suc:
  assumes "j < length bss"
  shows "pn_take (Suc d) j bss ies =
    ((if bss ! j \<noteq> [] \<and> ies \<noteq> [] \<and> unat (hd ies) = j then [] else bss ! j)
        @ fst (pn_take d (Suc j mod length bss) (bss[j := []])
            (if bss ! j \<noteq> [] \<and> ies \<noteq> [] \<and> unat (hd ies) = j then tl ies else ies)),
     (if bss ! j \<noteq> [] \<and> ies \<noteq> [] \<and> unat (hd ies) = j then bss ! j else [])
        @ snd (pn_take d (Suc j mod length bss) (bss[j := []])
            (if bss ! j \<noteq> [] \<and> ies \<noteq> [] \<and> unat (hd ies) = j then tl ies else ies)))"
  by (simp add: Let_def case_prod_beta)

lemma pn_ind_loop_rep:
  assumes "gathered s k a ac bss" and "length bss = 2 ^ n" and "unat m = 2 ^ n - Suc 0"
    and "unat sq < 2 ^ n" and "unat sq_end = (unat sq + Suc d) mod 2 ^ n" and "d < 2 ^ n"
    and "i + unat cnt \<le> length pn_ie"
  shows "\<exists>a' s1. pn_ind_loop k m sq_end pn_ie sq i cnt (el_head a) (el_tail a) s
      = Some (el_head a', el_tail a', s1\<lparr>nb_freed := nb_freed s
          @ snd (pn_take (Suc d) (unat sq) bss (take (unat cnt) (drop i pn_ie)))\<rparr>) \<and>
    gathered s1 k a' (ac @ fst (pn_take (Suc d) (unat sq) bss (take (unat cnt) (drop i pn_ie))))
      (clear_slots (Suc d) (unat sq) bss) \<and>
    ring_change k (set ac \<union> set (concat bss)) s s1"
  using assms
proof (induction d arbitrary: s a ac bss sq i cnt)
  case (0 s a ac bss sq i cnt)
  let ?ies = "take (unat cnt) (drop i pn_ie)" and ?j = "unat sq"
  have j: "?j < length bss" using 0 by simp
  have "(sq + 1) AND m = sq_end"
    using 0 ring_next_index [OF 0(3), of sq] by (simp flip: unat_inject)
  moreover obtain i1 cnt1 a1 s1 where "pn_ind_slot k sq pn_ie i cnt (el_head a) (el_tail a) s
      = Some (i1, cnt1, el_head a1, el_tail a1,
          s1\<lparr>nb_freed := nb_freed s @ snd (pn_take (Suc 0) ?j bss ?ies)\<rparr>)"
    "gathered s1 k a1 (ac @ fst (pn_take (Suc 0) ?j bss ?ies)) (bss[?j := []])"
    "ring_change k (set ac \<union> set (concat bss)) s s1"
    using pn_ind_slot_rep [OF 0(1) j 0(7) refl] unfolding pn_take_Suc [OF j]
    by (simp only: pn_take.simps(1) fst_conv snd_conv append_Nil2) blast
  ultimately show ?case
    by (subst pn_ind_loop.simps) (simp only: option.case prod.case not_False_eq_True if_False
        clear_slots.simps simp_thms, blast)
next
  case (Suc d s a ac bss sq i cnt)
  let ?ies = "take (unat cnt) (drop i pn_ie)" and ?j = "unat sq" and ?sq = "(sq + 1) AND m"
  let ?f = "bss ! ?j \<noteq> [] \<and> ?ies \<noteq> [] \<and> unat (hd ?ies) = ?j"
  have j: "?j < length bss" using Suc.prems by simp
  obtain i1 cnt1 a1 s1 where slot: "pn_ind_slot k sq pn_ie i cnt (el_head a) (el_tail a) s
      = Some (i1, cnt1, el_head a1, el_tail a1, s1\<lparr>nb_freed := nb_freed s @ (if ?f then bss ! ?j else [])\<rparr>)"
    and g1: "gathered s1 k a1 (ac @ (if ?f then [] else bss ! ?j)) (bss[?j := []])"
    and c1: "ring_change k (set ac \<union> set (concat bss)) s s1" and i1: "i1 + unat cnt1 \<le> length pn_ie"
    and ies: "(if ?f then tl ?ies else ?ies) = take (unat cnt1) (drop i1 pn_ie)"
    using pn_ind_slot_rep [OF Suc.prems(1) j Suc.prems(7) refl] by blast
  let ?s1 = "s1\<lparr>nb_freed := nb_freed s @ (if ?f then bss ! ?j else [])\<rparr>"
  have nxt: "unat ?sq = Suc ?j mod 2 ^ n" by (rule ring_next_index [OF Suc.prems(3)])
  have ends: "unat sq_end = (unat ?sq + Suc d) mod 2 ^ n"
    using Suc.prems(5) mod_add_left_eq [of "Suc ?j" "2 ^ n" "Suc d"] unfolding nxt by simp
  have "unat sq_end \<noteq> unat ?sq"
    unfolding ends using mod_step_ne [of "Suc d" "2 ^ n" "unat ?sq"] Suc.prems(6) nxt by simp
  then have ne: "?sq \<noteq> sq_end" by auto
  let ?t = "pn_take (Suc d) (unat ?sq) (bss[?j := []]) (take (unat cnt1) (drop i1 pn_ie))"
  have "gathered ?s1 k a1 (ac @ (if ?f then [] else bss ! ?j)) (bss[?j := []])" using g1 by simp
  moreover have "length (bss[?j := []]) = 2 ^ n" "unat ?sq < 2 ^ n" "d < 2 ^ n"
    using Suc.prems(2,6) nxt by simp_all
  ultimately obtain a2 s2 where loop:
    "pn_ind_loop k m sq_end pn_ie ?sq i1 cnt1 (el_head a1) (el_tail a1) ?s1
      = Some (el_head a2, el_tail a2, s2\<lparr>nb_freed := nb_freed ?s1 @ snd ?t\<rparr>)"
    and g2: "gathered s2 k a2 ((ac @ (if ?f then [] else bss ! ?j)) @ fst ?t)
      (clear_slots (Suc d) (unat ?sq) (bss[?j := []]))"
    and c2: "ring_change k (set (ac @ (if ?f then [] else bss ! ?j)) \<union> set (concat (bss[?j := []]))) ?s1 s2"
    using Suc.IH [OF _ _ Suc.prems(3) _ ends _ i1] by blast
  let ?s2 = "s2\<lparr>nb_freed := nb_freed s1\<rparr>"
  have sets: "set (ac @ bss ! ?j) \<union> set (concat (bss[?j := []])) = set ac \<union> set (concat bss)"
    by (rule gathered_distinct_set [OF j])
  have "ring_change k (set ac \<union> set (concat bss)) s1 ?s2"
    by (rule ring_change_mono [OF ring_change_freed [OF c2]]) (use sets in \<open>cases ?f; simp; blast\<close>)
  then have c: "ring_change k (set ac \<union> set (concat bss)) s ?s2" by (rule ring_change_trans [OF c1])
  have take: "pn_take (Suc (Suc d)) ?j bss ?ies
      = ((if ?f then [] else bss ! ?j) @ fst ?t, (if ?f then bss ! ?j else []) @ snd ?t)"
    unfolding pn_take_Suc [OF j] ies nxt Suc.prems(2) ..
  have "pn_ind_loop k m sq_end pn_ie sq i cnt (el_head a) (el_tail a) s
      = Some (el_head a2, el_tail a2, ?s2\<lparr>nb_freed := nb_freed s @ snd (pn_take (Suc (Suc d)) ?j bss ?ies)\<rparr>)"
    unfolding take using ne loop by (subst pn_ind_loop.simps) (simp add: slot)
  moreover have "gathered ?s2 k a2 (ac @ fst (pn_take (Suc (Suc d)) ?j bss ?ies)) (clear_slots (Suc (Suc d)) ?j bss)"
    unfolding take using g2 Suc.prems(2) by (simp add: nxt)
  ultimately show ?case using c by blast
qed

section \<open>Property\<close>



end
