(* ===== verification/Rx_Michael.thy ===== *)
theory Rx_Michael
  imports Rx_State
begin

text \<open>
  The Michael message integrity code of reassembled TKIP frames (\<open>ol_rx_defrag.h\<close> and
  \<open>ol_rx_defrag_mic\<close> in \<open>ol_rx_defrag.c\<close>), computed over a chain of buffers whose 32-bit words may
  straddle buffer boundaries.  A read beyond the data of a buffer is \<open>None\<close>.
\<close>

section \<open>Words and blocks\<close>

definition rotl :: "u32 \<Rightarrow> nat \<Rightarrow> u32" where
  "rotl val bits = push_bit bits val OR drop_bit (32 - bits) val"

definition rotr :: "u32 \<Rightarrow> nat \<Rightarrow> u32" where
  "rotr val bits = drop_bit bits val OR push_bit (32 - bits) val"

definition xswap :: "u32 \<Rightarrow> u32" where
  "xswap val = push_bit 8 (val AND 0x00ff00ff) OR drop_bit 8 (val AND 0xff00ff00)"

definition get_le32_split :: "u8 \<Rightarrow> u8 \<Rightarrow> u8 \<Rightarrow> u8 \<Rightarrow> u32" where
  "get_le32_split b0 b1 b2 b3 =
     ((ucast b0 OR push_bit 8 (ucast b1)) OR push_bit 16 (ucast b2)) OR push_bit 24 (ucast b3)"

definition get_le32 :: "u8 list \<Rightarrow> u32 option" where
  "get_le32 p =
     (if length p < 4 then None else Some (get_le32_split (p ! 0) (p ! 1) (p ! 2) (p ! 3)))"

definition put_le32 :: "u32 \<Rightarrow> u8 list" where
  "put_le32 v = [ucast (v AND 0xff), ucast (drop_bit 8 v AND 0xff), ucast (drop_bit 16 v AND 0xff),
                 ucast (drop_bit 24 v AND 0xff)]"

definition michael_block :: "u32 \<times> u32 \<Rightarrow> u32 \<times> u32" where
  "michael_block lr =
     (let l = fst lr; r = snd lr;
          r = r XOR rotl l 17; l = l + r;
          r = r XOR xswap l; l = l + r;
          r = r XOR rotl l 3; l = l + r;
          r = r XOR rotr l 2; l = l + r
      in (l, r))"

definition michael_mix :: "u32 \<Rightarrow> u32 \<times> u32 \<Rightarrow> u32 \<times> u32" where
  "michael_mix w lr = michael_block (fst lr XOR w, snd lr)"

section \<open>Over a chain of buffers\<close>

text \<open>The inner loop: whole words of the current buffer.\<close>

partial_function (option) mic_words ::
  "u8 list \<Rightarrow> u32 \<Rightarrow> u16 \<Rightarrow> u32 \<times> u32 \<Rightarrow> (u8 list \<times> u32 \<times> u16 \<times> u32 \<times> u32) option" where
  "mic_words data space data_len lr =
     (if 4 \<le> space
      then (case get_le32 data of
              None \<Rightarrow> None
            | Some w \<Rightarrow> mic_words (drop 4 data) (space - 4) (data_len - 4) (michael_mix w lr))
      else Some (data, space, data_len, lr))"

text \<open>The word that straddles two buffers; \<open>space\<close> is 1, 2 or 3.\<close>

definition mic_straddle :: "u32 \<Rightarrow> u8 list \<Rightarrow> u8 list \<Rightarrow> (u32 \<times> u8 list \<times> u32) option" where
  "mic_straddle space data data_next =
     (if unat space \<le> length data \<and> 4 - unat space \<le> length data_next
      then let n = 4 - unat space; b = take (unat space) data @ take n data_next
           in Some (get_le32_split (b ! 0) (b ! 1) (b ! 2) (b ! 3), drop n data_next,
                    of_nat (length data_next) - of_nat n)
      else None)"

datatype ('a) defrag_status = OL_RX_DEFRAG_ERR | OL_RX_DEFRAG_OK 'a

partial_function (option) mic_loop ::
  "rx_state \<Rightarrow> nbuf \<Rightarrow> u8 list \<Rightarrow> u32 \<Rightarrow> u16 \<Rightarrow> u32 \<times> u32
    \<Rightarrow> (u8 list \<times> u16 \<times> u32 \<times> u32) defrag_status option" where
  "mic_loop s wbuf data space0 data_len lr =
     (let space = (if ucast data_len < space0 then ucast data_len else space0)
      in case mic_words data space data_len lr of
           None \<Rightarrow> None
         | Some (data1, space1, data_len1, lr1) \<Rightarrow>
             (if data_len1 < 4 then Some (OL_RX_DEFRAG_OK (data1, data_len1, lr1))
              else (case nb_next s wbuf of
                      None \<Rightarrow> Some OL_RX_DEFRAG_ERR
                    | Some wbuf1 \<Rightarrow>
                        (if space1 \<noteq> 0
                         then (if of_nat (length (nb_data s wbuf1)) < 4 - space1
                               then Some OL_RX_DEFRAG_ERR
                               else (case mic_straddle space1 data1 (nb_data s wbuf1) of
                                       None \<Rightarrow> None
                                     | Some (w, data2, space2) \<Rightarrow>
                                         mic_loop s wbuf1 data2 space2 (data_len1 - 4)
                                           (michael_mix w lr1)))
                         else mic_loop s wbuf1 (nb_data s wbuf1) (of_nat (length (nb_data s wbuf1)))
                                data_len1 lr1))))"

definition mic_last :: "u8 list \<Rightarrow> u16 \<Rightarrow> u32 option" where
  "mic_last data data_len =
     (if length data < unat data_len then None
      else Some (if data_len = 0 then get_le32_split 0x5a 0 0 0
                 else if data_len = 1 then get_le32_split (data ! 0) 0x5a 0 0
                 else if data_len = 2 then get_le32_split (data ! 0) (data ! 1) 0x5a 0
                 else get_le32_split (data ! 0) (data ! 1) (data ! 2) 0x5a))"

text \<open>The pseudo header: destination, source, priority and three zero bytes.\<close>

definition IEEE80211_FC0_SUBTYPE_QOS :: u8 where "IEEE80211_FC0_SUBTYPE_QOS = 0x80"

definition ol_rx_defrag_michdr :: "u8 list \<Rightarrow> u8 list option" where
  "ol_rx_defrag_michdr wh =
     (let addr1 = take 6 (drop 4 wh); addr2 = take 6 (drop 10 wh); addr3 = take 6 (drop 16 wh);
          addr4 = take 6 (drop 24 wh); dir = wh ! 1 AND 3;
          need = (if dir = 3 then 30 else if wh ! 0 AND IEEE80211_FC0_SUBTYPE_QOS \<noteq> 0 then 25 else 22)
      in if length wh < need then None
         else Some ((if dir = 0 then addr1 @ addr2 else if dir = 1 then addr3 @ addr2
                     else if dir = 2 then addr1 @ addr3 else addr3 @ addr4)
                    @ [if wh ! 0 AND IEEE80211_FC0_SUBTYPE_QOS \<noteq> 0 then wh ! 24 AND 0x0f else 0, 0, 0, 0]))"

definition ol_rx_defrag_mic ::
  "u8 list \<Rightarrow> nbuf \<Rightarrow> u16 \<Rightarrow> u16 \<Rightarrow> rx_state \<Rightarrow> u8 list defrag_status option" where
  "ol_rx_defrag_mic key wbuf off data_len s =
     (case (ol_rx_defrag_michdr (nb_data s wbuf), get_le32 key, get_le32 (drop 4 key)) of
        (Some hdr, Some l, Some r) \<Rightarrow>
          (case (get_le32 hdr, get_le32 (drop 4 hdr), get_le32 (drop 8 hdr), get_le32 (drop 12 hdr)) of
             (Some h0, Some h1, Some h2, Some h3) \<Rightarrow>
               (let lr = michael_mix h3 (michael_mix h2 (michael_mix h1 (michael_mix h0 (l, r))))
                in case mic_loop s wbuf (drop (unat off) (nb_data s wbuf))
                          (of_nat (length (nb_data s wbuf)) - ucast off) data_len lr of
                     None \<Rightarrow> None
                   | Some OL_RX_DEFRAG_ERR \<Rightarrow> Some OL_RX_DEFRAG_ERR
                   | Some (OL_RX_DEFRAG_OK (data, rest, lr1)) \<Rightarrow>
                       (case mic_last data rest of
                          None \<Rightarrow> None
                        | Some w \<Rightarrow>
                            (let (l', r') = michael_block (michael_mix w lr1)
                             in Some (OL_RX_DEFRAG_OK (put_le32 l' @ put_le32 r')))))
           | _ \<Rightarrow> None)
      | _ \<Rightarrow> None)"

section \<open>Reference\<close>

text \<open>
  The code of a byte string: its little-endian words, after a padding of \<open>0x5a\<close> and four to seven
  zero bytes.
\<close>

fun michael_words :: "u8 list \<Rightarrow> u32 \<times> u32 \<Rightarrow> u32 \<times> u32" where
  "michael_words (a # b # c # d # xs) lr = michael_words xs (michael_mix (get_le32_split a b c d) lr)"
| "michael_words _ lr = lr"

definition michael_pad :: "nat \<Rightarrow> u8 list" where
  "michael_pad n = 0x5a # replicate (7 - n mod 4) 0"

definition michael_ref :: "u8 list \<Rightarrow> u8 list \<Rightarrow> u8 list \<Rightarrow> u8 list" where
  "michael_ref key hdr xs =
     (let lr = michael_words (hdr @ xs @ michael_pad (length xs))
                 (get_le32_split (key ! 0) (key ! 1) (key ! 2) (key ! 3),
                  get_le32_split (key ! 4) (key ! 5) (key ! 6) (key ! 7))
      in put_le32 (fst lr) @ put_le32 (snd lr))"

text \<open>
  The splits of the data over buffers the loop handles: the last partial word lies in one buffer, and
  a word that straddles two buffers ends in the second.  The numbers are the lengths of the buffers
  from a word boundary on.
\<close>

fun mic_split_ok :: "nat \<Rightarrow> nat list \<Rightarrow> bool" where
  "mic_split_ok n [] = False"
| "mic_split_ok n [m] = (n \<le> m)"
| "mic_split_ok n (m # k # ks) =
     (n \<le> m \<or> m < 4 * (n div 4) \<and>
       (if m mod 4 = 0 then mic_split_ok (n - m) (k # ks)
        else 4 - m mod 4 \<le> k \<and> mic_split_ok (n - 4 * (m div 4) - 4) ((k - (4 - m mod 4)) # ks)))"

lemma list4_cases [case_names short long]:
  obtains "length xs < 4" | a b c d ys where "xs = a # b # c # d # ys"
proof (cases "length xs < 4")
  case False
  then have "Suc (Suc (Suc (Suc 0))) \<le> length xs" by simp
  then obtain a b c d ys where "xs = a # b # c # d # ys"
    unfolding Suc_le_length_iff by blast
  then show ?thesis using that by blast
qed (use that in blast)

lemma michael_words_append:
  "length xs = 4 * k \<Longrightarrow> michael_words (xs @ ys) lr = michael_words ys (michael_words xs lr)"
proof (induction k arbitrary: xs lr)
  case 0
  then show ?case by simp
next
  case (Suc k)
  then obtain a b c d zs where "xs = a # b # c # d # zs" "length zs = 4 * k"
    by (auto simp: length_Suc_conv numeral_eq_Suc)
  then show ?case using Suc.IH by simp
qed

lemma michael_words_short: "length xs < 4 \<Longrightarrow> michael_words xs lr = lr"
  by (cases "(xs, lr)" rule: michael_words.cases) auto

lemma michael_words_take:
  assumes "n \<le> length xs"
  shows "michael_words (take n xs) lr = michael_words (take (4 * (n div 4)) xs) lr"
proof -
  have "take n xs = take (4 * (n div 4)) xs @ take (n mod 4) (drop (4 * (n div 4)) xs)"
    by (metis add.commute mult_div_mod_eq take_add)
  moreover have "length (take (4 * (n div 4)) xs) = 4 * (n div 4)"
    using assms by (simp add: min_absorb2)
  ultimately show ?thesis
    using michael_words_append michael_words_short by simp
qed

section \<open>The loop against the reference\<close>

lemma four_step:
  "drop (4 + n) (a # b # c # d # xs) = drop n xs"
  "take (4 + n) (a # b # c # d # xs) = a # b # c # d # take n xs"
  by (simp_all add: numeral_eq_Suc)

lemma mic_words_rep:
  assumes "unat space \<le> length data" and "unat space \<le> unat dl"
  shows "\<exists>sp' dl'. mic_words data space dl lr
      = Some (drop (4 * (unat space div 4)) data, sp', dl',
          michael_words (take (4 * (unat space div 4)) data) lr) \<and>
    unat sp' = unat space mod 4 \<and> unat dl' = unat dl - 4 * (unat space div 4)"
  using assms
proof (induction "unat space div 4" arbitrary: space data dl lr)
  case 0
  then have lt: "unat space < 4" by (simp add: div_eq_0_iff)
  then have "\<not> 4 \<le> space" by (simp add: word_le_nat_alt)
  then show ?case using lt "0.hyps" by (subst mic_words.simps) simp
next
  case (Suc q)
  then have ge: "4 \<le> unat space" by (metis Suc.hyps(2) div_less nat.simps(3) not_less)
  then have w: "4 \<le> space" by (simp add: word_le_nat_alt)
  have s: "unat (space - 4) = unat space - 4" using w by (simp add: unat_sub)
  have "(4 :: u16) \<le> dl" using ge Suc.prems(2) by (simp add: word_le_nat_alt)
  then have d: "unat (dl - 4) = unat dl - 4" by (simp add: unat_sub)
  obtain a b c e xs where data: "data = a # b # c # e # xs"
    using ge Suc.prems(1) by (cases data rule: list4_cases) auto
  have q: "unat space div 4 = Suc (unat (space - 4) div 4)" using ge by (simp add: s le_div_geq)
  then have "q = unat (space - 4) div 4" using Suc.hyps(2) by simp
  have "unat (space - 4) \<le> length xs" "unat (space - 4) \<le> unat (dl - 4)"
    using Suc.prems by (simp_all add: data s d)
  from Suc.hyps(1) [OF \<open>q = _\<close> this, of "michael_mix (get_le32_split a b c e) lr"]
  obtain sp' dl' where "mic_words xs (space - 4) (dl - 4) (michael_mix (get_le32_split a b c e) lr)
      = Some (drop (4 * (unat (space - 4) div 4)) xs, sp', dl',
          michael_words (take (4 * (unat (space - 4) div 4)) xs) (michael_mix (get_le32_split a b c e) lr))"
    "unat sp' = unat (space - 4) mod 4" "unat dl' = unat (dl - 4) - 4 * (unat (space - 4) div 4)"
    by blast
  moreover have "unat (space - 4) mod 4 = unat space mod 4" using ge by (simp add: s le_mod_geq)
  ultimately show ?case
    using w d by (subst mic_words.simps) (simp add: data get_le32_def q four_step)
qed

text \<open>The word assembled from two buffers is the word of the bytes side by side.\<close>

lemma mic_straddle_rep:
  assumes "length xs < 4" and "xs \<noteq> []" and "unat space = length xs" and "4 - length xs \<le> length ys"
    and "length ys < 2 ^ 32"
  obtains w sp where "mic_straddle space xs ys = Some (w, drop (4 - length xs) ys, sp)"
    and "unat sp = length ys - (4 - length xs)"
    and "\<And>zs lr. michael_words (xs @ take (4 - length xs) ys @ zs) lr = michael_words zs (michael_mix w lr)"
proof -
  define n where "n = 4 - length xs"
  define sp :: u32 where "sp = of_nat (length ys) - of_nat n"
  have le: "n \<le> length ys" using assms(4) by (simp add: n_def)
  have "sp = of_nat (length ys - n)" using le by (simp add: sp_def of_nat_diff)
  then have sp: "unat sp = length ys - n" using assms(5) by (simp add: unsigned_of_nat take_bit_nat_eq_self)
  have "length (xs @ take n ys) = 4" using assms(1,4) by (simp add: n_def)
  then obtain a b c d where w: "xs @ take n ys = [a, b, c, d]"
    by (cases "xs @ take n ys" rule: list4_cases) auto
  have "mic_straddle space xs ys = Some (get_le32_split a b c d, drop n ys, sp)"
    unfolding mic_straddle_def Let_def
    using assms(3,4) w by (simp add: n_def [symmetric] sp_def)
  moreover have "michael_words (xs @ take n ys @ zs) lr
      = michael_words zs (michael_mix (get_le32_split a b c d) lr)" for zs lr
    using w by (simp flip: append_assoc)
  ultimately show ?thesis using that sp unfolding n_def by blast
qed

definition mic_rest :: "u8 list \<Rightarrow> nat \<Rightarrow> u8 list \<Rightarrow> nat \<Rightarrow> u32 \<times> u32 \<Rightarrow> u32 \<times> u32 \<Rightarrow> bool" where
  "mic_rest data' n' xs n lr lr' \<longleftrightarrow>
     n' = n mod 4 \<and> n' \<le> length data' \<and> take n' data' = take n' (drop (4 * (n div 4)) xs) \<and>
     lr' = michael_words (take (4 * (n div 4)) xs) lr"

lemma mic_rest_shift:
  assumes "length pre = 4 * k" and "4 * k \<le> n"
    and "mic_rest data' n' xs (n - 4 * k) (michael_words pre lr) lr'"
  shows "mic_rest data' n' (pre @ xs) n lr lr'"
proof -
  obtain j where n: "n = 4 * k + j" using assms(2) le_Suc_ex by blast
  have j: "n - 4 * k = j" "n mod 4 = j mod 4" "4 * (n div 4) = 4 * k + 4 * (j div 4)"
    unfolding n by simp_all
  show ?thesis
    using assms(3) unfolding mic_rest_def j
    by (auto simp: assms(1) michael_words_append [OF assms(1)])
qed

lemma whole_words_below:
  fixes m n :: nat
  assumes "m < 4 * (n div 4)"
  shows "4 * (m div 4) + 4 \<le> n"
proof -
  have "m div 4 < n div 4" using assms by (simp add: less_mult_imp_div_less mult.commute)
  then have "4 * (m div 4) + 4 \<le> 4 * (n div 4)" by linarith
  also have "\<dots> \<le> n" by simp
  finally show ?thesis .
qed

lemma mic_loop_done:
  assumes "unat space = length data" and "unat dl \<le> length data"
  shows "\<exists>data' dl' lr'. mic_loop s wbuf data space dl lr = Some (OL_RX_DEFRAG_OK (data', dl', lr')) \<and>
    mic_rest data' (unat dl') (data @ zs) (unat dl) lr lr'"
proof -
  define sp where "sp = (if ucast dl < space then ucast dl else space)"
  have sp: "unat sp = unat dl"
    using assms by (auto simp: sp_def word_less_nat_alt)
  then obtain sp' dl' where w: "mic_words data sp dl lr
      = Some (drop (4 * (unat dl div 4)) data, sp', dl',
          michael_words (take (4 * (unat dl div 4)) data) lr)"
    and dl': "unat dl' = unat dl - 4 * (unat dl div 4)"
    using mic_words_rep [of sp data dl lr] assms by auto
  have mod: "unat dl' = unat dl mod 4" using dl' by (simp add: minus_mult_div_eq_mod)
  then have "dl' < 4" by (simp add: word_less_nat_alt)
  then have "mic_loop s wbuf data space dl lr = Some (OL_RX_DEFRAG_OK (drop (4 * (unat dl div 4)) data, dl',
      michael_words (take (4 * (unat dl div 4)) data) lr))"
    by (subst mic_loop.simps)
      (simp only: Let_def sp_def [symmetric] w option.case prod.case if_True)
  moreover have "unat dl mod 4 \<le> length data - 4 * (unat dl div 4)"
    unfolding minus_mult_div_eq_mod [symmetric] by (rule diff_le_mono [OF assms(2)])
  ultimately show ?thesis using assms(2) by (auto simp: mic_rest_def mod)
qed

abbreviation mic_loop_next :: "rx_state \<Rightarrow> nbuf \<Rightarrow> u8 list \<Rightarrow> u32 \<Rightarrow> u16 \<Rightarrow> u32 \<times> u32
    \<Rightarrow> (u8 list \<times> u16 \<times> u32 \<times> u32) defrag_status option" where
  "mic_loop_next s b data1 space1 data_len1 lr1 \<equiv>
     (if space1 \<noteq> 0
      then (if of_nat (length (nb_data s b)) < 4 - space1 then Some OL_RX_DEFRAG_ERR
            else (case mic_straddle space1 data1 (nb_data s b) of
                    None \<Rightarrow> None
                  | Some (w, data2, space2) \<Rightarrow>
                      mic_loop s b data2 space2 (data_len1 - 4) (michael_mix w lr1)))
      else mic_loop s b (nb_data s b) (of_nat (length (nb_data s b))) data_len1 lr1)"

lemma mic_loop_more:
  assumes "unat space = length data" and "length data < unat dl"
    and "length data < 4 * (unat dl div 4)" and "nb_next s wbuf = Some b"
  obtains sp1 dl1 where "mic_loop s wbuf data space dl lr
      = mic_loop_next s b (drop (4 * (length data div 4)) data) sp1 dl1
          (michael_words (take (4 * (length data div 4)) data) lr)"
    and "unat sp1 = length data mod 4" and "unat dl1 = unat dl - 4 * (length data div 4)"
proof -
  have sp: "\<not> ucast dl < space" using assms(1,2) by (simp add: word_less_nat_alt)
  obtain sp' dl' where w: "mic_words data space dl lr
      = Some (drop (4 * (length data div 4)) data, sp', dl',
          michael_words (take (4 * (length data div 4)) data) lr)"
    and r: "unat sp' = length data mod 4" "unat dl' = unat dl - 4 * (length data div 4)"
    using mic_words_rep [of space data dl lr] assms(1,2) by auto
  have "4 * (length data div 4) + 4 \<le> unat dl" by (rule whole_words_below [OF assms(3)])
  then have "\<not> dl' < 4" using r(2) by (simp add: word_less_nat_alt)
  then have "mic_loop s wbuf data space dl lr
      = mic_loop_next s b (drop (4 * (length data div 4)) data) sp' dl'
          (michael_words (take (4 * (length data div 4)) data) lr)"
    using sp w assms(4) by (subst mic_loop.simps) simp
  then show ?thesis using r by (rule that)
qed

text \<open>What the loop has to find for one buffer and the buffers behind it.\<close>

definition mic_good :: "rx_state \<Rightarrow> nbuf \<Rightarrow> nbuf list \<Rightarrow> bool" where
  "mic_good s wbuf ws \<longleftrightarrow> (\<forall>data space dl lr.
     unat space = length data \<longrightarrow> mic_split_ok (unat dl) (length data # map (\<lambda>b. length (nb_data s b)) ws) \<longrightarrow>
     (\<exists>data' dl' lr'. mic_loop s wbuf data space dl lr = Some (OL_RX_DEFRAG_OK (data', dl', lr')) \<and>
       mic_rest data' (unat dl') (data @ concat (map (nb_data s) ws)) (unat dl) lr lr'))"

lemma mic_goodE:
  assumes "mic_good s wbuf ws" and "unat space = length data"
    and "mic_split_ok (unat dl) (length data # map (\<lambda>b. length (nb_data s b)) ws)"
  obtains data' dl' lr' where "mic_loop s wbuf data space dl lr = Some (OL_RX_DEFRAG_OK (data', dl', lr'))"
    and "mic_rest data' (unat dl') (data @ concat (map (nb_data s) ws)) (unat dl) lr lr'"
  using assms unfolding mic_good_def by blast

lemma mic_loop_aligned:
  assumes "mic_good s b bs" and "length (nb_data s b) < 2 ^ 32" and "length data = 4 * k"
    and "sp1 = 0" and "4 * k \<le> n" and "unat dl1 = n - 4 * k"
    and "mic_split_ok (n - 4 * k) (map (\<lambda>b. length (nb_data s b)) (b # bs))"
  shows "\<exists>data' dl' lr'. mic_loop_next s b ys sp1 dl1 (michael_words data lr)
      = Some (OL_RX_DEFRAG_OK (data', dl', lr')) \<and>
    mic_rest data' (unat dl') (data @ concat (map (nb_data s) (b # bs))) n lr lr'"
proof -
  have "unat (of_nat (length (nb_data s b)) :: u32) = length (nb_data s b)"
    using assms(2) by (simp add: unsigned_of_nat take_bit_nat_eq_self)
  moreover have "mic_split_ok (unat dl1) (length (nb_data s b) # map (\<lambda>b. length (nb_data s b)) bs)"
    using assms(6,7) by simp
  ultimately obtain data' dl' lr' where
    loop: "mic_loop s b (nb_data s b) (of_nat (length (nb_data s b))) dl1 (michael_words data lr)
      = Some (OL_RX_DEFRAG_OK (data', dl', lr'))"
    and "mic_rest data' (unat dl') (nb_data s b @ concat (map (nb_data s) bs)) (unat dl1)
      (michael_words data lr) lr'"
    by (rule mic_goodE [OF assms(1)])
  then have "mic_rest data' (unat dl') (data @ nb_data s b @ concat (map (nb_data s) bs)) n lr lr'"
    using mic_rest_shift [OF assms(3,5)] assms(6) by simp
  then show ?thesis using loop assms(4) by auto
qed

lemma mic_loop_split:
  assumes "mic_good s b bs" and "length (nb_data s b) < 2 ^ 32"
    and "length ys = 4 * k" and "length xs < 4" and "xs \<noteq> []"
    and "unat sp1 = length xs" and "4 * k + 4 \<le> n" and "unat dl1 = n - 4 * k"
    and "4 - length xs \<le> length (nb_data s b)"
    and "mic_split_ok (n - 4 * k - 4)
          ((length (nb_data s b) - (4 - length xs)) # map (\<lambda>b. length (nb_data s b)) bs)"
  shows "\<exists>data' dl' lr'. mic_loop_next s b xs sp1 dl1 (michael_words ys lr)
      = Some (OL_RX_DEFRAG_OK (data', dl', lr')) \<and>
    mic_rest data' (unat dl') ((ys @ xs) @ concat (map (nb_data s) (b # bs))) n lr lr'"
proof -
  let ?k = "4 - length xs" and ?bd = "nb_data s b"
  obtain w sp2 where strad: "mic_straddle sp1 xs ?bd = Some (w, drop ?k ?bd, sp2)"
    and sp2: "unat sp2 = length ?bd - ?k"
    and words: "\<And>zs lr. michael_words (xs @ take ?k ?bd @ zs) lr = michael_words zs (michael_mix w lr)"
    by (rule mic_straddle_rep [OF assms(4,5,6,9,2)]) (rule that)
  have ne: "sp1 \<noteq> 0" using assms(5,6) by auto
  have "sp1 \<le> 4" using assms(4,6) by (simp add: word_le_nat_alt)
  then have "unat (4 - sp1) = ?k" by (simp add: unat_sub assms(6))
  then have nlt: "\<not> of_nat (length ?bd) < 4 - sp1"
    using assms(9,2) by (simp add: word_less_nat_alt unsigned_of_nat take_bit_nat_eq_self)
  have "4 \<le> dl1" using assms(7,8) by (simp add: word_le_nat_alt)
  then have dl2: "unat (dl1 - 4) = n - 4 * (k + 1)" using assms(8) by (simp add: unat_sub)
  have "unat sp2 = length (drop ?k ?bd)" using sp2 by simp
  moreover have "mic_split_ok (unat (dl1 - 4)) (length (drop ?k ?bd) # map (\<lambda>b. length (nb_data s b)) bs)"
    using assms(10) by (simp add: dl2 add.commute)
  ultimately obtain data' dl' lr' where ih:
    "mic_loop s b (drop ?k ?bd) sp2 (dl1 - 4) (michael_mix w (michael_words ys lr))
      = Some (OL_RX_DEFRAG_OK (data', dl', lr'))"
    "mic_rest data' (unat dl') (drop ?k ?bd @ concat (map (nb_data s) bs)) (unat (dl1 - 4))
      (michael_mix w (michael_words ys lr)) lr'"
    by (rule mic_goodE [OF assms(1)])
  have pre: "length (ys @ xs @ take ?k ?bd) = 4 * (k + 1)" using assms(3,4,9) by simp
  have pw: "michael_words (ys @ xs @ take ?k ?bd) lr = michael_mix w (michael_words ys lr)"
    using words [of "[]"] by (simp add: michael_words_append [OF assms(3)])
  have "mic_rest data' (unat dl') ((ys @ xs @ take ?k ?bd) @ drop ?k ?bd @ concat (map (nb_data s) bs)) n lr lr'"
    by (rule mic_rest_shift [OF pre]) (use assms(7) ih(2) in \<open>simp_all only: pw dl2\<close>, simp)
  then have "mic_rest data' (unat dl') ((ys @ xs) @ concat (map (nb_data s) (b # bs))) n lr lr'"
    by (simp only: append_assoc append_take_drop_id append_assoc [of "take _ _", symmetric] concat.simps list.map)
  moreover have "mic_loop_next s b xs sp1 dl1 (michael_words ys lr) = Some (OL_RX_DEFRAG_OK (data', dl', lr'))"
    using ih(1) ne nlt strad by simp
  ultimately show ?thesis by blast
qed

lemma mic_loop_rep:
  assumes "lseg (nb_next s) (nb_next s wbuf) ws q"
    and "\<forall>b \<in> set ws. length (nb_data s b) < 2 ^ 32"
  shows "mic_good s wbuf ws"
  using assms
proof (induction ws arbitrary: wbuf)
  case Nil
  have "\<exists>data' dl' lr'. mic_loop s wbuf data space dl lr = Some (OL_RX_DEFRAG_OK (data', dl', lr')) \<and>
      mic_rest data' (unat dl') (data @ concat (map (nb_data s) [])) (unat dl) lr lr'"
    if "unat space = length data" "mic_split_ok (unat dl) [length data]" for data space dl lr
    by (rule mic_loop_done [OF that(1)]) (use that(2) in simp)
  then show ?case unfolding mic_good_def by (simp only: list.map) blast
next
  case (Cons b bs wbuf)
  have b: "nb_next s wbuf = Some b" "lseg (nb_next s) (nb_next s b) bs q" "length (nb_data s b) < 2 ^ 32"
    using Cons.prems by auto
  then have good: "mic_good s b bs" using Cons.IH [OF b(2)] Cons.prems(2) by simp
  have "\<exists>data' dl' lr'. mic_loop s wbuf data space dl lr = Some (OL_RX_DEFRAG_OK (data', dl', lr')) \<and>
      mic_rest data' (unat dl') (data @ concat (map (nb_data s) (b # bs))) (unat dl) lr lr'"
    if sp: "unat space = length data"
      and ok: "mic_split_ok (unat dl) (length data # map (\<lambda>b. length (nb_data s b)) (b # bs))"
    for data space dl lr
  proof (cases "unat dl \<le> length data")
    case True
    then show ?thesis by (rule mic_loop_done [OF sp])
  next
    case False
    let ?m = "length data" and ?n = "unat dl"
    let ?ys = "take (4 * (?m div 4)) data" and ?xs = "drop (4 * (?m div 4)) data"
    from ok False have lt: "?m < 4 * (?n div 4)" and rest: "if ?m mod 4 = 0
        then mic_split_ok (?n - ?m) (length (nb_data s b) # map (\<lambda>b. length (nb_data s b)) bs)
        else 4 - ?m mod 4 \<le> length (nb_data s b) \<and> mic_split_ok (?n - 4 * (?m div 4) - 4)
          ((length (nb_data s b) - (4 - ?m mod 4)) # map (\<lambda>b. length (nb_data s b)) bs)"
      unfolding list.map mic_split_ok.simps(3) by blast+
    obtain sp1 dl1 where step: "mic_loop s wbuf data space dl lr
        = mic_loop_next s b ?xs sp1 dl1 (michael_words ?ys lr)"
      and sp1: "unat sp1 = ?m mod 4" and dl1: "unat dl1 = ?n - 4 * (?m div 4)"
      by (rule mic_loop_more [OF sp _ lt b(1)]) (use False in simp)
    have ge: "4 * (?m div 4) + 4 \<le> ?n" by (rule whole_words_below [OF lt])
    have ys: "length ?ys = 4 * (?m div 4)" by (simp add: min_absorb2)
    have xs: "length ?xs = ?m mod 4" by (simp add: minus_mult_div_eq_mod)
    show ?thesis
    proof (cases "?m mod 4 = 0")
      case True
      then have e: "?m = 4 * (?m div 4)" by (metis add.right_neutral mult_div_mod_eq)
      have y: "?ys = data" by (rule take_all) (use e in linarith)
      have z: "sp1 = 0" using sp1 True by (simp add: unat_eq_0)
      have ok': "mic_split_ok (?n - 4 * (?m div 4)) (map (\<lambda>b. length (nb_data s b)) (b # bs))"
        unfolding list.map using rest True e by (simp only: if_True)
      have "4 * (?m div 4) \<le> ?n" using ge by linarith
      from mic_loop_aligned [OF good b(3) e z this dl1 ok']
      show ?thesis unfolding step y .
    next
      case False
      have r: "4 - length ?xs \<le> length (nb_data s b) \<and> mic_split_ok (?n - 4 * (?m div 4) - 4)
          ((length (nb_data s b) - (4 - length ?xs)) # map (\<lambda>b. length (nb_data s b)) bs)"
        using rest unfolding xs if_not_P [OF False] .
      have x4: "length ?xs < 4" unfolding xs by simp
      have ne: "?xs \<noteq> []" using xs False by (metis list.size(3))
      have sx: "unat sp1 = length ?xs" unfolding xs by (rule sp1)
      from mic_loop_split [OF good b(3) ys x4 ne sx ge dl1 r [THEN conjunct1] r [THEN conjunct2]]
      show ?thesis unfolding step append_take_drop_id .
    qed
  qed
  then show ?case unfolding mic_good_def by blast
qed

text \<open>The last word and the padding.\<close>

lemma le32_split_0 [simp]: "get_le32_split 0 0 0 0 = 0"
  by (simp add: get_le32_split_def)

lemma michael_mix_0: "michael_mix 0 lr = michael_block lr"
  by (simp add: michael_mix_def)

lemma michael_pad_add: "michael_pad (4 * q + r) = michael_pad r"
  by (simp add: michael_pad_def)

lemma mic_last_rep:
  assumes "unat dl < 4" and "unat dl \<le> length data"
  obtains w where "mic_last data dl = Some w"
    and "\<And>lr. michael_words (take (unat dl) data @ michael_pad (unat dl)) lr
      = michael_block (michael_mix w lr)"
proof -
  have rep: "replicate 7 x = [x, x, x, x, x, x, x]" "replicate 6 x = [x, x, x, x, x, x]"
    "replicate 5 x = [x, x, x, x, x]" "replicate 4 x = [x, x, x, x]" for x :: u8
    by (simp_all add: numeral_eq_Suc)
  consider "unat dl = unat (0 :: u16)" | "unat dl = unat (1 :: u16)"
    | "unat dl = unat (2 :: u16)" | "unat dl = unat (3 :: u16)"
    using assms(1) by (simp only: unsigned_0 unsigned_1 unsigned_numeral) (simp; linarith)
  then consider "dl = 0" | "dl = 1" | "dl = 2" | "dl = 3" unfolding unat_inject by blast
  then show ?thesis
  proof cases
    case 1
    then show ?thesis using that [of "get_le32_split 0x5a 0 0 0"]
      by (simp add: mic_last_def michael_pad_def rep michael_mix_0)
  next
    case 2
    then obtain a xs where "data = a # xs" using assms(2) by (cases data) auto
    with 2 show ?thesis using that [of "get_le32_split a 0x5a 0 0"]
      by (simp add: mic_last_def michael_pad_def rep michael_mix_0)
  next
    case 3
    then have "Suc (Suc 0) \<le> length data" using assms(2) by simp
    then obtain a b xs where "data = a # b # xs" unfolding Suc_le_length_iff by blast
    with 3 show ?thesis using that [of "get_le32_split a b 0x5a 0"]
      by (simp add: mic_last_def michael_pad_def rep michael_mix_0)
  next
    case 4
    then have "Suc (Suc (Suc 0)) \<le> length data" using assms(2) by simp
    then obtain a b c xs where "data = a # b # c # xs" unfolding Suc_le_length_iff by blast
    with 4 show ?thesis using that [of "get_le32_split a b c 0x5a"]
      by (simp add: mic_last_def michael_pad_def rep michael_mix_0)
  qed
qed

lemma mic_split_ok_le: "mic_split_ok n ks \<Longrightarrow> n \<le> sum_list ks"
proof (induction n ks rule: mic_split_ok.induct)
  case (3 n m k ks)
  have m: "4 * (m div 4) + m mod 4 = m" by simp
  show ?case
  proof (cases "n \<le> m")
    case False
    show ?thesis
    proof (cases "m mod 4 = 0")
      case True
      then show ?thesis using 3 False by auto
    next
      case nz: False
      then have "4 - m mod 4 \<le> k" "n - 4 * (m div 4) - 4 \<le> (k - (4 - m mod 4)) + sum_list ks"
        using 3 False by auto
      then have "n \<le> 4 * (m div 4) + m mod 4 + k + sum_list ks" by linarith
      then show ?thesis unfolding m by simp
    qed
  qed simp
qed auto

lemma mic_end_rep:
  assumes "mic_rest data' (unat dl') xs n lr lr'" and "n \<le> length xs"
  obtains w where "mic_last data' dl' = Some w"
    and "michael_words (take n xs @ michael_pad n) lr = michael_block (michael_mix w lr')"
proof -
  let ?q = "n div 4"
  have r: "unat dl' = n mod 4" "unat dl' \<le> length data'" "lr' = michael_words (take (4 * ?q) xs) lr"
    "take (unat dl') data' = take (unat dl') (drop (4 * ?q) xs)"
    using assms(1) unfolding mic_rest_def by blast+
  then obtain w where w: "mic_last data' dl' = Some w"
    "\<And>lr. michael_words (take (unat dl') data' @ michael_pad (unat dl')) lr
      = michael_block (michael_mix w lr)"
    using mic_last_rep [of dl' data'] by auto
  have len: "length (take (4 * ?q) xs) = 4 * ?q" using assms(2) by (simp add: min_absorb2)
  have "take n xs = take (4 * ?q) xs @ take (n mod 4) (drop (4 * ?q) xs)"
    by (metis add.commute mult_div_mod_eq take_add)
  moreover have "michael_pad n = michael_pad (n mod 4)" using michael_pad_add [of ?q "n mod 4"] by simp
  ultimately have "michael_words (take n xs @ michael_pad n) lr
      = michael_words (take (unat dl') data' @ michael_pad (unat dl')) lr'"
    using r by (simp add: michael_words_append [OF len])
  then show ?thesis using that w by simp
qed

text \<open>The pseudo header is four words.\<close>

lemma michdr_length:
  assumes "ol_rx_defrag_michdr wh = Some hdr"
  shows "length hdr = 16"
proof -
  have "wh ! 1 AND 3 = 0 \<or> wh ! 1 AND 3 = 1 \<or> wh ! 1 AND 3 = 2 \<or> wh ! 1 AND 3 = 3"
  proof -
    have "unat (wh ! 1 AND 3) = unat (wh ! 1) mod 2 ^ 2" by (rule unat_and_mask) simp
    then have "unat (wh ! 1 AND 3) < 4" by simp
    then consider "unat (wh ! 1 AND 3) = unat (0 :: u8)" | "unat (wh ! 1 AND 3) = unat (1 :: u8)"
      | "unat (wh ! 1 AND 3) = unat (2 :: u8)" | "unat (wh ! 1 AND 3) = unat (3 :: u8)"
      by (simp only: unsigned_0 unsigned_1 unsigned_numeral) (simp; linarith)
    then show ?thesis unfolding unat_inject by blast
  qed
  then show ?thesis
    using assms unfolding ol_rx_defrag_michdr_def Let_def
    by (auto split: if_splits)
qed

lemma michdr_words:
  assumes "ol_rx_defrag_michdr wh = Some hdr"
  obtains h where "length hdr = 16" and "get_le32 hdr = Some (h 0)" and "get_le32 (drop 4 hdr) = Some (h 1)"
    and "get_le32 (drop 8 hdr) = Some (h 2)" and "get_le32 (drop 12 hdr) = Some (h (3 :: nat))"
    and "\<And>xs lr. michael_words (hdr @ xs) lr = michael_words xs
      (michael_mix (h 3) (michael_mix (h 2) (michael_mix (h 1) (michael_mix (h 0) lr))))"
proof -
  have len: "length hdr = 16" by (rule michdr_length [OF assms])
  obtain a0 a1 a2 a3 x1 where 1: "hdr = a0 # a1 # a2 # a3 # x1"
    using len by (cases hdr rule: list4_cases) auto
  obtain b0 b1 b2 b3 x2 where 2: "x1 = b0 # b1 # b2 # b3 # x2"
    using len 1 by (cases x1 rule: list4_cases) auto
  obtain c0 c1 c2 c3 x3 where 3: "x2 = c0 # c1 # c2 # c3 # x3"
    using len 1 2 by (cases x2 rule: list4_cases) auto
  obtain d0 d1 d2 d3 where 4: "x3 = [d0, d1, d2, d3]"
    using len 1 2 3 by (cases x3 rule: list4_cases) auto
  show ?thesis
    by (rule that [OF len, of "\<lambda>i. [get_le32_split a0 a1 a2 a3, get_le32_split b0 b1 b2 b3,
          get_le32_split c0 c1 c2 c3, get_le32_split d0 d1 d2 d3] ! i"])
      (simp_all add: 1 2 3 4 get_le32_def)
qed

text \<open>A word and its four bytes.\<close>

lemma byte_bits [simp]: "bit (0xff :: u32) n \<longleftrightarrow> n < 8" "bit (0xff :: u8) n \<longleftrightarrow> n < 8"
proof -
  have "(0xff :: u32) = mask 8" "(0xff :: u8) = mask 8" by (simp_all add: mask_eq_exp_minus_1)
  then show "bit (0xff :: u32) n \<longleftrightarrow> n < 8" "bit (0xff :: u8) n \<longleftrightarrow> n < 8"
    by (simp_all only: bit_mask_iff possible_bit_word) auto
qed

lemma le32_fields:
  fixes v :: u32
  shows "((ucast (ucast (v AND 0xff) :: u8) OR push_bit 8 (ucast (ucast (drop_bit 8 v AND 0xff) :: u8)))
    OR push_bit 16 (ucast (ucast (drop_bit 16 v AND 0xff) :: u8)))
    OR push_bit 24 (ucast (ucast (drop_bit 24 v AND 0xff) :: u8)) = v" (is "?w = v")
proof (rule bit_word_eqI)
  fix n assume "n < LENGTH(32)"
  then have "n < 8 \<or> 8 \<le> n \<and> n < 16 \<or> 16 \<le> n \<and> n < 24 \<or> 24 \<le> n \<and> n < 32" by auto
  then show "bit ?w n = bit v n"
    by (elim disjE; simp only: bit_or_iff bit_and_iff bit_push_bit_iff bit_drop_bit_eq comp_def
        bit_unsigned_iff byte_bits possible_bit_word len_num1 len_num0 len_bit0 len_bit1; auto)
qed
lemma get_le32_bytes: "get_le32 (a # b # c # d # rest) = Some (get_le32_split a b c d)"
  by (simp add: get_le32_def)

lemma defrag_mic_rep:
  assumes "lseg (nb_next s) (Some wbuf) (wbuf # ws) None"
    and "\<forall>b \<in> set (wbuf # ws). length (nb_data s b) < 2 ^ 32"
    and "ol_rx_defrag_michdr (nb_data s wbuf) = Some hdr" and "8 \<le> length key"
    and "unat off \<le> length (nb_data s wbuf)"
    and "mic_split_ok (unat data_len)
           ((length (nb_data s wbuf) - unat off) # map (\<lambda>b. length (nb_data s b)) ws)"
  shows "ol_rx_defrag_mic key wbuf off data_len s = Some (OL_RX_DEFRAG_OK (michael_ref key hdr
    (take (unat data_len) (drop (unat off) (nb_data s wbuf) @ concat (map (nb_data s) ws)))))"
proof -
  let ?xs = "drop (unat off) (nb_data s wbuf) @ concat (map (nb_data s) ws)" and ?n = "unat data_len"
  have le: "?n \<le> length ?xs"
    using mic_split_ok_le [OF assms(6)] by (simp add: length_concat comp_def)
  obtain h where hdr: "length hdr = 16" and h: "get_le32 hdr = Some (h 0)" "get_le32 (drop 4 hdr) = Some (h 1)"
    "get_le32 (drop 8 hdr) = Some (h 2)" "get_le32 (drop 12 hdr) = Some (h (3 :: nat))"
    and mix: "\<And>xs lr. michael_words (hdr @ xs) lr = michael_words xs
      (michael_mix (h 3) (michael_mix (h 2) (michael_mix (h 1) (michael_mix (h 0) lr))))"
    using michdr_words [OF assms(3)] by blast
  define l where "l = get_le32_split (key ! 0) (key ! 1) (key ! 2) (key ! 3)"
  define r where "r = get_le32_split (key ! 4) (key ! 5) (key ! 6) (key ! 7)"
  have key: "get_le32 key = Some l" "get_le32 (drop 4 key) = Some r"
    using assms(4) by (simp_all add: get_le32_def l_def r_def)
  define lr where "lr = michael_mix (h 3) (michael_mix (h 2) (michael_mix (h 1) (michael_mix (h 0) (l, r))))"
  have space: "unat (of_nat (length (nb_data s wbuf)) - ucast off :: u32) = length (drop (unat off) (nb_data s wbuf))"
  proof -
    have "unat (of_nat (length (nb_data s wbuf)) :: u32) = length (nb_data s wbuf)"
      using assms(2) by (simp add: unsigned_of_nat take_bit_nat_eq_self)
    then show ?thesis using assms(5) by (simp add: unat_sub word_le_nat_alt)
  qed
  have "lseg (nb_next s) (nb_next s wbuf) ws None" "\<forall>b \<in> set ws. length (nb_data s b) < 2 ^ 32"
    "mic_split_ok ?n (length (drop (unat off) (nb_data s wbuf)) # map (\<lambda>b. length (nb_data s b)) ws)"
    using assms by simp_all
  then obtain data' dl' lr' where loop: "mic_loop s wbuf (drop (unat off) (nb_data s wbuf))
      (of_nat (length (nb_data s wbuf)) - ucast off) data_len lr = Some (OL_RX_DEFRAG_OK (data', dl', lr'))"
    and rest: "mic_rest data' (unat dl') ?xs ?n lr lr'"
    using mic_goodE [OF mic_loop_rep space] by blast
  obtain w where w: "mic_last data' dl' = Some w"
    "michael_words (take ?n ?xs @ michael_pad ?n) lr = michael_block (michael_mix w lr')"
    by (rule mic_end_rep [OF rest le])
  have "michael_ref key hdr (take ?n ?xs)
      = (let (l', r') = michael_block (michael_mix w lr') in put_le32 l' @ put_le32 r')"
    using le by (simp only: michael_ref_def mix l_def [symmetric] r_def [symmetric] lr_def [symmetric]
        length_take min_absorb2 w(2) Let_def split_def append_assoc)
  then show ?thesis
    unfolding ol_rx_defrag_mic_def using loop w(1)
    by (simp add: assms(3) key h lr_def Let_def split_def)
qed

section \<open>Properties\<close>


text \<open>Two buffers of 5 and 6 bytes of data behind the header: the second word straddles them.\<close>

definition mic_ex :: rx_state where
  "mic_ex = rx_quiet\<lparr>nb_next := (\<lambda>_. None)(0 := Some 1),
     nb_data := (\<lambda>_. [])(0 := replicate 24 0 @ [1, 2, 3, 4, 5], 1 := [6, 7, 8, 9, 10, 11])\<rparr>"


text \<open>
  The little-endian store of a word followed by the little-endian load is the word.
\<close>

theorem le32_roundtrip: "get_le32 (put_le32 v @ rest) = Some v"
  unfolding put_le32_def append.simps get_le32_bytes get_le32_split_def le32_fields by (rule refl)

end
