(* ===== verification/Rx_Frag_Data.thy ===== *)
theory Rx_Frag_Data
  imports Rx_Michael
begin

text \<open>
  The byte-level steps of the reassembly of fragments (\<open>ol_rx_defrag.c\<close>): removing the cipher
  headers and trailers of a fragment, the size of the frame header, and the conversions of the
  reassembled frame.  The data of a buffer is the list of its bytes; an access outside of it is
  \<open>None\<close>.  The socket buffer calls of the kernel are parameters (\<open>skb_ops\<close>), and
  \<open>skb_ok\<close> is what their documentation promises.
\<close>

section \<open>Socket buffers\<close>

text \<open>
  \<open>skb_pull\<close> returns null (\<open>None\<close>) and leaves the data alone when it is too short;
  \<open>skb_trim\<close> cuts the data to a length; \<open>expand_ok\<close> says whether the first buffer has or
  gets the room for the data of the second.
\<close>

record skb_ops =
  skb_pull :: "nat \<Rightarrow> u8 list \<Rightarrow> u8 list option"
  skb_trim :: "nat \<Rightarrow> u8 list \<Rightarrow> u8 list"
  skb_copy_bits :: "nat \<Rightarrow> nat \<Rightarrow> u8 list \<Rightarrow> u8 list option"
  expand_ok :: "nat \<Rightarrow> nat \<Rightarrow> bool"

definition skb_ok :: "skb_ops \<Rightarrow> bool" where
  "skb_ok e \<longleftrightarrow>
     (\<forall>n d. skb_pull e n d = (if length d < n then None else Some (drop n d))) \<and>
     (\<forall>n d. skb_trim e n d = take n d) \<and>
     (\<forall>i n d. skb_copy_bits e i n d = (if length d < i + n then None else Some (take n (drop i d))))"

definition adf_nbuf_pull_head :: "skb_ops \<Rightarrow> nat \<Rightarrow> u8 list \<Rightarrow> u8 list" where
  "adf_nbuf_pull_head e n d = (case skb_pull e n d of None \<Rightarrow> d | Some d' \<Rightarrow> d')"

text \<open>The new length is computed in 32 bits.\<close>

definition adf_nbuf_trim_tail :: "skb_ops \<Rightarrow> u32 \<Rightarrow> u8 list \<Rightarrow> u8 list" where
  "adf_nbuf_trim_tail e n d = skb_trim e (unat (of_nat (length d) - n :: u32)) d"

text \<open>A move of \<open>n\<close> bytes inside the data, and an update of one byte.\<close>

definition buf_move :: "nat \<Rightarrow> nat \<Rightarrow> nat \<Rightarrow> u8 list \<Rightarrow> u8 list option" where
  "buf_move dst src n d =
     (if dst + n \<le> length d \<and> src + n \<le> length d
      then Some (take dst d @ take n (drop src d) @ drop (dst + n) d) else None)"

definition buf_upd :: "nat \<Rightarrow> (u8 \<Rightarrow> u8) \<Rightarrow> u8 list \<Rightarrow> u8 list option" where
  "buf_upd i f d = Option.bind (load_at d i) (\<lambda>x. store_at d i (f x))"

section \<open>Frame headers\<close>

definition IEEE80211_FC0_TYPE_MASK :: u8 where "IEEE80211_FC0_TYPE_MASK = 0x0c"
definition IEEE80211_FC0_TYPE_DATA :: u8 where "IEEE80211_FC0_TYPE_DATA = 0x08"
definition IEEE80211_FC1_DIR_MASK :: u8 where "IEEE80211_FC1_DIR_MASK = 0x03"
definition IEEE80211_FC1_DIR_DSTODS :: u8 where "IEEE80211_FC1_DIR_DSTODS = 0x03"
definition IEEE80211_FC1_MORE_FRAG :: u8 where "IEEE80211_FC1_MORE_FRAG = 0x04"
definition IEEE80211_FC1_ORDER :: u8 where "IEEE80211_FC1_ORDER = 0x80"
definition IEEE80211_SEQ_FRAG_MASK :: u16 where "IEEE80211_SEQ_FRAG_MASK = 0x000f"
definition IEEE80211_WEP_EXTIV :: u8 where "IEEE80211_WEP_EXTIV = 0x20"

text \<open>The fixed header: two bytes of frame control, duration, three addresses, sequence control.\<close>

definition ieee80211_frame_size :: nat where "ieee80211_frame_size = 24"

definition DEFRAG_IEEE80211_QOS_HAS_SEQ :: "u8 list \<Rightarrow> bool" where
  "DEFRAG_IEEE80211_QOS_HAS_SEQ wh \<longleftrightarrow>
     wh ! 0 AND (IEEE80211_FC0_TYPE_MASK OR IEEE80211_FC0_SUBTYPE_QOS) =
     IEEE80211_FC0_TYPE_DATA OR IEEE80211_FC0_SUBTYPE_QOS"

definition ol_rx_frag_hdrsize :: "u8 list \<Rightarrow> u16 option" where
  "ol_rx_frag_hdrsize wh =
     (if length wh < 2 then None
      else Some (24 + (if wh ! 1 AND IEEE80211_FC1_DIR_MASK = IEEE80211_FC1_DIR_DSTODS then 6 else 0)
                 + (if DEFRAG_IEEE80211_QOS_HAS_SEQ wh
                    then 2 + (if wh ! 1 AND IEEE80211_FC1_ORDER \<noteq> 0 then 4 else 0) else 0)))"

section \<open>Ciphers\<close>

record ol_rx_defrag_cipher =
  ic_header :: u16
  ic_trailer :: u8
  ic_miclen :: u8

definition f_ccmp :: ol_rx_defrag_cipher where
  "f_ccmp = \<lparr>ic_header = 3 + 1 + 4, ic_trailer = 8, ic_miclen = 0\<rparr>"

definition f_tkip :: ol_rx_defrag_cipher where
  "f_tkip = \<lparr>ic_header = 3 + 1 + 4, ic_trailer = 4, ic_miclen = 8\<rparr>"

definition f_wep :: ol_rx_defrag_cipher where
  "f_wep = \<lparr>ic_header = 3 + 1, ic_trailer = 4, ic_miclen = 0\<rparr>"

text \<open>The extended-IV bit behind the header.\<close>

definition has_extiv :: "u16 \<Rightarrow> u8 list \<Rightarrow> bool option" where
  "has_extiv hdrlen d =
     map_option (\<lambda>x. x AND IEEE80211_WEP_EXTIV \<noteq> 0) (load_at d (unat hdrlen + 3))"

text \<open>Moving the header over the cipher header and dropping the freed bytes.\<close>

definition move_hdr :: "skb_ops \<Rightarrow> ol_rx_defrag_cipher \<Rightarrow> u16 \<Rightarrow> u8 list \<Rightarrow> u8 list option" where
  "move_hdr e c hdrlen d =
     map_option (adf_nbuf_pull_head e (unat (ic_header c)))
       (buf_move (unat (ic_header c)) 0 (unat hdrlen) d)"

definition ol_rx_frag_tkip_decap :: "skb_ops \<Rightarrow> u16 \<Rightarrow> u8 list \<Rightarrow> u8 list defrag_status option" where
  "ol_rx_frag_tkip_decap e hdrlen d =
     (case has_extiv hdrlen d of
        None \<Rightarrow> None
      | Some False \<Rightarrow> Some OL_RX_DEFRAG_ERR
      | Some True \<Rightarrow>
          map_option (\<lambda>d'. OL_RX_DEFRAG_OK (adf_nbuf_trim_tail e (ucast (ic_trailer f_tkip)) d'))
            (move_hdr e f_tkip hdrlen d))"

definition ol_rx_frag_wep_decap :: "skb_ops \<Rightarrow> u16 \<Rightarrow> u8 list \<Rightarrow> u8 list defrag_status option" where
  "ol_rx_frag_wep_decap e hdrlen d =
     map_option (\<lambda>d'. OL_RX_DEFRAG_OK (adf_nbuf_trim_tail e (ucast (ic_trailer f_wep)) d'))
       (move_hdr e f_wep hdrlen d)"

definition ol_rx_frag_ccmp_decap :: "skb_ops \<Rightarrow> u16 \<Rightarrow> u8 list \<Rightarrow> u8 list defrag_status option" where
  "ol_rx_frag_ccmp_decap e hdrlen d =
     (case has_extiv hdrlen d of
        None \<Rightarrow> None
      | Some False \<Rightarrow> Some OL_RX_DEFRAG_ERR
      | Some True \<Rightarrow> map_option OL_RX_DEFRAG_OK (move_hdr e f_ccmp hdrlen d))"

definition ol_rx_frag_ccmp_demic :: "skb_ops \<Rightarrow> u16 \<Rightarrow> u8 list \<Rightarrow> u8 list defrag_status option" where
  "ol_rx_frag_ccmp_demic e hdrlen d =
     (case has_extiv hdrlen d of
        None \<Rightarrow> None
      | Some False \<Rightarrow> Some OL_RX_DEFRAG_ERR
      | Some True \<Rightarrow> Some (OL_RX_DEFRAG_OK (adf_nbuf_trim_tail e (ucast (ic_trailer f_ccmp)) d)))"

text \<open>
  The check of the Michael code at the end of the reassembled frame.  A frame too short for its code
  is \<open>None\<close>: the comparison would read an array the copy has not filled.
\<close>

definition ol_rx_frag_tkip_demic ::
  "skb_ops \<Rightarrow> u8 list \<Rightarrow> nbuf \<Rightarrow> u16 \<Rightarrow> rx_state \<Rightarrow> u8 list defrag_status option" where
  "ol_rx_frag_tkip_demic e key msdu hdrlen s =
     (let d = nb_data s msdu; pktlen = (of_nat (length d) :: u32)
      in case ol_rx_defrag_mic key msdu hdrlen (ucast (pktlen - (ucast hdrlen + ucast (ic_miclen f_tkip)))) s of
           None \<Rightarrow> None
         | Some OL_RX_DEFRAG_ERR \<Rightarrow> Some OL_RX_DEFRAG_ERR
         | Some (OL_RX_DEFRAG_OK mic) \<Rightarrow>
             (case skb_copy_bits e (unat (pktlen - ucast (ic_miclen f_tkip))) (unat (ic_miclen f_tkip)) d of
                None \<Rightarrow> None
              | Some mic0 \<Rightarrow>
                  (if take (unat (ic_miclen f_tkip)) mic \<noteq> mic0 then Some OL_RX_DEFRAG_ERR
                   else Some (OL_RX_DEFRAG_OK (adf_nbuf_trim_tail e (ucast (ic_miclen f_tkip)) d)))))"

section \<open>Conversions of the reassembled frame\<close>

text \<open>
  From the native format to 802.3: an Ethernet header over the last 14 bytes of the 32 bytes of frame
  and LLC header.  No addresses are written for a frame between access points.
\<close>

definition ol_rx_defrag_nwifi_to_8023 :: "skb_ops \<Rightarrow> u8 list \<Rightarrow> u8 list option" where
  "ol_rx_defrag_nwifi_to_8023 e d =
     (if length d < 24 + 8 then None
      else (let wh = take 24 d; llchdr = take 8 (drop 24 d);
                addr1 = take 6 (drop 4 wh); addr2 = take 6 (drop 10 wh); addr3 = take 6 (drop 16 wh);
                d1 = adf_nbuf_pull_head e (24 + 8 - 14) d;
                dir = wh ! 1 AND IEEE80211_FC1_DIR_MASK;
                addrs = (if dir = 0 then addr1 @ addr2 else if dir = 1 then addr3 @ addr2
                         else if dir = 2 then addr1 @ addr3 else take 12 d1)
            in if length d1 < 14 then None
               else Some (addrs @ drop 6 llchdr @ drop 14 d1)))"

definition ol_rx_defrag_qos_decap :: "skb_ops \<Rightarrow> u16 \<Rightarrow> u8 list \<Rightarrow> u8 list option" where
  "ol_rx_defrag_qos_decap e hdrlen wh =
     (if length wh < 2 then None
      else if DEFRAG_IEEE80211_QOS_HAS_SEQ wh
      then (let qoslen = (2 + (if wh ! 1 AND IEEE80211_FC1_ORDER \<noteq> 0 then 4 else 0) :: u16);
                hdrlen1 = hdrlen - qoslen
            in case buf_move (unat qoslen) 0 (unat hdrlen1) wh of
                 None \<Rightarrow> None
               | Some d1 \<Rightarrow>
                   (case skb_pull e (unat qoslen) d1 of
                      None \<Rightarrow> Some d1
                    | Some d2 \<Rightarrow> buf_upd 0 (\<lambda>x. x AND NOT IEEE80211_FC0_SUBTYPE_QOS) d2))
      else Some wh)"

text \<open>The kernel's calls as documented, for the concrete examples.\<close>

definition linux_skb :: skb_ops where
  "linux_skb = \<lparr>skb_pull = (\<lambda>n d. if length d < n then None else Some (drop n d)),
     skb_trim = take, skb_copy_bits = (\<lambda>i n d. if length d < i + n then None else Some (take n (drop i d))),
     expand_ok = (\<lambda>_ _. True)\<rparr>"

lemma linux_skb_ok [simp]: "skb_ok linux_skb"
  by (simp add: skb_ok_def linux_skb_def)

section \<open>Lemmas\<close>

lemmas cipher_defs = f_ccmp_def f_tkip_def f_wep_def

lemma pull_head_ok: "skb_ok e \<Longrightarrow> n \<le> length d \<Longrightarrow> adf_nbuf_pull_head e n d = drop n d"
  by (simp add: adf_nbuf_pull_head_def skb_ok_def)

lemma pull_head_short: "skb_ok e \<Longrightarrow> length d < n \<Longrightarrow> adf_nbuf_pull_head e n d = d"
  by (simp add: adf_nbuf_pull_head_def skb_ok_def)

lemma trim_tail_ok:
  assumes "skb_ok e" and "length d < 2 ^ 32" and "unat n \<le> length d"
  shows "adf_nbuf_trim_tail e n d = take (length d - unat n) d"
proof -
  have l: "unat (of_nat (length d) :: u32) = length d"
    using assms(2) by (simp add: unsigned_of_nat take_bit_nat_eq_self)
  then have "n \<le> of_nat (length d)" using assms(3) by (simp add: word_le_nat_alt)
  then have "unat (of_nat (length d) - n :: u32) = length d - unat n" by (simp add: unat_sub l)
  then show ?thesis using assms(1) by (simp add: adf_nbuf_trim_tail_def skb_ok_def)
qed

lemma trim_tail_append:
  assumes "skb_ok e" and "length (d @ t) < 2 ^ 32" and "length t = unat n"
  shows "adf_nbuf_trim_tail e n (d @ t) = d"
  using trim_tail_ok [OF assms(1,2), of n] assms(3) by simp

lemma move_hdr_ok:
  assumes "skb_ok e" and "length hdr = unat hdrlen" and "length iv = unat (ic_header c)"
  shows "move_hdr e c hdrlen (hdr @ iv @ rest) = Some (hdr @ rest)"
  using assms by (simp add: move_hdr_def buf_move_def pull_head_ok)

lemma has_extiv_ok:
  assumes "length hdr = unat hdrlen" and "3 < length iv"
  shows "has_extiv hdrlen (hdr @ iv @ rest) = Some (iv ! 3 AND IEEE80211_WEP_EXTIV \<noteq> 0)"
  using assms by (simp add: has_extiv_def load_at_def nth_append)

lemma tkip_decap_ok:
  assumes "skb_ok e" and "length hdr = unat hdrlen" and "length iv = 8" and "length icv = 4"
    and "iv ! 3 AND IEEE80211_WEP_EXTIV \<noteq> 0" and "length (hdr @ iv @ rest @ icv) < 2 ^ 32"
  shows "ol_rx_frag_tkip_decap e hdrlen (hdr @ iv @ rest @ icv) = Some (OL_RX_DEFRAG_OK (hdr @ rest))"
  using assms move_hdr_ok [of e hdr hdrlen iv f_tkip "rest @ icv"]
    has_extiv_ok [of hdr hdrlen iv "rest @ icv"] trim_tail_append [of e "hdr @ rest" icv 4]
  by (simp add: ol_rx_frag_tkip_decap_def cipher_defs)

lemma wep_decap_ok:
  assumes "skb_ok e" and "length hdr = unat hdrlen" and "length iv = 4" and "length icv = 4"
    and "length (hdr @ iv @ rest @ icv) < 2 ^ 32"
  shows "ol_rx_frag_wep_decap e hdrlen (hdr @ iv @ rest @ icv) = Some (OL_RX_DEFRAG_OK (hdr @ rest))"
  using assms move_hdr_ok [of e hdr hdrlen iv f_wep "rest @ icv"]
    trim_tail_append [of e "hdr @ rest" icv 4]
  by (simp add: ol_rx_frag_wep_decap_def cipher_defs)

lemma ccmp_demic_ok:
  assumes "skb_ok e" and "length hdr = unat hdrlen" and "length iv = 8" and "length mic = 8"
    and "iv ! 3 AND IEEE80211_WEP_EXTIV \<noteq> 0" and "length (hdr @ iv @ rest @ mic) < 2 ^ 32"
  shows "ol_rx_frag_ccmp_demic e hdrlen (hdr @ iv @ rest @ mic) = Some (OL_RX_DEFRAG_OK (hdr @ iv @ rest))"
  using assms has_extiv_ok [of hdr hdrlen iv "rest @ mic"] trim_tail_append [of e "hdr @ iv @ rest" mic 8]
  by (simp add: ol_rx_frag_ccmp_demic_def cipher_defs)

lemma ccmp_decap_ok:
  assumes "skb_ok e" and "length hdr = unat hdrlen" and "length iv = 8"
    and "iv ! 3 AND IEEE80211_WEP_EXTIV \<noteq> 0"
  shows "ol_rx_frag_ccmp_decap e hdrlen (hdr @ iv @ rest) = Some (OL_RX_DEFRAG_OK (hdr @ rest))"
  using assms move_hdr_ok [of e hdr hdrlen iv f_ccmp rest] has_extiv_ok [of hdr hdrlen iv rest]
  by (simp add: ol_rx_frag_ccmp_decap_def cipher_defs)

lemma nwifi_to_8023_rep:
  assumes "skb_ok e"
    and "frame = [fc0, fc1, dur0, dur1] @ a1 @ a2 @ a3 @ [seq0, seq1] @ llc @ etype @ payload"
    and "length a1 = 6" and "length a2 = 6" and "length a3 = 6"
    and "length llc = 6" and "length etype = 2"
    and "fc1 AND 3 = dir" and "dir = 0 \<or> dir = 1 \<or> dir = 2"
  shows "ol_rx_defrag_nwifi_to_8023 e frame =
    Some ((if dir = 1 then a3 else a1) @ (if dir = 2 then a3 else a2) @ etype @ payload)"
proof -
  have len: "length frame = 32 + length payload" using assms by simp
  have pull: "adf_nbuf_pull_head e 18 frame = drop 18 frame"
    using len by (simp add: pull_head_ok [OF assms(1)])
  have "take 6 (drop 4 (take 24 frame)) = a1" "take 6 (drop 10 (take 24 frame)) = a2"
    "take 6 (drop 16 (take 24 frame)) = a3" "drop 6 (take 8 (drop 24 frame)) = etype"
    "drop 14 (drop 18 frame) = payload" "take 24 frame ! 1 = fc1"
    using assms(3-7) by (simp_all add: assms(2) take_Cons' drop_Cons')
  then show ?thesis
    using len pull assms(8,9)
    by (auto simp: ol_rx_defrag_nwifi_to_8023_def Let_def IEEE80211_FC1_DIR_MASK_def)
qed

lemma qos_decap_rep:
  assumes "skb_ok e" and "frame = [fc0, fc1] @ h @ qos @ payload"
    and "length qos = (if fc1 AND 0x80 \<noteq> 0 then 6 else 2)"
    and "unat hdrlen = 2 + length h + length qos"
  shows "ol_rx_defrag_qos_decap e hdrlen frame =
    Some (if fc0 AND 0x8c = 0x88 then [fc0 AND NOT 0x80, fc1] @ h @ payload else frame)"
proof (cases "fc0 AND 0x8c = 0x88")
  case False
  then show ?thesis
    by (simp add: ol_rx_defrag_qos_decap_def DEFRAG_IEEE80211_QOS_HAS_SEQ_def assms(2)
        IEEE80211_FC0_TYPE_MASK_def IEEE80211_FC0_SUBTYPE_QOS_def IEEE80211_FC0_TYPE_DATA_def)
next
  case True
  define q where "q = (2 + (if fc1 AND IEEE80211_FC1_ORDER \<noteq> 0 then 4 else 0) :: u16)"
  have q: "unat q = length qos" using assms(3) by (simp add: q_def IEEE80211_FC1_ORDER_def)
  have "q \<le> hdrlen" using assms(4) q by (simp add: word_le_nat_alt)
  then have h1: "unat (hdrlen - q) = 2 + length h" using assms(4) q by (simp add: unat_sub)
  have "buf_move (unat q) 0 (unat (hdrlen - q)) frame
      = Some (take (length qos) frame @ [fc0, fc1] @ h @ payload)"
    unfolding h1 q by (simp add: buf_move_def assms(2) add.commute [of "length qos"] flip: append_Cons)
  moreover have "skb_pull e (unat q) (take (length qos) frame @ [fc0, fc1] @ h @ payload)
      = Some ([fc0, fc1] @ h @ payload)"
    using assms(1) unfolding q by (simp add: skb_ok_def assms(2))
  moreover have "DEFRAG_IEEE80211_QOS_HAS_SEQ frame"
    using True by (simp add: DEFRAG_IEEE80211_QOS_HAS_SEQ_def assms(2) IEEE80211_FC0_TYPE_MASK_def
        IEEE80211_FC0_SUBTYPE_QOS_def IEEE80211_FC0_TYPE_DATA_def)
  moreover have "frame ! 1 = fc1" "\<not> length frame < 2" by (simp_all add: assms(2))
  ultimately show ?thesis
    using True by (simp add: ol_rx_defrag_qos_decap_def Let_def q_def [symmetric] buf_upd_def
        IEEE80211_FC0_SUBTYPE_QOS_def)
qed

section \<open>Properties\<close>

text \<open>
  The conversion to 802.3 of a frame that is not between two access points: the Ethernet
  header is the destination and the source the direction bits select and the type of the LLC header,
  and the payload follows unchanged.
\<close>

theorem nwifi_to_8023_header:
  assumes "skb_ok e"
    and "frame = [fc0, fc1, dur0, dur1] @ a1 @ a2 @ a3 @ [seq0, seq1] @ llc @ etype @ payload"
    and "length a1 = 6" and "length a2 = 6" and "length a3 = 6"
    and "length llc = 6" and "length etype = 2"
    and "fc1 AND 3 = dir" and "dir = 0 \<or> dir = 1 \<or> dir = 2"
  shows "ol_rx_defrag_nwifi_to_8023 e frame =
    Some ((if dir = 1 then a3 else a1) @ (if dir = 2 then a3 else a2) @ etype @ payload)"
  by (rule nwifi_to_8023_rep [OF assms])

theorem nwifi_to_8023_header_witness:
  "ol_rx_defrag_nwifi_to_8023 linux_skb ([8, 2, 0, 0] @ replicate 6 1 @ replicate 6 2 @ replicate 6 3
      @ [0, 0] @ [0xaa, 0xaa, 3, 0, 0, 0] @ [8, 0] @ [42]) =
    Some (replicate 6 1 @ replicate 6 3 @ [8, 0] @ [42])"
  by (subst nwifi_to_8023_header [OF linux_skb_ok refl, where dir = 2]) simp_all

text \<open>
  Removing the cipher of a fragment.  With the extended-IV bit set, a fragment that is header,
  cipher header, payload and trailer becomes header and payload: for TKIP an 8-byte header and a
  4-byte checksum go, for CCMP (code first, then header) 8 and 8 bytes, for WEP 4 and 4 bytes; with
  the bit clear TKIP and CCMP fragments are refused.
\<close>

theorem frag_decap_payload:
  assumes "skb_ok e" and "length hdr = unat hdrlen"
    and "length (hdr @ iv @ payload @ trailer) < 2 ^ 32" and "4 \<le> length iv"
    and "d = hdr @ iv @ payload @ trailer" and "ext \<longleftrightarrow> iv ! 3 AND 0x20 \<noteq> 0"
  shows "(length iv = 8 \<and> length trailer = 4 \<longrightarrow> ol_rx_frag_tkip_decap e hdrlen d =
      Some (if ext then OL_RX_DEFRAG_OK (hdr @ payload) else OL_RX_DEFRAG_ERR)) \<and>
    (length iv = 8 \<and> length trailer = 8 \<longrightarrow> ol_rx_frag_ccmp_demic e hdrlen d =
      Some (if ext then OL_RX_DEFRAG_OK (hdr @ iv @ payload) else OL_RX_DEFRAG_ERR) \<and>
      ol_rx_frag_ccmp_decap e hdrlen (hdr @ iv @ payload) =
      Some (if ext then OL_RX_DEFRAG_OK (hdr @ payload) else OL_RX_DEFRAG_ERR)) \<and>
    (length iv = 4 \<and> length trailer = 4 \<longrightarrow> ol_rx_frag_wep_decap e hdrlen d =
      Some (OL_RX_DEFRAG_OK (hdr @ payload)))"
proof -
  have x: "ext \<longleftrightarrow> iv ! 3 AND IEEE80211_WEP_EXTIV \<noteq> 0" using assms(6) by (simp add: IEEE80211_WEP_EXTIV_def)
  have h: "has_extiv hdrlen (hdr @ iv @ r) = Some ext" for r
    using has_extiv_ok [OF assms(2), of iv r] assms(4) x by simp
  show ?thesis
  proof (cases ext)
    case True
    then show ?thesis
      using assms(1-3) x
      by (simp add: assms(5) tkip_decap_ok wep_decap_ok ccmp_demic_ok ccmp_decap_ok)
  next
    case False
    then show ?thesis
      using assms(1-3) h
      by (simp add: assms(5) wep_decap_ok ol_rx_frag_tkip_decap_def ol_rx_frag_ccmp_demic_def
          ol_rx_frag_ccmp_decap_def)
  qed
qed

theorem frag_decap_payload_witness:
  "ol_rx_frag_tkip_decap linux_skb 2 ([8, 4] @ [0, 0, 0, 0x20, 0, 0, 0, 0] @ [42, 43] @ [1, 2, 3, 4]) =
     Some (OL_RX_DEFRAG_OK ([8, 4] @ [42, 43]))"
  using frag_decap_payload [OF linux_skb_ok, of "[8, 4]" 2 "[0, 0, 0, 0x20, 0, 0, 0, 0]" "[42, 43]"
      "[1, 2, 3, 4]" _ True, OF _ _ _ refl] by simp

text \<open>
  Removing the QoS field of the reassembled frame: the last two bytes of the header (six in a
  frame with the order bit) go, the QoS bit of the frame control is cleared, and nothing else
  changes; a frame without a QoS field stays as it is.
\<close>

theorem qos_decap_header:
  assumes "skb_ok e" and "frame = [fc0, fc1] @ h @ qos @ payload"
    and "length qos = (if fc1 AND 0x80 \<noteq> 0 then 6 else 2)"
    and "unat hdrlen = 2 + length h + length qos"
  shows "ol_rx_defrag_qos_decap e hdrlen frame =
    Some (if fc0 AND 0x8c = 0x88 then [fc0 AND NOT 0x80, fc1] @ h @ payload else frame)"
  by (rule qos_decap_rep [OF assms])

theorem qos_decap_header_witness:
  "ol_rx_defrag_qos_decap linux_skb 26 ([0x88, 1] @ replicate 22 7 @ [5, 0] @ [42]) =
     Some ([0x08, 1] @ replicate 22 7 @ [42])"
  using qos_decap_header [OF linux_skb_ok refl, of "[5, 0]" 1 26 "replicate 22 7" "0x88" "[42]"] by simp

text \<open>
  In a QoS frame between two access points the pseudo header of the Michael code takes the
  priority from the first byte of the fourth address, where a three-address frame has its QoS field,
  and not from the QoS field behind that address.
\<close>

lemma michdr_four_address_priority:
  assumes "wh = [fc0, fc1] @ h @ addr4 @ qos @ payload" and "length h = 22" and "length addr4 = 6"
    and "fc1 AND 3 = 3" and "fc0 AND 0x80 \<noteq> 0"
  shows "\<exists>hdr. ol_rx_defrag_michdr wh = Some hdr \<and> hdr ! 12 = addr4 ! 0 AND 0x0f"
proof -
  obtain a xs where a: "addr4 = a # xs" using assms(3) by (cases addr4) auto
  have "length wh \<ge> 30" "wh ! 1 = fc1" "wh ! 0 = fc0" using assms(1-3) by simp_all
  moreover have "wh ! 24 = a" using assms(1,2) a by (simp add: nth_append nth_Cons')
  ultimately show ?thesis
    using assms(4,5) a
    by (auto simp: ol_rx_defrag_michdr_def Let_def IEEE80211_FC0_SUBTYPE_QOS_def nth_append)
qed

theorem michdr_four_address_priority_witness:
  "\<exists>hdr. ol_rx_defrag_michdr ([0x88, 3] @ replicate 22 0 @ [0x0a, 1, 2, 3, 4, 5] @ [6, 0] @ []) = Some hdr
     \<and> hdr ! 12 = 0x0a"
  using michdr_four_address_priority [OF refl, of "replicate 22 0" "[0x0a, 1, 2, 3, 4, 5]" 3 "0x88" "[6, 0]" "[]"]
  by simp

end
