(* ===== verification/Rx_Pn.thy ===== *)
theory Rx_Pn
  imports Rx_Reorder "HOL-Library.Sublist"
begin

text \<open>
  The replay check of the receive path (\<open>ol_rx_pn.c\<close>): every encrypted MPDU carries a packet
  number; an MPDU whose number does not exceed the last accepted one of its TID is freed, the others
  stay in the list and advance the number.  The part of the union a comparison of a shorter number
  does not fill keeps what was in the uninitialised local variable, the argument \<open>junk\<close>.
\<close>

section \<open>Packet numbers\<close>

definition pn24 :: "htt_rx_pn \<Rightarrow> u32" where
  "pn24 p = ucast (pn128_0 p)"

definition pn48 :: "htt_rx_pn \<Rightarrow> u64" where
  "pn48 p = pn128_0 p"

definition htt_rx_mpdu_desc_pn_ll :: "rx_desc \<Rightarrow> htt_rx_pn \<Rightarrow> nat \<Rightarrow> htt_rx_pn" where
  "htt_rx_mpdu_desc_pn_ll d pn pn_len_bits =
     (if pn_len_bits = 24 then
        pn\<lparr>pn128_0 := (pn128_0 pn AND 0xffffffff00000000) OR ucast (d_pn_31_0 d AND 0xffffff)\<rparr>
      else if pn_len_bits = 48 then
        pn\<lparr>pn128_0 := ucast (d_pn_31_0 d) OR push_bit 32 (ucast (d_pn_47_32 d))\<rparr>
      else if pn_len_bits = 128 then
        pn\<lparr>pn128_0 := (ucast (d_pn_31_0 d) OR push_bit 32 (ucast (d_pn_47_32 d)))
                         OR push_bit 48 (ucast (d_wapi_63_48 d)),
           pn128_1 := ucast (d_wapi_95_64 d) OR push_bit 32 (ucast (d_wapi_127_96 d))\<rparr>
      else pn)"

definition ol_rx_pn_cmp24 :: "htt_rx_pn \<Rightarrow> htt_rx_pn \<Rightarrow> bool \<Rightarrow> wlan_op_mode \<Rightarrow> bool" where
  "ol_rx_pn_cmp24 new_pn old_pn is_unicast opmode \<longleftrightarrow>
     pn24 new_pn AND 0xffffff \<le> pn24 old_pn AND 0xffffff"

definition ol_rx_pn_cmp48 :: "htt_rx_pn \<Rightarrow> htt_rx_pn \<Rightarrow> bool \<Rightarrow> wlan_op_mode \<Rightarrow> bool" where
  "ol_rx_pn_cmp48 new_pn old_pn is_unicast opmode \<longleftrightarrow>
     pn48 new_pn AND 0xffffffffffff \<le> pn48 old_pn AND 0xffffffffffff"

definition ol_rx_pn_wapi_cmp :: "htt_rx_pn \<Rightarrow> htt_rx_pn \<Rightarrow> bool \<Rightarrow> wlan_op_mode \<Rightarrow> bool" where
  "ol_rx_pn_wapi_cmp new_pn old_pn is_unicast opmode =
     (let pn_is_replay =
            (if pn128_1 new_pn = pn128_1 old_pn then pn128_0 new_pn \<le> pn128_0 old_pn
             else pn128_1 new_pn < pn128_1 old_pn)
      in if is_unicast
         then (if opmode = wlan_op_mode_ap then pn_is_replay \<or> pn128_0 new_pn AND 1 \<noteq> 0
               else pn_is_replay \<or> pn128_0 new_pn AND 1 \<noteq> 1)
         else pn_is_replay)"

definition ol_rx_pn_strict_chk ::
  "htt_rx_pn \<Rightarrow> htt_rx_pn \<Rightarrow> bool \<Rightarrow> nat \<Rightarrow> wlan_op_mode \<Rightarrow> bool" where
  "ol_rx_pn_strict_chk new_pn old_pn is_unicast pn_len opmode =
     (if pn_len = 24 then pn24 new_pn AND 0xffffff = (pn24 old_pn AND 0xffffff) + 1
      else if pn_len = 48 then
        pn48 new_pn AND 0xffffffffffff = (pn48 old_pn AND 0xffffffffffff) + 1
      else pn_len = 128)"

text \<open>The table of the device: length in bits and comparison of each cipher.\<close>

definition rx_pn_len :: "htt_sec_type \<Rightarrow> nat" where
  "rx_pn_len sec =
     (if sec \<in> {htt_sec_type_tkip, htt_sec_type_tkip_nomic, htt_sec_type_aes_ccmp} then 48
      else if sec = htt_sec_type_wapi then 128 else 0)"

definition rx_pn_cmp ::
  "htt_sec_type \<Rightarrow> (htt_rx_pn \<Rightarrow> htt_rx_pn \<Rightarrow> bool \<Rightarrow> wlan_op_mode \<Rightarrow> bool) option" where
  "rx_pn_cmp sec =
     (if sec \<in> {htt_sec_type_tkip, htt_sec_type_tkip_nomic, htt_sec_type_aes_ccmp}
      then Some ol_rx_pn_cmp48
      else if sec = htt_sec_type_wapi then Some ol_rx_pn_wapi_cmp else None)"

section \<open>The check of a list\<close>

definition OL_RX_TKIP_REPLAYS :: nat where "OL_RX_TKIP_REPLAYS = 0"
definition OL_RX_CCMP_REPLAYS :: nat where "OL_RX_CCMP_REPLAYS = 1"
definition OL_RX_OTHER_REPLAYS :: nat where "OL_RX_OTHER_REPLAYS = 2"

definition ADD_MPDU_TO_LIST ::
  "nbuf option \<Rightarrow> nbuf option \<Rightarrow> nbuf \<Rightarrow> rx_state \<Rightarrow> (nbuf option \<times> rx_state) option" where
  "ADD_MPDU_TO_LIST head tail_msdu mpdu s =
     (case (head, tail_msdu) of
        (None, _) \<Rightarrow> Some (Some mpdu, s)
      | (Some h, None) \<Rightarrow> None
      | (Some h, Some t) \<Rightarrow> Some (Some h, adf_nbuf_set_next t (Some mpdu) s))"

text \<open>Freeing the buffers of a replayed MPDU, each counted as a replay.\<close>

partial_function (option) free_replayed ::
  "nat \<Rightarrow> nbuf \<Rightarrow> nbuf \<Rightarrow> rx_state \<Rightarrow> rx_state option" where
  "free_replayed replay_type mpdu_tail msdu s =
     (let s' = (htt_rx_desc_frame_free msdu s)
                 \<lparr>pn_replays := (pn_replays s)(replay_type := pn_replays s replay_type + 1)\<rparr>
      in if msdu = mpdu_tail then Some s'
         else (case nb_next s msdu of
                 None \<Rightarrow> None
               | Some m \<Rightarrow> free_replayed replay_type mpdu_tail m s'))"

definition pn_replay_type :: "htt_sec_type \<Rightarrow> nat" where
  "pn_replay_type sec =
     (if sec = htt_sec_type_tkip \<or> sec = htt_sec_type_tkip_nomic then OL_RX_TKIP_REPLAYS
      else if sec = htt_sec_type_aes_ccmp then OL_RX_CCMP_REPLAYS else OL_RX_OTHER_REPLAYS)"

text \<open>
  One MPDU: the new head and tail of the output list, whether a last number is now known, and the
  first buffer of the next MPDU.
\<close>

definition pn_check_mpdu ::
  "(nbuf \<Rightarrow> htt_rx_pn) \<Rightarrow> tidk \<Rightarrow> htt_sec_type \<Rightarrow> bool \<Rightarrow> nbuf option \<Rightarrow> nbuf option \<Rightarrow> nbuf
    \<Rightarrow> bool \<Rightarrow> rx_state \<Rightarrow> (nbuf option \<times> nbuf option \<times> nbuf option \<times> bool \<times> rx_state) option" where
  "pn_check_mpdu junk k sec is_ucast head tail_msdu m last_pn_valid s =
     (case ol_rx_mpdu_list_next m s of
        None \<Rightarrow> None
      | Some (mpdu_tail, next_mpdu) \<Rightarrow>
          (if \<not> d_encrypted (nb_desc s m)
           then map_option (\<lambda>(h', s'). (h', Some mpdu_tail, next_mpdu, last_pn_valid, s'))
                  (ADD_MPDU_TO_LIST head tail_msdu m s)
           else (let new_pn = htt_rx_mpdu_desc_pn_ll (nb_desc s m) (junk m) (rx_pn_len sec);
                     s1 = (if last_pn_valid then s
                           else s\<lparr>tids_last_pn_valid := (tids_last_pn_valid s)(k := True)\<rparr>)
                 in case (if last_pn_valid
                          then map_option (\<lambda>cmp. cmp new_pn (tids_last_pn s k) is_ucast
                                 (pr_opmode (peers s (fst k)))) (rx_pn_cmp sec)
                          else Some False) of
                      None \<Rightarrow> None
                    | Some pn_is_replay \<Rightarrow>
                        (if pn_is_replay
                         then map_option (\<lambda>s2. (head, tail_msdu, next_mpdu, True, s2))
                                (free_replayed (pn_replay_type sec) mpdu_tail m s1)
                         else map_option (\<lambda>(h', s2). (h', Some mpdu_tail, next_mpdu, True,
                                  s2\<lparr>tids_last_pn := (tids_last_pn s2)(k := new_pn)\<rparr>))
                                (ADD_MPDU_TO_LIST head tail_msdu m s1)))))"

partial_function (option) pn_check_loop ::
  "(nbuf \<Rightarrow> htt_rx_pn) \<Rightarrow> tidk \<Rightarrow> htt_sec_type \<Rightarrow> bool \<Rightarrow> nbuf option \<Rightarrow> nbuf option \<Rightarrow> nbuf option
    \<Rightarrow> bool \<Rightarrow> rx_state \<Rightarrow> (nbuf option \<times> nbuf option \<times> rx_state) option" where
  "pn_check_loop junk k sec is_ucast head tail_msdu mpdu last_pn_valid s =
     (case mpdu of
        None \<Rightarrow> Some (head, tail_msdu, s)
      | Some m \<Rightarrow>
          (case pn_check_mpdu junk k sec is_ucast head tail_msdu m last_pn_valid s of
             None \<Rightarrow> None
           | Some (h', t', next_mpdu, valid', s') \<Rightarrow>
               pn_check_loop junk k sec is_ucast h' t' next_mpdu valid' s'))"

definition peer_sec_type :: "rx_peer \<Rightarrow> bool \<Rightarrow> htt_sec_type" where
  "peer_sec_type p mcast = (if mcast then sec_type_mcast p else sec_type_ucast p)"

definition ol_rx_pn_check_base ::
  "(nbuf \<Rightarrow> htt_rx_pn) \<Rightarrow> tidk \<Rightarrow> nbuf \<Rightarrow> rx_state \<Rightarrow> (nbuf option \<times> rx_state) option" where
  "ol_rx_pn_check_base junk k msdu_list s =
     (let p = peers s (fst k);
          mcast = d_mcast (nb_desc s msdu_list);
          sec = peer_sec_type p mcast
      in if fw_pn_check p \<or> pr_opmode p = wlan_op_mode_ibss then Some (Some msdu_list, s)
         else if rx_pn_len sec = 0 then Some (Some msdu_list, s)
         else (case pn_check_loop junk k sec (\<not> mcast) None None (Some msdu_list) (tids_last_pn_valid s k) s of
                 None \<Rightarrow> None
               | Some (head, tail_msdu, s') \<Rightarrow>
                   Some (head, (case tail_msdu of None \<Rightarrow> s' | Some t \<Rightarrow> adf_nbuf_set_next t None s'))))"

definition ol_rx_pn_check ::
  "(nbuf option \<Rightarrow> rx_state \<Rightarrow> rx_state option) \<Rightarrow> (nbuf \<Rightarrow> htt_rx_pn) \<Rightarrow> rx_proc" where
  "ol_rx_pn_check fwd_check junk k msdu_list s =
     Option.bind (ol_rx_pn_check_base junk k msdu_list s) (\<lambda>(l, s'). fwd_check l s')"

definition ol_rx_pn_check_only ::
  "(nbuf option \<Rightarrow> rx_state \<Rightarrow> rx_state option) \<Rightarrow> (nbuf \<Rightarrow> htt_rx_pn) \<Rightarrow> rx_proc" where
  "ol_rx_pn_check_only deliver junk k msdu_list s =
     Option.bind (ol_rx_pn_check_base junk k msdu_list s) (\<lambda>(l, s'). deliver l s')"

section \<open>Specification\<close>

text \<open>
  Filtering a list of MPDUs with a replay test: the MPDUs kept, the MPDUs dropped, and the last
  accepted number.
\<close>

primrec pn_filter :: "('m \<Rightarrow> bool) \<Rightarrow> ('m \<Rightarrow> 'n) \<Rightarrow> ('n \<Rightarrow> 'n \<Rightarrow> bool) \<Rightarrow> 'n option \<Rightarrow> 'm list
    \<Rightarrow> 'm list \<times> 'm list \<times> 'n option" where
  "pn_filter enc pn replay old [] = ([], [], old)"
| "pn_filter enc pn replay old (m # ms) =
     (if \<not> enc m
      then (let (keep, outs, lst) = pn_filter enc pn replay old ms in (m # keep, outs, lst))
      else if (case old of None \<Rightarrow> False | Some l \<Rightarrow> replay (pn m) l)
      then (let (keep, outs, lst) = pn_filter enc pn replay old ms in (keep, m # outs, lst))
      else (let (keep, outs, lst) = pn_filter enc pn replay (Some (pn m)) ms in (m # keep, outs, lst)))"

text \<open>
  With a replay test that is the order of a key, the kept encrypted MPDUs have strictly increasing
  keys, all above the old one, and the last number is that of the last of them.
\<close>

lemma pn_filter_increasing:
  assumes "\<And>a b. replay a b \<longleftrightarrow> key a \<le> (key b :: 'k::linorder)"
    and "pn_filter enc pn replay old ms = (keep, outs, lst)"
  shows "sorted_wrt (\<lambda>m n. key (pn m) < key (pn n)) (filter enc keep) \<and>
    (\<forall>m\<in>set (filter enc keep). \<forall>l. old = Some l \<longrightarrow> key l < key (pn m)) \<and>
    (\<forall>m\<in>set (filter enc keep). \<forall>l. lst = Some l \<longrightarrow> key (pn m) \<le> key l) \<and>
    (\<forall>l. old = Some l \<longrightarrow> (\<exists>l'. lst = Some l' \<and> key l \<le> key l')) \<and>
    (filter enc keep \<noteq> [] \<longrightarrow> lst = Some (pn (last (filter enc keep)))) \<and>
    (filter enc keep = [] \<longrightarrow> lst = old)"
  using assms(2)
proof (induction ms arbitrary: old keep outs lst)
  case Nil
  then show ?case by auto
next
  case (Cons m ms)
  show ?case
  proof (cases "enc m \<and> \<not> (case old of None \<Rightarrow> False | Some l \<Rightarrow> replay (pn m) l)")
    case True
    then obtain keep' where k: "keep = m # keep'" "pn_filter enc pn replay (Some (pn m)) ms = (keep', outs, lst)"
      using Cons.prems by (auto simp: Let_def split: prod.splits)
    have "\<forall>l. old = Some l \<longrightarrow> key l < key (pn m)"
      using True assms(1) by (auto simp: not_le)
    with Cons.IH [OF k(2)] k(1) True show ?thesis
      by (auto split: if_splits)
  next
    case False
    then obtain keep' outs' where k: "pn_filter enc pn replay old ms = (keep', outs', lst)"
      "filter enc keep = filter enc keep'"
      using Cons.prems by (auto simp: Let_def split: if_splits prod.splits)
    show ?thesis unfolding k(2) by (rule Cons.IH [OF k(1)])
  qed
qed

lemma pn_filter_partition:
  "pn_filter enc pn replay old ms = (keep, outs, lst) \<Longrightarrow>
   mset keep + mset outs = mset ms \<and> list_all enc outs"
proof (induction ms arbitrary: old keep outs lst)
  case Nil
  then show ?case by simp
next
  case (Cons m ms)
  then show ?case
    by (auto simp: Let_def split: if_splits prod.splits)
qed

text \<open>The kept MPDUs stay in the order of arrival.\<close>

lemma pn_filter_subseq:
  "pn_filter enc pn replay old ms = (keep, outs, lst) \<Longrightarrow> subseq keep ms"
  by (induction ms arbitrary: old keep outs lst)
    (auto simp: Let_def split: if_splits prod.splits intro: list_emb_Cons)

lemma subseq_set: "subseq xs ys \<Longrightarrow> set xs \<subseteq> set ys"
  by (induction rule: list_emb.induct) auto

lemma subseq_concat_distinct: "subseq xs ys \<Longrightarrow> distinct (concat ys) \<Longrightarrow> distinct (concat xs)"
proof (induction rule: list_emb.induct)
  case (list_emb_Cons2 x y xs ys)
  then have "set (concat xs) \<subseteq> set (concat ys)" by (auto dest: subseq_set)
  with list_emb_Cons2 show ?case by auto
qed auto

section \<open>The loop against the specification\<close>

lemma free_replayed_rep:
  "lseg (nb_next s) (Some b) bs q \<Longrightarrow> distinct bs \<Longrightarrow> bs \<noteq> [] \<Longrightarrow>
   free_replayed t (last bs) b s = Some (s\<lparr>nb_freed := nb_freed s @ bs,
     pn_replays := (pn_replays s)(t := pn_replays s t + of_nat (length bs))\<rparr>)"
proof (induction bs arbitrary: b s)
  case Nil
  then show ?case by simp
next
  case (Cons c cs)
  let ?s = "(htt_rx_desc_frame_free b s)\<lparr>pn_replays := (pn_replays s)(t := pn_replays s t + 1)\<rparr>"
  show ?case
  proof (cases cs)
    case Nil
    with Cons.prems show ?thesis
      by (subst free_replayed.simps) (auto simp: htt_rx_desc_frame_free_def Let_def)
  next
    case (Cons d ds)
    have "free_replayed t (last cs) d ?s = Some (?s\<lparr>nb_freed := nb_freed ?s @ cs,
        pn_replays := (pn_replays ?s)(t := pn_replays ?s t + of_nat (length cs))\<rparr>)"
      using Cons.prems Cons by (intro Cons.IH) auto
    moreover have "b \<noteq> last (c # cs)" "nb_next s b = Some d" "last (c # cs) = last cs" "b = c"
      using Cons.prems Cons by auto
    ultimately show ?thesis
      by (subst free_replayed.simps) (simp add: Let_def htt_rx_desc_frame_free_def ac_simps)
  qed
qed

lemma free_replayed_fields [simp]:
  "d_encrypted (nb_desc (s\<lparr>nb_freed := f, pn_replays := r\<rparr>) b) = d_encrypted (nb_desc s b)"
  by simp

text \<open>The state a run of the loop may reach: everything but the fields the check is about.\<close>

definition pn_frame :: "tidk \<Rightarrow> nbuf set \<Rightarrow> rx_state \<Rightarrow> rx_state \<Rightarrow> bool" where
  "pn_frame k D s s' \<longleftrightarrow>
     nb_desc s' = nb_desc s \<and> peers s' = peers s \<and> tids_rx_reorder s' = tids_rx_reorder s \<and>
     tids_last_seq s' = tids_last_seq s \<and> (\<forall>c. c \<notin> D \<longrightarrow> nb_next s' c = nb_next s c) \<and>
     (\<forall>j. j \<noteq> k \<longrightarrow> tids_last_pn s' j = tids_last_pn s j \<and> tids_last_pn_valid s' j = tids_last_pn_valid s j)"

lemma pn_frame_refl: "pn_frame k D s s"
  by (simp add: pn_frame_def)

lemma pn_frame_trans: "pn_frame k D s t \<Longrightarrow> pn_frame k D t u \<Longrightarrow> pn_frame k D s u"
  by (auto simp: pn_frame_def)

lemma pn_frame_mono: "pn_frame k D s t \<Longrightarrow> D \<subseteq> E \<Longrightarrow> pn_frame k E s t"
  unfolding pn_frame_def by blast

definition last_known :: "rx_state \<Rightarrow> tidk \<Rightarrow> htt_rx_pn option" where
  "last_known s k = (if tids_last_pn_valid s k then Some (tids_last_pn s k) else None)"

lemma last_known_set_next [simp]:
  "last_known (adf_nbuf_set_next b v s) k = last_known s k"
  "pn_replays (adf_nbuf_set_next b v s) = pn_replays s"
  by (simp_all add: last_known_def adf_nbuf_set_next_def)

definition mpdu_pn :: "rx_state \<Rightarrow> (nbuf \<Rightarrow> htt_rx_pn) \<Rightarrow> htt_sec_type \<Rightarrow> nbuf list \<Rightarrow> htt_rx_pn" where
  "mpdu_pn s junk sec m = htt_rx_mpdu_desc_pn_ll (nb_desc s (hd m)) (junk (hd m)) (rx_pn_len sec)"

abbreviation mpdu_enc :: "rx_state \<Rightarrow> nbuf list \<Rightarrow> bool" where
  "mpdu_enc s m \<equiv> d_encrypted (nb_desc s (hd m))"

text \<open>Appending an MPDU to the output list.\<close>

lemma add_mpdu_rep:
  assumes a: "slot_rep (nb_next s) a ac" and m: "lseg (nb_next s) (Some (hd m)) m q" "m \<noteq> []"
    and dist: "distinct (ac @ m)"
  shows "\<exists>nx. ADD_MPDU_TO_LIST (el_head a) (el_tail a) (hd m) s
      = Some (Some (hd (ac @ m)), s\<lparr>nb_next := nx\<rparr>) \<and>
    slot_rep nx \<lparr>el_head = Some (hd (ac @ m)), el_tail = Some (last m)\<rparr> (ac @ m) \<and>
    (\<forall>c. c \<notin> set ac \<longrightarrow> nx c = nb_next s c)"
proof -
  let ?e = "\<lparr>el_head = Some (hd m), el_tail = Some (last m)\<rparr>"
  have e: "slot_rep (nb_next s) ?e m" using m by (auto simp: slot_rep_def)
  have j: "slot_rep (join_next (nb_next s) a ?e) (join_elem a ?e) (ac @ m)" by (rule join_rep [OF a e dist])
  show ?thesis
  proof (cases "ac = []")
    case True
    then have "a = empty_elem" using a by (simp add: slot_rep_def)
    then show ?thesis using True e by (intro exI [of _ "nb_next s"]) (simp add: ADD_MPDU_TO_LIST_def)
  next
    case False
    then obtain h t where ht: "el_head a = Some h" "el_tail a = Some t" "h = hd ac" "t = last ac"
      using a slot_rep_head [OF a] by (auto simp: slot_rep_def)
    then have "join_elem a ?e = \<lparr>el_head = Some (hd (ac @ m)), el_tail = Some (last m)\<rparr>"
      using False by (simp add: join_elem_def)
    moreover have "join_next (nb_next s) a ?e = (nb_next s)(t := Some (hd m))"
      using ht by (simp add: join_next_def)
    ultimately show ?thesis
      using j ht False by (intro exI [of _ "(nb_next s)(t := Some (hd m))"])
        (auto simp: ADD_MPDU_TO_LIST_def adf_nbuf_set_next_def)
  qed
qed

text \<open>Whether the check drops an MPDU in a state.\<close>

definition pn_drops ::
  "(nbuf \<Rightarrow> htt_rx_pn) \<Rightarrow> tidk \<Rightarrow> htt_sec_type \<Rightarrow> (htt_rx_pn \<Rightarrow> htt_rx_pn \<Rightarrow> bool \<Rightarrow> wlan_op_mode \<Rightarrow> bool)
    \<Rightarrow> bool \<Rightarrow> rx_state \<Rightarrow> nbuf list \<Rightarrow> bool" where
  "pn_drops junk k sec cmp u s m \<longleftrightarrow> mpdu_enc s m \<and>
     (case last_known s k of None \<Rightarrow> False
      | Some l \<Rightarrow> cmp (mpdu_pn s junk sec m) l u (pr_opmode (peers s (fst k))))"

lemma pn_check_mpdu_rep:
  assumes cmp: "rx_pn_cmp sec = Some cmp" and a: "slot_rep (nb_next s) a ac"
    and m: "lseg (nb_next s) (Some (hd m)) m q" "mpdu_ok s m" and dist: "distinct (ac @ m)"
  shows "\<exists>a1 s1. pn_check_mpdu junk k sec u (el_head a) (el_tail a) (hd m) (tids_last_pn_valid s k) s
      = Some (el_head a1, el_tail a1, q, tids_last_pn_valid s1 k, s1) \<and>
    slot_rep (nb_next s1) a1 (if pn_drops junk k sec cmp u s m then ac else ac @ m) \<and>
    nb_freed s1 = nb_freed s @ (if pn_drops junk k sec cmp u s m then m else []) \<and>
    last_known s1 k = (if mpdu_enc s m \<and> \<not> pn_drops junk k sec cmp u s m then Some (mpdu_pn s junk sec m)
                       else last_known s k) \<and>
    pn_frame k (set ac) s s1 \<and>
    pn_replays s1 = (pn_replays s)(pn_replay_type sec := pn_replays s (pn_replay_type sec)
      + of_nat (length (if pn_drops junk k sec cmp u s m then m else [])))"
proof -
  have ne: "m \<noteq> []" using m(2) by (simp add: mpdu_ok_def)
  have nxt: "ol_rx_mpdu_list_next (hd m) s = Some (last m, q)" by (rule ol_rx_mpdu_list_next_rep [OF m])
  let ?new = "mpdu_pn s junk sec m"
  let ?s1 = "if tids_last_pn_valid s k then s
      else s\<lparr>tids_last_pn_valid := (tids_last_pn_valid s)(k := True)\<rparr>"
  have same: "nb_next ?s1 = nb_next s" "nb_freed ?s1 = nb_freed s" "pn_replays ?s1 = pn_replays s"
    "tids_last_pn ?s1 = tids_last_pn s" "tids_last_pn_valid ?s1 = (tids_last_pn_valid s)(k := True)"
    "pn_frame k (set ac) s ?s1"
    by (auto simp: pn_frame_def fun_eq_iff)
  have test: "(if tids_last_pn_valid s k
        then map_option (\<lambda>cmp. cmp ?new (tids_last_pn s k) u (pr_opmode (peers s (fst k)))) (rx_pn_cmp sec)
        else Some False) = Some (pn_drops junk k sec cmp u s m)" if "mpdu_enc s m"
    using that by (simp add: pn_drops_def last_known_def cmp)
  consider (plain) "\<not> mpdu_enc s m" | (drop) "mpdu_enc s m" "pn_drops junk k sec cmp u s m"
    | (keep) "mpdu_enc s m" "\<not> pn_drops junk k sec cmp u s m" by blast
  then show ?thesis
  proof cases
    case plain
    obtain nx where "ADD_MPDU_TO_LIST (el_head a) (el_tail a) (hd m) s
        = Some (Some (hd (ac @ m)), s\<lparr>nb_next := nx\<rparr>)"
      "slot_rep nx \<lparr>el_head = Some (hd (ac @ m)), el_tail = Some (last m)\<rparr> (ac @ m)"
      "\<forall>c. c \<notin> set ac \<longrightarrow> nx c = nb_next s c"
      using add_mpdu_rep [OF a m(1) ne dist] by blast
    with plain nxt show ?thesis
      by (intro exI [of _ "\<lparr>el_head = Some (hd (ac @ m)), el_tail = Some (last m)\<rparr>"]
          exI [of _ "s\<lparr>nb_next := nx\<rparr>"])
        (simp add: pn_check_mpdu_def pn_drops_def last_known_def pn_frame_def)
  next
    case drop
    have "free_replayed (pn_replay_type sec) (last m) (hd m) s
        = Some (s\<lparr>nb_freed := nb_freed s @ m, pn_replays := (pn_replays s)
            (pn_replay_type sec := pn_replays s (pn_replay_type sec) + of_nat (length m))\<rparr>)"
      using free_replayed_rep [OF m(1) _ ne] dist by simp
    moreover have "tids_last_pn_valid s k" using drop by (auto simp: pn_drops_def last_known_def split: if_splits)
    ultimately show ?thesis
      using drop nxt a test [OF drop(1)]
      by (intro exI [of _ a] exI [of _ "s\<lparr>nb_freed := nb_freed s @ m, pn_replays := (pn_replays s)
            (pn_replay_type sec := pn_replays s (pn_replay_type sec) + of_nat (length m))\<rparr>"])
        (simp add: pn_check_mpdu_def last_known_def pn_frame_def cmp Let_def mpdu_pn_def)
  next
    case keep
    have "slot_rep (nb_next ?s1) a ac" "lseg (nb_next ?s1) (Some (hd m)) m q" using a m(1) same(1) by simp_all
    from add_mpdu_rep [OF this ne dist] obtain nx where nx:
      "ADD_MPDU_TO_LIST (el_head a) (el_tail a) (hd m) ?s1
        = Some (Some (hd (ac @ m)), ?s1\<lparr>nb_next := nx\<rparr>)"
      "slot_rep nx \<lparr>el_head = Some (hd (ac @ m)), el_tail = Some (last m)\<rparr> (ac @ m)"
      "\<forall>c. c \<notin> set ac \<longrightarrow> nx c = nb_next s c"
      unfolding same(1) by blast
    let ?t = "?s1\<lparr>nb_next := nx, tids_last_pn := (tids_last_pn s)(k := ?new)\<rparr>"
    have "pn_check_mpdu junk k sec u (el_head a) (el_tail a) (hd m) (tids_last_pn_valid s k) s
        = Some (Some (hd (ac @ m)), Some (last m), q, True, ?t)"
      using keep nxt nx(1) test [OF keep(1)] same(4)
      by (simp only: pn_check_mpdu_def option.case prod.case Let_def mpdu_pn_def [symmetric] not_True_eq_False
          if_False if_True option.map) simp
    moreover have "last_known ?t k = Some ?new" "tids_last_pn_valid ?t k" by (simp_all add: last_known_def)
    moreover have "pn_frame k (set ac) s ?t" using nx(3) by (simp add: pn_frame_def)
    moreover have "nb_freed ?t = nb_freed s" "pn_replays ?t = pn_replays s" "nb_next ?t = nx" by simp_all
    ultimately show ?thesis
      using keep nx(2)
      by (intro exI [of _ "\<lparr>el_head = Some (hd (ac @ m)), el_tail = Some (last m)\<rparr>"] exI [of _ ?t]) simp
  qed
qed

lemma pn_filter_Cons:
  assumes "d \<longleftrightarrow> enc m \<and> (case old of None \<Rightarrow> False | Some l \<Rightarrow> rp (pn m) l)"
    and "pn_filter enc pn rp (if enc m \<and> \<not> d then Some (pn m) else old) ms = (keep, outs, lst)"
  shows "pn_filter enc pn rp old (m # ms) = (if d then keep else m # keep, if d then m # outs else outs, lst)"
  using assms by (cases "enc m"; cases "case old of None \<Rightarrow> False | Some l \<Rightarrow> rp (pn m) l") auto

abbreviation pn_check_spec where
  "pn_check_spec junk k sec cmp u s old ms \<equiv>
     pn_filter (mpdu_enc s) (mpdu_pn s junk sec) (\<lambda>n l. cmp n l u (pr_opmode (peers s (fst k)))) old ms"

lemma pn_frame_spec:
  "pn_frame k D s s' \<Longrightarrow>
   pn_check_spec junk k sec cmp u s' old ms = pn_check_spec junk k sec cmp u s old ms"
  unfolding pn_frame_def mpdu_pn_def [abs_def] by simp

lemma pn_frame_mpdu_ok: "pn_frame k D s s' \<Longrightarrow> mpdu_ok s' m = mpdu_ok s m"
  by (simp add: pn_frame_def mpdu_ok_def)

lemma pn_check_loop_rep:
  assumes cmp: "rx_pn_cmp sec = Some cmp"
    and "slot_rep (nb_next s) a ac" and "lseg (nb_next s) p (concat ms) None"
    and "\<And>m. m \<in> set ms \<Longrightarrow> mpdu_ok s m" and "distinct (ac @ concat ms)"
    and "pn_check_spec junk k sec cmp u s (last_known s k) ms = (keep, outs, lst)"
  shows "\<exists>a' s'. pn_check_loop junk k sec u (el_head a) (el_tail a) p (tids_last_pn_valid s k) s
      = Some (el_head a', el_tail a', s') \<and>
    slot_rep (nb_next s') a' (ac @ concat keep) \<and> nb_freed s' = nb_freed s @ concat outs \<and>
    last_known s' k = lst \<and> pn_frame k (set ac \<union> set (concat ms)) s s' \<and>
    pn_replays s' = (pn_replays s)(pn_replay_type sec := pn_replays s (pn_replay_type sec)
      + of_nat (length (concat outs)))"
  using assms(2-)
proof (induction ms arbitrary: s a ac p keep outs)
  case Nil
  then show ?case
    by (subst pn_check_loop.simps) (auto intro!: pn_frame_refl)
next
  case (Cons m ms)
  let ?d = "pn_drops junk k sec cmp u s m"
  have ok: "mpdu_ok s m" using Cons.prems(3) by simp
  then have ne: "m \<noteq> []" by (simp add: mpdu_ok_def)
  obtain q where q: "lseg (nb_next s) p m q" "lseg (nb_next s) q (concat ms) None"
    using Cons.prems(2) by (auto simp: lseg_append)
  then have p: "p = Some (hd m)" using ne by (cases m) auto
  have dm: "distinct (ac @ m)" "distinct (ac @ m @ concat ms)" using Cons.prems(4) by auto
  obtain a1 s1 where step: "pn_check_mpdu junk k sec u (el_head a) (el_tail a) (hd m) (tids_last_pn_valid s k) s
      = Some (el_head a1, el_tail a1, q, tids_last_pn_valid s1 k, s1)"
    and a1: "slot_rep (nb_next s1) a1 (if ?d then ac else ac @ m)"
    and fr: "nb_freed s1 = nb_freed s @ (if ?d then m else [])"
    and lk: "last_known s1 k = (if mpdu_enc s m \<and> \<not> ?d then Some (mpdu_pn s junk sec m) else last_known s k)"
    and frame: "pn_frame k (set ac) s s1"
    and rp: "pn_replays s1 = (pn_replays s)(pn_replay_type sec := pn_replays s (pn_replay_type sec)
      + of_nat (length (if ?d then m else [])))"
    using pn_check_mpdu_rep [OF cmp Cons.prems(1) q(1) [unfolded p] ok dm(1)] by blast
  obtain keep1 outs1 where spec1: "pn_check_spec junk k sec cmp u s (last_known s1 k) ms = (keep1, outs1, lst)"
    and ko: "keep = (if ?d then keep1 else m # keep1)" "outs = (if ?d then m # outs1 else outs1)"
  proof -
    obtain k1 o1 l1 where f: "pn_check_spec junk k sec cmp u s (last_known s1 k) ms = (k1, o1, l1)"
      by (cases "pn_check_spec junk k sec cmp u s (last_known s1 k) ms") auto
    from pn_filter_Cons [OF pn_drops_def f [unfolded lk]] Cons.prems(5)
    have "keep = (if ?d then k1 else m # k1)" "outs = (if ?d then m # o1 else o1)" "lst = l1" by auto
    with f that show ?thesis by blast
  qed
  have "nb_next s1 c = nb_next s c" if "c \<in> set (concat ms)" for c
    using frame that dm(2) by (auto simp: pn_frame_def)
  then have seg: "lseg (nb_next s1) q (concat ms) None"
    using q(2) lseg_cong [of "concat ms" "nb_next s1" "nb_next s"] by blast
  have "distinct ((if ?d then ac else ac @ m) @ concat ms)" using dm(2) by auto
  moreover have "mpdu_ok s1 n" if "n \<in> set ms" for n
    using Cons.prems(3) that pn_frame_mpdu_ok [OF frame] by simp
  moreover have "pn_check_spec junk k sec cmp u s1 (last_known s1 k) ms = (keep1, outs1, lst)"
    using spec1 pn_frame_spec [OF frame] by metis
  ultimately obtain a' s' where *:
    "pn_check_loop junk k sec u (el_head a1) (el_tail a1) q (tids_last_pn_valid s1 k) s1
      = Some (el_head a', el_tail a', s')"
    "slot_rep (nb_next s') a' ((if ?d then ac else ac @ m) @ concat keep1)"
    "nb_freed s' = nb_freed s1 @ concat outs1" "last_known s' k = lst"
    "pn_frame k (set (if ?d then ac else ac @ m) \<union> set (concat ms)) s1 s'"
    "pn_replays s' = (pn_replays s1)(pn_replay_type sec := pn_replays s1 (pn_replay_type sec)
      + of_nat (length (concat outs1)))"
    using Cons.IH [OF a1 seg] by blast
  have "pn_check_loop junk k sec u (el_head a) (el_tail a) p (tids_last_pn_valid s k) s
      = Some (el_head a', el_tail a', s')"
    unfolding p by (subst pn_check_loop.simps) (simp add: step *(1))
  moreover have "pn_frame k (set ac \<union> set (concat (m # ms))) s s'"
    by (rule pn_frame_trans [OF pn_frame_mono [OF frame] pn_frame_mono [OF *(5)]]) auto
  moreover have "slot_rep (nb_next s') a' (ac @ concat keep)" "nb_freed s' = nb_freed s @ concat outs"
    using *(2,3) fr by (cases ?d; simp add: ko)+
  moreover have "pn_replays s' = (pn_replays s)(pn_replay_type sec := pn_replays s (pn_replay_type sec)
      + of_nat (length (concat outs)))"
    using *(6) rp by (simp add: ko fun_eq_iff)
  ultimately show ?case using *(4) by blast
qed

section \<open>Properties\<close>

lemma unat_and_low:
  fixes w :: u64 shows "unat (w AND 0xffffffffffff) = unat w mod 2 ^ 48"
  by (rule unat_and_mask) simp

text \<open>The 48-bit number of an MPDU as a natural number.\<close>

definition pn48_nat :: "htt_rx_pn \<Rightarrow> nat" where
  "pn48_nat p = unat (pn48 p AND 0xffffffffffff)"

lemma cmp48_key: "ol_rx_pn_cmp48 a b u om \<longleftrightarrow> pn48_nat a \<le> pn48_nat b"
  by (simp add: ol_rx_pn_cmp48_def pn48_nat_def word_le_nat_alt)

lemma pn_check_refines_filter_aux:
  assumes check: "\<not> fw_pn_check (peers s (fst k))" "pr_opmode (peers s (fst k)) \<noteq> wlan_op_mode_ibss"
    and sec: "sec = peer_sec_type (peers s (fst k)) (d_mcast (nb_desc s b))" "rx_pn_cmp sec = Some cmp"
    and list: "lseg (nb_next s) (Some b) (concat ms) None" "\<And>m. m \<in> set ms \<Longrightarrow> mpdu_ok s m"
    and spec: "pn_check_spec junk k sec cmp (\<not> d_mcast (nb_desc s b)) s (last_known s k) ms = (keep, outs, lst)"
  shows "\<exists>h s'. ol_rx_pn_check_base junk k b s = Some (h, s') \<and>
    lseg (nb_next s') h (concat keep) None \<and> nb_freed s' = nb_freed s @ concat outs \<and>
    last_known s' k = lst \<and> tids_rx_reorder s' = tids_rx_reorder s \<and>
    pn_replays s' = (pn_replays s)(pn_replay_type sec := pn_replays s (pn_replay_type sec)
      + of_nat (length (concat outs)))"
proof -
  have dist: "distinct ([] @ concat ms)" using lseg_acyclic [OF list(1)] by simp
  have e: "slot_rep (nb_next s) empty_elem []" by (simp add: slot_rep_def)
  obtain a t where loop: "pn_check_loop junk k sec (\<not> d_mcast (nb_desc s b)) None None (Some b) (tids_last_pn_valid s k) s
      = Some (el_head a, el_tail a, t)"
    and t: "slot_rep (nb_next t) a (concat keep)" "nb_freed t = nb_freed s @ concat outs" "last_known t k = lst"
      "pn_frame k (set (concat ms)) s t"
      "pn_replays t = (pn_replays s)(pn_replay_type sec := pn_replays s (pn_replay_type sec)
        + of_nat (length (concat outs)))"
    using pn_check_loop_rep [OF sec(2) e list(1,2) dist spec] by auto
  have "rx_pn_len sec \<noteq> 0" using sec(2) by (auto simp: rx_pn_cmp_def rx_pn_len_def split: if_splits)
  then have run: "ol_rx_pn_check_base junk k b s
      = Some (el_head a, case el_tail a of None \<Rightarrow> t | Some l \<Rightarrow> adf_nbuf_set_next l None t)"
    using check loop by (simp add: ol_rx_pn_check_base_def Let_def sec(1) [symmetric])
  show ?thesis
  proof (cases "concat keep = []")
    case True
    then have "a = empty_elem" using t(1) by (simp add: slot_rep_def)
    with True run t show ?thesis by (simp add: pn_frame_def)
  next
    case False
    have "distinct (concat keep)" using subseq_concat_distinct [OF pn_filter_subseq [OF spec]] dist by simp
    from slot_rep_terminate [OF t(1) False this] obtain l where "el_tail a = Some l"
      "el_head a = Some (hd (concat keep))" "lseg ((nb_next t)(l := None)) (Some (hd (concat keep))) (concat keep) None"
      by blast
    with run t show ?thesis
      by (intro exI [of _ "el_head a"] exI [of _ "adf_nbuf_set_next l None t"])
        (simp add: pn_frame_def)
  qed
qed

text \<open>
  C29. The replay check of a list of MPDUs, for a peer whose cipher has packet numbers and that is
  checked by the host: the list that comes out is the null-terminated list of the MPDUs the filter
  keeps, in order of arrival; the MPDUs it drops are freed, buffer by buffer and once each, and
  counted as replays; and the last number of the TID is that of the last accepted encrypted MPDU.
\<close>

theorem pn_check_refines_filter:
  assumes check: "\<not> fw_pn_check (peers s (fst k))" "pr_opmode (peers s (fst k)) \<noteq> wlan_op_mode_ibss"
    and sec: "sec = peer_sec_type (peers s (fst k)) (d_mcast (nb_desc s b))" "rx_pn_cmp sec = Some cmp"
    and list: "lseg (nb_next s) (Some b) (concat ms) None" "\<And>m. m \<in> set ms \<Longrightarrow> mpdu_ok s m"
    and spec: "pn_check_spec junk k sec cmp (\<not> d_mcast (nb_desc s b)) s (last_known s k) ms = (keep, outs, lst)"
  shows "\<exists>h s'. ol_rx_pn_check_base junk k b s = Some (h, s') \<and>
    lseg (nb_next s') h (concat keep) None \<and> nb_freed s' = nb_freed s @ concat outs \<and>
    last_known s' k = lst \<and> tids_rx_reorder s' = tids_rx_reorder s \<and>
    pn_replays s' = (pn_replays s)(pn_replay_type sec := pn_replays s (pn_replay_type sec)
      + of_nat (length (concat outs)))"
  using pn_check_refines_filter_aux [OF assms] .

text \<open>
  Three CCMP frames with the packet numbers 5, 5 and 9: the second is a replay of the first.
\<close>

definition pn_ex_junk :: "nbuf \<Rightarrow> htt_rx_pn" where
  "pn_ex_junk b = \<lparr>pn128_0 = 0, pn128_1 = 0\<rparr>"

definition pn_ex :: rx_state where
  "pn_ex = rx_quiet\<lparr>nb_next := (\<lambda>_. None)(1 := Some 2, 2 := Some 3),
     nb_desc := (\<lambda>b. rx_desc0\<lparr>d_encrypted := True, d_pn_31_0 := (if b = 3 then 9 else 5)\<rparr>)\<rparr>"

lemma pn_ex_facts:
  "\<not> fw_pn_check (peers pn_ex 0)" "pr_opmode (peers pn_ex 0) \<noteq> wlan_op_mode_ibss"
  "htt_sec_type_aes_ccmp = peer_sec_type (peers pn_ex 0) (d_mcast (nb_desc pn_ex 1))"
  "rx_pn_cmp htt_sec_type_aes_ccmp = Some ol_rx_pn_cmp48"
  "lseg (nb_next pn_ex) (Some 1) (concat [[1], [2], [3]]) None"
  "m \<in> set [[1], [2], [3]] \<Longrightarrow> mpdu_ok pn_ex m" "nb_freed pn_ex = []"
  by (auto simp: pn_ex_def rx_quiet_defs peer_sec_type_def rx_pn_cmp_def mpdu_ok_def)

lemma pn_ex_spec:
  "pn_check_spec pn_ex_junk (0, 0) htt_sec_type_aes_ccmp ol_rx_pn_cmp48 (\<not> d_mcast (nb_desc pn_ex 1)) pn_ex
     (last_known pn_ex (0, 0)) [[1], [2], [3]]
   = ([[1], [3]], [[2]], Some \<lparr>pn128_0 = 9, pn128_1 = 0\<rparr>)"
  by (simp add: last_known_def pn_ex_def rx_quiet_defs mpdu_pn_def htt_rx_mpdu_desc_pn_ll_def pn_ex_junk_def
      rx_pn_len_def ol_rx_pn_cmp48_def pn48_def)

theorem pn_check_refines_filter_witness:
  "\<exists>h s'. ol_rx_pn_check_base pn_ex_junk (0, 0) 1 pn_ex = Some (h, s') \<and> lseg (nb_next s') h [1, 3] None \<and>
     nb_freed s' = [2]"
  using pn_check_refines_filter [of pn_ex "(0, 0)", unfolded fst_conv, OF pn_ex_facts(1-6) pn_ex_spec [unfolded fst_conv]]
  by (auto simp: pn_ex_facts(7))

text \<open>
  C30. With a 48-bit cipher (TKIP or CCMP) the packet numbers of the accepted encrypted MPDUs of a
  list are strictly increasing, all above the last number of the TID, and the last number never goes
  down: a frame with a number at or below one accepted earlier is never delivered.  Frames that are
  not encrypted are all kept, and only encrypted frames are freed.
\<close>

theorem pn_check_no_replay:
  assumes "\<not> fw_pn_check (peers s (fst k))" and "pr_opmode (peers s (fst k)) \<noteq> wlan_op_mode_ibss"
    and "sec = peer_sec_type (peers s (fst k)) (d_mcast (nb_desc s b))"
    and "sec \<in> {htt_sec_type_tkip, htt_sec_type_tkip_nomic, htt_sec_type_aes_ccmp}"
    and "lseg (nb_next s) (Some b) (concat ms) None" and "\<And>m. m \<in> set ms \<Longrightarrow> mpdu_ok s m"
  shows "\<exists>h s' keep outs. ol_rx_pn_check_base junk k b s = Some (h, s') \<and>
    lseg (nb_next s') h (concat keep) None \<and> nb_freed s' = nb_freed s @ concat outs \<and>
    subseq keep ms \<and> mset keep + mset outs = mset ms \<and> list_all (mpdu_enc s) outs \<and>
    sorted_wrt (\<lambda>m n. pn48_nat (mpdu_pn s junk sec m) < pn48_nat (mpdu_pn s junk sec n))
      (filter (mpdu_enc s) keep) \<and>
    (\<forall>m\<in>set keep. mpdu_enc s m \<longrightarrow> tids_last_pn_valid s k \<longrightarrow>
       pn48_nat (tids_last_pn s k) < pn48_nat (mpdu_pn s junk sec m)) \<and>
    (\<forall>m\<in>set keep. mpdu_enc s m \<longrightarrow> tids_last_pn_valid s' k \<and>
       pn48_nat (mpdu_pn s junk sec m) \<le> pn48_nat (tids_last_pn s' k)) \<and>
    (tids_last_pn_valid s k \<longrightarrow> tids_last_pn_valid s' k \<and>
       pn48_nat (tids_last_pn s k) \<le> pn48_nat (tids_last_pn s' k))"
proof -
  have cmp: "rx_pn_cmp sec = Some ol_rx_pn_cmp48" using assms(4) by (simp add: rx_pn_cmp_def)
  let ?u = "\<not> d_mcast (nb_desc s b)"
  obtain keep outs lst where spec:
    "pn_check_spec junk k sec ol_rx_pn_cmp48 ?u s (last_known s k) ms = (keep, outs, lst)"
    by (cases "pn_check_spec junk k sec ol_rx_pn_cmp48 ?u s (last_known s k) ms") auto
  note inc = pn_filter_increasing [OF cmp48_key spec]
  obtain h s' where run: "ol_rx_pn_check_base junk k b s = Some (h, s')"
    "lseg (nb_next s') h (concat keep) None" "nb_freed s' = nb_freed s @ concat outs" "last_known s' k = lst"
    using pn_check_refines_filter_aux [OF assms(1,2,3) cmp assms(5,6) spec] by blast
  have "(\<forall>m\<in>set keep. mpdu_enc s m \<longrightarrow> tids_last_pn_valid s' k \<and>
       pn48_nat (mpdu_pn s junk sec m) \<le> pn48_nat (tids_last_pn s' k))"
  proof (intro ballI impI)
    fix m assume "m \<in> set keep" "mpdu_enc s m"
    then have m: "m \<in> set (filter (mpdu_enc s) keep)" by simp
    then have "filter (mpdu_enc s) keep \<noteq> []" by (metis empty_iff list.set(1))
    then have "\<exists>l. lst = Some l" using inc by blast
    then have "tids_last_pn_valid s' k" "lst = Some (tids_last_pn s' k)"
      using run(4) by (auto simp: last_known_def split: if_splits)
    with inc m show "tids_last_pn_valid s' k \<and> pn48_nat (mpdu_pn s junk sec m) \<le> pn48_nat (tids_last_pn s' k)"
      by blast
  qed
  moreover have "tids_last_pn_valid s k \<longrightarrow> tids_last_pn_valid s' k \<and>
       pn48_nat (tids_last_pn s k) \<le> pn48_nat (tids_last_pn s' k)"
    using inc run(4) by (auto simp: last_known_def split: if_splits)
  moreover have "\<forall>m\<in>set keep. mpdu_enc s m \<longrightarrow> tids_last_pn_valid s k \<longrightarrow>
       pn48_nat (tids_last_pn s k) < pn48_nat (mpdu_pn s junk sec m)"
    using inc by (auto simp: last_known_def)
  moreover note pn_filter_subseq [OF spec] pn_filter_partition [OF spec]
  ultimately show ?thesis using run inc by blast
qed

theorem pn_check_no_replay_witness:
  "\<exists>h s' keep outs. ol_rx_pn_check_base pn_ex_junk (0, 0) 1 pn_ex = Some (h, s') \<and>
     nb_freed s' = concat outs \<and> mset keep + mset outs = mset [[1], [2], [3]] \<and>
     sorted_wrt (\<lambda>m n. pn48_nat (mpdu_pn pn_ex pn_ex_junk htt_sec_type_aes_ccmp m)
       < pn48_nat (mpdu_pn pn_ex pn_ex_junk htt_sec_type_aes_ccmp n)) (filter (mpdu_enc pn_ex) keep)"
  using pn_check_no_replay [of pn_ex "(0, 0)", unfolded fst_conv, OF pn_ex_facts(1-3) _ pn_ex_facts(5,6),
      of pn_ex_junk]
  by (simp add: pn_ex_facts(7)) blast

section \<open>The comparisons\<close>

definition pn128_nat :: "htt_rx_pn \<Rightarrow> nat" where
  "pn128_nat p = unat (pn128_1 p) * 2 ^ 64 + unat (pn128_0 p)"

lemma lexicographic_nat:
  fixes a b c d :: nat
  assumes "b < n" and "d < n"
  shows "a * n + b \<le> c * n + d \<longleftrightarrow> a < c \<or> a = c \<and> b \<le> d"
proof (cases "a = c")
  case True
  then show ?thesis by simp
next
  case False
  show ?thesis
  proof (cases "a < c")
    case True
    then have "(a + 1) * n \<le> c * n" by (intro mult_right_mono) auto
    then show ?thesis using True assms by (simp add: algebra_simps)
  next
    case False
    with \<open>a \<noteq> c\<close> have "c < a" by simp
    then have "(c + 1) * n \<le> a * n" by (intro mult_right_mono) auto
    then show ?thesis using \<open>c < a\<close> assms by (simp add: algebra_simps)
  qed
qed

text \<open>
  The WAPI comparison reports a replay exactly when the 128-bit number does not exceed the old
  one, or when the frame is unicast and its parity is wrong: an access point accepts even numbers
  only, every other mode odd numbers only.
\<close>

theorem wapi_cmp_order:
  "ol_rx_pn_wapi_cmp n l u om \<longleftrightarrow>
     pn128_nat n \<le> pn128_nat l \<or> (u \<and> (if om = wlan_op_mode_ap then odd (pn128_nat n) else even (pn128_nat n)))"
proof -
  have bound: "unat (pn128_0 x) < 2 ^ 64" for x using unsigned_less [of "pn128_0 x", where ?'a = nat] by simp
  have ord: "pn128_nat n \<le> pn128_nat l \<longleftrightarrow>
      (if pn128_1 n = pn128_1 l then pn128_0 n \<le> pn128_0 l else pn128_1 n < pn128_1 l)"
    unfolding pn128_nat_def lexicographic_nat [OF bound bound]
    by (auto simp: word_le_nat_alt word_less_nat_alt)
  have par: "even (pn128_nat n) \<longleftrightarrow> pn128_0 n AND 1 = 0"
  proof -
    have "even (pn128_nat n) \<longleftrightarrow> even (unat (pn128_0 n))" by (simp add: pn128_nat_def)
    also have "\<dots> \<longleftrightarrow> unat (pn128_0 n AND 1) = 0"
      by (simp only: unsigned_and_eq unsigned_1) (simp only: and_one_eq even_iff_mod_2_eq_zero)
    finally show ?thesis by (simp only: unat_eq_0)
  qed
  have one: "(pn128_0 n AND 1 \<noteq> 1) = (pn128_0 n AND 1 = 0)"
    by (metis and_one_eq not_mod_2_eq_1_eq_0)
  show ?thesis
    unfolding ol_rx_pn_wapi_cmp_def Let_def ord one using par by auto
qed

text \<open>
  The strict check of fragments accepts a 24-bit or 48-bit number exactly when it is the
  successor of the previous one, without wrap-around, and accepts every WAPI number.
\<close>

theorem pn_strict_is_successor:
  "(ol_rx_pn_strict_chk n l u 48 om \<longleftrightarrow> pn48_nat n = Suc (pn48_nat l)) \<and>
   (ol_rx_pn_strict_chk n l u 24 om \<longleftrightarrow>
      unat (pn24 n AND 0xffffff) = Suc (unat (pn24 l AND 0xffffff))) \<and>
   ol_rx_pn_strict_chk n l u 128 om"
proof -
  have "unat ((w AND 0xffffffffffff) + 1) = Suc (unat (w AND 0xffffffffffff))" for w :: u64
    using unat_and_mask [of "0xffffffffffff" 48 w] by (simp add: unat_word_ariths)
  moreover have "unat ((w AND 0xffffff) + 1) = Suc (unat (w AND 0xffffff))" for w :: u32
    using unat_and_mask [of "0xffffff" 24 w] by (simp add: unat_word_ariths)
  ultimately show ?thesis
    unfolding ol_rx_pn_strict_chk_def pn48_nat_def by (simp flip: unat_inject)
qed

lemma pn_two_fields:
  "unat (ucast (a :: u32) OR push_bit 32 (ucast (b :: u16)) :: u64) = unat a + unat b * 2 ^ 32"
  "unat (ucast (a :: u32) OR push_bit 32 (ucast (c :: u32)) :: u64) = unat a + unat c * 2 ^ 32"
  using unsigned_less [of a, where ?'a = nat] unsigned_less [of b, where ?'a = nat]
    unsigned_less [of c, where ?'a = nat]
  by (subst unat_or_push_bit, auto)+

lemma pn_three_fields:
  "unat ((ucast (a :: u32) OR push_bit 32 (ucast (b :: u16))) OR push_bit 48 (ucast (c :: u16)) :: u64)
     = unat a + unat b * 2 ^ 32 + unat c * 2 ^ 48"
  using unsigned_less [of a, where ?'a = nat] unsigned_less [of b, where ?'a = nat]
    unsigned_less [of c, where ?'a = nat]
  by (subst unat_or_push_bit) (auto simp: pn_two_fields)

lemma pn24_field:
  "ucast ((x AND 0xffffffff00000000) OR ucast (a AND 0xffffff) :: u64) AND (0xffffff :: u32) = a AND 0xffffff"
proof (rule bit_word_eqI)
  fix m assume "m < LENGTH(32)"
  have "bit (0xffffffff00000000 :: u64) m = False" if "m < 32"
  proof -
    have "(0xffffffff00000000 :: u64) = push_bit 32 0xffffffff" by simp
    then show ?thesis using that by (simp only: bit_push_bit_iff) simp
  qed
  then show "bit (ucast ((x AND 0xffffffff00000000) OR ucast (a AND 0xffffff) :: u64) AND (0xffffff :: u32)) m
      = bit (a AND 0xffffff) m"
    by (auto simp: bit_simps)
qed

text \<open>
  The number read from a receive descriptor is the one its fields spell: 48 bits are the low 32
  bits and the next 16, 128 bits are these two, another 16, and two words of 32, and a 24-bit number
  is the low 24 bits.
\<close>

theorem pn_getter_value:
  "pn48_nat (htt_rx_mpdu_desc_pn_ll d junk 48) = unat (d_pn_47_32 d) * 2 ^ 32 + unat (d_pn_31_0 d) \<and>
   pn128_nat (htt_rx_mpdu_desc_pn_ll d junk 128) =
     unat (d_wapi_127_96 d) * 2 ^ 96 + unat (d_wapi_95_64 d) * 2 ^ 64 + unat (d_wapi_63_48 d) * 2 ^ 48
       + unat (d_pn_47_32 d) * 2 ^ 32 + unat (d_pn_31_0 d) \<and>
   unat (pn24 (htt_rx_mpdu_desc_pn_ll d junk 24) AND 0xffffff) = unat (d_pn_31_0 d) mod 2 ^ 24"
  proof (intro conjI)
  have "unat (d_pn_31_0 d) + unat (d_pn_47_32 d) * 2 ^ 32 < 2 ^ 48"
    using unsigned_less [of "d_pn_31_0 d", where ?'a = nat] unsigned_less [of "d_pn_47_32 d", where ?'a = nat]
    by simp
  then show "pn48_nat (htt_rx_mpdu_desc_pn_ll d junk 48) = unat (d_pn_47_32 d) * 2 ^ 32 + unat (d_pn_31_0 d)"
    by (simp add: pn48_nat_def pn48_def htt_rx_mpdu_desc_pn_ll_def unat_and_low pn_two_fields add.commute)
  show "pn128_nat (htt_rx_mpdu_desc_pn_ll d junk 128) =
     unat (d_wapi_127_96 d) * 2 ^ 96 + unat (d_wapi_95_64 d) * 2 ^ 64 + unat (d_wapi_63_48 d) * 2 ^ 48
       + unat (d_pn_47_32 d) * 2 ^ 32 + unat (d_pn_31_0 d)"
    by (simp add: pn128_nat_def htt_rx_mpdu_desc_pn_ll_def pn_two_fields pn_three_fields algebra_simps)
  show "unat (pn24 (htt_rx_mpdu_desc_pn_ll d junk 24) AND 0xffffff) = unat (d_pn_31_0 d) mod 2 ^ 24"
    by (simp add: pn24_def htt_rx_mpdu_desc_pn_ll_def pn24_field unat_and_mask [of _ 24])
qed

end
