(* ===== verification/Rx_Defrag.thy ===== *)
theory Rx_Defrag
  imports Rx_Frag_Data Rx_Pn Rx_Waitlist
begin

text \<open>
  The reassembly of fragmented frames (\<open>ol_rx_defrag.c\<close>): keeping the fragments of a TID as a
  list, recognising a complete set, and turning it into one frame.  What the fragments become after
  that (\<open>ol_rx_fwd_check\<close>, \<open>ol_rx_deliver\<close>, \<open>ol_rx_in_order_deliver\<close>) and how the
  indication's buffer is popped are parameters.
\<close>

section \<open>The environment\<close>

type_synonym rx_sink = "tidk \<Rightarrow> nbuf option \<Rightarrow> rx_state \<Rightarrow> rx_state option"

record rx_env =
  skb :: skb_ops
  pn_junk :: "nbuf \<Rightarrow> htt_rx_pn"
  fwd_check :: rx_sink
  deliver :: rx_sink
  in_order_deliver :: rx_sink
  full_reorder_offload :: bool
  frame_8023 :: bool
  defrag_timeout_check :: bool
  defrag_timeout_len :: u32

definition set_data :: "nbuf \<Rightarrow> u8 list \<Rightarrow> rx_state \<Rightarrow> rx_state" where
  "set_data b d s = s\<lparr>nb_data := (nb_data s)(b := d)\<rparr>"

section \<open>From fragments to a frame\<close>

text \<open>
  A step on one fragment: \<open>False\<close> with the state when the step fails, \<open>None\<close> for an access
  outside the data.
\<close>

definition on_data ::
  "(u8 list \<Rightarrow> u8 list defrag_status option) \<Rightarrow> nbuf \<Rightarrow> rx_state \<Rightarrow> (bool \<times> rx_state) option" where
  "on_data f b s =
     (case f (nb_data s b) of
        None \<Rightarrow> None
      | Some OL_RX_DEFRAG_ERR \<Rightarrow> Some (False, s)
      | Some (OL_RX_DEFRAG_OK d) \<Rightarrow> Some (True, set_data b d s))"

definition frag_step ::
  "skb_ops \<Rightarrow> htt_sec_type \<Rightarrow> u16 \<Rightarrow> nbuf \<Rightarrow> rx_state \<Rightarrow> (bool \<times> rx_state) option" where
  "frag_step e sec hdr_space b s =
     (if sec = htt_sec_type_tkip \<or> sec = htt_sec_type_tkip_nomic
      then on_data (ol_rx_frag_tkip_decap e hdr_space) b s
      else if sec = htt_sec_type_aes_ccmp
      then (case on_data (ol_rx_frag_ccmp_demic e hdr_space) b s of
              Some (True, s1) \<Rightarrow> on_data (ol_rx_frag_ccmp_decap e hdr_space) b s1
            | r \<Rightarrow> r)
      else if sec = htt_sec_type_wep40 \<or> sec = htt_sec_type_wep104 \<or> sec = htt_sec_type_wep128
      then on_data (ol_rx_frag_wep_decap e hdr_space) b s
      else Some (True, s))"

text \<open>The loop of one cipher over the fragments; a failing step frees the whole list.\<close>

partial_function (option) defrag_decap_loop ::
  "skb_ops \<Rightarrow> htt_sec_type \<Rightarrow> u16 \<Rightarrow> nbuf \<Rightarrow> nbuf option \<Rightarrow> rx_state \<Rightarrow> (bool \<times> rx_state) option" where
  "defrag_decap_loop e sec hdr_space frag_list cur s =
     (case cur of
        None \<Rightarrow> Some (True, s)
      | Some b \<Rightarrow>
          (let tmp_next = nb_next s b
           in case frag_step e sec hdr_space b s of
                None \<Rightarrow> None
              | Some (ok, s1) \<Rightarrow>
                  (if ok then defrag_decap_loop e sec hdr_space frag_list tmp_next s1
                   else map_option (Pair False) (ol_rx_frames_free (Some frag_list) s1))))"

text \<open>
  The first loop: the packet number of each fragment on its own, then its checksum goes.  A failing
  check has freed the fragment; the ones before and behind it are freed here.
\<close>

partial_function (option) defrag_pn_loop ::
  "rx_env \<Rightarrow> tidk \<Rightarrow> nbuf \<Rightarrow> nbuf option \<Rightarrow> nbuf option \<Rightarrow> rx_state \<Rightarrow> (bool \<times> rx_state) option" where
  "defrag_pn_loop e k frag_list prev cur s =
     (case cur of
        None \<Rightarrow> Some (True, s)
      | Some b \<Rightarrow>
          (let tmp_next = nb_next s b
           in case ol_rx_pn_check_base (pn_junk e) k b (adf_nbuf_set_next b None s) of
                None \<Rightarrow> None
              | Some (out, s1) \<Rightarrow>
                  (if out = None
                   then (case (case prev of
                                 None \<Rightarrow> Some s1
                               | Some p \<Rightarrow> ol_rx_frames_free (Some frag_list) (adf_nbuf_set_next p None s1)) of
                           None \<Rightarrow> None
                         | Some s2 \<Rightarrow> map_option (Pair False) (ol_rx_frames_free tmp_next s2))
                   else defrag_pn_loop e k frag_list (Some b) tmp_next
                          (adf_nbuf_set_next b tmp_next
                             (set_data b (adf_nbuf_trim_tail (skb e) 4 (nb_data s1 b)) s1)))))"

text \<open>
  Appending the fragments to the first.  \<open>adf_nbuf_cat\<close> frees the appended buffer when there is
  room and leaves both alone when there is none.
\<close>

definition ol_rx_defrag_concat :: "skb_ops \<Rightarrow> nbuf \<Rightarrow> nbuf \<Rightarrow> rx_state \<Rightarrow> rx_state option" where
  "ol_rx_defrag_concat e dst src s =
     (if expand_ok e dst src
      then Some (htt_rx_desc_frame_free src (set_data dst (nb_data s dst @ nb_data s src) s))
      else None)"

partial_function (option) recombine_loop ::
  "skb_ops \<Rightarrow> u16 \<Rightarrow> nbuf \<Rightarrow> nbuf option \<Rightarrow> rx_state \<Rightarrow> (bool \<times> rx_state) option" where
  "recombine_loop e hdrsize rx_nbuf msdu s =
     (case msdu of
        None \<Rightarrow> Some (True, s)
      | Some b \<Rightarrow>
          (let tmp = nb_next s b;
               s1 = adf_nbuf_set_next b None s;
               s2 = set_data b (adf_nbuf_pull_head e (unat hdrsize) (nb_data s1 b)) s1
           in case ol_rx_defrag_concat e rx_nbuf b s2 of
                None \<Rightarrow>
                  map_option (\<lambda>s3. (False, htt_rx_desc_frame_free b (htt_rx_desc_frame_free rx_nbuf s3)))
                    (ol_rx_frames_free tmp s2)
              | Some s3 \<Rightarrow> recombine_loop e hdrsize rx_nbuf tmp s3))"

text \<open>
  The fragment bits of the first header are cleared; the sequence control is little-endian, as the
  host is.
\<close>

definition ol_rx_defrag_decap_recombine ::
  "skb_ops \<Rightarrow> nbuf \<Rightarrow> u16 \<Rightarrow> rx_state \<Rightarrow> (nbuf option \<times> rx_state) option" where
  "ol_rx_defrag_decap_recombine e frag_list hdrsize s =
     (case recombine_loop e hdrsize frag_list (nb_next s frag_list) (adf_nbuf_set_next frag_list None s) of
        None \<Rightarrow> None
      | Some (False, s1) \<Rightarrow> Some (None, s1)
      | Some (True, s1) \<Rightarrow>
          (case Option.bind (buf_upd 1 (\<lambda>x. x AND NOT IEEE80211_FC1_MORE_FRAG) (nb_data s1 frag_list))
                  (buf_upd 22 (\<lambda>x. x AND NOT (ucast IEEE80211_SEQ_FRAG_MASK))) of
             None \<Rightarrow> None
           | Some d \<Rightarrow> if length d < 24 then None
                       else Some (Some frag_list, set_data frag_list d s1)))"

definition sec_index_type :: "tidk \<Rightarrow> nbuf \<Rightarrow> rx_state \<Rightarrow> htt_sec_type" where
  "sec_index_type k b s = peer_sec_type (peers s (fst k)) (d_mcast (nb_desc s b))"

definition michael_key_of :: "rx_peer \<Rightarrow> bool \<Rightarrow> u32 list" where
  "michael_key_of p mcast = (if mcast then michael_key_mcast p else michael_key_ucast p)"

text \<open>The last steps: QoS field and 802.3 conversion of the reassembled frame.\<close>

definition defrag_finish :: "rx_env \<Rightarrow> tidk \<Rightarrow> u16 \<Rightarrow> nbuf \<Rightarrow> rx_state \<Rightarrow> rx_state option" where
  "defrag_finish e k hdr_space msdu s =
     (let d = nb_data s msdu
      in case (if length d < 2 then None
               else if DEFRAG_IEEE80211_QOS_HAS_SEQ d then ol_rx_defrag_qos_decap (skb e) hdr_space d
               else Some d) of
           None \<Rightarrow> None
         | Some d1 \<Rightarrow>
             (case (if frame_8023 e then ol_rx_defrag_nwifi_to_8023 (skb e) d1 else Some d1) of
                None \<Rightarrow> None
              | Some d2 \<Rightarrow> fwd_check e k (Some msdu) (set_data msdu d2 s)))"

definition defrag_join :: "rx_env \<Rightarrow> tidk \<Rightarrow> nbuf \<Rightarrow> u16 \<Rightarrow> rx_state \<Rightarrow> rx_state option" where
  "defrag_join e k frag_list hdr_space s =
     (let mcast = d_mcast (nb_desc s frag_list); p = peers s (fst k)
      in case ol_rx_defrag_decap_recombine (skb e) frag_list hdr_space s of
           None \<Rightarrow> None
         | Some (None, s1) \<Rightarrow> Some s1
         | Some (Some msdu, s1) \<Rightarrow>
             (if peer_sec_type p mcast = htt_sec_type_tkip
              then (case ol_rx_frag_tkip_demic (skb e) (concat (map put_le32 (michael_key_of p mcast)))
                           msdu hdr_space s1 of
                      None \<Rightarrow> None
                    | Some OL_RX_DEFRAG_ERR \<Rightarrow> Some (htt_rx_desc_frame_free msdu s1)
                    | Some (OL_RX_DEFRAG_OK d) \<Rightarrow> defrag_finish e k hdr_space msdu (set_data msdu d s1))
              else defrag_finish e k hdr_space msdu s1))"

definition ol_rx_defrag :: "rx_env \<Rightarrow> tidk \<Rightarrow> nbuf \<Rightarrow> rx_state \<Rightarrow> rx_state option" where
  "ol_rx_defrag e k frag_list s =
     (if pr_safemode (peers s (fst k))
      then (if full_reorder_offload e then in_order_deliver e k (Some frag_list) s
            else deliver e k (Some frag_list) s)
      else (case defrag_pn_loop e k frag_list None (Some frag_list) s of
              None \<Rightarrow> None
            | Some (False, s1) \<Rightarrow> Some s1
            | Some (True, s1) \<Rightarrow>
                (case ol_rx_frag_hdrsize (nb_data s1 frag_list) of
                   None \<Rightarrow> None
                 | Some hdr_space \<Rightarrow>
                     (case defrag_decap_loop (skb e) (sec_index_type k frag_list s1) hdr_space frag_list
                             (Some frag_list) s1 of
                        None \<Rightarrow> None
                      | Some (False, s2) \<Rightarrow> Some s2
                      | Some (True, s2) \<Rightarrow> defrag_join e k frag_list hdr_space s2))))"

section \<open>Lemmas\<close>

lemma set_data_fields [simp]:
  "nb_data (set_data b d s) = (nb_data s)(b := d)" "nb_next (set_data b d s) = nb_next s"
  "nb_desc (set_data b d s) = nb_desc s" "nb_freed (set_data b d s) = nb_freed s"
  "peers (set_data b d s) = peers s" "tids_rx_reorder (set_data b d s) = tids_rx_reorder s"
  "waitlist (set_data b d s) = waitlist s" "tids_last_pn (set_data b d s) = tids_last_pn s"
  "tids_last_pn_valid (set_data b d s) = tids_last_pn_valid s"
  by (simp_all add: set_data_def)

lemma set_next_fields [simp]:
  "nb_data (adf_nbuf_set_next b v s) = nb_data s" "nb_desc (adf_nbuf_set_next b v s) = nb_desc s"
  "nb_freed (adf_nbuf_set_next b v s) = nb_freed s" "peers (adf_nbuf_set_next b v s) = peers s"
  "tids_last_pn (adf_nbuf_set_next b v s) = tids_last_pn s"
  "tids_last_pn_valid (adf_nbuf_set_next b v s) = tids_last_pn_valid s"
  by (simp_all add: adf_nbuf_set_next_def)

lemma frame_free_fields [simp]:
  "nb_data (htt_rx_desc_frame_free b s) = nb_data s" "nb_desc (htt_rx_desc_frame_free b s) = nb_desc s"
  "nb_freed (htt_rx_desc_frame_free b s) = nb_freed s @ [b]" "peers (htt_rx_desc_frame_free b s) = peers s"
  "tids_rx_reorder (htt_rx_desc_frame_free b s) = tids_rx_reorder s"
  by (simp_all add: htt_rx_desc_frame_free_def)

text \<open>States that agree on the buffers, the peers and the lists.\<close>

definition bufs_eq :: "rx_state \<Rightarrow> rx_state \<Rightarrow> bool" where
  "bufs_eq s t \<longleftrightarrow> nb_next s = nb_next t \<and> nb_desc s = nb_desc t \<and> nb_data s = nb_data t \<and>
     nb_freed s = nb_freed t \<and> peers s = peers t \<and> tids_rx_reorder s = tids_rx_reorder t \<and>
     waitlist s = waitlist t"

text \<open>The packet-number check of one fragment on its own.\<close>

lemma pn_loop_end: "pn_check_loop junk k sec u h t None v s = Some (h, t, s)"
  by (subst pn_check_loop.simps) simp

lemma free_replayed_one:
  "free_replayed t b b s = Some ((htt_rx_desc_frame_free b s)
     \<lparr>pn_replays := (pn_replays s)(t := pn_replays s t + 1)\<rparr>)"
  by (subst free_replayed.simps) (simp add: Let_def)

lemma pn_cmp_known: "rx_pn_len sec \<noteq> 0 \<Longrightarrow> \<exists>cmp. rx_pn_cmp sec = Some cmp"
  by (simp add: rx_pn_len_def rx_pn_cmp_def split: if_splits)

lemma pn_single_out:
  assumes nx: "nb_next s b = None" and "d_completes_mpdu (nb_desc s b)"
    and sec: "sec = peer_sec_type (peers s (fst k)) (d_mcast (nb_desc s b))"
    and on: "\<not> fw_pn_check (peers s (fst k))" "pr_opmode (peers s (fst k)) \<noteq> wlan_op_mode_ibss" "rx_pn_len sec \<noteq> 0"
    and cmp: "rx_pn_cmp sec = Some cmp"
    and new: "new = htt_rx_mpdu_desc_pn_ll (nb_desc s b) (junk b) (rx_pn_len sec)"
  shows "ol_rx_pn_check_base junk k b s =
    (if \<not> d_encrypted (nb_desc s b) then Some (Some b, s)
     else if tids_last_pn_valid s k \<and>
       cmp new (tids_last_pn s k) (\<not> d_mcast (nb_desc s b)) (pr_opmode (peers s (fst k)))
     then Some (None, (htt_rx_desc_frame_free b s)\<lparr>pn_replays := (pn_replays s)
            (pn_replay_type sec := pn_replays s (pn_replay_type sec) + 1)\<rparr>)
     else Some (Some b, s\<lparr>tids_last_pn_valid := (tids_last_pn_valid s)(k := True),
            tids_last_pn := (tids_last_pn s)(k := new)\<rparr>))"
proof -
  have tl: "adf_nbuf_set_next b None t = t" if "nb_next t = nb_next s" for t
    using nx fun_upd_idem [of "nb_next s" b None] that by (simp add: adf_nbuf_set_next_def)
  have list: "ol_rx_mpdu_list_next b s = Some (b, None)"
    using assms(1,2) by (subst ol_rx_mpdu_list_next.simps) simp
  have va: "s\<lparr>tids_last_pn_valid := (tids_last_pn_valid s)(k := True)\<rparr> = s" if "tids_last_pn_valid s k"
    using that fun_upd_idem [of "tids_last_pn_valid s" k True] by simp
  note base = ol_rx_pn_check_base_def [of junk k b s] Let_def sec [symmetric]
  note mpdu = pn_check_mpdu_def list option.case prod.case Let_def new [symmetric] ADD_MPDU_TO_LIST_def
    option.map if_True if_False cmp
  consider "\<not> d_encrypted (nb_desc s b)"
    | "d_encrypted (nb_desc s b)" "\<not> tids_last_pn_valid s k"
    | "d_encrypted (nb_desc s b)" "tids_last_pn_valid s k"
      "\<not> cmp new (tids_last_pn s k) (\<not> d_mcast (nb_desc s b)) (pr_opmode (peers s (fst k)))"
    | "d_encrypted (nb_desc s b)" "tids_last_pn_valid s k"
      "cmp new (tids_last_pn s k) (\<not> d_mcast (nb_desc s b)) (pr_opmode (peers s (fst k)))"
    by blast
  then show ?thesis
  proof cases
    case 1
    then have "pn_check_mpdu junk k sec (\<not> d_mcast (nb_desc s b)) None None b (tids_last_pn_valid s k) s
        = Some (Some b, Some b, None, tids_last_pn_valid s k, s)"
      by (simp add: mpdu)
    then show ?thesis using 1 unfolding base
      by (subst pn_check_loop.simps) (simp add: pn_loop_end tl on)
  next
    case 2
    then have "pn_check_mpdu junk k sec (\<not> d_mcast (nb_desc s b)) None None b (tids_last_pn_valid s k) s
        = Some (Some b, Some b, None, True, s\<lparr>tids_last_pn_valid := (tids_last_pn_valid s)(k := True),
            tids_last_pn := (tids_last_pn s)(k := new)\<rparr>)"
      by (simp add: mpdu)
    then show ?thesis using 2 unfolding base
      by (subst pn_check_loop.simps) (simp add: pn_loop_end tl on)
  next
    case 3
    then have "pn_check_mpdu junk k sec (\<not> d_mcast (nb_desc s b)) None None b (tids_last_pn_valid s k) s
        = Some (Some b, Some b, None, True, s\<lparr>tids_last_pn := (tids_last_pn s)(k := new)\<rparr>)"
      by (simp add: mpdu)
    then show ?thesis using 3 va unfolding base
      by (subst pn_check_loop.simps) (simp add: pn_loop_end tl on)
  next
    case 4
    then have "pn_check_mpdu junk k sec (\<not> d_mcast (nb_desc s b)) None None b (tids_last_pn_valid s k) s
        = Some (None, None, None, True, (htt_rx_desc_frame_free b s)\<lparr>pn_replays := (pn_replays s)
            (pn_replay_type sec := pn_replays s (pn_replay_type sec) + 1)\<rparr>)"
      by (simp add: mpdu free_replayed_one)
    then show ?thesis using 4 unfolding base
      by (subst pn_check_loop.simps) (simp add: pn_loop_end on)
  qed
qed

lemma pn_single_off:
  assumes "fw_pn_check (peers s (fst k)) \<or> pr_opmode (peers s (fst k)) = wlan_op_mode_ibss \<or>
    rx_pn_len (peer_sec_type (peers s (fst k)) (d_mcast (nb_desc s b))) = 0"
  shows "ol_rx_pn_check_base junk k b s = Some (Some b, s)"
  using assms by (auto simp: ol_rx_pn_check_base_def Let_def)

lemma pn_single:
  assumes "nb_next s b = None" and "d_completes_mpdu (nb_desc s b)"
  shows "(\<exists>s1. ol_rx_pn_check_base junk k b s = Some (Some b, s1) \<and> bufs_eq s1 s) \<or>
    (\<exists>s1. ol_rx_pn_check_base junk k b s = Some (None, s1) \<and> bufs_eq s1 (htt_rx_desc_frame_free b s))"
proof (cases "fw_pn_check (peers s (fst k)) \<or> pr_opmode (peers s (fst k)) = wlan_op_mode_ibss \<or>
    rx_pn_len (peer_sec_type (peers s (fst k)) (d_mcast (nb_desc s b))) = 0")
  case True
  then show ?thesis using pn_single_off [OF True] by (simp add: bufs_eq_def)
next
  case False
  then obtain cmp where cmp: "rx_pn_cmp (peer_sec_type (peers s (fst k)) (d_mcast (nb_desc s b))) = Some cmp"
    using pn_cmp_known by blast
  then show ?thesis
    using pn_single_out [OF assms refl _ _ _ cmp refl, of junk] False by (auto simp: bufs_eq_def)
qed

text \<open>A failing check: the fragments before and behind the failing one are freed.\<close>

lemma defrag_pn_fail:
  assumes "lseg (nb_next s) (Some h) us (Some b)" and "lseg (nb_next s) (nb_next s b) vs None"
    and "distinct (us @ b # vs)" and "bufs_eq s1 (htt_rx_desc_frame_free b (adf_nbuf_set_next b None s))"
  shows "\<exists>s2. Option.bind (if us = [] then Some s1
      else ol_rx_frames_free (Some h) (adf_nbuf_set_next (last us) None s1)) (ol_rx_frames_free (nb_next s b)) = Some s2 \<and>
    nb_freed s2 = nb_freed s @ b # us @ vs \<and> nb_desc s2 = nb_desc s \<and> peers s2 = peers s"
proof -
  have s1: "nb_next s1 = (nb_next s)(b := None)" "nb_freed s1 = nb_freed s @ [b]"
    "nb_desc s1 = nb_desc s" "peers s1 = peers s"
    using assms(4) by (simp_all add: bufs_eq_def)
  have vs: "lseg ((nb_next s)(b := None)) (nb_next s b) vs None" using assms(2,3) by (simp add: lseg_frame)
  show ?thesis
  proof (cases us rule: rev_cases)
    case Nil
    then show ?thesis using ol_rx_frames_free_rep [of s1 "nb_next s b" vs] s1 vs by simp
  next
    case (snoc ws u)
    have "lseg (nb_next s) (Some h) (ws @ [u]) (Some b)" using assms(1) snoc by simp
    then have "lseg ((nb_next s)(b := None)) (Some h) (ws @ [u]) (Some b)"
      using assms(3) snoc by (subst lseg_frame) auto
    then have us: "lseg ((nb_next s1)(u := None)) (Some h) us None"
      using assms(3) snoc s1(1) by (auto intro: lseg_relink)
    have "lseg ((nb_next s1)(u := None)) (nb_next s b) vs None"
      using vs assms(3) snoc s1(1) by (simp add: lseg_frame)
    then show ?thesis
      using ol_rx_frames_free_rep [of "adf_nbuf_set_next u None s1" "Some h" us] us snoc s1
        ol_rx_frames_free_rep [of "(adf_nbuf_set_next u None s1)\<lparr>nb_freed := nb_freed s1 @ us\<rparr>" "nb_next s b" vs]
      by simp
  qed
qed

definition pn_loop_post :: "rx_env \<Rightarrow> rx_state \<Rightarrow> nbuf list \<Rightarrow> nbuf list \<Rightarrow> bool \<Rightarrow> rx_state \<Rightarrow> bool" where
  "pn_loop_post e s us vs ok s1 \<longleftrightarrow> nb_desc s1 = nb_desc s \<and> peers s1 = peers s \<and>
     (if ok then nb_next s1 = nb_next s \<and> nb_freed s1 = nb_freed s \<and>
        nb_data s1 = (\<lambda>c. if c \<in> set vs then adf_nbuf_trim_tail (skb e) 4 (nb_data s c) else nb_data s c)
      else \<exists>xs. nb_freed s1 = nb_freed s @ xs \<and> mset xs = mset (us @ vs))"

lemma defrag_pn_loop_rep:
  assumes "lseg (nb_next s) (Some h) us cur" and "lseg (nb_next s) cur vs None"
    and "distinct (us @ vs)" and "\<forall>b \<in> set vs. d_completes_mpdu (nb_desc s b)"
    and "prev = (if us = [] then None else Some (last us))"
  shows "\<exists>ok s1. defrag_pn_loop e k h prev cur s = Some (ok, s1) \<and> pn_loop_post e s us vs ok s1"
  using assms
proof (induction vs arbitrary: us cur prev s)
  case Nil
  then show ?case by (subst defrag_pn_loop.simps) (auto simp: pn_loop_post_def)
next
  case (Cons b vs)
  let ?s0 = "adf_nbuf_set_next b None s"
  have cur: "cur = Some b" and vs: "lseg (nb_next s) (nb_next s b) vs None" using Cons.prems(2) by auto
  have "nb_next ?s0 b = None" "d_completes_mpdu (nb_desc ?s0 b)" using Cons.prems(4) by simp_all
  from pn_single [OF this, of "pn_junk e" k] show ?case
  proof (elim disjE exE conjE)
    fix s1 assume base: "ol_rx_pn_check_base (pn_junk e) k b ?s0 = Some (Some b, s1)" and eq: "bufs_eq s1 ?s0"
    let ?s2 = "adf_nbuf_set_next b (nb_next s b)
      (set_data b (adf_nbuf_trim_tail (skb e) 4 (nb_data s1 b)) s1)"
    have s1: "nb_next s1 = (nb_next s)(b := None)" "nb_freed s1 = nb_freed s" "nb_data s1 = nb_data s"
      "nb_desc s1 = nb_desc s" "peers s1 = peers s"
      using eq by (simp_all add: bufs_eq_def)
    have nx: "nb_next ?s2 = nb_next s" by (simp add: s1)
    have "\<exists>ok s3. defrag_pn_loop e k h (Some b) (nb_next s b) ?s2 = Some (ok, s3) \<and>
        pn_loop_post e ?s2 (us @ [b]) vs ok s3"
      using Cons.prems vs by (intro Cons.IH) (auto simp: nx s1 lseg_append cur)
    then obtain ok s3 where loop: "defrag_pn_loop e k h (Some b) (nb_next s b) ?s2 = Some (ok, s3)"
      and post: "pn_loop_post e ?s2 (us @ [b]) vs ok s3" by blast
    have "b \<notin> set vs" using Cons.prems(3) by simp
    then have "pn_loop_post e s us (b # vs) ok s3"
      using post by (auto simp: pn_loop_post_def nx s1 fun_eq_iff split: if_splits)
    then show ?thesis
      using loop base cur by (subst defrag_pn_loop.simps) (simp add: Let_def)
  next
    fix s1 assume base: "ol_rx_pn_check_base (pn_junk e) k b ?s0 = Some (None, s1)"
      and eq: "bufs_eq s1 (htt_rx_desc_frame_free b ?s0)"
    have us: "lseg (nb_next s) (Some h) us (Some b)" using Cons.prems(1) cur by simp
    obtain s2 where s2: "Option.bind (if us = [] then Some s1
        else ol_rx_frames_free (Some h) (adf_nbuf_set_next (last us) None s1)) (ol_rx_frames_free (nb_next s b)) = Some s2"
      "nb_freed s2 = nb_freed s @ b # us @ vs" "nb_desc s2 = nb_desc s" "peers s2 = peers s"
      using defrag_pn_fail [OF us vs Cons.prems(3) eq] by blast
    have "defrag_pn_loop e k h prev cur s = Some (False, s2)"
      using s2(1) base cur Cons.prems(5)
      by (subst defrag_pn_loop.simps)
        (auto simp: Let_def bind_eq_Some_conv split: option.splits if_splits)
    then show ?thesis using s2 by (auto simp: pn_loop_post_def)
  qed
qed

text \<open>The loop of a cipher: \<open>P\<close> is what its step does to the data of a fragment.\<close>

lemma set_data_twice [simp]: "set_data b d (set_data b c s) = set_data b d s"
  by (simp add: set_data_def)

lemma set_data_same: "set_data b (nb_data s b) s = s"
  by (simp add: set_data_def)

lemma defrag_decap_loop_rep:
  assumes "lseg (nb_next s) cur vs None" and "lseg (nb_next s) (Some h) hs None" and "distinct vs"
    and "\<And>b t. b \<in> set vs \<Longrightarrow> nb_data t b = nb_data s b \<Longrightarrow>
      \<exists>ok d. frag_step e sec hl b t = Some (ok, set_data b d t) \<and> P b ok d"
  shows "\<exists>ok s1. defrag_decap_loop e sec hl h cur s = Some (ok, s1) \<and>
    nb_next s1 = nb_next s \<and> nb_desc s1 = nb_desc s \<and> peers s1 = peers s \<and>
    (if ok then nb_freed s1 = nb_freed s \<and> (\<forall>b \<in> set vs. P b True (nb_data s1 b)) \<and>
       (\<forall>c. c \<notin> set vs \<longrightarrow> nb_data s1 c = nb_data s c)
     else nb_freed s1 = nb_freed s @ hs \<and> (\<exists>b \<in> set vs. \<exists>d. P b False d))"
  using assms
proof (induction vs arbitrary: cur s)
  case Nil
  then show ?case by (subst defrag_decap_loop.simps) auto
next
  case (Cons b vs)
  have cur: "cur = Some b" and vs: "lseg (nb_next s) (nb_next s b) vs None" using Cons.prems(1) by auto
  obtain ok d where step: "frag_step e sec hl b s = Some (ok, set_data b d s)" and P: "P b ok d"
    using Cons.prems(4) [of b s] by auto
  show ?case
  proof (cases ok)
    case False
    have "ol_rx_frames_free (Some h) (set_data b d s)
        = Some ((set_data b d s)\<lparr>nb_freed := nb_freed s @ hs\<rparr>)"
      using ol_rx_frames_free_rep [of "set_data b d s" "Some h" hs] Cons.prems(2) by simp
    then show ?thesis
      using step False cur P by (subst defrag_decap_loop.simps) auto
  next
    case True
    let ?t = "set_data b d s"
    have nb: "b \<notin> set vs" using Cons.prems(3) by simp
    have rest: "\<exists>ok d. frag_step e sec hl c t = Some (ok, set_data c d t) \<and> P c ok d"
      if "c \<in> set vs" "nb_data t c = nb_data ?t c" for c t
    proof -
      have "c \<noteq> b" using nb that(1) by blast
      then show ?thesis using Cons.prems(4) [of c t] that by simp
    qed
    have "\<exists>ok s1. defrag_decap_loop e sec hl h (nb_next s b) ?t = Some (ok, s1) \<and>
        nb_next s1 = nb_next ?t \<and> nb_desc s1 = nb_desc ?t \<and> peers s1 = peers ?t \<and>
        (if ok then nb_freed s1 = nb_freed ?t \<and> (\<forall>b \<in> set vs. P b True (nb_data s1 b)) \<and>
           (\<forall>c. c \<notin> set vs \<longrightarrow> nb_data s1 c = nb_data ?t c)
         else nb_freed s1 = nb_freed ?t @ hs \<and> (\<exists>b \<in> set vs. \<exists>d. P b False d))"
      using Cons.prems(2,3) vs by (intro Cons.IH rest) auto
    then obtain ok' s1 where loop: "defrag_decap_loop e sec hl h (nb_next s b) ?t = Some (ok', s1)"
      and s1: "nb_next s1 = nb_next s" "nb_desc s1 = nb_desc s" "peers s1 = peers s"
      and post: "if ok' then nb_freed s1 = nb_freed ?t \<and> (\<forall>b \<in> set vs. P b True (nb_data s1 b)) \<and>
           (\<forall>c. c \<notin> set vs \<longrightarrow> nb_data s1 c = nb_data ?t c)
         else nb_freed s1 = nb_freed ?t @ hs \<and> (\<exists>b \<in> set vs. \<exists>d. P b False d)" by auto
    have "defrag_decap_loop e sec hl h cur s = Some (ok', s1)"
      using step True loop cur by (subst defrag_decap_loop.simps) simp
    moreover have "nb_data s1 b = d" if ok' using post that nb by simp
    ultimately show ?thesis using s1 post P True nb by (auto split: if_splits)
  qed
qed

text \<open>Appending the fragments: the data grow by the payloads and the appended buffers are freed.\<close>

lemma recombine_loop_rep:
  assumes "lseg (nb_next s) msdu vs None" and "distinct vs" and "h \<notin> set vs"
  shows "\<exists>ok s1. recombine_loop e hl h msdu s = Some (ok, s1) \<and> nb_desc s1 = nb_desc s \<and>
    peers s1 = peers s \<and>
    (if ok then nb_freed s1 = nb_freed s @ vs \<and> nb_next s1 h = nb_next s h \<and>
       nb_data s1 h = nb_data s h @ concat (map (\<lambda>b. adf_nbuf_pull_head e (unat hl) (nb_data s b)) vs)
     else \<exists>xs. nb_freed s1 = nb_freed s @ xs \<and> mset xs = mset (h # vs)) \<and>
    ((\<forall>b \<in> set vs. expand_ok e h b) \<longrightarrow> ok)"
  using assms
proof (induction vs arbitrary: msdu s)
  case Nil
  then show ?case by (subst recombine_loop.simps) auto
next
  case (Cons b vs)
  let ?s2 = "set_data b (adf_nbuf_pull_head e (unat hl) (nb_data s b)) (adf_nbuf_set_next b None s)"
  have cur: "msdu = Some b" and nb: "b \<notin> set vs" "b \<noteq> h" using Cons.prems by auto
  have vs: "lseg (nb_next ?s2) (nb_next s b) vs None"
    using Cons.prems(1,2) by (simp add: lseg_frame)
  show ?case
  proof (cases "expand_ok e h b")
    case False
    let ?s3 = "?s2\<lparr>nb_freed := nb_freed s @ vs\<rparr>"
    let ?s4 = "htt_rx_desc_frame_free b (htt_rx_desc_frame_free h ?s3)"
    have "ol_rx_frames_free (nb_next s b) ?s2 = Some ?s3"
      using ol_rx_frames_free_rep [OF vs] by simp
    then have "recombine_loop e hl h msdu s = Some (False, ?s4)"
      using False cur by (subst recombine_loop.simps) (simp add: ol_rx_defrag_concat_def Let_def)
    moreover have "nb_freed ?s4 = nb_freed s @ vs @ [h, b]" "nb_desc ?s4 = nb_desc s" "peers ?s4 = peers s"
      by simp_all
    moreover have "mset (vs @ [h, b]) = mset (h # b # vs)" by simp
    ultimately show ?thesis using False by (metis list.set_intros(1))
  next
    case True
    let ?s3 = "htt_rx_desc_frame_free b (set_data h (nb_data ?s2 h @ nb_data ?s2 b) ?s2)"
    have "lseg (nb_next ?s3) (nb_next s b) vs None" using vs by simp
    from Cons.IH [OF this] Cons.prems(2,3) obtain ok s1
      where loop: "recombine_loop e hl h (nb_next s b) ?s3 = Some (ok, s1)"
      and s1: "nb_desc s1 = nb_desc ?s3" "peers s1 = peers ?s3"
      and post: "if ok then nb_freed s1 = nb_freed ?s3 @ vs \<and> nb_next s1 h = nb_next ?s3 h \<and>
         nb_data s1 h = nb_data ?s3 h @ concat (map (\<lambda>b. adf_nbuf_pull_head e (unat hl) (nb_data ?s3 b)) vs)
       else \<exists>xs. nb_freed s1 = nb_freed ?s3 @ xs \<and> mset xs = mset (h # vs)"
      and all: "(\<forall>b \<in> set vs. expand_ok e h b) \<longrightarrow> ok" by auto
    have d3: "nb_data ?s3 h = nb_data s h @ adf_nbuf_pull_head e (unat hl) (nb_data s b)"
      using nb by simp
    have "recombine_loop e hl h msdu s = Some (ok, s1)"
      using True cur loop by (subst recombine_loop.simps) (simp only: ol_rx_defrag_concat_def Let_def option.case if_True set_next_fields)
    moreover have m: "map (\<lambda>b. adf_nbuf_pull_head e (unat hl) (nb_data ?s3 b)) vs
        = map (\<lambda>b. adf_nbuf_pull_head e (unat hl) (nb_data s b)) vs"
      using nb Cons.prems(3) by (intro map_cong) auto
    have "if ok then nb_freed s1 = nb_freed s @ b # vs \<and> nb_next s1 h = nb_next s h \<and>
       nb_data s1 h = nb_data s h @ concat (map (\<lambda>b. adf_nbuf_pull_head e (unat hl) (nb_data s b)) (b # vs))
     else \<exists>xs. nb_freed s1 = nb_freed s @ xs \<and> mset xs = mset (h # b # vs)"
    proof (cases ok)
      case True
      then show ?thesis using post nb(2) unfolding m d3 by simp
    next
      case False
      then obtain xs where "nb_freed s1 = nb_freed s @ b # xs" "mset (b # xs) = mset (h # b # vs)"
        using post by (auto simp: add_mset_commute)
      then show ?thesis using False by (metis (no_types))
    qed
    moreover have "nb_desc s1 = nb_desc s" "peers s1 = peers s" using s1 by simp_all
    moreover have "(\<forall>c \<in> set (b # vs). expand_ok e h c) \<longrightarrow> ok" using all by simp
    ultimately show ?thesis by blast
  qed
qed

section \<open>Lengths\<close>

lemma hdrsize_bounds:
  assumes "ol_rx_frag_hdrsize d = Some hl"
  shows "24 \<le> unat hl" and "unat hl \<le> 36"
proof -
  have "hl \<in> {24, 26, 30, 32, 36}" using assms by (auto simp: ol_rx_frag_hdrsize_def split: if_splits)
  then show "24 \<le> unat hl" "unat hl \<le> 36" by auto
qed

lemma trim_length:
  assumes "skb_ok e" and "length d < 2 ^ 32" and "unat n \<le> length d"
  shows "length (adf_nbuf_trim_tail e n d) = length d - unat n"
  using trim_tail_ok [OF assms] by simp

lemma has_extiv_some: "unat hl + 4 \<le> length d \<Longrightarrow> \<exists>x. has_extiv hl d = Some x"
  by (simp add: has_extiv_def load_at_def)

lemma move_hdr_length:
  assumes "skb_ok e" and "unat hl + unat (ic_header c) \<le> length d"
  shows "\<exists>d'. move_hdr e c hl d = Some d' \<and> length d' = length d - unat (ic_header c)"
proof -
  have "\<exists>d1. buf_move (unat (ic_header c)) 0 (unat hl) d = Some d1 \<and> length d1 = length d"
    using assms(2) by (simp add: buf_move_def)
  then show ?thesis using assms by (auto simp: move_hdr_def pull_head_ok)
qed

text \<open>A fragment of the header and 16 bytes is long enough for every step.\<close>

definition step_len :: "u8 list \<Rightarrow> bool \<Rightarrow> u8 list \<Rightarrow> bool" where
  "step_len d ok d' \<longleftrightarrow> ok \<longrightarrow> length d \<le> length d' + 16 \<and> length d' \<le> length d"

definition step_ok :: "nbuf \<Rightarrow> rx_state \<Rightarrow> (bool \<times> rx_state) option \<Rightarrow> bool" where
  "step_ok b s r \<longleftrightarrow> (\<exists>ok d'. r = Some (ok, set_data b d' s) \<and> step_len (nb_data s b) ok d')"

lemma on_data_step_ok:
  assumes "f (nb_data s b) = Some r" and "\<And>y. r = OL_RX_DEFRAG_OK y \<Longrightarrow> step_len (nb_data s b) True y"
  shows "step_ok b s (on_data f b s)"
proof (cases r)
  case OL_RX_DEFRAG_ERR
  then have "on_data f b s = Some (False, set_data b (nb_data s b) s)"
    using assms(1) by (simp add: on_data_def set_data_same)
  then show ?thesis unfolding step_ok_def step_len_def by blast
next
  case (OL_RX_DEFRAG_OK y)
  then have "on_data f b s = Some (True, set_data b y s)" using assms(1) by (simp add: on_data_def)
  then show ?thesis using assms(2) [OF OL_RX_DEFRAG_OK] unfolding step_ok_def by blast
qed

lemma tkip_step:
  assumes "skb_ok e" and "unat hl + 16 \<le> length (nb_data s b)" "length (nb_data s b) < 2 ^ 32"
  shows "step_ok b s (on_data (ol_rx_frag_tkip_decap e hl) b s)"
proof -
  obtain x where x: "has_extiv hl (nb_data s b) = Some x"
    using has_extiv_some [of hl "nb_data s b"] assms by auto
  obtain d1 where d1: "move_hdr e f_tkip hl (nb_data s b) = Some d1" "length d1 = length (nb_data s b) - 8"
    using move_hdr_length [OF assms(1), of hl f_tkip "nb_data s b"] assms by (auto simp: cipher_defs)
  have "length (adf_nbuf_trim_tail e 4 d1) = length d1 - 4"
    using trim_length [OF assms(1), of d1 4] d1 assms by simp
  then show ?thesis
    using d1 assms(2) x
    by (intro on_data_step_ok [of _ _ _ "if x then OL_RX_DEFRAG_OK (adf_nbuf_trim_tail e 4 d1) else OL_RX_DEFRAG_ERR"])
      (auto simp: ol_rx_frag_tkip_decap_def step_len_def f_tkip_def split: if_splits)
qed

lemma wep_step:
  assumes "skb_ok e" and "unat hl + 16 \<le> length (nb_data s b)" "length (nb_data s b) < 2 ^ 32"
  shows "step_ok b s (on_data (ol_rx_frag_wep_decap e hl) b s)"
proof -
  obtain d1 where d1: "move_hdr e f_wep hl (nb_data s b) = Some d1" "length d1 = length (nb_data s b) - 4"
    using move_hdr_length [OF assms(1), of hl f_wep "nb_data s b"] assms by (auto simp: cipher_defs)
  have "length (adf_nbuf_trim_tail e 4 d1) = length d1 - 4"
    using trim_length [OF assms(1), of d1 4] d1 assms by simp
  then show ?thesis
    using d1 assms(2)
    by (intro on_data_step_ok [of _ _ _ "OL_RX_DEFRAG_OK (adf_nbuf_trim_tail e 4 d1)"])
      (auto simp: ol_rx_frag_wep_decap_def step_len_def f_wep_def)
qed

lemma ccmp_step:
  assumes "skb_ok e" and "unat hl + 16 \<le> length (nb_data s b)" "length (nb_data s b) < 2 ^ 32"
  shows "step_ok b s (case on_data (ol_rx_frag_ccmp_demic e hl) b s of
    Some (True, s1) \<Rightarrow> on_data (ol_rx_frag_ccmp_decap e hl) b s1 | r \<Rightarrow> r)"
proof -
  let ?d = "nb_data s b" and ?t = "adf_nbuf_trim_tail e 8 (nb_data s b)"
  obtain x where x: "has_extiv hl ?d = Some x"
    using has_extiv_some [of hl ?d] assms by auto
  have t: "length ?t = length ?d - 8" using trim_length [OF assms(1), of ?d 8] assms by simp
  have "unat hl + 4 \<le> length ?t" using t assms(2) by linarith
  then obtain y where y: "has_extiv hl ?t = Some y" using has_extiv_some by blast
  have "unat hl + unat (ic_header f_ccmp) \<le> length ?t" using t assms(2) by (simp add: f_ccmp_def)
  then obtain d3 where d3: "move_hdr e f_ccmp hl ?t = Some d3" "length d3 = length ?d - 16"
    using move_hdr_length [OF assms(1), of hl f_ccmp ?t] t by (auto simp: f_ccmp_def)
  show ?thesis
  proof (cases x)
    case False
    then have "on_data (ol_rx_frag_ccmp_demic e hl) b s = Some (False, set_data b ?d s)"
      using x by (simp add: on_data_def ol_rx_frag_ccmp_demic_def set_data_same)
    then show ?thesis unfolding step_ok_def step_len_def by auto
  next
    case True
    then have 1: "on_data (ol_rx_frag_ccmp_demic e hl) b s = Some (True, set_data b ?t s)"
      using x by (simp add: on_data_def ol_rx_frag_ccmp_demic_def f_ccmp_def)
    have "on_data (ol_rx_frag_ccmp_decap e hl) b (set_data b ?t s)
        = Some (y, set_data b (if y then d3 else ?t) s)"
      using y d3 by (simp add: on_data_def ol_rx_frag_ccmp_decap_def set_data_def)
    moreover have "step_len ?d y (if y then d3 else ?t)" using d3 assms(2) by (simp add: step_len_def)
    ultimately show ?thesis unfolding 1 step_ok_def by auto
  qed
qed

lemma frag_step_total:
  assumes "skb_ok e" and "unat hl + 16 \<le> length (nb_data s b)" "length (nb_data s b) < 2 ^ 32"
  shows "step_ok b s (frag_step e sec hl b s)"
proof -
  have "step_ok b s (Some (True, s))"
    using set_data_same [of b s] unfolding step_ok_def step_len_def by (metis le_add1 order_refl)
  then show ?thesis
    unfolding frag_step_def using tkip_step [OF assms] wep_step [OF assms] ccmp_step [OF assms] by simp
qed

text \<open>The last steps need 38 bytes.\<close>

lemma qos_decap_total:
  assumes "skb_ok e" and "24 \<le> unat hl" and "unat hl \<le> length d"
  shows "\<exists>d'. ol_rx_defrag_qos_decap e hl d = Some d' \<and> length d \<le> length d' + 6"
proof -
  define q where "q = (2 + (if d ! 1 AND IEEE80211_FC1_ORDER \<noteq> 0 then 4 else 0) :: u16)"
  have q: "unat q \<le> 6" "2 \<le> unat q" by (simp_all add: q_def)
  then have "q \<le> hl" using assms(2) by (simp add: word_le_nat_alt)
  then have "unat (hl - q) = unat hl - unat q" by (simp add: unat_sub)
  then have mv: "buf_move (unat q) 0 (unat (hl - q)) d
      = Some (take (unat q) d @ take (unat hl - unat q) d @ drop (unat hl) d)"
    using assms(2,3) q by (simp add: buf_move_def)
  let ?d2 = "take (unat hl - unat q) d @ drop (unat hl) d"
  have pull: "skb_pull e (unat q) (take (unat q) d @ ?d2) = Some ?d2"
    using assms(1-3) q by (simp add: skb_ok_def)
  have len: "length ?d2 = length d - unat q" using assms(2,3) q by simp
  define f where "f = (\<lambda>x :: u8. x AND NOT IEEE80211_FC0_SUBTYPE_QOS)"
  have upd: "buf_upd 0 f ?d2 = Some (?d2[0 := f (?d2 ! 0)])"
    using len assms(2,3) q by (simp add: buf_upd_def load_at_def store_at_def)
  have "ol_rx_defrag_qos_decap e hl d =
      (if DEFRAG_IEEE80211_QOS_HAS_SEQ d then Some (?d2[0 := f (?d2 ! 0)]) else Some d)"
    unfolding ol_rx_defrag_qos_decap_def Let_def q_def [symmetric] f_def [symmetric] mv option.case pull upd
    using assms(2,3) by simp
  then show ?thesis using len q by auto
qed

lemma nwifi_to_8023_total:
  assumes "skb_ok e" and "32 \<le> length d"
  shows "\<exists>d'. ol_rx_defrag_nwifi_to_8023 e d = Some d'"
  using assms by (simp add: ol_rx_defrag_nwifi_to_8023_def Let_def pull_head_ok)

lemma defrag_finish_total:
  assumes "skb_ok (skb e)" and "24 \<le> unat hl" and "unat hl \<le> length (nb_data s b)" and "38 \<le> length (nb_data s b)"
  shows "\<exists>d. defrag_finish e k hl b s = fwd_check e k (Some b) (set_data b d s)"
proof -
  obtain d1 where d1: "(if DEFRAG_IEEE80211_QOS_HAS_SEQ (nb_data s b)
      then ol_rx_defrag_qos_decap (skb e) hl (nb_data s b) else Some (nb_data s b)) = Some d1" "32 \<le> length d1"
    using qos_decap_total [OF assms(1-3)] assms(4)
    by (cases "DEFRAG_IEEE80211_QOS_HAS_SEQ (nb_data s b)") auto
  obtain d2 where "(if frame_8023 e then ol_rx_defrag_nwifi_to_8023 (skb e) d1 else Some d1) = Some d2"
    using nwifi_to_8023_total [OF assms(1) d1(2)] by (cases "frame_8023 e") auto
  then show ?thesis
    using d1(1) assms(4) unfolding defrag_finish_def Let_def
    by (simp only: not_less [symmetric] option.case if_False) (auto simp: not_less)
qed

text \<open>The check of the Michael code of a reassembled frame.\<close>

lemma michdr_some: "30 \<le> length d \<Longrightarrow> \<exists>hdr. ol_rx_defrag_michdr d = Some hdr"
  by (auto simp: ol_rx_defrag_michdr_def Let_def)

lemma tkip_demic_total:
  assumes e: "skb_ok e" and nx: "nb_next s b = None" and hl: "24 \<le> unat hl" "unat hl + 8 \<le> length (nb_data s b)"
    and len: "length (nb_data s b) < 2 ^ 32" and key: "8 \<le> length key"
  shows "\<exists>r. ol_rx_frag_tkip_demic e key b hl s = Some r \<and>
    (\<forall>d. r = OL_RX_DEFRAG_OK d \<longrightarrow> length (nb_data s b) = length d + 8)"
proof -
  let ?d = "nb_data s b" and ?L = "of_nat (length (nb_data s b)) :: u32"
  let ?n = "ucast (?L - (ucast hl + ucast (ic_miclen f_tkip))) :: u16"
  obtain hdr where hdr: "ol_rx_defrag_michdr ?d = Some hdr" using michdr_some [of ?d] hl by auto
  have L: "unat ?L = length ?d" using len by (simp add: unsigned_of_nat take_bit_nat_eq_self)
  have h: "unat (ucast hl + ucast (ic_miclen f_tkip) :: u32) = unat hl + 8"
  proof -
    have "unat hl < 2 ^ 16" using unsigned_less [of hl] by simp
    then show ?thesis by (simp add: unat_word_ariths f_tkip_def)
  qed
  have "unat (?L - (ucast hl + ucast (ic_miclen f_tkip))) = length ?d - (unat hl + 8)"
    using hl h L by (simp add: unat_sub word_le_nat_alt)
  moreover have "unat (ucast x :: u16) \<le> unat x" for x :: u32
    by (simp add: unsigned_ucast_eq take_bit_eq_mod)
  ultimately have n: "unat ?n \<le> length ?d - (unat hl + 8)" by metis
  then have "unat ?n \<le> length ?d - unat hl" by linarith
  then obtain mic where mic: "ol_rx_defrag_mic key b hl ?n s = Some (OL_RX_DEFRAG_OK mic)"
    using defrag_mic_rep [of s b "[]" hdr key hl ?n] nx len hdr key hl by auto
  have "unat (?L - ucast (ic_miclen f_tkip)) = length ?d - 8"
    using hl L by (simp add: unat_sub word_le_nat_alt f_tkip_def)
  then have copy: "skb_copy_bits e (unat (?L - ucast (ic_miclen f_tkip))) (unat (ic_miclen f_tkip)) ?d
      = Some (take 8 (drop (length ?d - 8) ?d))"
    using e hl by (simp add: skb_ok_def f_tkip_def)
  have "length (adf_nbuf_trim_tail e (ucast (ic_miclen f_tkip)) ?d) = length ?d - 8"
    using trim_length [OF e len] hl by (simp add: f_tkip_def)
  then show ?thesis
    unfolding ol_rx_frag_tkip_demic_def Let_def mic copy using hl by auto
qed

lemma key_length: "length (concat (map put_le32 ks)) = 4 * length ks"
  by (induction ks) (simp_all add: put_le32_def)

text \<open>Joining the fragments: every buffer is freed once, or the first one goes on as the frame.\<close>

definition one_frame :: "rx_env \<Rightarrow> tidk \<Rightarrow> nbuf \<Rightarrow> nbuf list \<Rightarrow> rx_state \<Rightarrow> rx_state option \<Rightarrow> bool" where
  "one_frame e k h vs s r \<longleftrightarrow>
     (\<exists>s1 xs. r = Some s1 \<and> nb_freed s1 = nb_freed s @ xs \<and> mset xs = mset (h # vs)) \<or>
     (\<exists>s1 xs. r = fwd_check e k (Some h) s1 \<and> nb_next s1 h = None \<and>
        nb_freed s1 = nb_freed s @ xs \<and> mset xs = mset vs)"

definition keys_ok :: "rx_state \<Rightarrow> tidk \<Rightarrow> bool" where
  "keys_ok s k \<longleftrightarrow> (\<forall>m. 2 \<le> length (michael_key_of (peers s (fst k)) m))"

lemma decap_recombine_total:
  assumes "skb_ok e" and "lseg (nb_next s) (nb_next s h) vs None" and "distinct (h # vs)"
    and "24 \<le> length (nb_data s h)"
  shows "(\<exists>s1 xs. ol_rx_defrag_decap_recombine e h hl s = Some (None, s1) \<and>
      nb_freed s1 = nb_freed s @ xs \<and> mset xs = mset (h # vs)) \<or>
    (\<exists>s1. ol_rx_defrag_decap_recombine e h hl s = Some (Some h, s1) \<and> nb_freed s1 = nb_freed s @ vs \<and>
      nb_next s1 h = None \<and> peers s1 = peers s \<and> length (nb_data s1 h) =
        length (nb_data s h) + sum_list (map (\<lambda>b. length (adf_nbuf_pull_head e (unat hl) (nb_data s b))) vs))"
proof -
  let ?s = "adf_nbuf_set_next h None s"
  have l: "lseg (nb_next ?s) (nb_next s h) vs None" using assms(2,3) by (simp add: lseg_frame)
  have d: "distinct vs" "h \<notin> set vs" using assms(3) by simp_all
  obtain ok s1 where loop: "recombine_loop e hl h (nb_next s h) ?s = Some (ok, s1)"
    and s1: "nb_desc s1 = nb_desc ?s" "peers s1 = peers ?s"
    and raw: "if ok then nb_freed s1 = nb_freed ?s @ vs \<and> nb_next s1 h = nb_next ?s h \<and>
       nb_data s1 h = nb_data ?s h @ concat (map (\<lambda>b. adf_nbuf_pull_head e (unat hl) (nb_data ?s b)) vs)
     else \<exists>xs. nb_freed s1 = nb_freed ?s @ xs \<and> mset xs = mset (h # vs)"
    using recombine_loop_rep [OF l d, of e hl] by blast
  have post: "if ok then nb_freed s1 = nb_freed s @ vs \<and> nb_next s1 h = None \<and>
       nb_data s1 h = nb_data s h @ concat (map (\<lambda>b. adf_nbuf_pull_head e (unat hl) (nb_data s b)) vs)
     else \<exists>xs. nb_freed s1 = nb_freed s @ xs \<and> mset xs = mset (h # vs)"
    using raw unfolding set_next_fields nb_next_set fun_upd_same .
  show ?thesis
  proof (cases ok)
    case False
    then show ?thesis using loop post by (simp add: ol_rx_defrag_decap_recombine_def)
  next
    case True
    then have "24 \<le> length (nb_data s1 h)" using post assms(4) by simp
    then obtain d where "Option.bind (buf_upd 1 (\<lambda>x. x AND NOT IEEE80211_FC1_MORE_FRAG) (nb_data s1 h))
        (buf_upd 22 (\<lambda>x. x AND NOT (ucast IEEE80211_SEQ_FRAG_MASK))) = Some d" "length d = length (nb_data s1 h)"
      by (simp add: buf_upd_def)
    then show ?thesis
      using loop True post s1 \<open>24 \<le> length (nb_data s1 h)\<close>
      by (auto simp: ol_rx_defrag_decap_recombine_def length_concat comp_def)
  qed
qed

lemma defrag_join_total:
  assumes e: "skb_ok (skb e)" and vs: "lseg (nb_next s) (nb_next s h) vs None" "distinct (h # vs)"
    and len: "46 \<le> length (nb_data s h)" "length (nb_data s h) + sum_list (map (\<lambda>b. length (nb_data s b)) vs) < 2 ^ 32"
    and hl: "24 \<le> unat hl" "unat hl \<le> 36" and keys: "keys_ok s k"
  shows "one_frame e k h vs s (defrag_join e k h hl s)"
proof -
  have "24 \<le> length (nb_data s h)" using len(1) by simp
  from decap_recombine_total [OF e vs this, of hl] show ?thesis
  proof (elim disjE exE conjE)
  fix s1 xs assume "ol_rx_defrag_decap_recombine (skb e) h hl s = Some (None, s1)"
    "nb_freed s1 = nb_freed s @ xs" "mset xs = mset (h # vs)"
  then show ?thesis by (auto simp: defrag_join_def Let_def one_frame_def)
next
  fix s1 assume rec: "ol_rx_defrag_decap_recombine (skb e) h hl s = Some (Some h, s1)"
    and freed: "nb_freed s1 = nb_freed s @ vs" and nx: "nb_next s1 h = None" and p: "peers s1 = peers s"
    and l1: "length (nb_data s1 h) = length (nb_data s h) +
      sum_list (map (\<lambda>b. length (adf_nbuf_pull_head (skb e) (unat hl) (nb_data s b))) vs)"
  have pull: "length (adf_nbuf_pull_head (skb e) (unat hl) d) \<le> length d" for d
    using e by (cases "unat hl \<le> length d") (simp_all add: pull_head_ok pull_head_short not_le)
  have "sum_list (map (\<lambda>b. length (adf_nbuf_pull_head (skb e) (unat hl) (nb_data s b))) vs)
      \<le> sum_list (map (\<lambda>b. length (nb_data s b)) vs)"
    by (rule sum_list_mono) (rule pull)
  then have lt: "length (nb_data s1 h) < 2 ^ 32" using len(2) l1 by linarith
  have ge: "46 \<le> length (nb_data s1 h)" using l1 len(1) by simp
  then have hl8: "unat hl + 8 \<le> length (nb_data s1 h)" using hl(2) by linarith
  define key where "key = concat (map put_le32 (michael_key_of (peers s (fst k)) (d_mcast (nb_desc s h))))"
  have k8: "8 \<le> length key"
    using keys by (auto simp: key_def key_length keys_ok_def dest: spec [of _ "d_mcast (nb_desc s h)"])
  obtain r where demic: "ol_rx_frag_tkip_demic (skb e) key h hl s1 = Some r"
    and dlen: "\<forall>d. r = OL_RX_DEFRAG_OK d \<longrightarrow> length (nb_data s1 h) = length d + 8"
    using tkip_demic_total [OF e nx hl(1) hl8 lt k8] by blast
  have fin: "\<exists>d'. defrag_finish e k hl h (set_data h d s1) = fwd_check e k (Some h) (set_data h d' s1)"
    if "38 \<le> length d" for d
    using defrag_finish_total [OF e hl(1), of "set_data h d s1" h k] that hl(2) by auto
  have fin1: "\<exists>d'. defrag_finish e k hl h s1 = fwd_check e k (Some h) (set_data h d' s1)"
    using fin [of "nb_data s1 h"] ge by (simp add: set_data_same)
  show ?thesis
  proof (cases "peer_sec_type (peers s (fst k)) (d_mcast (nb_desc s h)) = htt_sec_type_tkip")
    case False
    then have "defrag_join e k h hl s = defrag_finish e k hl h s1"
      using rec by (simp add: defrag_join_def Let_def)
    then show ?thesis using fin1 freed nx unfolding one_frame_def by fastforce
  next
    case True
    show ?thesis
    proof (cases r)
      case OL_RX_DEFRAG_ERR
      then have "defrag_join e k h hl s = Some (htt_rx_desc_frame_free h s1)"
        using rec True demic by (simp add: defrag_join_def Let_def key_def [symmetric])
      then show ?thesis using freed unfolding one_frame_def by fastforce
    next
      case (OL_RX_DEFRAG_OK d)
      then have "defrag_join e k h hl s = defrag_finish e k hl h (set_data h d s1)"
        using rec True demic by (simp add: defrag_join_def Let_def key_def [symmetric])
      moreover have "38 \<le> length d" using dlen OL_RX_DEFRAG_OK ge by simp
      ultimately show ?thesis using fin [of d] freed nx unfolding one_frame_def by fastforce
    qed
  qed
qed
qed

section \<open>Conservation of buffers\<close>

definition frags_ok :: "rx_state \<Rightarrow> nbuf list \<Rightarrow> bool" where
  "frags_ok s bs \<longleftrightarrow> (\<forall>b \<in> set bs. d_completes_mpdu (nb_desc s b) \<and> 72 \<le> length (nb_data s b)) \<and>
     sum_list (map (\<lambda>b. length (nb_data s b)) bs) < 2 ^ 32"

lemma frags_ok_each: "frags_ok s bs \<Longrightarrow> b \<in> set bs \<Longrightarrow> length (nb_data s b) < 2 ^ 32"
  using member_le_sum_list [of "length (nb_data s b)" "map (\<lambda>b. length (nb_data s b)) bs"]
  by (auto simp: frags_ok_def)

lemma ol_rx_defrag_total:
  assumes e: "skb_ok (skb e)" and l: "lseg (nb_next s) (Some h) (h # vs) None"
    and ok: "frags_ok s (h # vs)" and keys: "keys_ok s k" and safe: "\<not> pr_safemode (peers s (fst k))"
  shows "one_frame e k h vs s (ol_rx_defrag e k h s)"
proof -
  have dist: "distinct (h # vs)" using lseg_acyclic [OF l] .
  have "\<forall>b \<in> set (h # vs). d_completes_mpdu (nb_desc s b)" using ok by (simp add: frags_ok_def)
  then obtain r1 s1 where loop1: "defrag_pn_loop e k h None (Some h) s = Some (r1, s1)"
    and post1: "pn_loop_post e s [] (h # vs) r1 s1"
    using defrag_pn_loop_rep [of s h "[]" "Some h" "h # vs" None e k] l dist by auto
  show ?thesis
  proof (cases r1)
    case False
    then show ?thesis using loop1 post1 safe
      by (auto simp: ol_rx_defrag_def pn_loop_post_def one_frame_def)
  next
    case True
    have s1: "nb_next s1 = nb_next s" "nb_freed s1 = nb_freed s" "peers s1 = peers s" "nb_desc s1 = nb_desc s"
      using post1 True by (simp_all add: pn_loop_post_def)
    have d1: "length (nb_data s1 b) = length (nb_data s b) - 4 \<and> 68 \<le> length (nb_data s1 b)
        \<and> length (nb_data s1 b) < 2 ^ 32" if "b \<in> set (h # vs)" for b
    proof -
      have "72 \<le> length (nb_data s b)" "length (nb_data s b) < 2 ^ 32"
        using ok that frags_ok_each [OF ok that] by (auto simp: frags_ok_def)
      moreover from this have "length (nb_data s1 b) = length (nb_data s b) - 4"
        using post1 True that trim_length [OF e, of "nb_data s b" 4] by (simp add: pn_loop_post_def)
      ultimately show ?thesis by linarith
    qed
    obtain hl where hl: "ol_rx_frag_hdrsize (nb_data s1 h) = Some hl"
      using d1 [of h] by (auto simp: ol_rx_frag_hdrsize_def)
    note hb = hdrsize_bounds [OF hl]
    define P where "P b ok d \<longleftrightarrow> step_len (nb_data s1 b) ok d" for b ok d
    have step: "\<exists>ok d. frag_step (skb e) sec hl b t = Some (ok, set_data b d t) \<and> P b ok d"
      if "b \<in> set (h # vs)" "nb_data t b = nb_data s1 b" for sec b t
    proof -
      have "unat hl + 16 \<le> length (nb_data t b)" "length (nb_data t b) < 2 ^ 32"
        using hb(2) d1 [OF that(1)] unfolding that(2) by linarith+
      from frag_step_total [OF e this, of sec] show ?thesis unfolding step_ok_def P_def that(2) .
    qed
    have l1: "lseg (nb_next s1) (Some h) (h # vs) None" using l s1(1) by simp
    obtain r2 s2 where loop2: "defrag_decap_loop (skb e) (sec_index_type k h s1) hl h (Some h) s1 = Some (r2, s2)"
      and s2: "nb_next s2 = nb_next s1" "nb_desc s2 = nb_desc s1" "peers s2 = peers s1"
      and post2: "if r2 then nb_freed s2 = nb_freed s1 \<and> (\<forall>b \<in> set (h # vs). P b True (nb_data s2 b)) \<and>
          (\<forall>c. c \<notin> set (h # vs) \<longrightarrow> nb_data s2 c = nb_data s1 c)
        else nb_freed s2 = nb_freed s1 @ (h # vs) \<and> (\<exists>b \<in> set (h # vs). \<exists>d. P b False d)"
      using defrag_decap_loop_rep [OF l1 l1 dist step] by blast
    show ?thesis
    proof (cases r2)
      case False
      have "ol_rx_defrag e k h s = Some s2"
        using loop1 True safe hl loop2 False by (simp add: ol_rx_defrag_def)
      moreover have "nb_freed s2 = nb_freed s @ (h # vs)" using post2 False s1(2) by simp
      ultimately show ?thesis unfolding one_frame_def by blast
    next
      case r2: True
      have len: "length (nb_data s2 b) \<le> length (nb_data s b) \<and> 52 \<le> length (nb_data s2 b)"
        if "b \<in> set (h # vs)" for b
        using post2 r2 that d1 [OF that] by (auto simp: P_def step_len_def)
      have "sum_list (map (\<lambda>b. length (nb_data s2 b)) (h # vs)) \<le> sum_list (map (\<lambda>b. length (nb_data s b)) (h # vs))"
        by (rule sum_list_mono) (use len in blast)
      then have sum: "length (nb_data s2 h) + sum_list (map (\<lambda>b. length (nb_data s2 b)) vs) < 2 ^ 32"
        using ok by (simp add: frags_ok_def)
      have vs: "lseg (nb_next s2) (nb_next s2 h) vs None" using l s1(1) s2(1) by simp
      have h46: "46 \<le> length (nb_data s2 h)" using len [of h] by simp
      have "keys_ok s2 k" using keys s2(3) s1(3) by (simp add: keys_ok_def)
      from defrag_join_total [OF e vs dist h46 sum hb this]
      have "one_frame e k h vs s2 (defrag_join e k h hl s2)" .
      moreover have "nb_freed s2 = nb_freed s" using post2 r2 s1(2) by simp
      moreover have "ol_rx_defrag e k h s = defrag_join e k h hl s2"
        using loop1 True safe hl loop2 r2 by (simp add: ol_rx_defrag_def)
      ultimately show ?thesis by (simp add: one_frame_def)
    qed
  qed
qed

end
