(* ===== verification/Rx_Fraglist.thy ===== *)
theory Rx_Fraglist
  imports Rx_Defrag Rx_Reorder
begin

text \<open>
  Collecting the fragments of a frame (\<open>ol_rx_defrag.c\<close>): inserting a fragment into the list of
  its TID, recognising a complete list, and the handlers of a fragment and of a fragment indication.
\<close>

section \<open>Fields of the header\<close>

text \<open>The header of a buffer; \<open>None\<close> when the buffer is null or too short for it.\<close>

definition mac_hdr :: "rx_state \<Rightarrow> nbuf \<Rightarrow> u8 list option" where
  "mac_hdr s b = (if length (nb_data s b) < ieee80211_frame_size then None else Some (nb_data s b))"

definition i_seq :: "u8 list \<Rightarrow> u16" where
  "i_seq h = ucast (h ! 22) OR push_bit 8 (ucast (h ! 23))"

definition hdr_fragno :: "u8 list \<Rightarrow> u8" where
  "hdr_fragno h = ucast (i_seq h AND IEEE80211_SEQ_FRAG_MASK)"

definition hdr_rxseq :: "u8 list \<Rightarrow> u16" where
  "hdr_rxseq h = drop_bit 4 (i_seq h)"

definition hdr_more_frag :: "u8 list \<Rightarrow> bool" where
  "hdr_more_frag h \<longleftrightarrow> h ! 1 AND IEEE80211_FC1_MORE_FRAG \<noteq> 0"

definition hdr_addr12 :: "u8 list \<Rightarrow> u8 list" where
  "hdr_addr12 h = take 12 (drop 4 h)"

section \<open>Insertion\<close>

text \<open>
  The search of the place of a fragment: the first buffer whose number is not below, the buffer
  behind it and its number.
\<close>

partial_function (option) frag_find ::
  "u8 \<Rightarrow> nbuf option \<Rightarrow> rx_state \<Rightarrow> (nbuf \<times> nbuf option \<times> u8) option" where
  "frag_find fragno cur s =
     (case cur of
        None \<Rightarrow> None
      | Some c \<Rightarrow>
          (case mac_hdr s c of
             None \<Rightarrow> None
           | Some h \<Rightarrow>
               (if hdr_fragno h < fragno then frag_find fragno (nb_next s c) s
                else Some (c, nb_next s c, hdr_fragno h))))"

text \<open>
  The test whether all fragments are there: numbers 1, 2, \<dots> behind the first buffer, with successive
  packet numbers when the cipher has them.  The result says whether the end of the list was reached.
\<close>

partial_function (option) frag_check ::
  "nat \<Rightarrow> bool \<Rightarrow> wlan_op_mode \<Rightarrow> nbuf option \<Rightarrow> htt_rx_pn \<Rightarrow> htt_rx_pn \<Rightarrow> u8 \<Rightarrow> rx_state \<Rightarrow> bool option" where
  "frag_check pn_len is_ucast opmode nxt curr_pn next_pn cnt s =
     (case nxt of
        None \<Rightarrow> None
      | Some n \<Rightarrow>
          (case mac_hdr s n of
             None \<Rightarrow> None
           | Some h \<Rightarrow>
               (let next_pn' = (if pn_len \<noteq> 0 then htt_rx_mpdu_desc_pn_ll (nb_desc s n) next_pn pn_len else next_pn);
                    cnt' = cnt + 1
                in if hdr_fragno h \<noteq> cnt' then Some False
                   else if pn_len \<noteq> 0 \<and> \<not> ol_rx_pn_strict_chk next_pn' curr_pn is_ucast pn_len opmode
                   then Some False
                   else (case nb_next s n of
                           None \<Rightarrow> Some True
                         | Some n' \<Rightarrow>
                             frag_check pn_len is_ucast opmode (Some n')
                               (if pn_len \<noteq> 0 then next_pn' else curr_pn) next_pn' cnt' s))))"

definition frags_complete :: "(nbuf \<Rightarrow> htt_rx_pn) \<Rightarrow> peer \<Rightarrow> nbuf \<Rightarrow> nbuf \<Rightarrow> rx_state \<Rightarrow> bool option" where
  "frags_complete junk p head tail_b s =
     (case mac_hdr s tail_b of
        None \<Rightarrow> None
      | Some lh \<Rightarrow>
          (if hdr_more_frag lh then Some False
           else (let d = nb_desc s head;
                     pn_len = rx_pn_len (peer_sec_type (peers s p) (d_mcast d));
                     curr_pn = (if pn_len \<noteq> 0 then htt_rx_mpdu_desc_pn_ll d (junk head) pn_len else junk head)
                 in frag_check pn_len (\<not> d_mcast d) (pr_opmode (peers s p)) (nb_next s head) curr_pn
                      (junk tail_b) 0 s)))"

text \<open>
  The new list, whether it is complete, and the state.  A fragment that is not behind the last one
  goes behind the first buffer whose number is not below its own.
\<close>

definition ol_rx_fraglist_insert ::
  "(nbuf \<Rightarrow> htt_rx_pn) \<Rightarrow> peer \<Rightarrow> rx_elem \<Rightarrow> nbuf \<Rightarrow> rx_state \<Rightarrow> (rx_elem \<times> bool \<times> rx_state) option" where
  "ol_rx_fraglist_insert junk p el frag s =
     (case mac_hdr s frag of
        None \<Rightarrow> None
      | Some fh \<Rightarrow>
          (case el_head el of
             None \<Rightarrow> Some (\<lparr>el_head = Some frag, el_tail = Some frag\<rparr>, False, adf_nbuf_set_next frag None s)
           | Some head \<Rightarrow>
               (case el_tail el of
                  None \<Rightarrow> None
                | Some t \<Rightarrow>
                    (case mac_hdr s t of
                       None \<Rightarrow> None
                     | Some lh \<Rightarrow>
                         (if hdr_fragno lh < hdr_fragno fh
                          then (let s1 = adf_nbuf_set_next frag None (adf_nbuf_set_next t (Some frag) s)
                                in map_option (\<lambda>ok. (\<lparr>el_head = Some head, el_tail = Some frag\<rparr>, ok, s1))
                                     (frags_complete junk p head frag s1))
                          else (case frag_find (hdr_fragno fh) (Some head) s of
                                  None \<Rightarrow> None
                                | Some (prev, cur, cur_fragno) \<Rightarrow>
                                    (if hdr_fragno fh = cur_fragno
                                     then Some (el, False, htt_rx_desc_frame_free frag s)
                                     else (let s1 = adf_nbuf_set_next frag cur (adf_nbuf_set_next prev (Some frag) s)
                                           in map_option (\<lambda>ok. (el, ok, s1))
                                                (frags_complete junk p head t s1)))))))))"

section \<open>The handlers\<close>

definition put_elem :: "tidk \<Rightarrow> nat \<Rightarrow> rx_elem \<Rightarrow> rx_state \<Rightarrow> rx_state option" where
  "put_elem k i el s = map_option (\<lambda>r. upd_reorder k r s) (ro_put (tids_rx_reorder s k) i el)"

definition set_timeout :: "tidk \<Rightarrow> u32 \<Rightarrow> rx_state \<Rightarrow> rx_state" where
  "set_timeout k t s = upd_reorder k ((tids_rx_reorder s k)\<lparr>defrag_timeout_ms := t\<rparr>) s"

text \<open>After the insertion: off the wait list, then reassembly or back on the wait list.\<close>

definition store_frag_end ::
  "rx_env \<Rightarrow> tidk \<Rightarrow> nat \<Rightarrow> u16 \<Rightarrow> u32 \<Rightarrow> rx_elem \<Rightarrow> bool \<Rightarrow> rx_state \<Rightarrow> rx_state option" where
  "store_frag_end e k i seq_num now_ms el all_frag_present s =
     (case (if defrag_timeout_check e then ol_rx_defrag_waitlist_remove k s else Some s) of
        None \<Rightarrow> None
      | Some s1 \<Rightarrow>
          (if all_frag_present
           then (case el_head el of
                   None \<Rightarrow> None
                 | Some h \<Rightarrow>
                     (case Option.bind (ol_rx_defrag e k h s1) (put_elem k i empty_elem) of
                        None \<Rightarrow> None
                      | Some s2 \<Rightarrow>
                          Some ((set_timeout k 0 s2)\<lparr>tids_last_seq := (tids_last_seq s2)(k := seq_num)\<rparr>)))
           else if defrag_timeout_check e
           then Some (ol_rx_defrag_waitlist_add k (set_timeout k (now_ms + defrag_timeout_len e) s1))
           else Some s1))"

definition ol_rx_reorder_store_frag ::
  "rx_env \<Rightarrow> tidk \<Rightarrow> u16 \<Rightarrow> u32 \<Rightarrow> nbuf \<Rightarrow> rx_state \<Rightarrow> rx_state option" where
  "ol_rx_reorder_store_frag e k seq_num now_ms frag s =
     (let i = unat (seq_num AND ucast (win_sz_mask (tids_rx_reorder s k)))
      in case (ro_get (tids_rx_reorder s k) i, mac_hdr s frag) of
           (Some el, Some mh) \<Rightarrow>
             (if d_mcast (nb_desc s frag) then ol_rx_frames_free (Some frag) s
              else if peer_sec_type (peers s (fst k)) False \<noteq> htt_sec_type_none \<and> \<not> d_encrypted (nb_desc s frag)
              then ol_rx_frames_free (Some frag) s
              else if \<not> hdr_more_frag mh \<and> hdr_fragno mh = 0 \<and> el_head el = None
              then (case ol_rx_fraglist_insert (pn_junk e) (fst k) el frag s of
                      None \<Rightarrow> None
                    | Some (el1, _, s1) \<Rightarrow>
                        (case put_elem k i el1 (adf_nbuf_set_next frag None s1) of
                           None \<Rightarrow> None
                         | Some s2 \<Rightarrow>
                             (case el_head el1 of
                                None \<Rightarrow> None
                              | Some h \<Rightarrow> Option.bind (ol_rx_defrag e k h s2) (put_elem k i empty_elem))))
              else (case (case el_head el of
                            None \<Rightarrow> Some (el, s)
                          | Some h \<Rightarrow>
                              (case mac_hdr s h of
                                 None \<Rightarrow> None
                               | Some fh \<Rightarrow>
                                   (if hdr_rxseq mh \<noteq> hdr_rxseq fh \<or> hdr_addr12 mh \<noteq> hdr_addr12 fh
                                    then map_option (Pair empty_elem) (ol_rx_frames_free (Some h) s)
                                    else Some (el, s)))) of
                      None \<Rightarrow> None
                    | Some (el1, s1) \<Rightarrow>
                        (case ol_rx_fraglist_insert (pn_junk e) (fst k) el1 frag s1 of
                           None \<Rightarrow> None
                         | Some (el2, all_frag_present, s2) \<Rightarrow>
                             (case put_elem k i el2 s2 of
                                None \<Rightarrow> None
                              | Some s3 \<Rightarrow> store_frag_end e k i seq_num now_ms el2 all_frag_present s3))))
         | _ \<Rightarrow> None)"

text \<open>
  The indication of a fragment.  \<open>flush_seq\<close> is the start of the flush range when the message
  has one; \<open>pop\<close> takes the buffer of the fragment from the receive ring, \<open>replenish\<close>
  refills the ring.
\<close>

definition ol_rx_frag_indication_handler ::
  "rx_env \<Rightarrow> u16 option \<Rightarrow> (rx_state \<Rightarrow> (nbuf \<times> rx_state) option) \<Rightarrow> (rx_state \<Rightarrow> rx_state option)
    \<Rightarrow> u32 \<Rightarrow> u16 \<Rightarrow> u8 \<Rightarrow> rx_state \<Rightarrow> rx_state option" where
  "ol_rx_frag_indication_handler e flush_seq pop replenish now_ms peer_id tid s =
     (if OL_TXRX_NUM_EXT_TIDS \<le> tid then Some s
      else (case ol_txrx_peer_find_by_id peer_id s of
              None \<Rightarrow> None
            | Some peer \<Rightarrow>
                (case (case (peer, flush_seq) of
                         (Some p, Some start) \<Rightarrow>
                           (if full_reorder_offload e then Some s else ol_rx_reorder_flush_frag (p, tid) start s)
                       | _ \<Rightarrow> Some s) of
                   None \<Rightarrow> None
                 | Some s1 \<Rightarrow>
                     (case pop s1 of
                        None \<Rightarrow> None
                      | Some (head_msdu, s2) \<Rightarrow>
                          Option.bind
                            (case peer of
                               Some p \<Rightarrow>
                                 ol_rx_reorder_store_frag e (p, tid) (d_seq_num (nb_desc s2 head_msdu)) now_ms
                                   head_msdu s2
                             | None \<Rightarrow> Some (htt_rx_desc_frame_free head_msdu s2))
                            replenish))))"

section \<open>Lists of fragments\<close>

abbreviation fno :: "rx_state \<Rightarrow> nbuf \<Rightarrow> u8" where
  "fno s b \<equiv> hdr_fragno (nb_data s b)"

definition frag_list :: "rx_state \<Rightarrow> rx_elem \<Rightarrow> nbuf list \<Rightarrow> bool" where
  "frag_list s el bs \<longleftrightarrow> bs \<noteq> [] \<and> lseg (nb_next s) (el_head el) bs None \<and> el_tail el = Some (last bs) \<and>
     (\<forall>b \<in> set bs. ieee80211_frame_size \<le> length (nb_data s b))"

lemma mac_hdr_ok: "ieee80211_frame_size \<le> length (nb_data s b) \<Longrightarrow> mac_hdr s b = Some (nb_data s b)"
  by (simp add: mac_hdr_def)

lemma frag_list_head: "frag_list s el bs \<Longrightarrow> el_head el = Some (hd bs)"
  by (cases bs) (auto simp: frag_list_def)

lemma frag_list_distinct: "frag_list s el bs \<Longrightarrow> distinct bs"
  unfolding frag_list_def by (blast intro: lseg_acyclic)

lemma frag_list_cong:
  assumes "\<And>b. b \<in> set bs \<Longrightarrow> nb_next t b = nb_next s b" and "nb_data t = nb_data s"
  shows "frag_list t el bs = frag_list s el bs"
  using lseg_cong [of bs "nb_next t" "nb_next s", OF assms(1)] assms(2) by (simp add: frag_list_def)

lemma frag_find_rep:
  assumes "lseg (nb_next s) cur (us @ c # vs) None"
    and "\<forall>b \<in> set (us @ [c]). ieee80211_frame_size \<le> length (nb_data s b)"
    and "\<forall>u \<in> set us. fno s u < n" and "n \<le> fno s c"
  shows "frag_find n cur s = Some (c, nb_next s c, fno s c)"
  using assms
proof (induction us arbitrary: cur)
  case Nil
  then show ?case by (subst frag_find.simps) (auto simp: mac_hdr_ok not_less)
next
  case (Cons u us)
  then show ?case by (subst frag_find.simps) (auto simp: mac_hdr_ok)
qed

section \<open>Completeness\<close>

text \<open>The packet numbers of a list rise by one.\<close>

definition frag_num :: "rx_state \<Rightarrow> nbuf \<Rightarrow> nat" where
  "frag_num s b = pn48_nat (htt_rx_mpdu_desc_pn_ll (nb_desc s b) \<lparr>pn128_0 = 0, pn128_1 = 0\<rparr> 48)"

lemma frag_num_junk: "pn48_nat (htt_rx_mpdu_desc_pn_ll (nb_desc s b) junk 48) = frag_num s b"
  by (simp add: frag_num_def htt_rx_mpdu_desc_pn_ll_def pn48_nat_def pn48_def)

lemma strict_chk_48:
  "ol_rx_pn_strict_chk new_pn old_pn u 48 opmode \<longleftrightarrow> pn48_nat new_pn = Suc (pn48_nat old_pn)"
proof -
  have "pn48_nat old_pn < 2 ^ 48" by (simp add: pn48_nat_def unat_and_low)
  then have "unat ((pn48 old_pn AND 0xffffffffffff) + 1) = Suc (pn48_nat old_pn)"
    unfolding pn48_nat_def by (simp add: unat_word_ariths)
  then show ?thesis
    unfolding ol_rx_pn_strict_chk_def pn48_nat_def by (simp flip: unat_inject)
qed

fun numbered_from :: "nat \<Rightarrow> u8 list \<Rightarrow> bool" where
  "numbered_from i [] = True"
| "numbered_from i (n # ns) = (unat n = Suc i \<and> numbered_from (Suc i) ns)"

definition pn_steps :: "nat \<Rightarrow> rx_state \<Rightarrow> nbuf list \<Rightarrow> bool" where
  "pn_steps pn_len s bs \<longleftrightarrow> pn_len = 48 \<longrightarrow> successively (\<lambda>a b. frag_num s b = Suc (frag_num s a)) bs"

lemma fragno_bound: "unat (hdr_fragno h) < 16"
proof -
  have "unat (i_seq h AND IEEE80211_SEQ_FRAG_MASK) = unat (i_seq h) mod 2 ^ 4"
    by (rule unat_and_mask) (simp add: IEEE80211_SEQ_FRAG_MASK_def)
  then have "unat (i_seq h AND IEEE80211_SEQ_FRAG_MASK) < 16" by simp
  then show ?thesis by (simp add: hdr_fragno_def unsigned_ucast_eq take_bit_nat_eq_self)
qed

lemma strict_iff:
  assumes "pn_len = 0 \<or> pn_len = 48 \<or> pn_len = 128" and "pn_len = 48 \<Longrightarrow> pn48_nat curr_pn = frag_num s a"
  shows "pn_len \<noteq> 0 \<and> \<not> ol_rx_pn_strict_chk (if pn_len \<noteq> 0 then htt_rx_mpdu_desc_pn_ll (nb_desc s b) next_pn pn_len
      else next_pn) curr_pn u pn_len opmode \<longleftrightarrow> pn_len = 48 \<and> frag_num s b \<noteq> Suc (frag_num s a)"
proof (cases "pn_len = 48")
  case True
  then show ?thesis using assms(2) by (simp add: strict_chk_48 frag_num_junk)
next
  case False
  then show ?thesis using assms(1) by (auto simp: ol_rx_pn_strict_chk_def)
qed

lemma frag_check_rep:
  assumes "lseg (nb_next s) nxt (b # bs) None"
    and "\<forall>b \<in> set (b # bs). ieee80211_frame_size \<le> length (nb_data s b)"
    and "pn_len = 0 \<or> pn_len = 48 \<or> pn_len = 128" and "unat cnt + length (b # bs) < 256"
    and "pn_len = 48 \<Longrightarrow> pn48_nat curr_pn = frag_num s a"
  shows "frag_check pn_len u opmode nxt curr_pn next_pn cnt s =
    Some (numbered_from (unat cnt) (map (fno s) (b # bs)) \<and> pn_steps pn_len s (a # b # bs))"
  using assms
proof (induction bs arbitrary: nxt b a curr_pn next_pn cnt)
  case Nil
  have c: "unat (cnt + 1) = Suc (unat cnt)" using Nil.prems(4) by (simp add: unat_word_ariths)
  have "fno s b = cnt + 1 \<longleftrightarrow> unat (fno s b) = Suc (unat cnt)" using c by (simp flip: unat_inject)
  moreover have "nxt = Some b" "nb_next s b = None" using Nil.prems(1) by auto
  ultimately show ?case
    using Nil.prems(2) strict_iff [OF Nil.prems(3,5), of b next_pn u opmode]
    by (subst frag_check.simps) (auto simp: mac_hdr_ok Let_def pn_steps_def)
next
  case (Cons b' bs)
  have c: "unat (cnt + 1) = Suc (unat cnt)" using Cons.prems(4) by (simp add: unat_word_ariths)
  have n: "nxt = Some b" "nb_next s b = Some b'" "lseg (nb_next s) (Some b') (b' # bs) None"
    using Cons.prems(1) by auto
  define pn where "pn = (if pn_len \<noteq> 0 then htt_rx_mpdu_desc_pn_ll (nb_desc s b) next_pn pn_len else next_pn)"
  have rest: "frag_check pn_len u opmode (Some b') (if pn_len \<noteq> 0 then pn else curr_pn) pn (cnt + 1) s =
      Some (numbered_from (unat (cnt + 1)) (map (fno s) (b' # bs)) \<and> pn_steps pn_len s (b # b' # bs))"
    using Cons.prems(2-4) n(3) c by (intro Cons.IH) (auto simp: pn_def frag_num_junk)
  have hdr: "mac_hdr s b = Some (nb_data s b)" using Cons.prems(2) by (simp add: mac_hdr_ok)
  have "frag_check pn_len u opmode nxt curr_pn next_pn cnt s =
      (if fno s b \<noteq> cnt + 1 then Some False
       else if pn_len \<noteq> 0 \<and> \<not> ol_rx_pn_strict_chk pn curr_pn u pn_len opmode then Some False
       else frag_check pn_len u opmode (Some b') (if pn_len \<noteq> 0 then pn else curr_pn) pn (cnt + 1) s)"
    by (subst frag_check.simps) (simp only: n hdr option.case Let_def pn_def)
  moreover have "fno s b = cnt + 1 \<longleftrightarrow> unat (fno s b) = Suc (unat cnt)" using c by (simp flip: unat_inject)
  moreover have "pn_len \<noteq> 0 \<and> \<not> ol_rx_pn_strict_chk pn curr_pn u pn_len opmode \<longleftrightarrow>
      pn_len = 48 \<and> frag_num s b \<noteq> Suc (frag_num s a)"
    unfolding pn_def by (rule strict_iff [OF Cons.prems(3,5)])
  ultimately show ?case
    unfolding rest c by (simp add: pn_steps_def)
qed

text \<open>What the test of completeness says of a list.\<close>

definition frags_in_sequence :: "rx_state \<Rightarrow> peer \<Rightarrow> nbuf list \<Rightarrow> bool" where
  "frags_in_sequence s p bs \<longleftrightarrow> numbered_from 0 (map (fno s) (tl bs)) \<and>
     pn_steps (rx_pn_len (peer_sec_type (peers s p) (d_mcast (nb_desc s (hd bs))))) s bs"

lemma rx_pn_len_cases: "rx_pn_len sec = 0 \<or> rx_pn_len sec = 48 \<or> rx_pn_len sec = 128"
  by (simp add: rx_pn_len_def)

lemma frags_complete_rep:
  assumes "lseg (nb_next s) (Some h) (h # b # bs) None" and "t \<in> set (h # b # bs)"
    and "\<forall>b \<in> set (h # b # bs). ieee80211_frame_size \<le> length (nb_data s b)"
    and "length bs < 255"
  shows "frags_complete junk p h t s =
    Some (\<not> hdr_more_frag (nb_data s t) \<and> frags_in_sequence s p (h # b # bs))"
proof -
  define n where "n = rx_pn_len (peer_sec_type (peers s p) (d_mcast (nb_desc s h)))"
  have l: "lseg (nb_next s) (nb_next s h) (b # bs) None" using assms(1) by simp
  have "frag_check n u om (nb_next s h) (if n \<noteq> 0 then htt_rx_mpdu_desc_pn_ll (nb_desc s h) (junk h) n else junk h)
      (junk t) 0 s = Some (numbered_from 0 (map (fno s) (b # bs)) \<and> pn_steps n s (h # b # bs))" for u om
    using frag_check_rep [OF l, of n 0 _ h u om "junk t"] assms(3,4) rx_pn_len_cases [of "peer_sec_type (peers s p) (d_mcast (nb_desc s h))"]
    by (simp add: n_def frag_num_junk)
  then show ?thesis
    using assms(2,3)
    by (auto simp: frags_complete_def mac_hdr_ok Let_def n_def [symmetric] frags_in_sequence_def)
qed

section \<open>Insertion into a list\<close>

text \<open>Behind the last fragment.\<close>

lemma fraglist_append_rep:
  assumes l: "frag_list s el bs" and f: "frag \<notin> set bs" "ieee80211_frame_size \<le> length (nb_data s frag)"
    and n: "fno s (last bs) < fno s frag" and len: "length bs \<le> 16"
  shows "\<exists>s1. ol_rx_fraglist_insert junk p el frag s = Some (\<lparr>el_head = el_head el, el_tail = Some frag\<rparr>,
      \<not> hdr_more_frag (nb_data s frag) \<and> frags_in_sequence s p (bs @ [frag]), s1) \<and>
    frag_list s1 \<lparr>el_head = el_head el, el_tail = Some frag\<rparr> (bs @ [frag]) \<and>
    s1 = s\<lparr>nb_next := (nb_next s)(last bs := Some frag, frag := None)\<rparr>"
proof -
  obtain us t where us: "bs = us @ [t]" using l by (cases bs rule: rev_cases) (auto simp: frag_list_def)
  let ?s1 = "s\<lparr>nb_next := (nb_next s)(t := Some frag, frag := None)\<rparr>"
  have head: "el_head el = Some (hd bs)" by (rule frag_list_head [OF l])
  have lt: "el_tail el = Some t" "mac_hdr s t = Some (nb_data s t)" "mac_hdr s frag = Some (nb_data s frag)"
    using l f us by (auto simp: frag_list_def mac_hdr_ok)
  have "lseg (nb_next s) (el_head el) (us @ [t]) None" "distinct (us @ [t])"
    using l us frag_list_distinct [OF l] by (simp_all add: frag_list_def)
  then have "lseg ((nb_next s)(t := Some frag)) (el_head el) bs (Some frag)"
    unfolding us by (rule lseg_relink)
  then have seg: "lseg (nb_next ?s1) (el_head el) (bs @ [frag]) None"
    using f(1) by (simp add: lseg_append lseg_frame)
  then have fl: "frag_list ?s1 \<lparr>el_head = el_head el, el_tail = Some frag\<rparr> (bs @ [frag])"
    using l f by (auto simp: frag_list_def)
  obtain b cs where "tl bs @ [frag] = b # cs" by (cases "tl bs @ [frag]") auto
  then have bs: "bs @ [frag] = hd bs # b # cs" using us by (cases us) auto
  have "frags_complete junk p (hd bs) frag ?s1
      = Some (\<not> hdr_more_frag (nb_data ?s1 frag) \<and> frags_in_sequence ?s1 p (bs @ [frag]))"
  proof -
    have "length (bs @ [frag]) \<le> 17" using len by simp
    then have "length cs < 255" unfolding bs by simp
    moreover have "lseg (nb_next ?s1) (Some (hd bs)) (hd bs # b # cs) None" using seg unfolding head bs .
    moreover have "frag \<in> set (hd bs # b # cs)" unfolding bs [symmetric] by simp
    moreover have "\<forall>b \<in> set (hd bs # b # cs). ieee80211_frame_size \<le> length (nb_data ?s1 b)"
      unfolding bs [symmetric] using fl by (simp add: frag_list_def)
    ultimately show ?thesis using frags_complete_rep [of ?s1 "hd bs" b cs frag junk p] unfolding bs by blast
  qed
  moreover have "frags_in_sequence ?s1 p (bs @ [frag]) = frags_in_sequence s p (bs @ [frag])"
    by (simp add: frags_in_sequence_def pn_steps_def frag_num_def)
  ultimately show ?thesis
    using lt n us head fl
    by (intro exI [of _ ?s1])
      (simp add: ol_rx_fraglist_insert_def Let_def adf_nbuf_set_next_def)
qed

text \<open>A number that is in the list already.\<close>

lemma fraglist_duplicate_rep:
  assumes l: "frag_list s el (us @ c # vs)" and f: "ieee80211_frame_size \<le> length (nb_data s frag)"
    and n: "\<forall>u \<in> set us. fno s u < fno s c" "fno s frag = fno s c" "fno s c \<le> fno s (last (c # vs))"
  shows "ol_rx_fraglist_insert junk p el frag s = Some (el, False, htt_rx_desc_frame_free frag s)"
proof -
  have head: "el_head el = Some (hd (us @ c # vs))" by (rule frag_list_head [OF l])
  have "frag_find (fno s frag) (el_head el) s = Some (c, nb_next s c, fno s c)"
    using l n by (intro frag_find_rep [of s _ us c vs]) (auto simp: frag_list_def)
  moreover define t where "t = last (c # vs)"
  have "el_tail el = Some t" "mac_hdr s t = Some (nb_data s t)"
    using l by (auto simp: frag_list_def mac_hdr_ok t_def)
  moreover have "\<not> fno s t < fno s frag" using n unfolding t_def by simp
  ultimately show ?thesis
    using n(2) f head by (simp add: ol_rx_fraglist_insert_def mac_hdr_ok Let_def)
qed

text \<open>A number below one in the list: the fragment lands behind the larger number.\<close>

lemma fraglist_between_rep:
  assumes l: "frag_list s el (us @ c # vs)" and f: "frag \<notin> set (us @ c # vs)" "ieee80211_frame_size \<le> length (nb_data s frag)"
    and n: "\<forall>u \<in> set us. fno s u < fno s frag" "fno s frag < fno s c" "fno s frag \<le> fno s (last (c # vs))"
    and len: "length (us @ c # vs) \<le> 16"
  shows "\<exists>s1. ol_rx_fraglist_insert junk p el frag s = Some (el,
      \<not> hdr_more_frag (nb_data s (last (c # vs))) \<and> frags_in_sequence s p (us @ c # frag # vs), s1) \<and>
    lseg (nb_next s1) (el_head el) (us @ c # frag # vs) None \<and>
    s1 = s\<lparr>nb_next := (nb_next s)(c := Some frag, frag := nb_next s c)\<rparr>"
proof -
  let ?s1 = "s\<lparr>nb_next := (nb_next s)(c := Some frag, frag := nb_next s c)\<rparr>"
  have head: "el_head el = Some (hd (us @ c # vs))" by (rule frag_list_head [OF l])
  have find: "frag_find (fno s frag) (el_head el) s = Some (c, nb_next s c, fno s c)"
    using l n by (intro frag_find_rep [of s _ us c vs]) (auto simp: frag_list_def)
  define t0 where "t0 = last (c # vs)"
  have t: "el_tail el = Some t0" "mac_hdr s t0 = Some (nb_data s t0)"
    using l by (auto simp: frag_list_def mac_hdr_ok t0_def)
  have nt: "\<not> fno s t0 < fno s frag" using n(3) by (simp add: t0_def not_less)
  have ne: "fno s frag \<noteq> fno s c" using n(2) by simp
  have seg0: "lseg (nb_next s) (el_head el) (us @ c # vs) None" and dist: "distinct (us @ c # vs)"
    using l frag_list_distinct [OF l] by (simp_all add: frag_list_def)
  obtain r where r: "lseg (nb_next s) (el_head el) us r" "r = Some c" "lseg (nb_next s) (nb_next s c) vs None"
    using seg0 by (auto simp: lseg_append)
  have "lseg (nb_next ?s1) (el_head el) us (Some c)" "lseg (nb_next ?s1) (nb_next s c) vs None"
    using r dist f(1) by (simp_all add: lseg_frame)
  then have seg: "lseg (nb_next ?s1) (el_head el) (us @ c # frag # vs) None"
    using f(1) by (auto simp: lseg_append)
  obtain b cs where bs: "us @ c # frag # vs = hd (us @ c # vs) # b # cs"
    by (cases us; cases "tl us") (auto simp: neq_Nil_conv)
  have "frags_complete junk p (hd (us @ c # vs)) t0 ?s1
      = Some (\<not> hdr_more_frag (nb_data ?s1 t0) \<and> frags_in_sequence ?s1 p (us @ c # frag # vs))"
  proof -
    have "length (us @ c # frag # vs) \<le> 17" using len by simp
    then have "length cs < 255" unfolding bs by simp
    moreover have "lseg (nb_next ?s1) (Some (hd (us @ c # vs))) (hd (us @ c # vs) # b # cs) None"
      using seg unfolding head bs .
    moreover have "t0 \<in> set (hd (us @ c # vs) # b # cs)" unfolding bs [symmetric] t0_def by auto
    moreover have "\<forall>b \<in> set (hd (us @ c # vs) # b # cs). ieee80211_frame_size \<le> length (nb_data ?s1 b)"
      unfolding bs [symmetric] using l f(2) by (auto simp: frag_list_def)
    ultimately show ?thesis
      using frags_complete_rep [of ?s1 "hd (us @ c # vs)" b cs t0 junk p] unfolding bs by blast
  qed
  moreover have "frags_in_sequence ?s1 p (us @ c # frag # vs) = frags_in_sequence s p (us @ c # frag # vs)"
    by (simp add: frags_in_sequence_def pn_steps_def frag_num_def)
  ultimately show ?thesis
    using find t nt ne head seg f(2) unfolding t0_def [symmetric]
    by (intro exI [of _ ?s1])
      (simp add: ol_rx_fraglist_insert_def Let_def adf_nbuf_set_next_def mac_hdr_ok)
qed

section \<open>Complete lists\<close>

lemma numbered_from_iff: "numbered_from i ns \<longleftrightarrow> map unat ns = [Suc i..<Suc i + length ns]"
proof (induction ns arbitrary: i)
  case Nil
  then show ?case by simp
next
  case (Cons n ns)
  have "[Suc i..<Suc i + length (n # ns)] = Suc i # [Suc (Suc i)..<Suc (Suc i) + length ns]"
    by (simp add: upt_rec [of "Suc i"] del: upt_Suc)
  then show ?case using Cons by simp
qed

text \<open>In an ascending list a complete numbering starts at 0.\<close>

lemma ascending_complete:
  fixes ns :: "u8 list"
  assumes "sorted_wrt (<) ns" and "2 \<le> length ns"
  shows "numbered_from 0 (tl ns) \<longleftrightarrow> map unat ns = [0..<length ns]"
proof -
  obtain n m ms where ns: "ns = n # m # ms" using assms(2) by (cases ns; cases "tl ns") auto
  have u: "[0..<length ns] = 0 # [Suc 0..<Suc 0 + length (m # ms)]"
    by (simp add: ns upt_rec [of 0] del: upt_Suc)
  have "n < m" using assms(1) by (simp add: ns)
  then have "numbered_from 0 (m # ms) \<Longrightarrow> unat n = 0" by (simp add: word_less_nat_alt)
  moreover have "tl ns = m # ms" "map unat ns = unat n # map unat (m # ms)" by (simp_all add: ns)
  ultimately show ?thesis unfolding u numbered_from_iff by (metis list.inject)
qed

text \<open>Fragment numbers have four bits.\<close>

lemma ascending_short:
  assumes "sorted_wrt (<) (map (fno s) bs)"
  shows "length bs \<le> 16"
proof -
  have "distinct (map (fno s) bs)" using assms by (simp only: strict_sorted_iff)
  then have "distinct (map unat (map (fno s) bs))"
    unfolding distinct_map [of unat] by (auto simp: inj_on_def)
  then have "length bs = card (set (map unat (map (fno s) bs)))" by (simp only: distinct_card length_map)
  also have "\<dots> \<le> card {0..<16 :: nat}" using fragno_bound by (intro card_mono) auto
  finally show ?thesis by simp
qed

section \<open>Storing a fragment of the same frame\<close>

text \<open>The fragment joins the list of its slot.\<close>

lemma store_frag_accept:
  assumes i: "i = unat (seq_num AND ucast (win_sz_mask (tids_rx_reorder s k)))" "ro_get (tids_rx_reorder s k) i = Some el"
    and l: "frag_list s el bs" "length bs \<le> 16"
    and f: "frag \<notin> set bs" "ieee80211_frame_size \<le> length (nb_data s frag)" "fno s (last bs) < fno s frag"
    and sec: "\<not> d_mcast (nb_desc s frag)"
      "sec_type_ucast (peers s (fst k)) = htt_sec_type_none \<or> d_encrypted (nb_desc s frag)"
    and same: "hdr_rxseq (nb_data s frag) = hdr_rxseq (nb_data s (hd bs))"
      "hdr_addr12 (nb_data s frag) = hdr_addr12 (nb_data s (hd bs))"
  shows "\<exists>s3. ol_rx_reorder_store_frag e k seq_num now_ms frag s = store_frag_end e k i seq_num now_ms
      \<lparr>el_head = el_head el, el_tail = Some frag\<rparr>
      (\<not> hdr_more_frag (nb_data s frag) \<and> frags_in_sequence s (fst k) (bs @ [frag])) s3 \<and>
    ro_get (tids_rx_reorder s3 k) i = Some \<lparr>el_head = el_head el, el_tail = Some frag\<rparr> \<and>
    frag_list s3 \<lparr>el_head = el_head el, el_tail = Some frag\<rparr> (bs @ [frag]) \<and>
    nb_freed s3 = nb_freed s \<and> waitlist s3 = waitlist s \<and> nb_data s3 = nb_data s \<and>
    (\<forall>j. j \<noteq> k \<longrightarrow> tids_rx_reorder s3 j = tids_rx_reorder s j)"
proof -
  let ?el = "\<lparr>el_head = el_head el, el_tail = Some frag\<rparr>"
  obtain s1 where ins: "ol_rx_fraglist_insert (pn_junk e) (fst k) el frag s = Some (?el,
      \<not> hdr_more_frag (nb_data s frag) \<and> frags_in_sequence s (fst k) (bs @ [frag]), s1)"
    and fl: "frag_list s1 ?el (bs @ [frag])"
    and s1: "s1 = s\<lparr>nb_next := (nb_next s)(last bs := Some frag, frag := None)\<rparr>"
    using fraglist_append_rep [OF l(1) f l(2), of "pn_junk e" "fst k"] by blast
  have r1: "tids_rx_reorder s1 = tids_rx_reorder s" by (simp add: s1)
  obtain r where r: "ro_put (tids_rx_reorder s k) i ?el = Some r" "ro_get r i = Some ?el"
    using ro_get_put [OF i(2)] by blast
  have put: "put_elem k i ?el s1 = Some (upd_reorder k r s1)" using r(1) r1 by (simp add: put_elem_def)
  have h: "el_head el = Some (hd bs)" by (rule frag_list_head [OF l(1)])
  have "hd bs \<in> set bs" using l(1) by (simp add: frag_list_def)
  then have m: "mac_hdr s (hd bs) = Some (nb_data s (hd bs))" "mac_hdr s frag = Some (nb_data s frag)"
    using l(1) f(2) by (simp_all add: frag_list_def mac_hdr_ok)
  have "ol_rx_reorder_store_frag e k seq_num now_ms frag s = store_frag_end e k i seq_num now_ms ?el
      (\<not> hdr_more_frag (nb_data s frag) \<and> frags_in_sequence s (fst k) (bs @ [frag])) (upd_reorder k r s1)"
    unfolding ol_rx_reorder_store_frag_def Let_def i(1) [symmetric] i(2) m
    using sec same h m ins put by (auto simp: peer_sec_type_def)
  moreover have "frag_list (upd_reorder k r s1) ?el (bs @ [frag])"
    using fl frag_list_cong [of "bs @ [frag]" "upd_reorder k r s1" s1 ?el] by (simp add: upd_reorder_def)
  moreover have "nb_freed (upd_reorder k r s1) = nb_freed s" "waitlist (upd_reorder k r s1) = waitlist s"
    "nb_data (upd_reorder k r s1) = nb_data s"
    "\<forall>j. j \<noteq> k \<longrightarrow> tids_rx_reorder (upd_reorder k r s1) j = tids_rx_reorder s j"
    by (simp_all add: s1 upd_reorder_def)
  ultimately show ?thesis using r(2) by (intro exI [of _ "upd_reorder k r s1"]) simp
qed

lemma set_timeout_keeps [simp]:
  "nb_freed (set_timeout k t s) = nb_freed s" "nb_next (set_timeout k t s) = nb_next s"
  "nb_data (set_timeout k t s) = nb_data s" "tids_last_seq (set_timeout k t s) = tids_last_seq s" "waitlist (set_timeout k t s) = waitlist s"
  "ro_get (tids_rx_reorder (set_timeout k t s) j) i = ro_get (tids_rx_reorder s j) i"
  "defrag_timeout_ms (tids_rx_reorder (set_timeout k t s) k) = t"
  by (simp_all add: set_timeout_def upd_reorder_def ro_get_def split: option.split)

lemma waitlist_add_keeps [simp]:
  "nb_freed (ol_rx_defrag_waitlist_add k s) = nb_freed s" "nb_next (ol_rx_defrag_waitlist_add k s) = nb_next s"
  "nb_data (ol_rx_defrag_waitlist_add k s) = nb_data s"
  "tids_rx_reorder (ol_rx_defrag_waitlist_add k s) = tids_rx_reorder s"
  by (simp_all add: ol_rx_defrag_waitlist_add_def)

section \<open>Properties\<close>


text \<open>Two fragments of an open network: number 0 held, or the last one, number 2, held alone.\<close>

definition frag_bytes :: "u8 \<Rightarrow> u8 \<Rightarrow> u8 list" where
  "frag_bytes fc1 no = [8, fc1, 0, 0] @ replicate 18 1 @ [0x10 OR no, 0] @ replicate 48 no"

definition junk_ex :: "nbuf \<Rightarrow> htt_rx_pn" where
  "junk_ex = (\<lambda>_. \<lparr>pn128_0 = 0, pn128_1 = 0\<rparr>)"

definition fraglist_ex :: rx_state where
  "fraglist_ex = rx_quiet\<lparr>nb_data := (\<lambda>b. if b = 0 then frag_bytes 6 0 else if b = 1 then frag_bytes 2 1
     else frag_bytes 2 2), peers := (\<lambda>_. rx_peer0\<lparr>sec_type_ucast := htt_sec_type_none\<rparr>)\<rparr>"

abbreviation one_elem :: "nbuf \<Rightarrow> rx_elem" where
  "one_elem b \<equiv> \<lparr>el_head = Some b, el_tail = Some b\<rparr>"

lemma fraglist_ex_facts:
  "length (nb_data fraglist_ex b) = 72" "fno fraglist_ex 0 = 0" "fno fraglist_ex 1 = 1" "fno fraglist_ex 2 = 2"
  "\<not> hdr_more_frag (nb_data fraglist_ex 1)" "\<not> hdr_more_frag (nb_data fraglist_ex 2)"
  "nb_next fraglist_ex = (\<lambda>_. None)"
  "rx_pn_len (peer_sec_type (peers fraglist_ex 0) (d_mcast (nb_desc fraglist_ex b))) = 0"
  by (simp_all add: fraglist_ex_def rx_quiet_defs frag_bytes_def hdr_fragno_def i_seq_def hdr_more_frag_def
      IEEE80211_SEQ_FRAG_MASK_def IEEE80211_FC1_MORE_FRAG_def nth_append peer_sec_type_def rx_pn_len_def)

lemma fraglist_ex_list: "frag_list fraglist_ex (one_elem b) [b]"
  by (simp add: frag_list_def fraglist_ex_facts ieee80211_frame_size_def)


text \<open>
  A fragment whose number is in the list already is freed, once, and nothing else changes.
\<close>

theorem fraglist_duplicate_dropped:
  assumes "frag_list s el (us @ c # vs)" and "24 \<le> length (nb_data s frag)"
    and "sorted_wrt (<) (map (fno s) (us @ c # vs))" and "fno s frag = fno s c"
  shows "ol_rx_fraglist_insert junk p el frag s = Some (el, False, htt_rx_desc_frame_free frag s)"
proof -
  have "\<forall>u \<in> set us. fno s u < fno s c" "\<forall>v \<in> set vs. fno s c < fno s v"
    using assms(3) by (simp_all add: sorted_wrt_append)
  then have "fno s c \<le> fno s (last (c # vs))" by (cases "vs = []") (simp_all add: order.strict_implies_order)
  then show ?thesis
    using fraglist_duplicate_rep [OF assms(1), of frag junk p] assms(2,4) \<open>\<forall>u \<in> set us. fno s u < fno s c\<close>
    by (simp add: ieee80211_frame_size_def)
qed

theorem fraglist_duplicate_dropped_witness:
  "ol_rx_fraglist_insert junk_ex 0 (one_elem 2) 3 fraglist_ex =
     Some (one_elem 2, False, htt_rx_desc_frame_free 3 fraglist_ex)"
proof -
  have "fno fraglist_ex 3 = fno fraglist_ex 2" by (simp add: fraglist_ex_def)
  then show ?thesis
    using fraglist_duplicate_dropped [of fraglist_ex "one_elem 2" "[]" 2 "[]" 3 junk_ex 0] fraglist_ex_list [of 2]
    by (simp add: fraglist_ex_facts)
qed

text \<open>
  A fragment that arrives after one with a larger number is not put in its place: it is linked
  behind the first fragment \<open>c\<close> with a larger number, so the list is no longer ascending; and
  when \<open>c\<close> is the last of the list, the tail pointer still points to \<open>c\<close>, not to the end.
\<close>

lemma fraglist_out_of_order:
  assumes "frag_list s el (us @ c # vs)" and "frag \<notin> set (us @ c # vs)" and "24 \<le> length (nb_data s frag)"
    and "sorted_wrt (<) (map (fno s) (us @ c # vs))"
    and "\<forall>u \<in> set us. fno s u < fno s frag" and "fno s frag < fno s c"
  shows "\<exists>ok s1. ol_rx_fraglist_insert junk p el frag s = Some (el, ok, s1) \<and>
    lseg (nb_next s1) (el_head el) (us @ c # frag # vs) None \<and> el_tail el = Some (last (c # vs)) \<and>
    \<not> sorted_wrt (<) (map (fno s) (us @ c # frag # vs))"
proof -
  have v: "\<forall>v \<in> set vs. fno s c < fno s v" using assms(4) by (simp add: sorted_wrt_append)
  have "length (us @ c # vs) \<le> 16" by (rule ascending_short [OF assms(4)])
  moreover have "fno s frag \<le> fno s (last (c # vs))"
  proof (cases "vs = []")
    case True
    then show ?thesis using assms(6) by simp
  next
    case False
    then have "fno s c < fno s (last vs)" using v by simp
    with assms(6) False show ?thesis by simp
  qed
  ultimately show ?thesis
    using fraglist_between_rep [OF assms(1,2) _ assms(5,6), of junk p] assms(1,3,6)
    by (auto simp: ieee80211_frame_size_def frag_list_def sorted_wrt_append)
qed

theorem fraglist_out_of_order_witness:
  "\<exists>ok s1. ol_rx_fraglist_insert junk_ex 0 (one_elem 2) 1 fraglist_ex = Some (one_elem 2, ok, s1) \<and>
    lseg (nb_next s1) (Some 2) [2, 1] None"
  using fraglist_out_of_order [of fraglist_ex "one_elem 2" "[]" 2 "[]" 1 junk_ex 0] fraglist_ex_list [of 2]
  by (auto simp: fraglist_ex_facts fraglist_ex_facts [unfolded One_nat_def] frag_list_def)

text \<open>
  The test of completeness does not look at the number of the first fragment of the list.  With a
  cipher without packet numbers, a held last fragment with a number above 1 and a fragment numbered 1
  that arrives after it are reported as a complete frame, although fragment 0 is missing.
\<close>

lemma fraglist_missing_first_complete:
  assumes "frag_list s el [c]" and "\<not> hdr_more_frag (nb_data s c)" and "1 < fno s c"
    and "frag \<noteq> c" and "24 \<le> length (nb_data s frag)" and "fno s frag = 1"
    and "rx_pn_len (peer_sec_type (peers s p) (d_mcast (nb_desc s c))) = 0"
  shows "\<exists>s1. ol_rx_fraglist_insert junk p el frag s = Some (el, True, s1) \<and>
    lseg (nb_next s1) (el_head el) [c, frag] None \<and> (\<forall>b \<in> {c, frag}. fno s1 b \<noteq> 0)"
proof -
  have "frag_list s el ([] @ c # [])" using assms(1) by simp
  then obtain s1 where ins: "ol_rx_fraglist_insert junk p el frag s = Some (el,
      \<not> hdr_more_frag (nb_data s c) \<and> frags_in_sequence s p [c, frag], s1)"
    and seg: "lseg (nb_next s1) (el_head el) [c, frag] None"
    and s1: "s1 = s\<lparr>nb_next := (nb_next s)(c := Some frag, frag := nb_next s c)\<rparr>"
    using fraglist_between_rep [of s el "[]" c "[]" frag junk p] assms(3-6)
    by (auto simp: ieee80211_frame_size_def)
  have "frags_in_sequence s p [c, frag]"
    using assms(6,7) by (simp add: frags_in_sequence_def pn_steps_def)
  then show ?thesis using ins seg s1 assms(2,3,6) by auto
qed

theorem fraglist_missing_first_complete_witness:
  "\<exists>s1. ol_rx_fraglist_insert junk_ex 0 (one_elem 2) 1 fraglist_ex = Some (one_elem 2, True, s1) \<and>
    lseg (nb_next s1) (Some 2) [2, 1] None"
  using fraglist_missing_first_complete [of fraglist_ex "one_elem 2" 2 1 0 junk_ex] fraglist_ex_list [of 2]
  by (auto simp: fraglist_ex_facts fraglist_ex_facts [unfolded One_nat_def])

end
