(* ===== verification/Rx_Defrag_Props.thy ===== *)
theory Rx_Defrag_Props
  imports Rx_Defrag
begin

text \<open>
  What the reassembly of a list of fragments achieves: no buffer is lost or freed twice on any path,
  and fragments protected by CCMP become the Ethernet frame their sender cut up.
\<close>

section \<open>Fragments with rising packet numbers pass the check\<close>

definition frag_pn :: "rx_env \<Rightarrow> rx_state \<Rightarrow> nbuf \<Rightarrow> nat" where
  "frag_pn e s b = pn48_nat (htt_rx_mpdu_desc_pn_ll (nb_desc s b) (pn_junk e b) 48)"

fun pn_rising :: "nat option \<Rightarrow> nat list \<Rightarrow> bool" where
  "pn_rising l [] = True"
| "pn_rising l (n # ns) = ((case l of None \<Rightarrow> True | Some m \<Rightarrow> m < n) \<and> pn_rising (Some n) ns)"

definition last_pn48 :: "rx_state \<Rightarrow> tidk \<Rightarrow> nat option" where
  "last_pn48 s k = (if tids_last_pn_valid s k then Some (pn48_nat (tids_last_pn s k)) else None)"

definition ccmp_unicast :: "rx_state \<Rightarrow> tidk \<Rightarrow> nbuf list \<Rightarrow> bool" where
  "ccmp_unicast s k bs \<longleftrightarrow> sec_type_ucast (peers s (fst k)) = htt_sec_type_aes_ccmp \<and>
     (\<forall>b \<in> set bs. d_completes_mpdu (nb_desc s b) \<and> d_encrypted (nb_desc s b) \<and> \<not> d_mcast (nb_desc s b))"

lemma pn_loop_pass:
  assumes "lseg (nb_next s) cur vs None" and "distinct vs" and "ccmp_unicast s k vs"
    and "\<not> fw_pn_check (peers s (fst k))" and "pr_opmode (peers s (fst k)) \<noteq> wlan_op_mode_ibss"
    and "pn_rising (last_pn48 s k) (map (frag_pn e s) vs)"
  shows "\<exists>s1. defrag_pn_loop e k h prev cur s = Some (True, s1)"
  using assms
proof (induction vs arbitrary: cur prev s)
  case Nil
  then show ?case by (subst defrag_pn_loop.simps) simp
next
  case (Cons b vs)
  let ?s0 = "adf_nbuf_set_next b None s"
  let ?new = "htt_rx_mpdu_desc_pn_ll (nb_desc s b) (pn_junk e b) 48"
  have cur: "cur = Some b" and vs: "lseg (nb_next s) (nb_next s b) vs None" using Cons.prems(1) by auto
  have b: "d_completes_mpdu (nb_desc s b)" "d_encrypted (nb_desc s b)" "\<not> d_mcast (nb_desc s b)"
    "peer_sec_type (peers s (fst k)) (d_mcast (nb_desc s b)) = htt_sec_type_aes_ccmp"
    using Cons.prems(3) by (auto simp: ccmp_unicast_def peer_sec_type_def)
  have len: "rx_pn_len htt_sec_type_aes_ccmp = 48" "rx_pn_cmp htt_sec_type_aes_ccmp = Some ol_rx_pn_cmp48"
    by (simp_all add: rx_pn_len_def rx_pn_cmp_def)
  have gt: "\<not> (tids_last_pn_valid s k \<and> ol_rx_pn_cmp48 ?new (tids_last_pn s k) True (pr_opmode (peers s (fst k))))"
    using Cons.prems(6) by (auto simp: last_pn48_def frag_pn_def cmp48_key split: if_splits)
  define s1 where "s1 = ?s0\<lparr>tids_last_pn_valid := (tids_last_pn_valid s)(k := True),
            tids_last_pn := (tids_last_pn s)(k := ?new)\<rparr>"
  have base: "ol_rx_pn_check_base (pn_junk e) k b ?s0 = Some (Some b, s1)"
    using pn_single_out [of ?s0 b htt_sec_type_aes_ccmp k ol_rx_pn_cmp48 ?new "pn_junk e"]
      b Cons.prems(4,5) len gt by (simp add: s1_def)
  define s2 where "s2 = adf_nbuf_set_next b (nb_next s b)
    (set_data b (adf_nbuf_trim_tail (skb e) 4 (nb_data s1 b)) s1)"
  have s2: "nb_next s2 = nb_next s" "nb_desc s2 = nb_desc s" "peers s2 = peers s"
    "last_pn48 s2 k = Some (frag_pn e s b)"
    by (simp_all add: s2_def s1_def last_pn48_def frag_pn_def)
  have "frag_pn e s2 = frag_pn e s" by (rule ext) (simp add: frag_pn_def s2)
  moreover have "ccmp_unicast s2 k vs" using Cons.prems(3) by (simp add: ccmp_unicast_def s2)
  ultimately have "\<exists>s3. defrag_pn_loop e k h (Some b) (nb_next s b) s2 = Some (True, s3)"
    using Cons.prems(2,4-6) vs by (intro Cons.IH) (simp_all add: s2)
  then show ?case using base cur by (subst defrag_pn_loop.simps) (simp add: Let_def s2_def)
qed

section \<open>Fragments under CCMP\<close>

record ccmp_part =
  cp_hdr :: "u8 list"
  cp_iv :: "u8 list"
  cp_payload :: "u8 list"
  cp_mic :: "u8 list"
  cp_fcs :: "u8 list"

definition ccmp_bytes :: "ccmp_part \<Rightarrow> u8 list" where
  "ccmp_bytes p = cp_hdr p @ cp_iv p @ cp_payload p @ cp_mic p @ cp_fcs p"

definition ccmp_part_ok :: "nat \<Rightarrow> ccmp_part \<Rightarrow> bool" where
  "ccmp_part_ok n p \<longleftrightarrow> length (cp_hdr p) = n \<and> length (cp_iv p) = 8 \<and> cp_iv p ! 3 AND 0x20 \<noteq> 0 \<and>
     length (cp_mic p) = 8 \<and> length (cp_fcs p) = 4 \<and> length (ccmp_bytes p) < 2 ^ 32"

lemma ccmp_trim:
  assumes "skb_ok e" and "ccmp_part_ok n p"
  shows "adf_nbuf_trim_tail e 4 (ccmp_bytes p) = cp_hdr p @ cp_iv p @ cp_payload p @ cp_mic p"
  using trim_tail_append [of e "cp_hdr p @ cp_iv p @ cp_payload p @ cp_mic p" "cp_fcs p" 4] assms
  by (simp add: ccmp_part_ok_def ccmp_bytes_def)

lemma ccmp_frag_step:
  assumes "skb_ok e" and "ccmp_part_ok (unat hl) p"
    and "nb_data s b = cp_hdr p @ cp_iv p @ cp_payload p @ cp_mic p"
  shows "frag_step e htt_sec_type_aes_ccmp hl b s = Some (True, set_data b (cp_hdr p @ cp_payload p) s)"
proof -
  have p: "length (cp_hdr p) = unat hl" "length (cp_iv p) = 8" "length (cp_mic p) = 8"
    "cp_iv p ! 3 AND IEEE80211_WEP_EXTIV \<noteq> 0"
    "length (cp_hdr p @ cp_iv p @ cp_payload p @ cp_mic p) < 2 ^ 32"
    using assms(2) by (auto simp: ccmp_part_ok_def ccmp_bytes_def IEEE80211_WEP_EXTIV_def)
  show ?thesis
    using ccmp_demic_ok [OF assms(1) p(1-4,5)] ccmp_decap_ok [OF assms(1) p(1,2,4)]
    by (simp add: frag_step_def on_data_def assms(3))
qed

text \<open>The header of the first fragment: addresses, sequence control and QoS field.\<close>

definition frag_header :: "u8 \<Rightarrow> u8 \<Rightarrow> u8 list \<Rightarrow> u8 list \<Rightarrow> u8 list \<Rightarrow> u8 list \<Rightarrow> u8 \<Rightarrow> u8 \<Rightarrow> u8 list \<Rightarrow> u8 list" where
  "frag_header fc0 fc1 dur a1 a2 a3 sq0 sq1 qos = [fc0, fc1] @ dur @ a1 @ a2 @ a3 @ [sq0, sq1] @ qos"

definition qos_len :: "u8 \<Rightarrow> u8 \<Rightarrow> nat" where
  "qos_len fc0 fc1 = (if fc0 AND 0x8c = 0x88 then (if fc1 AND 0x80 \<noteq> 0 then 6 else 2) else 0)"

lemma qos_has_seq: "DEFRAG_IEEE80211_QOS_HAS_SEQ d \<longleftrightarrow> d ! 0 AND 0x8c = 0x88"
  by (simp add: DEFRAG_IEEE80211_QOS_HAS_SEQ_def IEEE80211_FC0_TYPE_MASK_def
      IEEE80211_FC0_SUBTYPE_QOS_def IEEE80211_FC0_TYPE_DATA_def)

lemma frag_header_size:
  assumes "fc1 AND 3 \<noteq> 3"
  shows "\<exists>hl. ol_rx_frag_hdrsize (frag_header fc0 fc1 dur a1 a2 a3 sq0 sq1 qos @ xs) = Some hl \<and>
    unat hl = 24 + qos_len fc0 fc1"
  using assms by (simp add: ol_rx_frag_hdrsize_def qos_has_seq frag_header_def qos_len_def
      IEEE80211_FC1_DIR_MASK_def IEEE80211_FC1_DIR_DSTODS_def IEEE80211_FC1_ORDER_def)

lemma buf_upd_append: "i = length ys \<Longrightarrow> buf_upd i g (ys @ x # zs) = Some (ys @ g x # zs)"
  by (simp add: buf_upd_def load_at_def store_at_def list_update_append nth_append)

lemma frag_header_clear:
  assumes "length dur = 2" and "length a1 = 6" and "length a2 = 6" and "length a3 = 6"
  shows "Option.bind (buf_upd 1 f (frag_header fc0 fc1 dur a1 a2 a3 sq0 sq1 qos @ xs)) (buf_upd 22 g)
    = Some (frag_header fc0 (f fc1) dur a1 a2 a3 (g sq0) sq1 qos @ xs)"
  using buf_upd_append [of 1 "[fc0]" f fc1 "dur @ a1 @ a2 @ a3 @ sq0 # sq1 # qos @ xs"]
    buf_upd_append [of 22 "[fc0, f fc1] @ dur @ a1 @ a2 @ a3" g sq0 "sq1 # qos @ xs"] assms
  by (simp add: frag_header_def)

text \<open>The steps before joining, for fragments whose bytes are \<open>part\<close>.\<close>

definition ccmp_frags :: "rx_state \<Rightarrow> (nbuf \<Rightarrow> ccmp_part) \<Rightarrow> nat \<Rightarrow> nbuf list \<Rightarrow> bool" where
  "ccmp_frags s part n bs \<longleftrightarrow>
     (\<forall>b \<in> set bs. nb_data s b = ccmp_bytes (part b) \<and> ccmp_part_ok n (part b))"

lemma ccmp_strip:
  assumes e: "skb_ok (skb e)" and l: "lseg (nb_next s) (Some h) (h # vs) None"
    and safe: "\<not> pr_safemode (peers s (fst k))" and uni: "ccmp_unicast s k (h # vs)"
    and chk: "\<not> fw_pn_check (peers s (fst k))" "pr_opmode (peers s (fst k)) \<noteq> wlan_op_mode_ibss"
      "pn_rising (last_pn48 s k) (map (frag_pn e s) (h # vs))"
    and frags: "ccmp_frags s part (unat hl) (h # vs)"
    and hl: "\<And>xs. ol_rx_frag_hdrsize (cp_hdr (part h) @ xs) = Some hl"
  shows "\<exists>s2. ol_rx_defrag e k h s = defrag_join e k h hl s2 \<and> nb_next s2 = nb_next s \<and>
    nb_freed s2 = nb_freed s \<and> nb_desc s2 = nb_desc s \<and> peers s2 = peers s \<and>
    (\<forall>b \<in> set (h # vs). nb_data s2 b = cp_hdr (part b) @ cp_payload (part b))"
proof -
  have dist: "distinct (h # vs)" using lseg_acyclic [OF l] .
  obtain s1 where loop1: "defrag_pn_loop e k h None (Some h) s = Some (True, s1)"
    using pn_loop_pass [OF l dist uni chk] by blast
  have "\<forall>b \<in> set (h # vs). d_completes_mpdu (nb_desc s b)" using uni by (simp add: ccmp_unicast_def)
  then obtain ok s1' where "defrag_pn_loop e k h None (Some h) s = Some (ok, s1')"
    "pn_loop_post e s [] (h # vs) ok s1'"
    using defrag_pn_loop_rep [of s h "[]" "Some h" "h # vs" None e k] l dist by auto
  with loop1 have post1: "pn_loop_post e s [] (h # vs) True s1" by simp
  have s1: "nb_next s1 = nb_next s" "nb_freed s1 = nb_freed s" "peers s1 = peers s" "nb_desc s1 = nb_desc s"
    using post1 by (simp_all add: pn_loop_post_def)
  have d1: "nb_data s1 b = cp_hdr (part b) @ cp_iv (part b) @ cp_payload (part b) @ cp_mic (part b)"
    if "b \<in> set (h # vs)" for b
  proof -
    have "nb_data s1 b = adf_nbuf_trim_tail (skb e) 4 (nb_data s b)"
      using post1 that by (simp add: pn_loop_post_def)
    also have "nb_data s b = ccmp_bytes (part b)" "ccmp_part_ok (unat hl) (part b)"
      using frags that by (auto simp: ccmp_frags_def)
    then show ?thesis using ccmp_trim [OF e] calculation by simp
  qed
  have sec: "sec_index_type k h s1 = htt_sec_type_aes_ccmp"
    using uni by (simp add: sec_index_type_def s1 ccmp_unicast_def peer_sec_type_def)
  define P where "P b ok d \<longleftrightarrow> ok \<and> d = cp_hdr (part b) @ cp_payload (part b)" for b ok d
  have step: "\<exists>ok d. frag_step (skb e) htt_sec_type_aes_ccmp hl b t = Some (ok, set_data b d t) \<and> P b ok d"
    if "b \<in> set (h # vs)" "nb_data t b = nb_data s1 b" for b t
  proof -
    have "ccmp_part_ok (unat hl) (part b)" using frags that(1) by (auto simp: ccmp_frags_def)
    from ccmp_frag_step [OF e this, of t b] show ?thesis
      using that(2) d1 [OF that(1)] by (auto simp: P_def)
  qed
  have l1: "lseg (nb_next s1) (Some h) (h # vs) None" using l s1(1) by simp
  obtain r2 s2 where loop2: "defrag_decap_loop (skb e) htt_sec_type_aes_ccmp hl h (Some h) s1 = Some (r2, s2)"
    and s2: "nb_next s2 = nb_next s1" "nb_desc s2 = nb_desc s1" "peers s2 = peers s1"
    and post2: "if r2 then nb_freed s2 = nb_freed s1 \<and> (\<forall>b \<in> set (h # vs). P b True (nb_data s2 b)) \<and>
        (\<forall>c. c \<notin> set (h # vs) \<longrightarrow> nb_data s2 c = nb_data s1 c)
      else nb_freed s2 = nb_freed s1 @ (h # vs) \<and> (\<exists>b \<in> set (h # vs). \<exists>d. P b False d)"
    using defrag_decap_loop_rep [OF l1 l1 dist step] by blast
  have r2: r2 using post2 by (auto simp: P_def split: if_splits)
  have "ol_rx_frag_hdrsize (nb_data s1 h) = Some hl" using d1 [of h] hl by simp
  then have "ol_rx_defrag e k h s = defrag_join e k h hl s2"
    using loop1 safe loop2 r2 by (simp add: ol_rx_defrag_def sec)
  then show ?thesis using s1 s2 post2 r2 by (intro exI [of _ s2]) (auto simp: P_def)
qed

lemma ccmp_join:
  assumes e: "skb_ok (skb e)" and vs: "lseg (nb_next s) (nb_next s h) vs None" "distinct (h # vs)"
    and room: "\<forall>b \<in> set vs. expand_ok (skb e) h b"
    and sec: "sec_type_ucast (peers s (fst k)) = htt_sec_type_aes_ccmp" "\<not> d_mcast (nb_desc s h)"
    and data: "\<forall>b \<in> set (h # vs). nb_data s b = cp_hdr (part b) @ cp_payload (part b)"
    and hl: "\<forall>b \<in> set (h # vs). length (cp_hdr (part b)) = unat hl"
    and hdr: "cp_hdr (part h) = frag_header fc0 fc1 dur a1 a2 a3 sq0 sq1 qos"
      "length dur = 2" "length a1 = 6" "length a2 = 6" "length a3 = 6"
  shows "\<exists>s1. defrag_join e k h hl s = defrag_finish e k hl h s1 \<and> nb_freed s1 = nb_freed s @ vs \<and>
    nb_next s1 h = None \<and> nb_data s1 h =
      frag_header fc0 (fc1 AND NOT 4) dur a1 a2 a3 (sq0 AND NOT 0x0f) sq1 qos @
      concat (map (\<lambda>b. cp_payload (part b)) (h # vs))"
proof -
  let ?s = "adf_nbuf_set_next h None s"
  have l: "lseg (nb_next ?s) (nb_next s h) vs None" using vs by (simp add: lseg_frame)
  have d: "distinct vs" "h \<notin> set vs" using vs(2) by simp_all
  obtain ok s1 where loop: "recombine_loop (skb e) hl h (nb_next s h) ?s = Some (ok, s1)"
    and raw: "if ok then nb_freed s1 = nb_freed ?s @ vs \<and> nb_next s1 h = nb_next ?s h \<and>
       nb_data s1 h = nb_data ?s h @ concat (map (\<lambda>b. adf_nbuf_pull_head (skb e) (unat hl) (nb_data ?s b)) vs)
     else \<exists>xs. nb_freed s1 = nb_freed ?s @ xs \<and> mset xs = mset (h # vs)"
    and all: "(\<forall>b \<in> set vs. expand_ok (skb e) h b) \<longrightarrow> ok"
    using recombine_loop_rep [OF l d, of "skb e" hl] by blast
  have ok: ok using all room by blast
  have "adf_nbuf_pull_head (skb e) (unat hl) (nb_data s b) = cp_payload (part b)" if "b \<in> set vs" for b
    using that data hl pull_head_ok [OF e, of "unat hl" "nb_data s b"] by simp
  then have m: "map (\<lambda>b. adf_nbuf_pull_head (skb e) (unat hl) (nb_data s b)) vs = map (\<lambda>b. cp_payload (part b)) vs"
    by simp
  have "nb_data s1 h = nb_data s h @ concat (map (\<lambda>b. adf_nbuf_pull_head (skb e) (unat hl) (nb_data s b)) vs)"
    using raw ok by simp
  then have s1: "nb_freed s1 = nb_freed s @ vs" "nb_next s1 h = None"
    "nb_data s1 h = frag_header fc0 fc1 dur a1 a2 a3 sq0 sq1 qos @
      concat (map (\<lambda>b. cp_payload (part b)) (h # vs))"
    using raw ok data hdr(1) unfolding m by simp_all
  let ?d = "frag_header fc0 (fc1 AND NOT 4) dur a1 a2 a3 (sq0 AND NOT 0x0f) sq1 qos @
      concat (map (\<lambda>b. cp_payload (part b)) (h # vs))"
  have "Option.bind (buf_upd 1 (\<lambda>x. x AND NOT IEEE80211_FC1_MORE_FRAG) (nb_data s1 h))
      (buf_upd 22 (\<lambda>x. x AND NOT (ucast IEEE80211_SEQ_FRAG_MASK))) = Some ?d"
    unfolding s1(3) frag_header_clear [OF hdr(2-5)]
    by (simp add: IEEE80211_FC1_MORE_FRAG_def IEEE80211_SEQ_FRAG_MASK_def)
  moreover have "\<not> length ?d < 24" using hdr(2-5) by (simp add: frag_header_def)
  ultimately have "ol_rx_defrag_decap_recombine (skb e) h hl s = Some (Some h, set_data h ?d s1)"
    using loop ok by (simp add: ol_rx_defrag_decap_recombine_def)
  then have "defrag_join e k h hl s = defrag_finish e k hl h (set_data h ?d s1)"
    using sec by (simp add: defrag_join_def Let_def peer_sec_type_def)
  then show ?thesis using s1(1,2) by (intro exI [of _ "set_data h ?d s1"]) simp
qed

text \<open>The last steps turn the frame into the Ethernet frame.\<close>

lemma finish_ethernet:
  assumes e: "skb_ok (skb e)" "frame_8023 e"
    and hdr: "nb_data s h = frag_header fc0 fc1 dur a1 a2 a3 sq0 sq1 qos @ llc @ etype @ payload"
      "length dur = 2" "length a1 = 6" "length a2 = 6" "length a3 = 6" "length qos = qos_len fc0 fc1"
      "length llc = 6" "length etype = 2"
    and hl: "unat hl = 24 + qos_len fc0 fc1"
    and dir: "fc1 AND 3 = dir" "dir = 0 \<or> dir = 1 \<or> dir = 2"
  shows "defrag_finish e k hl h s = fwd_check e k (Some h) (set_data h
    ((if dir = 1 then a3 else a1) @ (if dir = 2 then a3 else a2) @ etype @ payload) s)"
proof -
  obtain d0 d1 where dur: "dur = [d0, d1]" using hdr(2) by (auto simp: numeral_eq_Suc length_Suc_conv)
  let ?body = "dur @ a1 @ a2 @ a3 @ [sq0, sq1]" and ?p = "llc @ etype @ payload"
  define c0 where "c0 = (if fc0 AND 0x8c = 0x88 then fc0 AND NOT 0x80 else fc0)"
  have frame: "nb_data s h = [fc0, fc1] @ ?body @ qos @ ?p" by (simp add: hdr(1) frag_header_def)
  have qos: "(if DEFRAG_IEEE80211_QOS_HAS_SEQ (nb_data s h) then ol_rx_defrag_qos_decap (skb e) hl (nb_data s h)
      else Some (nb_data s h)) = Some ([c0, fc1] @ ?body @ ?p)"
  proof (cases "fc0 AND 0x8c = 0x88")
    case True
    have q: "length qos = (if fc1 AND 0x80 \<noteq> 0 then 6 else 2)" using hdr(6) True by (simp add: qos_len_def)
    have "unat hl = 2 + length ?body + length qos" using hl hdr by simp
    from qos_decap_rep [OF e(1) frame q this] show ?thesis
      using True by (simp add: qos_has_seq frame c0_def)
  next
    case False
    then show ?thesis using hdr(6) by (simp add: qos_has_seq frame c0_def qos_len_def)
  qed
  have "ol_rx_defrag_nwifi_to_8023 (skb e) ([c0, fc1] @ ?body @ ?p)
      = Some ((if dir = 1 then a3 else a1) @ (if dir = 2 then a3 else a2) @ etype @ payload)"
    by (rule nwifi_to_8023_rep [OF e(1) _ hdr(3-5,7,8) dir]) (simp add: dur)
  moreover have "\<not> length (nb_data s h) < 2" by (simp add: frame)
  ultimately show ?thesis
    unfolding defrag_finish_def Let_def using e(2) qos by simp
qed

section \<open>Properties\<close>

text \<open>
  C32. No fragment is lost or freed twice.  For a list of complete fragments of at least 72 bytes,
  whatever the packet numbers, the cipher bytes and the room in the first buffer are, the reassembly
  comes to an end in one of two ways: all the buffers of the list have been freed, each exactly once,
  and nothing is handed on; or the first buffer, taken off the list, is handed on exactly once and
  all the others have been freed, each exactly once.
\<close>

theorem defrag_conserves_buffers:
  assumes "skb_ok (skb e)" and "lseg (nb_next s) (Some h) (h # vs) None"
    and "\<forall>b \<in> set (h # vs). d_completes_mpdu (nb_desc s b) \<and> 72 \<le> length (nb_data s b)"
    and "sum_list (map (\<lambda>b. length (nb_data s b)) (h # vs)) < 2 ^ 32"
    and "2 \<le> length (michael_key_ucast (peers s (fst k)))" and "2 \<le> length (michael_key_mcast (peers s (fst k)))"
    and "\<not> pr_safemode (peers s (fst k))"
  shows "(\<exists>s1 xs. ol_rx_defrag e k h s = Some s1 \<and> nb_freed s1 = nb_freed s @ xs \<and> mset xs = mset (h # vs)) \<or>
    (\<exists>s1 xs. ol_rx_defrag e k h s = fwd_check e k (Some h) s1 \<and> nb_next s1 h = None \<and>
       nb_freed s1 = nb_freed s @ xs \<and> mset xs = mset vs)"
proof -
  have "frags_ok s (h # vs)" using assms(3,4) by (simp add: frags_ok_def)
  moreover have "keys_ok s k" using assms(5,6) by (auto simp: keys_ok_def michael_key_of_def)
  ultimately show ?thesis
    using ol_rx_defrag_total [OF assms(1,2) _ _ assms(7)] unfolding one_frame_def by blast
qed

text \<open>A device with two fragments of a frame for the examples.\<close>

definition defrag_ex_env :: rx_env where
  "defrag_ex_env = \<lparr>skb = linux_skb, pn_junk = (\<lambda>_. \<lparr>pn128_0 = 0, pn128_1 = 0\<rparr>),
     fwd_check = (\<lambda>_ _ s. Some s), deliver = (\<lambda>_ _ s. Some s), in_order_deliver = (\<lambda>_ _ s. Some s),
     full_reorder_offload = False, frame_8023 = True, defrag_timeout_check = False, defrag_timeout_len = 0\<rparr>"

definition defrag_ex_part :: "nbuf \<Rightarrow> ccmp_part" where
  "defrag_ex_part b =
     (if b = 0
      then \<lparr>cp_hdr = frag_header 8 6 [0, 0] (replicate 6 1) (replicate 6 2) (replicate 6 3) 0x10 0 [],
             cp_iv = [0, 0, 0, 0x20, 0, 0, 0, 0], cp_payload = [0xaa, 0xaa, 3, 0, 0, 0] @ [8, 0] @ replicate 30 7,
             cp_mic = replicate 8 0, cp_fcs = replicate 4 0\<rparr>
      else \<lparr>cp_hdr = frag_header 8 2 [0, 0] (replicate 6 1) (replicate 6 2) (replicate 6 3) 0x11 0 [],
             cp_iv = [0, 0, 0, 0x20, 0, 0, 0, 0], cp_payload = replicate 40 9,
             cp_mic = replicate 8 0, cp_fcs = replicate 4 0\<rparr>)"

definition defrag_ex :: rx_state where
  "defrag_ex = rx_quiet\<lparr>nb_next := (\<lambda>_. None)(0 := Some 1),
     nb_desc := (\<lambda>b. rx_desc0\<lparr>d_encrypted := True, d_pn_31_0 := of_nat b + 5\<rparr>),
     nb_data := (\<lambda>b. ccmp_bytes (defrag_ex_part b))\<rparr>"

lemmas defrag_ex_defs = defrag_ex_def defrag_ex_env_def defrag_ex_part_def ccmp_bytes_def frag_header_def
  rx_quiet_defs

lemma defrag_ex_list: "lseg (nb_next defrag_ex) (Some 0) [0, 1] None"
  by (simp add: defrag_ex_def)

theorem defrag_conserves_buffers_witness:
  "(\<exists>s1 xs. ol_rx_defrag defrag_ex_env (0, 0) 0 defrag_ex = Some s1 \<and> nb_freed s1 = xs \<and> mset xs = mset [0, 1]) \<or>
   (\<exists>s1 xs. ol_rx_defrag defrag_ex_env (0, 0) 0 defrag_ex = Some s1 \<and> nb_next s1 0 = None \<and>
      nb_freed s1 = xs \<and> mset xs = mset [1])"
proof -
  have "nb_freed defrag_ex = []" "fwd_check defrag_ex_env k b s = Some s" for k b s
    by (simp_all add: defrag_ex_defs)
  then show ?thesis
    using defrag_conserves_buffers [of defrag_ex_env defrag_ex 0 "[1]" "(0, 0)"] defrag_ex_list
    by (simp add: defrag_ex_defs)
qed

text \<open>
  C33. Reassembly undoes fragmentation under CCMP.  Take fragments of an encrypted unicast frame whose
  packet numbers rise from the last one of the TID: each is its header, the cipher header with the
  extended-IV bit, a piece of the payload, the 8-byte code and the 4-byte checksum, and the pieces
  together are an LLC header, a type and the payload of an Ethernet frame.  Then the buffer handed on
  holds the Ethernet frame: destination and source as the direction bits of the first header select
  them, the type, and the whole payload; the buffers of the other fragments are freed in order.
\<close>

theorem ccmp_reassembly:
  assumes "skb_ok (skb e)" and "frame_8023 e" and "\<forall>b \<in> set vs. expand_ok (skb e) h b"
    and "lseg (nb_next s) (Some h) (h # vs) None" and "\<not> pr_safemode (peers s (fst k))"
    and "sec_type_ucast (peers s (fst k)) = htt_sec_type_aes_ccmp"
    and "\<forall>b \<in> set (h # vs). d_completes_mpdu (nb_desc s b) \<and> d_encrypted (nb_desc s b) \<and> \<not> d_mcast (nb_desc s b)"
    and "\<not> fw_pn_check (peers s (fst k))" and "pr_opmode (peers s (fst k)) \<noteq> wlan_op_mode_ibss"
    and "pn_rising (last_pn48 s k) (map (frag_pn e s) (h # vs))"
    and "\<forall>b \<in> set (h # vs). nb_data s b = ccmp_bytes (part b) \<and> ccmp_part_ok (24 + qos_len fc0 fc1) (part b)"
    and "cp_hdr (part h) = frag_header fc0 fc1 dur a1 a2 a3 sq0 sq1 qos"
    and "length dur = 2" and "length a1 = 6" and "length a2 = 6" and "length a3 = 6"
    and "length qos = qos_len fc0 fc1"
    and "concat (map (\<lambda>b. cp_payload (part b)) (h # vs)) = llc @ etype @ payload"
    and "length llc = 6" and "length etype = 2"
    and "fc1 AND 3 = dir" and "dir = 0 \<or> dir = 1 \<or> dir = 2"
  shows "\<exists>s1. ol_rx_defrag e k h s = fwd_check e k (Some h) s1 \<and> nb_next s1 h = None \<and>
    nb_freed s1 = nb_freed s @ vs \<and>
    nb_data s1 h = (if dir = 1 then a3 else a1) @ (if dir = 2 then a3 else a2) @ etype @ payload"
proof -
  have "fc1 AND 3 \<noteq> 3" using assms(21,22) by auto
  define hl where "hl = (24 + of_nat (qos_len fc0 fc1) :: u16)"
  have hl: "unat hl = 24 + qos_len fc0 fc1" by (simp add: hl_def qos_len_def)
  have size: "ol_rx_frag_hdrsize (cp_hdr (part h) @ xs) = Some hl" for xs
  proof -
    obtain x where x: "ol_rx_frag_hdrsize (cp_hdr (part h) @ xs) = Some x" "unat x = 24 + qos_len fc0 fc1"
      using frag_header_size [OF \<open>fc1 AND 3 \<noteq> 3\<close>, of fc0 dur a1 a2 a3 sq0 sq1 qos xs]
      unfolding assms(12) by blast
    then have "unat x = unat hl" using hl by simp
    then show ?thesis using x(1) by simp
  qed
  have uni: "ccmp_unicast s k (h # vs)" using assms(6,7) by (simp add: ccmp_unicast_def)
  have frags: "ccmp_frags s part (unat hl) (h # vs)" using assms(11) by (simp add: ccmp_frags_def hl)
  obtain s2 where s2: "ol_rx_defrag e k h s = defrag_join e k h hl s2" "nb_next s2 = nb_next s"
    "nb_freed s2 = nb_freed s" "nb_desc s2 = nb_desc s" "peers s2 = peers s"
    "\<forall>b \<in> set (h # vs). nb_data s2 b = cp_hdr (part b) @ cp_payload (part b)"
    using ccmp_strip [where part = part and h = h and hl = hl, OF assms(1,4,5) uni assms(8-10) frags size]
    by blast
  have "lseg (nb_next s2) (nb_next s2 h) vs None" using assms(4) s2(2) by simp
  moreover have "sec_type_ucast (peers s2 (fst k)) = htt_sec_type_aes_ccmp" "\<not> d_mcast (nb_desc s2 h)"
    using assms(6,7) s2(4,5) by simp_all
  moreover have "\<forall>b \<in> set (h # vs). length (cp_hdr (part b)) = unat hl"
    using assms(11) by (simp add: ccmp_part_ok_def hl)
  ultimately obtain s3 where s3: "defrag_join e k h hl s2 = defrag_finish e k hl h s3"
    "nb_freed s3 = nb_freed s2 @ vs" "nb_next s3 h = None"
    "nb_data s3 h = frag_header fc0 (fc1 AND NOT 4) dur a1 a2 a3 (sq0 AND NOT 0x0f) sq1 qos @ llc @ etype @ payload"
    using ccmp_join [where part = part and h = h, OF assms(1) _ lseg_acyclic [OF assms(4)] assms(3) _ _ s2(6) _ assms(12-16)]
    unfolding assms(18) by blast
  have fc1: "(fc1 AND NOT 4) AND 3 = dir" "qos_len fc0 (fc1 AND NOT 4) = qos_len fc0 fc1"
    using assms(21) by (simp_all add: and.assoc qos_len_def)
  have q: "length qos = qos_len fc0 (fc1 AND NOT 4)" and h: "unat hl = 24 + qos_len fc0 (fc1 AND NOT 4)"
    using assms(17) hl by (simp_all only: fc1(2))
  show ?thesis
    using finish_ethernet [OF assms(1,2) s3(4) assms(13-16) q assms(19,20) h fc1(1) assms(22), of k] s2 s3
    by (intro exI [of _ "set_data h ((if dir = 1 then a3 else a1) @ (if dir = 2 then a3 else a2) @ etype @ payload) s3"])
      (simp del: append.assoc)
qed

theorem ccmp_reassembly_witness:
  "\<exists>s1. ol_rx_defrag defrag_ex_env (0, 0) 0 defrag_ex = Some s1 \<and> nb_freed s1 = [1] \<and>
    nb_data s1 0 = replicate 6 1 @ replicate 6 3 @ [8, 0] @ replicate 30 7 @ replicate 40 9"
proof -
  have env: "skb_ok (skb defrag_ex_env)" "frame_8023 defrag_ex_env"
    "\<forall>b \<in> set [1]. expand_ok (skb defrag_ex_env) 0 b" "fwd_check defrag_ex_env k b s = Some s" for k b s
    by (simp_all add: defrag_ex_env_def linux_skb_def skb_ok_def)
  have pn: "pn_rising (last_pn48 defrag_ex (0, 0)) (map (frag_pn defrag_ex_env defrag_ex) [0, 1])"
    by (simp add: defrag_ex_defs last_pn48_def frag_pn_def pn48_nat_def pn48_def htt_rx_mpdu_desc_pn_ll_def)
  have "\<exists>s1. ol_rx_defrag defrag_ex_env (0, 0) 0 defrag_ex = fwd_check defrag_ex_env (0, 0) (Some 0) s1 \<and>
      nb_next s1 0 = None \<and> nb_freed s1 = nb_freed defrag_ex @ [1] \<and>
      nb_data s1 0 = (if (2 :: u8) = 1 then replicate 6 3 else replicate 6 1) @
        (if (2 :: u8) = 2 then replicate 6 3 else replicate 6 2) @ [8, 0] @ replicate 30 7 @ replicate 40 9"
    by (rule ccmp_reassembly [OF env(1-3) defrag_ex_list _ _ _ _ _ pn, where part = defrag_ex_part and
          ?fc0.0 = 8 and ?fc1.0 = 6 and dur = "[0, 0]" and ?a1.0 = "replicate 6 1" and ?a2.0 = "replicate 6 2" and
          ?a3.0 = "replicate 6 3" and ?sq0.0 = "0x10" and ?sq1.0 = 0 and qos = "[]" and
          llc = "[0xaa, 0xaa, 3, 0, 0, 0]"])
      (simp_all add: defrag_ex_defs ccmp_part_ok_def qos_len_def)
  moreover have "nb_freed defrag_ex = []" by (simp add: defrag_ex_defs)
  ultimately show ?thesis unfolding env(4) by auto
qed

end
