(* ===== verification/Rx_Frag_Store.thy ===== *)
theory Rx_Frag_Store
  imports Rx_Fraglist Rx_Defrag_Props
begin

text \<open>
  What \<open>ol_rx_reorder_store_frag\<close> does with a fragment: it drops it, keeps it with a new deadline on
  the wait list, or hands the complete list to \<open>ol_rx_defrag\<close> and empties the slot.
\<close>

section \<open>The end of a store\<close>

lemma store_frag_end_wait:
  assumes "defrag_timeout_check e" and "waitlist_rep s ks"
  shows "\<exists>s1. store_frag_end e k i seq_num now_ms el False s = Some s1 \<and>
    waitlist_rep s1 (remove1 k ks @ [k]) \<and>
    defrag_timeout_ms (tids_rx_reorder s1 k) = now_ms + defrag_timeout_len e \<and>
    nb_next s1 = nb_next s \<and> nb_data s1 = nb_data s \<and> nb_freed s1 = nb_freed s \<and>
    ro_get (tids_rx_reorder s1 k) i = ro_get (tids_rx_reorder s k) i"
proof -
  obtain q where q: "ol_rx_defrag_waitlist_remove k s = Some (s\<lparr>waitlist := q\<rparr>)"
    "waitlist_rep (s\<lparr>waitlist := q\<rparr>) (remove1 k ks)"
    using waitlist_remove [OF assms(2)] by blast
  define s2 where "s2 = set_timeout k (now_ms + defrag_timeout_len e) (s\<lparr>waitlist := q\<rparr>)"
  have "waitlist_rep s2 (remove1 k ks)"
    using q(2) by (simp add: s2_def waitlist_rep_def)
  moreover have "distinct ks" 
    using assms(2) lseg_acyclic by (auto simp: waitlist_rep_def tailq_rep_def)
  ultimately have "waitlist_rep (ol_rx_defrag_waitlist_add k s2) (remove1 k ks @ [k])"
    by (intro waitlist_add) auto
  then show ?thesis
    using assms(1) q(1) by (intro exI [of _ "ol_rx_defrag_waitlist_add k s2"])
      (simp add: store_frag_end_def s2_def)
qed

text \<open>Reassembly of a complete list, which leaves the slot empty.\<close>

definition reassemble ::
  "rx_env \<Rightarrow> tidk \<Rightarrow> nat \<Rightarrow> u16 \<Rightarrow> nbuf \<Rightarrow> rx_state \<Rightarrow> rx_state option" where
  "reassemble e k i seq_num h s =
     (case ol_rx_defrag e k h s of
        None \<Rightarrow> None
      | Some s1 \<Rightarrow>
          map_option (\<lambda>r. s1\<lparr>tids_rx_reorder := (tids_rx_reorder s1)(k := r\<lparr>defrag_timeout_ms := 0\<rparr>),
              tids_last_seq := (tids_last_seq s1)(k := seq_num)\<rparr>)
            (ro_put (tids_rx_reorder s1 k) i empty_elem))"

lemma store_frag_end_done:
  assumes w: "waitlist_rep s ks" and el: "el_head el = Some h" and chk: "defrag_timeout_check e"
  shows "\<exists>q. waitlist_rep (s\<lparr>waitlist := q\<rparr>) (remove1 k ks) \<and>
    store_frag_end e k i seq_num now_ms el True s = reassemble e k i seq_num h (s\<lparr>waitlist := q\<rparr>)"
proof -
  obtain q where q: "ol_rx_defrag_waitlist_remove k s = Some (s\<lparr>waitlist := q\<rparr>)"
    "waitlist_rep (s\<lparr>waitlist := q\<rparr>) (remove1 k ks)"
    using waitlist_remove [OF w] by blast
  have "store_frag_end e k i seq_num now_ms el True s = reassemble e k i seq_num h (s\<lparr>waitlist := q\<rparr>)"
    using chk q(1) el
    by (auto simp: store_frag_end_def put_elem_def reassemble_def set_timeout_def upd_reorder_def
        split: option.split bind_splits)
  then show ?thesis using q(2) by blast
qed

section \<open>Properties\<close>

text \<open>
  A fragment that is multicast, or that is not encrypted although its peer has a key, is freed, and
  nothing else changes.
\<close>

theorem store_frag_rejects:
  assumes "ro_get (tids_rx_reorder s k) (unat (seq_num AND ucast (win_sz_mask (tids_rx_reorder s k)))) = Some el"
    and "24 \<le> length (nb_data s frag)" and "nb_next s frag = None"
    and "d_mcast (nb_desc s frag) \<or>
      \<not> d_encrypted (nb_desc s frag) \<and> sec_type_ucast (peers s (fst k)) \<noteq> htt_sec_type_none"
  shows "ol_rx_reorder_store_frag e k seq_num now_ms frag s = Some (s\<lparr>nb_freed := nb_freed s @ [frag]\<rparr>)"
proof -
  have "ol_rx_frames_free (Some frag) s = Some (s\<lparr>nb_freed := nb_freed s @ [frag]\<rparr>)"
    using assms(3) by (intro ol_rx_frames_free_rep) simp
  then show ?thesis
    using assms(1,2,4) mac_hdr_ok [of s frag]
    by (auto simp: ol_rx_reorder_store_frag_def Let_def ieee80211_frame_size_def peer_sec_type_def)
qed

definition store_ex_env :: rx_env where
  "store_ex_env = defrag_ex_env\<lparr>defrag_timeout_check := True, defrag_timeout_len := 100\<rparr>"

text \<open>One TID of an open network holds fragment \<open>b\<close> and waits.\<close>

definition store_ex :: "nbuf \<Rightarrow> rx_state" where
  "store_ex b = ol_rx_defrag_waitlist_add (0, 5) (fraglist_ex\<lparr>
     tids_rx_reorder := (\<lambda>k. rx_reorder0\<lparr>ro_tid := ucast (snd k), ro_base := one_elem b\<rparr>)\<rparr>)"

theorem store_frag_rejects_witness:
  "\<exists>s. nb_freed s = [] \<and>
    ol_rx_reorder_store_frag store_ex_env (0, 5) 1 0 7 s = Some (s\<lparr>nb_freed := [7]\<rparr>)"
proof -
  define s where "s = (store_ex 0)\<lparr>nb_desc := (\<lambda>_. rx_desc0\<lparr>d_mcast := True\<rparr>)\<rparr>"
  have "nb_freed s = []" "length (nb_data s 7) = 72" "nb_next s 7 = None" "d_mcast (nb_desc s 7)"
    "ro_get (tids_rx_reorder s (0, 5)) (unat ((1 :: u16) AND ucast (win_sz_mask (tids_rx_reorder s (0, 5)))))
       = Some (one_elem 0)"
    by (simp_all add: s_def store_ex_def fraglist_ex_facts)
      (simp_all add: fraglist_ex_def rx_quiet_defs ro_get_def)
  with store_frag_rejects [of s "(0, 5)" 1 "one_elem 0" 7 store_ex_env 0] show ?thesis
    by (intro exI [of _ s]) simp
qed

text \<open>
  A fragment that continues the held ones but does not complete them joins the list of its slot;
  the TID moves to the end of the wait list, once, with a deadline counted from now, and no buffer is
  freed.
\<close>

theorem store_frag_waits:
  assumes "ro_get (tids_rx_reorder s k) i = Some el"
    and "i = unat (seq_num AND ucast (win_sz_mask (tids_rx_reorder s k)))"
    and "frag_list s el bs" and "sorted_wrt (<) (map (fno s) (bs @ [frag]))"
    and "frag \<notin> set bs" and "24 \<le> length (nb_data s frag)" and "hdr_more_frag (nb_data s frag)"
    and "\<not> d_mcast (nb_desc s frag)"
    and "sec_type_ucast (peers s (fst k)) = htt_sec_type_none \<or> d_encrypted (nb_desc s frag)"
    and "hdr_rxseq (nb_data s frag) = hdr_rxseq (nb_data s (hd bs))"
    and "hdr_addr12 (nb_data s frag) = hdr_addr12 (nb_data s (hd bs))"
    and "defrag_timeout_check e" and "waitlist_rep s ks"
  shows "\<exists>s1. ol_rx_reorder_store_frag e k seq_num now_ms frag s = Some s1 \<and>
    ro_get (tids_rx_reorder s1 k) i = Some \<lparr>el_head = el_head el, el_tail = Some frag\<rparr> \<and>
    frag_list s1 \<lparr>el_head = el_head el, el_tail = Some frag\<rparr> (bs @ [frag]) \<and>
    waitlist_rep s1 (remove1 k ks @ [k]) \<and>
    defrag_timeout_ms (tids_rx_reorder s1 k) = now_ms + defrag_timeout_len e \<and>
    nb_freed s1 = nb_freed s"
proof -
  let ?el = "\<lparr>el_head = el_head el, el_tail = Some frag\<rparr>"
  have bs: "length bs \<le> 16" "ieee80211_frame_size \<le> length (nb_data s frag)" "fno s (last bs) < fno s frag"
    using ascending_short [of s bs] assms(3,4,6)
    by (auto simp: sorted_wrt_append ieee80211_frame_size_def frag_list_def)
  obtain s3 where st: "ol_rx_reorder_store_frag e k seq_num now_ms frag s = store_frag_end e k i seq_num now_ms ?el
      (\<not> hdr_more_frag (nb_data s frag) \<and> frags_in_sequence s (fst k) (bs @ [frag])) s3"
    and s3: "ro_get (tids_rx_reorder s3 k) i = Some ?el" "frag_list s3 ?el (bs @ [frag])"
      "nb_freed s3 = nb_freed s" "waitlist s3 = waitlist s"
    using store_frag_accept [OF assms(2,1,3) bs(1) assms(5) bs(2,3) assms(8-11), of e now_ms] by blast
  have "waitlist_rep s3 ks" using assms(13) s3(4) by (simp add: waitlist_rep_def)
  from store_frag_end_wait [OF assms(12) this, of k i seq_num now_ms ?el]
  obtain s1 where s1: "store_frag_end e k i seq_num now_ms ?el False s3 = Some s1"
    "waitlist_rep s1 (remove1 k ks @ [k])" "defrag_timeout_ms (tids_rx_reorder s1 k) = now_ms + defrag_timeout_len e"
    "nb_next s1 = nb_next s3" "nb_data s1 = nb_data s3" "nb_freed s1 = nb_freed s3"
    "ro_get (tids_rx_reorder s1 k) i = ro_get (tids_rx_reorder s3 k) i" by blast
  moreover have "frag_list s1 ?el (bs @ [frag])"
    using s3(2) s1(4,5) by (simp add: frag_list_def)
  ultimately show ?thesis using st s3 assms(7) by (intro exI [of _ s1]) simp
qed

lemma store_ex_facts:
  "nb_freed (store_ex b) = []" "nb_next (store_ex b) = (\<lambda>_. None)" "nb_data (store_ex b) = nb_data fraglist_ex"
  "d_mcast (nb_desc (store_ex b) c) = False" "nb_desc (store_ex b) = nb_desc fraglist_ex" "peers (store_ex b) = peers fraglist_ex"
  "sec_type_ucast (peers fraglist_ex p) = htt_sec_type_none"
  "tids_rx_reorder (store_ex b) k = rx_reorder0\<lparr>ro_tid := ucast (snd k), ro_base := one_elem b\<rparr>"
  by (simp_all add: store_ex_def fraglist_ex_facts)
    (simp_all add: ol_rx_defrag_waitlist_add_def fraglist_ex_def rx_quiet_defs)

lemma store_ex_slot: "ro_get (tids_rx_reorder (store_ex b) k) 0 = Some (one_elem b)"
  and store_ex_mask: "win_sz_mask (tids_rx_reorder (store_ex b) k) = 0"
  by (simp_all add: store_ex_facts ro_get_def rx_quiet_defs)

lemma store_ex_waitlist: "waitlist_rep (store_ex b) [(0, 5)]"
proof -
  let ?s = "fraglist_ex\<lparr>tids_rx_reorder := (\<lambda>k. rx_reorder0\<lparr>ro_tid := ucast (snd k), ro_base := one_elem b\<rparr>)\<rparr>"
  have "waitlist_rep ?s []"
    by (simp add: waitlist_rep_def fraglist_ex_def rx_quiet_defs tailq_rep_def tq_end_def)
  then show ?thesis using waitlist_add [of ?s "[]" "(0, 5)"] by (simp add: store_ex_def)
qed

theorem store_frag_waits_witness:
  "\<exists>s s1. nb_freed s = [] \<and> ol_rx_reorder_store_frag store_ex_env (0, 5) 0 40 5 s = Some s1 \<and>
    ro_get (tids_rx_reorder s1 (0, 5)) 0 = Some \<lparr>el_head = Some 0, el_tail = Some 5\<rparr> \<and>
    waitlist_rep s1 [(0, 5)] \<and> defrag_timeout_ms (tids_rx_reorder s1 (0, 5)) = 140"
proof -
  define s where "s = (store_ex 0)\<lparr>nb_data := (nb_data (store_ex 0))(5 := frag_bytes 6 1)\<rparr>"
  have data: "nb_data s 5 = frag_bytes 6 1" "nb_data s 0 = frag_bytes 6 0"
    by (simp_all add: s_def store_ex_facts fraglist_ex_def)
  have hdr: "length (nb_data s 5) = 72" "length (nb_data s 0) = 72" "fno s 5 = 1" "fno s 0 = 0"
    "hdr_more_frag (nb_data s 5)" "hdr_rxseq (nb_data s 5) = hdr_rxseq (nb_data s 0)"
    "hdr_addr12 (nb_data s 5) = hdr_addr12 (nb_data s 0)"
    unfolding data by (simp_all add: frag_bytes_def hdr_fragno_def i_seq_def hdr_more_frag_def hdr_rxseq_def hdr_addr12_def
      IEEE80211_SEQ_FRAG_MASK_def IEEE80211_FC1_MORE_FRAG_def nth_append)
  have st: "nb_freed s = []" "\<not> d_mcast (nb_desc s 5)" "sec_type_ucast (peers s 0) = htt_sec_type_none"
    "ro_get (tids_rx_reorder s (0, 5)) 0 = Some (one_elem 0)" "win_sz_mask (tids_rx_reorder s (0, 5)) = 0"
    "nb_next s 0 = None"
    using store_ex_slot [of 0 "(0, 5)"] store_ex_mask [of 0 "(0, 5)"]
    by (simp_all add: s_def store_ex_facts(1-3,6,7)) (simp add: store_ex_facts(4))
  have "waitlist_rep s [(0, 5)]" using store_ex_waitlist [of 0] by (simp add: s_def waitlist_rep_def)
  moreover have "frag_list s (one_elem 0) [0]"
    using hdr st by (simp add: frag_list_def ieee80211_frame_size_def)
  ultimately show ?thesis
    using store_frag_waits [of s "(0, 5)" 0 "one_elem 0" 0 "[0]" 5 store_ex_env "[(0, 5)]" 40] hdr st
    by (auto simp: store_ex_env_def)
qed

text \<open>
  A fragment that completes the held ones takes its TID off the wait list and hands the whole list,
  in the order of the fragment numbers, to the reassembly; afterwards the slot is emptied, the deadline
  cleared, and the sequence number recorded as the last one.
\<close>

theorem store_frag_completes:
  assumes "ro_get (tids_rx_reorder s k) i = Some el"
    and "i = unat (seq_num AND ucast (win_sz_mask (tids_rx_reorder s k)))"
    and "frag_list s el (h # bs)" and "map (\<lambda>b. unat (fno s b)) (h # bs @ [frag]) = [0..<length bs + 2]"
    and "frag \<notin> set (h # bs)" and "24 \<le> length (nb_data s frag)" and "\<not> hdr_more_frag (nb_data s frag)"
    and "\<not> d_mcast (nb_desc s frag)" and "\<not> d_mcast (nb_desc s h)"
    and "sec_type_ucast (peers s (fst k)) = htt_sec_type_none"
    and "hdr_rxseq (nb_data s frag) = hdr_rxseq (nb_data s h)"
    and "hdr_addr12 (nb_data s frag) = hdr_addr12 (nb_data s h)"
    and "defrag_timeout_check e" and "waitlist_rep s ks"
  shows "\<exists>s1. lseg (nb_next s1) (Some h) (h # bs @ [frag]) None \<and> nb_data s1 = nb_data s \<and>
    nb_freed s1 = nb_freed s \<and> waitlist_rep s1 (remove1 k ks) \<and>
    ol_rx_reorder_store_frag e k seq_num now_ms frag s = reassemble e k i seq_num h s1"
proof -
  let ?el = "\<lparr>el_head = el_head el, el_tail = Some frag\<rparr>"
  have head: "el_head el = Some h" using frag_list_head [OF assms(3)] by simp
  have "sorted_wrt (<) (map (\<lambda>b. unat (fno s b)) (h # bs @ [frag]))"
    unfolding assms(4) by (rule sorted_wrt_upt)
  then have asc: "sorted_wrt (<) (map (fno s) ((h # bs) @ [frag]))"
    by (simp add: sorted_wrt_append sorted_wrt_map word_less_nat_alt)
  then have bs: "length (h # bs) \<le> 16" "ieee80211_frame_size \<le> length (nb_data s frag)"
    "fno s (last (h # bs)) < fno s frag"
    using ascending_short [of s "h # bs"] assms(6)
    by (auto simp: sorted_wrt_append ieee80211_frame_size_def)
  have "2 \<le> length (map (fno s) (h # bs @ [frag]))" by simp
  moreover have "map unat (map (fno s) (h # bs @ [frag])) = [0..<length (map (fno s) (h # bs @ [frag]))]"
    using assms(4) by (simp add: comp_def del: upt_Suc)
  ultimately have "numbered_from 0 (map (fno s) (bs @ [frag]))"
    using ascending_complete [of "map (fno s) (h # bs @ [frag])"] asc by simp
  then have seq: "frags_in_sequence s (fst k) ((h # bs) @ [frag])"
    using assms(9,10) by (simp add: frags_in_sequence_def pn_steps_def peer_sec_type_def rx_pn_len_def)
  obtain s3 where st: "ol_rx_reorder_store_frag e k seq_num now_ms frag s
      = store_frag_end e k i seq_num now_ms ?el True s3"
    and s3: "frag_list s3 ?el ((h # bs) @ [frag])" "nb_freed s3 = nb_freed s" "waitlist s3 = waitlist s" "nb_data s3 = nb_data s"
    using store_frag_accept [OF assms(2,1,3) bs(1) assms(5) bs(2,3) assms(8), of e now_ms] assms(7,10-12) seq by auto
  have "waitlist_rep s3 ks" using assms(14) s3(3) by (simp add: waitlist_rep_def)
  from store_frag_end_done [OF this _ assms(13), where el = ?el and h = h and k = k and i = i and seq_num = seq_num and now_ms = now_ms] head
  obtain q where q: "waitlist_rep (s3\<lparr>waitlist := q\<rparr>) (remove1 k ks)"
    "store_frag_end e k i seq_num now_ms ?el True s3 = reassemble e k i seq_num h (s3\<lparr>waitlist := q\<rparr>)"
    by auto
  show ?thesis
    unfolding st using q s3 head by (intro exI [of _ "s3\<lparr>waitlist := q\<rparr>"]) (simp add: frag_list_def)
qed

theorem store_frag_completes_witness:
  "\<exists>s s1. nb_freed s1 = [] \<and> lseg (nb_next s1) (Some 0) [0, 1] None \<and> waitlist_rep s1 [] \<and>
    ol_rx_reorder_store_frag store_ex_env (0, 5) 0 40 1 s = reassemble store_ex_env (0, 5) 0 0 0 s1"
proof -
  define s where "s = store_ex 0"
  have data: "nb_data s 1 = frag_bytes 2 1" "nb_data s 0 = frag_bytes 6 0"
    by (simp_all add: s_def store_ex_facts fraglist_ex_def)
  have hdr: "length (nb_data s b) = 72" "fno s 1 = 1" "fno s 0 = 0" "\<not> hdr_more_frag (nb_data s 1)"
    "hdr_rxseq (nb_data s 1) = hdr_rxseq (nb_data s 0)" "hdr_addr12 (nb_data s 1) = hdr_addr12 (nb_data s 0)" for b
    by (simp_all add: s_def store_ex_facts fraglist_ex_facts fraglist_ex_facts [unfolded One_nat_def])
      (simp_all add: fraglist_ex_def frag_bytes_def hdr_rxseq_def hdr_addr12_def i_seq_def nth_append)
  have st: "nb_freed s = []" "\<not> d_mcast (nb_desc s b)" "sec_type_ucast (peers s 0) = htt_sec_type_none"
    "ro_get (tids_rx_reorder s (0, 5)) 0 = Some (one_elem 0)" "win_sz_mask (tids_rx_reorder s (0, 5)) = 0"
    "nb_next s 0 = None" "waitlist_rep s [(0, 5)]" for b
    using store_ex_slot [of 0 "(0, 5)"] store_ex_mask [of 0 "(0, 5)"] store_ex_facts(4) [of 0 b] store_ex_waitlist [of 0]
    by (simp_all add: s_def store_ex_facts(1-3,6,7))
  have "frag_list s (one_elem 0) [0]"
    using hdr st by (simp add: frag_list_def ieee80211_frame_size_def)
  then show ?thesis
    using store_frag_completes [of s "(0, 5)" 0 "one_elem 0" 0 0 "[]" 1 store_ex_env "[(0, 5)]" 40] hdr st
    by (auto simp: store_ex_env_def upt_rec)
qed

end
