(* ===== verification/Peer_Table.thy ===== *)
theory Peer_Table
  imports Keyed_Table Rx_Reorder_Props
begin

text \<open>
  The peers of the data path by MAC address (\<open>ol_txrx_peer_find.c\<close>): a hash table whose bins are tail
  queues of peers.  The state of the device adds to the receive state the peers' addresses and
  reference counts, the virtual devices, the hash table and the pool of local ids.  The locks are not
  modelled: an operation is one step.  \<open>None\<close> is an access outside an array or through a null
  pointer.
\<close>

section \<open>State\<close>

datatype ol_txrx_peer_state =
  ol_txrx_peer_state_invalid | ol_txrx_peer_state_disc | ol_txrx_peer_state_conn | ol_txrx_peer_state_auth

datatype ol_tx_filter = ol_tx_filter_none | ol_tx_filter_discard | ol_tx_filter_non_auth | ol_tx_filter_pass_thru

type_synonym vdev = nat

text \<open>The part of a peer that is not in the receive state.\<close>

record peer_info =
  pi_vdev :: "vdev option"
  pi_mac_addr :: mac_addr
  pi_ref_cnt :: u32
  pi_delete_in_progress :: bool
  pi_state :: ol_txrx_peer_state
  pi_tx_filter :: ol_tx_filter
  pi_peer_ids :: "u16 list"
  pi_bss_peer :: bool

record vdev_info =
  vd_mac_addr :: mac_addr
  vd_opmode :: wlan_op_mode
  vd_safemode :: bool
  vd_last_real_peer :: "peer option"
  vd_wait_on_peer_id :: u16
  vd_wait_delete_comp :: bool
  vd_delete_pending :: bool

record pdev_state =
  rx :: rx_state
  pinfo :: "peer \<Rightarrow> peer_info"
  vinfo :: "vdev \<Rightarrow> vdev_info"
  hash_mask :: u32
  hash_idx_bits :: nat
  hash_bins :: "(nat, peer) tailqs"
  peer_list :: "(vdev, peer) tailqs"
  local_pool :: "u8 list"
  local_freelist :: u8
  local_map :: "peer option list"
  self_peer :: "peer option"
  tx_desc_vdev :: "vdev option list"
  freed_peers :: "peer list"
  freed_vdevs :: "vdev list"

definition upd_peer :: "peer \<Rightarrow> (peer_info \<Rightarrow> peer_info) \<Rightarrow> pdev_state \<Rightarrow> pdev_state" where
  "upd_peer p f s = s\<lparr>pinfo := (pinfo s)(p := f (pinfo s p))\<rparr>"

definition upd_vdev :: "vdev \<Rightarrow> (vdev_info \<Rightarrow> vdev_info) \<Rightarrow> pdev_state \<Rightarrow> pdev_state" where
  "upd_vdev v f s = s\<lparr>vinfo := (vinfo s)(v := f (vinfo s v))\<rparr>"

definition MAX_NUM_PEER_ID_PER_PEER :: nat where "MAX_NUM_PEER_ID_PER_PEER = 8"
definition HTT_INVALID_PEER :: u16 where "HTT_INVALID_PEER = 0xffff"

abbreviation peer_valid :: "pdev_state \<Rightarrow> peer \<Rightarrow> bool" where
  "peer_valid s p \<equiv> pr_valid (peers (rx s) p)"

definition ref_inc :: "peer \<Rightarrow> pdev_state \<Rightarrow> pdev_state" where
  "ref_inc p = upd_peer p (\<lambda>i. i\<lparr>pi_ref_cnt := pi_ref_cnt i + 1\<rparr>)"

definition ref_dec :: "peer \<Rightarrow> pdev_state \<Rightarrow> pdev_state" where
  "ref_dec p = upd_peer p (\<lambda>i. i\<lparr>pi_ref_cnt := pi_ref_cnt i - 1\<rparr>)"

section \<open>The hash table\<close>

function log2_loop :: "u32 \<Rightarrow> nat \<Rightarrow> nat" where
  "log2_loop tmp n = (if tmp = 0 then n else log2_loop (drop_bit 1 tmp) (Suc n))"
  by auto

termination
proof (relation "measure (\<lambda>(tmp, n). unat tmp)")
  show "((drop_bit 1 tmp, Suc n), tmp, n) \<in> measure (\<lambda>(tmp, n). unat tmp)" if "tmp \<noteq> 0" for tmp :: u32 and n
  proof -
    have "0 < unat tmp" using that by (simp add: unat_gt_0)
    then show ?thesis by (simp add: unat_div drop_bit_Suc)
  qed
qed simp

declare log2_loop.simps [simp del]

text \<open>The loop starts at -1 in the source; here at 0, and 1 is taken off after it.\<close>

definition ol_txrx_log2_ceil :: "u32 \<Rightarrow> nat" where
  "ol_txrx_log2_ceil value =
     (if value = 0 then 0
      else (let n = log2_loop value 0 - 1
            in if push_bit n 1 \<noteq> value then Suc n else n))"

text \<open>\<open>None\<close> is an allocation that failed.\<close>

fun init_bins :: "nat \<Rightarrow> (nat, peer) tailqs \<Rightarrow> (nat, peer) tailqs" where
  "init_bins 0 q = q"
| "init_bins (Suc n) q = TAILQ_INIT n (init_bins n q)"

definition ol_txrx_peer_find_hash_attach :: "bool \<Rightarrow> u32 \<Rightarrow> pdev_state \<Rightarrow> pdev_state option" where
  "ol_txrx_peer_find_hash_attach alloc_ok max_id s =
     (let log2 = ol_txrx_log2_ceil ((max_id + 1) * 2); hash_elems = push_bit log2 (1 :: u32)
      in if alloc_ok
         then Some (s\<lparr>hash_mask := hash_elems - 1, hash_idx_bits := log2,
                      hash_bins := init_bins (unat hash_elems) (hash_bins s)\<rparr>)
         else None)"

text \<open>Two bytes of an address as the little-endian host reads them.\<close>

definition mac_half :: "mac_addr \<Rightarrow> nat \<Rightarrow> u16" where
  "mac_half a i = ucast (a ! (2 * i)) OR push_bit 8 (ucast (a ! (2 * i + 1)))"

definition ol_txrx_peer_find_hash_index :: "pdev_state \<Rightarrow> mac_addr \<Rightarrow> nat" where
  "ol_txrx_peer_find_hash_index s a =
     (let index = ucast (mac_half a 0 XOR mac_half a 1 XOR mac_half a 2) :: u32
      in unat ((index XOR drop_bit (hash_idx_bits s) index) AND hash_mask s))"

definition ol_txrx_peer_find_mac_addr_cmp :: "mac_addr \<Rightarrow> mac_addr \<Rightarrow> int" where
  "ol_txrx_peer_find_mac_addr_cmp a b =
     (if take 4 a = take 4 b \<and> take 2 (drop 4 a) = take 2 (drop 4 b) then 0 else 1)"

definition ol_txrx_peer_find_hash_add :: "peer \<Rightarrow> pdev_state \<Rightarrow> pdev_state" where
  "ol_txrx_peer_find_hash_add p s =
     s\<lparr>hash_bins := TAILQ_INSERT_TAIL (ol_txrx_peer_find_hash_index s (pi_mac_addr (pinfo s p))) p (hash_bins s)\<rparr>"

text \<open>The peer found, with one more reference.\<close>

definition ol_txrx_peer_find_hash_find ::
  "mac_addr \<Rightarrow> bool \<Rightarrow> pdev_state \<Rightarrow> (peer option \<times> pdev_state) option" where
  "ol_txrx_peer_find_hash_find a check_valid s =
     map_option (\<lambda>r. (r, case r of None \<Rightarrow> s | Some p \<Rightarrow> ref_inc p s))
       (tq_find_from (\<lambda>p. ol_txrx_peer_find_mac_addr_cmp a (pi_mac_addr (pinfo s p)) = 0 \<and>
            (\<not> check_valid \<or> peer_valid s p))
          (hash_bins s) (tqh_first (hash_bins s) (ol_txrx_peer_find_hash_index s a)))"

definition ol_txrx_peer_vdev_find_hash ::
  "vdev \<Rightarrow> mac_addr \<Rightarrow> bool \<Rightarrow> pdev_state \<Rightarrow> (peer option \<times> pdev_state) option" where
  "ol_txrx_peer_vdev_find_hash v a check_valid s =
     map_option (\<lambda>r. (r, case r of None \<Rightarrow> s | Some p \<Rightarrow> ref_inc p s))
       (tq_find_from (\<lambda>p. ol_txrx_peer_find_mac_addr_cmp a (pi_mac_addr (pinfo s p)) = 0 \<and>
            (\<not> check_valid \<or> peer_valid s p) \<and> pi_vdev (pinfo s p) = Some v)
          (hash_bins s) (tqh_first (hash_bins s) (ol_txrx_peer_find_hash_index s a)))"

definition ol_txrx_peer_find_hash_remove :: "peer \<Rightarrow> pdev_state \<Rightarrow> pdev_state option" where
  "ol_txrx_peer_find_hash_remove p s =
     map_option (\<lambda>q. s\<lparr>hash_bins := q\<rparr>)
       (TAILQ_REMOVE (ol_txrx_peer_find_hash_index s (pi_mac_addr (pinfo s p))) p (hash_bins s))"

section \<open>The table as a list\<close>

text \<open>
  The table holds the peers \<open>ps\<close>, in the order they were added: each bin lists those of its index.
\<close>

abbreviation peer_idx :: "pdev_state \<Rightarrow> peer \<Rightarrow> nat" where
  "peer_idx s p \<equiv> ol_txrx_peer_find_hash_index s (pi_mac_addr (pinfo s p))"

definition peer_hash_rep :: "pdev_state \<Rightarrow> peer list \<Rightarrow> bool" where
  "peer_hash_rep s ps \<longleftrightarrow> distinct ps \<and> (\<forall>p \<in> set ps. length (pi_mac_addr (pinfo s p)) = 6) \<and>
     (\<forall>i \<le> unat (hash_mask s). tailq_rep i (hash_bins s) (filter (\<lambda>p. peer_idx s p = i) ps))"

lemma hash_index_bound: "ol_txrx_peer_find_hash_index s a \<le> unat (hash_mask s)"
proof -
  have "x AND hash_mask s \<le> hash_mask s" for x :: u32 by (rule word_and_le1)
  then show ?thesis by (simp add: ol_txrx_peer_find_hash_index_def Let_def word_le_nat_alt)
qed

lemma mac_cmp: "length a = 6 \<Longrightarrow> length b = 6 \<Longrightarrow> ol_txrx_peer_find_mac_addr_cmp a b = 0 \<longleftrightarrow> a = b"
  by (auto simp: ol_txrx_peer_find_mac_addr_cmp_def) (metis append_take_drop_id drop_all length_drop add_diff_cancel_left' eq_numeral_extra numeral_plus_numeral order_refl take_all)

lemma find_filter:
  "(\<And>p. p \<in> set ps \<Longrightarrow> P p \<Longrightarrow> Q p) \<Longrightarrow> find P (filter Q ps) = find P ps"
  by (induction ps) auto

lemma peer_hash_find_rep:
  assumes "peer_hash_rep s ps" and "length a = 6"
  shows "ol_txrx_peer_find_hash_find a v s =
    (let r = find (\<lambda>p. pi_mac_addr (pinfo s p) = a \<and> (\<not> v \<or> peer_valid s p)) ps
     in Some (r, case r of None \<Rightarrow> s | Some p \<Rightarrow> ref_inc p s))"
proof -
  let ?i = "ol_txrx_peer_find_hash_index s a"
  let ?P = "\<lambda>p. ol_txrx_peer_find_mac_addr_cmp a (pi_mac_addr (pinfo s p)) = 0 \<and> (\<not> v \<or> peer_valid s p)"
  have "tailq_rep ?i (hash_bins s) (filter (\<lambda>p. peer_idx s p = ?i) ps)"
    using assms(1) hash_index_bound [of s a] by (simp add: peer_hash_rep_def)
  then have "tq_find_from ?P (hash_bins s) (tqh_first (hash_bins s) ?i)
      = Some (find ?P (filter (\<lambda>p. peer_idx s p = ?i) ps))"
    by (intro tq_find_from_rep) (simp add: tailq_rep_def)
  moreover have P: "?P p \<longleftrightarrow> pi_mac_addr (pinfo s p) = a \<and> (\<not> v \<or> peer_valid s p)" if "p \<in> set ps" for p
    using assms that mac_cmp [of a] by (auto simp: peer_hash_rep_def)
  then have "find ?P (filter (\<lambda>p. peer_idx s p = ?i) ps) = find ?P ps" by (intro find_filter) auto
  moreover have "find ?P ps = find (\<lambda>p. pi_mac_addr (pinfo s p) = a \<and> (\<not> v \<or> peer_valid s p)) ps"
    using P by (intro find_cong) auto
  ultimately show ?thesis by (simp add: ol_txrx_peer_find_hash_find_def Let_def)
qed

lemma peer_hash_add_rep:
  assumes rep: "peer_hash_rep s ps" and p: "p \<notin> set ps" "length (pi_mac_addr (pinfo s p)) = 6"
  shows "peer_hash_rep (ol_txrx_peer_find_hash_add p s) (ps @ [p])"
proof -
  let ?s = "ol_txrx_peer_find_hash_add p s"
  let ?L = "\<lambda>i. filter (\<lambda>c. peer_idx s c = i) ps"
  have idx: "peer_idx ?s c = peer_idx s c" for c
    by (simp add: ol_txrx_peer_find_hash_add_def ol_txrx_peer_find_hash_index_def)
  have old: "tailq_rep i (hash_bins s) (?L i)" if "i \<le> unat (hash_mask s)" for i
    using rep that by (simp add: peer_hash_rep_def)
  have "tailq_rep i (hash_bins ?s) (filter (\<lambda>c. peer_idx s c = i) (ps @ [p]))" if "i \<le> unat (hash_mask s)" for i
  proof (cases "i = peer_idx s p")
    case True
    then show ?thesis
      using tailq_insert_tail [OF old [OF that], of p] p(1) by (simp add: ol_txrx_peer_find_hash_add_def)
  next
    case False
    then show ?thesis
      using tailq_insert_tail_frame [OF old [OF hash_index_bound] old [OF that], of _ p] p(1)
      by (fastforce simp: ol_txrx_peer_find_hash_add_def)
  qed
  moreover have "hash_mask ?s = hash_mask s" "pinfo ?s = pinfo s" by (simp_all add: ol_txrx_peer_find_hash_add_def)
  ultimately show ?thesis
    using rep p unfolding peer_hash_rep_def idx by simp
qed

lemma peer_hash_remove_rep:
  assumes rep: "peer_hash_rep s ps" and p: "p \<in> set ps"
  shows "\<exists>q. ol_txrx_peer_find_hash_remove p s = Some (s\<lparr>hash_bins := q\<rparr>) \<and>
    peer_hash_rep (s\<lparr>hash_bins := q\<rparr>) (remove1 p ps)"
proof -
  let ?L = "\<lambda>i. filter (\<lambda>c. peer_idx s c = i) ps"
  let ?i = "peer_idx s p"
  obtain us vs where ps: "ps = us @ p # vs" using p by (meson split_list)
  have dist: "distinct ps" using rep by (simp add: peer_hash_rep_def)
  have old: "tailq_rep i (hash_bins s) (?L i)" if "i \<le> unat (hash_mask s)" for i
    using rep that by (simp add: peer_hash_rep_def)
  define fs gs where "fs = filter (\<lambda>c. peer_idx s c = ?i) us" and "gs = filter (\<lambda>c. peer_idx s c = ?i) vs"
  have Li: "?L ?i = fs @ p # gs" by (simp add: ps fs_def gs_def)
  have bin: "tailq_rep ?i (hash_bins s) (fs @ p # gs)" unfolding Li [symmetric] by (rule old [OF hash_index_bound])
  obtain q where q: "TAILQ_REMOVE ?i p (hash_bins s) = Some q" "tailq_rep ?i q (fs @ gs)"
    using tailq_remove [OF bin] by blast
  have r: "remove1 p ps = us @ vs" using dist by (simp add: ps remove1_append)
  have "tailq_rep i q (filter (\<lambda>c. peer_idx s c = i) (us @ vs))" if "i \<le> unat (hash_mask s)" for i
  proof (cases "i = ?i")
    case True
    then show ?thesis using q(2) by (simp add: fs_def gs_def)
  next
    case False
    then have "?L i = filter (\<lambda>c. peer_idx s c = i) (us @ vs)" by (simp add: ps)
    moreover have "set (fs @ p # gs) \<inter> set (?L i) = {}" using False by (auto simp: fs_def gs_def)
    ultimately show ?thesis using tailq_remove_frame [OF bin old [OF that] False _ q(1)] by simp
  qed
  moreover have "peer_idx (s\<lparr>hash_bins := q\<rparr>) c = peer_idx s c" for c by (simp add: ol_txrx_peer_find_hash_index_def)
  ultimately have "peer_hash_rep (s\<lparr>hash_bins := q\<rparr>) (remove1 p ps)"
    unfolding r using rep dist by (simp add: peer_hash_rep_def ps)
  moreover have "ol_txrx_peer_find_hash_remove p s = Some (s\<lparr>hash_bins := q\<rparr>)"
    using q(1) by (simp add: ol_txrx_peer_find_hash_remove_def)
  ultimately show ?thesis by blast
qed

section \<open>The table as a map\<close>

definition peer_table_rep :: "pdev_state \<Rightarrow> (mac_addr \<rightharpoonup> peer) \<Rightarrow> bool" where
  "peer_table_rep s m \<longleftrightarrow> (\<exists>ps. peer_hash_rep s ps \<and>
     (\<forall>a p. m a = Some p \<longleftrightarrow> p \<in> set ps \<and> pi_mac_addr (pinfo s p) = a))"

definition peer_look :: "mac_addr \<Rightarrow> pdev_state \<Rightarrow> peer option option" where
  "peer_look a s = map_option fst (ol_txrx_peer_find_hash_find a False s)"

definition peer_del :: "mac_addr \<Rightarrow> peer \<Rightarrow> pdev_state \<Rightarrow> pdev_state option" where
  "peer_del a p s = (if pi_mac_addr (pinfo s p) = a then ol_txrx_peer_find_hash_remove p s else None)"

definition peer_legal :: "pdev_state \<Rightarrow> mac_addr \<Rightarrow> peer \<Rightarrow> bool" where
  "peer_legal s a p \<longleftrightarrow> pi_mac_addr (pinfo s p) = a \<and> length a = 6"

interpretation pt: keyed_table peer_table_rep peer_look "\<lambda>_ p s. Some (ol_txrx_peer_find_hash_add p s)" peer_del
  peer_legal "\<lambda>a. length a = 6"
proof
  fix s m a
  assume "peer_table_rep s m" "length (a :: mac_addr) = 6"
  then obtain ps where ps: "peer_hash_rep s ps" "\<forall>a p. m a = Some p \<longleftrightarrow> p \<in> set ps \<and> pi_mac_addr (pinfo s p) = a"
    by (auto simp: peer_table_rep_def)
  have "find (\<lambda>p. pi_mac_addr (pinfo s p) = a) ps = m a"
  proof (cases "m a")
    case None
    then have "pi_mac_addr (pinfo s p) \<noteq> a" if "p \<in> set ps" for p
      using ps(2) that by (metis option.distinct(1))
    then show ?thesis using None by (auto simp: find_None_iff)
  next
    case (Some p)
    then have "p \<in> set ps" "pi_mac_addr (pinfo s p) = a" using ps(2) by auto
    then obtain c where c: "find (\<lambda>p. pi_mac_addr (pinfo s p) = a) ps = Some c"
      by (cases "find (\<lambda>p. pi_mac_addr (pinfo s p) = a) ps") (auto simp: find_None_iff)
    then have "c \<in> set ps" "pi_mac_addr (pinfo s c) = a" by (auto simp: find_Some_iff)
    then have "m a = Some c" using ps(2) by simp
    then show ?thesis using c by simp
  qed
  then show "peer_look a s = Some (m a)"
    using peer_hash_find_rep [OF ps(1) \<open>length a = 6\<close>, of False] by (simp add: peer_look_def Let_def)
next
  fix s m a p
  assume a: "peer_table_rep s m" "m a = None" "p \<notin> ran m" "peer_legal s a p"
  then obtain ps where ps: "peer_hash_rep s ps" "\<forall>a p. m a = Some p \<longleftrightarrow> p \<in> set ps \<and> pi_mac_addr (pinfo s p) = a"
    by (auto simp: peer_table_rep_def)
  have p: "p \<notin> set ps" using ps(2) a(3) by (auto simp: ran_def)
  let ?s = "ol_txrx_peer_find_hash_add p s"
  have i: "pinfo ?s = pinfo s" by (simp add: ol_txrx_peer_find_hash_add_def)
  have "peer_hash_rep ?s (ps @ [p])" using peer_hash_add_rep [OF ps(1) p] a(4) by (simp add: peer_legal_def)
  moreover have "(m(a \<mapsto> p)) b = Some c \<longleftrightarrow> c \<in> set (ps @ [p]) \<and> pi_mac_addr (pinfo s c) = b" for b c
  proof -
    have "c \<in> set ps \<Longrightarrow> pi_mac_addr (pinfo s c) \<noteq> a" using ps(2) a(2) by (metis option.distinct(1))
    then show ?thesis using ps(2) a(4) p by (auto simp: peer_legal_def)
  qed
  ultimately show "\<exists>s'. Some ?s = Some s' \<and> peer_table_rep s' (m(a \<mapsto> p)) \<and>
      (\<forall>c f. peer_legal s c f \<longrightarrow> peer_legal s' c f)"
    unfolding peer_table_rep_def peer_legal_def by (intro exI [of _ ?s]) (auto simp: i simp del: fun_upd_apply)
next
  fix s m a p
  assume a: "peer_table_rep s m" "m a = Some p"
  then obtain ps where ps: "peer_hash_rep s ps" "\<forall>a p. m a = Some p \<longleftrightarrow> p \<in> set ps \<and> pi_mac_addr (pinfo s p) = a"
    by (auto simp: peer_table_rep_def)
  have p: "p \<in> set ps" "pi_mac_addr (pinfo s p) = a" using ps(2) a(2) by auto
  obtain q where q: "ol_txrx_peer_find_hash_remove p s = Some (s\<lparr>hash_bins := q\<rparr>)"
    "peer_hash_rep (s\<lparr>hash_bins := q\<rparr>) (remove1 p ps)"
    using peer_hash_remove_rep [OF ps(1) p(1)] by blast
  have "distinct ps" using ps(1) by (simp add: peer_hash_rep_def)
  then have "(m(a := None)) b = Some c \<longleftrightarrow> c \<in> set (remove1 p ps) \<and> pi_mac_addr (pinfo s c) = b" for b c
  proof -
    have "c \<in> set ps \<Longrightarrow> pi_mac_addr (pinfo s c) = a \<Longrightarrow> c = p" using ps(2) a(2) by (metis option.inject)
    then show ?thesis using ps(2) a(2) p \<open>distinct ps\<close> by auto
  qed
  then have "peer_table_rep (s\<lparr>hash_bins := q\<rparr>) (m(a := None))"
    unfolding peer_table_rep_def using q(2) by (intro exI [of _ "remove1 p ps"]) (simp del: fun_upd_apply)
  then show "\<exists>s'. peer_del a p s = Some s' \<and> peer_table_rep s' (m(a := None)) \<and>
      (\<forall>c f. peer_legal s c f \<longrightarrow> peer_legal s' c f)"
    using q(1) p(2) by (intro exI [of _ "s\<lparr>hash_bins := q\<rparr>"]) (simp add: peer_del_def peer_legal_def)
qed

section \<open>The size of the table\<close>

lemma log2_loop_val: "0 < tmp \<Longrightarrow> \<exists>k. log2_loop tmp n = n + Suc k \<and> 2 ^ k \<le> unat tmp \<and> unat tmp < 2 ^ Suc k"
proof (induction tmp n rule: log2_loop.induct)
  case (1 tmp n)
  have half: "unat (drop_bit 1 tmp) = unat tmp div 2" by (simp add: drop_bit_Suc unat_div)
  show ?case
  proof (cases "drop_bit 1 tmp = 0")
    case True
    then have "unat tmp div 2 = 0" using half by simp
    moreover have "0 < unat tmp" using 1(2) by (simp add: unat_gt_0 word_neq_0_conv)
    ultimately have "unat tmp = 1" by simp
    then show ?thesis
      using 1(2) True by (intro exI [of _ 0]) (simp add: log2_loop.simps [of tmp] log2_loop.simps [of 0] word_neq_0_conv)
  next
    case False
    then obtain k where k: "log2_loop (drop_bit 1 tmp) (Suc n) = Suc n + Suc k"
      "2 ^ k \<le> unat (drop_bit 1 tmp)" "unat (drop_bit 1 tmp) < 2 ^ Suc k"
      using 1 by (auto simp: word_neq_0_conv)
    then have "2 * 2 ^ k \<le> unat tmp" "unat tmp < 2 * 2 ^ Suc k" unfolding half by linarith+
    moreover have "log2_loop tmp n = n + Suc (Suc k)"
      using k(1) 1(2) by (subst log2_loop.simps) (simp add: word_neq_0_conv)
    ultimately show ?thesis by (intro exI [of _ "Suc k"]) simp
  qed
qed

lemma unat_bit:
  assumes "k < 32"
  shows "unat (2 ^ k :: u32) = 2 ^ k"
proof -
  have "(2::nat) ^ k < 2 ^ 32" using assms by (rule power_strict_increasing) simp
  moreover have "unat (of_nat (2 ^ k) :: u32) = take_bit 32 (2 ^ k)" unfolding unsigned_of_nat by simp
  ultimately show ?thesis using assms by (simp add: take_bit_nat_eq_self)
qed

text \<open>The base-2 logarithm, rounded up.\<close>

lemma log2_ceil_val:
  assumes "1 < v" and "unat v \<le> 2 ^ 31"
  shows "\<exists>k. ol_txrx_log2_ceil v = Suc k \<and> k < 31 \<and> 2 ^ k < unat v \<and> unat v \<le> 2 ^ Suc k"
proof -
  have pos: "0 < v" using assms(1) by (metis le_less_trans word_zero_le)
  obtain k where k: "log2_loop v 0 = Suc k" "2 ^ k \<le> unat v" "unat v < 2 ^ Suc k"
    using log2_loop_val [OF pos, of 0] by auto
  have "(2::nat) ^ k \<le> 2 ^ 31" using k(2) assms(2) by (rule le_trans)
  then have k31: "k \<le> 31" by (rule power_le_imp_le_exp [rotated]) simp
  then have "unat (2 ^ k :: u32) = 2 ^ k" by (intro unat_bit) simp
  then have eq: "2 ^ k = v \<longleftrightarrow> unat v = 2 ^ k" by (metis unat_inject)
  have v: "ol_txrx_log2_ceil v = (if unat v = 2 ^ k then k else Suc k)"
    using pos by (simp add: ol_txrx_log2_ceil_def k(1) eq word_neq_0_conv)
  show ?thesis
  proof (cases "unat v = 2 ^ k")
    case True
    have "1 < unat v" using assms(1) by (simp add: word_less_nat_alt)
    then obtain j where "k = Suc j" using True by (cases k) auto
    then show ?thesis using v True k31 by (intro exI [of _ j]) simp
  next
    case False
    have "k < 31"
    proof (rule ccontr)
      assume "\<not> k < 31"
      then have "k = 31" using k31 by simp
      then show False using False k(2) assms(2) by simp
    qed
    then show ?thesis using v False k(2,3) by (intro exI [of _ k]) simp
  qed
qed

lemma init_bins_rep: "i < n \<Longrightarrow> tailq_rep i (init_bins n q) []"
proof (induction n)
  case (Suc n)
  then show ?case
    by (cases "i = n") (auto simp: tailq_rep_init, auto simp: tailq_rep_def TAILQ_INIT_def)
qed simp

lemma hash_attach_rep:
  assumes "unat max_id < 2 ^ 30"
  shows "\<exists>s'. ol_txrx_peer_find_hash_attach True max_id s = Some s' \<and> peer_hash_rep s' [] \<and>
    pinfo s' = pinfo s \<and> (\<exists>k. unat (hash_mask s') + 1 = 2 ^ Suc k \<and>
      2 ^ k < 2 * (unat max_id + 1) \<and> 2 * (unat max_id + 1) \<le> 2 ^ Suc k)"
proof -
  define v where "v = (max_id + 1) * 2"
  have v: "unat v = 2 * (unat max_id + 1)" using assms by (simp add: v_def unat_word_ariths)
  then have "1 < v" "unat v \<le> 2 ^ 31" using assms by (simp_all add: word_less_nat_alt)
  then obtain k where k: "ol_txrx_log2_ceil v = Suc k" "k < 31" "2 ^ k < unat v" "unat v \<le> 2 ^ Suc k"
    using log2_ceil_val by blast
  define n where "n = (2 ^ Suc k :: u32)"
  have n: "unat n = 2 ^ Suc k" unfolding n_def using k(2) by (intro unat_bit) simp
  have m: "unat (n - 1) + 1 = 2 ^ Suc k"
  proof -
    have "1 \<le> n" using n by (simp add: word_le_nat_alt)
    then show ?thesis using n by (simp add: unat_sub)
  qed
  define s' where "s' = s\<lparr>hash_mask := n - 1, hash_idx_bits := Suc k, hash_bins := init_bins (unat n) (hash_bins s)\<rparr>"
  have "ol_txrx_peer_find_hash_attach True max_id s = Some s'"
    by (simp add: ol_txrx_peer_find_hash_attach_def Let_def k(1) [unfolded v_def, simplified] n_def s'_def)
  moreover have "peer_hash_rep s' []"
    using m n init_bins_rep by (auto simp: peer_hash_rep_def s'_def)
  moreover have "unat (hash_mask s') + 1 = 2 ^ Suc k" using m by (simp add: s'_def)
  ultimately show ?thesis using k(3,4) v by (intro exI [of _ s']) (auto simp: s'_def)
qed

section \<open>Properties\<close>

datatype peer_op = PAdd peer | PDel peer

fun peer_run :: "peer_op list \<Rightarrow> pdev_state \<Rightarrow> pdev_state option" where
  "peer_run [] s = Some s"
| "peer_run (PAdd p # ops) s = peer_run ops (ol_txrx_peer_find_hash_add p s)"
| "peer_run (PDel p # ops) s = Option.bind (ol_txrx_peer_find_hash_remove p s) (peer_run ops)"

text \<open>The specification: the list of the peers in the order they were added.\<close>

fun peer_spec :: "peer_op list \<Rightarrow> peer list \<Rightarrow> peer list option" where
  "peer_spec [] ps = Some ps"
| "peer_spec (PAdd p # ops) ps = (if p \<in> set ps then None else peer_spec ops (ps @ [p]))"
| "peer_spec (PDel p # ops) ps = (if p \<in> set ps then peer_spec ops (remove1 p ps) else None)"

lemma hash_add_keeps [simp]:
  "pinfo (ol_txrx_peer_find_hash_add p s) = pinfo s" "rx (ol_txrx_peer_find_hash_add p s) = rx s"
  by (simp_all add: ol_txrx_peer_find_hash_add_def)

lemma peer_run_rep:
  assumes "peer_spec ops ps = Some ps'" and "peer_hash_rep s ps"
    and "\<forall>p. PAdd p \<in> set ops \<longrightarrow> length (pi_mac_addr (pinfo s p)) = 6"
  shows "\<exists>t. peer_run ops s = Some t \<and> peer_hash_rep t ps' \<and> pinfo t = pinfo s \<and> rx t = rx s"
  using assms
proof (induction ops ps arbitrary: s rule: peer_spec.induct)
  case (2 p ops ps)
  then have p: "p \<notin> set ps" "peer_spec ops (ps @ [p]) = Some ps'" by (auto split: if_splits)
  have "peer_hash_rep (ol_txrx_peer_find_hash_add p s) (ps @ [p])"
    using peer_hash_add_rep [OF 2(3) p(1)] 2(4) by simp
  from 2(1) [OF p(1) p(2) this] 2(4) show ?case by simp
next
  case (3 p ops ps)
  then have p: "p \<in> set ps" "peer_spec ops (remove1 p ps) = Some ps'" by (auto split: if_splits)
  obtain q where q: "ol_txrx_peer_find_hash_remove p s = Some (s\<lparr>hash_bins := q\<rparr>)"
    "peer_hash_rep (s\<lparr>hash_bins := q\<rparr>) (remove1 p ps)" using peer_hash_remove_rep [OF 3(3) p(1)] by blast
  from 3(1) [OF p(1) p(2) q(2)] 3(4) q(1) show ?case by simp
qed simp

text \<open>
  C25. The hash table refines a list: after its allocation and any additions and removals of peers, a
  search for an address finds the first peer, in the order of the additions, that has this address (and
  is valid, if asked), and takes one reference on it.
\<close>

theorem peer_find_first_added:
  assumes "unat max_id < 2 ^ 30" and "peer_spec ops [] = Some ps"
    and "\<forall>p. PAdd p \<in> set ops \<longrightarrow> length (pi_mac_addr (pinfo s p)) = 6" and "length a = 6"
  shows "\<exists>s0 t r. ol_txrx_peer_find_hash_attach True max_id s = Some s0 \<and> peer_run ops s0 = Some t \<and>
    r = find (\<lambda>p. pi_mac_addr (pinfo s p) = a \<and> (\<not> v \<or> pr_valid (peers (rx s0) p))) ps \<and>
    ol_txrx_peer_find_hash_find a v t = Some (r, case r of None \<Rightarrow> t | Some p \<Rightarrow> ref_inc p t)"
proof -
  obtain s0 where s0: "ol_txrx_peer_find_hash_attach True max_id s = Some s0" "peer_hash_rep s0 []"
    "pinfo s0 = pinfo s" using hash_attach_rep [OF assms(1)] by blast
  have "\<forall>p. PAdd p \<in> set ops \<longrightarrow> length (pi_mac_addr (pinfo s0 p)) = 6" using assms(3) s0(3) by simp
  from peer_run_rep [OF assms(2) s0(2) this] obtain t where t: "peer_run ops s0 = Some t" "peer_hash_rep t ps"
    "pinfo t = pinfo s" "rx t = rx s0" using s0(3) by auto
  show ?thesis
    using s0(1) t(1) peer_hash_find_rep [OF t(2) assms(4), of v]
    by (intro exI [of _ s0] exI [of _ t] exI conjI refl) (simp_all add: t(3,4) Let_def)
qed

definition pdev_quiet :: pdev_state where
  "pdev_quiet = \<lparr>rx = rx_quiet,
     pinfo = (\<lambda>_. \<lparr>pi_vdev = Some 0, pi_mac_addr = [2, 0, 0, 0, 0, 1], pi_ref_cnt = 0, pi_delete_in_progress = False,
        pi_state = ol_txrx_peer_state_invalid, pi_tx_filter = ol_tx_filter_none,
        pi_peer_ids = replicate 8 HTT_INVALID_PEER, pi_bss_peer = False\<rparr>),
     vinfo = (\<lambda>_. \<lparr>vd_mac_addr = replicate 6 0, vd_opmode = wlan_op_mode_sta, vd_safemode = False,
        vd_last_real_peer = None, vd_wait_on_peer_id = 0xff,
        vd_wait_delete_comp = False, vd_delete_pending = False\<rparr>),
     hash_mask = 0, hash_idx_bits = 0,
     hash_bins = \<lparr>tqh_first = (\<lambda>_. None), tqh_last = HeadFirst, tqe_next = (\<lambda>_. None), tqe_prev = (\<lambda>_. None)\<rparr>,
     peer_list = \<lparr>tqh_first = (\<lambda>_. None), tqh_last = HeadFirst, tqe_next = (\<lambda>_. None), tqe_prev = (\<lambda>_. None)\<rparr>,
     local_pool = [], local_freelist = 0, local_map = [], self_peer = None, tx_desc_vdev = [],
     freed_peers = [], freed_vdevs = []\<rparr>"

theorem peer_find_first_added_witness:
  "\<exists>s0 t. ol_txrx_peer_find_hash_attach True 15 pdev_quiet = Some s0 \<and>
    peer_run [PAdd 4, PAdd 7, PDel 4] s0 = Some t \<and>
    ol_txrx_peer_find_hash_find [2, 0, 0, 0, 0, 1] False t = Some (Some 7, ref_inc 7 t)"
  using peer_find_first_added [of 15 "[PAdd 4, PAdd 7, PDel 4]" "[7]" pdev_quiet "[2, 0, 0, 0, 0, 1]" False]
  by (auto simp: pdev_quiet_def)

end
