(* ===== verification/Peer_Life.thy ===== *)
theory Peer_Life
  imports Peer_Table
begin

text \<open>
  The life of a peer (\<open>ol_txrx.c\<close>, \<open>ol_txrx_peer_find.c\<close>): attaching it, mapping and unmapping its
  target ids, detaching it, and dropping references until the last one frees it.  The build is the
  low latency one, where the host does not negotiate block acks (\<open>cfg.host_addba\<close> is 0).
\<close>

section \<open>Local ids\<close>

definition OL_TXRX_NUM_LOCAL_PEER_IDS :: nat where "OL_TXRX_NUM_LOCAL_PEER_IDS = 34"
definition OL_TXRX_INVALID_LOCAL_PEER_ID :: u16 where "OL_TXRX_INVALID_LOCAL_PEER_ID = 0xffff"

definition set_local_id :: "peer \<Rightarrow> u16 \<Rightarrow> pdev_state \<Rightarrow> pdev_state" where
  "set_local_id p v s = s\<lparr>rx := (rx s)\<lparr>peers := (peers (rx s))(p := (peers (rx s) p)\<lparr>pr_local_id := v\<rparr>)\<rparr>\<rparr>"

definition set_valid :: "peer \<Rightarrow> bool \<Rightarrow> pdev_state \<Rightarrow> pdev_state" where
  "set_valid p v s = s\<lparr>rx := (rx s)\<lparr>peers := (peers (rx s))(p := (peers (rx s) p)\<lparr>pr_valid := v\<rparr>)\<rparr>\<rparr>"

definition OL_TXRX_LOCAL_PEER_ID_POOL_INIT :: "pdev_state \<Rightarrow> pdev_state" where
  "OL_TXRX_LOCAL_PEER_ID_POOL_INIT s =
     s\<lparr>local_freelist := 0,
       local_pool := map (\<lambda>i. of_nat (i + 1)) [0..<OL_TXRX_NUM_LOCAL_PEER_IDS] @ [of_nat OL_TXRX_NUM_LOCAL_PEER_IDS],
       local_map := replicate OL_TXRX_NUM_LOCAL_PEER_IDS None\<rparr>"

definition OL_TXRX_LOCAL_PEER_ID_ALLOC :: "peer \<Rightarrow> pdev_state \<Rightarrow> pdev_state option" where
  "OL_TXRX_LOCAL_PEER_ID_ALLOC p s =
     (let i = local_freelist s
      in case load_at (local_pool s) (unat i) of
           None \<Rightarrow> None
         | Some n \<Rightarrow>
             (if n = i then Some (set_local_id p OL_TXRX_INVALID_LOCAL_PEER_ID s)
              else map_option (\<lambda>m. (set_local_id p (ucast i) s)\<lparr>local_freelist := n, local_map := m\<rparr>)
                     (store_at (local_map s) (unat i) (Some p))))"

definition OL_TXRX_LOCAL_PEER_ID_FREE :: "peer \<Rightarrow> pdev_state \<Rightarrow> pdev_state option" where
  "OL_TXRX_LOCAL_PEER_ID_FREE p s =
     (let i = pr_local_id (peers (rx s) p)
      in if i = OL_TXRX_INVALID_LOCAL_PEER_ID \<or> OL_TXRX_NUM_LOCAL_PEER_IDS \<le> unat i then Some s
         else (case (store_at (local_pool s) (unat i) (local_freelist s), store_at (local_map s) (unat i) None) of
                 (Some pool, Some m) \<Rightarrow> Some (s\<lparr>local_pool := pool, local_freelist := ucast i, local_map := m\<rparr>)
               | _ \<Rightarrow> None))"

definition ol_txrx_peer_find_by_local_id :: "u8 \<Rightarrow> pdev_state \<Rightarrow> peer option option" where
  "ol_txrx_peer_find_by_local_id i s =
     (if ucast i = OL_TXRX_INVALID_LOCAL_PEER_ID \<or> OL_TXRX_NUM_LOCAL_PEER_IDS \<le> unat i then Some None
      else load_at (local_map s) (unat i))"

definition ol_txrx_peer_find_with_ref_by_local_id :: "u8 \<Rightarrow> pdev_state \<Rightarrow> (peer option \<times> pdev_state) option" where
  "ol_txrx_peer_find_with_ref_by_local_id i s =
     map_option (\<lambda>r. (r, case r of None \<Rightarrow> s | Some p \<Rightarrow> ref_inc p s)) (ol_txrx_peer_find_by_local_id i s)"

text \<open>A lookup that gives back the reference it took; the id is cut to a byte, and left alone when there is
  no peer.\<close>

definition ol_txrx_find_peer_by_addr :: "mac_addr \<Rightarrow> pdev_state \<Rightarrow> ((peer \<times> u8) option \<times> pdev_state) option" where
  "ol_txrx_find_peer_by_addr a s =
     map_option (\<lambda>(r, s1). case r of None \<Rightarrow> (None, s1)
         | Some p \<Rightarrow> (Some (p, ucast (pr_local_id (peers (rx s1) p))), ref_dec p s1))
       (ol_txrx_peer_find_hash_find a True s)"

definition ol_txrx_find_peer_by_addr_and_vdev ::
  "vdev \<Rightarrow> mac_addr \<Rightarrow> pdev_state \<Rightarrow> ((peer \<times> u8) option \<times> pdev_state) option" where
  "ol_txrx_find_peer_by_addr_and_vdev v a s =
     map_option (\<lambda>(r, s1). case r of None \<Rightarrow> (None, s1)
         | Some p \<Rightarrow> (Some (p, ucast (pr_local_id (peers (rx s1) p))), ref_dec p s1))
       (ol_txrx_peer_vdev_find_hash v a True s)"

section \<open>The last reference\<close>

text \<open>The data path's part of a peer that goes away; the key and time stamps are not modelled.\<close>

definition ol_rx_peer_cleanup :: "rx_proc \<Rightarrow> peer \<Rightarrow> rx_state \<Rightarrow> rx_state option" where
  "ol_rx_peer_cleanup opt p r =
     map_option (\<lambda>r1. r1\<lparr>peers := (peers r1)(p := (peers r1 p)\<lparr>pr_history := None\<rparr>)\<rparr>)
       (ol_rx_reorder_peer_cleanup opt p r)"

text \<open>Arrays of block-ack agreements that were never ended.\<close>

fun free_arrays :: "peer \<Rightarrow> u8 list \<Rightarrow> rx_state \<Rightarrow> rx_state" where
  "free_arrays p [] r = r"
| "free_arrays p (t # ts) r =
     free_arrays p ts (if ro_array (tids_rx_reorder r (p, t)) \<noteq> None then reorder_init_at (p, t) r else r)"

abbreviation all_tids :: "u8 list" where
  "all_tids \<equiv> map of_nat [0..<unat OL_TXRX_NUM_EXT_TIDS]"

text \<open>The deletion of a peer of the virtual device \<open>v\<close>; the callback of the device is not modelled.\<close>

definition vdev_wakeup :: "u16 \<Rightarrow> vdev \<Rightarrow> pdev_state \<Rightarrow> pdev_state" where
  "vdev_wakeup peer_id v s =
     (if peer_id = vd_wait_on_peer_id (vinfo s v)
      then upd_vdev v (\<lambda>i. i\<lparr>vd_wait_delete_comp := True, vd_wait_on_peer_id := OL_TXRX_INVALID_LOCAL_PEER_ID\<rparr>) s
      else s)"

definition vdev_delete_if_last :: "vdev \<Rightarrow> pdev_state \<Rightarrow> pdev_state" where
  "vdev_delete_if_last v s =
     (if TAILQ_EMPTY v (peer_list s) \<and> vd_delete_pending (vinfo s v)
      then s\<lparr>tx_desc_vdev := map (\<lambda>d. if d = Some v then None else d) (tx_desc_vdev s),
             freed_vdevs := freed_vdevs s @ [v]\<rparr>
      else s)"

definition peer_delete :: "rx_proc \<Rightarrow> bool \<Rightarrow> peer \<Rightarrow> vdev \<Rightarrow> pdev_state \<Rightarrow> pdev_state option" where
  "peer_delete opt monitor p v s =
     (let s0 = (if self_peer s = Some p \<and> monitor then s\<lparr>self_peer := None\<rparr> else s);
          peer_id = pr_local_id (peers (rx s0) p)
      in case ol_txrx_peer_find_hash_remove p s0 of
           None \<Rightarrow> None
         | Some s1 \<Rightarrow>
             (case TAILQ_REMOVE v p (peer_list s1) of
                None \<Rightarrow> None
              | Some q \<Rightarrow>
                  (case ol_rx_peer_cleanup opt p (rx s1) of
                     None \<Rightarrow> None
                   | Some r \<Rightarrow>
                       (let s2 = upd_peer p (\<lambda>i. i\<lparr>pi_delete_in_progress := False\<rparr>) (s1\<lparr>peer_list := q, rx := r\<rparr>);
                            s3 = vdev_delete_if_last v (vdev_wakeup peer_id v s2)
                        in Some (s3\<lparr>rx := free_arrays p all_tids (rx s3), freed_peers := freed_peers s3 @ [p]\<rparr>)))))"

definition ol_txrx_peer_unref_delete :: "rx_proc \<Rightarrow> bool \<Rightarrow> peer \<Rightarrow> pdev_state \<Rightarrow> pdev_state option" where
  "ol_txrx_peer_unref_delete opt monitor p s =
     (case pi_vdev (pinfo s p) of
        None \<Rightarrow> Some s
      | Some v \<Rightarrow>
          (if pi_ref_cnt (pinfo s p) = 0 then Some s
           else (let s1 = ref_dec p s
                 in if pi_ref_cnt (pinfo s1 p) = 0 then peer_delete opt monitor p v s1 else Some s1)))"

section \<open>Attaching and detaching\<close>

text \<open>The data path's part of a new peer.\<close>

fun rx_init_tids :: "peer \<Rightarrow> u8 list \<Rightarrow> rx_state \<Rightarrow> rx_state" where
  "rx_init_tids p [] r = r"
| "rx_init_tids p (t # ts) r =
     rx_init_tids p ts
       (let r1 = reorder_init_at (p, t) r
        in r1\<lparr>tids_last_seq := (tids_last_seq r1)((p, t) := IEEE80211_SEQ_MAX),
              tids_next_rel_idx := (tids_next_rel_idx r1)((p, t) := INVALID_REORDER_INDEX)\<rparr>)"

definition ol_rx_peer_init :: "peer \<Rightarrow> rx_state \<Rightarrow> rx_state" where
  "ol_rx_peer_init p r =
     (let r1 = rx_init_tids p all_tids r
      in r1\<lparr>peers := (peers r1)(p := (peers r1 p)\<lparr>sec_type_mcast := htt_sec_type_none,
           sec_type_ucast := htt_sec_type_none, fw_pn_check := False\<rparr>)\<rparr>)"

text \<open>The memory of a new peer is zero; its mode is that of the device.\<close>

definition peer_zero :: "peer \<Rightarrow> vdev \<Rightarrow> pdev_state \<Rightarrow> pdev_state" where
  "peer_zero p v s = s\<lparr>rx := (rx s)\<lparr>
     tids_last_pn := (\<lambda>k. if fst k = p then \<lparr>pn128_0 = 0, pn128_1 = 0\<rparr> else tids_last_pn (rx s) k),
     tids_last_pn_valid := (\<lambda>k. fst k \<noteq> p \<and> tids_last_pn_valid (rx s) k),
     tids_mcast_last_seq := (\<lambda>k. if fst k = p then 0 else tids_mcast_last_seq (rx s) k),
     peers := (peers (rx s))(p := (peers (rx s) p)\<lparr>pr_valid := False, pr_local_id := 0,
       pr_opmode := vd_opmode (vinfo s v), pr_safemode := vd_safemode (vinfo s v),
       michael_key_mcast := [0, 0], michael_key_ucast := [0, 0], pr_history := None\<rparr>)\<rparr>\<rparr>"

text \<open>
  The search for a peer with the same address on the device: \<open>Inl\<close> when one is not being deleted,
  otherwise whether there is one to wait for.
\<close>

partial_function (option) dup_scan ::
  "vdev \<Rightarrow> mac_addr \<Rightarrow> bool \<Rightarrow> peer option \<Rightarrow> pdev_state \<Rightarrow> (pdev_state + bool \<times> pdev_state) option" where
  "dup_scan v a wait cur s =
     (case cur of
        None \<Rightarrow> Some (Inr (wait, s))
      | Some c \<Rightarrow>
          (if ol_txrx_peer_find_mac_addr_cmp (pi_mac_addr (pinfo s c)) a = 0
           then if pi_delete_in_progress (pinfo s c)
                then dup_scan v a True (tqe_next (peer_list s) c)
                       (upd_vdev v (\<lambda>i. i\<lparr>vd_wait_on_peer_id := pr_local_id (peers (rx s) c),
                                          vd_wait_delete_comp := False\<rparr>) s)
                else Some (Inl s)
           else dup_scan v a wait (tqe_next (peer_list s) c) s))"

definition ol_txrx_peer_state_update :: "mac_addr \<Rightarrow> ol_txrx_peer_state \<Rightarrow> pdev_state \<Rightarrow> pdev_state option" where
  "ol_txrx_peer_state_update a state s =
     (case ol_txrx_peer_find_hash_find a True s of
        None \<Rightarrow> None
      | Some (None, s1) \<Rightarrow> Some s1
      | Some (Some p, s1) \<Rightarrow>
          (if pi_state (pinfo s1 p) = state then Some (ref_dec p s1)
           else (let s2 = upd_peer p (\<lambda>i. i\<lparr>pi_tx_filter :=
                       (if state = ol_txrx_peer_state_auth then ol_tx_filter_pass_thru
                        else if state = ol_txrx_peer_state_conn then ol_tx_filter_non_auth
                        else ol_tx_filter_discard)\<rparr>) s1
                 in Some (upd_peer p (\<lambda>i. i\<lparr>pi_state := state\<rparr>) (ref_dec p s2)))))"

text \<open>
  The new peer is the memory \<open>alloc\<close> returns, \<open>None\<close> when there is none; \<open>wait_deletion\<close> is
  the waiting for the deletion of an older peer, with whether it was signalled in time; \<open>history\<close>
  is the memory of the reorder history.
\<close>

definition peer_new :: "bool \<Rightarrow> reorder_history option \<Rightarrow> peer \<Rightarrow> vdev \<Rightarrow> mac_addr \<Rightarrow> pdev_state \<Rightarrow> pdev_state option" where
  "peer_new monitor history p v a s =
     (let s0 = peer_zero p v s;
          s1 = s0\<lparr>pinfo := (pinfo s)(p := \<lparr>pi_vdev = Some v, pi_mac_addr = take 6 a, pi_ref_cnt = 2,
             pi_delete_in_progress = False, pi_state = ol_txrx_peer_state_invalid, pi_tx_filter = ol_tx_filter_none,
             pi_peer_ids = replicate MAX_NUM_PEER_ID_PER_PEER HTT_INVALID_PEER,
             pi_bss_peer = (take 6 a = vd_mac_addr (vinfo s v))\<rparr>),
           peer_list := TAILQ_INSERT_TAIL v p (peer_list s)\<rparr>;
          s2 = (if ol_txrx_peer_find_mac_addr_cmp (vd_mac_addr (vinfo s1 v)) (take 6 a) \<noteq> 0
                then upd_vdev v (\<lambda>i. i\<lparr>vd_last_real_peer := Some p\<rparr>) s1 else s1);
          s3 = ol_txrx_peer_find_hash_add p (set_valid p True (s2\<lparr>rx := ol_rx_peer_init p (rx s2)\<rparr>))
      in case ol_txrx_peer_state_update (take 6 a) ol_txrx_peer_state_disc s3 of
           None \<Rightarrow> None
         | Some s4 \<Rightarrow>
             map_option (\<lambda>s5. s5\<lparr>rx := (rx s5)\<lparr>peers := (peers (rx s5))(p := (peers (rx s5) p)\<lparr>pr_history := history\<rparr>)\<rparr>\<rparr>)
               (OL_TXRX_LOCAL_PEER_ID_ALLOC p
                  (if monitor \<and> self_peer s4 = None then s4\<lparr>self_peer := Some p\<rparr> else s4)))"

definition ol_txrx_peer_attach ::
  "bool \<Rightarrow> (pdev_state \<Rightarrow> bool \<times> pdev_state) \<Rightarrow> peer option \<Rightarrow> reorder_history option \<Rightarrow> vdev \<Rightarrow> mac_addr
    \<Rightarrow> pdev_state \<Rightarrow> (peer option \<times> pdev_state) option" where
  "ol_txrx_peer_attach monitor wait_deletion alloc history v a s =
     (case dup_scan v a False (tqh_first (peer_list s) v) s of
        None \<Rightarrow> None
      | Some (Inl s1) \<Rightarrow> Some (None, s1)
      | Some (Inr (wait, s1)) \<Rightarrow>
          (let (in_time, s2) = (if wait then wait_deletion s1 else (True, s1))
           in if \<not> in_time
              then Some (None, upd_vdev v (\<lambda>i. i\<lparr>vd_wait_on_peer_id := OL_TXRX_INVALID_LOCAL_PEER_ID\<rparr>) s2)
              else (case alloc of
                      None \<Rightarrow> Some (None, s2)
                    | Some p \<Rightarrow> map_option (Pair (Some p)) (peer_new monitor history p v a s2))))"

definition ol_txrx_peer_detach :: "rx_proc \<Rightarrow> bool \<Rightarrow> peer \<Rightarrow> pdev_state \<Rightarrow> pdev_state option" where
  "ol_txrx_peer_detach opt monitor p s =
     (case pi_vdev (pinfo s p) of
        None \<Rightarrow> None
      | Some v \<Rightarrow>
          (case OL_TXRX_LOCAL_PEER_ID_FREE p (set_valid p False s) of
             None \<Rightarrow> None
           | Some s1 \<Rightarrow>
               (let s2 = (if vd_last_real_peer (vinfo s1 v) = Some p
                          then upd_vdev v (\<lambda>i. i\<lparr>vd_last_real_peer := None\<rparr>) s1 else s1)
                in ol_txrx_peer_unref_delete opt monitor p
                     (upd_peer p (\<lambda>i. i\<lparr>pi_delete_in_progress := True\<rparr>) s2))))"

section \<open>Target ids\<close>

text \<open>The ids of a peer after the addition of one, and whether there was room.\<close>

fun add_id_at :: "u16 \<Rightarrow> u16 list \<Rightarrow> u16 list \<times> bool" where
  "add_id_at peer_id [] = ([], False)"
| "add_id_at peer_id (i # ids) =
     (if i = HTT_INVALID_PEER then (peer_id # ids, True)
      else (let (ids', ok) = add_id_at peer_id ids in (i # ids', ok)))"

definition ol_txrx_peer_find_add_id_to_obj :: "peer \<Rightarrow> u16 \<Rightarrow> pdev_state \<Rightarrow> pdev_state \<times> bool" where
  "ol_txrx_peer_find_add_id_to_obj p peer_id s =
     (let (ids, ok) = add_id_at peer_id (pi_peer_ids (pinfo s p))
      in (upd_peer p (\<lambda>i. i\<lparr>pi_peer_ids := ids\<rparr>) s, ok))"

definition ol_txrx_peer_find_add_id :: "rx_proc \<Rightarrow> bool \<Rightarrow> mac_addr \<Rightarrow> u16 \<Rightarrow> pdev_state \<Rightarrow> pdev_state option" where
  "ol_txrx_peer_find_add_id opt monitor a peer_id s =
     (case ol_txrx_peer_find_hash_find a False s of
        None \<Rightarrow> None
      | Some (None, s1) \<Rightarrow> Some s1
      | Some (Some p, s1) \<Rightarrow>
          (case store_at (peer_id_map (rx s1)) (unat peer_id) (Some p) of
             None \<Rightarrow> None
           | Some m \<Rightarrow>
               (let s2 = s1\<lparr>rx := (rx s1)\<lparr>peer_id_map := m\<rparr>\<rparr>
                in case (case pi_peer_ids (pinfo s2 p) of
                           [] \<Rightarrow> None
                         | i # _ \<Rightarrow> if i = HTT_INVALID_PEER then ol_txrx_peer_unref_delete opt monitor p s2 else Some s2) of
                     None \<Rightarrow> None
                   | Some s3 \<Rightarrow> Some (fst (ol_txrx_peer_find_add_id_to_obj p peer_id s3)))))"

definition ol_txrx_peer_find_map_attach :: "bool \<Rightarrow> u32 \<Rightarrow> pdev_state \<Rightarrow> pdev_state option" where
  "ol_txrx_peer_find_map_attach alloc_ok max_id s =
     (if alloc_ok then Some (s\<lparr>rx := (rx s)\<lparr>peer_id_map := replicate (unat max_id + 1) None\<rparr>\<rparr>) else None)"

definition ol_txrx_peer_find_map_detach :: "pdev_state \<Rightarrow> pdev_state" where
  "ol_txrx_peer_find_map_detach s = s\<lparr>rx := (rx s)\<lparr>peer_id_map := []\<rparr>\<rparr>"

text \<open>Whether the two allocations succeed; the result is whether the tables are there.\<close>

definition ol_txrx_peer_find_attach :: "bool \<Rightarrow> bool \<Rightarrow> u32 \<Rightarrow> pdev_state \<Rightarrow> bool \<times> pdev_state" where
  "ol_txrx_peer_find_attach map_ok hash_ok max_id s =
     (case ol_txrx_peer_find_map_attach map_ok max_id s of
        None \<Rightarrow> (False, s)
      | Some s1 \<Rightarrow>
          (case ol_txrx_peer_find_hash_attach hash_ok max_id s1 of
             None \<Rightarrow> (False, ol_txrx_peer_find_map_detach s1)
           | Some s2 \<Rightarrow> (True, s2)))"

text \<open>On a low latency bus the map handler does no more.\<close>

definition ol_rx_peer_map_handler :: "rx_proc \<Rightarrow> bool \<Rightarrow> u16 \<Rightarrow> mac_addr \<Rightarrow> pdev_state \<Rightarrow> pdev_state option" where
  "ol_rx_peer_map_handler opt monitor peer_id a s = ol_txrx_peer_find_add_id opt monitor a peer_id s"

definition ol_rx_peer_unmap_handler :: "rx_proc \<Rightarrow> bool \<Rightarrow> u16 \<Rightarrow> pdev_state \<Rightarrow> pdev_state option" where
  "ol_rx_peer_unmap_handler opt monitor peer_id s =
     (case (if peer_id = HTT_INVALID_PEER then Some None else load_at (peer_id_map (rx s)) (unat peer_id)) of
        None \<Rightarrow> None
      | Some peer \<Rightarrow>
          (case store_at (peer_id_map (rx s)) (unat peer_id) None of
             None \<Rightarrow> None
           | Some m \<Rightarrow>
               (let s1 = s\<lparr>rx := (rx s)\<lparr>peer_id_map := m\<rparr>\<rparr>
                in case peer of None \<Rightarrow> Some s1 | Some p \<Rightarrow> ol_txrx_peer_unref_delete opt monitor p s1)))"

definition ol_txrx_assoc_peer_find :: "vdev \<Rightarrow> pdev_state \<Rightarrow> peer option \<times> pdev_state" where
  "ol_txrx_assoc_peer_find v s =
     (case vd_last_real_peer (vinfo s v) of
        None \<Rightarrow> (None, s)
      | Some p \<Rightarrow> (if hd (pi_peer_ids (pinfo s p)) \<noteq> HTT_INVALID_PEER then (Some p, ref_inc p s) else (None, s)))"

definition ol_txrx_peer_find_by_addr :: "rx_proc \<Rightarrow> bool \<Rightarrow> mac_addr \<Rightarrow> pdev_state \<Rightarrow> (peer option \<times> pdev_state) option" where
  "ol_txrx_peer_find_by_addr opt monitor a s =
     (case ol_txrx_peer_find_hash_find a False s of
        None \<Rightarrow> None
      | Some (None, s1) \<Rightarrow> Some (None, s1)
      | Some (Some p, s1) \<Rightarrow> map_option (Pair (Some p)) (ol_txrx_peer_unref_delete opt monitor p s1))"

end
