(* ===== verification/Peer_Life_Props.thy ===== *)
theory Peer_Life_Props
  imports Peer_Life
begin

text \<open>
  Reference counting of peers.  The invariant accounts for every reference: one while the peer is
  attached, one until its first id is mapped, one per mapped id, and those a caller of a lookup still
  holds.  A peer is freed exactly when none is left, once, and nothing points to a freed peer.  The
  data path is idle: no frame is held for a peer that goes away (with frames, the clean-up is
  \<open>peer_cleanup_frees_all\<close>).
\<close>

section \<open>The invariant\<close>

definition inv_lists :: "pdev_state \<Rightarrow> peer list \<Rightarrow> bool" where
  "inv_lists s ps \<longleftrightarrow> peer_hash_rep s ps \<and>
     (\<forall>v. tailq_rep v (peer_list s) (filter (\<lambda>p. pi_vdev (pinfo s p) = Some v) ps)) \<and>
     (\<forall>p \<in> set ps. pi_vdev (pinfo s p) \<noteq> None \<and> length (pi_peer_ids (pinfo s p)) = 8)"

text \<open>\<open>x p\<close> is the number of references to \<open>p\<close> that lookups gave out.\<close>

definition refs :: "pdev_state \<Rightarrow> peer set \<Rightarrow> (peer \<Rightarrow> nat) \<Rightarrow> peer \<Rightarrow> nat" where
  "refs s A x p = of_bool (p \<in> A) + of_bool (hd (pi_peer_ids (pinfo s p)) = HTT_INVALID_PEER) +
     count_list (peer_id_map (rx s)) (Some p) + x p"

definition inv_refs :: "pdev_state \<Rightarrow> peer list \<Rightarrow> peer set \<Rightarrow> (peer \<Rightarrow> nat) \<Rightarrow> bool" where
  "inv_refs s ps A x \<longleftrightarrow> (\<forall>p \<in> set ps. unat (pi_ref_cnt (pinfo s p)) = refs s A x p \<and> 0 < refs s A x p) \<and>
     (\<forall>p. Some p \<in> set (peer_id_map (rx s)) \<longrightarrow> p \<in> set ps) \<and> length (peer_id_map (rx s)) \<le> 0xffff \<and> A \<subseteq> set ps"

definition inv_local :: "pdev_state \<Rightarrow> peer set \<Rightarrow> bool" where
  "inv_local s A \<longleftrightarrow> length (local_map s) = 34 \<and> length (local_pool s) = 35 \<and> local_pool s ! 34 = 34 \<and>
     (\<forall>n \<in> set (local_pool s). unat n \<le> 34) \<and> unat (local_freelist s) \<le> 34 \<and>
     (\<forall>i < 34. \<forall>p. local_map s ! i = Some p \<longrightarrow> p \<in> A \<and> pr_local_id (peers (rx s) p) = of_nat i)"

definition rx_idle :: "rx_state \<Rightarrow> peer list \<Rightarrow> bool" where
  "rx_idle r ps \<longleftrightarrow> waitlist_rep r [] \<and> (\<forall>p \<in> set ps. \<forall>t \<in> set all_tids.
     ro_array (tids_rx_reorder r (p, t)) = None \<and> ro_base (tids_rx_reorder r (p, t)) = empty_elem \<and>
     win_sz_mask (tids_rx_reorder r (p, t)) = 0)"

definition inv_rest :: "bool \<Rightarrow> pdev_state \<Rightarrow> peer list \<Rightarrow> peer set \<Rightarrow> bool" where
  "inv_rest monitor s ps A \<longleftrightarrow> distinct (freed_peers s) \<and> set (freed_peers s) \<inter> set ps = {} \<and> rx_idle (rx s) ps \<and>
     (\<forall>v p. vd_last_real_peer (vinfo s v) = Some p \<longrightarrow> p \<in> A \<and> pi_vdev (pinfo s p) = Some v) \<and>
     (\<forall>p. self_peer s = Some p \<longrightarrow> monitor \<and> p \<in> set ps)"

definition life_inv :: "bool \<Rightarrow> pdev_state \<Rightarrow> peer list \<Rightarrow> peer set \<Rightarrow> (peer \<Rightarrow> nat) \<Rightarrow> bool" where
  "life_inv monitor s ps A x \<longleftrightarrow>
     inv_lists s ps \<and> inv_refs s ps A x \<and> inv_local s A \<and> inv_rest monitor s ps A"

text \<open>Each part looks at few fields.\<close>

lemma hash_rep_cong:
  assumes "hash_mask t = hash_mask s" and "hash_idx_bits t = hash_idx_bits s" and "hash_bins t = hash_bins s"
    and "\<And>p. p \<in> set ps \<Longrightarrow> pi_mac_addr (pinfo t p) = pi_mac_addr (pinfo s p)"
  shows "peer_hash_rep t ps = peer_hash_rep s ps"
proof -
  have idx: "ol_txrx_peer_find_hash_index t a = ol_txrx_peer_find_hash_index s a" for a
    using assms(1,2) by (simp add: ol_txrx_peer_find_hash_index_def)
  have "filter (\<lambda>p. peer_idx t p = i) ps = filter (\<lambda>p. peer_idx s p = i) ps" for i
    using assms(4) by (intro filter_cong) (simp_all add: idx)
  then show ?thesis using assms by (simp add: peer_hash_rep_def)
qed

lemma inv_lists_cong:
  assumes "hash_mask t = hash_mask s" "hash_idx_bits t = hash_idx_bits s" "hash_bins t = hash_bins s"
    and "peer_list t = peer_list s"
    and "\<And>p. p \<in> set ps \<Longrightarrow> pi_mac_addr (pinfo t p) = pi_mac_addr (pinfo s p) \<and>
      pi_vdev (pinfo t p) = pi_vdev (pinfo s p) \<and> length (pi_peer_ids (pinfo t p)) = length (pi_peer_ids (pinfo s p))"
    and "inv_lists s ps"
  shows "inv_lists t ps"
proof -
  have "filter (\<lambda>p. pi_vdev (pinfo t p) = Some v) ps = filter (\<lambda>p. pi_vdev (pinfo s p) = Some v) ps" for v
    using assms(5) by (intro filter_cong) simp_all
  then show ?thesis using assms hash_rep_cong [of t s ps] by (simp add: inv_lists_def)
qed

lemma upd_peer_fields [simp]:
  "rx (upd_peer p f s) = rx s" "hash_mask (upd_peer p f s) = hash_mask s"
  "hash_idx_bits (upd_peer p f s) = hash_idx_bits s" "hash_bins (upd_peer p f s) = hash_bins s"
  "peer_list (upd_peer p f s) = peer_list s" "local_map (upd_peer p f s) = local_map s"
  "local_pool (upd_peer p f s) = local_pool s" "local_freelist (upd_peer p f s) = local_freelist s"
  "freed_peers (upd_peer p f s) = freed_peers s" "vinfo (upd_peer p f s) = vinfo s" "self_peer (upd_peer p f s) = self_peer s"
  "pinfo (upd_peer p f s) c = (if c = p then f (pinfo s p) else pinfo s c)"
  by (simp_all add: upd_peer_def)

lemma upd_peer_lists:
  assumes "inv_lists s ps" and "pi_mac_addr (f (pinfo s p)) = pi_mac_addr (pinfo s p)"
    and "pi_vdev (f (pinfo s p)) = pi_vdev (pinfo s p)"
    and "length (pi_peer_ids (f (pinfo s p))) = length (pi_peer_ids (pinfo s p))"
  shows "inv_lists (upd_peer p f s) ps"
  using assms by (intro inv_lists_cong [of "upd_peer p f s" s]) simp_all

lemma upd_peer_local: "inv_local (upd_peer p f s) A = inv_local s A"
  by (simp only: inv_local_def upd_peer_fields)

lemma upd_peer_rest:
  assumes "pi_vdev (f (pinfo s p)) = pi_vdev (pinfo s p)"
  shows "inv_rest m (upd_peer p f s) ps A = inv_rest m s ps A"
proof -
  have "pi_vdev (pinfo (upd_peer p f s) c) = pi_vdev (pinfo s c)" for c using assms by simp
  then show ?thesis by (simp only: inv_rest_def upd_peer_fields(1-11))
qed

lemma refs_bound:
  assumes "length (peer_id_map (rx s)) \<le> 0xffff" and "x p < 2 ^ 31"
  shows "refs s A x p < 2 ^ 32 - 1"
proof -
  have "count_list (peer_id_map (rx s)) (Some p) \<le> 0xffff" using count_le_length assms(1) by (rule le_trans)
  then show ?thesis using assms(2) by (simp add: refs_def of_bool_def)
qed

section \<open>Lookups\<close>

lemma ref_inc_inv:
  assumes inv: "life_inv m s ps A x" and p: "p \<in> set ps" "x p < 2 ^ 31"
  shows "life_inv m (ref_inc p s) ps A (x(p := x p + 1))"
proof -
  have r: "refs (ref_inc p s) A (x(p := x p + 1)) c = refs s A x c + of_bool (c = p)" for c
    by (simp add: refs_def ref_inc_def upd_peer_def)
  have old: "unat (pi_ref_cnt (pinfo s c)) = refs s A x c" "0 < refs s A x c" if "c \<in> set ps" for c
    using inv that by (simp_all add: life_inv_def inv_refs_def)
  have "unat (pi_ref_cnt (pinfo s p) + 1) = refs s A x p + 1"
  proof -
    have "refs s A x p < 2 ^ 32 - 1" using inv p refs_bound by (simp add: life_inv_def inv_refs_def)
    then show ?thesis using old [OF p(1)] by (simp add: unat_word_ariths)
  qed
  then have new: "unat (pi_ref_cnt (pinfo (ref_inc p s) c)) = refs s A x c + of_bool (c = p)" if "c \<in> set ps" for c
    using old [OF that] by (simp add: ref_inc_def upd_peer_def)
  have same: "rx (ref_inc p s) = rx s" by (simp add: ref_inc_def upd_peer_def)
  have "inv_refs (ref_inc p s) ps A (x(p := x p + 1))"
  proof -
    have "unat (pi_ref_cnt (pinfo (ref_inc p s) c)) = refs s A x c + of_bool (c = p) \<and> 0 < refs s A x c + of_bool (c = p)"
      if "c \<in> set ps" for c using new [OF that] old(2) [OF that] by simp
    then show ?thesis using inv unfolding life_inv_def inv_refs_def r same by (intro conjI ballI) iprover+
  qed
  moreover have "inv_lists (ref_inc p s) ps" "inv_local (ref_inc p s) A" "inv_rest m (ref_inc p s) ps A"
    unfolding ref_inc_def using inv
    by (simp_all add: life_inv_def upd_peer_local upd_peer_rest upd_peer_lists)
  ultimately show ?thesis unfolding life_inv_def by iprover
qed

lemma find_inv:
  assumes inv: "life_inv m s ps A x" and a: "length a = 6" and x: "\<And>p. x p < 2 ^ 31"
  shows "\<exists>r s1. ol_txrx_peer_find_hash_find a v s = Some (r, s1) \<and>
    r = find (\<lambda>p. pi_mac_addr (pinfo s p) = a \<and> (\<not> v \<or> peer_valid s p)) ps \<and>
    (case r of None \<Rightarrow> s1 = s | Some p \<Rightarrow> p \<in> set ps \<and> s1 = ref_inc p s \<and> life_inv m s1 ps A (x(p := x p + 1)))"
proof -
  have rep: "peer_hash_rep s ps" using inv by (simp add: life_inv_def inv_lists_def)
  define r where "r = find (\<lambda>p. pi_mac_addr (pinfo s p) = a \<and> (\<not> v \<or> peer_valid s p)) ps"
  have "ol_txrx_peer_find_hash_find a v s = Some (r, case r of None \<Rightarrow> s | Some p \<Rightarrow> ref_inc p s)"
    using peer_hash_find_rep [OF rep a] by (simp add: r_def Let_def)
  moreover have "p \<in> set ps" if "r = Some p" for p using that by (auto simp: r_def find_Some_iff)
  ultimately show ?thesis
    using ref_inc_inv [OF inv _ x]
    by (intro exI [of _ r] exI [of _ "case r of None \<Rightarrow> s | Some p \<Rightarrow> ref_inc p s"] conjI)
      (simp_all add: r_def split: option.split)
qed

section \<open>The last reference\<close>

lemma flush_idle:
  assumes "ro_array (tids_rx_reorder r k) = None" "ro_base (tids_rx_reorder r k) = empty_elem"
    and "win_sz_mask (tids_rx_reorder r k) = 0" and "waitlist_rep r []"
  shows "ol_rx_reorder_flush opt k 0 0 htt_rx_flush_discard r =
    Some (r\<lparr>tids_next_rel_idx := (tids_next_rel_idx r)(k := 0)\<rparr>)"
proof -
  define r1 where "r1 = r\<lparr>tids_next_rel_idx := (tids_next_rel_idx r)(k := 0)\<rparr>"
  have g: "ro_get (tids_rx_reorder r1 k) 0 = Some empty_elem" using assms by (simp add: r1_def ro_get_def)
  have "flush_loop k 0 0 0 None None r1 = Some (None, None, r1)"
    by (subst flush_loop.simps) (simp add: g)
  moreover have "ol_rx_defrag_waitlist_remove k r1 = Some r1"
    using waitlist_remove_out [of r1 "[]" k] assms(4) by (simp add: r1_def waitlist_rep_def)
  ultimately show ?thesis
    using assms(3) by (simp add: ol_rx_reorder_flush_def reorder_mask_def Let_def r1_def [symmetric])
qed

lemma flush_tids_idle:
  assumes "\<forall>t \<in> set ts. ro_array (tids_rx_reorder r (p, t)) = None \<and> ro_base (tids_rx_reorder r (p, t)) = empty_elem \<and>
     win_sz_mask (tids_rx_reorder r (p, t)) = 0" and "waitlist_rep r []"
  shows "\<exists>f. flush_tids opt p ts r = Some (r\<lparr>tids_next_rel_idx := f\<rparr>)"
  using assms
proof (induction ts arbitrary: r)
  case Nil
  then show ?case by (intro exI [of _ "tids_next_rel_idx r"]) simp
next
  case (Cons t ts)
  let ?r = "r\<lparr>tids_next_rel_idx := (tids_next_rel_idx r)((p, t) := 0)\<rparr>"
  have "waitlist_rep ?r []" using Cons.prems(2) by (simp add: waitlist_rep_def)
  with Cons.prems(1) obtain f where "flush_tids opt p ts ?r = Some (?r\<lparr>tids_next_rel_idx := f\<rparr>)"
    using Cons.IH [of ?r] by auto
  then show ?case using flush_idle [of r "(p, t)" opt] Cons.prems by (intro exI [of _ f]) simp
qed

lemma cleanup_idle:
  assumes "rx_idle r ps" and "p \<in> set ps"
  shows "\<exists>f. ol_rx_peer_cleanup opt p r =
    Some (r\<lparr>tids_next_rel_idx := f, peers := (peers r)(p := (peers r p)\<lparr>pr_history := None\<rparr>)\<rparr>)"
proof -
  obtain f where "flush_tids opt p all_tids r = Some (r\<lparr>tids_next_rel_idx := f\<rparr>)"
    using flush_tids_idle [of all_tids r p opt] assms unfolding rx_idle_def by blast
  then show ?thesis
    by (intro exI [of _ f]) (simp add: ol_rx_peer_cleanup_def ol_rx_reorder_peer_cleanup_def)
qed

lemma free_arrays_none:
  "\<forall>t \<in> set ts. ro_array (tids_rx_reorder r (p, t)) = None \<Longrightarrow> free_arrays p ts r = r"
  by (induction ts) auto

text \<open>What a wake-up and the deletion of an empty device leave alone.\<close>

definition same_peers :: "pdev_state \<Rightarrow> pdev_state \<Rightarrow> bool" where
  "same_peers s t \<longleftrightarrow> rx t = rx s \<and> pinfo t = pinfo s \<and> hash_mask t = hash_mask s \<and>
     hash_idx_bits t = hash_idx_bits s \<and> hash_bins t = hash_bins s \<and> peer_list t = peer_list s \<and>
     local_map t = local_map s \<and> local_pool t = local_pool s \<and> local_freelist t = local_freelist s \<and>
     self_peer t = self_peer s \<and> freed_peers t = freed_peers s \<and>
     (\<forall>v. vd_last_real_peer (vinfo t v) = vd_last_real_peer (vinfo s v))"

lemma same_peers_wakeup: "same_peers s (vdev_delete_if_last v (vdev_wakeup i v s))"
  by (simp add: same_peers_def vdev_delete_if_last_def vdev_wakeup_def upd_vdev_def)

lemma vdev_list_remove:
  assumes inv: "inv_lists s ps" and p: "p \<in> set ps" "pi_vdev (pinfo s p) = Some v"
  shows "\<exists>q. TAILQ_REMOVE v p (peer_list s) = Some q \<and>
    (\<forall>w. tailq_rep w q (filter (\<lambda>c. pi_vdev (pinfo s c) = Some w) (remove1 p ps)))"
proof -
  let ?L = "\<lambda>w. filter (\<lambda>c. pi_vdev (pinfo s c) = Some w)"
  obtain us vs where ps: "ps = us @ p # vs" using p(1) by (meson split_list)
  have dist: "distinct ps" and rep: "tailq_rep w (peer_list s) (?L w ps)" for w
    using inv by (simp_all add: inv_lists_def peer_hash_rep_def)
  have Lv: "?L v ps = ?L v us @ p # ?L v vs" using p(2) by (simp add: ps)
  have bin: "tailq_rep v (peer_list s) (?L v us @ p # ?L v vs)" unfolding Lv [symmetric] by (rule rep)
  obtain q where q: "TAILQ_REMOVE v p (peer_list s) = Some q" "tailq_rep v q (?L v us @ ?L v vs)"
    using tailq_remove [OF bin] by blast
  have r: "remove1 p ps = us @ vs" using dist by (simp add: ps remove1_append)
  have "tailq_rep w q (?L w (us @ vs))" for w
  proof (cases "w = v")
    case True
    then show ?thesis using q(2) by simp
  next
    case False
    then have "?L w ps = ?L w (us @ vs)" using p(2) by (simp add: ps)
    moreover have "set (?L v us @ p # ?L v vs) \<inter> set (?L w ps) = {}" using False p(2) by auto
    ultimately show ?thesis using tailq_remove_frame [OF bin rep False _ q(1)] by simp
  qed
  then show ?thesis using q(1) r by auto
qed

lemma peer_delete_effect:
  assumes inv: "inv_lists s ps" and p: "p \<in> set ps" "pi_vdev (pinfo s p) = Some v" and idle: "rx_idle (rx s) ps"
  shows "\<exists>t. peer_delete opt m p v s = Some t \<and> inv_lists t (remove1 p ps) \<and> freed_peers t = freed_peers s @ [p] \<and>
    (\<forall>c. c \<noteq> p \<longrightarrow> pinfo t c = pinfo s c) \<and> local_map t = local_map s \<and> local_pool t = local_pool s \<and>
    local_freelist t = local_freelist s \<and> peer_id_map (rx t) = peer_id_map (rx s) \<and>
    (\<forall>c. pr_local_id (peers (rx t) c) = pr_local_id (peers (rx s) c)) \<and>
    (\<forall>v. vd_last_real_peer (vinfo t v) = vd_last_real_peer (vinfo s v)) \<and>
    self_peer t = (if self_peer s = Some p \<and> m then None else self_peer s) \<and>
    tids_rx_reorder (rx t) = tids_rx_reorder (rx s) \<and> waitlist (rx t) = waitlist (rx s)"
proof -
  define s0 where "s0 = (if self_peer s = Some p \<and> m then s\<lparr>self_peer := None\<rparr> else s)"
  have s0: "hash_mask s0 = hash_mask s" "hash_idx_bits s0 = hash_idx_bits s" "hash_bins s0 = hash_bins s"
    "pinfo s0 = pinfo s" "rx s0 = rx s" "peer_list s0 = peer_list s" "local_map s0 = local_map s"
    "local_pool s0 = local_pool s" "local_freelist s0 = local_freelist s" "vinfo s0 = vinfo s" "freed_peers s0 = freed_peers s"
    "self_peer s0 = (if self_peer s = Some p \<and> m then None else self_peer s)"
    by (simp_all add: s0_def)
  have "peer_hash_rep s0 ps" using inv hash_rep_cong [of s0 s ps] s0(1-4) by (simp add: inv_lists_def)
  from peer_hash_remove_rep [OF this p(1)]
  obtain h where h: "ol_txrx_peer_find_hash_remove p s0 = Some (s0\<lparr>hash_bins := h\<rparr>)"
    "peer_hash_rep (s0\<lparr>hash_bins := h\<rparr>) (remove1 p ps)" by blast
  obtain q where q: "TAILQ_REMOVE v p (peer_list s) = Some q"
    "\<forall>w. tailq_rep w q (filter (\<lambda>c. pi_vdev (pinfo s c) = Some w) (remove1 p ps))"
    using vdev_list_remove [OF inv p] by blast
  obtain f where f: "ol_rx_peer_cleanup opt p (rx s) =
      Some ((rx s)\<lparr>tids_next_rel_idx := f, peers := (peers (rx s))(p := (peers (rx s) p)\<lparr>pr_history := None\<rparr>)\<rparr>)"
    using cleanup_idle [OF idle p(1)] by blast
  define r where "r = (rx s)\<lparr>tids_next_rel_idx := f, peers := (peers (rx s))(p := (peers (rx s) p)\<lparr>pr_history := None\<rparr>)\<rparr>"
  define s2 where "s2 = upd_peer p (\<lambda>i. i\<lparr>pi_delete_in_progress := False\<rparr>) (s0\<lparr>hash_bins := h, peer_list := q, rx := r\<rparr>)"
  define s3 where "s3 = vdev_delete_if_last v (vdev_wakeup (pr_local_id (peers (rx s) p)) v s2)"
  have s3: "same_peers s2 s3" unfolding s3_def by (rule same_peers_wakeup)
  have "free_arrays p all_tids r = r"
    using idle p(1) by (intro free_arrays_none) (auto simp: rx_idle_def r_def)
  then have del: "peer_delete opt m p v s = Some (s3\<lparr>freed_peers := freed_peers s3 @ [p]\<rparr>)"
    using h(1) q(1) f s3
    by (simp add: peer_delete_def Let_def s0_def [symmetric] s0 r_def [symmetric] s2_def [symmetric] s3_def [symmetric]
        same_peers_def) (simp add: s2_def)
  define t where "t = s3\<lparr>freed_peers := freed_peers s3 @ [p]\<rparr>"
  have t: "rx t = r" "hash_mask t = hash_mask s" "hash_idx_bits t = hash_idx_bits s" "hash_bins t = h" "peer_list t = q"
    "local_map t = local_map s" "local_pool t = local_pool s" "local_freelist t = local_freelist s"
    "self_peer t = self_peer s0" "freed_peers t = freed_peers s @ [p]"
    "pinfo t = (pinfo s)(p := (pinfo s p)\<lparr>pi_delete_in_progress := False\<rparr>)"
    "vd_last_real_peer (vinfo t w) = vd_last_real_peer (vinfo s w)" for w
    using s3 by (auto simp: t_def same_peers_def s2_def upd_peer_def s0)
  have same: "pi_vdev (pinfo t c) = pi_vdev (pinfo s c)" "pi_mac_addr (pinfo t c) = pi_mac_addr (pinfo s c)"
    "pi_peer_ids (pinfo t c) = pi_peer_ids (pinfo s c)" for c by (simp_all add: t)
  have "peer_hash_rep t (remove1 p ps)"
    using h(2) hash_rep_cong [of t "s0\<lparr>hash_bins := h\<rparr>" "remove1 p ps"] by (simp add: t s0)
  moreover have "set (remove1 p ps) \<subseteq> set ps" by (rule set_remove1_subset)
  ultimately have "inv_lists t (remove1 p ps)"
    using inv q(2) unfolding inv_lists_def same t(5) by blast
  then show ?thesis
    using del by (intro exI [of _ t]) (simp add: t_def [symmetric] t s0 r_def)
qed

lemma unref_keep:
  assumes inv: "life_inv m s ps A x" and p: "p \<in> set ps" "x p = Suc n" and ref: "0 < refs s A (x(p := n)) p"
  shows "ol_txrx_peer_unref_delete opt m p s = Some (ref_dec p s) \<and> life_inv m (ref_dec p s) ps A (x(p := n))"
proof -
  have old: "unat (pi_ref_cnt (pinfo s c)) = refs s A x c" "0 < refs s A x c" if "c \<in> set ps" for c
    using inv that by (simp_all add: life_inv_def inv_refs_def)
  have r: "refs s A x c = refs s A (x(p := n)) c + of_bool (c = p)" for c using p(2) by (simp add: refs_def)
  have same: "refs (ref_dec p s) A (x(p := n)) c = refs s A (x(p := n)) c" "rx (ref_dec p s) = rx s" for c
    by (simp_all add: refs_def ref_dec_def)
  have cnt: "unat (pi_ref_cnt (pinfo s p) - 1) = refs s A (x(p := n)) p"
  proof -
    have "unat (pi_ref_cnt (pinfo s p)) = refs s A (x(p := n)) p + 1" using old(1) [OF p(1)] r [of p] by simp
    then show ?thesis by (simp add: unat_sub word_le_nat_alt)
  qed
  have new: "unat (pi_ref_cnt (pinfo (ref_dec p s) c)) = refs s A (x(p := n)) c \<and> 0 < refs s A (x(p := n)) c"
    if "c \<in> set ps" for c
    using cnt ref old [OF that] r [of c] by (cases "c = p") (simp_all add: ref_dec_def)
  have "inv_refs (ref_dec p s) ps A (x(p := n))"
    using new inv unfolding life_inv_def inv_refs_def same by (intro conjI ballI) iprover+
  moreover have "inv_lists (ref_dec p s) ps" "inv_local (ref_dec p s) A" "inv_rest m (ref_dec p s) ps A"
    unfolding ref_dec_def using inv by (simp_all add: life_inv_def upd_peer_local upd_peer_rest upd_peer_lists)
  ultimately have "life_inv m (ref_dec p s) ps A (x(p := n))" unfolding life_inv_def by iprover
  moreover have "pi_ref_cnt (pinfo s p) \<noteq> 0" using old [OF p(1)] by auto
  moreover have "pi_ref_cnt (pinfo (ref_dec p s) p) \<noteq> 0" using cnt ref by (auto simp: ref_dec_def)
  moreover have "pi_vdev (pinfo s p) \<noteq> None" using inv p(1) by (simp add: life_inv_def inv_lists_def)
  ultimately show ?thesis by (auto simp: ol_txrx_peer_unref_delete_def Let_def)
qed

lemma refs_cong:
  assumes "pi_peer_ids (pinfo t c) = pi_peer_ids (pinfo s c)" and "peer_id_map (rx t) = peer_id_map (rx s)"
    and "c \<in> A \<longleftrightarrow> c \<in> B" and "x c = y c"
  shows "refs t A x c = refs s B y c"
  using assms by (simp add: refs_def)

lemma inv_local_cong:
  assumes "local_map t = local_map s" and "local_pool t = local_pool s" and "local_freelist t = local_freelist s"
    and "\<And>c. pr_local_id (peers (rx t) c) = pr_local_id (peers (rx s) c)" and "inv_local s A"
  shows "inv_local t A"
  using assms(5) unfolding inv_local_def assms(1-4) .

text \<open>What \<open>rx_idle\<close> needs.\<close>

lemma rx_idle_cong:
  assumes "rx_idle r ps" and "tids_rx_reorder r' = tids_rx_reorder r" and "waitlist r' = waitlist r" and "set qs \<subseteq> set ps"
  shows "rx_idle r' qs"
  using assms unfolding rx_idle_def by (auto simp: waitlist_rep_def)

lemma unref_last:
  assumes inv: "life_inv m s ps A x" and p: "p \<in> set ps" "x p = Suc n" and ref: "refs s A (x(p := n)) p = 0"
  shows "\<exists>t. ol_txrx_peer_unref_delete opt m p s = Some t \<and> life_inv m t (remove1 p ps) A (x(p := n)) \<and>
    freed_peers t = freed_peers s @ [p] \<and> peer_id_map (rx t) = peer_id_map (rx s)"
proof -
  have zero: "p \<notin> A" "n = 0" "count_list (peer_id_map (rx s)) (Some p) = 0" using ref by (auto simp: refs_def)
  have one: "unat (pi_ref_cnt (pinfo s p)) = 1"
    using inv p ref by (simp add: life_inv_def inv_refs_def refs_def)
  then have cnt: "pi_ref_cnt (pinfo s p) = 1" by (simp flip: unat_inject)
  have dist: "distinct ps" using inv by (simp add: life_inv_def inv_lists_def peer_hash_rep_def)
  then have rem: "set (remove1 p ps) = set ps - {p}" by (rule set_remove1_eq)
  obtain v where v: "pi_vdev (pinfo s p) = Some v" using inv p(1) by (auto simp: life_inv_def inv_lists_def)
  define s1 where "s1 = ref_dec p s"
  have l1: "inv_lists s1 ps" "rx s1 = rx s" "pi_vdev (pinfo s1 p) = Some v"
    using inv v by (simp_all add: s1_def ref_dec_def life_inv_def upd_peer_lists)
  have "rx_idle (rx s1) ps" using inv l1(2) by (simp add: life_inv_def inv_rest_def)
  from peer_delete_effect [OF l1(1) p(1) l1(3) this, of opt m]
  obtain t where t: "peer_delete opt m p v s1 = Some t" "inv_lists t (remove1 p ps)" "freed_peers t = freed_peers s1 @ [p]"
    "\<forall>c. c \<noteq> p \<longrightarrow> pinfo t c = pinfo s1 c" "local_map t = local_map s1" "local_pool t = local_pool s1"
    "local_freelist t = local_freelist s1" "peer_id_map (rx t) = peer_id_map (rx s1)"
    "\<forall>c. pr_local_id (peers (rx t) c) = pr_local_id (peers (rx s1) c)"
    "\<forall>w. vd_last_real_peer (vinfo t w) = vd_last_real_peer (vinfo s1 w)"
    "self_peer t = (if self_peer s1 = Some p \<and> m then None else self_peer s1)"
    "tids_rx_reorder (rx t) = tids_rx_reorder (rx s1)" "waitlist (rx t) = waitlist (rx s1)" by blast
  have s1: "freed_peers s1 = freed_peers s" "local_map s1 = local_map s" "local_pool s1 = local_pool s"
    "local_freelist s1 = local_freelist s" "vinfo s1 = vinfo s" "self_peer s1 = self_peer s"
    "\<And>c. c \<noteq> p \<Longrightarrow> pinfo s1 c = pinfo s c"
    by (simp_all add: s1_def ref_dec_def)
  have del: "ol_txrx_peer_unref_delete opt m p s = Some t"
  proof -
    have "pi_ref_cnt (pinfo s1 p) = 0" using cnt by (simp add: s1_def ref_dec_def)
    then show ?thesis using v cnt t(1) by (simp add: ol_txrx_peer_unref_delete_def Let_def s1_def [symmetric])
  qed
  have pin: "pinfo t c = pinfo s c" if "c \<noteq> p" for c using t(4) s1(7) that by simp
  have Aps: "A \<subseteq> set ps" and map: "Some c \<in> set (peer_id_map (rx s)) \<Longrightarrow> c \<in> set ps" for c
    using inv by (auto simp: life_inv_def inv_refs_def)
  have nomap: "Some p \<notin> set (peer_id_map (rx s))" using zero(3) by (simp add: count_list_0_iff)
  have "inv_refs t (remove1 p ps) A (x(p := n))"
  proof -
    have "unat (pi_ref_cnt (pinfo t c)) = refs t A (x(p := n)) c \<and> 0 < refs t A (x(p := n)) c" if "c \<in> set (remove1 p ps)" for c
    proof -
      have c: "c \<in> set ps" "c \<noteq> p" using that rem by auto
      have "refs t A (x(p := n)) c = refs s A x c"
        using c(2) pin t(8) l1(2) by (intro refs_cong) simp_all
      then show ?thesis using inv c pin by (simp add: life_inv_def inv_refs_def)
    qed
    moreover have "Some c \<in> set (peer_id_map (rx t)) \<Longrightarrow> c \<in> set (remove1 p ps)" for c
      using map nomap rem t(8) l1(2) by auto
    moreover have "length (peer_id_map (rx t)) \<le> 0xffff" using inv t(8) l1(2) by (simp add: life_inv_def inv_refs_def)
    moreover have "A \<subseteq> set (remove1 p ps)" using Aps zero(1) rem by auto
    ultimately show ?thesis unfolding inv_refs_def by blast
  qed
  moreover have "inv_local t A"
  proof (rule inv_local_cong)
    show "inv_local s A" using inv by (simp add: life_inv_def)
    show "pr_local_id (peers (rx t) c) = pr_local_id (peers (rx s) c)" for c using t(9) l1(2) by simp
  qed (simp_all add: t(5-7) s1(2-4))
  moreover have "inv_rest m t (remove1 p ps) A"
  proof -
    have fr: "distinct (freed_peers s)" "set (freed_peers s) \<inter> set ps = {}"
      and lr: "vd_last_real_peer (vinfo s w) = Some c \<Longrightarrow> c \<in> A \<and> pi_vdev (pinfo s c) = Some w"
      and se: "self_peer s = Some c \<Longrightarrow> m \<and> c \<in> set ps" for w c
      using inv by (auto simp: life_inv_def inv_rest_def)
    have "distinct (freed_peers t)" "set (freed_peers t) \<inter> set (remove1 p ps) = {}"
      using fr t(3) s1(1) p(1) rem by auto
    moreover have "rx_idle (rx t) (remove1 p ps)"
      using inv rem t(12,13) l1(2) rx_idle_cong [of "rx s" ps "rx t" "remove1 p ps"]
      by (auto simp: life_inv_def inv_rest_def)
    moreover have "c \<in> A \<and> pi_vdev (pinfo t c) = Some w" if "vd_last_real_peer (vinfo t w) = Some c" for w c
    proof -
      have "vd_last_real_peer (vinfo s w) = Some c" using that t(10) s1(5) by simp
      from lr [OF this] show ?thesis using zero(1) pin by (cases "c = p") auto
    qed
    moreover have "m \<and> c \<in> set (remove1 p ps)" if "self_peer t = Some c" for c
    proof -
      have "self_peer s = Some c" "\<not> (self_peer s = Some p \<and> m)" using that t(11) s1(6) by (auto split: if_splits)
      then show ?thesis using se [of c] rem by blast
    qed
    ultimately show ?thesis unfolding inv_rest_def by blast
  qed
  ultimately show ?thesis using del t(2,3,8) l1(2) s1(1) by (intro exI [of _ t]) (simp add: life_inv_def)
qed

section \<open>Mapping and unmapping\<close>

lemma count_list_update:
  "i < length l \<Longrightarrow> count_list (l[i := v]) y + of_bool (l ! i = y) = count_list l y + of_bool (v = y)"
proof (induction l arbitrary: i)
  case (Cons a l)
  then show ?case by (cases i) (auto simp: algebra_simps)
qed simp

text \<open>A change of the id map that accounts for every reference.\<close>

lemma map_set_inv:
  assumes inv: "life_inv m s ps A x" and len: "length mp = length (peer_id_map (rx s))"
    and sub: "\<And>c. Some c \<in> set mp \<Longrightarrow> c \<in> set ps"
    and cnt: "\<And>c. c \<in> set ps \<Longrightarrow> count_list mp (Some c) + y c = count_list (peer_id_map (rx s)) (Some c) + x c"
  shows "life_inv m (s\<lparr>rx := (rx s)\<lparr>peer_id_map := mp\<rparr>\<rparr>) ps A y"
proof -
  let ?t = "s\<lparr>rx := (rx s)\<lparr>peer_id_map := mp\<rparr>\<rparr>"
  have "refs ?t A y c = refs s A x c" if "c \<in> set ps" for c using cnt [OF that] by (simp add: refs_def)
  then have "inv_refs ?t ps A y"
    using inv sub len unfolding life_inv_def inv_refs_def by (simp cong: ball_cong)
  moreover have "inv_lists ?t ps" using inv by (intro inv_lists_cong [of ?t s]) (simp_all add: life_inv_def)
  moreover have "inv_local ?t A" using inv by (intro inv_local_cong [of ?t s]) (simp_all add: life_inv_def)
  moreover have "inv_rest m ?t ps A"
    using inv rx_idle_cong [of "rx s" ps "rx ?t" ps] by (simp add: life_inv_def inv_rest_def)
  ultimately show ?thesis unfolding life_inv_def by iprover
qed

lemma upd_ids_inv:
  assumes inv: "life_inv m s ps A x" and len: "length ids = length (pi_peer_ids (pinfo s p))"
    and cnt: "of_bool (hd ids = HTT_INVALID_PEER) + y = of_bool (hd (pi_peer_ids (pinfo s p)) = HTT_INVALID_PEER) + x p"
  shows "life_inv m (upd_peer p (\<lambda>i. i\<lparr>pi_peer_ids := ids\<rparr>) s) ps A (x(p := y))"
proof -
  let ?t = "upd_peer p (\<lambda>i. i\<lparr>pi_peer_ids := ids\<rparr>) s"
  have r: "refs ?t A (x(p := y)) c = refs s A x c" for c
    using cnt by (cases "c = p") (simp_all add: refs_def)
  have "inv_refs ?t ps A (x(p := y))"
  proof -
    have "pi_ref_cnt (pinfo ?t c) = pi_ref_cnt (pinfo s c)" for c by simp
    then show ?thesis using inv unfolding life_inv_def inv_refs_def r by simp
  qed
  moreover have "inv_lists ?t ps" "inv_local ?t A" "inv_rest m ?t ps A"
    using inv len by (simp_all add: life_inv_def upd_peer_local upd_peer_rest upd_peer_lists)
  ultimately show ?thesis unfolding life_inv_def by iprover
qed

lemma add_id_at_props:
  "length (fst (add_id_at i ids)) = length ids"
  "ids \<noteq> [] \<Longrightarrow> hd (fst (add_id_at i ids)) = (if hd ids = HTT_INVALID_PEER then i else hd ids)"
proof -
  show "length (fst (add_id_at i ids)) = length ids"
    by (induction ids) (auto simp: case_prod_beta)
  show "ids \<noteq> [] \<Longrightarrow> hd (fst (add_id_at i ids)) = (if hd ids = HTT_INVALID_PEER then i else hd ids)"
    by (cases ids) (auto simp: case_prod_beta)
qed

lemma map_inv:
  assumes inv: "life_inv m s ps A x" and a: "length a = 6" and x: "\<And>p. x p < 2 ^ 31"
    and i: "unat i < length (peer_id_map (rx s))" "peer_id_map (rx s) ! unat i = None"
  shows "\<exists>t. ol_rx_peer_map_handler opt m i a s = Some t \<and> life_inv m t ps A x \<and> freed_peers t = freed_peers s \<and>
    peer_id_map (rx t) = (peer_id_map (rx s))[unat i := find (\<lambda>p. pi_mac_addr (pinfo s p) = a) ps] \<and>
    (\<forall>p. find (\<lambda>p. pi_mac_addr (pinfo s p) = a) ps = Some p \<longrightarrow>
       pi_peer_ids (pinfo t p) = fst (add_id_at i (pi_peer_ids (pinfo s p))))"
proof -
  obtain r s1 where find: "ol_txrx_peer_find_hash_find a False s = Some (r, s1)"
    and fr: "find (\<lambda>p. pi_mac_addr (pinfo s p) = a) ps = r"
    and r: "case r of None \<Rightarrow> s1 = s
      | Some p \<Rightarrow> p \<in> set ps \<and> s1 = ref_inc p s \<and> life_inv m s1 ps A (x(p := x p + 1))"
    using find_inv [OF inv a x, of False] by auto
  show ?thesis
  proof (cases r)
    case None
    have "(peer_id_map (rx s))[unat i := None] = peer_id_map (rx s)" using i(2) by (metis list_update_id)
    then show ?thesis
      using None find r inv by (simp add: ol_rx_peer_map_handler_def ol_txrx_peer_find_add_id_def fr)
  next
    case (Some p)
    then have p: "p \<in> set ps" "s1 = ref_inc p s" "life_inv m s1 ps A (x(p := x p + 1))"
      using r unfolding Some option.case by iprover+
    have rx1: "rx s1 = rx s" "freed_peers s1 = freed_peers s" by (simp_all add: p(2) ref_inc_def)
    define mp where "mp = (peer_id_map (rx s))[unat i := Some p]"
    define s2 where "s2 = s1\<lparr>rx := (rx s1)\<lparr>peer_id_map := mp\<rparr>\<rparr>"
    have inv2: "life_inv m s2 ps A x"
      unfolding s2_def
    proof (rule map_set_inv [OF p(3)])
      show "length mp = length (peer_id_map (rx s1))" by (simp add: mp_def rx1)
      show "c \<in> set ps" if "Some c \<in> set mp" for c
        using that set_update_subset_insert [of "peer_id_map (rx s)" "unat i" "Some p"] p(1) inv
        by (auto simp: mp_def life_inv_def inv_refs_def)
      show "count_list mp (Some c) + x c = count_list (peer_id_map (rx s1)) (Some c) + (x(p := x p + 1)) c" for c
        using count_list_update [OF i(1), of "Some p" "Some c"] i(2) by (auto simp: mp_def rx1)
    qed
    define ids where "ids = pi_peer_ids (pinfo s2 p)"
    have ids0: "pi_peer_ids (pinfo s p) = ids" by (simp add: ids_def s2_def p(2) ref_inc_def)
    have ids: "ids \<noteq> []" "length ids = 8" using inv2 p(1) by (auto simp: ids_def life_inv_def inv_lists_def)
    have valid: "i \<noteq> HTT_INVALID_PEER"
    proof
      assume "i = HTT_INVALID_PEER"
      then have "unat i = 0xffff" by (simp add: HTT_INVALID_PEER_def)
      then show False using i(1) inv by (simp add: life_inv_def inv_refs_def)
    qed
    have st: "store_at (peer_id_map (rx s1)) (unat i) (Some p) = Some mp" using i(1) by (simp add: rx1 mp_def)
    define ids' where "ids' = fst (add_id_at i ids)"
    have hd_case: "(case ids of [] \<Rightarrow> None | j # _ \<Rightarrow> if j = HTT_INVALID_PEER then U else V)
        = (if hd ids = HTT_INVALID_PEER then U else V)" for U V :: "pdev_state option"
      using ids(1) by (cases ids) simp_all
    have ids': "length ids' = 8" "hd ids' = (if hd ids = HTT_INVALID_PEER then i else hd ids)"
      using ids add_id_at_props(1) [of i ids] add_id_at_props(2) [of ids i] by (simp_all add: ids'_def)
    show ?thesis
    proof (cases "hd ids = HTT_INVALID_PEER")
      case False
      define t where "t = upd_peer p (\<lambda>i. i\<lparr>pi_peer_ids := ids'\<rparr>) s2"
      have "life_inv m t ps A (x(p := x p))"
        unfolding t_def using ids ids' False by (intro upd_ids_inv [OF inv2]) (simp_all add: ids_def [symmetric])
      moreover have "ol_rx_peer_map_handler opt m i a s = Some t"
        using find Some st False
        by (simp add: hd_case ol_rx_peer_map_handler_def ol_txrx_peer_find_add_id_def Let_def s2_def [symmetric]
            ids_def [symmetric] ol_txrx_peer_find_add_id_to_obj_def case_prod_beta ids'_def [symmetric] t_def)
      ultimately show ?thesis by (intro exI [of _ t]) (simp add: t_def s2_def rx1 fr Some ids0 ids'_def mp_def)
    next
      case True
      define s3 where "s3 = upd_peer p (\<lambda>i. i\<lparr>pi_peer_ids := ids'\<rparr>) s2"
      have inv3: "life_inv m s3 ps A (x(p := x p + 1))"
        unfolding s3_def using ids ids' True valid by (intro upd_ids_inv [OF inv2]) (simp_all add: ids_def [symmetric])
      have "0 < refs s3 A x p"
      proof -
        have "Some p \<in> set (peer_id_map (rx s3))"
          using i(1) by (auto simp: s3_def s2_def mp_def in_set_conv_nth intro!: exI [of _ "unat i"])
        then have "count_list (peer_id_map (rx s3)) (Some p) \<noteq> 0" by (simp add: count_list_0_iff)
        then show ?thesis by (simp add: refs_def)
      qed
      with unref_keep [OF inv3 p(1), of "x p" opt]
      have u: "ol_txrx_peer_unref_delete opt m p s3 = Some (ref_dec p s3)" "life_inv m (ref_dec p s3) ps A x"
        by simp_all
      have c2: "unat (pi_ref_cnt (pinfo s2 p)) = refs s2 A x p" using inv2 p(1) by (simp add: life_inv_def inv_refs_def)
      moreover have "2 \<le> refs s2 A x p"
      proof -
        have "Some p \<in> set (peer_id_map (rx s2))"
          using i(1) by (auto simp: s2_def mp_def in_set_conv_nth intro!: exI [of _ "unat i"])
        then have "count_list (peer_id_map (rx s2)) (Some p) \<noteq> 0" by (simp add: count_list_0_iff)
        then show ?thesis using True by (simp add: refs_def ids_def [symmetric])
      qed
      ultimately have "pi_ref_cnt (pinfo s2 p) \<noteq> 0" "pi_ref_cnt (pinfo s2 p) \<noteq> 1" by auto
      moreover obtain v where "pi_vdev (pinfo s2 p) = Some v"
        using inv2 p(1) by (auto simp: life_inv_def inv_lists_def)
      ultimately have "ol_txrx_peer_unref_delete opt m p s2 = Some (ref_dec p s2)"
        by (simp add: ol_txrx_peer_unref_delete_def Let_def) (simp add: ref_dec_def)
      moreover have ids2: "pi_peer_ids (pinfo (ref_dec p s2) p) = ids" by (simp add: ref_dec_def ids_def)
      moreover have "upd_peer p (\<lambda>i. i\<lparr>pi_peer_ids := ids'\<rparr>) (ref_dec p s2) = ref_dec p s3"
        by (cases "pinfo s2 p") (simp add: s3_def ref_dec_def upd_peer_def)
      ultimately have "ol_rx_peer_map_handler opt m i a s = Some (ref_dec p s3)"
        using find Some st True
        by (simp add: hd_case ol_rx_peer_map_handler_def ol_txrx_peer_find_add_id_def Let_def s2_def [symmetric]
            ids_def [symmetric] ol_txrx_peer_find_add_id_to_obj_def case_prod_beta ids'_def [symmetric])
      then show ?thesis using u(2) by (intro exI [of _ "ref_dec p s3"]) (simp add: ref_dec_def s3_def s2_def rx1 fr Some ids0 ids'_def mp_def)
    qed
  qed
qed

lemma unref_inv:
  assumes inv: "life_inv m s ps A x" and p: "p \<in> set ps" "x p = Suc n"
  shows "\<exists>t ps'. ol_txrx_peer_unref_delete opt m p s = Some t \<and> life_inv m t ps' A (x(p := n)) \<and>
    peer_id_map (rx t) = peer_id_map (rx s) \<and>
    (ps', freed_peers t) = (if refs s A (x(p := n)) p = 0 then (remove1 p ps, freed_peers s @ [p]) else (ps, freed_peers s))"
proof (cases "refs s A (x(p := n)) p = 0")
  case True
  then show ?thesis using unref_last [OF inv p True, of opt] by auto
next
  case False
  then show ?thesis using unref_keep [OF inv p, of opt] by (auto simp: ref_dec_def)
qed

lemma unmap_inv:
  assumes inv: "life_inv m s ps A x" and i: "unat i < length (peer_id_map (rx s))"
  shows "\<exists>t ps'. ol_rx_peer_unmap_handler opt m i s = Some t \<and> life_inv m t ps' A x \<and>
    peer_id_map (rx t) = (peer_id_map (rx s))[unat i := None] \<and>
    (ps', freed_peers t) =
      (case peer_id_map (rx s) ! unat i of
         Some p \<Rightarrow> if refs s A x p = 1 then (remove1 p ps, freed_peers s @ [p]) else (ps, freed_peers s)
       | None \<Rightarrow> (ps, freed_peers s))"
proof -
  define e where "e = peer_id_map (rx s) ! unat i"
  define mp where "mp = (peer_id_map (rx s))[unat i := None]"
  define s1 where "s1 = s\<lparr>rx := (rx s)\<lparr>peer_id_map := mp\<rparr>\<rparr>"
  define y where "y = (\<lambda>c. x c + of_bool (e = Some c))"
  have valid: "i \<noteq> HTT_INVALID_PEER"
  proof
    assume "i = HTT_INVALID_PEER"
    then have "unat i = 0xffff" by (simp add: HTT_INVALID_PEER_def)
    then show False using i inv by (simp add: life_inv_def inv_refs_def)
  qed
  have sub: "Some c \<in> set (peer_id_map (rx s)) \<Longrightarrow> c \<in> set ps" for c using inv by (simp add: life_inv_def inv_refs_def)
  have inv1: "life_inv m s1 ps A y"
    unfolding s1_def
  proof (rule map_set_inv [OF inv])
    show "length mp = length (peer_id_map (rx s))" by (simp add: mp_def)
    show "c \<in> set ps" if "Some c \<in> set mp" for c
      using that set_update_subset_insert [of "peer_id_map (rx s)" "unat i" None] sub by (auto simp: mp_def)
    show "count_list mp (Some c) + y c = count_list (peer_id_map (rx s)) (Some c) + x c" for c
      using count_list_update [OF i, of None "Some c"] by (simp add: mp_def y_def e_def)
  qed
  have st: "load_at (peer_id_map (rx s)) (unat i) = Some e" "store_at (peer_id_map (rx s)) (unat i) None = Some mp"
    using i by (simp_all add: e_def mp_def)
  have freed: "freed_peers s1 = freed_peers s" by (simp add: s1_def)
  show ?thesis
  proof (cases e)
    case None
    then have "y = x" by (simp add: y_def)
    then show ?thesis
      using inv1 st valid None freed
      by (intro exI [of _ s1] exI [of _ ps]) (simp add: ol_rx_peer_unmap_handler_def s1_def mp_def e_def [symmetric])
  next
    case (Some p)
    have p: "p \<in> set ps" using sub nth_mem [OF i] Some by (simp add: e_def)
    have y: "y p = Suc (x p)" "y(p := x p) = x" using Some by (auto simp: y_def)
    have "refs s1 A y p = refs s A x p"
      using inv1 inv p by (simp add: life_inv_def inv_refs_def) (simp add: s1_def)
    moreover have "refs s1 A y p = refs s1 A x p + 1" using y(1) by (simp add: refs_def)
    ultimately have z: "refs s1 A x p = 0 \<longleftrightarrow> refs s A x p = 1" by linarith
    obtain t ps' where t: "ol_txrx_peer_unref_delete opt m p s1 = Some t" "life_inv m t ps' A x"
      "peer_id_map (rx t) = peer_id_map (rx s1)"
      "(ps', freed_peers t) = (if refs s1 A x p = 0 then (remove1 p ps, freed_peers s1 @ [p]) else (ps, freed_peers s1))"
      using unref_inv [OF inv1 p y(1), of opt] unfolding y(2) by blast
    have "ol_rx_peer_unmap_handler opt m i s = Some t"
      using st valid Some t(1) by (simp add: ol_rx_peer_unmap_handler_def s1_def [symmetric])
    then show ?thesis
      using t(2-4) z Some freed by (intro exI [of _ t] exI [of _ ps']) (simp add: e_def [symmetric] s1_def mp_def)
  qed
qed

section \<open>Detaching\<close>

lemma local_free_inv:
  assumes loc: "inv_local s A" and "p \<in> A"
  shows "\<exists>pool fl mp. OL_TXRX_LOCAL_PEER_ID_FREE p s = Some (s\<lparr>local_pool := pool, local_freelist := fl, local_map := mp\<rparr>) \<and>
    inv_local (s\<lparr>local_pool := pool, local_freelist := fl, local_map := mp\<rparr>) (A - {p})"
proof -
  define i where "i = pr_local_id (peers (rx s) p)"
  have owner: "c \<in> A \<and> pr_local_id (peers (rx s) c) = of_nat j" if "j < 34" "local_map s ! j = Some c" for j c
    using loc that unfolding inv_local_def by blast
  have len: "length (local_map s) = 34" "length (local_pool s) = 35" "local_pool s ! 34 = 34"
    "\<forall>n \<in> set (local_pool s). unat n \<le> 34" "unat (local_freelist s) \<le> 34"
    using loc unfolding inv_local_def by iprover+
  have own_i: "unat i = j" if "j < 34" "local_map s ! j = Some p" for j
    using owner [OF that] that(1) unfolding i_def by (simp add: unsigned_of_nat take_bit_nat_eq_self)
  show ?thesis
  proof (cases "i = OL_TXRX_INVALID_LOCAL_PEER_ID \<or> OL_TXRX_NUM_LOCAL_PEER_IDS \<le> unat i")
    case True
    then have "34 \<le> unat i" by (auto simp: OL_TXRX_INVALID_LOCAL_PEER_ID_def OL_TXRX_NUM_LOCAL_PEER_IDS_def)
    then have "\<forall>j < 34. local_map s ! j \<noteq> Some p" using own_i by fastforce
    then have "inv_local s (A - {p})" using loc unfolding inv_local_def by blast
    moreover have "OL_TXRX_LOCAL_PEER_ID_FREE p s = Some s"
      using True by (auto simp: OL_TXRX_LOCAL_PEER_ID_FREE_def i_def Let_def)
    ultimately show ?thesis
      by (intro exI [of _ "local_pool s"] exI [of _ "local_freelist s"] exI [of _ "local_map s"]) simp
  next
    case False
    then have i34: "unat i < 34" by (simp add: OL_TXRX_NUM_LOCAL_PEER_IDS_def not_le)
    define pool where "pool = (local_pool s)[unat i := local_freelist s]"
    define mp where "mp = (local_map s)[unat i := None]"
    let ?t = "s\<lparr>local_pool := pool, local_freelist := ucast i, local_map := mp\<rparr>"
    have "OL_TXRX_LOCAL_PEER_ID_FREE p s = Some ?t"
      using False i34 len(1,2) by (simp add: OL_TXRX_LOCAL_PEER_ID_FREE_def i_def [symmetric] Let_def pool_def mp_def)
    moreover have upd: "local_map ?t ! j = (if j = unat i then None else local_map s ! j)" if "j < 34" for j
      using that len(1) by (simp add: mp_def)
    moreover have "inv_local ?t (A - {p})"
      unfolding inv_local_def
    proof (intro conjI ballI allI impI)
      show "length (local_map ?t) = 34" "length (local_pool ?t) = 35" "local_pool ?t ! 34 = 34"
        using len(1-3) i34 by (simp_all add: mp_def pool_def)
      show "unat n \<le> 34" if "n \<in> set (local_pool ?t)" for n
        using that set_update_subset_insert [of "local_pool s" "unat i" "local_freelist s"] len(4,5) by (auto simp: pool_def)
      show "unat (local_freelist ?t) \<le> 34" using i34 by (simp add: unsigned_ucast_eq take_bit_nat_eq_self)
      show "c \<in> A - {p}" if "j < 34" "local_map ?t ! j = Some c" for j c
        using that(2) owner [of j c] own_i [of j] that(1) unfolding upd [OF that(1)] by (auto split: if_splits)
      show "pr_local_id (peers (rx ?t) c) = of_nat j" if "j < 34" "local_map ?t ! j = Some c" for j c
        using that(2) owner [of j c] that(1) unfolding upd [OF that(1)] by (auto split: if_splits)
    qed
    ultimately show ?thesis by blast
  qed
qed

lemma set_valid_fields [simp]:
  "pinfo (set_valid p b s) = pinfo s" "vinfo (set_valid p b s) = vinfo s" "freed_peers (set_valid p b s) = freed_peers s"
  "local_map (set_valid p b s) = local_map s" "local_pool (set_valid p b s) = local_pool s"
  "local_freelist (set_valid p b s) = local_freelist s" "self_peer (set_valid p b s) = self_peer s"
  "peer_id_map (rx (set_valid p b s)) = peer_id_map (rx s)" "waitlist (rx (set_valid p b s)) = waitlist (rx s)"
  "tids_rx_reorder (rx (set_valid p b s)) = tids_rx_reorder (rx s)"
  "pr_local_id (peers (rx (set_valid p b s)) c) = pr_local_id (peers (rx s) c)"
  "hash_mask (set_valid p b s) = hash_mask s" "hash_idx_bits (set_valid p b s) = hash_idx_bits s"
  "hash_bins (set_valid p b s) = hash_bins s" "peer_list (set_valid p b s) = peer_list s"
  by (simp_all add: set_valid_def)

text \<open>Giving up the reference of the attachment.\<close>

lemma detach_inv:
  assumes inv: "life_inv m s ps A x" and p: "p \<in> A"
  shows "\<exists>t ps'. ol_txrx_peer_detach opt m p s = Some t \<and> life_inv m t ps' (A - {p}) x \<and>
    peer_id_map (rx t) = peer_id_map (rx s) \<and>
    (ps', freed_peers t) = (if refs s A x p = 1 then (remove1 p ps, freed_peers s @ [p]) else (ps, freed_peers s))"
proof -
  have pps: "p \<in> set ps" using inv p by (auto simp: life_inv_def inv_refs_def)
  obtain v where v: "pi_vdev (pinfo s p) = Some v" using inv pps by (auto simp: life_inv_def inv_lists_def)
  define s0 where "s0 = set_valid p False s"
  have "inv_local s A" using inv by (simp add: life_inv_def)
  then have "inv_local s0 A" by (rule inv_local_cong [rotated 4]) (simp_all add: s0_def)
  from local_free_inv [OF this p]
  obtain pool fl mp where free: "OL_TXRX_LOCAL_PEER_ID_FREE p s0
      = Some (s0\<lparr>local_pool := pool, local_freelist := fl, local_map := mp\<rparr>)"
    "inv_local (s0\<lparr>local_pool := pool, local_freelist := fl, local_map := mp\<rparr>) (A - {p})" by blast
  define s1 where "s1 = s0\<lparr>local_pool := pool, local_freelist := fl, local_map := mp\<rparr>"
  define s2 where "s2 = (if vd_last_real_peer (vinfo s1 v) = Some p
                          then upd_vdev v (\<lambda>i. i\<lparr>vd_last_real_peer := None\<rparr>) s1 else s1)"
  define s3 where "s3 = upd_peer p (\<lambda>i. i\<lparr>pi_delete_in_progress := True\<rparr>) s2"
  define y where "y = x(p := x p + 1)"
  have det: "ol_txrx_peer_detach opt m p s = ol_txrx_peer_unref_delete opt m p s3"
    using v free(1) by (simp add: ol_txrx_peer_detach_def s0_def [symmetric] s1_def [symmetric] s2_def [symmetric]
        s3_def [symmetric] Let_def)
  have f: "freed_peers s3 = freed_peers s" "self_peer s3 = self_peer s" "peer_id_map (rx s3) = peer_id_map (rx s)"
    "tids_rx_reorder (rx s3) = tids_rx_reorder (rx s)" "waitlist (rx s3) = waitlist (rx s)"
    "hash_mask s3 = hash_mask s" "hash_idx_bits s3 = hash_idx_bits s" "hash_bins s3 = hash_bins s" "peer_list s3 = peer_list s"
    "local_map s3 = local_map s1" "local_pool s3 = local_pool s1" "local_freelist s3 = local_freelist s1" "rx s3 = rx s1"
    by (simp_all add: s3_def s2_def s1_def s0_def upd_vdev_def)
  have pin: "pi_mac_addr (pinfo s3 c) = pi_mac_addr (pinfo s c)" "pi_vdev (pinfo s3 c) = pi_vdev (pinfo s c)"
    "pi_peer_ids (pinfo s3 c) = pi_peer_ids (pinfo s c)" "pi_ref_cnt (pinfo s3 c) = pi_ref_cnt (pinfo s c)" for c
    by (simp_all add: s3_def s2_def s1_def s0_def upd_vdev_def)
  have lr: "vd_last_real_peer (vinfo s3 w) = (if w = v \<and> vd_last_real_peer (vinfo s v) = Some p then None
      else vd_last_real_peer (vinfo s w))" for w
    by (simp add: s3_def s2_def s1_def s0_def upd_vdev_def)
  have r: "refs s3 (A - {p}) y c = refs s A x c" for c
    using p by (simp add: refs_def f(3) pin y_def)
  have "inv_refs s3 ps (A - {p}) y"
    using inv unfolding life_inv_def inv_refs_def r pin f(3) by blast
  moreover have "inv_lists s3 ps"
    using inv by (intro inv_lists_cong [of s3 s]) (simp_all add: life_inv_def f pin)
  moreover have "inv_local s3 (A - {p})"
    using free(2) by (intro inv_local_cong [of s3 s1]) (simp_all add: f s1_def [symmetric])
  moreover have "inv_rest m s3 ps (A - {p})"
  proof -
    have "vd_last_real_peer (vinfo s w) = Some c \<Longrightarrow> c \<in> A \<and> pi_vdev (pinfo s c) = Some w" for w c
      using inv by (simp add: life_inv_def inv_rest_def)
    then have "c \<in> A - {p} \<and> pi_vdev (pinfo s3 c) = Some w" if "vd_last_real_peer (vinfo s3 w) = Some c" for w c
      using that v by (cases "c = p") (auto simp: lr pin split: if_splits)
    moreover have "rx_idle (rx s3) ps"
      using inv rx_idle_cong [of "rx s" ps "rx s3" ps] f(4,5) by (simp add: life_inv_def inv_rest_def)
    ultimately show ?thesis
      using inv unfolding life_inv_def inv_rest_def f(1,2) by blast
  qed
  ultimately have inv3: "life_inv m s3 ps (A - {p}) y" unfolding life_inv_def by iprover
  have "y p = Suc (x p)" "y(p := x p) = x" by (simp_all add: y_def)
  with unref_inv [OF inv3 pps, of "x p" opt]
  obtain t ps' where t: "ol_txrx_peer_unref_delete opt m p s3 = Some t" "life_inv m t ps' (A - {p}) x"
    "peer_id_map (rx t) = peer_id_map (rx s3)"
    "(ps', freed_peers t) = (if refs s3 (A - {p}) x p = 0 then (remove1 p ps, freed_peers s3 @ [p]) else (ps, freed_peers s3))"
    by auto
  have "refs s3 (A - {p}) x p + 1 = refs s A x p" using r [of p] by (simp add: refs_def y_def)
  then have "refs s3 (A - {p}) x p = 0 \<longleftrightarrow> refs s A x p = 1" by linarith
  then show ?thesis using det t f(1,3) by (intro exI [of _ t] exI [of _ ps']) simp
qed

section \<open>Attaching\<close>

lemma life_inv_same:
  assumes same: "same_peers s t" and inv: "life_inv m s ps A x"
  shows "life_inv m t ps A x"
proof -
  have "inv_lists t ps"
    using inv same by (intro inv_lists_cong [of t s]) (simp_all add: life_inv_def same_peers_def)
  moreover have "inv_refs t ps A x"
    using inv same by (simp add: life_inv_def same_peers_def inv_refs_def refs_def)
  moreover have "inv_local t A"
    using inv same by (intro inv_local_cong [of t s]) (simp_all add: life_inv_def same_peers_def)
  moreover have "inv_rest m t ps A"
    using inv same by (simp add: life_inv_def same_peers_def inv_rest_def)
  ultimately show ?thesis unfolding life_inv_def by iprover
qed

lemma same_peers_trans: "same_peers s t \<Longrightarrow> same_peers t u \<Longrightarrow> same_peers s u"
  by (simp add: same_peers_def)

lemma same_peers_refl: "same_peers s s"
  by (simp add: same_peers_def)

lemma same_peers_wait:
  "same_peers s (upd_vdev v (\<lambda>i. i\<lparr>vd_wait_on_peer_id := c, vd_wait_delete_comp := d\<rparr>) s)"
  "same_peers s (upd_vdev v (\<lambda>i. i\<lparr>vd_wait_on_peer_id := c\<rparr>) s)"
  by (simp_all add: same_peers_def upd_vdev_def)

lemma dup_scan_rep:
  assumes "lseg (tqe_next (peer_list s)) cur cs None"
  shows "\<exists>r. dup_scan v a w cur s = Some r \<and> same_peers s (case r of Inl t \<Rightarrow> t | Inr (_, t) \<Rightarrow> t)"
  using assms
proof (induction cs arbitrary: cur w s)
  case Nil
  then show ?case by (subst dup_scan.simps) (simp add: same_peers_refl)
next
  case (Cons c cs)
  then have cur: "cur = Some c" "lseg (tqe_next (peer_list s)) (tqe_next (peer_list s) c) cs None" by simp_all
  define s1 where "s1 = upd_vdev v (\<lambda>i. i\<lparr>vd_wait_on_peer_id := pr_local_id (peers (rx s) c),
                                          vd_wait_delete_comp := False\<rparr>) s"
  have s1: "same_peers s s1" "peer_list s1 = peer_list s"
    unfolding s1_def by (rule same_peers_wait) (simp add: upd_vdev_def)
  obtain r1 where "dup_scan v a True (tqe_next (peer_list s) c) s1 = Some r1"
    "same_peers s1 (case r1 of Inl t \<Rightarrow> t | Inr (_, t) \<Rightarrow> t)" using Cons.IH [of s1] cur(2) s1(2) by force
  moreover obtain r2 where "dup_scan v a w (tqe_next (peer_list s) c) s = Some r2"
    "same_peers s (case r2 of Inl t \<Rightarrow> t | Inr (_, t) \<Rightarrow> t)" using Cons.IH [OF cur(2)] by force
  ultimately show ?case
    using cur(1) same_peers_trans [OF s1(1)]
    by (subst dup_scan.simps) (simp add: s1_def [symmetric] same_peers_refl)
qed

text \<open>Changes of the state and the filter of a peer.\<close>

lemma upd_misc_inv:
  assumes inv: "life_inv m s ps A x" and f: "\<And>i. pi_mac_addr (f i) = pi_mac_addr i" "\<And>i. pi_vdev (f i) = pi_vdev i"
    "\<And>i. pi_peer_ids (f i) = pi_peer_ids i" "\<And>i. pi_ref_cnt (f i) = pi_ref_cnt i"
  shows "life_inv m (upd_peer p f s) ps A x"
proof -
  have "pi_ref_cnt (pinfo (upd_peer p f s) c) = pi_ref_cnt (pinfo s c)" for c by (simp add: f)
  moreover have "refs (upd_peer p f s) A x c = refs s A x c" for c by (simp add: refs_def f)
  ultimately have "inv_refs (upd_peer p f s) ps A x" using inv by (simp add: life_inv_def inv_refs_def)
  then show ?thesis
    using inv f by (simp add: life_inv_def upd_peer_local upd_peer_rest upd_peer_lists)
qed

lemma state_update_inv:
  assumes inv: "life_inv m s ps A x" and a: "length a = 6" and x: "\<And>p. x p < 2 ^ 31"
  shows "\<exists>t. ol_txrx_peer_state_update a st s = Some t \<and> life_inv m t ps A x \<and> freed_peers t = freed_peers s \<and>
    local_map t = local_map s \<and> self_peer t = self_peer s"
proof -
  obtain r s1 where find: "ol_txrx_peer_find_hash_find a True s = Some (r, s1)"
    and r: "case r of None \<Rightarrow> s1 = s
      | Some p \<Rightarrow> p \<in> set ps \<and> s1 = ref_inc p s \<and> life_inv m s1 ps A (x(p := x p + 1))"
    using find_inv [OF inv a x, of True] by blast
  show ?thesis
  proof (cases r)
    case None
    then show ?thesis using find r inv by (simp add: ol_txrx_peer_state_update_def)
  next
    case (Some p)
    then have p: "p \<in> set ps" "s1 = ref_inc p s" "life_inv m s1 ps A (x(p := x p + 1))"
      using r unfolding Some option.case by iprover+
    have dec: "life_inv m (ref_dec p t) ps A x" if "life_inv m t ps A (x(p := x p + 1))" "refs t A x p = refs s A x p" for t
    proof -
      have "0 < refs s A x p" using inv p(1) by (simp add: life_inv_def inv_refs_def)
      then show ?thesis using unref_keep [OF that(1) p(1), of "x p"] that(2) by simp
    qed
    have same: "refs s1 A x p = refs s A x p" "freed_peers s1 = freed_peers s" "local_map s1 = local_map s" "self_peer s1 = self_peer s"
      by (simp_all add: p(2) ref_inc_def refs_def)
    define fl where "fl = (\<lambda>i :: peer_info. i\<lparr>pi_tx_filter :=
                       (if st = ol_txrx_peer_state_auth then ol_tx_filter_pass_thru
                        else if st = ol_txrx_peer_state_conn then ol_tx_filter_non_auth
                        else ol_tx_filter_discard)\<rparr>)"
    define s2 where "s2 = upd_peer p fl s1"
    have "life_inv m s2 ps A (x(p := x p + 1))" unfolding s2_def by (rule upd_misc_inv [OF p(3)]) (simp_all add: fl_def)
    then have d2: "life_inv m (ref_dec p s2) ps A x"
      by (rule dec) (simp add: s2_def fl_def refs_def p(2) ref_inc_def)
    have "life_inv m (upd_peer p (\<lambda>i. i\<lparr>pi_state := st\<rparr>) (ref_dec p s2)) ps A x"
      by (rule upd_misc_inv [OF d2]) simp_all
    moreover have "life_inv m (ref_dec p s1) ps A x" by (rule dec [OF p(3) same(1)])
    ultimately show ?thesis
      using find Some same
      by (simp add: ol_txrx_peer_state_update_def Let_def fl_def [symmetric] s2_def [symmetric])
        (simp add: s2_def ref_dec_def)
  qed
qed

lemma local_alloc_inv:
  assumes inv: "life_inv m s ps A x" and p: "p \<in> A" "\<forall>j < 34. local_map s ! j \<noteq> Some p"
  shows "\<exists>t. OL_TXRX_LOCAL_PEER_ID_ALLOC p s = Some t \<and> life_inv m t ps A x \<and> freed_peers t = freed_peers s"
proof -
  have loc: "inv_local s A" using inv by (simp add: life_inv_def)
  have owner: "c \<in> A \<and> pr_local_id (peers (rx s) c) = of_nat j" if "j < 34" "local_map s ! j = Some c" for j c
    using loc that unfolding inv_local_def by blast
  have len: "length (local_map s) = 34" "length (local_pool s) = 35" "local_pool s ! 34 = 34"
    "\<forall>n \<in> set (local_pool s). unat n \<le> 34" "unat (local_freelist s) \<le> 34"
    using loc unfolding inv_local_def by iprover+
  define i where "i = local_freelist s"
  define n where "n = local_pool s ! unat i"
  have ld: "load_at (local_pool s) (unat i) = Some n" using len(2,5) by (simp add: n_def i_def)
  have n34: "unat n \<le> 34" using len(2,4,5) by (simp add: n_def i_def)
  have other: "life_inv m t ps A x"
    if t: "t = (set_local_id p l s)\<lparr>local_freelist := fr, local_map := mp\<rparr>" and "inv_local t A" for t l fr mp
  proof -
    have f: "pinfo t = pinfo s" "peer_id_map (rx t) = peer_id_map (rx s)" "freed_peers t = freed_peers s"
      "tids_rx_reorder (rx t) = tids_rx_reorder (rx s)" "waitlist (rx t) = waitlist (rx s)" "vinfo t = vinfo s"
      "self_peer t = self_peer s" "hash_mask t = hash_mask s" "hash_idx_bits t = hash_idx_bits s"
      "hash_bins t = hash_bins s" "peer_list t = peer_list s"
      by (simp_all add: t set_local_id_def)
    have "inv_lists t ps" using inv by (intro inv_lists_cong [of t s]) (simp_all add: life_inv_def f)
    moreover have "inv_refs t ps A x" using inv by (simp add: life_inv_def inv_refs_def refs_def f)
    moreover have "inv_rest m t ps A"
      using inv rx_idle_cong [of "rx s" ps "rx t" ps] by (simp add: life_inv_def inv_rest_def f)
    ultimately show ?thesis using that(2) unfolding life_inv_def by iprover
  qed
  show ?thesis
  proof (cases "n = i")
    case True
    define t where "t = set_local_id p OL_TXRX_INVALID_LOCAL_PEER_ID s"
    have "inv_local t A"
      unfolding inv_local_def
    proof (intro conjI ballI allI impI)
      show "pr_local_id (peers (rx t) c) = of_nat j" if "j < 34" "local_map t ! j = Some c" for j c
        using that owner [of j c] p(2) by (auto simp: t_def set_local_id_def)
      show "c \<in> A" if "j < 34" "local_map t ! j = Some c" for j c
        using that owner [of j c] by (auto simp: t_def set_local_id_def)
    qed (use len in \<open>simp_all add: t_def set_local_id_def\<close>)
    moreover have "t = (set_local_id p OL_TXRX_INVALID_LOCAL_PEER_ID s)\<lparr>local_freelist := local_freelist s, local_map := local_map s\<rparr>"
      by (simp add: t_def set_local_id_def)
    ultimately have "life_inv m t ps A x" using other by blast
    then show ?thesis
      using ld True by (simp add: OL_TXRX_LOCAL_PEER_ID_ALLOC_def i_def [symmetric] Let_def t_def [symmetric])
        (simp add: t_def set_local_id_def)
  next
    case False
    have i34: "unat i < 34"
    proof -
      have "unat i \<noteq> 34"
      proof
        assume i: "unat i = 34"
        then have "n = 34" using len(3) by (simp add: n_def)
        then have "unat n = unat i" using i by simp
        then show False using False by simp
      qed
      then show ?thesis using len(5) by (simp add: i_def)
    qed
    define mp where "mp = (local_map s)[unat i := Some p]"
    define t where "t = (set_local_id p (ucast i) s)\<lparr>local_freelist := n, local_map := mp\<rparr>"
    have upd: "local_map t ! j = (if j = unat i then Some p else local_map s ! j)" if "j < 34" for j
      using that len(1) by (simp add: t_def mp_def)
    have lid: "pr_local_id (peers (rx t) c) = (if c = p then ucast i else pr_local_id (peers (rx s) c))" for c
      by (simp add: t_def set_local_id_def)
    have ui: "(ucast i :: u16) = of_nat (unat i)" by simp
    have "inv_local t A"
      unfolding inv_local_def
    proof (intro conjI ballI allI impI)
      show "pr_local_id (peers (rx t) c) = of_nat j" if "j < 34" "local_map t ! j = Some c" for j c
        using that(2) owner [of j c] p(2) that(1) ui unfolding upd [OF that(1)] lid by (auto split: if_splits)
      show "c \<in> A" if "j < 34" "local_map t ! j = Some c" for j c
        using that(2) owner [of j c] p(1) that(1) unfolding upd [OF that(1)] by (auto split: if_splits)
    qed (use len n34 in \<open>simp_all add: t_def mp_def set_local_id_def\<close>)
    then have "life_inv m t ps A x" using other t_def by blast
    then show ?thesis
      using ld False i34 len(1)
      by (simp add: OL_TXRX_LOCAL_PEER_ID_ALLOC_def i_def [symmetric] Let_def mp_def [symmetric] t_def [symmetric])
        (simp add: t_def set_local_id_def)
  qed
qed

lemma rx_init_tids_effect:
  assumes "waitlist_rep r []"
  shows "waitlist_rep (rx_init_tids p ts r) []" "peer_id_map (rx_init_tids p ts r) = peer_id_map r"
    "peers (rx_init_tids p ts r) = peers r"
    "(q, t) \<notin> Pair p ` set ts \<Longrightarrow> tids_rx_reorder (rx_init_tids p ts r) (q, t) = tids_rx_reorder r (q, t)"
    "t \<in> set ts \<Longrightarrow> ro_array (tids_rx_reorder (rx_init_tids p ts r) (p, t)) = None \<and>
       ro_base (tids_rx_reorder (rx_init_tids p ts r) (p, t)) = empty_elem \<and>
       win_sz_mask (tids_rx_reorder (rx_init_tids p ts r) (p, t)) = 0"
proof -
  define step where "step u r = (let r1 = reorder_init_at (p, u) r
        in r1\<lparr>tids_last_seq := (tids_last_seq r1)((p, u) := IEEE80211_SEQ_MAX),
              tids_next_rel_idx := (tids_next_rel_idx r1)((p, u) := INVALID_REORDER_INDEX)\<rparr>)" for u r
  have st: "waitlist_rep (step u r) []" "peer_id_map (step u r) = peer_id_map r" "peers (step u r) = peers r"
    "tids_rx_reorder (step u r) = (tids_rx_reorder r)((p, u) := ol_rx_reorder_init u (tids_rx_reorder r (p, u)))"
    if "waitlist_rep r []" for u r
    using that by (simp_all add: step_def Let_def reorder_init_at_def upd_reorder_def waitlist_rep_def tailq_rep_clear tq_clear_def)
      (simp_all add: tailq_rep_def)
  have "waitlist_rep (rx_init_tids p ts r) [] \<and> peer_id_map (rx_init_tids p ts r) = peer_id_map r \<and>
    peers (rx_init_tids p ts r) = peers r \<and>
    (\<forall>k. k \<notin> Pair p ` set ts \<longrightarrow> tids_rx_reorder (rx_init_tids p ts r) k = tids_rx_reorder r k) \<and>
    (\<forall>t \<in> set ts. ro_array (tids_rx_reorder (rx_init_tids p ts r) (p, t)) = None \<and>
       ro_base (tids_rx_reorder (rx_init_tids p ts r) (p, t)) = empty_elem \<and>
       win_sz_mask (tids_rx_reorder (rx_init_tids p ts r) (p, t)) = 0)"
    using assms
  proof (induction ts arbitrary: r)
    case (Cons u ts)
    have eq: "rx_init_tids p (u # ts) r = rx_init_tids p ts (step u r)" by (simp add: step_def)
    note s = st [OF Cons.prems, of u]
    note IH = Cons.IH [OF s(1)]
    have "ro_array (tids_rx_reorder (step u r) (p, u)) = None \<and> ro_base (tids_rx_reorder (step u r) (p, u)) = empty_elem \<and>
       win_sz_mask (tids_rx_reorder (step u r) (p, u)) = 0"
      by (simp add: s(4) ol_rx_reorder_init_def)
    then have "\<forall>t \<in> set (u # ts). ro_array (tids_rx_reorder (rx_init_tids p ts (step u r)) (p, t)) = None \<and>
       ro_base (tids_rx_reorder (rx_init_tids p ts (step u r)) (p, t)) = empty_elem \<and>
       win_sz_mask (tids_rx_reorder (rx_init_tids p ts (step u r)) (p, t)) = 0"
    proof -
      have "tids_rx_reorder (rx_init_tids p ts (step u r)) (p, u) = tids_rx_reorder (step u r) (p, u)" if "u \<notin> set ts"
      proof -
        from that have "(p, u) \<notin> Pair p ` set ts" by auto
        then show ?thesis using IH by blast
      qed
      with IH show ?thesis
        using \<open>ro_array (tids_rx_reorder (step u r) (p, u)) = None \<and> _\<close> by (cases "u \<in> set ts") simp_all
    qed
    moreover have "tids_rx_reorder (rx_init_tids p ts (step u r)) k = tids_rx_reorder r k" if "k \<notin> Pair p ` set (u # ts)" for k
    proof -
      have "k \<notin> Pair p ` set ts" and ne: "k \<noteq> (p, u)" using that by auto
      then have "tids_rx_reorder (rx_init_tids p ts (step u r)) k = tids_rx_reorder (step u r) k" using IH by blast
      then show ?thesis using s(4) ne by simp
    qed
    ultimately show ?case unfolding eq using IH s(2,3) by simp
  qed simp
  then show "waitlist_rep (rx_init_tids p ts r) []" "peer_id_map (rx_init_tids p ts r) = peer_id_map r"
    "peers (rx_init_tids p ts r) = peers r"
    "(q, t) \<notin> Pair p ` set ts \<Longrightarrow> tids_rx_reorder (rx_init_tids p ts r) (q, t) = tids_rx_reorder r (q, t)"
    "t \<in> set ts \<Longrightarrow> ro_array (tids_rx_reorder (rx_init_tids p ts r) (p, t)) = None \<and>
       ro_base (tids_rx_reorder (rx_init_tids p ts r) (p, t)) = empty_elem \<and>
       win_sz_mask (tids_rx_reorder (rx_init_tids p ts r) (p, t)) = 0"
    by blast+
qed

lemma vdev_list_insert:
  assumes inv: "inv_lists s ps" and p: "p \<notin> set ps" and pin: "\<And>c. c \<in> set ps \<Longrightarrow> pi_vdev (f c) = pi_vdev (pinfo s c)"
    and v: "pi_vdev (f p) = Some v"
  shows "tailq_rep w (TAILQ_INSERT_TAIL v p (peer_list s)) (filter (\<lambda>c. pi_vdev (f c) = Some w) (ps @ [p]))"
proof -
  let ?L = "\<lambda>w. filter (\<lambda>c. pi_vdev (pinfo s c) = Some w) ps"
  have rep: "tailq_rep w (peer_list s) (?L w)" for w using inv by (simp add: inv_lists_def)
  have L: "filter (\<lambda>c. pi_vdev (f c) = Some w) ps = ?L w" using pin by (intro filter_cong) simp_all
  show ?thesis
  proof (cases "w = v")
    case True
    then show ?thesis using tailq_insert_tail [OF rep, of p v] p v L by simp
  next
    case False
    moreover have "set (?L v) \<inter> set (?L w) = {}" using False by auto
    ultimately show ?thesis using tailq_insert_tail_frame [OF rep rep, of w v p] p v L by simp
  qed
qed

text \<open>The new peer up to its place in the hash table.\<close>

definition peer_new_base :: "peer \<Rightarrow> vdev \<Rightarrow> mac_addr \<Rightarrow> pdev_state \<Rightarrow> pdev_state" where
  "peer_new_base p v a s =
     (let s0 = peer_zero p v s;
          s1 = s0\<lparr>pinfo := (pinfo s)(p := \<lparr>pi_vdev = Some v, pi_mac_addr = take 6 a, pi_ref_cnt = 2,
             pi_delete_in_progress = False, pi_state = ol_txrx_peer_state_invalid, pi_tx_filter = ol_tx_filter_none,
             pi_peer_ids = replicate MAX_NUM_PEER_ID_PER_PEER HTT_INVALID_PEER,
             pi_bss_peer = (take 6 a = vd_mac_addr (vinfo s v))\<rparr>),
           peer_list := TAILQ_INSERT_TAIL v p (peer_list s)\<rparr>;
          s2 = (if ol_txrx_peer_find_mac_addr_cmp (vd_mac_addr (vinfo s1 v)) (take 6 a) \<noteq> 0
                then upd_vdev v (\<lambda>i. i\<lparr>vd_last_real_peer := Some p\<rparr>) s1 else s1)
      in ol_txrx_peer_find_hash_add p (set_valid p True (s2\<lparr>rx := ol_rx_peer_init p (rx s2)\<rparr>)))"

lemma peer_new_base_inv:
  assumes inv: "life_inv m s ps A x" and a: "length a = 6" and p: "p \<notin> set ps" "p \<notin> set (freed_peers s)" "x p = 0"
  shows "life_inv m (peer_new_base p v a s) (ps @ [p]) (insert p A) x \<and>
    freed_peers (peer_new_base p v a s) = freed_peers s \<and> local_map (peer_new_base p v a s) = local_map s"
proof -
  define i where "i = \<lparr>pi_vdev = Some v, pi_mac_addr = take 6 a, pi_ref_cnt = 2,
             pi_delete_in_progress = False, pi_state = ol_txrx_peer_state_invalid, pi_tx_filter = ol_tx_filter_none,
             pi_peer_ids = replicate MAX_NUM_PEER_ID_PER_PEER HTT_INVALID_PEER,
             pi_bss_peer = (take 6 a = vd_mac_addr (vinfo s v))\<rparr>"
  define s0 where "s0 = peer_zero p v s"
  define s1 where "s1 = s0\<lparr>pinfo := (pinfo s)(p := i), peer_list := TAILQ_INSERT_TAIL v p (peer_list s)\<rparr>"
  define s2 where "s2 = (if ol_txrx_peer_find_mac_addr_cmp (vd_mac_addr (vinfo s1 v)) (take 6 a) \<noteq> 0
                then upd_vdev v (\<lambda>i. i\<lparr>vd_last_real_peer := Some p\<rparr>) s1 else s1)"
  define s3 where "s3 = set_valid p True (s2\<lparr>rx := ol_rx_peer_init p (rx s2)\<rparr>)"
  define t where "t = ol_txrx_peer_find_hash_add p s3"
  have t_eq: "peer_new_base p v a s = t"
    by (simp add: peer_new_base_def Let_def t_def s3_def s2_def s1_def s0_def i_def)
  have idle: "rx_idle (rx s) ps" using inv by (simp add: life_inv_def inv_rest_def)
  have w2: "waitlist_rep (rx s2) []"
    using idle by (simp add: rx_idle_def s2_def s1_def s0_def peer_zero_def upd_vdev_def waitlist_rep_def)
  note init = rx_init_tids_effect [OF w2, where p = p and ts = all_tids]
  have rx2: "tids_rx_reorder (rx s2) = tids_rx_reorder (rx s)" "peer_id_map (rx s2) = peer_id_map (rx s)"
    "c \<noteq> p \<Longrightarrow> pr_local_id (peers (rx s2) c) = pr_local_id (peers (rx s) c)" for c
    by (simp_all add: s2_def s1_def s0_def peer_zero_def upd_vdev_def)
  have rx3: "waitlist_rep (rx s3) []" "peer_id_map (rx s3) = peer_id_map (rx s)"
    "c \<noteq> p \<Longrightarrow> pr_local_id (peers (rx s3) c) = pr_local_id (peers (rx s) c)"
    "tids_rx_reorder (rx s3) = tids_rx_reorder (rx_init_tids p all_tids (rx s2))" for c
    using init(1-3) rx2 by (simp_all add: s3_def set_valid_def ol_rx_peer_init_def Let_def waitlist_rep_def)
  have f3: "pinfo s3 = (pinfo s)(p := i)" "peer_list s3 = TAILQ_INSERT_TAIL v p (peer_list s)"
    "hash_mask s3 = hash_mask s" "hash_idx_bits s3 = hash_idx_bits s" "hash_bins s3 = hash_bins s"
    "freed_peers s3 = freed_peers s" "local_map s3 = local_map s" "local_pool s3 = local_pool s"
    "local_freelist s3 = local_freelist s" "self_peer s3 = self_peer s"
    by (simp_all add: s3_def s2_def s1_def s0_def peer_zero_def upd_vdev_def)
  have ft: "pinfo t = pinfo s3" "rx t = rx s3" "peer_list t = peer_list s3" "freed_peers t = freed_peers s3"
    "local_map t = local_map s3" "local_pool t = local_pool s3" "local_freelist t = local_freelist s3"
    "self_peer t = self_peer s3" "vinfo t = vinfo s3"
    by (simp_all add: t_def ol_txrx_peer_find_hash_add_def)
  have lr: "vd_last_real_peer (vinfo s3 w) = Some c \<Longrightarrow>
      vd_last_real_peer (vinfo s w) = Some c \<or> (w = v \<and> c = p)" for w c
    by (auto simp: s3_def s2_def s1_def s0_def peer_zero_def upd_vdev_def split: if_splits)
  have nomap: "Some p \<notin> set (peer_id_map (rx s))" using inv p(1) by (auto simp: life_inv_def inv_refs_def)
  have "inv_lists t (ps @ [p])"
  proof -
    have old: "inv_lists s ps" using inv by (simp add: life_inv_def)
    have "c \<in> set ps \<Longrightarrow> pinfo s3 c = pinfo s c" for c using p(1) by (auto simp: f3)
    then have "peer_hash_rep s3 ps" using old hash_rep_cong [of s3 s ps] by (simp add: inv_lists_def f3(3-5))
    then have "peer_hash_rep t (ps @ [p])"
      unfolding t_def using p(1) a by (intro peer_hash_add_rep) (simp_all add: f3(1) i_def)
    moreover have "tailq_rep w (peer_list t) (filter (\<lambda>c. pi_vdev (pinfo t c) = Some w) (ps @ [p]))" for w
      unfolding ft f3(2) using p(1) by (intro vdev_list_insert [OF old p(1)]) (auto simp: f3(1) i_def)
    moreover have "\<forall>c \<in> set (ps @ [p]). pi_vdev (pinfo t c) \<noteq> None \<and> length (pi_peer_ids (pinfo t c)) = 8"
      using old by (auto simp: inv_lists_def ft f3(1) i_def MAX_NUM_PEER_ID_PER_PEER_def)
    ultimately show ?thesis unfolding inv_lists_def by blast
  qed
  moreover have "inv_refs t (ps @ [p]) (insert p A) x"
  proof -
    have Aps: "A \<subseteq> set ps" using inv by (simp add: life_inv_def inv_refs_def)
    have "unat (pi_ref_cnt (pinfo t c)) = refs t (insert p A) x c \<and> 0 < refs t (insert p A) x c" if "c \<in> set (ps @ [p])" for c
    proof (cases "c = p")
      case True
      have "count_list (peer_id_map (rx s)) (Some p) = 0" using nomap by (simp add: count_list_0_iff)
      then show ?thesis
        using True p(3) by (simp add: refs_def ft f3(1) rx3(2) i_def MAX_NUM_PEER_ID_PER_PEER_def)
    next
      case False
      then have "refs t (insert p A) x c = refs s A x c" by (intro refs_cong) (simp_all add: ft f3(1) rx3(2))
      then show ?thesis using False that inv by (simp add: ft f3(1) life_inv_def inv_refs_def)
    qed
    moreover have "Some c \<in> set (peer_id_map (rx t)) \<Longrightarrow> c \<in> set (ps @ [p])" for c
      using inv by (simp add: ft rx3(2) life_inv_def inv_refs_def)
    moreover have "length (peer_id_map (rx t)) \<le> 0xffff" using inv by (simp add: ft rx3(2) life_inv_def inv_refs_def)
    moreover have "insert p A \<subseteq> set (ps @ [p])" using Aps by auto
    ultimately show ?thesis unfolding inv_refs_def by blast
  qed
  moreover have "inv_local t (insert p A)"
  proof -
    have loc: "inv_local s A" and Aps: "A \<subseteq> set ps" using inv by (simp_all add: life_inv_def inv_refs_def)
    have owner: "c \<in> A \<and> pr_local_id (peers (rx s) c) = of_nat j" if "j < 34" "local_map s ! j = Some c" for j c
      using loc that unfolding inv_local_def by blast
    have "c \<in> insert p A \<and> pr_local_id (peers (rx s3) c) = of_nat j" if "j < 34" "local_map s ! j = Some c" for j c
      using owner [OF that] rx3(3) [of c] Aps p(1) by auto
    then show ?thesis using loc unfolding inv_local_def ft f3 by blast
  qed
  moreover have "inv_rest m t (ps @ [p]) (insert p A)"
  proof -
    have "rx_idle (rx t) (ps @ [p])"
      unfolding rx_idle_def
    proof (intro conjI ballI)
      show "waitlist_rep (rx t) []" using rx3(1) by (simp add: ft)
      fix c u assume c: "c \<in> set (ps @ [p])" "u \<in> set all_tids"
      have "ro_array (tids_rx_reorder (rx t) (c, u)) = None \<and> ro_base (tids_rx_reorder (rx t) (c, u)) = empty_elem \<and>
         win_sz_mask (tids_rx_reorder (rx t) (c, u)) = 0"
      proof (cases "c = p")
        case True
        then show ?thesis using init(5) [OF c(2)] by (simp only: ft rx3(4))
      next
        case False
        then have "(c, u) \<notin> Pair p ` set all_tids" by auto
        from init(4) [OF this] have "tids_rx_reorder (rx t) (c, u) = tids_rx_reorder (rx s) (c, u)"
          by (simp only: ft rx3(4) rx2(1))
        moreover have "c \<in> set ps" using c(1) False by simp
        ultimately show ?thesis using idle c(2) unfolding rx_idle_def by metis
      qed
      then show "ro_array (tids_rx_reorder (rx t) (c, u)) = None" "ro_base (tids_rx_reorder (rx t) (c, u)) = empty_elem"
        "win_sz_mask (tids_rx_reorder (rx t) (c, u)) = 0" by iprover+
    qed
    moreover have "c \<in> insert p A \<and> pi_vdev (pinfo t c) = Some w" if "vd_last_real_peer (vinfo t w) = Some c" for w c
    proof -
      have "vd_last_real_peer (vinfo s w) = Some c \<or> (w = v \<and> c = p)" using lr that by (simp add: ft)
      moreover have "c \<in> A \<and> c \<noteq> p \<and> pi_vdev (pinfo s c) = Some w" if "vd_last_real_peer (vinfo s w) = Some c"
      proof -
        have "A \<subseteq> set ps" "c \<in> A" "pi_vdev (pinfo s c) = Some w"
          using inv that by (simp_all add: life_inv_def inv_rest_def inv_refs_def)
        then show ?thesis using p(1) by blast
      qed
      ultimately show ?thesis by (auto simp: ft f3(1) i_def)
    qed
    moreover have "distinct (freed_peers t) \<and> set (freed_peers t) \<inter> set (ps @ [p]) = {}"
      using inv p(2) by (auto simp: ft f3(6) life_inv_def inv_rest_def)
    moreover have "\<forall>c. self_peer t = Some c \<longrightarrow> m \<and> c \<in> set (ps @ [p])"
      using inv by (simp add: ft f3(10) life_inv_def inv_rest_def)
    ultimately show ?thesis unfolding inv_rest_def by blast
  qed
  ultimately show ?thesis unfolding t_eq life_inv_def by (simp add: ft f3)
qed

lemma peer_new_eq:
  "peer_new m h p v a s =
     (case ol_txrx_peer_state_update (take 6 a) ol_txrx_peer_state_disc (peer_new_base p v a s) of
        None \<Rightarrow> None
      | Some s4 \<Rightarrow>
          map_option (\<lambda>s5. s5\<lparr>rx := (rx s5)\<lparr>peers := (peers (rx s5))(p := (peers (rx s5) p)\<lparr>pr_history := h\<rparr>)\<rparr>\<rparr>)
            (OL_TXRX_LOCAL_PEER_ID_ALLOC p
               (if m \<and> self_peer s4 = None then s4\<lparr>self_peer := Some p\<rparr> else s4)))"
  by (simp only: peer_new_def peer_new_base_def Let_def)

lemma self_peer_inv:
  assumes "life_inv True s ps A x" and "p \<in> set ps"
  shows "life_inv True (s\<lparr>self_peer := Some p\<rparr>) ps A x"
proof -
  let ?t = "s\<lparr>self_peer := Some p\<rparr>"
  have "inv_lists ?t ps" using assms by (intro inv_lists_cong [of ?t s]) (simp_all add: life_inv_def)
  moreover have "inv_refs ?t ps A x" using assms by (simp add: life_inv_def inv_refs_def refs_def)
  moreover have "inv_local ?t A" using assms by (intro inv_local_cong [of ?t s]) (simp_all add: life_inv_def)
  moreover have "inv_rest True ?t ps A" using assms by (simp add: life_inv_def inv_rest_def)
  ultimately show ?thesis unfolding life_inv_def by iprover
qed

lemma history_inv:
  assumes "life_inv m s ps A x"
  shows "life_inv m (s\<lparr>rx := (rx s)\<lparr>peers := (peers (rx s))(p := (peers (rx s) p)\<lparr>pr_history := h\<rparr>)\<rparr>\<rparr>) ps A x"
    (is "life_inv m ?t ps A x")
proof -
  have "inv_lists ?t ps" using assms by (intro inv_lists_cong [of ?t s]) (simp_all add: life_inv_def)
  moreover have "inv_refs ?t ps A x" using assms by (simp add: life_inv_def inv_refs_def refs_def)
  moreover have "inv_local ?t A" using assms by (intro inv_local_cong [of ?t s]) (simp_all add: life_inv_def)
  moreover have "inv_rest m ?t ps A"
    using assms rx_idle_cong [of "rx s" ps "rx ?t" ps] by (simp add: life_inv_def inv_rest_def)
  ultimately show ?thesis unfolding life_inv_def by iprover
qed

lemma peer_new_inv:
  assumes inv: "life_inv m s ps A x" and a: "length a = 6" and x: "\<And>p. x p < 2 ^ 31"
    and p: "p \<notin> set ps" "p \<notin> set (freed_peers s)" "x p = 0"
  shows "\<exists>t. peer_new m h p v a s = Some t \<and> life_inv m t (ps @ [p]) (insert p A) x \<and> freed_peers t = freed_peers s"
proof -
  define s3 where "s3 = peer_new_base p v a s"
  have s3: "life_inv m s3 (ps @ [p]) (insert p A) x" "freed_peers s3 = freed_peers s" "local_map s3 = local_map s"
    using peer_new_base_inv [OF inv a p, of v] unfolding s3_def by iprover+
  have a6: "length (take 6 a) = 6" using a by simp
  obtain s4 where s4: "ol_txrx_peer_state_update (take 6 a) ol_txrx_peer_state_disc s3 = Some s4"
    "life_inv m s4 (ps @ [p]) (insert p A) x" "freed_peers s4 = freed_peers s3" "local_map s4 = local_map s3"
    using state_update_inv [OF s3(1) a6 x] by blast
  define s5 where "s5 = (if m \<and> self_peer s4 = None then s4\<lparr>self_peer := Some p\<rparr> else s4)"
  have s5: "life_inv m s5 (ps @ [p]) (insert p A) x" "freed_peers s5 = freed_peers s" "local_map s5 = local_map s"
    using s4 s3 self_peer_inv [of s4 "ps @ [p]" "insert p A" x p] by (auto simp: s5_def)
  have "p \<notin> A" "inv_local s A" using inv p(1) by (auto simp: life_inv_def inv_refs_def)
  then have "\<forall>j < 34. local_map s5 ! j \<noteq> Some p" unfolding s5(3) inv_local_def by blast
  from local_alloc_inv [OF s5(1) insertI1 this] obtain s6 where
    s6: "OL_TXRX_LOCAL_PEER_ID_ALLOC p s5 = Some s6" "life_inv m s6 (ps @ [p]) (insert p A) x"
      "freed_peers s6 = freed_peers s5" by blast
  show ?thesis
    using history_inv [OF s6(2), of p h] s6(3) s5(2)
    by (simp add: peer_new_eq s3_def [symmetric] s4(1) s5_def [symmetric] s6(1))
qed

text \<open>\<open>b\<close> says whether the deletion of an older peer with the same address is signalled in time.\<close>

lemma attach_inv:
  assumes inv: "life_inv m s ps A x" and a: "length a = 6" and x: "\<And>p. x p < 2 ^ 31"
    and p: "p \<notin> set ps" "p \<notin> set (freed_peers s)" "x p = 0"
  shows "\<exists>r t. ol_txrx_peer_attach m (Pair b) (Some p) h v a s = Some (r, t) \<and> freed_peers t = freed_peers s \<and>
    (r = None \<and> life_inv m t ps A x \<or> r = Some p \<and> life_inv m t (ps @ [p]) (insert p A) x)"
proof -
  have "tailq_rep v (peer_list s) (filter (\<lambda>c. pi_vdev (pinfo s c) = Some v) ps)"
    using inv by (simp add: life_inv_def inv_lists_def)
  then have "lseg (tqe_next (peer_list s)) (tqh_first (peer_list s) v) (filter (\<lambda>c. pi_vdev (pinfo s c) = Some v) ps) None"
    by (simp add: tailq_rep_def)
  from dup_scan_rep [OF this, of v a False] obtain r where
    r: "dup_scan v a False (tqh_first (peer_list s) v) s = Some r"
      "same_peers s (case r of Inl t \<Rightarrow> t | Inr (_, t) \<Rightarrow> t)" by blast
  show ?thesis
  proof (cases r)
    case (Inl t)
    then show ?thesis
      using r life_inv_same [of s t] inv by (simp add: ol_txrx_peer_attach_def same_peers_def)
  next
    case (Inr wt)
    obtain w t where wt: "wt = (w, t)" by (cases wt)
    have t: "life_inv m t ps A x" "freed_peers t = freed_peers s"
      using r Inr wt life_inv_same [of s t] inv by (simp_all add: same_peers_def)
    show ?thesis
    proof (cases "w \<and> \<not> b")
      case True
      let ?u = "upd_vdev v (\<lambda>i. i\<lparr>vd_wait_on_peer_id := OL_TXRX_INVALID_LOCAL_PEER_ID\<rparr>) t"
      have "life_inv m ?u ps A x" "freed_peers ?u = freed_peers s"
        using life_inv_same [OF same_peers_wait(2) t(1)] t(2) by (simp_all add: upd_vdev_def)
      then show ?thesis using True r(1) Inr wt by (simp add: ol_txrx_peer_attach_def)
    next
      case False
      have "p \<notin> set (freed_peers t)" using p(2) t(2) by simp
      from peer_new_inv [OF t(1) a x p(1) this p(3), of h v]
      show ?thesis using False r(1) Inr wt t(2) by (auto simp: ol_txrx_peer_attach_def)
    qed
  qed
qed

end
