(* ===== verification/Peer_Reach.thy ===== *)
theory Peer_Reach
  imports Peer_Life_Props
begin

text \<open>
  The peers of a device over any history of events: attachments and detachments by the host, map and
  unmap messages of the target, and lookups whose callers give the reference back later.  The events
  are the steps of a relation over the device and a record of who may still refer to what.
\<close>

section \<open>Steps\<close>

text \<open>
  \<open>known\<close> are the peers ever attached, \<open>attached\<close> those the host has not detached, \<open>held p\<close> the
  references to \<open>p\<close> that lookups gave out.  The three are what the callers know; no operation reads
  them.
\<close>

record peer_sys =
  dev :: pdev_state
  known :: "peer set"
  attached :: "peer set"
  held :: "peer \<Rightarrow> nat"

text \<open>
  The callers' side of the contract: memory that is new, a target id that is inside the map and not in
  use, a detachment of an attached peer, a release of a reference that is held, and fewer than 2^31
  held references.
\<close>

inductive peer_step :: "rx_proc \<Rightarrow> bool \<Rightarrow> peer_sys \<Rightarrow> peer_sys \<Rightarrow> bool" for opt m where
  attach: "p \<notin> known c \<Longrightarrow> length a = 6 \<Longrightarrow>
    ol_txrx_peer_attach m (Pair in_time) (Some p) h v a (dev c) = Some (r, t) \<Longrightarrow>
    peer_step opt m c (if r = Some p then c\<lparr>dev := t, known := insert p (known c), attached := insert p (attached c)\<rparr>
                       else c\<lparr>dev := t\<rparr>)"
| map_id: "unat i < length (peer_id_map (rx (dev c))) \<Longrightarrow> peer_id_map (rx (dev c)) ! unat i = None \<Longrightarrow>
    length a = 6 \<Longrightarrow> ol_rx_peer_map_handler opt m i a (dev c) = Some t \<Longrightarrow> peer_step opt m c (c\<lparr>dev := t\<rparr>)"
| unmap_id: "unat i < length (peer_id_map (rx (dev c))) \<Longrightarrow>
    ol_rx_peer_unmap_handler opt m i (dev c) = Some t \<Longrightarrow> peer_step opt m c (c\<lparr>dev := t\<rparr>)"
| detach: "p \<in> attached c \<Longrightarrow> ol_txrx_peer_detach opt m p (dev c) = Some t \<Longrightarrow>
    peer_step opt m c (c\<lparr>dev := t, attached := attached c - {p}\<rparr>)"
| lookup: "length a = 6 \<Longrightarrow> ol_txrx_peer_find_hash_find a v (dev c) = Some (Some p, t) \<Longrightarrow> held c p + 1 < 2 ^ 31 \<Longrightarrow>
    peer_step opt m c (c\<lparr>dev := t, held := (held c)(p := held c p + 1)\<rparr>)"
| release: "0 < held c p \<Longrightarrow> ol_txrx_peer_unref_delete opt m p (dev c) = Some t \<Longrightarrow>
    peer_step opt m c (c\<lparr>dev := t, held := (held c)(p := held c p - 1)\<rparr>)"

text \<open>A device whose tables have just been allocated.\<close>

definition peer_start :: "u32 \<Rightarrow> pdev_state \<Rightarrow> peer_sys \<Rightarrow> bool" where
  "peer_start max_id s c \<longleftrightarrow> ol_txrx_peer_find_attach True True max_id s = (True, dev c) \<and>
     unat max_id < 0xffff \<and> waitlist_rep (rx s) [] \<and> freed_peers s = [] \<and> self_peer s = None \<and>
     (\<forall>v. tailq_rep v (peer_list s) [] \<and> vd_last_real_peer (vinfo s v) = None) \<and>
     known c = {} \<and> attached c = {} \<and> held c = (\<lambda>_. 0)"

inductive peer_reach :: "rx_proc \<Rightarrow> bool \<Rightarrow> u32 \<Rightarrow> pdev_state \<Rightarrow> peer_sys \<Rightarrow> bool" for opt m max_id s where
  start: "peer_start max_id s c \<Longrightarrow> peer_reach opt m max_id s (c\<lparr>dev := OL_TXRX_LOCAL_PEER_ID_POOL_INIT (dev c)\<rparr>)"
| step: "peer_reach opt m max_id s c \<Longrightarrow> peer_step opt m c d \<Longrightarrow> peer_reach opt m max_id s d"

section \<open>The invariant of the history\<close>

text \<open>The two reasons for a peer to live that a freed one has lost for good.\<close>

definition unreferenced :: "pdev_state \<Rightarrow> peer set \<Rightarrow> (peer \<Rightarrow> nat) \<Rightarrow> peer \<Rightarrow> bool" where
  "unreferenced s A x p \<longleftrightarrow> p \<notin> A \<and> hd (pi_peer_ids (pinfo s p)) \<noteq> HTT_INVALID_PEER \<and>
     Some p \<notin> set (peer_id_map (rx s)) \<and> x p = 0"

definition sys_inv :: "bool \<Rightarrow> peer_sys \<Rightarrow> peer list \<Rightarrow> bool" where
  "sys_inv m c ps \<longleftrightarrow> life_inv m (dev c) ps (attached c) (held c) \<and>
     known c = set ps \<union> set (freed_peers (dev c)) \<and> (\<forall>p. held c p < 2 ^ 31) \<and>
     (\<forall>p. p \<notin> set ps \<longrightarrow> held c p = 0) \<and>
     (\<forall>p \<in> set (freed_peers (dev c)). hd (pi_peer_ids (pinfo (dev c) p)) \<noteq> HTT_INVALID_PEER)"

lemma refs_zero: "refs s A x p = 0 \<longleftrightarrow> unreferenced s A x p"
  by (auto simp: refs_def unreferenced_def count_list_0_iff)

text \<open>No operation but the attachment and the map handler writes the ids of a peer.\<close>

lemma peer_delete_ids: "peer_delete opt m p v s = Some t \<Longrightarrow> pi_peer_ids (pinfo t c) = pi_peer_ids (pinfo s c)"
  by (auto simp: peer_delete_def Let_def ol_txrx_peer_find_hash_remove_def vdev_delete_if_last_def vdev_wakeup_def
      upd_peer_def upd_vdev_def split: option.splits if_splits)

lemma unref_ids:
  "ol_txrx_peer_unref_delete opt m p s = Some t \<Longrightarrow> pi_peer_ids (pinfo t c) = pi_peer_ids (pinfo s c)"
  by (auto simp: ol_txrx_peer_unref_delete_def Let_def ref_dec_def split: option.splits if_splits dest: peer_delete_ids)

lemma unmap_ids:
  "ol_rx_peer_unmap_handler opt m i s = Some t \<Longrightarrow> pi_peer_ids (pinfo t c) = pi_peer_ids (pinfo s c)"
  by (auto simp: ol_rx_peer_unmap_handler_def Let_def split: option.splits if_splits dest: unref_ids [where c = c])

lemma free_keeps_pinfo: "OL_TXRX_LOCAL_PEER_ID_FREE p s = Some t \<Longrightarrow> pinfo t = pinfo s"
  by (auto simp: OL_TXRX_LOCAL_PEER_ID_FREE_def Let_def split: option.splits if_splits)

lemma detach_ids:
  "ol_txrx_peer_detach opt m p s = Some t \<Longrightarrow> pi_peer_ids (pinfo t c) = pi_peer_ids (pinfo s c)"
  by (auto simp: ol_txrx_peer_detach_def Let_def upd_vdev_def split: option.splits if_splits
      dest!: unref_ids [where c = c] free_keeps_pinfo)

lemma add_id_hd: "hd ids \<noteq> HTT_INVALID_PEER \<Longrightarrow> hd (fst (add_id_at i ids)) = hd ids"
  by (cases ids) (auto simp: case_prod_beta)

lemma find_ids:
  "ol_txrx_peer_find_hash_find a v s = Some (r, t) \<Longrightarrow> pi_peer_ids (pinfo t c) = pi_peer_ids (pinfo s c)"
  by (auto simp: ol_txrx_peer_find_hash_find_def ref_inc_def split: option.splits)

lemma map_ids:
  assumes "ol_rx_peer_map_handler opt m i a s = Some t" and "hd (pi_peer_ids (pinfo s c)) \<noteq> HTT_INVALID_PEER"
  shows "hd (pi_peer_ids (pinfo t c)) \<noteq> HTT_INVALID_PEER"
proof -
  obtain r s1 where f: "ol_txrx_peer_find_hash_find a False s = Some (r, s1)"
    using assms(1) by (auto simp: ol_rx_peer_map_handler_def ol_txrx_peer_find_add_id_def split: option.splits)
  have s1: "hd (pi_peer_ids (pinfo s1 c)) \<noteq> HTT_INVALID_PEER" using assms(2) find_ids [OF f] by simp
  show ?thesis
  proof (cases r)
    case None
    then show ?thesis
      using assms(1) s1 f by (simp add: ol_rx_peer_map_handler_def ol_txrx_peer_find_add_id_def)
  next
    case (Some p)
    with assms(1) f obtain mp s3 where
      s3: "s3 = s1\<lparr>rx := (rx s1)\<lparr>peer_id_map := mp\<rparr>\<rparr> \<or>
          ol_txrx_peer_unref_delete opt m p (s1\<lparr>rx := (rx s1)\<lparr>peer_id_map := mp\<rparr>\<rparr>) = Some s3"
        "t = fst (ol_txrx_peer_find_add_id_to_obj p i s3)"
      by (auto simp: ol_rx_peer_map_handler_def ol_txrx_peer_find_add_id_def Let_def split: option.splits list.splits if_splits)
    then have "pi_peer_ids (pinfo s3 c) = pi_peer_ids (pinfo s1 c)" by (auto dest: unref_ids [where c = c])
    then show ?thesis
      using s1 s3(2) add_id_hd by (auto simp: ol_txrx_peer_find_add_id_to_obj_def case_prod_beta)
  qed
qed

lemma dup_scan_pinfo:
  assumes "dup_scan v a w cur s = Some r"
  shows "pinfo (case r of Inl t \<Rightarrow> t | Inr (_, t) \<Rightarrow> t) = pinfo s"
proof (rule dup_scan.raw_induct [OF _ assms])
  fix f :: "vdev \<Rightarrow> mac_addr \<Rightarrow> bool \<Rightarrow> peer option \<Rightarrow> pdev_state \<Rightarrow> (pdev_state + bool \<times> pdev_state) option"
    and v a w cur s r
  assume IH: "\<And>v a w cur s r. f v a w cur s = Some r \<Longrightarrow> pinfo (case r of Inl t \<Rightarrow> t | Inr (_, t) \<Rightarrow> t) = pinfo s"
  assume "(case cur of
        None \<Rightarrow> Some (Inr (w, s))
      | Some c \<Rightarrow>
          (if ol_txrx_peer_find_mac_addr_cmp (pi_mac_addr (pinfo s c)) a = 0
           then if pi_delete_in_progress (pinfo s c)
                then f v a True (tqe_next (peer_list s) c)
                       (upd_vdev v (\<lambda>i. i\<lparr>vd_wait_on_peer_id := pr_local_id (peers (rx s) c),
                                          vd_wait_delete_comp := False\<rparr>) s)
                else Some (Inl s)
           else f v a w (tqe_next (peer_list s) c) s)) = Some r"
  then show "pinfo (case r of Inl t \<Rightarrow> t | Inr (_, t) \<Rightarrow> t) = pinfo s"
    by (auto simp: upd_vdev_def split: option.splits if_splits dest!: IH)
qed

lemma state_update_ids:
  "ol_txrx_peer_state_update a st s = Some t \<Longrightarrow> pi_peer_ids (pinfo t c) = pi_peer_ids (pinfo s c)"
proof -
  assume "ol_txrx_peer_state_update a st s = Some t"
  then obtain r s1 where f: "ol_txrx_peer_find_hash_find a True s = Some (r, s1)"
    and "case r of None \<Rightarrow> t = s1 | Some p \<Rightarrow> pi_peer_ids (pinfo t c) = pi_peer_ids (pinfo s1 c)"
    by (cases "ol_txrx_peer_find_hash_find a True s")
      (auto simp: ol_txrx_peer_state_update_def Let_def ref_dec_def split: option.splits if_splits)
  then show ?thesis using find_ids [OF f, of c] by (simp split: option.splits)
qed

lemma alloc_pinfo: "OL_TXRX_LOCAL_PEER_ID_ALLOC p s = Some t \<Longrightarrow> pinfo t = pinfo s"
  by (auto simp: OL_TXRX_LOCAL_PEER_ID_ALLOC_def Let_def set_local_id_def split: option.splits if_splits)

lemma base_pinfo: "c \<noteq> p \<Longrightarrow> pinfo (peer_new_base p v a s) c = pinfo s c"
  by (simp add: peer_new_base_def Let_def ol_txrx_peer_find_hash_add_def upd_vdev_def)

lemma new_ids:
  assumes "peer_new m h p v a s = Some t" and "c \<noteq> p"
  shows "pi_peer_ids (pinfo t c) = pi_peer_ids (pinfo s c)"
  using assms base_pinfo [OF assms(2)]
  by (auto simp: peer_new_eq split: option.splits if_splits dest!: state_update_ids [where c = c] alloc_pinfo)

lemma attach_ids:
  assumes "ol_txrx_peer_attach m (Pair b) (Some p) h v a s = Some (r, t)" and "c \<noteq> p"
  shows "pi_peer_ids (pinfo t c) = pi_peer_ids (pinfo s c)"
  using assms
  by (auto simp: ol_txrx_peer_attach_def upd_vdev_def split: option.splits sum.splits if_splits
      dest!: dup_scan_pinfo new_ids [OF _ assms(2)])

section \<open>Every step keeps the invariant\<close>

lemma sys_invD:
  assumes "sys_inv m c ps"
  shows "life_inv m (dev c) ps (attached c) (held c)" "known c = set ps \<union> set (freed_peers (dev c))"
    "held c p < 2 ^ 31" "p \<notin> set ps \<Longrightarrow> held c p = 0"
    "p \<in> set (freed_peers (dev c)) \<Longrightarrow> hd (pi_peer_ids (pinfo (dev c) p)) \<noteq> HTT_INVALID_PEER"
  using assms by (simp_all add: sys_inv_def)

lemma attached_live: "sys_inv m c ps \<Longrightarrow> attached c \<subseteq> set ps"
  by (simp add: sys_inv_def life_inv_def inv_refs_def)

lemma held_live: "sys_inv m c ps \<Longrightarrow> 0 < held c p \<Longrightarrow> p \<in> set ps"
  using sys_invD(4) by (metis less_irrefl)

lemma live_distinct: "life_inv m s ps A x \<Longrightarrow> distinct ps"
  by (simp add: life_inv_def inv_lists_def peer_hash_rep_def)

text \<open>A step that drops a reference, and frees the peer when it was the last one.\<close>

lemma sys_inv_drop:
  assumes inv: "sys_inv m c ps" and life: "life_inv m t ps' B y" and p: "p \<in> set ps"
    and gone: "(ps', freed_peers t) = (if K then (remove1 p ps, freed_peers (dev c) @ [p]) else (ps, freed_peers (dev c)))"
    and K: "K \<Longrightarrow> y p = 0 \<and> hd (pi_peer_ids (pinfo (dev c) p)) \<noteq> HTT_INVALID_PEER"
    and ids: "\<And>q. pi_peer_ids (pinfo t q) = pi_peer_ids (pinfo (dev c) q)"
    and y: "\<And>q. y q \<le> held c q" and upto: "d = c\<lparr>dev := t, attached := B, held := y\<rparr>"
  shows "\<exists>ps'. sys_inv m d ps'"
proof -
  have dist: "distinct ps" by (rule live_distinct [OF sys_invD(1) [OF inv]])
  have yy: "y q < 2 ^ 31" for q using y [of q] sys_invD(3) [OF inv, of q] by simp
  show ?thesis
  proof (cases K)
    case True
    then have eq: "ps' = remove1 p ps" "freed_peers t = freed_peers (dev c) @ [p]" using gone by simp_all
    then have set: "set ps' = set ps - {p}" using dist by simp
    have "y q = 0" if "q \<notin> set ps'" for q
    proof (cases "q = p")
      case True
      then show ?thesis using K \<open>K\<close> by simp
    next
      case False
      then have "held c q = 0" using that set sys_invD(4) [OF inv] by simp
      then show ?thesis using y [of q] by simp
    qed
    moreover have "hd (pi_peer_ids (pinfo t q)) \<noteq> HTT_INVALID_PEER" if "q \<in> set (freed_peers t)" for q
      using that sys_invD(5) [OF inv, of q] K True by (auto simp: eq ids)
    ultimately have "sys_inv m d ps'"
      using life yy sys_invD(2) [OF inv] p set by (auto simp: sys_inv_def upto eq(2))
    then show ?thesis ..
  next
    case False
    then have eq: "ps' = ps" "freed_peers t = freed_peers (dev c)" using gone by simp_all
    have "y q = 0" if "q \<notin> set ps" for q using y [of q] sys_invD(4) [OF inv that] by simp
    then have "sys_inv m d ps"
      using life yy sys_invD(2,5) [OF inv] by (simp add: sys_inv_def upto eq ids)
    then show ?thesis ..
  qed
qed

lemma release_step:
  assumes inv: "sys_inv m c ps" and p: "0 < held c p"
  shows "\<exists>t. ol_txrx_peer_unref_delete opt m p (dev c) = Some t \<and>
    peer_id_map (rx t) = peer_id_map (rx (dev c)) \<and>
    (\<exists>ps'. sys_inv m (c\<lparr>dev := t, held := (held c)(p := held c p - 1)\<rparr>) ps')"
proof -
  obtain n where n: "held c p = Suc n" using p by (cases "held c p") auto
  have live: "p \<in> set ps" by (rule held_live [OF inv p])
  obtain t ps' where t: "ol_txrx_peer_unref_delete opt m p (dev c) = Some t"
    "life_inv m t ps' (attached c) ((held c)(p := n))"
    "(ps', freed_peers t) = (if refs (dev c) (attached c) ((held c)(p := n)) p = 0
       then (remove1 p ps, freed_peers (dev c) @ [p]) else (ps, freed_peers (dev c)))"
    "peer_id_map (rx t) = peer_id_map (rx (dev c))"
    using unref_inv [OF sys_invD(1) [OF inv] live n, of opt] by blast
  have "\<exists>ps'. sys_inv m (c\<lparr>dev := t, attached := attached c, held := (held c)(p := n)\<rparr>) ps'"
    using n by (intro sys_inv_drop [OF inv t(2) live t(3) _ unref_ids [OF t(1)] _ refl])
      (simp_all add: refs_zero unreferenced_def)
  then show ?thesis using t(1,4) n by simp
qed

lemma detach_step:
  assumes inv: "sys_inv m c ps" and p: "p \<in> attached c"
  shows "\<exists>t. ol_txrx_peer_detach opt m p (dev c) = Some t \<and>
    peer_id_map (rx t) = peer_id_map (rx (dev c)) \<and>
    (\<exists>ps'. sys_inv m (c\<lparr>dev := t, attached := attached c - {p}\<rparr>) ps')"
proof -
  have live: "p \<in> set ps" using attached_live [OF inv] p by blast
  obtain t ps' where t: "ol_txrx_peer_detach opt m p (dev c) = Some t"
    "life_inv m t ps' (attached c - {p}) (held c)"
    "(ps', freed_peers t) = (if refs (dev c) (attached c) (held c) p = 1
       then (remove1 p ps, freed_peers (dev c) @ [p]) else (ps, freed_peers (dev c)))"
    "peer_id_map (rx t) = peer_id_map (rx (dev c))"
    using detach_inv [OF sys_invD(1) [OF inv] p, of opt] by blast
  have "refs (dev c) (attached c) (held c) p = 1 \<Longrightarrow> held c p = 0 \<and> hd (pi_peer_ids (pinfo (dev c) p)) \<noteq> HTT_INVALID_PEER"
    using p by (simp add: refs_def)
  then have "\<exists>ps'. sys_inv m (c\<lparr>dev := t, attached := attached c - {p}, held := held c\<rparr>) ps'"
    by (intro sys_inv_drop [OF inv t(2) live t(3) _ detach_ids [OF t(1)] _ refl]) simp_all
  then show ?thesis using t(1,4) by simp
qed

lemma lookup_step:
  assumes inv: "sys_inv m c ps" and a: "length a = 6" and f: "ol_txrx_peer_find_hash_find a v (dev c) = Some (Some p, t)"
    and h: "held c p + 1 < 2 ^ 31"
  shows "sys_inv m (c\<lparr>dev := t, held := (held c)(p := held c p + 1)\<rparr>) ps"
proof -
  have t: "p \<in> set ps" "t = ref_inc p (dev c)" "life_inv m t ps (attached c) ((held c)(p := held c p + 1))"
    using find_inv [OF sys_invD(1) [OF inv] a sys_invD(3) [OF inv], of v] f by auto
  moreover have "freed_peers t = freed_peers (dev c)" by (simp add: t(2) ref_inc_def)
  ultimately show ?thesis
    using inv h find_ids [OF f] by (auto simp: sys_inv_def)
qed

lemma map_step:
  assumes inv: "sys_inv m c ps" and a: "length a = 6"
    and i: "unat i < length (peer_id_map (rx (dev c)))" "peer_id_map (rx (dev c)) ! unat i = None"
  shows "\<exists>t. ol_rx_peer_map_handler opt m i a (dev c) = Some t \<and> sys_inv m (c\<lparr>dev := t\<rparr>) ps"
proof -
  obtain t where t: "ol_rx_peer_map_handler opt m i a (dev c) = Some t"
    "life_inv m t ps (attached c) (held c)" "freed_peers t = freed_peers (dev c)"
    using map_inv [OF sys_invD(1) [OF inv] a sys_invD(3) [OF inv] i, of opt] by blast
  then show ?thesis using inv map_ids [OF t(1)] by (auto simp: sys_inv_def)
qed

lemma unmap_step:
  assumes inv: "sys_inv m c ps" and i: "unat i < length (peer_id_map (rx (dev c)))"
  shows "\<exists>t. ol_rx_peer_unmap_handler opt m i (dev c) = Some t \<and>
    peer_id_map (rx t) = (peer_id_map (rx (dev c)))[unat i := None] \<and> (\<exists>ps'. sys_inv m (c\<lparr>dev := t\<rparr>) ps')"
proof -
  let ?e = "peer_id_map (rx (dev c)) ! unat i"
  obtain t ps' where t: "ol_rx_peer_unmap_handler opt m i (dev c) = Some t" "life_inv m t ps' (attached c) (held c)"
    "(ps', freed_peers t) = (case ?e of
         Some p \<Rightarrow> if refs (dev c) (attached c) (held c) p = 1 then (remove1 p ps, freed_peers (dev c) @ [p]) else (ps, freed_peers (dev c))
       | None \<Rightarrow> (ps, freed_peers (dev c)))"
    "peer_id_map (rx t) = (peer_id_map (rx (dev c)))[unat i := None]"
    using unmap_inv [OF sys_invD(1) [OF inv] i, of opt] by blast
  have "\<exists>ps'. sys_inv m (c\<lparr>dev := t\<rparr>) ps'"
  proof (cases ?e)
    case None
    then show ?thesis using t inv unmap_ids [OF t(1)] by (auto simp: sys_inv_def)
  next
    case (Some p)
    then have mem: "Some p \<in> set (peer_id_map (rx (dev c)))" using i by (metis nth_mem)
    then have live: "p \<in> set ps" using sys_invD(1) [OF inv] by (simp add: life_inv_def inv_refs_def)
    have "count_list (peer_id_map (rx (dev c))) (Some p) \<noteq> 0" using mem by (simp add: count_list_0_iff)
    then have "refs (dev c) (attached c) (held c) p = 1 \<Longrightarrow>
        held c p = 0 \<and> hd (pi_peer_ids (pinfo (dev c) p)) \<noteq> HTT_INVALID_PEER"
      by (auto simp: refs_def of_bool_def split: if_splits)
    moreover have "(ps', freed_peers t) = (if refs (dev c) (attached c) (held c) p = 1
       then (remove1 p ps, freed_peers (dev c) @ [p]) else (ps, freed_peers (dev c)))"
      using t(3) Some by simp
    ultimately have "\<exists>ps'. sys_inv m (c\<lparr>dev := t, attached := attached c, held := held c\<rparr>) ps'"
      by (intro sys_inv_drop [OF inv t(2) live, where K = "refs (dev c) (attached c) (held c) p = 1",
            OF _ _ unmap_ids [OF t(1)] _ refl]) simp_all
    then show ?thesis by simp
  qed
  then show ?thesis using t(1,4) by blast
qed

lemma attach_step:
  assumes inv: "sys_inv m c ps" and a: "length a = 6" and p: "p \<notin> known c"
  shows "\<exists>r t. ol_txrx_peer_attach m (Pair b) (Some p) h v a (dev c) = Some (r, t) \<and>
    (\<exists>ps'. sys_inv m (if r = Some p then c\<lparr>dev := t, known := insert p (known c), attached := insert p (attached c)\<rparr>
                       else c\<lparr>dev := t\<rparr>) ps')"
proof -
  have new: "p \<notin> set ps" "p \<notin> set (freed_peers (dev c))" using p sys_invD(2) [OF inv] by simp_all
  then have "held c p = 0" using sys_invD(4) [OF inv] by simp
  from attach_inv [OF sys_invD(1) [OF inv] a sys_invD(3) [OF inv] new this, of b h v]
  obtain r t where t: "ol_txrx_peer_attach m (Pair b) (Some p) h v a (dev c) = Some (r, t)"
    "freed_peers t = freed_peers (dev c)"
    "r = None \<and> life_inv m t ps (attached c) (held c) \<or>
     r = Some p \<and> life_inv m t (ps @ [p]) (insert p (attached c)) (held c)" by blast
  have ids: "pi_peer_ids (pinfo t q) = pi_peer_ids (pinfo (dev c) q)" if "q \<in> set (freed_peers (dev c))" for q
    using attach_ids [OF t(1), of q] that new(2) by blast
  show ?thesis
    using t(3)
  proof
    assume r: "r = None \<and> life_inv m t ps (attached c) (held c)"
    then have "sys_inv m (c\<lparr>dev := t\<rparr>) ps" using inv ids by (simp add: sys_inv_def t(2))
    then show ?thesis using t(1) r by auto
  next
    assume r: "r = Some p \<and> life_inv m t (ps @ [p]) (insert p (attached c)) (held c)"
    then have "sys_inv m (c\<lparr>dev := t, known := insert p (known c), attached := insert p (attached c)\<rparr>) (ps @ [p])"
      using inv ids by (auto simp: sys_inv_def t(2))
    then show ?thesis using t(1) r by auto
  qed
qed

lemma step_inv:
  assumes "peer_step opt m c d" and "sys_inv m c ps"
  shows "\<exists>ps'. sys_inv m d ps'"
  using assms
proof (induction rule: peer_step.induct)
  case (attach p c a in_time h v r t)
  then show ?case using attach_step [OF attach(4,2,1), of in_time h v] by auto
next
  case (map_id i c a t)
  then show ?case using map_step [OF map_id(5,3,1,2), of opt] by auto
next
  case (unmap_id i c t)
  then show ?case using unmap_step [OF unmap_id(3,1), of opt] by auto
next
  case (detach p c t)
  then show ?case using detach_step [OF detach(3,1), of opt] by auto
next
  case (lookup a v c p t)
  then show ?case using lookup_step [OF lookup(4,1,2,3)] by blast
next
  case (release c p t)
  then show ?case using release_step [OF release(3,1), of opt] by auto
qed

lemma pool_init_local: "inv_local (OL_TXRX_LOCAL_PEER_ID_POOL_INIT s) {}"
proof -
  have "unat n \<le> 34" if "n \<in> set (local_pool (OL_TXRX_LOCAL_PEER_ID_POOL_INIT s))" for n
  proof -
    have "\<exists>k \<le> 34. n = of_nat k"
    proof (cases "n = 34")
      case True
      then show ?thesis by (intro exI [of _ 34]) simp
    next
      case False
      then have "\<exists>i < 34. n = 1 + of_nat i"
        using that by (auto simp: OL_TXRX_LOCAL_PEER_ID_POOL_INIT_def OL_TXRX_NUM_LOCAL_PEER_IDS_def)
      then obtain i where "i < 34" "n = 1 + of_nat i" by blast
      then show ?thesis by (intro exI [of _ "i + 1"]) simp
    qed
    then show ?thesis by (auto simp: unsigned_of_nat take_bit_nat_eq_self simp del: of_nat_add of_nat_Suc)
  qed
  then show ?thesis
    unfolding inv_local_def
    by (simp add: OL_TXRX_LOCAL_PEER_ID_POOL_INIT_def OL_TXRX_NUM_LOCAL_PEER_IDS_def nth_append)
qed

lemma start_inv:
  assumes "peer_start max_id s c"
  shows "sys_inv m (c\<lparr>dev := OL_TXRX_LOCAL_PEER_ID_POOL_INIT (dev c)\<rparr>) []"
proof -
  define s1 where "s1 = s\<lparr>rx := (rx s)\<lparr>peer_id_map := replicate (unat max_id + 1) None\<rparr>\<rparr>"
  have lt: "unat max_id < 2 ^ 30" using assms by (simp add: peer_start_def)
  from hash_attach_rep [OF this] obtain s2 where s2: "ol_txrx_peer_find_hash_attach True max_id s1 = Some s2"
    "peer_hash_rep s2 []" by blast
  have dev: "dev c = s2"
    using assms s2(1) by (simp add: peer_start_def ol_txrx_peer_find_attach_def ol_txrx_peer_find_map_attach_def s1_def)
  have f: "rx s2 = rx s1" "peer_list s2 = peer_list s" "freed_peers s2 = freed_peers s" "self_peer s2 = self_peer s"
    "vinfo s2 = vinfo s"
    using s2(1) by (auto simp: ol_txrx_peer_find_hash_attach_def Let_def s1_def)
  let ?t = "OL_TXRX_LOCAL_PEER_ID_POOL_INIT s2"
  have g: "rx ?t = rx s2" "peer_list ?t = peer_list s2" "freed_peers ?t = freed_peers s2" "self_peer ?t = self_peer s2"
    "vinfo ?t = vinfo s2" "hash_mask ?t = hash_mask s2" "hash_idx_bits ?t = hash_idx_bits s2" "hash_bins ?t = hash_bins s2"
    by (simp_all add: OL_TXRX_LOCAL_PEER_ID_POOL_INIT_def)
  have "inv_lists ?t []"
    using assms s2(2) hash_rep_cong [of ?t s2 "[]"] by (simp add: inv_lists_def g f peer_start_def)
  moreover have "inv_refs ?t [] {} (\<lambda>_. 0)"
    using assms by (simp add: inv_refs_def g f s1_def peer_start_def set_replicate_conv_if)
  moreover have "inv_rest m ?t [] {}"
    using assms by (simp add: inv_rest_def g f s1_def peer_start_def rx_idle_def waitlist_rep_def)
  ultimately have "life_inv m ?t [] {} (\<lambda>_. 0)" unfolding life_inv_def using pool_init_local by blast
  then show ?thesis using assms by (simp add: sys_inv_def dev g f peer_start_def)
qed

lemma reach_inv: "peer_reach opt m max_id s c \<Longrightarrow> \<exists>ps. sys_inv m c ps"
proof (induction rule: peer_reach.induct)
  case (start c)
  then show ?case using start_inv by blast
next
  case (step c d)
  then show ?case using step_inv by blast
qed

section \<open>Properties\<close>

text \<open>
  C26. No event finds a corrupted table: in every state that can be reached, an attachment, a map or
  unmap message for an id of the map, a detachment, a lookup and a release all run to their end, without
  an access outside an array or through a null pointer.
\<close>

theorem peer_events_run:
  assumes "peer_reach opt m max_id s c" and "length a = 6"
  shows "(p \<notin> known c \<longrightarrow> ol_txrx_peer_attach m (Pair b) (Some p) h v a (dev c) \<noteq> None) \<and>
    (unat i < length (peer_id_map (rx (dev c))) \<longrightarrow> ol_rx_peer_unmap_handler opt m i (dev c) \<noteq> None \<and>
       (peer_id_map (rx (dev c)) ! unat i = None \<longrightarrow> ol_rx_peer_map_handler opt m i a (dev c) \<noteq> None)) \<and>
    (p \<in> attached c \<longrightarrow> ol_txrx_peer_detach opt m p (dev c) \<noteq> None) \<and>
    ol_txrx_peer_find_hash_find a w (dev c) \<noteq> None \<and>
    (0 < held c p \<longrightarrow> ol_txrx_peer_unref_delete opt m p (dev c) \<noteq> None)"
proof -
  obtain ps where inv: "sys_inv m c ps" using reach_inv [OF assms(1)] by blast
  show ?thesis
  proof (intro conjI impI)
    show "ol_txrx_peer_attach m (Pair b) (Some p) h v a (dev c) \<noteq> None" if "p \<notin> known c"
      using attach_step [OF inv assms(2) that, of b h v] by force
    show "ol_rx_peer_unmap_handler opt m i (dev c) \<noteq> None" if "unat i < length (peer_id_map (rx (dev c)))"
      using unmap_step [OF inv that, of opt] by force
    show "ol_rx_peer_map_handler opt m i a (dev c) \<noteq> None"
      if "unat i < length (peer_id_map (rx (dev c)))" "peer_id_map (rx (dev c)) ! unat i = None"
      using map_step [OF inv assms(2) that, of opt] by force
    show "ol_txrx_peer_detach opt m p (dev c) \<noteq> None" if "p \<in> attached c"
      using detach_step [OF inv that, of opt] by force
    show "ol_txrx_peer_find_hash_find a w (dev c) \<noteq> None"
      using find_inv [OF sys_invD(1) [OF inv] assms(2) sys_invD(3) [OF inv], of w] by force
    show "ol_txrx_peer_unref_delete opt m p (dev c) \<noteq> None" if "0 < held c p"
      using release_step [OF inv that, of opt] by force
  qed
qed

text \<open>
  C6. No dangling pointer and no double free: no peer is freed twice, and in every reachable state the
  id map, the address table, the peer lists of the virtual devices, the local ids, the device's last
  peer and the monitor's own peer name only peers that were attached and have not been freed.
\<close>

theorem peer_pointers_live:
  assumes "peer_reach opt m max_id s c"
  shows "distinct (freed_peers (dev c)) \<and>
    (\<forall>p. Some p \<in> set (peer_id_map (rx (dev c))) \<or>
         (\<exists>a w t. length a = 6 \<and> ol_txrx_peer_find_hash_find a w (dev c) = Some (Some p, t)) \<or>
         (\<exists>v. vd_last_real_peer (vinfo (dev c) v) = Some p \<or> tqh_first (peer_list (dev c)) v = Some p) \<or>
         (\<exists>i. ol_txrx_peer_find_by_local_id i (dev c) = Some (Some p)) \<or> self_peer (dev c) = Some p
       \<longrightarrow> p \<in> known c - set (freed_peers (dev c)))"
proof -
  obtain ps where inv: "sys_inv m c ps" using reach_inv [OF assms] by blast
  have life: "life_inv m (dev c) ps (attached c) (held c)" by (rule sys_invD(1) [OF inv])
  have live: "p \<in> known c - set (freed_peers (dev c))" if "p \<in> set ps" for p
    using that sys_invD(2) [OF inv] life by (auto simp: life_inv_def inv_rest_def)
  have "p \<in> set ps" if "Some p \<in> set (peer_id_map (rx (dev c)))" for p
    using life that by (simp add: life_inv_def inv_refs_def)
  moreover have "p \<in> set ps" if "length a = 6" "ol_txrx_peer_find_hash_find a w (dev c) = Some (Some p, t)" for a w p t
    using find_inv [OF life that(1) sys_invD(3) [OF inv], of w] that(2) by auto
  moreover have "p \<in> set ps" if "vd_last_real_peer (vinfo (dev c) v) = Some p" for v p
    using life that attached_live [OF inv] by (auto simp: life_inv_def inv_rest_def)
  moreover have "p \<in> set ps" if "tqh_first (peer_list (dev c)) v = Some p" for v p
  proof -
    have "tailq_rep v (peer_list (dev c)) (filter (\<lambda>p. pi_vdev (pinfo (dev c) p) = Some v) ps)"
      using life by (simp add: life_inv_def inv_lists_def)
    then show ?thesis using that by (cases "filter (\<lambda>p. pi_vdev (pinfo (dev c) p) = Some v) ps")
      (auto simp: tailq_rep_def filter_eq_Cons_iff)
  qed
  moreover have "p \<in> set ps" if "ol_txrx_peer_find_by_local_id i (dev c) = Some (Some p)" for i p
  proof -
    have loc: "inv_local (dev c) (attached c)" using life by (simp add: life_inv_def)
    from that have "unat i < 34" "local_map (dev c) ! unat i = Some p"
      by (auto simp: ol_txrx_peer_find_by_local_id_def load_at_def OL_TXRX_NUM_LOCAL_PEER_IDS_def split: if_splits)
    then have "p \<in> attached c" using loc unfolding inv_local_def by blast
    then show ?thesis using attached_live [OF inv] by blast
  qed
  moreover have "p \<in> set ps" if "self_peer (dev c) = Some p" for p
    using life that by (simp add: life_inv_def inv_rest_def)
  moreover have "distinct (freed_peers (dev c))" using life by (simp add: life_inv_def inv_rest_def)
  ultimately show ?thesis using live by blast
qed

text \<open>
  C5. The reference count is exact: a peer that is not freed has one reference while it is attached, one
  until its first id is mapped, one per id of the map and one per lookup not yet given back; and a peer
  that was attached has been freed exactly when all four are gone.
\<close>

theorem peer_ref_cnt_exact:
  assumes "peer_reach opt m max_id s c" and "p \<in> known c"
  shows "(p \<in> set (freed_peers (dev c)) \<longleftrightarrow>
      p \<notin> attached c \<and> hd (pi_peer_ids (pinfo (dev c) p)) \<noteq> HTT_INVALID_PEER \<and>
      Some p \<notin> set (peer_id_map (rx (dev c))) \<and> held c p = 0) \<and>
    (p \<notin> set (freed_peers (dev c)) \<longrightarrow> unat (pi_ref_cnt (pinfo (dev c) p)) =
      of_bool (p \<in> attached c) + of_bool (hd (pi_peer_ids (pinfo (dev c) p)) = HTT_INVALID_PEER) +
      count_list (peer_id_map (rx (dev c))) (Some p) + held c p)"
proof -
  obtain ps where inv: "sys_inv m c ps" using reach_inv [OF assms(1)] by blast
  have life: "life_inv m (dev c) ps (attached c) (held c)" by (rule sys_invD(1) [OF inv])
  show ?thesis
  proof (cases "p \<in> set (freed_peers (dev c))")
    case True
    then have out: "p \<notin> set ps" using life by (auto simp: life_inv_def inv_rest_def)
    then have "p \<notin> attached c" "Some p \<notin> set (peer_id_map (rx (dev c)))"
      using attached_live [OF inv] life by (auto simp: life_inv_def inv_refs_def)
    then show ?thesis using True out sys_invD(4,5) [OF inv] by simp
  next
    case False
    then have "p \<in> set ps" using assms(2) sys_invD(2) [OF inv] by simp
    then have r: "unat (pi_ref_cnt (pinfo (dev c) p)) = refs (dev c) (attached c) (held c) p"
      "\<not> unreferenced (dev c) (attached c) (held c) p"
      using life by (simp_all add: life_inv_def inv_refs_def flip: refs_zero)
    then show ?thesis using False by (simp add: refs_def unreferenced_def)
  qed
qed

fun unmap_each :: "rx_proc \<Rightarrow> bool \<Rightarrow> u16 list \<Rightarrow> pdev_state \<Rightarrow> pdev_state option" where
  "unmap_each opt m [] s = Some s"
| "unmap_each opt m (i # is) s = Option.bind (ol_rx_peer_unmap_handler opt m i s) (unmap_each opt m is)"

fun release_n :: "rx_proc \<Rightarrow> bool \<Rightarrow> peer \<Rightarrow> nat \<Rightarrow> pdev_state \<Rightarrow> pdev_state option" where
  "release_n opt m p 0 s = Some s"
| "release_n opt m p (Suc n) s = Option.bind (ol_txrx_peer_unref_delete opt m p s) (release_n opt m p n)"

lemma unmap_each_reach:
  assumes "peer_reach opt m max_id s c" and "\<forall>i \<in> set is. unat i < length (peer_id_map (rx (dev c)))"
  shows "\<exists>t. unmap_each opt m is (dev c) = Some t \<and> peer_reach opt m max_id s (c\<lparr>dev := t\<rparr>) \<and>
    (\<forall>p. pi_peer_ids (pinfo t p) = pi_peer_ids (pinfo (dev c) p)) \<and>
    length (peer_id_map (rx t)) = length (peer_id_map (rx (dev c))) \<and>
    (\<forall>k < length (peer_id_map (rx t)). peer_id_map (rx t) ! k =
      (if k \<in> unat ` set is then None else peer_id_map (rx (dev c)) ! k))"
  using assms
proof (induction "is" arbitrary: c)
  case Nil
  then show ?case by simp
next
  case (Cons i "is")
  obtain ps where inv: "sys_inv m c ps" using reach_inv [OF Cons.prems(1)] by blast
  have i: "unat i < length (peer_id_map (rx (dev c)))" using Cons.prems(2) by simp
  obtain t where t: "ol_rx_peer_unmap_handler opt m i (dev c) = Some t"
    "peer_id_map (rx t) = (peer_id_map (rx (dev c)))[unat i := None]"
    using unmap_step [OF inv i, of opt] by blast
  have "peer_reach opt m max_id s (c\<lparr>dev := t\<rparr>)"
    by (rule peer_reach.step [OF Cons.prems(1)]) (rule peer_step.unmap_id [OF i t(1)])
  from Cons.IH [OF this] Cons.prems(2) t(2) obtain u where
    u: "unmap_each opt m is t = Some u" "peer_reach opt m max_id s (c\<lparr>dev := u\<rparr>)"
      "\<forall>p. pi_peer_ids (pinfo u p) = pi_peer_ids (pinfo t p)"
      "length (peer_id_map (rx u)) = length (peer_id_map (rx (dev c)))"
      "\<forall>k < length (peer_id_map (rx u)). peer_id_map (rx u) ! k =
        (if k \<in> unat ` set is then None else (peer_id_map (rx (dev c)))[unat i := None] ! k)"
    by auto
  then show ?case
    using t(1) i unmap_ids [OF t(1)] by (intro exI [of _ u]) (auto simp: nth_list_update)
qed

lemma release_n_reach:
  assumes "peer_reach opt m max_id s c" and "held c p = n"
  shows "\<exists>t. release_n opt m p n (dev c) = Some t \<and> peer_reach opt m max_id s (c\<lparr>dev := t, held := (held c)(p := 0)\<rparr>) \<and>
    (\<forall>q. pi_peer_ids (pinfo t q) = pi_peer_ids (pinfo (dev c) q)) \<and> peer_id_map (rx t) = peer_id_map (rx (dev c))"
  using assms
proof (induction n arbitrary: c)
  case 0
  then have "c\<lparr>dev := dev c, held := (held c)(p := 0)\<rparr> = c" by (cases c) auto
  then show ?case using 0 by (simp del: fun_upd_apply fun_upd_def)
next
  case (Suc n)
  obtain ps where inv: "sys_inv m c ps" using reach_inv [OF Suc.prems(1)] by blast
  have pos: "0 < held c p" using Suc.prems(2) by simp
  obtain t where t: "ol_txrx_peer_unref_delete opt m p (dev c) = Some t" "peer_id_map (rx t) = peer_id_map (rx (dev c))"
    using release_step [OF inv pos, of opt] by blast
  define d where "d = c\<lparr>dev := t, held := (held c)(p := held c p - 1)\<rparr>"
  have "peer_reach opt m max_id s d"
    unfolding d_def by (rule peer_reach.step [OF Suc.prems(1)]) (rule peer_step.release [OF pos t(1)])
  moreover have "held d p = n" "dev d = t" using Suc.prems(2) by (simp_all add: d_def)
  moreover have "d\<lparr>dev := u, held := (held d)(p := 0)\<rparr> = c\<lparr>dev := u, held := (held c)(p := 0)\<rparr>" for u
    by (simp add: d_def)
  ultimately obtain u where "release_n opt m p n t = Some u"
    "peer_reach opt m max_id s (c\<lparr>dev := u, held := (held c)(p := 0)\<rparr>)"
    "\<forall>q. pi_peer_ids (pinfo u q) = pi_peer_ids (pinfo t q)" "peer_id_map (rx u) = peer_id_map (rx t)"
    using Suc.IH [of d] by metis
  then show ?case using t unref_ids [OF t(1)] by (intro exI [of _ u]) (simp del: fun_upd_apply)
qed

text \<open>
  C7. A peer goes away: when the host detaches a peer to which an id was mapped, the target unmaps the
  ids of it and the callers of lookups give their references back, the peer is freed.
\<close>

theorem peer_goes_away:
  assumes reach: "peer_reach opt m max_id s c" and p: "p \<in> attached c"
    and mapped: "hd (pi_peer_ids (pinfo (dev c) p)) \<noteq> HTT_INVALID_PEER"
    and ids: "\<forall>i \<in> set is. unat i < length (peer_id_map (rx (dev c)))"
    and all: "\<forall>k < length (peer_id_map (rx (dev c))). peer_id_map (rx (dev c)) ! k = Some p \<longrightarrow> k \<in> unat ` set is"
  shows "\<exists>t. Option.bind (ol_txrx_peer_detach opt m p (dev c))
      (\<lambda>s. Option.bind (unmap_each opt m is s) (release_n opt m p (held c p))) = Some t \<and> p \<in> set (freed_peers t)"
proof -
  obtain ps where inv: "sys_inv m c ps" using reach_inv [OF reach] by blast
  have known: "p \<in> known c" using attached_live [OF inv] p sys_invD(2) [OF inv] by auto
  obtain t1 where t1: "ol_txrx_peer_detach opt m p (dev c) = Some t1" "peer_id_map (rx t1) = peer_id_map (rx (dev c))"
    using detach_step [OF inv p, of opt] by blast
  define c1 where "c1 = c\<lparr>dev := t1, attached := attached c - {p}\<rparr>"
  have r1: "peer_reach opt m max_id s c1"
    unfolding c1_def by (rule peer_reach.step [OF reach]) (rule peer_step.detach [OF p t1(1)])
  from unmap_each_reach [OF r1, of "is"] ids t1(2) obtain t2 where
    t2: "unmap_each opt m is t1 = Some t2" "peer_reach opt m max_id s (c1\<lparr>dev := t2\<rparr>)"
      "pi_peer_ids (pinfo t2 p) = pi_peer_ids (pinfo t1 p)"
      "length (peer_id_map (rx t2)) = length (peer_id_map (rx (dev c)))"
      "\<forall>k < length (peer_id_map (rx t2)). peer_id_map (rx t2) ! k =
        (if k \<in> unat ` set is then None else peer_id_map (rx (dev c)) ! k)"
    unfolding c1_def by auto
  from release_n_reach [OF t2(2), of p "held c p"] obtain t3 where
    t3: "release_n opt m p (held c p) t2 = Some t3"
      "peer_reach opt m max_id s (c1\<lparr>dev := t3, held := (held c)(p := 0)\<rparr>)"
      "pi_peer_ids (pinfo t3 p) = pi_peer_ids (pinfo t2 p)" "peer_id_map (rx t3) = peer_id_map (rx t2)"
    by (auto simp: c1_def)
  obtain ps3 where inv3: "sys_inv m (c1\<lparr>dev := t3, held := (held c)(p := 0)\<rparr>) ps3" using reach_inv [OF t3(2)] by blast
  have "hd (pi_peer_ids (pinfo t3 p)) \<noteq> HTT_INVALID_PEER"
    using mapped t3(3) t2(3) detach_ids [OF t1(1), of p] by simp
  moreover have "Some p \<notin> set (peer_id_map (rx t3))"
  proof
    assume "Some p \<in> set (peer_id_map (rx t3))"
    then obtain k where k: "k < length (peer_id_map (rx t2))" "peer_id_map (rx t2) ! k = Some p"
      unfolding t3(4) by (auto simp: in_set_conv_nth)
    then have "k \<notin> unat ` set is" "peer_id_map (rx (dev c)) ! k = Some p" using t2(5) by (auto split: if_splits)
    moreover have "k < length (peer_id_map (rx (dev c)))"
      using k(1) t2(4) by simp
    ultimately show False using all by blast
  qed
  ultimately have "unreferenced t3 (attached c - {p}) ((held c)(p := 0)) p" by (simp add: unreferenced_def)
  then have "p \<notin> set ps3"
    using sys_invD(1) [OF inv3] by (auto simp: life_inv_def inv_refs_def c1_def simp flip: refs_zero)
  then have "p \<in> set (freed_peers t3)" using sys_invD(2) [OF inv3] known by (auto simp: c1_def)
  then show ?thesis using t1(1) t2(1) t3(1) by simp
qed

section \<open>A history\<close>

lemma find_mac:
  "ol_txrx_peer_find_hash_find a v s = Some (r, t) \<Longrightarrow> pi_mac_addr (pinfo t c) = pi_mac_addr (pinfo s c)"
  by (auto simp: ol_txrx_peer_find_hash_find_def ref_inc_def split: option.splits)

lemma state_update_mac:
  assumes "ol_txrx_peer_state_update a st s = Some t"
  shows "pi_mac_addr (pinfo t c) = pi_mac_addr (pinfo s c)"
proof -
  obtain r s1 where f: "ol_txrx_peer_find_hash_find a True s = Some (r, s1)"
    and "case r of None \<Rightarrow> t = s1 | Some p \<Rightarrow> pi_mac_addr (pinfo t c) = pi_mac_addr (pinfo s1 c)"
    using assms by (cases "ol_txrx_peer_find_hash_find a True s")
      (auto simp: ol_txrx_peer_state_update_def Let_def ref_dec_def split: option.splits if_splits)
  then show ?thesis using find_mac [OF f, of c] by (simp split: option.splits)
qed

lemma state_update_rx: "ol_txrx_peer_state_update a st s = Some t \<Longrightarrow> rx t = rx s"
  by (auto simp: ol_txrx_peer_state_update_def ol_txrx_peer_find_hash_find_def ref_inc_def ref_dec_def Let_def
      split: option.splits if_splits)

lemma init_tids_map: "peer_id_map (rx_init_tids p ts r) = peer_id_map r"
  by (induction p ts r rule: rx_init_tids.induct) (simp_all add: Let_def reorder_init_at_def upd_reorder_def)

lemma alloc_map: "OL_TXRX_LOCAL_PEER_ID_ALLOC p s = Some t \<Longrightarrow> peer_id_map (rx t) = peer_id_map (rx s)"
  by (auto simp: OL_TXRX_LOCAL_PEER_ID_ALLOC_def Let_def set_local_id_def split: option.splits if_splits)

lemma attach_first:
  assumes att: "ol_txrx_peer_attach m w (Some p) h v a s = Some (r, t)" and "tqh_first (peer_list s) v = None"
  shows "r = Some p \<and> pi_mac_addr (pinfo t p) = take 6 a \<and> peer_id_map (rx t) = peer_id_map (rx s)"
proof -
  have "dup_scan v a False (tqh_first (peer_list s) v) s = Some (Inr (False, s))"
    using assms(2) by (subst dup_scan.simps) simp
  then have new: "peer_new m h p v a s = Some t" "r = Some p" using att by (auto simp: ol_txrx_peer_attach_def)
  have "pi_mac_addr (pinfo (peer_new_base p v a s) p) = take 6 a"
    by (simp add: peer_new_base_def Let_def upd_vdev_def)
  moreover have "peer_id_map (rx (peer_new_base p v a s)) = peer_id_map (rx s)"
    by (simp add: peer_new_base_def Let_def upd_vdev_def ol_rx_peer_init_def init_tids_map peer_zero_def)
  moreover obtain s4 s6 where s4: "ol_txrx_peer_state_update (take 6 a) ol_txrx_peer_state_disc (peer_new_base p v a s) = Some s4"
    and s6: "OL_TXRX_LOCAL_PEER_ID_ALLOC p (if m \<and> self_peer s4 = None then s4\<lparr>self_peer := Some p\<rparr> else s4) = Some s6"
    and t: "pinfo t = pinfo s6" "peer_id_map (rx t) = peer_id_map (rx s6)"
    using new(1) by (auto simp: peer_new_eq split: option.splits)
  moreover have "pinfo s6 = pinfo s4" "peer_id_map (rx s6) = peer_id_map (rx s4)"
    using alloc_pinfo [OF s6] alloc_map [OF s6] by auto
  ultimately show ?thesis using new(2) state_update_mac [OF s4, of p] state_update_rx [OF s4] by simp
qed

definition peer_ex_start :: peer_sys where
  "peer_ex_start = \<lparr>dev = snd (ol_txrx_peer_find_attach True True 15 pdev_quiet), known = {}, attached = {}, held = (\<lambda>_. 0)\<rparr>"

lemma peer_ex_start: "peer_start 15 pdev_quiet peer_ex_start"
  by (simp add: peer_start_def peer_ex_start_def ol_txrx_peer_find_attach_def ol_txrx_peer_find_map_attach_def
      ol_txrx_peer_find_hash_attach_def Let_def rx_quiet_waitlist)
    (simp add: pdev_quiet_def tailq_rep_def tq_end_def rx_quiet_waitlist)

text \<open>Peer 3 is attached and mapped to the id 5.\<close>

lemma peer_ex_reach:
  "\<exists>c. peer_reach opt False 15 pdev_quiet c \<and> known c = {3} \<and> attached c = {3} \<and> held c = (\<lambda>_. 0) \<and>
     peer_id_map (rx (dev c)) = (replicate 16 None)[5 := Some 3] \<and> hd (pi_peer_ids (pinfo (dev c) 3)) \<noteq> HTT_INVALID_PEER"
proof -
  define c0 where "c0 = peer_ex_start\<lparr>dev := OL_TXRX_LOCAL_PEER_ID_POOL_INIT (dev peer_ex_start)\<rparr>"
  have r0: "peer_reach opt False 15 pdev_quiet c0" unfolding c0_def by (rule peer_reach.start [OF peer_ex_start])
  obtain ps0 where inv0: "sys_inv False c0 ps0" using reach_inv [OF r0] by blast
  have k0: "3 \<notin> known c0" "known c0 = {}" "attached c0 = {}" "held c0 = (\<lambda>_. 0)" by (simp_all add: c0_def peer_ex_start_def)
  have e0: "tqh_first (peer_list (dev c0)) 0 = None" "peer_id_map (rx (dev c0)) = replicate 16 None"
    by (simp_all add: c0_def peer_ex_start_def OL_TXRX_LOCAL_PEER_ID_POOL_INIT_def ol_txrx_peer_find_attach_def
        ol_txrx_peer_find_map_attach_def ol_txrx_peer_find_hash_attach_def Let_def pdev_quiet_def)
  have a: "length [2, 0, 0, 0, 0, 1 :: u8] = 6" by simp
  obtain r t where t: "ol_txrx_peer_attach False (Pair True) (Some 3) None 0 [2, 0, 0, 0, 0, 1] (dev c0) = Some (r, t)"
    using attach_step [OF inv0 a k0(1), of True None 0] by blast
  have r: "r = Some 3" "pi_mac_addr (pinfo t 3) = [2, 0, 0, 0, 0, 1]" "peer_id_map (rx t) = replicate 16 None"
    using attach_first [OF t e0(1)] e0(2) by simp_all
  define c1 where "c1 = c0\<lparr>dev := t, known := insert 3 (known c0), attached := insert 3 (attached c0)\<rparr>"
  have r1: "peer_reach opt False 15 pdev_quiet c1"
    using peer_reach.step [OF r0 peer_step.attach [OF k0(1) a t]] r(1) by (simp add: c1_def)
  obtain ps1 where inv1: "sys_inv False c1 ps1" using reach_inv [OF r1] by blast
  have "set ps1 = {3}" using attached_live [OF inv1] sys_invD(2) [OF inv1] k0 by (auto simp: c1_def)
  moreover have "distinct ps1" by (rule live_distinct [OF sys_invD(1) [OF inv1]])
  ultimately have ps1: "ps1 = [3]" by (cases ps1; cases "tl ps1") auto
  define i where "i = (5 :: u16)"
  have i: "unat i < length (peer_id_map (rx (dev c1)))" "peer_id_map (rx (dev c1)) ! unat i = None"
    by (simp_all add: c1_def r(3) i_def)
  have look: "find (\<lambda>p. pi_mac_addr (pinfo (dev c1) p) = [2, 0, 0, 0, 0, 1]) ps1 = Some 3"
    by (simp add: ps1 c1_def r(2))
  obtain u where u: "ol_rx_peer_map_handler opt False i [2, 0, 0, 0, 0, 1] (dev c1) = Some u"
    "peer_id_map (rx u) = (peer_id_map (rx (dev c1)))[unat i := Some 3]"
    "pi_peer_ids (pinfo u 3) = fst (add_id_at i (pi_peer_ids (pinfo (dev c1) 3)))"
    using map_inv [OF sys_invD(1) [OF inv1] a sys_invD(3) [OF inv1] i, of opt] look by auto
  have "peer_reach opt False 15 pdev_quiet (c1\<lparr>dev := u\<rparr>)"
    by (rule peer_reach.step [OF r1]) (rule peer_step.map_id [OF i a u(1)])
  moreover have "hd (pi_peer_ids (pinfo u 3)) \<noteq> HTT_INVALID_PEER"
  proof -
    have "length (pi_peer_ids (pinfo (dev c1) 3)) = 8"
      using sys_invD(1) [OF inv1] by (simp add: life_inv_def inv_lists_def ps1)
    then have "pi_peer_ids (pinfo (dev c1) 3) \<noteq> []" by auto
    from add_id_at_props(2) [OF this, of i] show ?thesis by (simp add: u(3) i_def HTT_INVALID_PEER_def)
  qed
  ultimately show ?thesis
    using u(2) k0 by (intro exI [of _ "c1\<lparr>dev := u\<rparr>"]) (simp add: c1_def r(3) i_def)
qed

theorem peer_events_run_witness:
  "\<exists>c :: peer_sys. ol_txrx_peer_detach (\<lambda>k b s. Some s) False 3 (dev c) \<noteq> None \<and>
     ol_rx_peer_unmap_handler (\<lambda>k b s. Some s) False 5 (dev c) \<noteq> None"
proof -
  obtain c where c: "peer_reach (\<lambda>k b s. Some s) False 15 pdev_quiet c" "attached c = {3}"
    "peer_id_map (rx (dev c)) = (replicate 16 None)[5 := Some 3]"
    using peer_ex_reach by blast
  from peer_events_run [OF c(1), of "[2, 0, 0, 0, 0, 1]" 3 True None 0 5 True] c(2,3) show ?thesis
    by (intro exI [of _ c]) simp
qed

theorem peer_pointers_live_witness:
  "\<exists>c :: peer_sys. Some 3 \<in> set (peer_id_map (rx (dev c))) \<and> 3 \<in> known c - set (freed_peers (dev c))"
proof -
  obtain c where c: "peer_reach (\<lambda>k b s. Some s) False 15 pdev_quiet c"
    "peer_id_map (rx (dev c)) = (replicate 16 None)[5 := Some 3]"
    using peer_ex_reach by blast
  then have "Some 3 \<in> set (peer_id_map (rx (dev c)))" by (auto simp: set_update_memI)
  then show ?thesis using peer_pointers_live [OF c(1)] by blast
qed

theorem peer_ref_cnt_exact_witness:
  "\<exists>c :: peer_sys. 3 \<in> known c \<and> 3 \<notin> set (freed_peers (dev c)) \<and> unat (pi_ref_cnt (pinfo (dev c) 3)) = 2"
proof -
  obtain c where c: "peer_reach (\<lambda>k b s. Some s) False 15 pdev_quiet c" "known c = {3}" "attached c = {3}"
    "held c = (\<lambda>_. 0)" "peer_id_map (rx (dev c)) = (replicate 16 None)[5 := Some 3]"
    "hd (pi_peer_ids (pinfo (dev c) 3)) \<noteq> HTT_INVALID_PEER"
    using peer_ex_reach by blast
  have "count_list ((replicate 16 None)[5 := Some (3 :: peer)]) (Some 3) = 1" by code_simp
  then show ?thesis using peer_ref_cnt_exact [OF c(1), of 3] c(2-6) by (intro exI [of _ c]) simp
qed

theorem peer_goes_away_witness:
  "\<exists>(c :: peer_sys) t. Option.bind (ol_txrx_peer_detach (\<lambda>k b s. Some s) False 3 (dev c))
      (\<lambda>s. Option.bind (unmap_each (\<lambda>k b s. Some s) False [5] s) (release_n (\<lambda>k b s. Some s) False 3 0)) = Some t \<and>
    3 \<in> set (freed_peers t)"
proof -
  obtain c where c: "peer_reach (\<lambda>k b s. Some s) False 15 pdev_quiet c" "attached c = {3}"
    "held c = (\<lambda>_. 0)" "peer_id_map (rx (dev c)) = (replicate 16 None)[5 := Some 3]"
    "hd (pi_peer_ids (pinfo (dev c) 3)) \<noteq> HTT_INVALID_PEER"
    using peer_ex_reach by blast
  have k: "\<forall>k < length (peer_id_map (rx (dev c))). peer_id_map (rx (dev c)) ! k = Some 3 \<longrightarrow> k \<in> unat ` set [5 :: u16]"
    by (simp add: c(4) nth_list_update split: if_splits)
  have i: "\<forall>i \<in> set [5 :: u16]. unat i < length (peer_id_map (rx (dev c)))" by (simp add: c(4))
  have "3 \<in> attached c" by (simp add: c(2))
  from peer_goes_away [OF c(1) this c(5) i k] show ?thesis unfolding c(3) by blast
qed

section \<open>The state of a new peer\<close>

lemma init_tids_peers: "peers (rx_init_tids p ts r) = peers r"
  by (induction p ts r rule: rx_init_tids.induct) (simp_all add: Let_def reorder_init_at_def upd_reorder_def)

lemma base_valid:
  "peer_valid (peer_new_base p v a s) q = (q = p \<or> peer_valid s q)"
  by (simp add: peer_new_base_def Let_def upd_vdev_def ol_rx_peer_init_def init_tids_peers peer_zero_def set_valid_def)

lemma find_snoc: "find P (ps @ [p]) = (case find P ps of None \<Rightarrow> if P p then Some p else None | Some q \<Rightarrow> Some q)"
  by (induction ps) auto

lemma new_state:
  assumes life: "life_inv m s ps A x" and a: "length a = 6" and x: "\<And>q. x q < 2 ^ 31"
    and p: "p \<notin> set ps" "p \<notin> set (freed_peers s)" "x p = 0" and new: "peer_new m h p v a s = Some t"
  shows "pi_state (pinfo t p) = (if \<exists>q \<in> set ps. pi_mac_addr (pinfo s q) = a \<and> peer_valid s q
    then ol_txrx_peer_state_invalid else ol_txrx_peer_state_disc)"
proof -
  define s3 where "s3 = peer_new_base p v a s"
  have s3: "life_inv m s3 (ps @ [p]) (insert p A) x"
    using peer_new_base_inv [OF life a p, of v] unfolding s3_def by iprover
  have pin: "pi_mac_addr (pinfo s3 p) = a" "pi_state (pinfo s3 p) = ol_txrx_peer_state_invalid"
    using a by (simp_all add: s3_def peer_new_base_def Let_def upd_vdev_def)
  define P where "P = (\<lambda>q. pi_mac_addr (pinfo s3 q) = a \<and> (\<not> True \<or> peer_valid s3 q))"
  have P: "P q \<longleftrightarrow> pi_mac_addr (pinfo s q) = a \<and> peer_valid s q" if "q \<in> set ps" for q
  proof -
    have "q \<noteq> p" using that p(1) by blast
    then show ?thesis by (simp add: P_def s3_def base_pinfo base_valid)
  qed
  have "P p" by (simp add: P_def pin s3_def base_valid) (simp add: pin [unfolded s3_def])
  obtain s4 s6 where s4: "ol_txrx_peer_state_update (take 6 a) ol_txrx_peer_state_disc s3 = Some s4"
    and s6: "OL_TXRX_LOCAL_PEER_ID_ALLOC p (if m \<and> self_peer s4 = None then s4\<lparr>self_peer := Some p\<rparr> else s4) = Some s6"
    and t: "pinfo t = pinfo s6"
    using new by (auto simp: peer_new_eq s3_def split: option.splits)
  have "pinfo t = pinfo s4" using t alloc_pinfo [OF s6] by auto
  obtain s1 where f: "ol_txrx_peer_find_hash_find a True s3 = Some (find P (ps @ [p]), s1)"
    and s1: "case find P (ps @ [p]) of None \<Rightarrow> s1 = s3 | Some q \<Rightarrow> s1 = ref_inc q s3"
    using find_inv [OF s3 a x, of True] by (auto simp: P_def split: option.splits)
  show ?thesis
  proof (cases "find P ps")
    case None
    then have "\<not> (\<exists>q \<in> set ps. pi_mac_addr (pinfo s q) = a \<and> peer_valid s q)" using P by (auto simp: find_None_iff)
    moreover have r: "find P (ps @ [p]) = Some p" using None \<open>P p\<close> by (simp add: find_snoc)
    ultimately show ?thesis
      using s4 a f s1 pin(2) \<open>pinfo t = pinfo s4\<close>
      by (auto simp: ol_txrx_peer_state_update_def Let_def ref_dec_def ref_inc_def)
  next
    case (Some q)
    then have q: "q \<in> set ps" "P q" by (auto simp: find_Some_iff)
    then have "\<exists>q \<in> set ps. pi_mac_addr (pinfo s q) = a \<and> peer_valid s q" using P by blast
    moreover have "find P (ps @ [p]) = Some q" using Some by (simp add: find_snoc)
    moreover have "q \<noteq> p" using q(1) p(1) by blast
    ultimately show ?thesis
      using s4 a f s1 pin(2) \<open>pinfo t = pinfo s4\<close>
      by (auto simp: ol_txrx_peer_state_update_def Let_def ref_dec_def ref_inc_def split: if_splits)
  qed
qed

text \<open>
  The first state of a peer: an attachment that succeeds leaves the peer in the disconnected state,
  as its comment says, only if no live valid peer on any virtual device has the same address.  The state
  is set through a search of the whole device by address, so otherwise the older peer is moved to the
  disconnected state and the new one stays in the invalid state.
\<close>

lemma peer_attach_state:
  assumes reach: "peer_reach opt m max_id s c" and p: "p \<notin> known c" and a: "length a = 6"
    and att: "ol_txrx_peer_attach m (Pair b) (Some p) h v a (dev c) = Some (Some p, t)"
  shows "pi_state (pinfo t p) =
    (if \<exists>q \<in> known c - set (freed_peers (dev c)). pi_mac_addr (pinfo (dev c) q) = a \<and> pr_valid (peers (rx (dev c)) q)
     then ol_txrx_peer_state_invalid else ol_txrx_peer_state_disc)"
proof -
  obtain ps where inv: "sys_inv m c ps" using reach_inv [OF reach] by blast
  have life: "life_inv m (dev c) ps (attached c) (held c)" by (rule sys_invD(1) [OF inv])
  have live: "known c - set (freed_peers (dev c)) = set ps"
    using sys_invD(2) [OF inv] life by (auto simp: life_inv_def inv_rest_def)
  obtain w s1 where scan: "dup_scan v a False (tqh_first (peer_list (dev c)) v) (dev c) = Some (Inr (w, s1))"
    and new: "peer_new m h p v a s1 = Some t"
    using att by (auto simp: ol_txrx_peer_attach_def split: option.splits sum.splits if_splits)
  have "tailq_rep v (peer_list (dev c)) (filter (\<lambda>q. pi_vdev (pinfo (dev c) q) = Some v) ps)"
    using life by (simp add: life_inv_def inv_lists_def)
  then have "lseg (tqe_next (peer_list (dev c))) (tqh_first (peer_list (dev c)) v)
      (filter (\<lambda>q. pi_vdev (pinfo (dev c) q) = Some v) ps) None" by (simp add: tailq_rep_def)
  from dup_scan_rep [OF this, of v a False] have same: "same_peers (dev c) s1" by (simp add: scan)
  have "life_inv m s1 ps (attached c) (held c)" by (rule life_inv_same [OF same life])
  moreover have "p \<notin> set ps" "p \<notin> set (freed_peers s1)"
    using p sys_invD(2) [OF inv] same by (simp_all add: same_peers_def)
  moreover have "held c p = 0" using sys_invD(4) [OF inv] \<open>p \<notin> set ps\<close> by simp
  ultimately show ?thesis
    using new_state [OF _ a sys_invD(3) [OF inv] _ _ _ new] same unfolding live by (simp add: same_peers_def)
qed

theorem peer_attach_state_witness:
  "\<exists>t. ol_txrx_peer_attach False (Pair True) (Some 3) None 0 [2, 0, 0, 0, 0, 1]
      (OL_TXRX_LOCAL_PEER_ID_POOL_INIT (dev peer_ex_start)) = Some (Some 3, t) \<and>
    pi_state (pinfo t 3) = ol_txrx_peer_state_disc"
proof -
  define c0 where "c0 = peer_ex_start\<lparr>dev := OL_TXRX_LOCAL_PEER_ID_POOL_INIT (dev peer_ex_start)\<rparr>"
  have r0: "peer_reach (\<lambda>k b s. Some s) False 15 pdev_quiet c0"
    unfolding c0_def by (rule peer_reach.start [OF peer_ex_start])
  obtain ps where inv: "sys_inv False c0 ps" using reach_inv [OF r0] by blast
  have k: "3 \<notin> known c0" "known c0 = {}" by (simp_all add: c0_def peer_ex_start_def)
  have e: "tqh_first (peer_list (dev c0)) 0 = None"
    by (simp add: c0_def peer_ex_start_def OL_TXRX_LOCAL_PEER_ID_POOL_INIT_def ol_txrx_peer_find_attach_def
        ol_txrx_peer_find_map_attach_def ol_txrx_peer_find_hash_attach_def Let_def pdev_quiet_def)
  have a: "length [2, 0, 0, 0, 0, 1 :: u8] = 6" by simp
  obtain r t where t: "ol_txrx_peer_attach False (Pair True) (Some 3) None 0 [2, 0, 0, 0, 0, 1] (dev c0) = Some (r, t)"
    using attach_step [OF inv a k(1), of True None 0] by blast
  have "r = Some 3" using attach_first [OF t e] by simp
  then have t3: "ol_txrx_peer_attach False (Pair True) (Some 3) None 0 [2, 0, 0, 0, 0, 1] (dev c0) = Some (Some 3, t)"
    using t by simp
  from peer_attach_state [OF r0 k(1) a t3] t3 k(2) show ?thesis by (intro exI [of _ t]) (simp add: c0_def)
qed

end
