(* ===== verification/Copy_Engine.thy ===== *)
theory Copy_Engine
  imports Wlan_Prelude
begin

text \<open>
  The copy engine of the bus (\<open>copy_engine.c\<close>, \<open>copy_engine_internal.h\<close>): a source ring through
  which the host sends buffers and a destination ring in which it posts buffers to receive into.  The
  rings and their descriptors are in memory the device reads and writes; the four index registers of
  the device are fields of the state, written by the host or by the device.  The build is the one in
  which the bus needs no wake-up (\<open>CONFIG_ATH_PCIE_MAX_PERF\<close>) and the work-around of the write index
  (\<open>hif_pci_war1\<close>) is off; locks and the event log are not modelled.  \<open>None\<close> is an access outside an
  array or through a null pointer.
\<close>

section \<open>State\<close>

text \<open>The bit fields of a descriptor are cut to their width when they are stored.\<close>

record ce_desc =
  cd_ptr :: u32
  cd_nbytes :: u16
  cd_gather :: bool
  cd_byte_swap :: bool
  cd_meta_data :: "14 word"

record ce_ring =
  nentries :: u32
  nentries_mask :: u32
  sw_index :: u32
  write_index :: u32
  hw_index :: u32
  ring_desc :: "ce_desc list"
  shadow_desc :: "ce_desc list"
  per_transfer_context :: "u64 list"

record copy_engine =
  ce_byte_swap_data :: bool
  ce_send_context :: u64
  ce_recv_context :: u64
  src_ring :: "ce_ring option"
  dest_ring :: "ce_ring option"
  reg_src_write :: u32
  reg_src_read :: u32
  reg_dest_write :: u32
  reg_dest_read :: u32
  ce_ring_delta_fail_count :: u32

datatype A_STATUS = A_OK | A_ERROR | A_NO_RESOURCE | A_ENOMEM

text \<open>What the completion of a transfer hands back.\<close>

record ce_done =
  dn_ce_context :: u64
  dn_context :: u64
  dn_buffer :: u32
  dn_nbytes :: u32
  dn_id :: u32
  dn_flags :: u32

definition CE_SEND_FLAG_SWAP_DISABLE :: u32 where "CE_SEND_FLAG_SWAP_DISABLE = 1"
definition CE_RECV_FLAG_SWAPPED :: u32 where "CE_RECV_FLAG_SWAPPED = 1"
definition CE_SEND_FLAG_GATHER :: u32 where "CE_SEND_FLAG_GATHER = 0x00010000"
definition CE_SENDLIST_ITEM_CTXT :: u64 where "CE_SENDLIST_ITEM_CTXT = 0xcecebeef"
definition CE_SENDLIST_ITEMS_MAX :: nat where "CE_SENDLIST_ITEMS_MAX = 12"

section \<open>Ring arithmetic\<close>

definition CE_RING_DELTA :: "u32 \<Rightarrow> u32 \<Rightarrow> u32 \<Rightarrow> u32" where
  "CE_RING_DELTA m fromidx toidx = (toidx - fromidx) AND m"

definition CE_RING_IDX_INCR :: "u32 \<Rightarrow> u32 \<Rightarrow> u32" where
  "CE_RING_IDX_INCR m idx = (idx + 1) AND m"

definition ce_idx_invalid :: "ce_ring \<Rightarrow> u32 \<Rightarrow> bool" where
  "ce_idx_invalid r idx \<longleftrightarrow> nentries r \<le> idx"

text \<open>The loop of 29 rounds that doubles the candidate; 0 after the last is the failed assertion.\<close>

fun pwr2_loop :: "nat \<Rightarrow> u32 \<Rightarrow> u32 \<Rightarrow> u32" where
  "pwr2_loop 0 test_pwr2 n = 0"
| "pwr2_loop (Suc i) test_pwr2 n = (if n < test_pwr2 then test_pwr2 else pwr2_loop i (push_bit 1 test_pwr2) n)"

definition roundup_pwr2 :: "u32 \<Rightarrow> u32" where
  "roundup_pwr2 n = (if n AND (n - 1) = 0 then n else pwr2_loop 29 4 n)"

section \<open>The source ring\<close>

definition CE_send_nolock :: "u64 \<Rightarrow> u32 \<Rightarrow> u32 \<Rightarrow> u32 \<Rightarrow> u32 \<Rightarrow> copy_engine \<Rightarrow> (A_STATUS \<times> copy_engine) option" where
  "CE_send_nolock ctxt buffer nbytes transfer_id flags s =
     (case src_ring s of
        None \<Rightarrow> None
      | Some r \<Rightarrow>
          (if CE_RING_DELTA (nentries_mask r) (write_index r) (sw_index r - 1) = 0
           then Some (A_ERROR, s\<lparr>ce_ring_delta_fail_count := ce_ring_delta_fail_count s + 1\<rparr>)
           else (let w = unat (write_index r);
                     gather = (flags AND CE_SEND_FLAG_GATHER \<noteq> 0);
                     d = \<lparr>cd_ptr = buffer, cd_nbytes = ucast nbytes, cd_gather = gather,
                          cd_byte_swap = (ce_byte_swap_data s \<and> flags AND CE_SEND_FLAG_SWAP_DISABLE = 0),
                          cd_meta_data = ucast transfer_id\<rparr>;
                     write' = CE_RING_IDX_INCR (nentries_mask r) (write_index r)
                 in case (store_at (shadow_desc r) w d, store_at (ring_desc r) w d,
                          store_at (per_transfer_context r) w ctxt) of
                      (Some shadow, Some desc, Some ctx) \<Rightarrow>
                        Some (A_OK, (if gather then s else s\<lparr>reg_src_write := write'\<rparr>)
                          \<lparr>src_ring := Some (r\<lparr>shadow_desc := shadow, ring_desc := desc,
                             per_transfer_context := ctx, write_index := write'\<rparr>)\<rparr>)
                    | _ \<Rightarrow> None)))"

text \<open>A send list holds at most twelve simple buffers.\<close>

record ce_sendlist_item =
  item_data :: u32
  item_nbytes :: u32
  item_flags :: u32

record ce_sendlist =
  num_items :: u32
  sl_item :: "ce_sendlist_item list"

definition CE_sendlist_init :: "ce_sendlist \<Rightarrow> ce_sendlist" where
  "CE_sendlist_init sl = sl\<lparr>num_items := 0\<rparr>"

definition CE_sendlist_buf_add :: "u32 \<Rightarrow> u32 \<Rightarrow> u32 \<Rightarrow> ce_sendlist \<Rightarrow> (A_STATUS \<times> ce_sendlist) option" where
  "CE_sendlist_buf_add buffer nbytes flags sl =
     (if CE_SENDLIST_ITEMS_MAX \<le> unat (num_items sl) then Some (A_NO_RESOURCE, sl)
      else map_option (\<lambda>items. (A_OK, sl\<lparr>sl_item := items, num_items := num_items sl + 1\<rparr>))
             (store_at (sl_item sl) (unat (num_items sl)) \<lparr>item_data = buffer, item_nbytes = nbytes, item_flags = flags\<rparr>))"

text \<open>\<open>n\<close> items from the item \<open>i\<close> on, all but the last of the list.\<close>

fun sendlist_loop :: "nat \<Rightarrow> nat \<Rightarrow> ce_sendlist \<Rightarrow> u32 \<Rightarrow> copy_engine \<Rightarrow> copy_engine option" where
  "sendlist_loop 0 i sl transfer_id s = Some s"
| "sendlist_loop (Suc n) i sl transfer_id s =
     (case load_at (sl_item sl) i of
        None \<Rightarrow> None
      | Some item \<Rightarrow>
          (case CE_send_nolock CE_SENDLIST_ITEM_CTXT (item_data item) (item_nbytes item) transfer_id
                  (item_flags item OR CE_SEND_FLAG_GATHER) s of
             None \<Rightarrow> None
           | Some (status, s') \<Rightarrow> sendlist_loop n (Suc i) sl transfer_id s'))"

definition CE_sendlist_send :: "u64 \<Rightarrow> ce_sendlist \<Rightarrow> u32 \<Rightarrow> copy_engine \<Rightarrow> (A_STATUS \<times> copy_engine) option" where
  "CE_sendlist_send ctxt sl transfer_id s =
     (case src_ring s of
        None \<Rightarrow> None
      | Some r \<Rightarrow>
          (if num_items sl \<le> CE_RING_DELTA (nentries_mask r) (write_index r) (sw_index r - 1)
           then (let last = unat (num_items sl - 1)
                 in case sendlist_loop last 0 sl transfer_id s of
                      None \<Rightarrow> None
                    | Some s' \<Rightarrow>
                        (case load_at (sl_item sl) last of
                           None \<Rightarrow> None
                         | Some item \<Rightarrow>
                             CE_send_nolock ctxt (item_data item) (item_nbytes item) transfer_id (item_flags item) s'))
           else Some (A_ENOMEM, s)))"

definition CE_send_entries_avail :: "copy_engine \<Rightarrow> u32 option" where
  "CE_send_entries_avail s =
     map_option (\<lambda>r. CE_RING_DELTA (nentries_mask r) (write_index r) (sw_index r - 1)) (src_ring s)"

definition CE_send_entries_done_nolock :: "copy_engine \<Rightarrow> u32 option" where
  "CE_send_entries_done_nolock s =
     map_option (\<lambda>r. CE_RING_DELTA (nentries_mask r) (sw_index r) (reg_src_read s)) (src_ring s)"

text \<open>
  The next completed send; the register is read only when the cached index is used up.  The two index
  values the function also reports are not modelled.
\<close>

definition CE_completed_send_next_nolock :: "copy_engine \<Rightarrow> (ce_done option \<times> copy_engine) option" where
  "CE_completed_send_next_nolock s =
     (case src_ring s of
        None \<Rightarrow> None
      | Some r0 \<Rightarrow>
          (let r = (if hw_index r0 = sw_index r0 then r0\<lparr>hw_index := reg_src_read s\<rparr> else r0);
               s1 = s\<lparr>src_ring := Some r\<rparr>; sw = unat (sw_index r)
           in if hw_index r0 = sw_index r0 \<and> ce_idx_invalid r (hw_index r) then Some (None, s1)
              else if hw_index r \<noteq> sw_index r \<and> hw_index r \<noteq> 0xffffffff
              then (case (load_at (shadow_desc r) sw, load_at (per_transfer_context r) sw,
                          store_at (per_transfer_context r) sw 0) of
                      (Some d, Some c, Some ctx) \<Rightarrow>
                        Some (Some \<lparr>dn_ce_context = ce_send_context s, dn_context = c, dn_buffer = cd_ptr d,
                                dn_nbytes = ucast (cd_nbytes d), dn_id = ucast (cd_meta_data d), dn_flags = 0\<rparr>,
                          s1\<lparr>src_ring := Some (r\<lparr>per_transfer_context := ctx,
                             sw_index := CE_RING_IDX_INCR (nentries_mask r) (sw_index r)\<rparr>)\<rparr>)
                    | _ \<Rightarrow> None)
              else Some (None, s1)))"

text \<open>Taking back a send when the device is stopped: the descriptor is read from the ring itself.\<close>

definition CE_cancel_send_next :: "copy_engine \<Rightarrow> (ce_done option \<times> copy_engine) option" where
  "CE_cancel_send_next s =
     (case src_ring s of
        None \<Rightarrow> Some (None, s)
      | Some r \<Rightarrow>
          (let sw = unat (sw_index r)
           in if write_index r \<noteq> sw_index r
              then (case (load_at (ring_desc r) sw, load_at (per_transfer_context r) sw,
                          store_at (per_transfer_context r) sw 0) of
                      (Some d, Some c, Some ctx) \<Rightarrow>
                        Some (Some \<lparr>dn_ce_context = ce_send_context s, dn_context = c, dn_buffer = cd_ptr d,
                                dn_nbytes = ucast (cd_nbytes d), dn_id = ucast (cd_meta_data d), dn_flags = 0\<rparr>,
                          s\<lparr>src_ring := Some (r\<lparr>per_transfer_context := ctx,
                             sw_index := CE_RING_IDX_INCR (nentries_mask r) (sw_index r)\<rparr>)\<rparr>)
                    | _ \<Rightarrow> None)
              else Some (None, s)))"

section \<open>The destination ring\<close>

definition CE_recv_buf_enqueue :: "u64 \<Rightarrow> u32 \<Rightarrow> copy_engine \<Rightarrow> (A_STATUS \<times> copy_engine) option" where
  "CE_recv_buf_enqueue ctxt buffer s =
     (case dest_ring s of
        None \<Rightarrow> None
      | Some r \<Rightarrow>
          (if CE_RING_DELTA (nentries_mask r) (write_index r) (sw_index r - 1) = 0 then Some (A_ERROR, s)
           else (let w = unat (write_index r); write' = CE_RING_IDX_INCR (nentries_mask r) (write_index r)
                 in case load_at (ring_desc r) w of
                      None \<Rightarrow> None
                    | Some d \<Rightarrow>
                        (case (store_at (ring_desc r) w (d\<lparr>cd_ptr := buffer, cd_nbytes := 0\<rparr>),
                               store_at (per_transfer_context r) w ctxt) of
                           (Some desc, Some ctx) \<Rightarrow>
                             Some (A_OK, s\<lparr>reg_dest_write := write',
                               dest_ring := Some (r\<lparr>ring_desc := desc, per_transfer_context := ctx, write_index := write'\<rparr>)\<rparr>)
                         | _ \<Rightarrow> None))))"

definition CE_recv_entries_avail :: "copy_engine \<Rightarrow> u32 option" where
  "CE_recv_entries_avail s =
     map_option (\<lambda>r. CE_RING_DELTA (nentries_mask r) (write_index r) (sw_index r - 1)) (dest_ring s)"

definition CE_recv_entries_done_nolock :: "copy_engine \<Rightarrow> u32 option" where
  "CE_recv_entries_done_nolock s =
     map_option (\<lambda>r. CE_RING_DELTA (nentries_mask r) (sw_index r) (reg_dest_read s)) (dest_ring s)"

definition CE_completed_recv_next_nolock :: "copy_engine \<Rightarrow> (ce_done option \<times> copy_engine) option" where
  "CE_completed_recv_next_nolock s =
     (case dest_ring s of
        None \<Rightarrow> None
      | Some r \<Rightarrow>
          (let sw = unat (sw_index r)
           in case load_at (ring_desc r) sw of
                None \<Rightarrow> None
              | Some d \<Rightarrow>
                  (if cd_nbytes d = 0 then Some (None, s)
                   else (case (store_at (ring_desc r) sw (d\<lparr>cd_nbytes := 0\<rparr>), load_at (per_transfer_context r) sw,
                               store_at (per_transfer_context r) sw 0) of
                           (Some desc, Some c, Some ctx) \<Rightarrow>
                             Some (Some \<lparr>dn_ce_context = ce_recv_context s, dn_context = c, dn_buffer = cd_ptr d,
                                     dn_nbytes = ucast (cd_nbytes d), dn_id = ucast (cd_meta_data d),
                                     dn_flags = (if cd_byte_swap d then CE_RECV_FLAG_SWAPPED else 0)\<rparr>,
                               s\<lparr>dest_ring := Some (r\<lparr>ring_desc := desc, per_transfer_context := ctx,
                                  sw_index := CE_RING_IDX_INCR (nentries_mask r) (sw_index r)\<rparr>)\<rparr>)
                         | _ \<Rightarrow> None))))"

text \<open>Taking back a posted buffer; the length and the id are not reported, here 0.\<close>

definition CE_revoke_recv_next :: "copy_engine \<Rightarrow> (ce_done option \<times> copy_engine) option" where
  "CE_revoke_recv_next s =
     (case dest_ring s of
        None \<Rightarrow> Some (None, s)
      | Some r \<Rightarrow>
          (let sw = unat (sw_index r)
           in if write_index r \<noteq> sw_index r
              then (case (load_at (ring_desc r) sw, load_at (per_transfer_context r) sw,
                          store_at (per_transfer_context r) sw 0) of
                      (Some d, Some c, Some ctx) \<Rightarrow>
                        Some (Some \<lparr>dn_ce_context = ce_recv_context s, dn_context = c, dn_buffer = cd_ptr d,
                                dn_nbytes = 0, dn_id = 0, dn_flags = 0\<rparr>,
                          s\<lparr>dest_ring := Some (r\<lparr>per_transfer_context := ctx,
                             sw_index := CE_RING_IDX_INCR (nentries_mask r) (sw_index r)\<rparr>)\<rparr>)
                    | _ \<Rightarrow> None)
              else Some (None, s)))"

text \<open>Whether the handler of an interrupt may leave the rest to the next one; \<open>True\<close> second is a reset.\<close>

definition CE_HW_INDEX_LINK_DOWN :: u32 where "CE_HW_INDEX_LINK_DOWN = 0xFFFFFFFF"

definition ce_is_valid_entries :: "u32 \<Rightarrow> copy_engine \<Rightarrow> (bool \<times> bool) option" where
  "ce_is_valid_entries ring_delta s =
     map_option (\<lambda>r. if ring_delta < nentries_mask r \<and> reg_dest_read s \<noteq> CE_HW_INDEX_LINK_DOWN then (True, False)
         else if reg_dest_read s = CE_HW_INDEX_LINK_DOWN then (False, False) else (False, True))
       (dest_ring s)"

section \<open>Cleaning up a pipe\<close>

text \<open>
  The buffers handed to the completion handler with their ids; the loop stops at the first one of the
  end point \<open>ep\<close> whose packets were freed before.
\<close>

partial_function (option) send_cleanup_loop :: "u32 \<Rightarrow> copy_engine \<Rightarrow> ((u64 \<times> u32) list \<times> copy_engine) option" where
  "send_cleanup_loop ep s =
     (case CE_cancel_send_next s of
        None \<Rightarrow> None
      | Some (None, t) \<Rightarrow> Some ([], t)
      | Some (Some d, t) \<Rightarrow>
          (if dn_context d = CE_SENDLIST_ITEM_CTXT then send_cleanup_loop ep t
           else if dn_id d = ep then Some ([], t)
           else Option.bind (send_cleanup_loop ep t) (\<lambda>(ps, u). Some ((dn_context d, dn_id d) # ps, u))))"

definition hif_send_buffer_cleanup_on_pipe ::
    "u32 \<Rightarrow> bool \<Rightarrow> bool \<Rightarrow> u32 \<Rightarrow> copy_engine \<Rightarrow> ((u64 \<times> u32) list \<times> copy_engine) option" where
  "hif_send_buffer_cleanup_on_pipe buf_sz started handler ep s =
     (if buf_sz = 0 \<or> \<not> started then Some ([], s)
      else map_option (\<lambda>(ps, t). (if handler then ps else [], t)) (send_cleanup_loop ep s))"

text \<open>The buffers that are unmapped and freed.\<close>

partial_function (option) recv_cleanup_loop :: "copy_engine \<Rightarrow> (u64 list \<times> copy_engine) option" where
  "recv_cleanup_loop s =
     (case CE_revoke_recv_next s of
        None \<Rightarrow> None
      | Some (None, t) \<Rightarrow> Some ([], t)
      | Some (Some d, t) \<Rightarrow> Option.bind (recv_cleanup_loop t) (\<lambda>(ps, u). Some (dn_context d # ps, u)))"

definition hif_recv_buffer_cleanup_on_pipe ::
    "u32 \<Rightarrow> bool \<Rightarrow> bool \<Rightarrow> copy_engine \<Rightarrow> (u64 list \<times> copy_engine) option" where
  "hif_recv_buffer_cleanup_on_pipe buf_sz started adf_dev s =
     (if buf_sz = 0 \<or> \<not> started \<or> \<not> adf_dev then Some ([], s) else recv_cleanup_loop s)"

section \<open>Setting up\<close>

text \<open>
  The rings \<open>CE_init\<close> makes.  The memory of the source ring's descriptors is not cleared; \<open>junk\<close> is
  what it holds.  The destination ring's is.
\<close>

definition ce_desc_zero :: ce_desc where
  "ce_desc_zero = \<lparr>cd_ptr = 0, cd_nbytes = 0, cd_gather = False, cd_byte_swap = False, cd_meta_data = 0\<rparr>"

definition ce_init_src :: "ce_desc list \<Rightarrow> ce_desc list \<Rightarrow> u32 \<Rightarrow> copy_engine \<Rightarrow> copy_engine" where
  "ce_init_src junk junk' src_nentries s =
     (if src_nentries = 0 \<or> src_ring s \<noteq> None then s
      else (let n = roundup_pwr2 src_nentries
            in s\<lparr>src_ring := Some \<lparr>nentries = n, nentries_mask = n - 1, sw_index = reg_src_read s,
                 write_index = reg_src_write s, hw_index = reg_src_read s, ring_desc = take (unat n) junk,
                 shadow_desc = take (unat n) junk', per_transfer_context = replicate (unat n) 0\<rparr>\<rparr>))"

definition ce_init_dest :: "u32 \<Rightarrow> copy_engine \<Rightarrow> copy_engine" where
  "ce_init_dest dest_nentries s =
     (if dest_nentries = 0 \<or> dest_ring s \<noteq> None then s
      else (let n = roundup_pwr2 dest_nentries
            in s\<lparr>dest_ring := Some \<lparr>nentries = n, nentries_mask = n - 1, sw_index = reg_dest_read s,
                 write_index = reg_dest_write s, hw_index = 0, ring_desc = replicate (unat n) ce_desc_zero,
                 shadow_desc = [], per_transfer_context = replicate (unat n) 0\<rparr>\<rparr>))"

end
