(* ===== verification/Ring_Count.thy ===== *)
theory Ring_Count
  imports Wlan_Prelude
begin

text \<open>
  Rings of a power-of-two size whose indices are masked counters: an index is the number of entries gone
  through so far, modulo the size.  The rings of the copy engine and the ring of receive buffers use the
  lemmas.
\<close>

section \<open>Counters\<close>

lemma nat_add_mod_cancel:
  fixes a b c n :: nat
  assumes "(a + c) mod n = (b + c) mod n"
  shows "a mod n = b mod n"
proof -
  obtain q r where "a + c + n * q = b + c + n * r"
    using assms by (auto simp: nat_mod_eq_iff)
  then have "a + n * q = b + n * r" by simp
  then show ?thesis by (auto simp: nat_mod_eq_iff)
qed

lemma pow2_dvd_word:
  fixes m :: "'a::len word"
  assumes "unat m = 2 ^ k - Suc 0"
  shows "(2::nat) ^ k dvd 2 ^ LENGTH('a)"
proof -
  have "(2::nat) ^ k \<le> 2 ^ LENGTH('a)"
    using assms unsigned_less [of m, where ?'a = nat] by linarith
  then show ?thesis by (simp add: le_imp_power_dvd)
qed

lemma unat_add_mod_pow2:
  fixes a b m :: "'a::len word"
  assumes "unat m = 2 ^ k - Suc 0"
  shows "unat (a + b) mod 2 ^ k = (unat a + unat b) mod 2 ^ k"
  by (simp add: unat_word_ariths mod_mod_cancel [OF pow2_dvd_word [OF assms]])

lemma unat_zero_iff: "unat (w :: 'a::len word) = 0 \<longleftrightarrow> w = 0"
  by (metis unat_inject unsigned_0)

text \<open>The distance of two masked counters.\<close>

lemma masked_distance [ring_rules]:
  assumes m: "unat m = 2 ^ k - Suc 0" and f: "unat f = x mod 2 ^ k" and t: "unat t = y mod 2 ^ k"
    and "x \<le> y"
  shows "unat ((t - f) AND m) = (y - x) mod 2 ^ k"
proof -
  let ?d = "unat (t - f)"
  have "(?d + unat f) mod 2 ^ k = unat t mod 2 ^ k"
    using unat_add_mod_pow2 [OF m, of "t - f" f] by simp
  then have "(?d + x) mod 2 ^ k = (y - x + x) mod 2 ^ k"
    using assms by (simp add: mod_add_right_eq)
  then have "?d mod 2 ^ k = (y - x) mod 2 ^ k" by (rule nat_add_mod_cancel)
  then show ?thesis by (simp add: unat_and_mask [OF m])
qed

lemma masked_step [ring_rules]:
  assumes "unat m = 2 ^ k - Suc 0" and "unat i = x mod 2 ^ k"
  shows "unat ((i + 1) AND m) = Suc x mod 2 ^ k"
  using assms by (simp add: ring_next_index mod_Suc_eq)

text \<open>Two positions less than a ring apart are different.\<close>

lemma ring_pos_inject:
  fixes i j n b c :: nat
  assumes "(b + i) mod n = (b + j) mod n" and "c \<le> i" "c \<le> j" "i < c + n" "j < c + n"
  shows "i = j"
proof -
  have "(i - c + (b + c)) mod n = (j - c + (b + c)) mod n" using assms by (simp add: add.commute)
  then have "(i - c) mod n = (j - c) mod n" by (rule nat_add_mod_cancel)
  then show ?thesis using assms by simp
qed

section \<open>What a ring holds\<close>

text \<open>From the entry \<open>c\<close> on, the array holds the entries of the list, entry \<open>j\<close> at the position \<open>b + j\<close>.\<close>

definition ring_holds :: "nat \<Rightarrow> nat \<Rightarrow> 'a list \<Rightarrow> nat \<Rightarrow> 'a list \<Rightarrow> bool" where
  "ring_holds n b a c xs \<longleftrightarrow> length a = n \<and> (\<forall>j. c \<le> j \<and> j < length xs \<longrightarrow> a ! ((b + j) mod n) = xs ! j)"

lemma ring_holds_put:
  assumes "ring_holds n b a c xs" and "c \<le> length xs" "length xs < c + n"
  shows "ring_holds n b (a[(b + length xs) mod n := x]) c (xs @ [x])"
  unfolding ring_holds_def
proof (intro conjI allI impI)
  show "length (a[(b + length xs) mod n := x]) = n" using assms(1) by (simp add: ring_holds_def)
next
  fix j assume j: "c \<le> j \<and> j < length (xs @ [x])"
  have n: "0 < n" "length a = n" using assms by (auto simp: ring_holds_def)
  show "a[(b + length xs) mod n := x] ! ((b + j) mod n) = (xs @ [x]) ! j"
  proof (cases "j = length xs")
    case True
    then show ?thesis using n by simp
  next
    case False
    then have "j < length xs" using j by simp
    moreover have "(b + j) mod n \<noteq> (b + length xs) mod n"
      using ring_pos_inject [of b j n "length xs" c] False j assms by auto
    ultimately show ?thesis using assms(1) j by (simp add: ring_holds_def nth_append)
  qed
qed

lemma ring_holds_drop: "ring_holds n b a c xs \<Longrightarrow> ring_holds n b a (Suc c) xs"
  by (simp add: ring_holds_def)

lemma ring_holds_clear:
  assumes "ring_holds n b a c xs" and "length xs \<le> c + n" "c < length xs"
  shows "ring_holds n b (a[(b + c) mod n := z]) (Suc c) xs"
  unfolding ring_holds_def
proof (intro conjI allI impI)
  show "length (a[(b + c) mod n := z]) = n" using assms(1) by (simp add: ring_holds_def)
next
  fix j assume j: "Suc c \<le> j \<and> j < length xs"
  then have "(b + j) mod n \<noteq> (b + c) mod n"
    using ring_pos_inject [of b j n c c] assms by auto
  then show "a[(b + c) mod n := z] ! ((b + j) mod n) = xs ! j"
    using assms(1) j by (simp add: ring_holds_def)
qed

lemma ring_holds_get:
  "ring_holds n b a c xs \<Longrightarrow> c < length xs \<Longrightarrow> a ! ((b + c) mod n) = xs ! c"
  by (simp add: ring_holds_def)

lemma ring_holds_length: "ring_holds n b a c xs \<Longrightarrow> length a = n"
  by (simp add: ring_holds_def)

lemma ring_holds_same:
  assumes "ring_holds n b (map f a) c xs" and "i < length a" and "f y = f (a ! i)"
  shows "ring_holds n b (map f (a[i := y])) c xs"
proof -
  have "map f (a[i := y]) = (map f a)[i := map f a ! i]" using assms by (simp add: map_update)
  then show ?thesis using assms(1) by simp
qed

text \<open>Writing an entry that is not held leaves what the ring holds.\<close>

lemma ring_holds_other:
  assumes "ring_holds n b a c xs" and "length xs \<le> i" "i < c + n"
  shows "ring_holds n b (a[(b + i) mod n := y]) c xs"
  unfolding ring_holds_def
proof (intro conjI allI impI)
  show "length (a[(b + i) mod n := y]) = n" using assms(1) by (simp add: ring_holds_def)
next
  fix j assume j: "c \<le> j \<and> j < length xs"
  then have "(b + j) mod n \<noteq> (b + i) mod n"
    using ring_pos_inject [of b j n i c] assms by auto
  then show "a[(b + i) mod n := y] ! ((b + j) mod n) = xs ! j"
    using assms(1) j by (simp add: ring_holds_def)
qed

end
