(* ===== verification/Copy_Engine_Props.thy ===== *)
theory Copy_Engine_Props
  imports Copy_Engine Ring_Count
begin

text \<open>
  The rings of the copy engine over any interleaving of the host and the device: a ring index is the
  number of entries gone through so far, modulo the size of the ring.  The steps of the two sides form
  a relation over the engine and a record of what was handed in and handed back.
\<close>

section \<open>Ring arithmetic\<close>

lemma CE_RING_DELTA_count [ring_rules]:
  assumes "unat m = 2 ^ k - Suc 0" and "unat f = x mod 2 ^ k" and "unat t = y mod 2 ^ k" and "x \<le> y"
  shows "unat (CE_RING_DELTA m f t) = (y - x) mod 2 ^ k"
  unfolding CE_RING_DELTA_def by (rule masked_distance [OF assms])

text \<open>The room in a ring: one entry always stays free.\<close>

lemma CE_RING_DELTA_room [ring_rules]:
  assumes m: "unat m = 2 ^ k - Suc 0" and w: "unat w = y mod 2 ^ k" and c: "unat c = x mod 2 ^ k"
    and "x \<le> y" "y < x + 2 ^ k"
  shows "unat (CE_RING_DELTA m w (c - 1)) = 2 ^ k - Suc (y - x)"
proof -
  let ?d = "unat ((c - 1) - w)"
  have "(?d + unat (w + 1)) mod 2 ^ k = unat c mod 2 ^ k"
    using unat_add_mod_pow2 [OF m, of "(c - 1) - w" "w + 1"] by simp
  moreover have "unat (w + 1) mod 2 ^ k = Suc y mod 2 ^ k"
    using unat_add_mod_pow2 [OF m, of w 1] by (simp add: w mod_Suc_eq)
  ultimately have "(?d + Suc y) mod 2 ^ k = x mod 2 ^ k"
    by (metis c mod_add_right_eq mod_mod_trivial)
  also have "\<dots> = (2 ^ k - Suc (y - x) + Suc y) mod 2 ^ k"
  proof -
    have "2 ^ k - Suc (y - x) + Suc y = x + 2 ^ k" using assms(4,5) by simp
    then show ?thesis by simp
  qed
  finally have "?d mod 2 ^ k = (2 ^ k - Suc (y - x)) mod 2 ^ k" by (rule nat_add_mod_cancel)
  then show ?thesis by (simp add: CE_RING_DELTA_def unat_and_mask [OF m])
qed

lemma CE_RING_IDX_INCR_count [ring_rules]:
  "unat m = 2 ^ k - Suc 0 \<Longrightarrow> unat i = x mod 2 ^ k \<Longrightarrow> unat (CE_RING_IDX_INCR m i) = Suc x mod 2 ^ k"
  unfolding CE_RING_IDX_INCR_def by (rule masked_step)

section \<open>Sending\<close>

record ce_request =
  rq_context :: u64
  rq_buffer :: u32
  rq_nbytes :: u32
  rq_id :: u32
  rq_flags :: u32

text \<open>The descriptor of a request and what its completion reports.\<close>

definition ce_request_desc :: "bool \<Rightarrow> ce_request \<Rightarrow> ce_desc" where
  "ce_request_desc swap q = \<lparr>cd_ptr = rq_buffer q, cd_nbytes = ucast (rq_nbytes q),
     cd_gather = (rq_flags q AND CE_SEND_FLAG_GATHER \<noteq> 0),
     cd_byte_swap = (swap \<and> rq_flags q AND CE_SEND_FLAG_SWAP_DISABLE = 0), cd_meta_data = ucast (rq_id q)\<rparr>"

definition ce_request_done :: "u64 \<Rightarrow> ce_request \<Rightarrow> ce_done" where
  "ce_request_done ctxt q = \<lparr>dn_ce_context = ctxt, dn_context = rq_context q, dn_buffer = rq_buffer q,
     dn_nbytes = take_bit 16 (rq_nbytes q), dn_id = take_bit 14 (rq_id q), dn_flags = 0\<rparr>"

abbreviation ce_send_request :: "ce_request \<Rightarrow> copy_engine \<Rightarrow> (A_STATUS \<times> copy_engine) option" where
  "ce_send_request q \<equiv> CE_send_nolock (rq_context q) (rq_buffer q) (rq_nbytes q) (rq_id q) (rq_flags q)"

text \<open>
  The requests \<open>qs\<close> were accepted, \<open>c\<close> of them completed, the host knows that the device is done with
  \<open>h\<close>, the device is done with \<open>p\<close> and may see \<open>v\<close>.
\<close>

definition src_rep :: "nat \<Rightarrow> nat \<Rightarrow> ce_request list \<Rightarrow> nat \<Rightarrow> nat \<Rightarrow> nat \<Rightarrow> nat \<Rightarrow> copy_engine \<Rightarrow> bool" where
  "src_rep k b qs c h p v s \<longleftrightarrow> c \<le> h \<and> h \<le> p \<and> p \<le> v \<and> v \<le> length qs \<and> length qs < c + 2 ^ k \<and>
     unat (reg_src_read s) = (b + p) mod 2 ^ k \<and> unat (reg_src_write s) = (b + v) mod 2 ^ k \<and>
     (\<exists>r. src_ring s = Some r \<and> unat (nentries r) = 2 ^ k \<and> unat (nentries_mask r) = 2 ^ k - Suc 0 \<and>
        unat (sw_index r) = (b + c) mod 2 ^ k \<and> unat (hw_index r) = (b + h) mod 2 ^ k \<and>
        unat (write_index r) = (b + length qs) mod 2 ^ k \<and>
        ring_holds (2 ^ k) b (shadow_desc r) c (map (ce_request_desc (ce_byte_swap_data s)) qs) \<and>
        ring_holds (2 ^ k) b (ring_desc r) c (map (ce_request_desc (ce_byte_swap_data s)) qs) \<and>
        ring_holds (2 ^ k) b (per_transfer_context r) c (map rq_context qs))"

lemma src_room:
  assumes "src_rep k b qs c h p v s" and "src_ring s = Some r"
  shows "unat (CE_RING_DELTA (nentries_mask r) (write_index r) (sw_index r - 1)) = 2 ^ k - Suc (length qs - c)"
proof -
  have "unat (nentries_mask r) = 2 ^ k - Suc 0" "unat (write_index r) = (b + length qs) mod 2 ^ k"
    "unat (sw_index r) = (b + c) mod 2 ^ k" "c \<le> length qs" "length qs < c + 2 ^ k"
    using assms by (auto simp: src_rep_def)
  then show ?thesis using CE_RING_DELTA_room [of "nentries_mask r" k "write_index r" "b + length qs" "sw_index r" "b + c"]
    by simp
qed

text \<open>A send is turned away exactly when one entry is left, and else becomes the last request.\<close>

lemma src_rep_send:
  assumes rep: "src_rep k b qs c h p v s"
  shows "\<exists>t. ce_send_request q s =
      Some (if Suc (length qs) = c + 2 ^ k then (A_ERROR, s\<lparr>ce_ring_delta_fail_count := ce_ring_delta_fail_count s + 1\<rparr>)
            else (A_OK, t)) \<and>
    (Suc (length qs) \<noteq> c + 2 ^ k \<longrightarrow> ce_send_context t = ce_send_context s \<and>
       src_rep k b (qs @ [q]) c h p (if rq_flags q AND CE_SEND_FLAG_GATHER \<noteq> 0 then v else Suc (length qs)) t)"
proof -
  obtain r where r: "src_ring s = Some r" using rep by (auto simp: src_rep_def)
  let ?full = "Suc (length qs) = c + 2 ^ k"
  have len: "c \<le> length qs" "length qs < c + 2 ^ k" using rep by (auto simp: src_rep_def)
  have full: "CE_RING_DELTA (nentries_mask r) (write_index r) (sw_index r - 1) = 0 \<longleftrightarrow> ?full"
    using src_room [OF rep r] len by (simp flip: unat_zero_iff) arith
  show ?thesis
  proof (cases ?full)
    case True
    then show ?thesis by (simp add: CE_send_nolock_def r full)
  next
    case False
    have w: "unat (write_index r) = (b + length qs) mod 2 ^ k" and m: "unat (nentries_mask r) = 2 ^ k - Suc 0"
      and lens: "length (shadow_desc r) = 2 ^ k" "length (ring_desc r) = 2 ^ k" "length (per_transfer_context r) = 2 ^ k"
      using rep r by (auto simp: src_rep_def ring_holds_def)
    show ?thesis using rep False len
      by (auto simp: CE_send_nolock_def r full w lens Let_def src_rep_def CE_RING_IDX_INCR_count [OF m w]
          ce_request_desc_def [symmetric] dest: ring_holds_put [where x = "ce_request_desc (ce_byte_swap_data s) q"]
          ring_holds_put [where x = "rq_context q"])
  qed
qed

lemma ucast_via_u16 [simp]: "(ucast (ucast (x :: u32) :: u16) :: u32) = take_bit 16 x"
  by transfer (simp add: take_bit_take_bit)

lemma ucast_via_14 [simp]: "(ucast (ucast (x :: u32) :: 14 word) :: u32) = take_bit 14 x"
  by transfer (simp add: take_bit_take_bit)

text \<open>The device is done with one more request.\<close>

definition ce_src_device :: "copy_engine \<Rightarrow> copy_engine" where
  "ce_src_device s = (case src_ring s of None \<Rightarrow> s
     | Some r \<Rightarrow> s\<lparr>reg_src_read := (reg_src_read s + 1) AND nentries_mask r\<rparr>)"

lemma src_rep_device:
  assumes "src_rep k b qs c h p v s" and "reg_src_read s \<noteq> reg_src_write s"
  shows "src_rep k b qs c h (Suc p) v (ce_src_device s) \<and> ce_send_context (ce_src_device s) = ce_send_context s"
proof -
  have "p \<noteq> v" using assms by (auto simp: src_rep_def simp flip: unat_inject)
  then show ?thesis using assms
    by (auto simp: src_rep_def ce_src_device_def CE_RING_IDX_INCR_count [unfolded CE_RING_IDX_INCR_def])
qed

lemma src_rep_index_eq:
  assumes "src_rep k b qs c h p v s" and "src_ring s = Some r"
  shows "hw_index r = sw_index r \<longleftrightarrow> h = c" and "reg_src_read s = sw_index r \<longleftrightarrow> p = c"
    and "write_index r = sw_index r \<longleftrightarrow> length qs = c"
proof -
  have "h < c + 2 ^ k" "p < c + 2 ^ k" "length qs < c + 2 ^ k" "c \<le> h" "c \<le> p" "c \<le> length qs"
    using assms by (auto simp: src_rep_def)
  note eq = this ring_pos_inject [of b _ "2 ^ k" c c]
  show "hw_index r = sw_index r \<longleftrightarrow> h = c" "reg_src_read s = sw_index r \<longleftrightarrow> p = c"
    "write_index r = sw_index r \<longleftrightarrow> length qs = c"
    using assms eq by (auto simp: src_rep_def simp flip: unat_inject)
qed

lemma index_not_ones:
  assumes "unat i = x mod 2 ^ k" and "unat (m :: u32) = 2 ^ k - Suc 0" "unat (n :: u32) = 2 ^ k"
  shows "i \<noteq> (0xffffffff :: u32)" and "\<not> n \<le> i"
proof -
  have "unat i < 2 ^ k" using assms(1) by simp
  moreover have "unat i < unat n" using calculation assms(3) by simp
  ultimately show "\<not> n \<le> i" by (simp add: word_le_nat_alt)
  show "i \<noteq> 0xffffffff"
  proof
    assume "i = 0xffffffff"
    then have "unat i = 2 ^ 32 - 1" by simp
    moreover have "unat n < 2 ^ 32" using unsigned_less [of n, where ?'a = nat] by simp
    ultimately show False using \<open>unat i < unat n\<close> by simp
  qed
qed

text \<open>
  The next completion is the oldest request not completed, when the device is done with it; the cached
  index is brought up to date only when it is used up.
\<close>

lemma src_rep_complete:
  assumes rep: "src_rep k b qs c h p v s"
  shows "\<exists>t. CE_completed_send_next_nolock s =
      Some (if c < p then Some (ce_request_done (ce_send_context s) (qs ! c)) else None, t) \<and>
    ce_send_context t = ce_send_context s \<and>
    src_rep k b qs (if c < p then Suc c else c) (if h = c then p else h) p v t"
proof -
  obtain r where r: "src_ring s = Some r" using rep by (auto simp: src_rep_def)
  let ?r = "if h = c then r\<lparr>hw_index := reg_src_read s\<rparr> else r"
  have rep': "src_rep k b qs c (if h = c then p else h) p v (s\<lparr>src_ring := Some ?r\<rparr>)"
    using rep r by (auto simp: src_rep_def)
  note ix = src_rep_index_eq [OF rep r]
  have m: "unat (nentries_mask r) = 2 ^ k - Suc 0" and n: "unat (nentries r) = 2 ^ k"
    and sw: "unat (sw_index r) = (b + c) mod 2 ^ k" and hw: "unat (hw_index r) = (b + h) mod 2 ^ k"
    and rd: "unat (reg_src_read s) = (b + p) mod 2 ^ k" and ord: "c \<le> h" "h \<le> p" "p \<le> length qs" "length qs < c + 2 ^ k"
    and lens: "length (shadow_desc r) = 2 ^ k" "length (per_transfer_context r) = 2 ^ k"
    using rep r by (auto simp: src_rep_def ring_holds_def)
  note valid = index_not_ones [OF rd m n] index_not_ones [OF hw m n]
  show ?thesis
  proof (cases "c < p")
    case False
    then have "h = c" "p = c" using ord by auto
    then show ?thesis using rep' valid ix
      by (auto simp: CE_completed_send_next_nolock_def r ce_idx_invalid_def Let_def)
  next
    case True
    then have c: "c < length qs" using ord by simp
    have get: "shadow_desc r ! ((b + c) mod 2 ^ k) = ce_request_desc (ce_byte_swap_data s) (qs ! c)"
      "per_transfer_context r ! ((b + c) mod 2 ^ k) = rq_context (qs ! c)"
      using rep r c by (auto simp: src_rep_def ring_holds_def)
    have ne: "(if h = c then p else h) \<noteq> c" using True by auto
    let ?t = "s\<lparr>src_ring := Some (?r\<lparr>per_transfer_context := (per_transfer_context r)[(b + c) mod 2 ^ k := 0],
      sw_index := CE_RING_IDX_INCR (nentries_mask r) (sw_index r)\<rparr>)\<rparr>"
    have "CE_completed_send_next_nolock s = Some (Some (ce_request_done (ce_send_context s) (qs ! c)), ?t)"
      using True valid ix ne
      by (auto simp: CE_completed_send_next_nolock_def r ce_idx_invalid_def Let_def sw lens get
          ce_request_desc_def ce_request_done_def)
    moreover have "src_rep k b qs (Suc c) (if h = c then p else h) p v ?t"
      using rep' True ord c by (cases "h = c") (auto simp: src_rep_def CE_RING_IDX_INCR_count [OF m sw]
          intro: ring_holds_drop ring_holds_clear)
    ultimately show ?thesis using True by auto
  qed
qed

text \<open>
  Taking back the oldest request, whatever the device did with it: from here on only the host's own
  indices and the ring count.
\<close>

definition src_held :: "nat \<Rightarrow> nat \<Rightarrow> ce_request list \<Rightarrow> nat \<Rightarrow> copy_engine \<Rightarrow> bool" where
  "src_held k b qs c s \<longleftrightarrow> c \<le> length qs \<and> length qs < c + 2 ^ k \<and>
     (\<exists>r. src_ring s = Some r \<and> unat (nentries_mask r) = 2 ^ k - Suc 0 \<and>
        unat (sw_index r) = (b + c) mod 2 ^ k \<and> unat (write_index r) = (b + length qs) mod 2 ^ k \<and>
        ring_holds (2 ^ k) b (ring_desc r) c (map (ce_request_desc (ce_byte_swap_data s)) qs) \<and>
        ring_holds (2 ^ k) b (per_transfer_context r) c (map rq_context qs))"

lemma src_rep_held: "src_rep k b qs c h p v s \<Longrightarrow> src_held k b qs c s"
  by (auto simp: src_rep_def src_held_def)

lemma src_held_cancel:
  assumes held: "src_held k b qs c s"
  shows "if c < length qs
    then \<exists>t. CE_cancel_send_next s = Some (Some (ce_request_done (ce_send_context s) (qs ! c)), t) \<and>
      ce_send_context t = ce_send_context s \<and> src_held k b qs (Suc c) t
    else CE_cancel_send_next s = Some (None, s)"
proof -
  obtain r where r: "src_ring s = Some r" using held by (auto simp: src_held_def)
  have m: "unat (nentries_mask r) = 2 ^ k - Suc 0" and sw: "unat (sw_index r) = (b + c) mod 2 ^ k"
    and wr: "unat (write_index r) = (b + length qs) mod 2 ^ k" and ord: "c \<le> length qs" "length qs < c + 2 ^ k"
    and lens: "length (ring_desc r) = 2 ^ k" "length (per_transfer_context r) = 2 ^ k"
    using held r by (auto simp: src_held_def ring_holds_def)
  have eq: "write_index r = sw_index r \<longleftrightarrow> length qs = c"
    using sw wr ord ring_pos_inject [of b "length qs" "2 ^ k" c c] by (auto simp flip: unat_inject)
  show ?thesis
  proof (cases "c < length qs")
    case False
    then show ?thesis using eq ord by (simp add: CE_cancel_send_next_def r Let_def)
  next
    case True
    then have get: "ring_desc r ! ((b + c) mod 2 ^ k) = ce_request_desc (ce_byte_swap_data s) (qs ! c)"
      "per_transfer_context r ! ((b + c) mod 2 ^ k) = rq_context (qs ! c)"
      using held r by (auto simp: src_held_def ring_holds_def)
    show ?thesis using True held eq
      by (auto simp: CE_cancel_send_next_def r Let_def sw lens get ce_request_desc_def [of _ "qs ! c"]
          ce_request_done_def src_held_def CE_RING_IDX_INCR_count [OF m sw] intro: ring_holds_drop ring_holds_clear)
  qed
qed

section \<open>Receiving\<close>

text \<open>What the device writes into a posted descriptor: the length, the id and whether it swapped.\<close>

type_synonym ce_fill = "u16 \<times> 14 word \<times> bool"

definition ce_info :: "ce_desc \<Rightarrow> ce_fill" where
  "ce_info d = (cd_nbytes d, cd_meta_data d, cd_byte_swap d)"

definition ce_received :: "u64 \<Rightarrow> u64 \<times> u32 \<Rightarrow> ce_fill \<Rightarrow> ce_done" where
  "ce_received ctxt q f = \<lparr>dn_ce_context = ctxt, dn_context = fst q, dn_buffer = snd q, dn_nbytes = ucast (fst f),
     dn_id = ucast (fst (snd f)), dn_flags = (if snd (snd f) then CE_RECV_FLAG_SWAPPED else 0)\<rparr>"

text \<open>
  The buffers \<open>ps\<close> were posted, \<open>c\<close> of them received, the device has filled \<open>length fs\<close> and taken \<open>m\<close>;
  every descriptor the device has not filled has length zero.
\<close>

definition dst_rep :: "nat \<Rightarrow> nat \<Rightarrow> (u64 \<times> u32) list \<Rightarrow> ce_fill list \<Rightarrow> nat \<Rightarrow> nat \<Rightarrow> copy_engine \<Rightarrow> bool" where
  "dst_rep k b ps fs c m s \<longleftrightarrow> c \<le> length fs \<and> length fs \<le> m \<and> m \<le> length ps \<and> length ps < c + 2 ^ k \<and>
     (\<forall>f \<in> set fs. fst f \<noteq> 0) \<and>
     unat (reg_dest_read s) = (b + m) mod 2 ^ k \<and> unat (reg_dest_write s) = (b + length ps) mod 2 ^ k \<and>
     (\<exists>r. dest_ring s = Some r \<and> unat (nentries r) = 2 ^ k \<and> unat (nentries_mask r) = 2 ^ k - Suc 0 \<and>
        unat (sw_index r) = (b + c) mod 2 ^ k \<and> unat (write_index r) = (b + length ps) mod 2 ^ k \<and>
        ring_holds (2 ^ k) b (map cd_ptr (ring_desc r)) c (map snd ps) \<and>
        ring_holds (2 ^ k) b (map ce_info (ring_desc r)) c fs \<and>
        (\<forall>j. length fs \<le> j \<and> j < c + 2 ^ k \<longrightarrow> cd_nbytes (ring_desc r ! ((b + j) mod 2 ^ k)) = 0) \<and>
        ring_holds (2 ^ k) b (per_transfer_context r) c (map fst ps))"

lemma dst_room:
  assumes "dst_rep k b ps fs c m s" and "dest_ring s = Some r"
  shows "unat (CE_RING_DELTA (nentries_mask r) (write_index r) (sw_index r - 1)) = 2 ^ k - Suc (length ps - c)"
proof -
  have "unat (nentries_mask r) = 2 ^ k - Suc 0" "unat (write_index r) = (b + length ps) mod 2 ^ k"
    "unat (sw_index r) = (b + c) mod 2 ^ k" "c \<le> length ps" "length ps < c + 2 ^ k"
    using assms by (auto simp: dst_rep_def)
  then show ?thesis using CE_RING_DELTA_room [of "nentries_mask r" k "write_index r" "b + length ps" "sw_index r" "b + c"]
    by simp
qed

lemma dst_rep_post:
  assumes rep: "dst_rep k b ps fs c m s"
  shows "\<exists>t. CE_recv_buf_enqueue ctxt buffer s = Some (if Suc (length ps) = c + 2 ^ k then (A_ERROR, s) else (A_OK, t)) \<and>
    (Suc (length ps) \<noteq> c + 2 ^ k \<longrightarrow> ce_recv_context t = ce_recv_context s \<and> dst_rep k b (ps @ [(ctxt, buffer)]) fs c m t)"
proof -
  obtain r where r: "dest_ring s = Some r" using rep by (auto simp: dst_rep_def)
  let ?full = "Suc (length ps) = c + 2 ^ k"
  have len: "c \<le> length ps" "length ps < c + 2 ^ k" "length fs \<le> length ps" using rep by (auto simp: dst_rep_def)
  have full: "CE_RING_DELTA (nentries_mask r) (write_index r) (sw_index r - 1) = 0 \<longleftrightarrow> ?full"
    using dst_room [OF rep r] len by (simp flip: unat_zero_iff) arith
  show ?thesis
  proof (cases ?full)
    case True
    then show ?thesis by (simp add: CE_recv_buf_enqueue_def r full)
  next
    case False
    have w: "unat (write_index r) = (b + length ps) mod 2 ^ k" and mk: "unat (nentries_mask r) = 2 ^ k - Suc 0"
      and lens: "length (ring_desc r) = 2 ^ k" "length (per_transfer_context r) = 2 ^ k"
      and hp: "ring_holds (2 ^ k) b (map cd_ptr (ring_desc r)) c (map snd ps)"
      and hi: "ring_holds (2 ^ k) b (map ce_info (ring_desc r)) c fs"
      and hc: "ring_holds (2 ^ k) b (per_transfer_context r) c (map fst ps)"
      and z: "\<And>j. length fs \<le> j \<Longrightarrow> j < c + 2 ^ k \<Longrightarrow> cd_nbytes (ring_desc r ! ((b + j) mod 2 ^ k)) = 0"
      using rep r by (auto simp: dst_rep_def ring_holds_def)
    let ?i = "(b + length ps) mod 2 ^ k"
    let ?d = "(ring_desc r ! ?i)\<lparr>cd_ptr := buffer, cd_nbytes := 0\<rparr>"
    have hp': "ring_holds (2 ^ k) b (map cd_ptr ((ring_desc r)[?i := ?d])) c (map snd (ps @ [(ctxt, buffer)]))"
      using ring_holds_put [OF hp, of buffer] len by (simp add: map_update)
    have hi': "ring_holds (2 ^ k) b (map ce_info ((ring_desc r)[?i := ?d])) c fs"
      using z [of "length ps"] len by (intro ring_holds_same [OF hi]) (auto simp: lens ce_info_def)
    have hc': "ring_holds (2 ^ k) b ((per_transfer_context r)[?i := ctxt]) c (map fst (ps @ [(ctxt, buffer)]))"
      using ring_holds_put [OF hc, of ctxt] len by simp
    have z': "cd_nbytes (((ring_desc r)[?i := ?d]) ! ((b + j) mod 2 ^ k)) = 0" if "length fs \<le> j" "j < c + 2 ^ k" for j
      using z [OF that] by (simp add: nth_list_update lens)
    let ?t = "s\<lparr>reg_dest_write := CE_RING_IDX_INCR (nentries_mask r) (write_index r),
      dest_ring := Some (r\<lparr>ring_desc := (ring_desc r)[?i := ?d], per_transfer_context := (per_transfer_context r)[?i := ctxt],
        write_index := CE_RING_IDX_INCR (nentries_mask r) (write_index r)\<rparr>)\<rparr>"
    have "CE_recv_buf_enqueue ctxt buffer s = Some (A_OK, ?t)"
      using False by (simp add: CE_recv_buf_enqueue_def r full w lens Let_def)
    moreover have "dst_rep k b (ps @ [(ctxt, buffer)]) fs c m ?t"
      using rep r False len hp' hi' hc' z' by (auto simp: dst_rep_def CE_RING_IDX_INCR_count [OF mk w])
    ultimately show ?thesis using False by auto
  qed
qed

text \<open>
  The device takes the next posted entry (its read index moves on), and fills the oldest entry it has
  taken; the index may be seen before the descriptor.
\<close>

definition ce_dest_take :: "copy_engine \<Rightarrow> copy_engine" where
  "ce_dest_take s = (case dest_ring s of None \<Rightarrow> s
     | Some r \<Rightarrow> s\<lparr>reg_dest_read := (reg_dest_read s + 1) AND nentries_mask r\<rparr>)"

definition ce_dest_fill :: "nat \<Rightarrow> ce_fill \<Rightarrow> copy_engine \<Rightarrow> copy_engine" where
  "ce_dest_fill i f s = (case dest_ring s of None \<Rightarrow> s
     | Some r \<Rightarrow> s\<lparr>dest_ring := Some (r\<lparr>ring_desc := (ring_desc r)[i := (ring_desc r ! i)\<lparr>cd_nbytes := fst f,
         cd_meta_data := fst (snd f), cd_byte_swap := snd (snd f)\<rparr>]\<rparr>)\<rparr>)"

lemma dst_rep_take:
  assumes "dst_rep k b ps fs c m s" and "reg_dest_read s \<noteq> reg_dest_write s"
  shows "dst_rep k b ps fs c (Suc m) (ce_dest_take s) \<and> ce_recv_context (ce_dest_take s) = ce_recv_context s"
proof -
  have "m \<noteq> length ps" using assms by (auto simp: dst_rep_def simp flip: unat_inject)
  then show ?thesis using assms
    by (auto simp: dst_rep_def ce_dest_take_def CE_RING_IDX_INCR_count [unfolded CE_RING_IDX_INCR_def])
qed

lemma dst_rep_fill:
  assumes rep: "dst_rep k b ps fs c m s" and "length fs < m" "fst f \<noteq> 0"
  shows "dst_rep k b ps (fs @ [f]) c m (ce_dest_fill ((b + length fs) mod 2 ^ k) f s) \<and>
    ce_recv_context (ce_dest_fill ((b + length fs) mod 2 ^ k) f s) = ce_recv_context s"
proof -
  obtain r where r: "dest_ring s = Some r" using rep by (auto simp: dst_rep_def)
  have len: "c \<le> length fs" "length fs \<le> m" "m \<le> length ps" "length ps < c + 2 ^ k"
    and lens: "length (ring_desc r) = 2 ^ k"
    and hp: "ring_holds (2 ^ k) b (map cd_ptr (ring_desc r)) c (map snd ps)"
    and hi: "ring_holds (2 ^ k) b (map ce_info (ring_desc r)) c fs"
    and z: "\<And>j. length fs \<le> j \<Longrightarrow> j < c + 2 ^ k \<Longrightarrow> cd_nbytes (ring_desc r ! ((b + j) mod 2 ^ k)) = 0"
    using rep r by (auto simp: dst_rep_def ring_holds_def)
  let ?i = "(b + length fs) mod 2 ^ k"
  let ?d = "(ring_desc r ! ?i)\<lparr>cd_nbytes := fst f, cd_meta_data := fst (snd f), cd_byte_swap := snd (snd f)\<rparr>"
  have "ring_holds (2 ^ k) b (map cd_ptr ((ring_desc r)[?i := ?d])) c (map snd ps)"
    by (rule ring_holds_same [OF hp]) (auto simp: lens)
  moreover have "ring_holds (2 ^ k) b (map ce_info ((ring_desc r)[?i := ?d])) c (fs @ [f])"
    using ring_holds_put [OF hi, of f] len by (simp add: map_update ce_info_def)
  moreover have "cd_nbytes (((ring_desc r)[?i := ?d]) ! ((b + j) mod 2 ^ k)) = 0" if "Suc (length fs) \<le> j" "j < c + 2 ^ k" for j
  proof -
    have "(b + j) mod 2 ^ k \<noteq> ?i" using ring_pos_inject [of b j "2 ^ k" "length fs" c] that len by auto
    then show ?thesis using z [of j] that by simp
  qed
  ultimately show ?thesis using rep r assms(2,3) len by (auto simp: dst_rep_def ce_dest_fill_def)
qed

text \<open>The next buffer received is the oldest posted, once its descriptor is filled.\<close>

lemma dst_rep_receive:
  assumes rep: "dst_rep k b ps fs c m s"
  shows "\<exists>t. CE_completed_recv_next_nolock s =
      Some (if c < length fs then (Some (ce_received (ce_recv_context s) (ps ! c) (fs ! c)), t) else (None, s)) \<and>
    (c < length fs \<longrightarrow> ce_recv_context t = ce_recv_context s \<and> dst_rep k b ps fs (Suc c) m t)"
proof -
  obtain r where r: "dest_ring s = Some r" using rep by (auto simp: dst_rep_def)
  have len: "c \<le> length fs" "length fs \<le> m" "m \<le> length ps" "length ps < c + 2 ^ k"
    and lens: "length (ring_desc r) = 2 ^ k" "length (per_transfer_context r) = 2 ^ k"
    and mk: "unat (nentries_mask r) = 2 ^ k - Suc 0" and sw: "unat (sw_index r) = (b + c) mod 2 ^ k"
    and hp: "ring_holds (2 ^ k) b (map cd_ptr (ring_desc r)) c (map snd ps)"
    and hi: "ring_holds (2 ^ k) b (map ce_info (ring_desc r)) c fs"
    and hc: "ring_holds (2 ^ k) b (per_transfer_context r) c (map fst ps)"
    and z: "\<And>j. length fs \<le> j \<Longrightarrow> j < c + 2 ^ k \<Longrightarrow> cd_nbytes (ring_desc r ! ((b + j) mod 2 ^ k)) = 0"
    and nz: "\<And>f. f \<in> set fs \<Longrightarrow> fst f \<noteq> 0"
    using rep r by (auto simp: dst_rep_def ring_holds_def)
  let ?i = "(b + c) mod 2 ^ k"
  show ?thesis
  proof (cases "c < length fs")
    case False
    then show ?thesis using z [of c] len by (simp add: CE_completed_recv_next_nolock_def r sw lens Let_def)
  next
    case True
    let ?e = "ring_desc r ! ?i"
    have e: "ce_info ?e = fs ! c" "cd_ptr ?e = snd (ps ! c)" "per_transfer_context r ! ?i = fst (ps ! c)"
      using ring_holds_get [OF hi] ring_holds_get [OF hp] ring_holds_get [OF hc] True len by (simp_all add: lens)
    have ne: "cd_nbytes ?e \<noteq> 0" using nz [OF nth_mem [OF True]] by (simp add: ce_info_def flip: e(1))
    let ?desc = "(ring_desc r)[?i := ?e\<lparr>cd_nbytes := 0\<rparr>]"
    let ?t = "s\<lparr>dest_ring := Some (r\<lparr>ring_desc := ?desc, per_transfer_context := (per_transfer_context r)[?i := 0],
        sw_index := CE_RING_IDX_INCR (nentries_mask r) (sw_index r)\<rparr>)\<rparr>"
    have "CE_completed_recv_next_nolock s = Some (Some (ce_received (ce_recv_context s) (ps ! c) (fs ! c)), ?t)"
      using ne by (simp add: CE_completed_recv_next_nolock_def r sw lens Let_def ce_received_def flip: e)
        (simp add: ce_info_def)
    moreover have "dst_rep k b ps fs (Suc c) m ?t"
    proof -
      have "ring_holds (2 ^ k) b (map cd_ptr ?desc) (Suc c) (map snd ps)"
        by (rule ring_holds_drop, rule ring_holds_same [OF hp]) (auto simp: lens)
      moreover have "ring_holds (2 ^ k) b (map ce_info ?desc) (Suc c) fs"
        using ring_holds_clear [OF hi] True len by (simp add: map_update)
      moreover have "ring_holds (2 ^ k) b ((per_transfer_context r)[?i := 0]) (Suc c) (map fst ps)"
        using ring_holds_clear [OF hc] True len by simp
      moreover have "cd_nbytes (?desc ! ((b + j) mod 2 ^ k)) = 0" if "length fs \<le> j" "j < Suc c + 2 ^ k" for j
        using z [OF that(1)] that by (cases "j = c + 2 ^ k") (auto simp: nth_list_update lens simp flip: add.assoc)
      ultimately show ?thesis
        using rep r True len by (auto simp: dst_rep_def CE_RING_IDX_INCR_count [OF mk sw])
    qed
    ultimately show ?thesis using True by auto
  qed
qed

section \<open>Cleaning up\<close>

lemma send_cleanup_held:
  assumes "src_held k b qs c s"
  shows "\<exists>t. send_cleanup_loop ep s = Some (map (\<lambda>d. (dn_context d, dn_id d))
    (takeWhile (\<lambda>d. dn_id d \<noteq> ep) (filter (\<lambda>d. dn_context d \<noteq> CE_SENDLIST_ITEM_CTXT)
       (map (ce_request_done (ce_send_context s)) (drop c qs)))), t)"
  using assms
proof (induction "length qs - c" arbitrary: c s)
  case 0
  then have "\<not> c < length qs" by simp
  then show ?case using src_held_cancel [OF "0.prems"] by (subst send_cleanup_loop.simps) simp
next
  case (Suc n)
  then have c: "c < length qs" by simp
  then obtain t where t: "CE_cancel_send_next s = Some (Some (ce_request_done (ce_send_context s) (qs ! c)), t)"
    "ce_send_context t = ce_send_context s" "src_held k b qs (Suc c) t"
    using src_held_cancel [OF Suc.prems] by auto
  have "n = length qs - Suc c" using Suc.hyps(2) by simp
  note ih = Suc.hyps(1) [OF this t(3)]
  show ?case using ih t c by (subst send_cleanup_loop.simps) (auto simp: Cons_nth_drop_Suc [symmetric])
qed

definition dst_held :: "nat \<Rightarrow> nat \<Rightarrow> (u64 \<times> u32) list \<Rightarrow> nat \<Rightarrow> copy_engine \<Rightarrow> bool" where
  "dst_held k b ps c s \<longleftrightarrow> c \<le> length ps \<and> length ps < c + 2 ^ k \<and>
     (\<exists>r. dest_ring s = Some r \<and> unat (nentries_mask r) = 2 ^ k - Suc 0 \<and>
        unat (sw_index r) = (b + c) mod 2 ^ k \<and> unat (write_index r) = (b + length ps) mod 2 ^ k \<and>
        length (ring_desc r) = 2 ^ k \<and> ring_holds (2 ^ k) b (per_transfer_context r) c (map fst ps))"

lemma dst_rep_held: "dst_rep k b ps fs c m s \<Longrightarrow> dst_held k b ps c s"
  by (auto simp: dst_rep_def dst_held_def ring_holds_def)

lemma dst_held_revoke:
  assumes held: "dst_held k b ps c s"
  shows "if c < length ps
    then \<exists>t d. CE_revoke_recv_next s = Some (Some d, t) \<and> dn_context d = fst (ps ! c) \<and> dst_held k b ps (Suc c) t
    else CE_revoke_recv_next s = Some (None, s)"
proof -
  obtain r where r: "dest_ring s = Some r" using held by (auto simp: dst_held_def)
  have m: "unat (nentries_mask r) = 2 ^ k - Suc 0" and sw: "unat (sw_index r) = (b + c) mod 2 ^ k"
    and wr: "unat (write_index r) = (b + length ps) mod 2 ^ k" and ord: "c \<le> length ps" "length ps < c + 2 ^ k"
    and lens: "length (ring_desc r) = 2 ^ k" "length (per_transfer_context r) = 2 ^ k"
    using held r by (auto simp: dst_held_def ring_holds_def)
  have eq: "write_index r = sw_index r \<longleftrightarrow> length ps = c"
    using sw wr ord ring_pos_inject [of b "length ps" "2 ^ k" c c] by (auto simp flip: unat_inject)
  show ?thesis
  proof (cases "c < length ps")
    case False
    then show ?thesis using eq ord by (simp add: CE_revoke_recv_next_def r Let_def)
  next
    case True
    then have "per_transfer_context r ! ((b + c) mod 2 ^ k) = fst (ps ! c)"
      using held r by (auto simp: dst_held_def ring_holds_def)
    then show ?thesis using True held eq
      by (auto simp: CE_revoke_recv_next_def r Let_def sw lens dst_held_def CE_RING_IDX_INCR_count [OF m sw]
          intro: ring_holds_clear)
  qed
qed

lemma recv_cleanup_held:
  assumes "dst_held k b ps c s"
  shows "\<exists>t. recv_cleanup_loop s = Some (map fst (drop c ps), t)"
  using assms
proof (induction "length ps - c" arbitrary: c s)
  case 0
  then have "\<not> c < length ps" by simp
  then show ?case using dst_held_revoke [OF "0.prems"] by (subst recv_cleanup_loop.simps) simp
next
  case (Suc n)
  then have c: "c < length ps" by simp
  then obtain t d where t: "CE_revoke_recv_next s = Some (Some d, t)" "dn_context d = fst (ps ! c)" "dst_held k b ps (Suc c) t"
    using dst_held_revoke [OF Suc.prems] by auto
  have "n = length ps - Suc c" using Suc.hyps(2) by simp
  note ih = Suc.hyps(1) [OF this t(3)]
  show ?case using ih t c by (subst recv_cleanup_loop.simps) (auto simp: Cons_nth_drop_Suc [symmetric])
qed

end
