(* ===== verification/Ce_Reach.thy ===== *)
theory Ce_Reach
  imports Copy_Engine_Props
begin

text \<open>
  The copy engine from its initialisation on: the events of the host (sending, reaping completions,
  posting buffers, receiving) and of the device (taking a request, taking a posted buffer, filling it)
  in any order.
\<close>

section \<open>The size of a ring\<close>

lemma pwr2_loop_least:
  assumes "unat test = 2 ^ j" and "2 ^ j \<le> 2 * unat n" "unat n < 2 ^ (j + i)" "j + i < 32"
  shows "\<exists>k \<le> j + i. unat (pwr2_loop (Suc i) test n) = 2 ^ k \<and> unat n < 2 ^ k \<and> 2 ^ k \<le> 2 * unat n"
  using assms
proof (induction i arbitrary: j test)
  case 0
  then show ?case by (auto simp: word_less_nat_alt)
next
  case (Suc i)
  show ?case
  proof (cases "n < test")
    case True
    then show ?thesis using Suc.prems by (auto simp: word_less_nat_alt intro!: exI [of _ j])
  next
    case False
    have "(2::nat) ^ Suc j < 2 ^ 32" using Suc.prems(4) by (intro power_strict_increasing) auto
    then have "unat (push_bit 1 test) = 2 ^ Suc j"
      using Suc.prems(1) by (simp add: unat_word_ariths)
    moreover have "2 ^ Suc j \<le> 2 * unat n" using False Suc.prems(1) by (simp add: word_less_nat_alt)
    ultimately show ?thesis using Suc.IH [of "push_bit 1 test" "Suc j"] Suc.prems False by simp
  qed
qed

lemma pow2_and_pred:
  fixes n :: "'a::len word"
  assumes "n \<noteq> 0"
  shows "n AND (n - 1) = 0 \<longleftrightarrow> (\<exists>k. unat n = 2 ^ k)"
proof
  assume "\<exists>k. unat n = 2 ^ k"
  then obtain k where k: "unat n = 2 ^ k" ..
  have "unat (n - 1) = 2 ^ k - Suc 0" using assms k by (simp add: unat_minus_one)
  then have "unat (n AND (n - 1)) = 2 ^ k mod 2 ^ k" by (simp only: unat_and_mask k)
  then show "n AND (n - 1) = 0" by (simp flip: unat_zero_iff)
next
  assume z: "n AND (n - 1) = 0"
  have "0 < unat n" using assms by (simp add: unat_gt_0)
  then obtain k where k: "2 ^ k \<le> unat n" "unat n < 2 ^ Suc k"
    using ex_power_ivl1 [of 2 "unat n"] by auto
  have "unat n = 2 ^ k"
  proof (rule ccontr)
    assume "unat n \<noteq> 2 ^ k"
    then have "2 ^ k \<le> unat (n - 1)" "unat (n - 1) < 2 ^ Suc k" using k assms by (auto simp: unat_minus_one)
    then have "unat n div 2 ^ k = 1" "unat (n - 1) div 2 ^ k = 1"
      using k by (auto intro!: div_nat_eqI)
    then have "bit (unat n) k" "bit (unat (n - 1)) k" by (simp_all add: bit_iff_odd)
    then have "bit (unat n AND unat (n - 1)) k" by (simp only: bit_and_iff)
    moreover have "unat n AND unat (n - 1) = 0" using z by (simp flip: unsigned_and_eq)
    ultimately show False by simp
  qed
  then show "\<exists>k. unat n = 2 ^ k" ..
qed

lemma roundup_pwr2_least:
  assumes "n \<noteq> 0" and "unat n \<le> 2 ^ 30"
  shows "\<exists>k \<le> 30. unat (roundup_pwr2 n) = 2 ^ k \<and> unat n \<le> 2 ^ k \<and> 2 ^ k < 2 * unat n"
proof (cases "n AND (n - 1) = 0")
  case True
  then obtain k where k: "unat n = 2 ^ k" using pow2_and_pred assms(1) by blast
  have "k \<le> 30" using assms(2) unfolding k by (rule power_le_imp_le_exp [rotated]) simp
  then show ?thesis using True k by (auto simp: roundup_pwr2_def)
next
  case False
  then have np: "unat n \<noteq> 2 ^ k" for k using pow2_and_pred assms(1) by blast
  have "unat n < 2 ^ 30" using assms(2) np [of 30] by simp
  moreover have "2 \<le> unat n" using np [of 0] np [of 1] assms(1) unat_zero_iff [of n] by (cases "unat n") auto
  ultimately obtain k where k: "k \<le> 2 + 28" "unat (pwr2_loop (Suc 28) 4 n) = 2 ^ k" "unat n < 2 ^ k" "2 ^ k \<le> 2 * unat n"
    using pwr2_loop_least [of "4 :: u32" 2 n 28] by auto
  have "2 ^ k < 2 * unat n"
  proof (rule ccontr)
    assume "\<not> ?thesis"
    then have "2 ^ k = 2 * unat n" using k by simp
    then show False using np [of "k - 1"] by (cases k) auto
  qed
  then show ?thesis using k False by (auto simp: roundup_pwr2_def)
qed

section \<open>Steps\<close>

text \<open>
  The engine with what the two sides handed in and got back.  \<open>sends_read\<close> counts the requests the
  device is done with; \<open>fill_index\<close> is the position the device fills next.
\<close>

record ce_sys =
  eng :: copy_engine
  requests :: "ce_request list"
  completions :: "ce_done list"
  sends_read :: nat
  posts :: "(u64 \<times> u32) list"
  fills :: "ce_fill list"
  fill_index :: nat
  receipts :: "ce_done list"

definition option_list :: "'a option \<Rightarrow> 'a list" where
  "option_list x = (case x of None \<Rightarrow> [] | Some y \<Rightarrow> [y])"

definition ce_dest_size :: "copy_engine \<Rightarrow> nat" where
  "ce_dest_size s = (case dest_ring s of None \<Rightarrow> 0 | Some r \<Rightarrow> unat (nentries r))"

inductive ce_step :: "ce_sys \<Rightarrow> ce_sys \<Rightarrow> bool" where
  send: "ce_send_request q (eng x) = Some (st, t) \<Longrightarrow>
    ce_step x (x\<lparr>eng := t, requests := requests x @ (if st = A_OK then [q] else [])\<rparr>)"
| device_send: "reg_src_read (eng x) \<noteq> reg_src_write (eng x) \<Longrightarrow>
    ce_step x (x\<lparr>eng := ce_src_device (eng x), sends_read := Suc (sends_read x)\<rparr>)"
| complete: "CE_completed_send_next_nolock (eng x) = Some (d, t) \<Longrightarrow>
    ce_step x (x\<lparr>eng := t, completions := completions x @ option_list d\<rparr>)"
| post: "CE_recv_buf_enqueue (fst q) (snd q) (eng x) = Some (st, t) \<Longrightarrow>
    ce_step x (x\<lparr>eng := t, posts := posts x @ (if st = A_OK then [q] else [])\<rparr>)"
| device_take: "reg_dest_read (eng x) \<noteq> reg_dest_write (eng x) \<Longrightarrow> ce_step x (x\<lparr>eng := ce_dest_take (eng x)\<rparr>)"
| device_fill: "fill_index x \<noteq> unat (reg_dest_read (eng x)) \<Longrightarrow> fst f \<noteq> 0 \<Longrightarrow>
    ce_step x (x\<lparr>eng := ce_dest_fill (fill_index x) f (eng x), fills := fills x @ [f],
                 fill_index := Suc (fill_index x) mod ce_dest_size (eng x)\<rparr>)"
| receive: "CE_completed_recv_next_nolock (eng x) = Some (d, t) \<Longrightarrow>
    ce_step x (x\<lparr>eng := t, receipts := receipts x @ option_list d\<rparr>)"

inductive_cases ce_step_cases: "ce_step x y"

text \<open>
  An engine with both rings just set up, the memory of the source ring large enough, and the device at
  rest: it has nothing to read.
\<close>

definition ce_start :: "u32 \<Rightarrow> u32 \<Rightarrow> ce_sys \<Rightarrow> bool" where
  "ce_start n_src n_dest x \<longleftrightarrow> n_src \<noteq> 0 \<and> n_dest \<noteq> 0 \<and> unat n_src \<le> 2 ^ 30 \<and> unat n_dest \<le> 2 ^ 30 \<and>
     (\<exists>s junk junk'. src_ring s = None \<and> dest_ring s = None \<and>
        unat (roundup_pwr2 n_src) \<le> length junk \<and> unat (roundup_pwr2 n_src) \<le> length junk' \<and>
        reg_src_read s = reg_src_write s \<and> reg_src_read s < roundup_pwr2 n_src \<and>
        reg_dest_read s = reg_dest_write s \<and> reg_dest_read s < roundup_pwr2 n_dest \<and>
        eng x = ce_init_dest n_dest (ce_init_src junk junk' n_src s)) \<and>
     requests x = [] \<and> completions x = [] \<and> sends_read x = 0 \<and> posts x = [] \<and> fills x = [] \<and>
     fill_index x = unat (reg_dest_read (eng x)) \<and> receipts x = []"

inductive ce_reach :: "u32 \<Rightarrow> u32 \<Rightarrow> ce_sys \<Rightarrow> bool" for n_src n_dest where
  start: "ce_start n_src n_dest x \<Longrightarrow> ce_reach n_src n_dest x"
| step: "ce_reach n_src n_dest x \<Longrightarrow> ce_step x y \<Longrightarrow> ce_reach n_src n_dest y"

section \<open>The invariant\<close>

definition src_inv :: "nat \<Rightarrow> nat \<Rightarrow> nat \<Rightarrow> nat \<Rightarrow> ce_sys \<Rightarrow> bool" where
  "src_inv k b h v x \<longleftrightarrow> src_rep k b (requests x) (length (completions x)) h (sends_read x) v (eng x) \<and>
     map (ce_request_done (ce_send_context (eng x))) (take (length (completions x)) (requests x)) = completions x"

definition dst_inv :: "nat \<Rightarrow> nat \<Rightarrow> nat \<Rightarrow> ce_sys \<Rightarrow> bool" where
  "dst_inv k b m x \<longleftrightarrow> dst_rep k b (posts x) (fills x) (length (receipts x)) m (eng x) \<and>
     fill_index x = (b + length (fills x)) mod 2 ^ k \<and>
     map (\<lambda>(q, f). ce_received (ce_recv_context (eng x)) q f)
       (take (length (receipts x)) (zip (posts x) (fills x))) = receipts x"

definition ce_inv :: "nat \<Rightarrow> nat \<Rightarrow> ce_sys \<Rightarrow> bool" where
  "ce_inv k k' x \<longleftrightarrow> (\<exists>b h v. src_inv k b h v x) \<and> (\<exists>b m. dst_inv k' b m x)"

text \<open>Each side leaves the other's ring alone.\<close>

definition dst_part :: "copy_engine \<Rightarrow> ce_ring option \<times> u32 \<times> u32 \<times> u64" where
  "dst_part s = (dest_ring s, reg_dest_read s, reg_dest_write s, ce_recv_context s)"

definition src_part :: "copy_engine \<Rightarrow> ce_ring option \<times> u32 \<times> u32 \<times> u64 \<times> bool" where
  "src_part s = (src_ring s, reg_src_read s, reg_src_write s, ce_send_context s, ce_byte_swap_data s)"

lemma dst_rep_part: "dst_part t = dst_part s \<Longrightarrow> dst_rep k b ps fs c m t = dst_rep k b ps fs c m s"
  by (simp add: dst_part_def dst_rep_def)

lemma src_rep_part: "src_part t = src_part s \<Longrightarrow> src_rep k b qs c h p v t = src_rep k b qs c h p v s"
  by (simp add: src_part_def src_rep_def)

lemma dst_part_send: "CE_send_nolock ctxt buf n i fl s = Some (st, t) \<Longrightarrow> dst_part t = dst_part s"
  by (auto simp: CE_send_nolock_def dst_part_def Let_def split: option.splits if_splits)

lemma dst_part_device: "dst_part (ce_src_device s) = dst_part s"
  by (simp add: ce_src_device_def dst_part_def split: option.split)

lemma dst_part_complete: "CE_completed_send_next_nolock s = Some (d, t) \<Longrightarrow> dst_part t = dst_part s"
  by (auto simp: CE_completed_send_next_nolock_def dst_part_def Let_def split: option.splits if_splits)

lemma src_part_post: "CE_recv_buf_enqueue ctxt buf s = Some (st, t) \<Longrightarrow> src_part t = src_part s"
  by (auto simp: CE_recv_buf_enqueue_def src_part_def Let_def split: option.splits if_splits)

lemma src_part_take: "src_part (ce_dest_take s) = src_part s"
  by (simp add: ce_dest_take_def src_part_def split: option.split)

lemma src_part_fill: "src_part (ce_dest_fill i f s) = src_part s"
  by (simp add: ce_dest_fill_def src_part_def split: option.split)

lemma src_part_receive: "CE_completed_recv_next_nolock s = Some (d, t) \<Longrightarrow> src_part t = src_part s"
  by (auto simp: CE_completed_recv_next_nolock_def src_part_def Let_def split: option.splits if_splits)

lemmas ce_parts = dst_part_send dst_part_device dst_part_complete src_part_post src_part_take src_part_fill
  src_part_receive

text \<open>Events that leave a side's ring and its record alone keep its part of the invariant.\<close>

lemma src_inv_frame:
  "src_inv k b h v x \<Longrightarrow> src_part (eng y) = src_part (eng x) \<Longrightarrow> requests y = requests x \<Longrightarrow>
   completions y = completions x \<Longrightarrow> sends_read y = sends_read x \<Longrightarrow> src_inv k b h v y"
  unfolding src_inv_def using src_rep_part [of "eng y" "eng x"] by (auto simp: src_part_def)

lemma dst_inv_frame:
  "dst_inv k b m x \<Longrightarrow> dst_part (eng y) = dst_part (eng x) \<Longrightarrow> posts y = posts x \<Longrightarrow> fills y = fills x \<Longrightarrow>
   fill_index y = fill_index x \<Longrightarrow> receipts y = receipts x \<Longrightarrow> dst_inv k b m y"
  unfolding dst_inv_def using dst_rep_part [of "eng y" "eng x"] by (auto simp: dst_part_def)

lemma src_rep_counts: "src_rep k b qs c h p v s \<Longrightarrow> c \<le> p \<and> p \<le> length qs \<and> length qs < c + 2 ^ k"
  by (auto simp: src_rep_def)

lemma dst_rep_counts:
  "dst_rep k b ps fs c m s \<Longrightarrow> c \<le> length fs \<and> length fs \<le> m \<and> m \<le> length ps \<and> length ps < c + 2 ^ k"
  by (auto simp: dst_rep_def)

lemma src_inv_send:
  assumes inv: "src_inv k b h v x" and "ce_send_request q (eng x) = Some (st, t)"
  shows "\<exists>v'. src_inv k b h v' (x\<lparr>eng := t, requests := requests x @ (if st = A_OK then [q] else [])\<rparr>)"
proof -
  have rep: "src_rep k b (requests x) (length (completions x)) h (sends_read x) v (eng x)"
    and cs: "map (ce_request_done (ce_send_context (eng x))) (take (length (completions x)) (requests x)) = completions x"
    using inv by (auto simp: src_inv_def)
  note len = src_rep_counts [OF rep]
  show ?thesis
  proof (cases "Suc (length (requests x)) = length (completions x) + 2 ^ k")
    case True
    then have "st = A_ERROR" "src_part t = src_part (eng x)"
      using src_rep_send [OF rep, of q] assms(2) by (auto simp: src_part_def)
    then show ?thesis by (auto intro!: exI [of _ v] src_inv_frame [OF inv])
  next
    case False
    then have "st = A_OK" "ce_send_context t = ce_send_context (eng x)"
      "\<exists>v'. src_rep k b (requests x @ [q]) (length (completions x)) h (sends_read x) v' t"
      using src_rep_send [OF rep, of q] assms(2) by auto
    then show ?thesis using cs len by (auto simp: src_inv_def)
  qed
qed

lemma src_inv_device:
  assumes inv: "src_inv k b h v x" and "reg_src_read (eng x) \<noteq> reg_src_write (eng x)"
  shows "src_inv k b h v (x\<lparr>eng := ce_src_device (eng x), sends_read := Suc (sends_read x)\<rparr>)"
  using inv src_rep_device [OF _ assms(2)] by (auto simp: src_inv_def)

lemma src_inv_complete:
  assumes inv: "src_inv k b h v x" and "CE_completed_send_next_nolock (eng x) = Some (d, t)"
  shows "\<exists>h'. src_inv k b h' v (x\<lparr>eng := t, completions := completions x @ option_list d\<rparr>)"
proof -
  have rep: "src_rep k b (requests x) (length (completions x)) h (sends_read x) v (eng x)"
    and cs: "map (ce_request_done (ce_send_context (eng x))) (take (length (completions x)) (requests x)) = completions x"
    using inv by (auto simp: src_inv_def)
  note len = src_rep_counts [OF rep]
  show ?thesis
  proof (cases "length (completions x) < sends_read x")
    case True
    then have "d = Some (ce_request_done (ce_send_context (eng x)) (requests x ! length (completions x)))"
      "ce_send_context t = ce_send_context (eng x)"
      "\<exists>h'. src_rep k b (requests x) (Suc (length (completions x))) h' (sends_read x) v t"
      using src_rep_complete [OF rep] assms(2) by auto
    then show ?thesis using cs len True by (auto simp: src_inv_def option_list_def take_Suc_conv_app_nth)
  next
    case False
    then have "d = None" "ce_send_context t = ce_send_context (eng x)"
      "\<exists>h'. src_rep k b (requests x) (length (completions x)) h' (sends_read x) v t"
      using src_rep_complete [OF rep] assms(2) by auto
    then show ?thesis using cs by (auto simp: src_inv_def option_list_def)
  qed
qed

lemma dst_inv_post:
  assumes inv: "dst_inv k b m x" and "CE_recv_buf_enqueue (fst q) (snd q) (eng x) = Some (st, t)"
  shows "dst_inv k b m (x\<lparr>eng := t, posts := posts x @ (if st = A_OK then [q] else [])\<rparr>)"
proof -
  have rep: "dst_rep k b (posts x) (fills x) (length (receipts x)) m (eng x)" using inv by (simp add: dst_inv_def)
  note len = dst_rep_counts [OF rep]
  show ?thesis using inv dst_rep_post [OF rep, of "fst q" "snd q"] assms(2) len
    by (auto simp: dst_inv_def zip_append1 split: if_splits)
qed

lemma dst_inv_take:
  assumes inv: "dst_inv k b m x" and "reg_dest_read (eng x) \<noteq> reg_dest_write (eng x)"
  shows "dst_inv k b (Suc m) (x\<lparr>eng := ce_dest_take (eng x)\<rparr>)"
  using inv dst_rep_take [OF _ assms(2)] by (auto simp: dst_inv_def)

lemma dst_inv_fill:
  assumes inv: "dst_inv k b m x" and "fill_index x \<noteq> unat (reg_dest_read (eng x))" and "fst f \<noteq> 0"
  shows "dst_inv k b m (x\<lparr>eng := ce_dest_fill (fill_index x) f (eng x), fills := fills x @ [f],
    fill_index := Suc (fill_index x) mod ce_dest_size (eng x)\<rparr>)"
proof -
  have rep: "dst_rep k b (posts x) (fills x) (length (receipts x)) m (eng x)"
    and fi: "fill_index x = (b + length (fills x)) mod 2 ^ k" using inv by (auto simp: dst_inv_def)
  have "length (fills x) < m" using rep fi assms(2) by (cases "length (fills x) = m") (auto simp: dst_rep_def)
  then have "dst_rep k b (posts x) (fills x @ [f]) (length (receipts x)) m (ce_dest_fill (fill_index x) f (eng x)) \<and>
    ce_recv_context (ce_dest_fill (fill_index x) f (eng x)) = ce_recv_context (eng x)"
    using dst_rep_fill [OF rep _ assms(3)] by (simp add: fi)
  moreover have "ce_dest_size (eng x) = 2 ^ k" using rep by (auto simp: dst_rep_def ce_dest_size_def)
  moreover note dst_rep_counts [OF rep]
  ultimately show ?thesis using inv
    by (auto simp: dst_inv_def mod_Suc_eq zip_append2 take_zip min_def)
qed

lemma dst_inv_receive:
  assumes inv: "dst_inv k b m x" and "CE_completed_recv_next_nolock (eng x) = Some (d, t)"
  shows "dst_inv k b m (x\<lparr>eng := t, receipts := receipts x @ option_list d\<rparr>)"
proof -
  have rep: "dst_rep k b (posts x) (fills x) (length (receipts x)) m (eng x)" using inv by (simp add: dst_inv_def)
  note len = dst_rep_counts [OF rep]
  show ?thesis using inv dst_rep_receive [OF rep] assms(2) len
    by (cases "length (receipts x) < length (fills x)")
       (auto simp: dst_inv_def option_list_def take_Suc_conv_app_nth)
qed

lemma ce_inv_step:
  assumes "ce_step x y" and inv: "ce_inv k k' x"
  shows "ce_inv k k' y"
proof -
  obtain b h v b' m where s: "src_inv k b h v x" and d: "dst_inv k' b' m x" using inv by (auto simp: ce_inv_def)
  have both: "ce_inv k k' z" if "src_inv k b h2 v2 z" "dst_inv k' b' m2 z" for h2 v2 m2 z
    using that by (auto simp: ce_inv_def)
  show ?thesis using assms(1)
  proof cases
    case (send q st t)
    obtain v' where "src_inv k b h v' y" using src_inv_send [OF s send(2)] send(1) by auto
    moreover have "dst_inv k' b' m y" by (rule dst_inv_frame [OF d]) (simp_all add: send(1) ce_parts(1) [OF send(2)])
    ultimately show ?thesis by (rule both)
  next
    case device_send
    have "dst_inv k' b' m y" by (rule dst_inv_frame [OF d]) (simp_all add: device_send(1) ce_parts)
    with src_inv_device [OF s device_send(2)] show ?thesis unfolding device_send(1) by (rule both)
  next
    case (complete r t)
    obtain h' where "src_inv k b h' v y" using src_inv_complete [OF s complete(2)] complete(1) by auto
    moreover have "dst_inv k' b' m y"
      by (rule dst_inv_frame [OF d]) (simp_all add: complete(1) dst_part_complete [OF complete(2)])
    ultimately show ?thesis by (rule both)
  next
    case (post q st t)
    have "src_inv k b h v y" by (rule src_inv_frame [OF s]) (simp_all add: post(1) src_part_post [OF post(2)])
    then show ?thesis using dst_inv_post [OF d post(2)] unfolding post(1) by (rule both)
  next
    case device_take
    have "src_inv k b h v y" by (rule src_inv_frame [OF s]) (simp_all add: device_take(1) ce_parts)
    then show ?thesis using dst_inv_take [OF d device_take(2)] unfolding device_take(1) by (rule both)
  next
    case (device_fill f)
    have "src_inv k b h v y" by (rule src_inv_frame [OF s]) (simp_all add: device_fill(1) ce_parts)
    then show ?thesis using dst_inv_fill [OF d device_fill(2,3)] unfolding device_fill(1) by (rule both)
  next
    case (receive r t)
    have "src_inv k b h v y" by (rule src_inv_frame [OF s]) (simp_all add: receive(1) src_part_receive [OF receive(2)])
    then show ?thesis using dst_inv_receive [OF d receive(2)] unfolding receive(1) by (rule both)
  qed
qed

lemma unat_pred: "(n :: 'a::len word) \<noteq> 0 \<Longrightarrow> unat (n - 1) = unat n - Suc 0"
  by (simp add: unat_minus_one)

lemma ce_inv_start:
  assumes st: "ce_start n_src n_dest x"
    and k: "unat (roundup_pwr2 n_src) = 2 ^ k" and k': "unat (roundup_pwr2 n_dest) = 2 ^ k'"
  shows "ce_inv k k' x"
proof -
  obtain s junk junk' where s: "src_ring s = None" "dest_ring s = None" "2 ^ k \<le> length junk" "2 ^ k \<le> length junk'"
    "reg_src_read s = reg_src_write s" "reg_src_read s < roundup_pwr2 n_src"
    "reg_dest_read s = reg_dest_write s" "reg_dest_read s < roundup_pwr2 n_dest"
    and x: "eng x = ce_init_dest n_dest (ce_init_src junk junk' n_src s)"
    "requests x = []" "completions x = []" "sends_read x = 0" "posts x = []" "fills x = []"
    "fill_index x = unat (reg_dest_read (eng x))" "receipts x = []" "n_src \<noteq> 0" "n_dest \<noteq> 0"
    using st k by (auto simp: ce_start_def)
  have nz: "roundup_pwr2 n_src \<noteq> 0" "roundup_pwr2 n_dest \<noteq> 0" using k k' by (auto simp flip: unat_zero_iff)
  have lt: "unat (reg_src_write s) < 2 ^ k" "unat (reg_dest_write s) < 2 ^ k'"
    using s k k' by (auto simp: word_less_nat_alt)
  have "src_inv k (unat (reg_src_read s)) 0 0 x"
    using s x nz lt k by (simp add: src_inv_def src_rep_def ce_init_dest_def ce_init_src_def Let_def unat_pred ring_holds_def)
  moreover have "dst_inv k' (unat (reg_dest_read s)) 0 x"
    using s x nz lt k' by (auto simp: dst_inv_def dst_rep_def ce_init_dest_def ce_init_src_def Let_def unat_pred
        ring_holds_def ce_desc_zero_def)
  ultimately show ?thesis by (auto simp: ce_inv_def)
qed

lemma ce_reach_start: "ce_reach n_src n_dest x \<Longrightarrow> \<exists>y. ce_start n_src n_dest y"
  by (induction rule: ce_reach.induct) auto

lemma ce_reach_inv:
  assumes "ce_reach n_src n_dest x"
  obtains k k' where "unat (roundup_pwr2 n_src) = 2 ^ k" "unat (roundup_pwr2 n_dest) = 2 ^ k'" "ce_inv k k' x"
proof -
  obtain y where "ce_start n_src n_dest y" using ce_reach_start [OF assms] ..
  then obtain k k' where k: "unat (roundup_pwr2 n_src) = 2 ^ k" "unat (roundup_pwr2 n_dest) = 2 ^ k'"
    using roundup_pwr2_least [of n_src] roundup_pwr2_least [of n_dest] by (auto simp: ce_start_def)
  from assms have "ce_inv k k' x"
    by (induction rule: ce_reach.induct) (auto intro: ce_inv_start k ce_inv_step)
  with k show thesis using that by blast
qed

lemma ce_reach_src:
  assumes "ce_reach n_src n_dest x"
  obtains k b h v where "unat (roundup_pwr2 n_src) = 2 ^ k"
    "src_rep k b (requests x) (length (completions x)) h (sends_read x) v (eng x)"
proof -
  obtain k k' where "unat (roundup_pwr2 n_src) = 2 ^ k" "ce_inv k k' x" using ce_reach_inv [OF assms] .
  then show thesis using that by (auto simp: ce_inv_def src_inv_def)
qed

lemma ce_reach_counts: "ce_reach n_src n_dest x \<Longrightarrow> length (completions x) \<le> length (requests x)"
  by (elim ce_reach_src) (drule src_rep_counts, simp)

text \<open>When there is room, a send is accepted.\<close>

lemma ce_reach_send:
  assumes "ce_reach n_src n_dest x"
    and "Suc (length (requests x) - length (completions x)) < unat (roundup_pwr2 n_src)"
  shows "\<exists>t. ce_send_request q (eng x) = Some (A_OK, t) \<and>
    ce_reach n_src n_dest (x\<lparr>eng := t, requests := requests x @ [q]\<rparr>)"
proof -
  obtain k b h v where k: "unat (roundup_pwr2 n_src) = 2 ^ k"
    and rep: "src_rep k b (requests x) (length (completions x)) h (sends_read x) v (eng x)"
    using ce_reach_src [OF assms(1)] .
  obtain t where t: "ce_send_request q (eng x) = Some (A_OK, t)"
    using src_rep_send [OF rep, of q] src_rep_counts [OF rep] assms(2) k
    by (cases "Suc (length (requests x)) = length (completions x) + 2 ^ k") auto
  then have "ce_step x (x\<lparr>eng := t, requests := requests x @ [q]\<rparr>)" using ce_step.send [OF t] by simp
  then show ?thesis using t assms(1) ce_reach.step by blast
qed

lemma ce_reach_room:
  assumes "ce_reach n_src n_dest x"
  shows "\<exists>r. src_ring (eng x) = Some r \<and> (n \<le> CE_RING_DELTA (nentries_mask r) (write_index r) (sw_index r - 1) \<longleftrightarrow>
    length (requests x) - length (completions x) + unat n < unat (roundup_pwr2 n_src))"
proof -
  obtain k b h v where k: "unat (roundup_pwr2 n_src) = 2 ^ k"
    and rep: "src_rep k b (requests x) (length (completions x)) h (sends_read x) v (eng x)"
    using ce_reach_src [OF assms] .
  obtain r where r: "src_ring (eng x) = Some r" using rep by (auto simp: src_rep_def)
  show ?thesis using src_room [OF rep r] src_rep_counts [OF rep] k r by (simp add: word_le_nat_alt) arith
qed

definition ce_item_request :: "u64 \<Rightarrow> u32 \<Rightarrow> u32 \<Rightarrow> ce_sendlist_item \<Rightarrow> ce_request" where
  "ce_item_request ctxt i gather it = \<lparr>rq_context = ctxt, rq_buffer = item_data it, rq_nbytes = item_nbytes it,
     rq_id = i, rq_flags = item_flags it OR gather\<rparr>"

abbreviation ce_gather_request :: "u32 \<Rightarrow> ce_sendlist_item \<Rightarrow> ce_request" where
  "ce_gather_request i \<equiv> ce_item_request CE_SENDLIST_ITEM_CTXT i CE_SEND_FLAG_GATHER"

lemma sendlist_loop_reach:
  assumes "ce_reach n_src n_dest x" and "length (requests x) - length (completions x) + n < unat (roundup_pwr2 n_src)"
    and "i + n \<le> length (sl_item sl)"
  shows "\<exists>t. sendlist_loop n i sl tid (eng x) = Some t \<and>
    ce_reach n_src n_dest (x\<lparr>eng := t, requests := requests x @ map (ce_gather_request tid) (take n (drop i (sl_item sl)))\<rparr>)"
  using assms
proof (induction n arbitrary: i x)
  case 0
  then show ?case by simp
next
  case (Suc n)
  let ?q = "ce_gather_request tid (sl_item sl ! i)"
  obtain t where t: "ce_send_request ?q (eng x) = Some (A_OK, t)"
    "ce_reach n_src n_dest (x\<lparr>eng := t, requests := requests x @ [?q]\<rparr>)"
    using ce_reach_send [OF Suc.prems(1), of ?q] Suc.prems(2) by auto
  moreover have "take (Suc n) (drop i (sl_item sl)) = sl_item sl ! i # take n (drop (Suc i) (sl_item sl))"
    using Suc.prems(3) by (simp add: Cons_nth_drop_Suc [symmetric])
  ultimately show ?case using Suc.IH [OF t(2), of "Suc i"] Suc.prems ce_reach_counts [OF Suc.prems(1)]
    by (auto simp: ce_item_request_def Suc_diff_le)
qed

section \<open>Properties\<close>

text \<open>C18.
  Sends complete in the order they were accepted, each once, with their own context and buffer and with
  their length and id cut to the 16 and 14 bits of the descriptor, and none before the device is done
  with it.  \<close>

theorem ce_sends_complete_in_order:
  assumes "ce_reach n_src n_dest x"
  shows "completions x = map (ce_request_done (ce_send_context (eng x))) (take (length (completions x)) (requests x)) \<and>
    length (completions x) \<le> sends_read x \<and> sends_read x \<le> length (requests x) \<and>
    (\<exists>t. CE_completed_send_next_nolock (eng x) = Some
       (if length (completions x) < sends_read x
        then Some (ce_request_done (ce_send_context (eng x)) (requests x ! length (completions x))) else None, t))"
proof -
  obtain k k' where "ce_inv k k' x" using ce_reach_inv [OF assms] .
  then obtain b h v where inv: "src_inv k b h v x" by (auto simp: ce_inv_def)
  then have rep: "src_rep k b (requests x) (length (completions x)) h (sends_read x) v (eng x)"
    by (simp add: src_inv_def)
  show ?thesis using inv src_rep_complete [OF rep] src_rep_counts [OF rep] by (auto simp: src_inv_def)
qed

text \<open>C19.
  Buffers are received in the order they were posted, each once, with the length, id and swap flag the
  device wrote for it, and only once the device has filled it, also when its index is seen before the
  descriptor.  \<close>

theorem ce_receives_in_order:
  assumes "ce_reach n_src n_dest x"
  shows "receipts x = map (\<lambda>(q, f). ce_received (ce_recv_context (eng x)) q f)
      (take (length (receipts x)) (zip (posts x) (fills x))) \<and>
    length (receipts x) \<le> length (fills x) \<and> length (fills x) \<le> length (posts x) \<and>
    (\<exists>t. CE_completed_recv_next_nolock (eng x) = Some
       (if length (receipts x) < length (fills x)
        then Some (ce_received (ce_recv_context (eng x)) (posts x ! length (receipts x)) (fills x ! length (receipts x)))
        else None, t))"
proof -
  obtain k' k where "ce_inv k' k x" using ce_reach_inv [OF assms] .
  then obtain b m where inv: "dst_inv k b m x" by (auto simp: ce_inv_def)
  then have rep: "dst_rep k b (posts x) (fills x) (length (receipts x)) m (eng x)" by (simp add: dst_inv_def)
  show ?thesis using inv dst_rep_receive [OF rep] dst_rep_counts [OF rep] by (auto simp: dst_inv_def)
qed



text \<open>A send list is sent as a whole or not at all: it is a run of sends, its buffers following each other in
  the ring, all but the last marked as gathered and with the context of an inner item, the last with the
  caller's context; when the ring has not room for all of them nothing changes.\<close>

lemma ce_sendlist_all_or_nothing:
  assumes "ce_reach n_src n_dest x" and "num_items sl \<noteq> 0" and "unat (num_items sl) \<le> length (sl_item sl)"
  shows "let n = unat (num_items sl);
      qs = map (ce_item_request CE_SENDLIST_ITEM_CTXT tid CE_SEND_FLAG_GATHER) (take (n - 1) (sl_item sl)) @
        [ce_item_request ctxt tid 0 (sl_item sl ! (n - 1))]
    in if length (requests x) - length (completions x) + n < unat (roundup_pwr2 n_src)
       then \<exists>t. CE_sendlist_send ctxt sl tid (eng x) = Some (A_OK, t) \<and>
         ce_reach n_src n_dest (x\<lparr>eng := t, requests := requests x @ qs\<rparr>)
       else CE_sendlist_send ctxt sl tid (eng x) = Some (A_ENOMEM, eng x)"
proof -
  let ?n = "unat (num_items sl)" and ?N = "unat (roundup_pwr2 n_src)"
  obtain r where r: "src_ring (eng x) = Some r" and room: "num_items sl \<le> CE_RING_DELTA (nentries_mask r) (write_index r) (sw_index r - 1) \<longleftrightarrow>
      length (requests x) - length (completions x) + ?n < ?N"
    using ce_reach_room [OF assms(1)] by blast
  have last: "unat (num_items sl - 1) = ?n - 1" and pos: "0 < ?n" using assms(2) by (simp_all add: unat_minus_one unat_gt_0)
  show ?thesis
  proof (cases "length (requests x) - length (completions x) + ?n < ?N")
    case False
    then show ?thesis by (simp add: CE_sendlist_send_def r room Let_def)
  next
    case True
    let ?gs = "map (ce_gather_request tid) (take (?n - 1) (sl_item sl))"
    let ?q = "ce_item_request ctxt tid 0 (sl_item sl ! (?n - 1))"
    have fits: "length (requests x) - length (completions x) + (?n - 1) < ?N" "0 + (?n - 1) \<le> length (sl_item sl)"
      using True assms(3) by auto
    obtain t where t: "sendlist_loop (?n - 1) 0 sl tid (eng x) = Some t"
      "ce_reach n_src n_dest (x\<lparr>eng := t, requests := requests x @ ?gs\<rparr>)"
      using sendlist_loop_reach [OF assms(1) fits] by auto
    have "Suc (length (requests x @ ?gs) - length (completions x)) < ?N"
      using True assms(3) pos ce_reach_counts [OF assms(1)] by simp
    then obtain u where u: "ce_send_request ?q t = Some (A_OK, u)"
      "ce_reach n_src n_dest (x\<lparr>eng := u, requests := (requests x @ ?gs) @ [?q]\<rparr>)"
      using ce_reach_send [OF t(2), of ?q] by auto
    then show ?thesis using True t(1) assms(3) pos
      by (auto simp: CE_sendlist_send_def r room last ce_item_request_def Let_def)
  qed
qed

text \<open>C22.
  An index register that reads past the ring is refused but stays cached, and the register is not read
  again: when the bad value is all ones every later call reports nothing, whatever the device has done;
  when it is another one the next call completes a request the device has not read, even though the
  register is good again.  \<close>

theorem ce_bad_index_sticks:
  assumes "ce_reach n_src n_dest x" and "length (completions x) = sends_read x" "sends_read x < length (requests x)"
    and "roundup_pwr2 n_src \<le> bad"
  shows "\<exists>t. CE_completed_send_next_nolock ((eng x)\<lparr>reg_src_read := bad\<rparr>) = Some (None, t) \<and>
    (if bad = 0xffffffff then CE_completed_send_next_nolock (t\<lparr>reg_src_read := good\<rparr>) = Some (None, t\<lparr>reg_src_read := good\<rparr>)
     else \<exists>u. CE_completed_send_next_nolock (t\<lparr>reg_src_read := good\<rparr>) =
            Some (Some (ce_request_done (ce_send_context (eng x)) (requests x ! sends_read x)), u))"
proof -
  obtain k b h v where k: "unat (roundup_pwr2 n_src) = 2 ^ k"
    and rep: "src_rep k b (requests x) (length (completions x)) h (sends_read x) v (eng x)"
    using ce_reach_src [OF assms(1)] .
  then have rep: "src_rep k b (requests x) (sends_read x) h (sends_read x) v (eng x)" by (simp add: assms(2))
  obtain r where r: "src_ring (eng x) = Some r" using rep by (auto simp: src_rep_def)
  have sw: "unat (sw_index r) = (b + sends_read x) mod 2 ^ k" and hw: "hw_index r = sw_index r"
    and n: "nentries r = roundup_pwr2 n_src"
    and lens: "length (shadow_desc r) = 2 ^ k" "length (per_transfer_context r) = 2 ^ k"
    and get: "shadow_desc r ! ((b + sends_read x) mod 2 ^ k) = ce_request_desc (ce_byte_swap_data (eng x)) (requests x ! sends_read x)"
      "per_transfer_context r ! ((b + sends_read x) mod 2 ^ k) = rq_context (requests x ! sends_read x)"
    using rep r assms(3) k by (auto simp: src_rep_def ring_holds_def simp flip: unat_inject)
  have "bad \<noteq> sw_index r"
  proof
    assume "bad = sw_index r"
    then have "unat (roundup_pwr2 n_src) \<le> unat (sw_index r)" using assms(4) by (simp add: word_le_nat_alt)
    moreover have "unat (sw_index r) < 2 ^ k" by (simp add: sw)
    ultimately show False using k by simp
  qed
  then show ?thesis using assms(4) n
    by (auto simp: CE_completed_send_next_nolock_def r hw ce_idx_invalid_def Let_def sw lens get
        ce_request_desc_def ce_request_done_def)
qed

text \<open>The size of a ring is the least power of two that holds the entries asked for, up to 2^30 of them: the
  double of a smaller number would do.  \<close>

theorem ce_ring_size:
  assumes "n \<noteq> 0" and "unat n \<le> 2 ^ 30"
  shows "\<exists>k. unat (roundup_pwr2 n) = 2 ^ k \<and> unat n \<le> 2 ^ k \<and> (\<forall>j < k. 2 ^ j < unat n)"
proof -
  obtain k where k: "unat (roundup_pwr2 n) = 2 ^ k" "unat n \<le> 2 ^ k" "2 ^ k < 2 * unat n"
    using roundup_pwr2_least [OF assms] by blast
  have "2 ^ j < unat n" if "j < k" for j
  proof -
    have "(2::nat) ^ Suc j \<le> 2 ^ k" using that by (intro power_increasing) auto
    then show ?thesis using k(3) by simp
  qed
  then show ?thesis using k by blast
qed

section \<open>Instances\<close>

definition ce_demo_request :: ce_request where
  "ce_demo_request = \<lparr>rq_context = 17, rq_buffer = 8192, rq_nbytes = 70000, rq_id = 3, rq_flags = 0\<rparr>"

definition ce_demo_engine :: copy_engine where
  "ce_demo_engine = \<lparr>ce_byte_swap_data = False, ce_send_context = 5, ce_recv_context = 6, src_ring = None,
     dest_ring = None, reg_src_write = 3, reg_src_read = 3, reg_dest_write = 0, reg_dest_read = 0,
     ce_ring_delta_fail_count = 0\<rparr>"

definition ce_demo :: ce_sys where
  "ce_demo = \<lparr>eng = ce_init_dest 3 (ce_init_src (replicate 4 ce_desc_zero) (replicate 4 ce_desc_zero) 4 ce_demo_engine),
     requests = [], completions = [], sends_read = 0, posts = [], fills = [], fill_index = 0, receipts = []\<rparr>"

lemma pwr2_loop_hit: "n < test \<Longrightarrow> 0 < i \<Longrightarrow> pwr2_loop i test n = test"
  by (cases i) auto

lemma ce_demo_sizes: "roundup_pwr2 4 = 4" "roundup_pwr2 3 = 4"
  by (simp_all add: roundup_pwr2_def pwr2_loop_hit)

lemma ce_demo_reach: "ce_reach 4 3 ce_demo"
proof (rule ce_reach.start)
  show "ce_start 4 3 ce_demo"
    unfolding ce_start_def
    by (intro conjI exI [of _ ce_demo_engine] exI [of _ "replicate 4 ce_desc_zero"])
       (simp_all add: ce_demo_def ce_demo_engine_def ce_demo_sizes ce_init_dest_def ce_init_src_def Let_def)
qed

text \<open>A run: a send, a buffer posted, the device doing both, the host reaping both.\<close>

definition ce_after :: "(copy_engine \<Rightarrow> ('a \<times> copy_engine) option) \<Rightarrow> ce_sys \<Rightarrow> ce_sys" where
  "ce_after f x = x\<lparr>eng := snd (the (f (eng x)))\<rparr>"

definition ce_demo_posted :: ce_sys where
  "ce_demo_posted = (ce_after (CE_recv_buf_enqueue 9 4096) (ce_after (ce_send_request ce_demo_request) ce_demo))
     \<lparr>requests := [ce_demo_request], posts := [(9, 4096)]\<rparr>"

definition ce_demo_filled :: ce_sys where
  "ce_demo_filled = ce_demo_posted\<lparr>eng := ce_dest_fill 0 (60, 2, True) (ce_dest_take (ce_src_device (eng ce_demo_posted))),
     sends_read := 1, fills := [(60, 2, True)], fill_index := 1\<rparr>"

definition ce_demo_reaped :: ce_sys where
  "ce_demo_reaped = (ce_after CE_completed_recv_next_nolock (ce_after CE_completed_send_next_nolock ce_demo_filled))
     \<lparr>completions := [\<lparr>dn_ce_context = 5, dn_context = 17, dn_buffer = 8192, dn_nbytes = 4464, dn_id = 3, dn_flags = 0\<rparr>],
      receipts := [\<lparr>dn_ce_context = 6, dn_context = 9, dn_buffer = 4096, dn_nbytes = 60, dn_id = 2, dn_flags = 1\<rparr>]\<rparr>"

lemma ce_demo_evals:
  "ce_send_request ce_demo_request (eng ce_demo) = Some (A_OK, eng (ce_after (ce_send_request ce_demo_request) ce_demo))"
  "CE_recv_buf_enqueue 9 4096 (eng (ce_after (ce_send_request ce_demo_request) ce_demo)) = Some (A_OK, eng ce_demo_posted)"
  "CE_completed_send_next_nolock (eng ce_demo_filled) =
     Some (Some (hd (completions ce_demo_reaped)), eng (ce_after CE_completed_send_next_nolock ce_demo_filled))"
  "CE_completed_recv_next_nolock (eng (ce_after CE_completed_send_next_nolock ce_demo_filled)) =
     Some (Some (hd (receipts ce_demo_reaped)), eng ce_demo_reaped)"
  "reg_src_read (eng ce_demo_posted) \<noteq> reg_src_write (eng ce_demo_posted)"
  "reg_dest_read (ce_src_device (eng ce_demo_posted)) \<noteq> reg_dest_write (ce_src_device (eng ce_demo_posted))"
  "fill_index ce_demo_posted \<noteq> unat (reg_dest_read (ce_dest_take (ce_src_device (eng ce_demo_posted))))"
  "fill_index ce_demo_posted = 0" "fills ce_demo_posted = []" "sends_read ce_demo_posted = 0"
  "ce_dest_size (ce_dest_take (ce_src_device (eng ce_demo_posted))) = 4"
  "requests ce_demo = []" "posts ce_demo = []" "completions ce_demo_filled = []" "receipts ce_demo_filled = []"
  by code_simp+

lemma ce_demo_posted_reach: "ce_reach 4 3 ce_demo_posted"
proof -
  let ?x = "(ce_after (ce_send_request ce_demo_request) ce_demo)\<lparr>requests := [ce_demo_request]\<rparr>"
  have "?x = ce_demo\<lparr>eng := eng ?x, requests := requests ce_demo @ [ce_demo_request]\<rparr>"
    by (rule ce_sys.equality) (simp_all add: ce_demo_def ce_after_def)
  then have x: "ce_step ce_demo ?x" using ce_step.send [OF ce_demo_evals(1)] by simp
  have "ce_demo_posted = ?x\<lparr>eng := eng ce_demo_posted, posts := posts ?x @ [(9, 4096)]\<rparr>"
    by (rule ce_sys.equality) (simp_all add: ce_demo_posted_def ce_demo_def ce_after_def)
  moreover have "CE_recv_buf_enqueue (fst (9, 4096)) (snd (9, 4096)) (eng ?x) = Some (A_OK, eng ce_demo_posted)"
    using ce_demo_evals(2) by simp
  note ce_step.post [OF this]
  ultimately have "ce_step ?x ce_demo_posted" by simp
  then show ?thesis using ce_demo_reach x by (meson ce_reach.step)
qed

lemma ce_demo_filled_reach: "ce_reach 4 3 ce_demo_filled"
proof -
  let ?x = "ce_demo_posted\<lparr>eng := ce_src_device (eng ce_demo_posted), sends_read := 1\<rparr>"
  let ?y = "?x\<lparr>eng := ce_dest_take (eng ?x)\<rparr>"
  have x: "ce_step ce_demo_posted ?x" using ce_step.device_send [OF ce_demo_evals(5)] by (simp add: ce_demo_evals(10))
  have y: "ce_step ?x ?y" by (rule ce_step.device_take) (use ce_demo_evals(6) in simp)
  have "ce_demo_filled = ?y\<lparr>eng := ce_dest_fill (fill_index ?y) (60, 2, True) (eng ?y), fills := fills ?y @ [(60, 2, True)],
      fill_index := Suc (fill_index ?y) mod ce_dest_size (eng ?y)\<rparr>"
    by (rule ce_sys.equality) (simp_all add: ce_demo_filled_def ce_demo_evals(8-11))
  moreover have "fill_index ?y \<noteq> unat (reg_dest_read (eng ?y))" using ce_demo_evals(7) by simp
  note ce_step.device_fill [OF this, of "(60, 2, True)"]
  ultimately have "ce_step ?y ce_demo_filled" by simp
  then show ?thesis using ce_demo_posted_reach x y by (meson ce_reach.step)
qed

lemma ce_demo_reaped_reach: "ce_reach 4 3 ce_demo_reaped"
proof -
  let ?x = "(ce_after CE_completed_send_next_nolock ce_demo_filled)\<lparr>completions := completions ce_demo_reaped\<rparr>"
  have "?x = ce_demo_filled\<lparr>eng := eng ?x, completions := completions ce_demo_filled @ option_list (Some (hd (completions ce_demo_reaped)))\<rparr>"
    by (rule ce_sys.equality) (simp_all add: ce_after_def option_list_def ce_demo_evals(14), simp_all add: ce_demo_reaped_def)
  then have x: "ce_step ce_demo_filled ?x" using ce_step.complete [OF ce_demo_evals(3)] by simp
  have "ce_demo_reaped = ?x\<lparr>eng := eng ce_demo_reaped, receipts := receipts ?x @ option_list (Some (hd (receipts ce_demo_reaped)))\<rparr>"
    by (rule ce_sys.equality) (simp_all add: ce_after_def option_list_def ce_demo_evals(15), simp_all add: ce_demo_reaped_def ce_after_def)
  moreover have "CE_completed_recv_next_nolock (eng ?x) = Some (Some (hd (receipts ce_demo_reaped)), eng ce_demo_reaped)"
    using ce_demo_evals(4) by simp
  note ce_step.receive [OF this]
  ultimately have "ce_step ?x ce_demo_reaped" by simp
  then show ?thesis using ce_demo_filled_reach x by (meson ce_reach.step)
qed

theorem ce_sends_complete_in_order_witness:
  "completions ce_demo_reaped = [ce_request_done 5 ce_demo_request] \<and> sends_read ce_demo_reaped = 1"
proof -
  have e: "length (completions ce_demo_reaped) = 1" "requests ce_demo_reaped = [ce_demo_request]"
    "ce_send_context (eng ce_demo_reaped) = 5" by code_simp+
  show ?thesis using ce_sends_complete_in_order [OF ce_demo_reaped_reach] by (simp add: e)
qed

theorem ce_receives_in_order_witness:
  "receipts ce_demo_reaped = [ce_received 6 (9, 4096) (60, 2, True)]"
proof -
  have e: "length (receipts ce_demo_reaped) = 1" "posts ce_demo_reaped = [(9, 4096)]" "fills ce_demo_reaped = [(60, 2, True)]"
    "ce_recv_context (eng ce_demo_reaped) = 6" by code_simp+
  show ?thesis using ce_receives_in_order [OF ce_demo_reaped_reach] by (simp add: e)
qed



theorem ce_sendlist_all_or_nothing_witness:
  "\<exists>t. CE_sendlist_send 21 \<lparr>num_items = 2, sl_item = [\<lparr>item_data = 1, item_nbytes = 8, item_flags = 0\<rparr>,
      \<lparr>item_data = 2, item_nbytes = 9, item_flags = 0\<rparr>]\<rparr> 3 (eng ce_demo_posted) = Some (A_OK, t)"
proof -
  have e: "requests ce_demo_posted = [ce_demo_request]" "completions ce_demo_posted = []" by code_simp+
  show ?thesis using ce_sendlist_all_or_nothing [OF ce_demo_posted_reach, of "\<lparr>num_items = 2, sl_item =
      [\<lparr>item_data = 1, item_nbytes = 8, item_flags = 0\<rparr>, \<lparr>item_data = 2, item_nbytes = 9, item_flags = 0\<rparr>]\<rparr>" 3 21]
    by (auto simp: e ce_demo_sizes)
qed

theorem ce_bad_index_sticks_witness:
  "\<exists>t u. CE_completed_send_next_nolock ((eng ce_demo_posted)\<lparr>reg_src_read := 77\<rparr>) = Some (None, t) \<and>
     CE_completed_send_next_nolock (t\<lparr>reg_src_read := 3\<rparr>) = Some (Some (ce_request_done 5 ce_demo_request), u)"
proof -
  have e: "requests ce_demo_posted = [ce_demo_request]" "completions ce_demo_posted = []" "sends_read ce_demo_posted = 0"
    "ce_send_context (eng ce_demo_posted) = 5" by code_simp+
  show ?thesis using ce_bad_index_sticks [OF ce_demo_posted_reach, of 77 3] by (auto simp: e ce_demo_sizes)
qed

theorem ce_ring_size_witness: "\<exists>k. unat (roundup_pwr2 3) = 2 ^ k \<and> (3 :: nat) \<le> 2 ^ k \<and> (\<forall>j < k. 2 ^ j < (3 :: nat))"
  using ce_ring_size [of 3] by simp

end
