(* ===== verification/Htt_Rx_Ring.thy ===== *)
theory Htt_Rx_Ring
  imports Ring_Count Peer_Life
begin

text \<open>
  The ring of empty buffers the host gives the target to receive into (\<open>htt_rx.c\<close>, low latency, no
  reorder offload): filling it, taking the filled buffers of one MPDU off it, and topping it up.  What the
  hardware wrote into the descriptor of a buffer is the function \<open>hw\<close>; the lengths, the checksum results
  and the firmware descriptor byte of a buffer are not modelled, nor is the parallel array of physical
  addresses.  \<open>None\<close> is an access outside the ring, an assertion that is compiled in, or an MPDU without
  an end.
\<close>

section \<open>State\<close>

record htt_rx_ring =
  netbufs_ring :: "nbuf list"
  ring_size :: int
  size_mask :: u32
  alloc_idx :: u32
  sw_rd_payld :: u32
  sw_rd_desc :: u32
  fill_cnt :: int
  fill_level :: int
  refill_ref_cnt :: int
  refill_retry :: bool

record htt_pdev =
  ht_txrx :: pdev_state
  ht_ring :: htt_rx_ring
  ctrl_max_peer_id :: u16
  rx_mpdu_range_offset_words :: u32
  htc_err_cnt :: u32
  tgt_ver :: "u8 \<times> u8"
  freed_msgs :: "nat list"

definition ht_upd_rx :: "(rx_state \<Rightarrow> rx_state) \<Rightarrow> htt_pdev \<Rightarrow> htt_pdev" where
  "ht_upd_rx f h = h\<lparr>ht_txrx := (ht_txrx h)\<lparr>rx := f (rx (ht_txrx h))\<rparr>\<rparr>"

abbreviation ht_rx :: "htt_pdev \<Rightarrow> rx_state" where
  "ht_rx h \<equiv> rx (ht_txrx h)"

text \<open>The hardware's part of a receive descriptor that decides where an MPDU ends.\<close>

record hw_msdu =
  hm_done :: bool
  hm_more :: u8
  hm_last :: bool

section \<open>Filling\<close>

text \<open>How an attempt to get a buffer for the ring turns out; no outcome is no memory.\<close>

datatype fill_outcome = Filled nbuf | Map_failed nbuf | No_buffer

fun fill_loop :: "nat \<Rightarrow> fill_outcome list \<Rightarrow> u32 \<Rightarrow> htt_pdev \<Rightarrow> (u32 \<times> htt_pdev) option" where
  "fill_loop 0 os idx h = Some (idx, h)"
| "fill_loop (Suc n) (Filled b # os) idx h =
     (case store_at (netbufs_ring (ht_ring h)) (unat idx) b of
        None \<Rightarrow> None
      | Some a \<Rightarrow> fill_loop n os ((idx + 1) AND size_mask (ht_ring h))
          (h\<lparr>ht_ring := (ht_ring h)\<lparr>netbufs_ring := a, fill_cnt := fill_cnt (ht_ring h) + 1\<rparr>\<rparr>))"
| "fill_loop (Suc n) (Map_failed b # os) idx h = Some (idx, ht_upd_rx (htt_rx_desc_frame_free b) h)"
| "fill_loop (Suc n) (No_buffer # os) idx h = Some (idx, h\<lparr>ht_ring := (ht_ring h)\<lparr>refill_retry := True\<rparr>\<rparr>)"
| "fill_loop (Suc n) [] idx h = Some (idx, h\<lparr>ht_ring := (ht_ring h)\<lparr>refill_retry := True\<rparr>\<rparr>)"

definition htt_rx_ring_fill_n :: "fill_outcome list \<Rightarrow> int \<Rightarrow> htt_pdev \<Rightarrow> htt_pdev option" where
  "htt_rx_ring_fill_n os num h =
     (let idx = alloc_idx (ht_ring h)
      in if sint idx < 0 \<or> size_mask (ht_ring h) < idx \<or> ring_size (ht_ring h) < num then Some h
         else map_option (\<lambda>(i, h'). h'\<lparr>ht_ring := (ht_ring h')\<lparr>alloc_idx := i\<rparr>\<rparr>) (fill_loop (nat num) os idx h))"

definition htt_rx_ring_elems :: "htt_pdev \<Rightarrow> u32" where
  "htt_rx_ring_elems h = (alloc_idx (ht_ring h) - sw_rd_payld (ht_ring h)) AND size_mask (ht_ring h)"

definition htt_rx_msdu_buff_replenish :: "fill_outcome list \<Rightarrow> htt_pdev \<Rightarrow> htt_pdev option" where
  "htt_rx_msdu_buff_replenish os h =
     (let h1 = h\<lparr>ht_ring := (ht_ring h)\<lparr>refill_ref_cnt := refill_ref_cnt (ht_ring h) - 1\<rparr>\<rparr>
      in case (if refill_ref_cnt (ht_ring h1) = 0
               then htt_rx_ring_fill_n os (fill_level (ht_ring h1) - fill_cnt (ht_ring h1)) h1 else Some h1) of
           None \<Rightarrow> None
         | Some h2 \<Rightarrow> Some (h2\<lparr>ht_ring := (ht_ring h2)\<lparr>refill_ref_cnt := refill_ref_cnt (ht_ring h2) + 1\<rparr>\<rparr>))"

section \<open>Taking buffers off\<close>

definition htt_rx_netbuf_pop :: "htt_pdev \<Rightarrow> (nbuf \<times> htt_pdev) option" where
  "htt_rx_netbuf_pop h =
     (let r = ht_ring h
      in map_option (\<lambda>b. (b, h\<lparr>ht_ring := r\<lparr>sw_rd_payld := (sw_rd_payld r + 1) AND size_mask r,
             fill_cnt := fill_cnt r - 1\<rparr>\<rparr>))
         (load_at (netbufs_ring r) (unat (sw_rd_payld r))))"

definition ht_set_next :: "nbuf \<Rightarrow> nbuf option \<Rightarrow> htt_pdev \<Rightarrow> htt_pdev" where
  "ht_set_next b v = ht_upd_rx (adf_nbuf_set_next b v)"

text \<open>The buffers an MSDU was too long for, linked behind its first.\<close>

fun pop_chain :: "nat \<Rightarrow> nbuf \<Rightarrow> htt_pdev \<Rightarrow> (nbuf \<times> htt_pdev) option" where
  "pop_chain 0 msdu h = Some (msdu, h)"
| "pop_chain (Suc n) msdu h =
     (case htt_rx_netbuf_pop h of
        None \<Rightarrow> None
      | Some (next_msdu, h1) \<Rightarrow> pop_chain n next_msdu (ht_set_next msdu (Some next_msdu) h1))"

partial_function (option) pop_msdus ::
    "(nbuf \<Rightarrow> hw_msdu) \<Rightarrow> nbuf \<Rightarrow> bool \<Rightarrow> htt_pdev \<Rightarrow> (bool \<times> nbuf \<times> htt_pdev) option" where
  "pop_msdus hw msdu chaining h =
     (if \<not> hm_done (hw msdu) then None
      else (case pop_chain (unat (hm_more (hw msdu))) msdu h of
              None \<Rightarrow> None
            | Some (tail_msdu, h1) \<Rightarrow>
                (let chaining' = (chaining \<or> hm_more (hw msdu) \<noteq> 0)
                 in if hm_last (hw msdu) then Some (chaining', tail_msdu, ht_set_next tail_msdu None h1)
                    else (case htt_rx_netbuf_pop h1 of
                            None \<Rightarrow> None
                          | Some (next_msdu, h2) \<Rightarrow>
                              pop_msdus hw next_msdu chaining' (ht_set_next tail_msdu (Some next_msdu) h2)))))"

text \<open>Whether buffers are chained, the first and the last buffer of the MPDU.\<close>

definition htt_rx_amsdu_pop_ll :: "(nbuf \<Rightarrow> hw_msdu) \<Rightarrow> htt_pdev \<Rightarrow> (bool \<times> nbuf \<times> nbuf \<times> htt_pdev) option" where
  "htt_rx_amsdu_pop_ll hw h =
     (case htt_rx_netbuf_pop h of
        None \<Rightarrow> None
      | Some (head_msdu, h1) \<Rightarrow>
          map_option (\<lambda>(c, tail_msdu, h2). (c, head_msdu, tail_msdu, h2)) (pop_msdus hw head_msdu False h1))"

text \<open>The buffer whose descriptor stands for the MPDU.\<close>

definition htt_rx_mpdu_desc_list_next_ll :: "htt_pdev \<Rightarrow> (nbuf \<times> htt_pdev) option" where
  "htt_rx_mpdu_desc_list_next_ll h =
     (let r = ht_ring h
      in map_option (\<lambda>b. (b, h\<lparr>ht_ring := r\<lparr>sw_rd_desc := sw_rd_payld r\<rparr>\<rparr>))
         (load_at (netbufs_ring r) (unat (sw_rd_desc r))))"

section \<open>The ring as a list\<close>

text \<open>The ring holds the buffers \<open>xs\<close>, the next one to be filled by the target first.\<close>

definition rx_ring_rep :: "htt_rx_ring \<Rightarrow> nbuf list \<Rightarrow> bool" where
  "rx_ring_rep r xs \<longleftrightarrow> (\<exists>k. k < 31 \<and> ring_size r = 2 ^ k \<and> unat (size_mask r) = 2 ^ k - Suc 0 \<and>
     unat (sw_rd_payld r) < 2 ^ k \<and> unat (alloc_idx r) = (unat (sw_rd_payld r) + length xs) mod 2 ^ k \<and>
     length xs < 2 ^ k \<and> fill_cnt r = int (length xs) \<and> fill_level r < 2 ^ k \<and>
     ring_holds (2 ^ k) (unat (sw_rd_payld r)) (netbufs_ring r) 0 xs)"

lemma ring_holds_shift:
  assumes "ring_holds n b a 0 (x # xs)"
  shows "ring_holds n (Suc b mod n) a 0 xs"
  unfolding ring_holds_def
proof (intro conjI allI impI)
  show "length a = n" using assms by (simp add: ring_holds_def)
  show "a ! ((Suc b mod n + j) mod n) = xs ! j" if "0 \<le> j \<and> j < length xs" for j
  proof -
    have "(Suc b mod n + j) mod n = (b + Suc j) mod n" by (simp add: mod_add_left_eq)
    then show ?thesis using assms that by (simp add: ring_holds_def del: add_Suc_right)
  qed
qed

lemma ht_upd_simps [simp]:
  "ht_ring (ht_upd_rx f h) = ht_ring h" "ht_rx (ht_upd_rx f h) = f (ht_rx h)"
  "ht_ring (ht_set_next b v h) = ht_ring h" "ht_rx (ht_set_next b v h) = adf_nbuf_set_next b v (ht_rx h)"
  by (simp_all add: ht_upd_rx_def ht_set_next_def)

text \<open>What taking buffers off changes: the two counters of the ring, and links of the buffers \<open>D\<close>.\<close>

definition pop_frame :: "htt_rx_ring \<Rightarrow> htt_rx_ring \<Rightarrow> bool" where
  "pop_frame r r' \<longleftrightarrow> netbufs_ring r' = netbufs_ring r \<and> ring_size r' = ring_size r \<and> size_mask r' = size_mask r \<and>
     alloc_idx r' = alloc_idx r \<and> sw_rd_desc r' = sw_rd_desc r \<and> fill_level r' = fill_level r \<and>
     refill_ref_cnt r' = refill_ref_cnt r \<and> refill_retry r' = refill_retry r"

definition pop_change :: "nbuf set \<Rightarrow> htt_pdev \<Rightarrow> htt_pdev \<Rightarrow> bool" where
  "pop_change D h h' \<longleftrightarrow> (\<exists>nx r'. h' = (ht_upd_rx (\<lambda>s. s\<lparr>nb_next := nx\<rparr>) h)\<lparr>ht_ring := r'\<rparr> \<and>
     pop_frame (ht_ring h) r' \<and> (\<forall>c. c \<notin> D \<longrightarrow> nx c = nb_next (ht_rx h) c))"

lemma pop_frame_refl [simp]: "pop_frame r r"
  by (simp add: pop_frame_def)

lemma pop_frame_trans: "pop_frame r s \<Longrightarrow> pop_frame s t \<Longrightarrow> pop_frame r t"
  by (simp add: pop_frame_def)

lemma pop_change_trans:
  assumes "pop_change D h h1" and "pop_change E h1 h2"
  shows "pop_change (D \<union> E) h h2"
proof -
  obtain nx r where 1: "h1 = (ht_upd_rx (\<lambda>s. s\<lparr>nb_next := nx\<rparr>) h)\<lparr>ht_ring := r\<rparr>" "pop_frame (ht_ring h) r"
    "\<And>c. c \<notin> D \<Longrightarrow> nx c = nb_next (ht_rx h) c" using assms(1) by (auto simp: pop_change_def)
  obtain nx' r' where 2: "h2 = (ht_upd_rx (\<lambda>s. s\<lparr>nb_next := nx'\<rparr>) h1)\<lparr>ht_ring := r'\<rparr>" "pop_frame (ht_ring h1) r'"
    "\<And>c. c \<notin> E \<Longrightarrow> nx' c = nb_next (ht_rx h1) c" using assms(2) by (auto simp: pop_change_def)
  have "h2 = (ht_upd_rx (\<lambda>s. s\<lparr>nb_next := nx'\<rparr>) h)\<lparr>ht_ring := r'\<rparr>" using 1(1) 2(1) by (simp add: ht_upd_rx_def)
  moreover have "pop_frame (ht_ring h) r'" using pop_frame_trans 1 2 by simp
  moreover have "nx' c = nb_next (ht_rx h) c" if "c \<notin> D \<union> E" for c
    using that 1(3) 2(3) 1(1) by (simp add: ht_upd_rx_def)
  ultimately show ?thesis unfolding pop_change_def by blast
qed

lemma pop_change_mono: "pop_change D h h1 \<Longrightarrow> D \<subseteq> E \<Longrightarrow> pop_change E h h1"
  unfolding pop_change_def by blast

lemma pop_change_set_next: "b \<in> D \<Longrightarrow> pop_change D h (ht_set_next b v h)"
  unfolding pop_change_def
  by (intro exI [of _ "(nb_next (ht_rx h))(b := v)"] exI [of _ "ht_ring h"])
     (simp add: ht_set_next_def ht_upd_rx_def adf_nbuf_set_next_def)

lemma pop_change_link: "pop_change D h h' \<Longrightarrow> c \<notin> D \<Longrightarrow> nb_next (ht_rx h') c = nb_next (ht_rx h) c"
  by (auto simp: pop_change_def ht_upd_rx_def)

lemma pop_rep:
  assumes "rx_ring_rep (ht_ring h) (x # xs)"
  shows "\<exists>h'. htt_rx_netbuf_pop h = Some (x, h') \<and> rx_ring_rep (ht_ring h') xs \<and> pop_change {} h h' \<and> ht_rx h' = ht_rx h"
proof -
  let ?r = "ht_ring h"
  let ?i = "unat (sw_rd_payld ?r)"
  let ?r' = "?r\<lparr>sw_rd_payld := (sw_rd_payld ?r + 1) AND size_mask ?r, fill_cnt := fill_cnt ?r - 1\<rparr>"
  obtain k where k: "k < 31" "ring_size ?r = 2 ^ k" "unat (size_mask ?r) = 2 ^ k - Suc 0" "?i < 2 ^ k"
    "unat (alloc_idx ?r) = (?i + length (x # xs)) mod 2 ^ k" "length (x # xs) < 2 ^ k"
    "fill_cnt ?r = int (length (x # xs))" "fill_level ?r < 2 ^ k"
    "ring_holds (2 ^ k) ?i (netbufs_ring ?r) 0 (x # xs)"
    using assms by (auto simp: rx_ring_rep_def)
  have get: "netbufs_ring ?r ! ?i = x" "length (netbufs_ring ?r) = 2 ^ k"
    using ring_holds_get [OF k(9)] k(4) by (simp_all add: ring_holds_length [OF k(9)])
  have step: "unat ((sw_rd_payld ?r + 1) AND size_mask ?r) = Suc ?i mod 2 ^ k"
    using masked_step [OF k(3), of "sw_rd_payld ?r" ?i] k(4) by simp
  have "rx_ring_rep ?r' xs"
    unfolding rx_ring_rep_def
    using k ring_holds_shift [OF k(9)] by (intro exI [of _ k]) (simp add: step mod_add_left_eq)
  moreover have "pop_frame ?r ?r'" by (simp add: pop_frame_def)
  moreover have "htt_rx_netbuf_pop h = Some (x, h\<lparr>ht_ring := ?r'\<rparr>)" using get k(4) by (simp add: htt_rx_netbuf_pop_def Let_def)
  moreover have "h\<lparr>ht_ring := ?r'\<rparr> = (ht_upd_rx (\<lambda>s. s\<lparr>nb_next := nb_next (ht_rx h)\<rparr>) h)\<lparr>ht_ring := ?r'\<rparr>"
    by (simp add: ht_upd_rx_def)
  ultimately show ?thesis unfolding pop_change_def by (intro exI [of _ "h\<lparr>ht_ring := ?r'\<rparr>"]) auto
qed

lemma lseg_other: "lseg nx p cs q \<Longrightarrow> (\<And>c. c \<in> set cs \<Longrightarrow> nx' c = nx c) \<Longrightarrow> lseg nx' p cs q"
  using lseg_cong by metis

lemma pop_chain_rep:
  assumes "rx_ring_rep (ht_ring h) xs" and "n \<le> length xs" and "distinct (msdu # xs)"
  shows "\<exists>h'. pop_chain n msdu h = Some (last (msdu # take n xs), h') \<and> rx_ring_rep (ht_ring h') (drop n xs) \<and>
    pop_change (set (butlast (msdu # take n xs))) h h' \<and>
    lseg (nb_next (ht_rx h')) (Some msdu) (butlast (msdu # take n xs)) (Some (last (msdu # take n xs)))"
  using assms
proof (induction n arbitrary: msdu xs h)
  case 0
  have "pop_change {} h h" unfolding pop_change_def
    by (intro exI [of _ "nb_next (ht_rx h)"] exI [of _ "ht_ring h"]) (simp add: ht_upd_rx_def)
  with 0 show ?case by simp
next
  case (Suc n)
  then obtain x ys where xs: "xs = x # ys" by (cases xs) auto
  obtain h1 where h1: "htt_rx_netbuf_pop h = Some (x, h1)" "rx_ring_rep (ht_ring h1) ys" "pop_change {} h h1" "ht_rx h1 = ht_rx h"
    using pop_rep Suc.prems(1) xs by blast
  let ?h2 = "ht_set_next msdu (Some x) h1"
  have "rx_ring_rep (ht_ring ?h2) ys" "n \<le> length ys" "distinct (x # ys)" using h1 Suc.prems xs by auto
  then obtain h' where h': "pop_chain n x ?h2 = Some (last (x # take n ys), h')" "rx_ring_rep (ht_ring h') (drop n ys)"
    "pop_change (set (butlast (x # take n ys))) ?h2 h'"
    "lseg (nb_next (ht_rx h')) (Some x) (butlast (x # take n ys)) (Some (last (x # take n ys)))"
    using Suc.IH by blast
  have notin: "msdu \<notin> set (butlast (x # take n ys))"
    using Suc.prems(3) xs by (auto dest: in_set_butlastD in_set_takeD)
  have "nb_next (ht_rx h') msdu = Some x" using pop_change_link [OF h'(3) notin] by simp
  moreover have "pop_change ({} \<union> ({msdu} \<union> set (butlast (x # take n ys)))) h h'"
    by (intro pop_change_trans [OF h1(3)] pop_change_trans [OF pop_change_set_next h'(3)]) simp
  ultimately show ?case using h1(1) h' xs by simp
qed

text \<open>The MPDU at the head of the buffers: its buffers, whether some are chained, and the rest.\<close>

function amsdu_take :: "(nbuf \<Rightarrow> hw_msdu) \<Rightarrow> nbuf list \<Rightarrow> (nbuf list \<times> bool \<times> nbuf list) option" where
  "amsdu_take hw [] = None"
| "amsdu_take hw (x # xs) =
     (let n = unat (hm_more (hw x))
      in if \<not> hm_done (hw x) \<or> length xs < n then None
         else if hm_last (hw x) then Some (x # take n xs, 0 < n, drop n xs)
         else map_option (\<lambda>(m, c, r). (x # take n xs @ m, 0 < n \<or> c, r)) (amsdu_take hw (drop n xs)))"
  by pat_completeness auto

termination by (relation "measure (\<lambda>(hw, xs). length xs)") auto

lemma amsdu_take_append: "amsdu_take hw xs = Some (m, c, r) \<Longrightarrow> xs = m @ r \<and> m \<noteq> [] \<and> hd m = hd xs"
proof (induction hw xs arbitrary: m c r rule: amsdu_take.induct)
  case (1 hw)
  then show ?case by simp
next
  case (2 hw x xs)
  let ?n = "unat (hm_more (hw x))"
  show ?case
  proof (cases "hm_last (hw x)")
    case True
    then show ?thesis using 2 by (auto simp: Let_def split: if_splits)
  next
    case False
    then obtain m' c' where m': "amsdu_take hw (drop ?n xs) = Some (m', c', r)" "m = x # take ?n xs @ m'"
      and ok: "hm_done (hw x)" "\<not> length xs < ?n"
      using "2.prems" by (auto simp: Let_def split: if_splits)
    have "drop ?n xs = m' @ r" using "2.IH" [OF refl _ False m'(1)] ok by simp
    then show ?thesis using m'(2) append_take_drop_id [of ?n xs] by (simp del: append_take_drop_id)
  qed
qed

lemma pop_msdus_rep:
  assumes "amsdu_take hw (msdu # xs) = Some (m, ch, r)" and "rx_ring_rep (ht_ring h) xs" and "distinct (msdu # xs)"
  shows "\<exists>h'. pop_msdus hw msdu c h = Some (c \<or> ch, last m, h') \<and> rx_ring_rep (ht_ring h') r \<and>
    pop_change (set m) h h' \<and> lseg (nb_next (ht_rx h')) (Some msdu) m None"
  using assms
proof (induction "length xs" arbitrary: msdu xs m ch h c rule: less_induct)
  case less
  let ?n = "unat (hm_more (hw msdu))"
  let ?cs = "msdu # take ?n xs"
  have ok: "hm_done (hw msdu)" "?n \<le> length xs" using less.prems(1) by (auto simp: Let_def split: if_splits)
  obtain h1 where h1: "pop_chain ?n msdu h = Some (last ?cs, h1)" "rx_ring_rep (ht_ring h1) (drop ?n xs)"
    "pop_change (set (butlast ?cs)) h h1" "lseg (nb_next (ht_rx h1)) (Some msdu) (butlast ?cs) (Some (last ?cs))"
    using pop_chain_rep [OF less.prems(2) ok(2) less.prems(3)] by blast
  obtain bs l where cs: "?cs = bs @ [l]" by (cases ?cs rule: rev_cases) auto
  have bl: "last ?cs = l" "butlast ?cs = bs" unfolding cs by simp_all
  have dist: "distinct (bs @ [l])" "set (bs @ [l]) \<inter> set (drop ?n xs) = {}"
    using less.prems(3) set_take_disj_set_drop_if_distinct [of xs ?n ?n]
    by (auto simp flip: cs dest: in_set_takeD in_set_dropD)
  note h1 = h1 [unfolded bl]
  show ?case
  proof (cases "hm_last (hw msdu)")
    case True
    then have m: "m = bs @ [l]" "r = drop ?n xs" "ch = (0 < ?n)"
      using less.prems(1) ok by (auto simp: Let_def simp flip: cs)
    have ne: "hm_more (hw msdu) \<noteq> 0 \<longleftrightarrow> 0 < ?n" by (simp add: unat_gt_0)
    have "pop_msdus hw msdu c h = Some (c \<or> ch, last m, ht_set_next l None h1)"
      using True ok h1(1) m ne by (subst pop_msdus.simps) (simp add: Let_def)
    moreover have "pop_change (set m) h (ht_set_next l None h1)"
      using pop_change_trans [OF h1(3) pop_change_set_next [of l "{l}"]] m(1) by simp
    moreover have "lseg (nb_next (ht_rx (ht_set_next l None h1))) (Some msdu) m None"
      using h1(4) dist(1) m(1) by (auto simp: lseg_append lseg_frame)
    ultimately show ?thesis using h1(2) m(2) by auto
  next
    case False
    then obtain m' ch' where m': "amsdu_take hw (drop ?n xs) = Some (m', ch', r)" "m = (bs @ [l]) @ m'" "ch = (0 < ?n \<or> ch')"
      using less.prems(1) ok by (auto simp: Let_def simp flip: cs)
    then obtain y ys where y: "drop ?n xs = y # ys" by (cases "drop ?n xs") auto
    obtain h2 where h2: "htt_rx_netbuf_pop h1 = Some (y, h2)" "rx_ring_rep (ht_ring h2) ys" "pop_change {} h1 h2" "ht_rx h2 = ht_rx h1"
      using pop_rep h1(2) y by metis
    let ?h3 = "ht_set_next l (Some y) h2"
    have "length (drop ?n xs) = Suc (length ys)" by (simp add: y)
    then have less_len: "length ys < length xs" by simp
    have "distinct (drop ?n xs)" using less.prems(3) by simp
    then have dy: "distinct (y # ys)" by (simp add: y)
    have take_y: "amsdu_take hw (y # ys) = Some (m', ch', r)" using m'(1) y by simp
    have "rx_ring_rep (ht_ring ?h3) ys" using h2(2) by simp
    from less.hyps [OF less_len take_y this dy] obtain h' where h':
      "pop_msdus hw y (c \<or> hm_more (hw msdu) \<noteq> 0) ?h3 = Some ((c \<or> hm_more (hw msdu) \<noteq> 0) \<or> ch', last m', h')"
      "rx_ring_rep (ht_ring h') r" "pop_change (set m') ?h3 h'" "lseg (nb_next (ht_rx h')) (Some y) m' None" by blast
    have m'_set: "set m' \<subseteq> set (y # ys)" "m' \<noteq> []" using amsdu_take_append [OF take_y] by auto
    have keep: "nb_next (ht_rx h') c = nb_next (ht_rx ?h3) c" if "c \<in> set (bs @ [l])" for c
    proof (rule pop_change_link [OF h'(3)])
      show "c \<notin> set m'" using that m'_set(1) dist(2) y by auto
    qed
    have "lseg (nb_next (ht_rx h')) (Some msdu) bs (Some l)"
      by (rule lseg_other [OF h1(4)]) (use keep dist(1) h2(4) in auto)
    moreover have "nb_next (ht_rx h') l = Some y" using keep [of l] by simp
    ultimately have "lseg (nb_next (ht_rx h')) (Some msdu) m None" using h'(4) m'(2) by (auto simp: lseg_append)
    moreover have "pop_change (set bs \<union> ({} \<union> ({l} \<union> set m'))) h h'"
      by (rule pop_change_trans [OF h1(3) pop_change_trans [OF h2(3) pop_change_trans [OF pop_change_set_next h'(3)]]]) simp
    moreover have "pop_msdus hw msdu c h = Some (c \<or> ch, last m, h')"
      using False ok h1(1) h2(1) h'(1) m'(2,3) m'_set(2)
      by (subst pop_msdus.simps) (simp add: Let_def unat_gt_0 disj_assoc)
    ultimately show ?thesis using h'(2) m'(2) by auto
  qed
qed

text \<open>Taking an MPDU off the ring yields its buffers as one null-terminated list.\<close>

lemma amsdu_pop_rep:
  assumes "amsdu_take hw xs = Some (m, ch, r)" and "rx_ring_rep (ht_ring h) xs" and "distinct xs"
  shows "\<exists>h'. htt_rx_amsdu_pop_ll hw h = Some (ch, hd m, last m, h') \<and> rx_ring_rep (ht_ring h') r \<and>
    pop_change (set m) h h' \<and> lseg (nb_next (ht_rx h')) (Some (hd m)) m None"
proof -
  obtain x ys where xs: "xs = x # ys" using assms(1) by (cases xs) auto
  obtain h1 where h1: "htt_rx_netbuf_pop h = Some (x, h1)" "rx_ring_rep (ht_ring h1) ys" "pop_change {} h h1"
    using pop_rep assms(2) xs by blast
  obtain h' where h': "pop_msdus hw x False h1 = Some (ch, last m, h')" "rx_ring_rep (ht_ring h') r"
    "pop_change (set m) h1 h'" "lseg (nb_next (ht_rx h')) (Some x) m None"
    using pop_msdus_rep [of hw x ys m ch r h1 False] assms(1,3) h1(2) xs by auto
  have "hd m = x" using amsdu_take_append [OF assms(1)] xs by simp
  then show ?thesis using h1(1) h' pop_change_trans [OF h1(3) h'(3)] by (simp add: htt_rx_amsdu_pop_ll_def)
qed

section \<open>Topping up\<close>

text \<open>The buffers a run of allocations adds, and the one it gives back.\<close>

fun filled :: "nat \<Rightarrow> fill_outcome list \<Rightarrow> nbuf list" where
  "filled (Suc n) (Filled b # os) = b # filled n os"
| "filled n os = []"

fun unmapped :: "nat \<Rightarrow> fill_outcome list \<Rightarrow> nbuf list" where
  "unmapped (Suc n) (Filled b # os) = unmapped n os"
| "unmapped (Suc n) (Map_failed b # os) = [b]"
| "unmapped n os = []"

lemma ring_rep_add:
  assumes "rx_ring_rep (r\<lparr>alloc_idx := idx\<rparr>) xs" and "Suc (length xs) < nat (ring_size r)"
  shows "rx_ring_rep (r\<lparr>netbufs_ring := (netbufs_ring r)[unat idx := b], fill_cnt := fill_cnt r + 1,
      alloc_idx := (idx + 1) AND size_mask r\<rparr>) (xs @ [b])" and "unat idx < length (netbufs_ring r)"
proof -
  obtain k where k: "k < 31" "ring_size r = 2 ^ k" "unat (size_mask r) = 2 ^ k - Suc 0"
    "unat (sw_rd_payld r) < 2 ^ k" "unat idx = (unat (sw_rd_payld r) + length xs) mod 2 ^ k" "length xs < 2 ^ k"
    "fill_cnt r = int (length xs)" "fill_level r < 2 ^ k"
    "ring_holds (2 ^ k) (unat (sw_rd_payld r)) (netbufs_ring r) 0 xs"
    using assms(1) by (auto simp: rx_ring_rep_def)
  have "nat (ring_size r) = 2 ^ k" by (simp add: k(2) nat_power_eq)
  with assms(2) have room: "Suc (length xs) < 2 ^ k" by (simp only:)
  show "unat idx < length (netbufs_ring r)" using k(5,9) by (simp add: ring_holds_length)
  show "rx_ring_rep (r\<lparr>netbufs_ring := (netbufs_ring r)[unat idx := b], fill_cnt := fill_cnt r + 1,
      alloc_idx := (idx + 1) AND size_mask r\<rparr>) (xs @ [b])"
    unfolding rx_ring_rep_def
    using k room masked_step [OF k(3), of idx "unat (sw_rd_payld r) + length xs"] ring_holds_put [OF k(9), of b]
    by (intro exI [of _ k]) simp
qed

lemma fill_loop_rep:
  assumes "rx_ring_rep ((ht_ring h)\<lparr>alloc_idx := idx\<rparr>) xs" and "length xs + n < nat (ring_size (ht_ring h))"
  shows "\<exists>i r. fill_loop n os idx h = Some (i, (ht_upd_rx (\<lambda>s. s\<lparr>nb_freed := nb_freed s @ unmapped n os\<rparr>) h)\<lparr>ht_ring := r\<rparr>) \<and>
    rx_ring_rep (r\<lparr>alloc_idx := i\<rparr>) (xs @ filled n os) \<and> sw_rd_payld r = sw_rd_payld (ht_ring h) \<and>
    sw_rd_desc r = sw_rd_desc (ht_ring h) \<and> fill_level r = fill_level (ht_ring h) \<and>
    refill_ref_cnt r = refill_ref_cnt (ht_ring h)"
  using assms
proof (induction n os idx h arbitrary: xs rule: fill_loop.induct)
  case (1 os idx h)
  then show ?case by (intro exI [of _ idx] exI [of _ "ht_ring h"]) (simp add: ht_upd_rx_def)
next
  case (2 n b os idx h)
  have room: "Suc (length xs) < nat (ring_size (ht_ring h))" using "2.prems"(2) by simp
  note add = ring_rep_add(1) [OF "2.prems"(1) room, of b] ring_rep_add(2) [OF "2.prems"(1) room]
  let ?h = "h\<lparr>ht_ring := (ht_ring h)\<lparr>netbufs_ring := (netbufs_ring (ht_ring h))[unat idx := b],
      fill_cnt := fill_cnt (ht_ring h) + 1\<rparr>\<rparr>"
  have store: "store_at (netbufs_ring (ht_ring h)) (unat idx) b = Some ((netbufs_ring (ht_ring h))[unat idx := b])"
    using add(2) by simp
  have more: "rx_ring_rep ((ht_ring ?h)\<lparr>alloc_idx := (idx + 1) AND size_mask (ht_ring h)\<rparr>) (xs @ [b])" using add(1) by simp
  have len: "length (xs @ [b]) + n < nat (ring_size (ht_ring ?h))" using "2.prems"(2) by simp
  note ih = "2.IH" [OF store more len]
  show ?case using ih add(2) by (simp add: ht_upd_rx_def)
next
  case (3 n b os idx h)
  then show ?case by (intro exI [of _ idx] exI [of _ "ht_ring h"]) (simp add: ht_upd_rx_def htt_rx_desc_frame_free_def)
next
  case (4 n os idx h)
  then show ?case by (intro exI [of _ idx] exI [of _ "(ht_ring h)\<lparr>refill_retry := True\<rparr>"])
    (simp add: ht_upd_rx_def rx_ring_rep_def)
next
  case (5 n idx h)
  then show ?case by (intro exI [of _ idx] exI [of _ "(ht_ring h)\<lparr>refill_retry := True\<rparr>"])
    (simp add: ht_upd_rx_def rx_ring_rep_def)
qed

lemma sint_small: "unat (w :: u32) < 2 ^ 31 \<Longrightarrow> \<not> sint w < 0"
proof -
  assume "unat w < 2 ^ 31"
  then have "unat w div 2 ^ 31 = 0" by simp
  then have "\<not> bit (unat w) 31" by (simp add: bit_iff_odd)
  then show ?thesis by (simp add: sint_uint bit_unsigned_iff)
qed

text \<open>
  Topping the ring up, when no other caller is at it: the allocated buffers go behind the ones it holds,
  until the fill level is reached or an allocation fails.
\<close>

definition ring_missing :: "htt_pdev \<Rightarrow> nbuf list \<Rightarrow> nat" where
  "ring_missing h xs = nat (fill_level (ht_ring h) - int (length xs))"

lemma replenish_rep:
  assumes "rx_ring_rep (ht_ring h) xs" and "refill_ref_cnt (ht_ring h) = 1"
  shows "\<exists>h' r. htt_rx_msdu_buff_replenish os h = Some h' \<and>
    h' = (ht_upd_rx (\<lambda>s. s\<lparr>nb_freed := nb_freed s @ unmapped (ring_missing h xs) os\<rparr>) h)\<lparr>ht_ring := r\<rparr> \<and>
    rx_ring_rep r (xs @ filled (ring_missing h xs) os) \<and> refill_ref_cnt r = 1 \<and>
    sw_rd_desc r = sw_rd_desc (ht_ring h) \<and> sw_rd_payld r = sw_rd_payld (ht_ring h) \<and> fill_level r = fill_level (ht_ring h)"
proof -
  let ?h = "h\<lparr>ht_ring := (ht_ring h)\<lparr>refill_ref_cnt := 0\<rparr>\<rparr>"
  let ?n = "ring_missing h xs"
  obtain k where k: "k < 31" "ring_size (ht_ring h) = 2 ^ k" "unat (size_mask (ht_ring h)) = 2 ^ k - Suc 0"
    "unat (alloc_idx (ht_ring h)) = (unat (sw_rd_payld (ht_ring h)) + length xs) mod 2 ^ k" "length xs < 2 ^ k"
    "fill_cnt (ht_ring h) = int (length xs)" "fill_level (ht_ring h) < 2 ^ k"
    using assms(1) by (auto simp: rx_ring_rep_def)
  have "(2 :: nat) ^ k < 2 ^ 31" using k(1) by (intro power_strict_increasing) simp_all
  moreover have lt: "unat (alloc_idx (ht_ring h)) < 2 ^ k" using k(4) by simp
  ultimately have pos: "\<not> sint (alloc_idx (ht_ring h)) < 0" by (intro sint_small) simp
  have le: "\<not> size_mask (ht_ring h) < alloc_idx (ht_ring h)" using lt k(3) by (simp add: word_less_nat_alt)
  have num: "nat (fill_level (ht_ring h) - fill_cnt (ht_ring h)) = ?n" by (simp add: k(6) ring_missing_def)
  have fits: "\<not> ring_size (ht_ring h) < fill_level (ht_ring h) - fill_cnt (ht_ring h)" using k(2,6,7) by simp
  have "rx_ring_rep ((ht_ring ?h)\<lparr>alloc_idx := alloc_idx (ht_ring h)\<rparr>) xs" using assms(1) by (simp add: rx_ring_rep_def)
  moreover have "length xs + ?n < nat (ring_size (ht_ring ?h))"
  proof -
    have "int (length xs + ?n) < 2 ^ k" using k(5,7) by (simp add: ring_missing_def)
    then show ?thesis using k(2) by simp
  qed
  ultimately obtain i r where r: "fill_loop ?n os (alloc_idx (ht_ring h)) ?h =
      Some (i, (ht_upd_rx (\<lambda>s. s\<lparr>nb_freed := nb_freed s @ unmapped ?n os\<rparr>) ?h)\<lparr>ht_ring := r\<rparr>)"
    "rx_ring_rep (r\<lparr>alloc_idx := i\<rparr>) (xs @ filled ?n os)" "sw_rd_payld r = sw_rd_payld (ht_ring ?h)"
    "sw_rd_desc r = sw_rd_desc (ht_ring ?h)" "fill_level r = fill_level (ht_ring ?h)"
    "refill_ref_cnt r = refill_ref_cnt (ht_ring ?h)"
    using fill_loop_rep by blast
  let ?r = "r\<lparr>alloc_idx := i, refill_ref_cnt := 1\<rparr>"
  have "rx_ring_rep ?r (xs @ filled ?n os)" using r(2) by (simp add: rx_ring_rep_def)
  moreover have "htt_rx_msdu_buff_replenish os h =
    Some ((ht_upd_rx (\<lambda>s. s\<lparr>nb_freed := nb_freed s @ unmapped ?n os\<rparr>) h)\<lparr>ht_ring := ?r\<rparr>)"
    using r(1,6) pos le fits num assms(2)
    by (simp add: htt_rx_msdu_buff_replenish_def htt_rx_ring_fill_n_def Let_def ht_upd_rx_def)
  ultimately show ?thesis using r(3-5) by auto
qed

end
