(* ===== verification/Htt_Fields.thy ===== *)
theory Htt_Fields
  imports Wlan_Prelude
begin

text \<open>
  The bit fields of the words the host and the target exchange (\<open>htt.h\<close>): every field has a mask and a
  shift, a macro that cuts it out and one that puts it in.
\<close>

definition htt_field :: "u32 \<Rightarrow> nat \<Rightarrow> u32 \<Rightarrow> u32" where
  "htt_field m sh word = drop_bit sh (word AND m)"

text \<open>The macros that set a field: \<open>(word) |= (value) << shift\<close>.\<close>

definition htt_set :: "nat \<Rightarrow> u32 \<Rightarrow> u32 \<Rightarrow> u32" where
  "htt_set sh v w = w OR push_bit sh v"

lemma htt_field_bits: "htt_field (push_bit sh (Bit_Operations.mask n)) sh w = take_bit n (drop_bit sh w)"
  by (rule bit_word_eqI) (auto simp: htt_field_def bit_simps dest: bit_imp_le_length)

text \<open>A field is not changed by setting a higher one; a field set where there were zeros is read back.\<close>

lemma field_skip: "s + n \<le> s' \<Longrightarrow> take_bit n (drop_bit s (htt_set s' v w)) = take_bit n (drop_bit s w)"
  by (rule bit_word_eqI) (auto simp: htt_set_def bit_simps)

lemma field_hit: "drop_bit s w = 0 \<Longrightarrow> s + n \<le> 32 \<Longrightarrow> take_bit n (drop_bit s (htt_set s v w)) = take_bit n v"
proof (rule bit_word_eqI)
  fix i
  assume z: "drop_bit s w = 0" and s: "s + n \<le> 32" and "i < LENGTH(32)"
  have "\<not> bit w (s + i)" using arg_cong [OF z, of "\<lambda>w. bit w i"] by (simp add: bit_drop_bit_eq)
  then show "bit (take_bit n (drop_bit s (htt_set s v w))) i = bit (take_bit n v) i"
    using s by (auto simp: htt_set_def bit_simps)
qed

lemma field_zero: "s' \<le> s \<Longrightarrow> drop_bit s w = 0 \<Longrightarrow> drop_bit (s - s') v = 0 \<Longrightarrow> drop_bit s (htt_set s' v w) = 0"
proof (rule bit_word_eqI)
  fix i
  assume s: "s' \<le> s" and z: "drop_bit s w = 0" "drop_bit (s - s') v = 0"
  have "\<not> bit w (s + i)" "\<not> bit v (s - s' + i)"
    using arg_cong [OF z(1), of "\<lambda>w. bit w i"] arg_cong [OF z(2), of "\<lambda>w. bit w i"] by (simp_all add: bit_drop_bit_eq)
  then show "bit (drop_bit s (htt_set s' v w)) i = bit 0 i"
    using s by (auto simp: htt_set_def bit_simps)
qed

lemma bit_len: "bit (x :: 'a::len word) i \<longrightarrow> i < LENGTH('a)"
  using bit_imp_le_length by blast

lemma field_ucast:
  fixes x :: "'a::len word"
  assumes "LENGTH('a) \<le> n"
  shows "take_bit n (ucast x :: u32) = ucast x" and "drop_bit n (ucast x :: u32) = 0"
proof -
  have "bit (take_bit n (ucast x :: u32)) i = bit (ucast x :: u32) i" for i
    using bit_len [of x i] assms by (auto simp: bit_simps)
  then show "take_bit n (ucast x :: u32) = ucast x" by (rule bit_eqI)
  have "bit (drop_bit n (ucast x :: u32)) i = bit 0 i" for i
    using bit_len [of x "n + i"] assms by (auto simp: bit_simps)
  then show "drop_bit n (ucast x :: u32) = 0" by (rule bit_eqI)
qed

lemma field_ucast_back:
  fixes x :: "'a::len word"
  assumes "LENGTH('a) \<le> 32"
  shows "ucast (ucast x :: u32) = (ucast x :: 'b::len word)"
proof -
  have "bit (ucast (ucast x :: u32) :: 'b word) i = bit (ucast x :: 'b word) i" for i
    using bit_len [of x i] assms by (auto simp: bit_simps)
  then show ?thesis by (rule bit_eqI)
qed

lemma field_first: "n \<le> s \<Longrightarrow> take_bit n (htt_set s v w) = take_bit n w" "take_bit n (htt_set 0 v 0) = take_bit n v"
  using field_skip [of 0 n s v w] by (simp_all add: htt_set_def)

lemmas htt_fields = field_first field_skip field_hit field_zero field_ucast field_ucast_back

end
