(* ===== verification/Rx_Ind.thy ===== *)
theory Rx_Ind
  imports Htt_Rx_Ring Htt_Fields
begin

text \<open>
  The handler of a receive indication of the target (\<open>ol_rx_indication_handler\<close> of \<open>ol_rx.c\<close>, with the
  accessors of the message in \<open>htt_t2h.c\<close>): the MPDUs of its ranges are taken off the ring of receive
  buffers and stored into the reorder ring of their TID or freed, the ring is topped up, and the range of
  the release is handed on.  Statistics, signal strengths, traces and the notices of invalid frames change
  nothing here.
\<close>

section \<open>The message\<close>

definition htt_rx_ind_flush :: "u32 list \<Rightarrow> u32 option" where
  "htt_rx_ind_flush msg = map_option (htt_field 0x2000 13) (load_at msg 0)"

definition htt_rx_ind_flush_seq_num_range :: "u32 list \<Rightarrow> (u32 \<times> u32) option" where
  "htt_rx_ind_flush_seq_num_range msg = map_option (\<lambda>w. (htt_field 0x3f 0 w, htt_field 0xfc0 6 w)) (load_at msg 1)"

definition htt_rx_ind_release :: "u32 list \<Rightarrow> u32 option" where
  "htt_rx_ind_release msg = map_option (htt_field 0x4000 14) (load_at msg 0)"

definition htt_rx_ind_release_seq_num_range :: "u32 list \<Rightarrow> (u32 \<times> u32) option" where
  "htt_rx_ind_release_seq_num_range msg = map_option (\<lambda>w. (htt_field 0x3f000 12 w, htt_field 0xfc0000 18 w)) (load_at msg 1)"

text \<open>The status and the number of MPDUs of a range.\<close>

definition htt_rx_ind_mpdu_range_info :: "htt_pdev \<Rightarrow> u32 list \<Rightarrow> nat \<Rightarrow> (u32 \<times> u32) option" where
  "htt_rx_ind_mpdu_range_info h msg mpdu_range =
     map_option (\<lambda>w. (htt_field 0xff00 8 w, htt_field 0xff 0 w))
       (load_at msg (unat (rx_mpdu_range_offset_words h) + mpdu_range))"

section \<open>The MPDUs of a range\<close>

definition HTT_RX_IND_MPDU_STATUS_OK :: u32 where "HTT_RX_IND_MPDU_STATUS_OK = 1"
definition HTT_INVALID_TID :: u8 where "HTT_INVALID_TID = 31"

text \<open>
  What the handler is set up with: the receive function, the hardware's descriptors, the outcomes of the
  buffer allocations, the flags of the device and the time.
\<close>

record rx_ind_env =
  ie_opt :: rx_proc
  ie_hw :: "nbuf \<Rightarrow> hw_msdu"
  ie_alloc :: "fill_outcome list"
  ie_dup_check :: bool
  ie_defrag_check :: bool
  ie_now :: u32

definition OL_RX_SEQ_NUM_CHECK :: "bool \<Rightarrow> tidk \<Rightarrow> rx_desc \<Rightarrow> rx_state \<Rightarrow> htt_rx_status \<times> rx_state" where
  "OL_RX_SEQ_NUM_CHECK dup_check k d s =
     (if dup_check \<and> win_sz_mask (tids_rx_reorder s k) = 0 then ol_rx_seq_num_check k d s else (htt_rx_status_ok, s))"

text \<open>One MPDU of a valid range; the flag says whether there is still something to release.\<close>

definition ind_valid_mpdu :: "rx_ind_env \<Rightarrow> tidk \<Rightarrow> bool \<Rightarrow> htt_pdev \<Rightarrow> (bool \<times> htt_pdev) option" where
  "ind_valid_mpdu env k release h =
     (case htt_rx_amsdu_pop_ll (ie_hw env) h of
        None \<Rightarrow> None
      | Some (msdu_chaining, head_msdu, tail_msdu, h1) \<Rightarrow>
          (case htt_rx_mpdu_desc_list_next_ll h1 of
             None \<Rightarrow> None
           | Some (rx_mpdu_desc, h2) \<Rightarrow>
               (let s = ht_rx h2; d = nb_desc s rx_mpdu_desc; put = (\<lambda>s'. ht_upd_rx (\<lambda>_. s') h2)
                in if msdu_chaining
                   then map_option (\<lambda>s'. (release, put s')) (free_mpdu head_msdu (Some tail_msdu) s)
                   else (case OL_RX_SEQ_NUM_CHECK (ie_dup_check env) k d s of
                           (htt_rx_status_err_replay, s1) \<Rightarrow>
                             map_option (\<lambda>s'. (False, put s')) (free_mpdu head_msdu (Some tail_msdu) s1)
                         | (htt_rx_status_ok, s1) \<Rightarrow>
                             (case ol_rx_reorder_store k (ucast (d_seq_num d)) (Some head_msdu) (Some tail_msdu) s1 of
                                None \<Rightarrow> None
                              | Some s2 \<Rightarrow>
                                  map_option (\<lambda>s3. (release, put (if win_sz_mask (tids_rx_reorder s3 k) = 0
                                      then s3\<lparr>tids_last_seq := (tids_last_seq s3)(k := d_seq_num d)\<rparr> else s3)))
                                    (ol_rx_reorder_update_history (fst k) 0 (snd k) 0 0 (ucast (d_seq_num d)) s2))))))"

fun ind_valid_mpdus :: "rx_ind_env \<Rightarrow> tidk \<Rightarrow> nat \<Rightarrow> bool \<Rightarrow> htt_pdev \<Rightarrow> (bool \<times> htt_pdev) option" where
  "ind_valid_mpdus env k 0 release h = Some (release, h)"
| "ind_valid_mpdus env k (Suc n) release h =
     (case ind_valid_mpdu env k release h of
        None \<Rightarrow> None
      | Some (release', h') \<Rightarrow> ind_valid_mpdus env k n release' h')"

text \<open>The MPDUs of an invalid range, or of no peer, are freed.\<close>

fun ind_invalid_mpdus :: "rx_ind_env \<Rightarrow> nat \<Rightarrow> htt_pdev \<Rightarrow> htt_pdev option" where
  "ind_invalid_mpdus env 0 h = Some h"
| "ind_invalid_mpdus env (Suc n) h =
     (case htt_rx_amsdu_pop_ll (ie_hw env) h of
        None \<Rightarrow> None
      | Some (_, msdu, tail_msdu, h1) \<Rightarrow>
          (case htt_rx_mpdu_desc_list_next_ll h1 of
             None \<Rightarrow> None
           | Some (_, h2) \<Rightarrow>
               (case free_mpdu msdu (Some tail_msdu) (ht_rx h2) of
                  None \<Rightarrow> None
                | Some s \<Rightarrow> ind_invalid_mpdus env n (ht_upd_rx (\<lambda>_. s) h2))))"

text \<open>The ranges from \<open>i\<close> on, \<open>n\<close> of them.\<close>

fun ind_ranges :: "rx_ind_env \<Rightarrow> peer option \<Rightarrow> u8 \<Rightarrow> u32 list \<Rightarrow> nat \<Rightarrow> nat \<Rightarrow> bool \<Rightarrow> htt_pdev \<Rightarrow> (bool \<times> htt_pdev) option" where
  "ind_ranges env peer tid msg 0 i release h = Some (release, h)"
| "ind_ranges env peer tid msg (Suc n) i release h =
     (case htt_rx_ind_mpdu_range_info h msg i of
        None \<Rightarrow> None
      | Some (status, mpdu_cnt) \<Rightarrow>
          (case (case peer of
                   Some p \<Rightarrow>
                     (if status = HTT_RX_IND_MPDU_STATUS_OK then ind_valid_mpdus env (p, tid) (unat mpdu_cnt) release h
                      else map_option (\<lambda>h'. (release, h')) (ind_invalid_mpdus env (unat mpdu_cnt) h))
                 | None \<Rightarrow> map_option (\<lambda>h'. (release, h')) (ind_invalid_mpdus env (unat mpdu_cnt) h)) of
             None \<Rightarrow> None
           | Some (release', h') \<Rightarrow> ind_ranges env peer tid msg n (Suc i) release' h'))"

section \<open>The handler\<close>

definition ind_flush :: "rx_ind_env \<Rightarrow> peer option \<Rightarrow> u8 \<Rightarrow> u32 list \<Rightarrow> htt_pdev \<Rightarrow> htt_pdev option" where
  "ind_flush env peer tid msg h =
     (case (htt_rx_ind_flush msg, peer) of
        (None, _) \<Rightarrow> None
      | (Some f, Some p) \<Rightarrow>
          (if f = 0 then Some h
           else (case htt_rx_ind_flush_seq_num_range msg of
                   None \<Rightarrow> None
                 | Some (seq_num_start, seq_num_end) \<Rightarrow>
                     map_option (\<lambda>s. ht_upd_rx (\<lambda>_. s) h)
                       (if tid = HTT_INVALID_TID then ol_rx_reorder_peer_cleanup (ie_opt env) p (ht_rx h)
                        else (case ol_rx_reorder_flush (ie_opt env) (p, tid) seq_num_start seq_num_end htt_rx_flush_release (ht_rx h) of
                                None \<Rightarrow> None
                              | Some s \<Rightarrow> ol_rx_reorder_update_history p 2 tid (ucast seq_num_start) (ucast seq_num_end) 0 s))))
      | (Some f, None) \<Rightarrow> Some h)"

text \<open>Whether the message asks for a release, and the range; it is read only then.\<close>

definition ind_release_range :: "u32 list \<Rightarrow> (bool \<times> u32 \<times> u32) option" where
  "ind_release_range msg =
     (case htt_rx_ind_release msg of
        None \<Rightarrow> None
      | Some f \<Rightarrow> (if f = 0 then Some (False, 0, 0) else map_option (Pair True) (htt_rx_ind_release_seq_num_range msg)))"

text \<open>The release the message asked for, and the check for fragments that waited too long.\<close>

definition ind_release :: "rx_ind_env \<Rightarrow> peer option \<Rightarrow> u8 \<Rightarrow> bool \<Rightarrow> u32 \<Rightarrow> u32 \<Rightarrow> rx_state \<Rightarrow> rx_state option" where
  "ind_release env peer tid rx_ind_release seq_num_start seq_num_end s =
     (case peer of
        None \<Rightarrow> Some s
      | Some p \<Rightarrow>
          (if \<not> rx_ind_release then Some s
           else (case ol_rx_reorder_release (ie_opt env) (p, tid) seq_num_start seq_num_end s of
                   None \<Rightarrow> None
                 | Some s1 \<Rightarrow> ol_rx_reorder_update_history p 1 tid (ucast seq_num_start) (ucast seq_num_end) 0 s1)))"

definition ind_timeouts :: "rx_ind_env \<Rightarrow> rx_state \<Rightarrow> rx_state option" where
  "ind_timeouts env s = (if ie_defrag_check env then ol_rx_defrag_waitlist_flush (ie_now env) s else Some s)"

definition ol_rx_indication_handler ::
    "rx_ind_env \<Rightarrow> u32 list \<Rightarrow> u16 \<Rightarrow> u8 \<Rightarrow> nat \<Rightarrow> htt_pdev \<Rightarrow> htt_pdev option" where
  "ol_rx_indication_handler env msg peer_id tid num_mpdu_ranges h =
     (case ol_txrx_peer_find_by_id peer_id (ht_rx h) of
        None \<Rightarrow> None
      | Some found \<Rightarrow>
          (let peer = (if found = None then ocb_peer (ht_rx h) else found)
           in case (ind_flush env peer tid msg h, ind_release_range msg) of
                (Some h1, Some (rel, seq_num_start, seq_num_end)) \<Rightarrow>
                  (case ind_ranges env peer tid msg num_mpdu_ranges 0 rel h1 of
                     None \<Rightarrow> None
                   | Some (rx_ind_release, h2) \<Rightarrow>
                       (case htt_rx_msdu_buff_replenish (ie_alloc env) h2 of
                          None \<Rightarrow> None
                        | Some h3 \<Rightarrow>
                            map_option (\<lambda>s. ht_upd_rx (\<lambda>_. s) h3)
                              (Option.bind (ind_release env peer tid rx_ind_release seq_num_start seq_num_end (ht_rx h3))
                                 (ind_timeouts env))))
              | _ \<Rightarrow> None))"

end
