(* ===== verification/Htt_T2h.thy ===== *)
theory Htt_T2h
  imports Rx_Ind Peer_Reach Rx_Pn_Ind Rx_Fraglist
begin

text \<open>
  The messages the target sends the host (\<open>htt_t2h_msg_handler\<close> and \<open>htt_t2h_lp_msg_handler\<close> of
  \<open>htt_t2h.c\<close>, the field masks of \<open>htt.h\<close>, and \<open>ol_rx_sec_ind_handler\<close> of \<open>ol_rx.c\<close>): a message is cut
  into its fields and handed to the handler of its type, then its buffer is freed.  The build is the
  low-latency one on a little-endian host, without full reorder offload.  Messages of the transmit path, of
  statistics, of the packet log and of IPA are the parameter \<open>te_other\<close>.
\<close>

section \<open>Messages\<close>

text \<open>The buffer of a message: its data as words, and the length the transport reports in bytes.\<close>

record t2h_msg =
  tm_id :: nat
  tm_words :: "u32 list"
  tm_len :: u32

datatype a_status = A_OK | A_ECANCELED | A_FAILED

definition msg_bytes :: "u32 list \<Rightarrow> u8 list" where
  "msg_bytes ws = concat (map (\<lambda>w. [ucast w, ucast (drop_bit 8 w), ucast (drop_bit 16 w), ucast (drop_bit 24 w)]) ws)"

definition HTT_T2H_MSG_TYPE_GET :: "u32 \<Rightarrow> u32" where "HTT_T2H_MSG_TYPE_GET w = htt_field 0xff 0 w"

definition HTT_RX_FLUSH_PEER_ID_GET :: "u32 \<Rightarrow> u16" where "HTT_RX_FLUSH_PEER_ID_GET w = ucast (htt_field 0xffff00 8 w)"
definition HTT_RX_FLUSH_TID_GET :: "u32 \<Rightarrow> u8" where "HTT_RX_FLUSH_TID_GET w = ucast (htt_field 0xff000000 24 w)"
definition HTT_RX_FLUSH_MPDU_STATUS_GET :: "u32 \<Rightarrow> u32" where "HTT_RX_FLUSH_MPDU_STATUS_GET w = htt_field 0xff00 8 w"
definition HTT_RX_FLUSH_SEQ_NUM_START_GET :: "u32 \<Rightarrow> u16" where "HTT_RX_FLUSH_SEQ_NUM_START_GET w = ucast (htt_field 0xff0000 16 w)"
definition HTT_RX_FLUSH_SEQ_NUM_END_GET :: "u32 \<Rightarrow> u16" where "HTT_RX_FLUSH_SEQ_NUM_END_GET w = ucast (htt_field 0xff000000 24 w)"

definition HTT_RX_PN_IND_PEER_ID_GET :: "u32 \<Rightarrow> u16" where "HTT_RX_PN_IND_PEER_ID_GET w = ucast (htt_field 0xffff00 8 w)"
definition HTT_RX_PN_IND_EXT_TID_GET :: "u32 \<Rightarrow> u8" where "HTT_RX_PN_IND_EXT_TID_GET w = ucast (htt_field 0xff000000 24 w)"
definition HTT_RX_PN_IND_SEQ_NUM_START_GET :: "u32 \<Rightarrow> u16" where "HTT_RX_PN_IND_SEQ_NUM_START_GET w = ucast (htt_field 0xff 0 w)"
definition HTT_RX_PN_IND_SEQ_NUM_END_GET :: "u32 \<Rightarrow> u16" where "HTT_RX_PN_IND_SEQ_NUM_END_GET w = ucast (htt_field 0xff00 8 w)"
definition HTT_RX_PN_IND_PN_IE_CNT_GET :: "u32 \<Rightarrow> u8" where "HTT_RX_PN_IND_PN_IE_CNT_GET w = ucast (htt_field 0xff0000 16 w)"

definition HTT_RX_PEER_MAP_PEER_ID_GET :: "u32 \<Rightarrow> u16" where "HTT_RX_PEER_MAP_PEER_ID_GET w = ucast (htt_field 0xffff0000 16 w)"

definition HTT_SEC_IND_SEC_TYPE_GET :: "u32 \<Rightarrow> u32" where "HTT_SEC_IND_SEC_TYPE_GET w = htt_field 0x7f00 8 w"
definition HTT_SEC_IND_UNICAST_GET :: "u32 \<Rightarrow> u32" where "HTT_SEC_IND_UNICAST_GET w = htt_field 0x8000 15 w"
definition HTT_SEC_IND_PEER_ID_GET :: "u32 \<Rightarrow> u16" where "HTT_SEC_IND_PEER_ID_GET w = ucast (htt_field 0xffff0000 16 w)"

definition HTT_RX_ADDBA_WIN_SIZE_GET :: "u32 \<Rightarrow> u8" where "HTT_RX_ADDBA_WIN_SIZE_GET w = ucast (htt_field 0xff00 8 w)"
definition HTT_RX_ADDBA_TID_GET :: "u32 \<Rightarrow> u8" where "HTT_RX_ADDBA_TID_GET w = ucast (htt_field 0xf0000 16 w)"
definition HTT_RX_ADDBA_PEER_ID_GET :: "u32 \<Rightarrow> u16" where "HTT_RX_ADDBA_PEER_ID_GET w = ucast (htt_field 0xfff00000 20 w)"

definition HTT_RX_IND_EXT_TID_GET :: "u32 \<Rightarrow> u8" where "HTT_RX_IND_EXT_TID_GET w = ucast (htt_field 0x1f00 8 w)"
definition HTT_RX_IND_PEER_ID_GET :: "u32 \<Rightarrow> u16" where "HTT_RX_IND_PEER_ID_GET w = ucast (htt_field 0xffff0000 16 w)"
definition HTT_RX_IND_FW_RX_DESC_BYTES_GET :: "u32 \<Rightarrow> u32" where "HTT_RX_IND_FW_RX_DESC_BYTES_GET w = htt_field 0xffff 0 w"
definition HTT_RX_IND_NUM_MPDU_RANGES_GET :: "u32 \<Rightarrow> u32" where "HTT_RX_IND_NUM_MPDU_RANGES_GET w = htt_field 0xff000000 24 w"

lemmas htt_gets = HTT_T2H_MSG_TYPE_GET_def HTT_RX_FLUSH_PEER_ID_GET_def HTT_RX_FLUSH_TID_GET_def
  HTT_RX_FLUSH_MPDU_STATUS_GET_def HTT_RX_FLUSH_SEQ_NUM_START_GET_def HTT_RX_FLUSH_SEQ_NUM_END_GET_def
  HTT_RX_PN_IND_PEER_ID_GET_def HTT_RX_PN_IND_EXT_TID_GET_def HTT_RX_PN_IND_SEQ_NUM_START_GET_def
  HTT_RX_PN_IND_SEQ_NUM_END_GET_def HTT_RX_PN_IND_PN_IE_CNT_GET_def
  HTT_RX_PEER_MAP_PEER_ID_GET_def HTT_SEC_IND_SEC_TYPE_GET_def HTT_SEC_IND_UNICAST_GET_def HTT_SEC_IND_PEER_ID_GET_def
  HTT_RX_ADDBA_WIN_SIZE_GET_def HTT_RX_ADDBA_TID_GET_def HTT_RX_ADDBA_PEER_ID_GET_def HTT_RX_IND_EXT_TID_GET_def
  HTT_RX_IND_PEER_ID_GET_def HTT_RX_IND_FW_RX_DESC_BYTES_GET_def HTT_RX_IND_NUM_MPDU_RANGES_GET_def

section \<open>The security indication\<close>

text \<open>A number that is no security type is \<open>None\<close>: the code goes on to use it as an index.\<close>

definition htt_sec_type_of :: "u32 \<Rightarrow> htt_sec_type option" where
  "htt_sec_type_of w = load_at [htt_sec_type_none, htt_sec_type_wep128, htt_sec_type_wep104, htt_sec_type_wep40,
     htt_sec_type_tkip, htt_sec_type_tkip_nomic, htt_sec_type_aes_ccmp, htt_sec_type_wapi] (unat w)"

definition sec_tids :: "peer \<Rightarrow> tidk set" where
  "sec_tids p = {p} \<times> {t. t < OL_TXRX_NUM_EXT_TIDS}"

definition le_pn :: "u32 list \<Rightarrow> htt_rx_pn" where
  "le_pn ws = \<lparr>pn128_0 = ucast (ws ! 0) OR push_bit 32 (ucast (ws ! 1)), pn128_1 = ucast (ws ! 2) OR push_bit 32 (ucast (ws ! 3))\<rparr>"

definition ol_rx_sec_ind_handler :: "u16 \<Rightarrow> htt_sec_type \<Rightarrow> bool \<Rightarrow> u32 list \<Rightarrow> u32 list \<Rightarrow> rx_state \<Rightarrow> rx_state option" where
  "ol_rx_sec_ind_handler peer_id sec_type is_unicast michael_key rx_pn s =
     (case ol_txrx_peer_find_by_id peer_id s of
        None \<Rightarrow> None
      | Some None \<Rightarrow> Some s
      | Some (Some p) \<Rightarrow>
          (let key = take 2 michael_key; q = peers s p;
               s1 = s\<lparr>peers := (peers s)(p := (if is_unicast then q\<lparr>sec_type_ucast := sec_type, michael_key_ucast := key\<rparr>
                  else q\<lparr>sec_type_mcast := sec_type, michael_key_mcast := key\<rparr>))\<rparr>
           in if sec_type \<noteq> htt_sec_type_wapi
              then Some (s1\<lparr>tids_last_pn_valid := (\<lambda>k. if k \<in> sec_tids p then False else tids_last_pn_valid s k)\<rparr>)
              else if \<not> is_unicast \<or> tids_last_pn_valid s (p, 0)
              then Some (s1\<lparr>tids_last_pn_valid := (\<lambda>k. if k \<in> sec_tids p then True else tids_last_pn_valid s k),
                            tids_last_pn := (\<lambda>k. if k \<in> sec_tids p then le_pn rx_pn else tids_last_pn s k)\<rparr>)
              else Some s1))"

section \<open>Fragments\<close>

text \<open>
  The hardware's bit for the last buffer of an MPDU is set by hand, since it is missing for fragments;
  then the fragment is taken off the ring of receive buffers.
\<close>

definition HTT_RX_FRAG_SET_LAST_MSDU :: "u32 \<Rightarrow> (nbuf \<Rightarrow> hw_msdu) \<Rightarrow> htt_pdev \<Rightarrow> ((nbuf \<Rightarrow> hw_msdu) \<times> htt_pdev) option" where
  "HTT_RX_FRAG_SET_LAST_MSDU bytes_word hw h =
     map_option (\<lambda>b. (hw(b := (hw b)\<lparr>hm_last := True\<rparr>),
         h\<lparr>rx_mpdu_range_offset_words := 3 + drop_bit 2 (HTT_RX_IND_FW_RX_DESC_BYTES_GET bytes_word + 3)\<rparr>))
       (load_at (netbufs_ring (ht_ring h)) (unat (sw_rd_payld (ht_ring h))))"

text \<open>
  The two pops of the indication handler; what it does to the receive state is \<open>Rx_Fraglist\<close>'s
  handler, the ring of receive buffers is beside it.
\<close>

definition frag_pop :: "(nbuf \<Rightarrow> hw_msdu) \<Rightarrow> htt_pdev \<Rightarrow> (nbuf \<times> htt_pdev) option" where
  "frag_pop hw h =
     Option.bind (htt_rx_amsdu_pop_ll hw h)
       (\<lambda>(_, head_msdu, _, h1). map_option (\<lambda>(_, h2). (head_msdu, h2)) (htt_rx_mpdu_desc_list_next_ll h1))"

definition t2h_frag_ind ::
    "rx_env \<Rightarrow> (nbuf \<Rightarrow> hw_msdu) \<Rightarrow> fill_outcome list \<Rightarrow> u32 \<Rightarrow> u32 list \<Rightarrow> u16 \<Rightarrow> u8 \<Rightarrow> htt_pdev \<Rightarrow> htt_pdev option" where
  "t2h_frag_ind e hw os now msg peer_id tid h =
     (if OL_TXRX_NUM_EXT_TIDS \<le> tid then Some h
      else Option.bind (htt_rx_ind_flush msg) (\<lambda>fv.
        Option.bind (if fv = 0 then Some None else map_option (\<lambda>r. Some (ucast (fst r))) (htt_rx_ind_flush_seq_num_range msg)) (\<lambda>fl.
        Option.bind (ol_rx_frag_indication_handler e fl
            (\<lambda>s. map_option (\<lambda>(b, h'). (b, ht_rx h')) (frag_pop hw (ht_upd_rx (\<lambda>_. s) h))) Some now peer_id tid (ht_rx h)) (\<lambda>s.
        Option.bind (frag_pop hw h) (\<lambda>(_, h2).
          htt_rx_msdu_buff_replenish os (ht_upd_rx (\<lambda>_. s) h2))))))"

section \<open>Handlers\<close>

record t2h_env =
  te_ind :: rx_ind_env
  te_frag :: rx_env
  te_addba_mem :: bool
  te_monitor :: bool
  te_other :: "u32 \<Rightarrow> t2h_msg \<Rightarrow> htt_pdev \<Rightarrow> htt_pdev option"

definition on_rx :: "(rx_state \<Rightarrow> rx_state option) \<Rightarrow> htt_pdev \<Rightarrow> htt_pdev option" where
  "on_rx f h = map_option (\<lambda>s. ht_upd_rx (\<lambda>_. s) h) (f (ht_rx h))"

definition on_pdev :: "(pdev_state \<Rightarrow> pdev_state option) \<Rightarrow> htt_pdev \<Rightarrow> htt_pdev option" where
  "on_pdev f h = map_option (\<lambda>s. h\<lparr>ht_txrx := s\<rparr>) (f (ht_txrx h))"

definition adf_nbuf_free :: "t2h_msg \<Rightarrow> htt_pdev \<Rightarrow> htt_pdev" where
  "adf_nbuf_free m h = h\<lparr>freed_msgs := freed_msgs h @ [tm_id m]\<rparr>"

text \<open>One function per case of the switch of the handler for low priority messages; \<open>w0\<close> is the first word.\<close>

definition t2h_version_conf :: "u32 \<Rightarrow> htt_pdev \<Rightarrow> htt_pdev option" where
  "t2h_version_conf w0 h = Some (h\<lparr>tgt_ver := (ucast (htt_field 0xff0000 16 w0), ucast (htt_field 0xff00 8 w0))\<rparr>)"

definition t2h_rx_flush :: "t2h_env \<Rightarrow> t2h_msg \<Rightarrow> u32 \<Rightarrow> htt_pdev \<Rightarrow> htt_pdev option" where
  "t2h_rx_flush env m w0 h =
     (if tm_len m < 8 then Some h
      else Option.bind (load_at (tm_words m) 1) (\<lambda>w1.
        on_rx (ol_rx_flush_handler (\<lambda>_. ie_opt (te_ind env)) (HTT_RX_FLUSH_PEER_ID_GET w0) (HTT_RX_FLUSH_TID_GET w0)
          (HTT_RX_FLUSH_SEQ_NUM_START_GET w1) (HTT_RX_FLUSH_SEQ_NUM_END_GET w1)
          (if HTT_RX_FLUSH_MPDU_STATUS_GET w1 = 1 then htt_rx_flush_release else htt_rx_flush_discard)) h))"

definition t2h_rx_frag_ind :: "t2h_env \<Rightarrow> t2h_msg \<Rightarrow> u32 \<Rightarrow> htt_pdev \<Rightarrow> htt_pdev option" where
  "t2h_rx_frag_ind env m w0 h =
     (if tm_len m < 16 then Some h
      else Option.bind (load_at (tm_words m) 2) (\<lambda>w2.
        Option.bind (HTT_RX_FRAG_SET_LAST_MSDU w2 (ie_hw (te_ind env)) h) (\<lambda>(hw, h1).
          t2h_frag_ind (te_frag env) hw (ie_alloc (te_ind env)) (ie_now (te_ind env)) (tm_words m)
            (HTT_RX_IND_PEER_ID_GET w0) (HTT_RX_IND_EXT_TID_GET w0) h1)))"

definition t2h_rx_addba :: "t2h_env \<Rightarrow> u32 \<Rightarrow> htt_pdev \<Rightarrow> htt_pdev option" where
  "t2h_rx_addba env w0 = on_rx (ol_rx_addba_handler (te_addba_mem env) (HTT_RX_ADDBA_PEER_ID_GET w0)
     (HTT_RX_ADDBA_TID_GET w0) (HTT_RX_ADDBA_WIN_SIZE_GET w0) False)"

definition t2h_rx_delba :: "u32 \<Rightarrow> htt_pdev \<Rightarrow> htt_pdev option" where
  "t2h_rx_delba w0 = on_rx (ol_rx_delba_handler (HTT_RX_ADDBA_PEER_ID_GET w0) (HTT_RX_ADDBA_TID_GET w0))"

text \<open>The address of the peer is the six bytes after the first word.\<close>

definition t2h_peer_map :: "t2h_env \<Rightarrow> t2h_msg \<Rightarrow> u32 \<Rightarrow> htt_pdev \<Rightarrow> htt_pdev option" where
  "t2h_peer_map env m w0 h =
     (if tm_len m < 12 then Some h
      else let peer_id = HTT_RX_PEER_MAP_PEER_ID_GET w0
      in if ctrl_max_peer_id h < peer_id then Some h
         else if length (tm_words m) < 3 then None
         else on_pdev (ol_rx_peer_map_handler (ie_opt (te_ind env)) (te_monitor env) peer_id
                (take 6 (msg_bytes (drop 1 (tm_words m))))) h)"

definition t2h_peer_unmap :: "t2h_env \<Rightarrow> t2h_msg \<Rightarrow> u32 \<Rightarrow> htt_pdev \<Rightarrow> htt_pdev option" where
  "t2h_peer_unmap env m w0 h =
     (if tm_len m < 4 then Some h
      else let peer_id = HTT_RX_PEER_MAP_PEER_ID_GET w0
      in if ctrl_max_peer_id h < peer_id then Some h
         else on_pdev (ol_rx_peer_unmap_handler (ie_opt (te_ind env)) (te_monitor env) peer_id) h)"

definition t2h_sec_ind :: "t2h_msg \<Rightarrow> u32 \<Rightarrow> htt_pdev \<Rightarrow> htt_pdev option" where
  "t2h_sec_ind m w0 h =
     (if tm_len m < 28 then Some h
      else if length (tm_words m) < 7 then None
      else Option.bind (htt_sec_type_of (HTT_SEC_IND_SEC_TYPE_GET w0)) (\<lambda>sec_type.
        on_rx (ol_rx_sec_ind_handler (HTT_SEC_IND_PEER_ID_GET w0) sec_type (HTT_SEC_IND_UNICAST_GET w0 \<noteq> 0)
          (drop 1 (tm_words m)) (drop 3 (tm_words m))) h))"

definition htt_t2h_lp_msg_handler :: "t2h_env \<Rightarrow> t2h_msg \<Rightarrow> htt_pdev \<Rightarrow> htt_pdev option" where
  "htt_t2h_lp_msg_handler env m h =
     Option.bind (load_at (tm_words m) 0) (\<lambda>w0.
       let ty = HTT_T2H_MSG_TYPE_GET w0
       in map_option (adf_nbuf_free m)
            (if ty = 0x0 then t2h_version_conf w0 h
             else if ty = 0x2 then t2h_rx_flush env m w0 h
             else if ty = 0xa then t2h_rx_frag_ind env m w0 h
             else if ty = 0x5 then t2h_rx_addba env w0 h
             else if ty = 0x6 then t2h_rx_delba w0 h
             else if ty = 0x3 then t2h_peer_map env m w0 h
             else if ty = 0x4 then t2h_peer_unmap env m w0 h
             else if ty = 0xb then t2h_sec_ind m w0 h
             else if ty \<in> {0x8, 0x9, 0xe, 0xf, 0x11, 0x14, 0x16, 0x17, 0x1d, 0x26} then te_other env ty m h
             else Some h))"

text \<open>The two cases of the first handler that concern the receive path.\<close>

definition t2h_rx_ind :: "t2h_env \<Rightarrow> t2h_msg \<Rightarrow> u32 \<Rightarrow> htt_pdev \<Rightarrow> htt_pdev option" where
  "t2h_rx_ind env m w0 h =
     (let tid = HTT_RX_IND_EXT_TID_GET w0
      in if OL_TXRX_NUM_EXT_TIDS \<le> tid then Some h
         else Option.bind (load_at (tm_words m) 11) (\<lambda>w11.
           Option.bind (load_at (tm_words m) 1) (\<lambda>w1.
             let h1 = h\<lparr>rx_mpdu_range_offset_words := drop_bit 2 (48 + HTT_RX_IND_FW_RX_DESC_BYTES_GET w11 + 3)\<rparr>;
                 num_mpdu_ranges = HTT_RX_IND_NUM_MPDU_RANGES_GET w1;
                 off = rx_mpdu_range_offset_words h1;
                 calculated_msg_len = off + num_mpdu_ranges * 4
             in if tm_len m < off \<or> calculated_msg_len < off \<or> tm_len m < calculated_msg_len then Some h1
                else ol_rx_indication_handler (te_ind env) (tm_words m) (HTT_RX_IND_PEER_ID_GET w0) tid
                       (unat num_mpdu_ranges) h1)))"

definition t2h_rx_pn_ind :: "t2h_env \<Rightarrow> t2h_msg \<Rightarrow> u32 \<Rightarrow> htt_pdev \<Rightarrow> htt_pdev option" where
  "t2h_rx_pn_ind env m w0 h =
     (if tm_len m < 8 then Some h
      else Option.bind (load_at (tm_words m) 1) (\<lambda>w1.
        let pn_ie_cnt = HTT_RX_PN_IND_PN_IE_CNT_GET w1
        in if tm_len m - 8 < ucast pn_ie_cnt then Some h
           else on_rx (ol_rx_pn_ind_handler (\<lambda>_. ie_opt (te_ind env)) (HTT_RX_PN_IND_PEER_ID_GET w0)
                  (HTT_RX_PN_IND_EXT_TID_GET w0) (HTT_RX_PN_IND_SEQ_NUM_START_GET w1) (HTT_RX_PN_IND_SEQ_NUM_END_GET w1)
                  pn_ie_cnt (if pn_ie_cnt = 0 then [] else msg_bytes (drop 2 (tm_words m)))) h))"

definition htt_t2h_msg_handler :: "t2h_env \<Rightarrow> a_status \<Rightarrow> t2h_msg \<Rightarrow> htt_pdev \<Rightarrow> htt_pdev option" where
  "htt_t2h_msg_handler env status m h =
     (if status \<noteq> A_OK
      then Some (adf_nbuf_free m (if status \<noteq> A_ECANCELED then h\<lparr>htc_err_cnt := htc_err_cnt h + 1\<rparr> else h))
      else Option.bind (load_at (tm_words m) 0) (\<lambda>w0.
        let ty = HTT_T2H_MSG_TYPE_GET w0
        in if ty = 0x1 then map_option (adf_nbuf_free m) (t2h_rx_ind env m w0 h)
           else if ty = 0x10 then map_option (adf_nbuf_free m) (t2h_rx_pn_ind env m w0 h)
           else if ty = 0x12 then Some (adf_nbuf_free m h)
           else if ty = 0x7 \<or> ty = 0xd \<or> ty = 0x20 then map_option (adf_nbuf_free m) (te_other env ty m h)
           else htt_t2h_lp_msg_handler env m h))"

end
