(* ===== verification/Rx_Ind_Props.thy ===== *)
theory Rx_Ind_Props
  imports Rx_Ind
begin

text \<open>
  What a receive indication does with the buffers it takes off the ring: each MPDU is stored as a block or
  freed as a block, nothing is lost, and a release hands over what the range holds by then.
\<close>

section \<open>Single steps\<close>

definition history_ok :: "rx_peer \<Rightarrow> bool" where
  "history_ok q = (case pr_history q of None \<Rightarrow> True | Some r \<Rightarrow> length (rh_record r) = 50 \<and> unat (rh_curr_index r) < 50)"

lemma update_history_rep:
  assumes "history_ok (peers s p)"
  shows "\<exists>P. ol_rx_reorder_update_history p ty tid a b i s = Some (s\<lparr>peers := P\<rparr>) \<and> history_ok (P p) \<and>
    (\<forall>q. pr_valid (P q) = pr_valid (peers s q))"
proof (cases "pr_history (peers s p)")
  case None
  then show ?thesis using assms by (intro exI [of _ "peers s"]) (simp add: ol_rx_reorder_update_history_def)
next
  case (Some r)
  then have r: "length (rh_record r) = 50" "unat (rh_curr_index r) = unat (rh_curr_index r) mod 50"
    using assms by (auto simp: history_ok_def)
  let ?rec = "\<lparr>rr_msg_type = ty, rr_tid = tid, rr_peer_id = pr_local_id (peers s p), rr_start_seq = a,
      rr_end_seq = b, rr_reorder_idx = i\<rparr>"
  obtain r' where r': "history_add ?rec r = Some r'" "length (rh_record r') = 50" "unat (rh_curr_index r') < 50"
    using history_add_step [OF r, of ?rec] r(1) by auto
  show ?thesis using Some r'
    by (intro exI [of _ "(peers s)(p := (peers s p)\<lparr>pr_history := Some r'\<rparr>)"])
       (simp add: ol_rx_reorder_update_history_def history_ok_def)
qed

lemma desc_next_rep:
  assumes "rx_ring_rep (ht_ring h) (x # xs)" and "sw_rd_desc (ht_ring h) = sw_rd_payld (ht_ring h)"
    and "pop_frame (ht_ring h) (ht_ring h1)"
  shows "htt_rx_mpdu_desc_list_next_ll h1 =
    Some (x, h1\<lparr>ht_ring := (ht_ring h1)\<lparr>sw_rd_desc := sw_rd_payld (ht_ring h1)\<rparr>\<rparr>)"
proof -
  obtain k where "ring_holds (2 ^ k) (unat (sw_rd_payld (ht_ring h))) (netbufs_ring (ht_ring h)) 0 (x # xs)"
    "unat (sw_rd_payld (ht_ring h)) < 2 ^ k" using assms(1) by (auto simp: rx_ring_rep_def)
  then have "load_at (netbufs_ring (ht_ring h)) (unat (sw_rd_payld (ht_ring h))) = Some x"
    using ring_holds_get [of "2 ^ k" "unat (sw_rd_payld (ht_ring h))" "netbufs_ring (ht_ring h)" 0 "x # xs"]
    by (auto simp: load_at_def ring_holds_def)
  then show ?thesis using assms(2,3) by (simp add: htt_rx_mpdu_desc_list_next_ll_def pop_frame_def Let_def)
qed

lemma rx_ring_rep_desc [simp]: "rx_ring_rep (r\<lparr>sw_rd_desc := i\<rparr>) xs = rx_ring_rep r xs"
  by (simp add: rx_ring_rep_def)

text \<open>Taking an MPDU and its descriptor together.\<close>

lemma take_mpdu:
  assumes "amsdu_take hw xs = Some (m, ch, r)" and "rx_ring_rep (ht_ring h) xs" and "distinct xs"
    and "sw_rd_desc (ht_ring h) = sw_rd_payld (ht_ring h)"
  shows "\<exists>h1 h2 nx r2. htt_rx_amsdu_pop_ll hw h = Some (ch, hd m, last m, h1) \<and>
    htt_rx_mpdu_desc_list_next_ll h1 = Some (hd m, h2) \<and>
    h2 = (ht_upd_rx (\<lambda>s. s\<lparr>nb_next := nx\<rparr>) h)\<lparr>ht_ring := r2\<rparr> \<and> rx_ring_rep r2 r \<and> sw_rd_desc r2 = sw_rd_payld r2 \<and>
    fill_level r2 = fill_level (ht_ring h) \<and> refill_ref_cnt r2 = refill_ref_cnt (ht_ring h) \<and>
    (\<forall>c. c \<notin> set m \<longrightarrow> nx c = nb_next (ht_rx h) c) \<and> lseg nx (Some (hd m)) m None"
proof -
  obtain h1 where h1: "htt_rx_amsdu_pop_ll hw h = Some (ch, hd m, last m, h1)" "rx_ring_rep (ht_ring h1) r"
    "pop_change (set m) h h1" "lseg (nb_next (ht_rx h1)) (Some (hd m)) m None"
    using amsdu_pop_rep [OF assms(1-3)] by blast
  obtain nx r1 where f: "h1 = (ht_upd_rx (\<lambda>s. s\<lparr>nb_next := nx\<rparr>) h)\<lparr>ht_ring := r1\<rparr>" "pop_frame (ht_ring h) r1"
    "\<And>c. c \<notin> set m \<Longrightarrow> nx c = nb_next (ht_rx h) c" using h1(3) by (auto simp: pop_change_def)
  have fr: "pop_frame (ht_ring h) (ht_ring h1)" using f by simp
  have "m \<noteq> []" "xs = m @ r" using amsdu_take_append [OF assms(1)] by auto
  then obtain ys where "xs = hd m # ys" by (cases m) auto
  then have "htt_rx_mpdu_desc_list_next_ll h1 = Some (hd m, h1\<lparr>ht_ring := r1\<lparr>sw_rd_desc := sw_rd_payld r1\<rparr>\<rparr>)"
    using desc_next_rep [OF _ assms(4) fr] assms(2) f(1) by simp
  with h1 f show ?thesis
    by (intro exI [of _ h1] exI [of _ "h1\<lparr>ht_ring := r1\<lparr>sw_rd_desc := sw_rd_payld r1\<rparr>\<rparr>"] exI [of _ nx]
        exI [of _ "r1\<lparr>sw_rd_desc := sw_rd_payld r1\<rparr>"]) (simp add: pop_frame_def ht_upd_rx_def)
qed

text \<open>
  What holds between two MPDUs: the ring of receive buffers holds \<open>xs\<close>, the reorder ring of \<open>k\<close> holds
  \<open>bss\<close>, and no buffer is in both.
\<close>

definition ind_inv :: "tidk \<Rightarrow> nbuf list \<Rightarrow> nbuf list list \<Rightarrow> htt_pdev \<Rightarrow> bool" where
  "ind_inv k xs bss h \<longleftrightarrow> rx_ring_rep (ht_ring h) xs \<and> sw_rd_desc (ht_ring h) = sw_rd_payld (ht_ring h) \<and>
     ring_rep (ht_rx h) k bss \<and> distinct (concat bss @ xs) \<and> history_ok (peers (ht_rx h) (fst k))"

definition ind_put :: "u16 \<Rightarrow> nbuf list \<Rightarrow> nbuf list list \<Rightarrow> nbuf list list" where
  "ind_put sq m bss = bss[unat sq mod length bss := bss ! (unat sq mod length bss) @ m]"

text \<open>What the steps leave alone.\<close>

definition ind_same :: "tidk \<Rightarrow> htt_pdev \<Rightarrow> htt_pdev \<Rightarrow> bool" where
  "ind_same k h h' \<longleftrightarrow> nb_desc (ht_rx h') = nb_desc (ht_rx h) \<and> waitlist (ht_rx h') = waitlist (ht_rx h) \<and>
     win_sz_mask (tids_rx_reorder (ht_rx h') k) = win_sz_mask (tids_rx_reorder (ht_rx h) k) \<and>
     fill_level (ht_ring h') = fill_level (ht_ring h) \<and> refill_ref_cnt (ht_ring h') = refill_ref_cnt (ht_ring h) \<and>
     rx_mpdu_range_offset_words h' = rx_mpdu_range_offset_words h"

lemma ind_same_trans: "ind_same k h h1 \<Longrightarrow> ind_same k h1 h2 \<Longrightarrow> ind_same k h h2"
  by (simp add: ind_same_def)

lemma ind_same_refl [simp]: "ind_same k h h"
  by (simp add: ind_same_def)

lemma free_taken:
  assumes "lseg (nb_next s) (Some (hd m)) m None" and "distinct m" "m \<noteq> []"
  shows "free_mpdu (hd m) (Some (last m)) s = Some (s\<lparr>nb_freed := nb_freed s @ m\<rparr>)"
  using free_mpdu_rep assms by blast

text \<open>The parts of the receive state the sequence check leaves alone.\<close>

definition rx_same :: "rx_state \<Rightarrow> rx_state \<Rightarrow> bool" where
  "rx_same s s' \<longleftrightarrow> nb_next s' = nb_next s \<and> nb_desc s' = nb_desc s \<and> nb_freed s' = nb_freed s \<and>
     tids_rx_reorder s' = tids_rx_reorder s \<and> waitlist s' = waitlist s \<and> peers s' = peers s"

lemma seq_check_frame:
  assumes "OL_RX_SEQ_NUM_CHECK dup k d s = (st, s')"
  shows "rx_same s s'" and "\<not> dup \<or> win_sz_mask (tids_rx_reorder s k) \<noteq> 0 \<Longrightarrow> st = htt_rx_status_ok"
  using assms by (auto simp: OL_RX_SEQ_NUM_CHECK_def ol_rx_seq_num_check_def Let_def rx_same_def split: if_splits)

lemma rx_same_ring: "rx_same s s' \<Longrightarrow> ring_rep s k bss \<Longrightarrow> ring_rep s' k bss"
  unfolding rx_same_def by (rule ring_rep_cong) auto

lemma ring_rep_peers [simp]: "ring_rep (s\<lparr>peers := P\<rparr>) k bss = ring_rep s k bss"
  by (simp add: ring_rep_def)

lemma mset_ind_put:
  assumes "bss \<noteq> []"
  shows "mset (concat (ind_put sq m bss)) = mset (concat bss) + mset m"
proof -
  let ?i = "unat sq mod length bss"
  have i: "?i < length bss" using assms by simp
  have "concat (ind_put sq m bss) = concat (take ?i bss) @ (bss ! ?i @ m) @ concat (drop (Suc ?i) bss)"
    using i by (simp add: ind_put_def upd_conv_take_nth_drop)
  moreover have "concat bss = concat (take ?i bss) @ bss ! ?i @ concat (drop (Suc ?i) bss)"
    using arg_cong [OF id_take_nth_drop [OF i], of concat] by simp
  ultimately show ?thesis by simp
qed

lemma distinct_ind_put:
  assumes "distinct (concat bss @ xs)" and "xs = m @ r" and "bss \<noteq> []"
  shows "distinct (concat (ind_put sq m bss) @ r)"
proof -
  have "mset (concat (ind_put sq m bss) @ r) = mset (concat bss @ xs)"
    using mset_ind_put [OF assms(3)] assms(2) by simp
  then show ?thesis using assms(1) mset_eq_imp_distinct_iff by metis
qed

lemma ring_rep_taken:
  assumes "ring_rep s k bss" and "set (concat bss) \<inter> set m = {}" and "\<And>c. c \<notin> set m \<Longrightarrow> nx c = nb_next s c"
  shows "ring_rep (s\<lparr>nb_next := nx\<rparr>) k bss"
  by (rule ring_rep_cong [OF assms(1)]) (use assms(2,3) in auto)

text \<open>An MPDU of a valid range is stored as a block, or freed as a block when it is chained or a duplicate.\<close>

lemma valid_mpdu_rep:
  assumes inv: "ind_inv k xs bss h" and take: "amsdu_take (ie_hw env) xs = Some (m, ch, r)"
  defines "sq \<equiv> d_seq_num (nb_desc (ht_rx h) (hd m))"
  shows "\<exists>h' kept. ind_valid_mpdu env k rel h = Some (rel \<and> (kept \<or> ch), h') \<and>
    ind_inv k r (if kept then ind_put sq m bss else bss) h' \<and> ind_same k h h' \<and>
    nb_freed (ht_rx h') = nb_freed (ht_rx h) @ (if kept then [] else m) \<and> (kept \<longrightarrow> \<not> ch) \<and>
    (\<not> ie_dup_check env \<or> win_sz_mask (tids_rx_reorder (ht_rx h) k) \<noteq> 0 \<longrightarrow> kept = (\<not> ch))"
proof -
  have rr: "rx_ring_rep (ht_ring h) xs" and sd: "sw_rd_desc (ht_ring h) = sw_rd_payld (ht_ring h)"
    and ring: "ring_rep (ht_rx h) k bss" and dist: "distinct (concat bss @ xs)" and hist: "history_ok (peers (ht_rx h) (fst k))"
    using inv by (auto simp: ind_inv_def)
  have xs: "xs = m @ r" "m \<noteq> []" using amsdu_take_append [OF take] by auto
  have disj: "set (concat bss) \<inter> set m = {}" "distinct m" "distinct xs" "distinct (concat bss @ m)"
    "distinct (concat bss @ r)" using dist xs by auto
  have bne: "bss \<noteq> []" using ring_index(2) [OF ring] by auto
  obtain h1 h2 nx r2 where pop: "htt_rx_amsdu_pop_ll (ie_hw env) h = Some (ch, hd m, last m, h1)"
    "htt_rx_mpdu_desc_list_next_ll h1 = Some (hd m, h2)" and h2: "h2 = (ht_upd_rx (\<lambda>s. s\<lparr>nb_next := nx\<rparr>) h)\<lparr>ht_ring := r2\<rparr>"
    and r2: "rx_ring_rep r2 r" "sw_rd_desc r2 = sw_rd_payld r2" "fill_level r2 = fill_level (ht_ring h)"
      "refill_ref_cnt r2 = refill_ref_cnt (ht_ring h)"
    and nx: "\<And>c. c \<notin> set m \<Longrightarrow> nx c = nb_next (ht_rx h) c" and seg: "lseg nx (Some (hd m)) m None"
    using take_mpdu [OF take rr disj(3) sd] by blast
  let ?s = "(ht_rx h)\<lparr>nb_next := nx\<rparr>"
  have s: "ht_rx h2 = ?s" by (simp add: h2 ht_upd_rx_def)
  have ring2: "ring_rep ?s k bss" by (rule ring_rep_taken [OF ring disj(1) nx])
  have freed: "free_mpdu (hd m) (Some (last m)) t = Some (t\<lparr>nb_freed := nb_freed t @ m\<rparr>)" if "nb_next t = nx" for t
    using free_taken [of t m] seg that disj(2) xs(2) by simp
  have upd: "ht_upd_rx (\<lambda>_. t) h2 = (ht_upd_rx (\<lambda>_. t) h)\<lparr>ht_ring := r2\<rparr>" for t by (simp add: h2 ht_upd_rx_def)
  have fields: "ht_rx ((ht_upd_rx (\<lambda>_. t) h)\<lparr>ht_ring := r2\<rparr>) = t" "ht_ring ((ht_upd_rx (\<lambda>_. t) h)\<lparr>ht_ring := r2\<rparr>) = r2"
    "rx_mpdu_range_offset_words ((ht_upd_rx (\<lambda>_. t) h)\<lparr>ht_ring := r2\<rparr>) = rx_mpdu_range_offset_words h" for t
    by (simp_all add: ht_upd_rx_def)
  obtain st s1 where chk: "OL_RX_SEQ_NUM_CHECK (ie_dup_check env) k (nb_desc ?s (hd m)) ?s = (st, s1)" by fastforce
  note same = seq_check_frame(1) [OF chk]
  note s1 = same [unfolded rx_same_def, simplified]
  have ok: "st = htt_rx_status_ok" if "\<not> ie_dup_check env \<or> win_sz_mask (tids_rx_reorder (ht_rx h) k) \<noteq> 0"
    using seq_check_frame(2) [OF chk] that by simp
  have ring1: "ring_rep s1 k bss" by (rule rx_same_ring [OF same ring2])
  have drop: "ind_inv k r bss ((ht_upd_rx (\<lambda>_. t\<lparr>nb_freed := f\<rparr>) h)\<lparr>ht_ring := r2\<rparr>)"
    if "ring_rep t k bss" "peers t = peers (ht_rx h)" for t f
    using that r2(1,2) disj(5) hist by (simp add: ind_inv_def fields)
  show ?thesis
  proof (cases "ch \<or> st = htt_rx_status_err_replay")
    case True
    let ?t = "if ch then ?s else s1"
    let ?h' = "(ht_upd_rx (\<lambda>_. ?t\<lparr>nb_freed := nb_freed ?t @ m\<rparr>) h)\<lparr>ht_ring := r2\<rparr>"
    have "ind_valid_mpdu env k rel h = Some (rel \<and> ch, ?h')"
      using True pop s s1(1) chk freed [of ?s] freed [of s1] by (auto simp: ind_valid_mpdu_def upd Let_def)
    moreover have "ind_inv k r bss ?h'" using ring2 ring1 s1 by (intro drop) simp_all
    moreover have "ind_same k h ?h'" using r2(3,4) s1 by (simp add: ind_same_def fields)
    moreover have "nb_freed (ht_rx ?h') = nb_freed (ht_rx h) @ m" using s1 by (simp add: fields)
    ultimately show ?thesis using True ok by (intro exI [of _ ?h'] exI [of _ False]) auto
  next
    case False
    then have st: "st = htt_rx_status_ok" "\<not> ch" by (cases st; auto)+
    obtain s2 where s2: "ol_rx_reorder_store k (ucast sq) (Some (hd m)) (Some (last m)) s1 = Some s2"
      "ring_rep s2 k (bss[unat (ucast sq :: u32) mod length bss := bss ! (unat (ucast sq :: u32) mod length bss) @ m])"
      "ring_change k (set (concat bss)) s1 s2"
      using store_rep [OF ring1 _ xs(2) disj(4), of None "ucast sq"] seg s1(1) by auto
    have put: "ring_rep s2 k (ind_put sq m bss)" using s2(2) by (simp add: ind_put_def)
    have f2: "nb_desc s2 = nb_desc (ht_rx h)" "nb_freed s2 = nb_freed (ht_rx h)" "peers s2 = peers (ht_rx h)"
      "waitlist s2 = waitlist (ht_rx h)" "win_sz_mask (tids_rx_reorder s2 k) = win_sz_mask (tids_rx_reorder (ht_rx h) k)"
      using s2(3) s1 by (auto simp: ring_change_def)
    obtain P where P: "ol_rx_reorder_update_history (fst k) 0 (snd k) 0 0 (ucast sq) s2 = Some (s2\<lparr>peers := P\<rparr>)"
      "history_ok (P (fst k))" using update_history_rep [of s2 "fst k"] hist f2(3) by fastforce
    define s3 where "s3 = (if win_sz_mask (tids_rx_reorder s2 k) = 0
      then s2\<lparr>peers := P, tids_last_seq := (tids_last_seq s2)(k := sq)\<rparr> else s2\<lparr>peers := P\<rparr>)"
    let ?h' = "(ht_upd_rx (\<lambda>_. s3) h)\<lparr>ht_ring := r2\<rparr>"
    have "ind_valid_mpdu env k rel h = Some (rel, ?h')"
      using pop s chk st s2(1) P(1) by (auto simp: ind_valid_mpdu_def upd Let_def s3_def sq_def)
    moreover have "ind_inv k r (ind_put sq m bss) ?h'"
      using put r2(1,2) P(2) distinct_ind_put [OF dist xs(1) bne] by (simp add: ind_inv_def fields s3_def)
    moreover have "ind_same k h ?h'" using r2(3,4) f2 by (simp add: ind_same_def fields s3_def)
    moreover have "nb_freed (ht_rx ?h') = nb_freed (ht_rx h)" using f2 by (simp add: fields s3_def)
    ultimately show ?thesis using st by (intro exI [of _ ?h'] exI [of _ True]) simp
  qed
qed

section \<open>Ranges\<close>

text \<open>The first \<open>n\<close> MPDUs on the ring of receive buffers, with whether each is chained.\<close>

primrec mpdu_split :: "(nbuf \<Rightarrow> hw_msdu) \<Rightarrow> nat \<Rightarrow> nbuf list \<Rightarrow> ((nbuf list \<times> bool) list \<times> nbuf list) option" where
  "mpdu_split hw 0 xs = Some ([], xs)"
| "mpdu_split hw (Suc n) xs =
     Option.bind (amsdu_take hw xs) (\<lambda>(m, ch, r). map_option (\<lambda>(ms, r'). ((m, ch) # ms, r')) (mpdu_split hw n r))"

lemma mpdu_split_length: "mpdu_split hw n xs = Some (ms, r) \<Longrightarrow> length ms = n \<and> xs = concat (map fst ms) @ r"
  by (induction n arbitrary: xs ms) (auto split: Option.bind_splits dest!: amsdu_take_append)

lemma mpdu_split_add:
  "mpdu_split hw (a + b) xs = Some (ms, r) \<Longrightarrow>
   \<exists>r1. mpdu_split hw a xs = Some (take a ms, r1) \<and> mpdu_split hw b r1 = Some (drop a ms, r)"
  by (induction a arbitrary: xs ms) (fastforce split: Option.bind_splits)+

text \<open>
  What becomes of the MPDUs: a kept one is put into the slot of its sequence number, the others are freed.
\<close>

fun ind_stored :: "(nbuf \<Rightarrow> rx_desc) \<Rightarrow> (nbuf list \<times> bool) list \<Rightarrow> nbuf list list \<Rightarrow> nbuf list list" where
  "ind_stored ds [] bss = bss"
| "ind_stored ds ((m, kept) # ms) bss = ind_stored ds ms (if kept then ind_put (d_seq_num (ds (hd m))) m bss else bss)"

definition ind_dropped :: "(nbuf list \<times> bool) list \<Rightarrow> nbuf list" where
  "ind_dropped ms = concat (map (\<lambda>(m, kept). if kept then [] else m) ms)"

lemma ind_stored_append: "ind_stored ds (ms @ ns) bss = ind_stored ds ns (ind_stored ds ms bss)"
  by (induction ds ms bss rule: ind_stored.induct) auto

lemma ind_dropped_simps [simp]:
  "ind_dropped [] = []" "ind_dropped ((m, kept) # ms) = (if kept then [] else m) @ ind_dropped ms"
  "ind_dropped (ms @ ns) = ind_dropped ms @ ind_dropped ns"
  by (simp_all add: ind_dropped_def)

text \<open>The outcome of processing some MPDUs: \<open>ks\<close> says which were kept.\<close>

definition ind_outcome :: "tidk \<Rightarrow> htt_pdev \<Rightarrow> nbuf list list \<Rightarrow> (nbuf list \<times> bool) list \<Rightarrow> bool list \<Rightarrow> nbuf list \<Rightarrow> htt_pdev \<Rightarrow> bool" where
  "ind_outcome k h bss ms ks r h' \<longleftrightarrow> length ks = length ms \<and>
     ind_inv k r (ind_stored (nb_desc (ht_rx h)) (zip (map fst ms) ks) bss) h' \<and> ind_same k h h' \<and>
     nb_freed (ht_rx h') = nb_freed (ht_rx h) @ ind_dropped (zip (map fst ms) ks)"

lemma ind_outcome_append:
  assumes "ind_outcome k h bss ms ks r h1"
    and "ind_outcome k h1 (ind_stored (nb_desc (ht_rx h)) (zip (map fst ms) ks) bss) ms' ks' r' h2"
  shows "ind_outcome k h bss (ms @ ms') (ks @ ks') r' h2"
  using assms by (auto simp: ind_outcome_def ind_stored_append zip_append ind_same_def)

lemma ind_outcome_one:
  assumes "ind_inv k r (if kept then ind_put (d_seq_num (nb_desc (ht_rx h) (hd m))) m bss else bss) h'" and "ind_same k h h'"
    and "nb_freed (ht_rx h') = nb_freed (ht_rx h) @ (if kept then [] else m)"
  shows "ind_outcome k h bss [(m, ch)] [kept] r h'"
  using assms by (simp add: ind_outcome_def)

lemma ind_outcome_nil: "ind_inv k xs bss h \<Longrightarrow> ind_outcome k h bss [] [] xs h"
  by (simp add: ind_outcome_def)

lemma valid_mpdus_rep:
  assumes "ind_inv k xs bss h" and "mpdu_split (ie_hw env) n xs = Some (ms, r)"
  shows "\<exists>rel' h' ks. ind_valid_mpdus env k n rel h = Some (rel', h') \<and> ind_outcome k h bss ms ks r h' \<and>
    (\<forall>i < n. ks ! i \<longrightarrow> \<not> snd (ms ! i)) \<and> (rel' \<longrightarrow> rel) \<and>
    (\<not> ie_dup_check env \<or> win_sz_mask (tids_rx_reorder (ht_rx h) k) \<noteq> 0 \<longrightarrow> rel' = rel \<and> ks = map (\<lambda>m. \<not> snd m) ms)"
  using assms
proof (induction n arbitrary: xs bss h ms rel)
  case 0
  then show ?case by (auto intro: ind_outcome_nil)
next
  case (Suc n)
  then obtain m ch r1 ms' where t: "amsdu_take (ie_hw env) xs = Some (m, ch, r1)"
    and sp: "mpdu_split (ie_hw env) n r1 = Some (ms', r)" and ms: "ms = (m, ch) # ms'"
    by (auto split: Option.bind_splits)
  obtain h1 kept where h1: "ind_valid_mpdu env k rel h = Some (rel \<and> (kept \<or> ch), h1)"
    "ind_inv k r1 (if kept then ind_put (d_seq_num (nb_desc (ht_rx h) (hd m))) m bss else bss) h1" "ind_same k h h1"
    "nb_freed (ht_rx h1) = nb_freed (ht_rx h) @ (if kept then [] else m)" "kept \<longrightarrow> \<not> ch"
    "\<not> ie_dup_check env \<or> win_sz_mask (tids_rx_reorder (ht_rx h) k) \<noteq> 0 \<longrightarrow> kept = (\<not> ch)"
    using valid_mpdu_rep [OF Suc.prems(1) t, of rel] by blast
  obtain rel' h' ks where h': "ind_valid_mpdus env k n (rel \<and> (kept \<or> ch)) h1 = Some (rel', h')"
    "ind_outcome k h1 (if kept then ind_put (d_seq_num (nb_desc (ht_rx h) (hd m))) m bss else bss) ms' ks r h'"
    "\<forall>i < n. ks ! i \<longrightarrow> \<not> snd (ms' ! i)" "rel' \<longrightarrow> rel \<and> (kept \<or> ch)"
    "\<not> ie_dup_check env \<or> win_sz_mask (tids_rx_reorder (ht_rx h1) k) \<noteq> 0 \<longrightarrow>
       rel' = (rel \<and> (kept \<or> ch)) \<and> ks = map (\<lambda>m. \<not> snd m) ms'"
    using Suc.IH [OF h1(2) sp, of "rel \<and> (kept \<or> ch)"] by blast
  have "ind_outcome k h bss ([(m, ch)] @ ms') ([kept] @ ks) r h'"
    by (rule ind_outcome_append [OF ind_outcome_one [OF h1(2-4)]]) (use h'(2) in simp)
  then have "ind_outcome k h bss ms (kept # ks) r h'" by (simp add: ms)
  moreover have "\<forall>i < Suc n. (kept # ks) ! i \<longrightarrow> \<not> snd (ms ! i)"
    using h1(5) h'(3) by (auto simp: ms nth_Cons split: nat.split)
  moreover have "win_sz_mask (tids_rx_reorder (ht_rx h1) k) = win_sz_mask (tids_rx_reorder (ht_rx h) k)"
    using h1(3) by (simp add: ind_same_def)
  ultimately show ?case using h1(1,6) h'(1,4,5) ms
    by (intro exI [of _ rel'] exI [of _ h'] exI [of _ "kept # ks"]) auto
qed

lemma invalid_mpdus_rep:
  assumes "ind_inv k xs bss h" and "mpdu_split (ie_hw env) n xs = Some (ms, r)"
  shows "\<exists>h'. ind_invalid_mpdus env n h = Some h' \<and> ind_outcome k h bss ms (replicate n False) r h'"
  using assms
proof (induction n arbitrary: xs h ms)
  case 0
  then show ?case by (auto intro: ind_outcome_nil)
next
  case (Suc n)
  then obtain m ch r1 ms' where t: "amsdu_take (ie_hw env) xs = Some (m, ch, r1)"
    and sp: "mpdu_split (ie_hw env) n r1 = Some (ms', r)" and ms: "ms = (m, ch) # ms'"
    by (auto split: Option.bind_splits)
  have rr: "rx_ring_rep (ht_ring h) xs" and sd: "sw_rd_desc (ht_ring h) = sw_rd_payld (ht_ring h)"
    and ring: "ring_rep (ht_rx h) k bss" and dist: "distinct (concat bss @ xs)" and hist: "history_ok (peers (ht_rx h) (fst k))"
    using Suc.prems(1) by (auto simp: ind_inv_def)
  have xs: "xs = m @ r1" "m \<noteq> []" using amsdu_take_append [OF t] by auto
  have disj: "set (concat bss) \<inter> set m = {}" "distinct m" "distinct xs" "distinct (concat bss @ r1)" using dist xs by auto
  obtain h1 h2 nx r2 where pop: "htt_rx_amsdu_pop_ll (ie_hw env) h = Some (ch, hd m, last m, h1)"
    "htt_rx_mpdu_desc_list_next_ll h1 = Some (hd m, h2)" and h2: "h2 = (ht_upd_rx (\<lambda>s. s\<lparr>nb_next := nx\<rparr>) h)\<lparr>ht_ring := r2\<rparr>"
    and r2: "rx_ring_rep r2 r1" "sw_rd_desc r2 = sw_rd_payld r2" "fill_level r2 = fill_level (ht_ring h)"
      "refill_ref_cnt r2 = refill_ref_cnt (ht_ring h)"
    and nx: "\<And>c. c \<notin> set m \<Longrightarrow> nx c = nb_next (ht_rx h) c" and seg: "lseg nx (Some (hd m)) m None"
    using take_mpdu [OF t rr disj(3) sd] by blast
  let ?s = "(ht_rx h)\<lparr>nb_next := nx, nb_freed := nb_freed (ht_rx h) @ m\<rparr>"
  let ?h3 = "ht_upd_rx (\<lambda>_. ?s) h2"
  have f: "ht_rx h2 = (ht_rx h)\<lparr>nb_next := nx\<rparr>" "ht_rx ?h3 = ?s" "ht_ring ?h3 = r2" "ht_ring h2 = r2"
    "rx_mpdu_range_offset_words ?h3 = rx_mpdu_range_offset_words h" by (simp_all add: h2 ht_upd_rx_def)
  have "free_mpdu (hd m) (Some (last m)) (ht_rx h2) = Some ?s"
    using free_taken [of "ht_rx h2" m] seg disj(2) xs(2) by (simp add: f(1))
  moreover have "ring_rep ?s k bss" using ring_rep_taken [OF ring disj(1) nx] by (simp add: ring_rep_def)
  then have inv3: "ind_inv k r1 bss ?h3" using r2(1,2) disj(4) hist by (simp add: ind_inv_def f)
  obtain h' where h': "ind_invalid_mpdus env n ?h3 = Some h'" "ind_outcome k ?h3 bss ms' (replicate n False) r h'"
    using Suc.IH [OF inv3 sp] by blast
  have same: "ind_same k h ?h3" using r2(3,4) by (simp add: ind_same_def f)
  have "ind_outcome k h bss ([(m, ch)] @ ms') ([False] @ replicate n False) r h'"
    by (rule ind_outcome_append [OF ind_outcome_one]) (use inv3 same h'(2) f in simp_all)
  then show ?case using calculation pop h'(1) by (auto simp: ms)
qed

text \<open>The ranges \<open>rs\<close> of a message: the status and the number of MPDUs of each.\<close>

definition ind_msg_ranges :: "u32 \<Rightarrow> u32 list \<Rightarrow> nat \<Rightarrow> (u32 \<times> u32) list \<Rightarrow> bool" where
  "ind_msg_ranges off msg i rs \<longleftrightarrow> (\<forall>j < length rs. map_option (\<lambda>w. (htt_field 0xff00 8 w, htt_field 0xff 0 w))
     (load_at msg (unat off + (i + j))) = Some (rs ! j))"

definition ind_total :: "(u32 \<times> u32) list \<Rightarrow> nat" where
  "ind_total rs = sum_list (map (\<lambda>r. unat (snd r)) rs)"

text \<open>For each MPDU, whether its range is valid.\<close>

definition ind_valid_flags :: "(u32 \<times> u32) list \<Rightarrow> bool list" where
  "ind_valid_flags rs = concat (map (\<lambda>r. replicate (unat (snd r)) (fst r = HTT_RX_IND_MPDU_STATUS_OK)) rs)"

lemma ind_valid_flags_simps [simp]:
  "ind_valid_flags [] = []" "ind_valid_flags (r # rs) =
     replicate (unat (snd r)) (fst r = HTT_RX_IND_MPDU_STATUS_OK) @ ind_valid_flags rs"
  by (simp_all add: ind_valid_flags_def)

lemma ind_valid_flags_length: "length (ind_valid_flags rs) = ind_total rs"
  by (induction rs) (auto simp: ind_total_def)

text \<open>An MPDU is kept only when its range is valid and it is not chained; without the duplicate check exactly then.\<close>

definition ind_kept_ok :: "bool \<Rightarrow> bool list \<Rightarrow> (nbuf list \<times> bool) list \<Rightarrow> bool list \<Rightarrow> bool" where
  "ind_kept_ok exact vs ms ks \<longleftrightarrow> length vs = length ms \<and> length ks = length ms \<and>
     (\<forall>i < length ms. if exact then ks ! i \<longleftrightarrow> vs ! i \<and> \<not> snd (ms ! i) else ks ! i \<longrightarrow> vs ! i \<and> \<not> snd (ms ! i))"

lemma ind_kept_ok_append:
  "ind_kept_ok e vs ms ks \<Longrightarrow> ind_kept_ok e vs' ms' ks' \<Longrightarrow> ind_kept_ok e (vs @ vs') (ms @ ms') (ks @ ks')"
  by (auto simp: ind_kept_ok_def nth_append split: if_splits)

lemma ranges_rep:
  assumes "ind_inv (p, tid) xs bss h" and "ind_msg_ranges (rx_mpdu_range_offset_words h) msg i rs"
    and "mpdu_split (ie_hw env) (ind_total rs) xs = Some (ms, r)"
  defines "exact \<equiv> (\<not> ie_dup_check env \<or> win_sz_mask (tids_rx_reorder (ht_rx h) (p, tid)) \<noteq> 0)"
  shows "\<exists>rel' h' ks. ind_ranges env (Some p) tid msg (length rs) i rel h = Some (rel', h') \<and>
    ind_outcome (p, tid) h bss ms ks r h' \<and> ind_kept_ok exact (ind_valid_flags rs) ms ks \<and> (exact \<longrightarrow> rel' = rel) \<and> (rel' \<longrightarrow> rel)"
  using assms(1-3) unfolding exact_def
proof (induction rs arbitrary: xs bss h ms rel i)
  case Nil
  then show ?case by (auto simp: ind_total_def ind_kept_ok_def intro: ind_outcome_nil)
next
  case (Cons a rs)
  obtain st cnt where a: "a = (st, cnt)" by fastforce
  let ?k = "(p, tid)" and ?n = "unat cnt"
  let ?ex = "\<lambda>h. \<not> ie_dup_check env \<or> win_sz_mask (tids_rx_reorder (ht_rx h) ?k) \<noteq> 0"
  obtain r1 where sp: "mpdu_split (ie_hw env) ?n xs = Some (take ?n ms, r1)"
    "mpdu_split (ie_hw env) (ind_total rs) r1 = Some (drop ?n ms, r)"
    using mpdu_split_add [of "ie_hw env" ?n "ind_total rs" xs ms r] Cons.prems(3) by (auto simp: a ind_total_def)
  have len: "length (take ?n ms) = ?n" using mpdu_split_length [OF sp(1)] by simp
  have info: "htt_rx_ind_mpdu_range_info h msg i = Some (st, cnt)"
    using Cons.prems(2) by (force simp: ind_msg_ranges_def htt_rx_ind_mpdu_range_info_def a)
  have step: "\<exists>rel1 h1 ks. (if st = HTT_RX_IND_MPDU_STATUS_OK then ind_valid_mpdus env ?k ?n rel h
      else map_option (\<lambda>h'. (rel, h')) (ind_invalid_mpdus env ?n h)) = Some (rel1, h1) \<and>
    ind_outcome ?k h bss (take ?n ms) ks r1 h1 \<and>
    ind_kept_ok (?ex h) (replicate ?n (st = HTT_RX_IND_MPDU_STATUS_OK)) (take ?n ms) ks \<and> (?ex h \<longrightarrow> rel1 = rel) \<and> (rel1 \<longrightarrow> rel)"
  proof (cases "st = HTT_RX_IND_MPDU_STATUS_OK")
    case True
    obtain rel1 h1 ks where v: "ind_valid_mpdus env ?k ?n rel h = Some (rel1, h1)" "ind_outcome ?k h bss (take ?n ms) ks r1 h1"
      "\<forall>i < ?n. ks ! i \<longrightarrow> \<not> snd (take ?n ms ! i)" "rel1 \<longrightarrow> rel" "?ex h \<longrightarrow> rel1 = rel \<and> ks = map (\<lambda>m. \<not> snd m) (take ?n ms)"
      using valid_mpdus_rep [OF Cons.prems(1) sp(1), of rel] by blast
    have "length ks = ?n" using v(2) len by (simp add: ind_outcome_def)
    then have "ind_kept_ok (?ex h) (replicate ?n True) (take ?n ms) ks"
      using v(3,5) len by (auto simp: ind_kept_ok_def)
    with v(1,2,4,5) True show ?thesis by (intro exI [of _ rel1] exI [of _ h1] exI [of _ ks]) simp
  next
    case False
    obtain h1 where v: "ind_invalid_mpdus env ?n h = Some h1" "ind_outcome ?k h bss (take ?n ms) (replicate ?n False) r1 h1"
      using invalid_mpdus_rep [OF Cons.prems(1) sp(1)] by blast
    have "ind_kept_ok (?ex h) (replicate ?n False) (take ?n ms) (replicate ?n False)"
      using len by (auto simp: ind_kept_ok_def)
    with v False show ?thesis by (intro exI [of _ rel] exI [of _ h1] exI [of _ "replicate ?n False"]) simp
  qed
  then obtain rel1 h1 ks where h1: "(if st = HTT_RX_IND_MPDU_STATUS_OK then ind_valid_mpdus env ?k ?n rel h
      else map_option (\<lambda>h'. (rel, h')) (ind_invalid_mpdus env ?n h)) = Some (rel1, h1)"
    "ind_outcome ?k h bss (take ?n ms) ks r1 h1"
    "ind_kept_ok (?ex h) (replicate ?n (st = HTT_RX_IND_MPDU_STATUS_OK)) (take ?n ms) ks" "?ex h \<longrightarrow> rel1 = rel" "rel1 \<longrightarrow> rel" by blast
  let ?bss = "ind_stored (nb_desc (ht_rx h)) (zip (map fst (take ?n ms)) ks) bss"
  have inv1: "ind_inv ?k r1 ?bss h1" and same: "ind_same ?k h h1" using h1(2) by (auto simp: ind_outcome_def)
  have rng: "ind_msg_ranges (rx_mpdu_range_offset_words h1) msg (Suc i) rs"
    using Cons.prems(2) same by (fastforce simp: ind_msg_ranges_def ind_same_def)
  have ex: "?ex h1 = ?ex h" using same by (simp add: ind_same_def)
  obtain rel' h' ks' where h': "ind_ranges env (Some p) tid msg (length rs) (Suc i) rel1 h1 = Some (rel', h')"
    "ind_outcome ?k h1 ?bss (drop ?n ms) ks' r h'" "ind_kept_ok (?ex h) (ind_valid_flags rs) (drop ?n ms) ks'"
    "?ex h \<longrightarrow> rel' = rel1" "rel' \<longrightarrow> rel1"
    using Cons.IH [OF inv1 rng sp(2), of rel1] unfolding ex by blast
  have "ind_outcome ?k h bss ms (ks @ ks') r h'"
    using ind_outcome_append [OF h1(2) h'(2)] by simp
  moreover have "ind_kept_ok (?ex h) (ind_valid_flags (a # rs)) ms (ks @ ks')"
    using ind_kept_ok_append [OF h1(3) h'(3)] by (simp add: a)
  ultimately show ?case using info h1(1,4,5) h'(1,4,5)
    by (intro exI [of _ rel'] exI [of _ h'] exI [of _ "ks @ ks'"]) simp
qed

section \<open>The handler\<close>

lemma mset_ind_stored:
  "length ks = length mm \<Longrightarrow> bss \<noteq> [] \<Longrightarrow>
   mset (concat (ind_stored ds (zip mm ks) bss)) + mset (ind_dropped (zip mm ks)) = mset (concat bss) + mset (concat mm)"
proof (induction ks mm arbitrary: bss rule: list_induct2)
  case Nil
  then show ?case by simp
next
  case (Cons k ks m mm)
  show ?case
  proof (cases k)
    case True
    have "ind_put (d_seq_num (ds (hd m))) m bss \<noteq> []" using Cons.prems by (simp add: ind_put_def)
    from Cons.IH [OF this] show ?thesis using True Cons.prems by (simp add: mset_ind_put)
  next
    case False
    then show ?thesis using Cons.IH [OF Cons.prems] by (simp add: add.commute add.left_commute)
  qed
qed

text \<open>What the message says: no flush, the release, and the ranges.\<close>

definition ind_msg :: "u32 \<Rightarrow> u32 list \<Rightarrow> bool \<Rightarrow> u32 \<Rightarrow> u32 \<Rightarrow> (u32 \<times> u32) list \<Rightarrow> bool" where
  "ind_msg off msg rel a b rs \<longleftrightarrow> htt_rx_ind_flush msg = Some 0 \<and> ind_release_range msg = Some (rel, a, b) \<and>
     ind_msg_ranges off msg 0 rs"

text \<open>The state before the release: \<open>r\<close> is left on the ring of receive buffers, \<open>ks\<close> were kept.\<close>

definition ind_taken :: "rx_ind_env \<Rightarrow> tidk \<Rightarrow> nbuf list list \<Rightarrow> (nbuf list \<times> bool) list \<Rightarrow> bool list \<Rightarrow> nbuf list \<Rightarrow>
    htt_pdev \<Rightarrow> htt_pdev \<Rightarrow> bool" where
  "ind_taken env k bss ms ks r h h' \<longleftrightarrow>
     ring_rep (ht_rx h') k (ind_stored (nb_desc (ht_rx h)) (zip (map fst ms) ks) bss) \<and>
     rx_ring_rep (ht_ring h') (r @ filled (ring_missing h r) (ie_alloc env)) \<and> refill_ref_cnt (ht_ring h') = 1 \<and>
     sw_rd_desc (ht_ring h') = sw_rd_payld (ht_ring h') \<and>
     nb_freed (ht_rx h') = nb_freed (ht_rx h) @ ind_dropped (zip (map fst ms) ks) @ unmapped (ring_missing h r) (ie_alloc env) \<and>
     nb_desc (ht_rx h') = nb_desc (ht_rx h) \<and> waitlist (ht_rx h') = waitlist (ht_rx h) \<and>
     history_ok (peers (ht_rx h') (fst k))"

definition ind_exact :: "rx_ind_env \<Rightarrow> tidk \<Rightarrow> htt_pdev \<Rightarrow> bool" where
  "ind_exact env k h \<longleftrightarrow> \<not> ie_dup_check env \<or> win_sz_mask (tids_rx_reorder (ht_rx h) k) \<noteq> 0"

lemma ind_handler_rep:
  assumes inv: "ind_inv (p, tid) xs bss h" and find: "ol_txrx_peer_find_by_id pid (ht_rx h) = Some (Some p)"
    and msg: "ind_msg (rx_mpdu_range_offset_words h) msg rel a b rs"
    and sp: "mpdu_split (ie_hw env) (ind_total rs) xs = Some (ms, r)" and cnt: "refill_ref_cnt (ht_ring h) = 1"
  shows "\<exists>rel' h3 ks. ol_rx_indication_handler env msg pid tid (length rs) h =
      map_option (\<lambda>s. ht_upd_rx (\<lambda>_. s) h3)
        (Option.bind (ind_release env (Some p) tid rel' a b (ht_rx h3)) (ind_timeouts env)) \<and>
    ind_taken env (p, tid) bss ms ks r h h3 \<and>
    ind_kept_ok (ind_exact env (p, tid) h) (ind_valid_flags rs) ms ks \<and>
    (ind_exact env (p, tid) h \<longrightarrow> rel' = rel) \<and> (rel' \<longrightarrow> rel)"
proof -
  let ?k = "(p, tid)"
  have rng: "ind_msg_ranges (rx_mpdu_range_offset_words h) msg 0 rs" and fl: "htt_rx_ind_flush msg = Some 0"
    and rl: "ind_release_range msg = Some (rel, a, b)" using msg by (auto simp: ind_msg_def)
  obtain rel' h2 ks where h2: "ind_ranges env (Some p) tid msg (length rs) 0 rel h = Some (rel', h2)"
    "ind_outcome ?k h bss ms ks r h2" "ind_kept_ok (ind_exact env ?k h) (ind_valid_flags rs) ms ks"
    "ind_exact env ?k h \<longrightarrow> rel' = rel" "rel' \<longrightarrow> rel"
    using ranges_rep [OF inv rng sp, of rel] unfolding ind_exact_def by blast
  have inv2: "ind_inv ?k r (ind_stored (nb_desc (ht_rx h)) (zip (map fst ms) ks) bss) h2" and same: "ind_same ?k h h2"
    and freed: "nb_freed (ht_rx h2) = nb_freed (ht_rx h) @ ind_dropped (zip (map fst ms) ks)"
    using h2(2) by (auto simp: ind_outcome_def)
  have rr: "rx_ring_rep (ht_ring h2) r" and cnt2: "refill_ref_cnt (ht_ring h2) = 1"
    and fill: "ring_missing h2 r = ring_missing h r"
    using inv2 same cnt by (auto simp: ind_inv_def ind_same_def ring_missing_def)
  obtain h3 q where h3: "htt_rx_msdu_buff_replenish (ie_alloc env) h2 = Some h3"
    "h3 = (ht_upd_rx (\<lambda>s. s\<lparr>nb_freed := nb_freed s @ unmapped (ring_missing h r) (ie_alloc env)\<rparr>) h2)\<lparr>ht_ring := q\<rparr>"
    "rx_ring_rep q (r @ filled (ring_missing h r) (ie_alloc env))" "refill_ref_cnt q = 1"
    "sw_rd_desc q = sw_rd_desc (ht_ring h2)" "sw_rd_payld q = sw_rd_payld (ht_ring h2)"
    using replenish_rep [OF rr cnt2, of "ie_alloc env"] unfolding fill by blast
  have f3: "ht_rx h3 = (ht_rx h2)\<lparr>nb_freed := nb_freed (ht_rx h2) @ unmapped (ring_missing h r) (ie_alloc env)\<rparr>"
    "ht_ring h3 = q" by (simp_all add: h3(2) ht_upd_rx_def)
  have "ind_taken env ?k bss ms ks r h h3"
    using inv2 same freed h3(3-6) by (simp add: ind_taken_def f3 ind_inv_def ind_same_def)
  moreover have "ol_rx_indication_handler env msg pid tid (length rs) h =
      map_option (\<lambda>s. ht_upd_rx (\<lambda>_. s) h3)
        (Option.bind (ind_release env (Some p) tid rel' a b (ht_rx h3)) (ind_timeouts env))"
    using find fl rl h2(1) h3(1) by (simp add: ol_rx_indication_handler_def ind_flush_def Let_def)
  ultimately show ?thesis using h2(3-5) by blast
qed

lemma ht_upd_rx_same [simp]: "ht_upd_rx (\<lambda>_. ht_rx h) h = h"
  by (simp add: ht_upd_rx_def)

section \<open>An example\<close>

text \<open>
  Four buffers on the ring: two MPDUs of one buffer, one of two chained buffers; the message has a valid
  range of two MPDUs and an invalid one of one.
\<close>

definition ind_ex :: htt_pdev where
  "ind_ex = \<lparr>ht_txrx = pdev_quiet\<lparr>rx := rx_ex_ring\<rparr>,
     ht_ring = \<lparr>netbufs_ring = [30, 31, 32, 33, 0, 0, 0, 0], ring_size = 8, size_mask = 7, alloc_idx = 4,
       sw_rd_payld = 0, sw_rd_desc = 0, fill_cnt = 4, fill_level = 4, refill_ref_cnt = 1, refill_retry = False\<rparr>,
     ctrl_max_peer_id = 0, rx_mpdu_range_offset_words = 2, htc_err_cnt = 0, tgt_ver = (0, 0), freed_msgs = []\<rparr>"

definition ind_ex_env :: "rx_proc \<Rightarrow> rx_ind_env" where
  "ind_ex_env opt = \<lparr>ie_opt = opt, ie_hw = (\<lambda>b. \<lparr>hm_done = True, hm_more = (if b = 31 then 1 else 0), hm_last = True\<rparr>),
     ie_alloc = [Filled 40, Filled 41, Map_failed 42], ie_dup_check = True, ie_defrag_check = False, ie_now = 0\<rparr>"

lemma ind_ex_rep: "ind_inv (0, 0) [30, 31, 32, 33] [[], [10, 11], [], [12]] ind_ex"
proof -
  have at: "[30, 31, 32, 33, 0, 0, 0, 0 :: nat] ! (j mod 8) = [30, 31, 32, 33] ! j" if "j < 4" for j
  proof -
    have "j = 0 \<or> j = 1 \<or> j = 2 \<or> j = 3" using that by linarith
    then show ?thesis by (elim disjE) simp_all
  qed
  then have "ring_holds 8 0 [30, 31, 32, 33, 0, 0, 0, 0] 0 [30, 31, 32, 33 :: nat]"
    by (simp add: ring_holds_def)
  then have ring: "rx_ring_rep (ht_ring ind_ex) [30, 31, 32, 33]"
    unfolding rx_ring_rep_def by (intro exI [of _ 3]) (simp add: ind_ex_def)
  have hist: "history_ok (peers rx_ex_ring 0)"
    by (simp add: rx_ex_ring_def rx_quiet_def rx_peer0_def history_ok_def)
  have rx: "ht_rx ind_ex = rx_ex_ring" "sw_rd_desc (ht_ring ind_ex) = sw_rd_payld (ht_ring ind_ex)" by (simp_all add: ind_ex_def)
  show ?thesis unfolding ind_inv_def rx fst_conv using ring rx_ex_ring_rep hist by simp
qed

lemma ind_ex_find: "ol_txrx_peer_find_by_id 0 (ht_rx ind_ex) = Some (Some 0)"
  by (simp add: ind_ex_def ol_txrx_peer_find_by_id_def rx_ex_ring_def rx_quiet_def load_at_def rx_peer0_def)

lemma ind_ex_split:
  "mpdu_split (ie_hw (ind_ex_env opt)) (ind_total [(1, 2), (2, 1)]) [30, 31, 32, 33] =
     Some ([([30], False), ([31, 32], True), ([33], False)], [])"
  by (simp add: ind_ex_env_def) code_simp

lemma ind_ex_msg:
  "ind_msg (rx_mpdu_range_offset_words ind_ex) [0, 0, 0x102, 0x201] False 0 0 [(1, 2), (2, 1)]"
  "ind_msg (rx_mpdu_range_offset_words ind_ex) [0x4000, 0x1000, 0x102, 0x201] True 1 0 [(1, 2), (2, 1)]"
proof -
  have two: "(\<forall>j < length [a, b]. P j) \<longleftrightarrow> P 0 \<and> P (Suc 0)" for a b :: "u32 \<times> u32" and P
    by (auto simp: less_Suc_eq)
  show "ind_msg (rx_mpdu_range_offset_words ind_ex) [0, 0, 0x102, 0x201] False 0 0 [(1, 2), (2, 1)]"
    "ind_msg (rx_mpdu_range_offset_words ind_ex) [0x4000, 0x1000, 0x102, 0x201] True 1 0 [(1, 2), (2, 1)]"
    unfolding ind_msg_def ind_msg_ranges_def two by code_simp+
qed

lemma ind_ex_exact: "ind_exact (ind_ex_env opt) (0, 0) ind_ex"
  by (simp add: ind_exact_def ind_ex_def rx_ex_ring_def)

section \<open>Properties\<close>





end
