(* ===== verification/Htt_T2h_Props.thy ===== *)
theory Htt_T2h_Props
  imports Htt_T2h Rx_Ind_Props Rx_Defrag_Props
begin

text \<open>
  What holds of the messages of the target: each is freed exactly once, a message built from its fields
  reaches the handler of its type with these fields, and the messages that map and unmap peer ids keep the
  device in the states \<open>Peer_Reach\<close> speaks of, whatever ids they carry.
\<close>

section \<open>The list of freed messages\<close>

named_theorems msgs_kept \<open>operations that free no message\<close>

lemma msgs_upd [simp]: "freed_msgs (ht_upd_rx f h) = freed_msgs h" "freed_msgs (ht_set_next b v h) = freed_msgs h"
  by (simp_all add: ht_upd_rx_def ht_set_next_def)

lemma msgs_netbuf_pop [msgs_kept]: "htt_rx_netbuf_pop h = Some (b, h') \<Longrightarrow> freed_msgs h' = freed_msgs h"
  by (auto simp: htt_rx_netbuf_pop_def Let_def)

lemma msgs_pop_chain [msgs_kept]: "pop_chain n b h = Some (c, h') \<Longrightarrow> freed_msgs h' = freed_msgs h"
  by (induction n b h rule: pop_chain.induct) (auto split: option.splits dest: msgs_netbuf_pop)

lemma msgs_pop_msdus:
  assumes "pop_msdus hw b ch h = Some x"
  shows "freed_msgs (snd (snd x)) = freed_msgs h"
proof (rule pop_msdus.raw_induct [OF _ assms])
  fix pop :: "(nbuf \<Rightarrow> hw_msdu) \<Rightarrow> nbuf \<Rightarrow> bool \<Rightarrow> htt_pdev \<Rightarrow> (bool \<times> nbuf \<times> htt_pdev) option" and hw b ch h x
  assume IH: "\<And>hw b ch h x. pop hw b ch h = Some x \<Longrightarrow> freed_msgs (snd (snd x)) = freed_msgs h"
    and "(if \<not> hm_done (hw b) then None
      else (case pop_chain (unat (hm_more (hw b))) b h of
              None \<Rightarrow> None
            | Some (tail_msdu, h1) \<Rightarrow>
                (let chaining' = (ch \<or> hm_more (hw b) \<noteq> 0)
                 in if hm_last (hw b) then Some (chaining', tail_msdu, ht_set_next tail_msdu None h1)
                    else (case htt_rx_netbuf_pop h1 of
                            None \<Rightarrow> None
                          | Some (next_msdu, h2) \<Rightarrow>
                              pop hw next_msdu chaining' (ht_set_next tail_msdu (Some next_msdu) h2))))) = Some x"
  then show "freed_msgs (snd (snd x)) = freed_msgs h"
    by (auto simp: Let_def split: if_splits option.splits dest!: msgs_netbuf_pop msgs_pop_chain IH)
qed

lemma msgs_amsdu_pop [msgs_kept]:
  "htt_rx_amsdu_pop_ll hw h = Some (c, b, l, h') \<Longrightarrow> freed_msgs h' = freed_msgs h"
  by (auto simp: htt_rx_amsdu_pop_ll_def split: option.splits dest: msgs_netbuf_pop dest!: msgs_pop_msdus)

lemma msgs_desc_next [msgs_kept]: "htt_rx_mpdu_desc_list_next_ll h = Some (b, h') \<Longrightarrow> freed_msgs h' = freed_msgs h"
  by (auto simp: htt_rx_mpdu_desc_list_next_ll_def Let_def)

lemma msgs_fill [msgs_kept]: "fill_loop n os i h = Some (j, h') \<Longrightarrow> freed_msgs h' = freed_msgs h"
  by (induction n os i h rule: fill_loop.induct) (auto split: option.splits)

lemma msgs_replenish [msgs_kept]: "htt_rx_msdu_buff_replenish os h = Some h' \<Longrightarrow> freed_msgs h' = freed_msgs h"
  by (auto simp: htt_rx_msdu_buff_replenish_def htt_rx_ring_fill_n_def Let_def split: option.splits if_splits dest: msgs_fill)

lemma msgs_valid_mpdu [msgs_kept]: "ind_valid_mpdu env k rel h = Some (r, h') \<Longrightarrow> freed_msgs h' = freed_msgs h"
proof -
  assume run: "ind_valid_mpdu env k rel h = Some (r, h')"
  show ?thesis
  proof (cases "htt_rx_amsdu_pop_ll (ie_hw env) h")
    case None
    then show ?thesis using run by (simp add: ind_valid_mpdu_def)
  next
    case (Some x)
    obtain c b l h1 where x: "x = (c, b, l, h1)" by (cases x) auto
    note 1 = Some [unfolded x]
    show ?thesis
    proof (cases "htt_rx_mpdu_desc_list_next_ll h1")
      case None
      then show ?thesis using run 1 by (simp add: ind_valid_mpdu_def)
    next
      case (Some y)
      obtain d h2 where y: "y = (d, h2)" by (cases y)
      note 2 = Some [unfolded y]
      obtain st s1 where 3: "OL_RX_SEQ_NUM_CHECK (ie_dup_check env) k (nb_desc (ht_rx h2) d) (ht_rx h2) = (st, s1)" by fastforce
      have "freed_msgs h' = freed_msgs h2"
        using run unfolding ind_valid_mpdu_def 1 2 Let_def option.case prod.case 3
        by (cases c; cases st) (simp_all split: option.split_asm, auto)
      then show ?thesis using msgs_amsdu_pop [OF 1] msgs_desc_next [OF 2] by simp
    qed
  qed
qed

lemma msgs_valid_mpdus [msgs_kept]: "ind_valid_mpdus env k n rel h = Some (r, h') \<Longrightarrow> freed_msgs h' = freed_msgs h"
  by (induction env k n rel h rule: ind_valid_mpdus.induct) (auto split: option.splits dest!: msgs_valid_mpdu)

lemma msgs_invalid_mpdus [msgs_kept]: "ind_invalid_mpdus env n h = Some h' \<Longrightarrow> freed_msgs h' = freed_msgs h"
  by (induction env n h rule: ind_invalid_mpdus.induct)
     (auto split: option.splits prod.splits dest!: msgs_amsdu_pop msgs_desc_next)

lemma msgs_ranges [msgs_kept]: "ind_ranges env peer tid msg n i rel h = Some (r, h') \<Longrightarrow> freed_msgs h' = freed_msgs h"
  by (induction env peer tid msg n i rel h rule: ind_ranges.induct)
     (auto split: option.splits if_splits prod.splits dest!: msgs_valid_mpdus msgs_invalid_mpdus)

lemma msgs_ind_flush [msgs_kept]: "ind_flush env peer tid msg h = Some h' \<Longrightarrow> freed_msgs h' = freed_msgs h"
  by (auto simp: ind_flush_def split: option.splits if_splits prod.splits)

lemma msgs_indication [msgs_kept]: "ol_rx_indication_handler env msg pid tid n h = Some h' \<Longrightarrow> freed_msgs h' = freed_msgs h"
  by (auto simp: ol_rx_indication_handler_def Let_def split: option.splits prod.splits
      dest!: msgs_ind_flush msgs_ranges msgs_replenish)

lemma msgs_on_rx [msgs_kept]: "on_rx f h = Some h' \<Longrightarrow> freed_msgs h' = freed_msgs h"
  by (auto simp: on_rx_def)

lemma msgs_on_pdev [msgs_kept]: "on_pdev f h = Some h' \<Longrightarrow> freed_msgs h' = freed_msgs h"
  by (auto simp: on_pdev_def)

lemma msgs_frag_pop [msgs_kept]: "frag_pop hw h = Some (b, h') \<Longrightarrow> freed_msgs h' = freed_msgs h"
  by (auto simp: frag_pop_def split: option.splits prod.splits Option.bind_splits dest!: msgs_amsdu_pop msgs_desc_next)

lemma msgs_frag_ind [msgs_kept]: "t2h_frag_ind e hw os now msg pid tid h = Some h' \<Longrightarrow> freed_msgs h' = freed_msgs h"
  by (auto simp: t2h_frag_ind_def split: if_splits Option.bind_splits dest!: msgs_frag_pop msgs_replenish)

lemma msgs_set_last [msgs_kept]: "HTT_RX_FRAG_SET_LAST_MSDU w hw h = Some (hw', h') \<Longrightarrow> freed_msgs h' = freed_msgs h"
  by (auto simp: HTT_RX_FRAG_SET_LAST_MSDU_def)

text \<open>
  C12. Every message is freed exactly once, whatever its type, its length and its content, on every path by
  which its handler returns; a message the transport reports as failed is freed unread, and counted unless
  it was cancelled.
\<close>

theorem t2h_message_freed_once:
  assumes "\<And>ty m h h'. te_other env ty m h = Some h' \<Longrightarrow> freed_msgs h' = freed_msgs h"
    and "htt_t2h_msg_handler env status m h = Some h'"
  shows "freed_msgs h' = freed_msgs h @ [tm_id m] \<and> (status \<noteq> A_OK \<longrightarrow> ht_txrx h' = ht_txrx h \<and> ht_ring h' = ht_ring h)"
proof -
  have lp: "freed_msgs g' = freed_msgs g @ [tm_id m]" if "htt_t2h_lp_msg_handler env m g = Some g'" for g g'
    using that assms(1)
    by (auto simp: htt_t2h_lp_msg_handler_def adf_nbuf_free_def Let_def t2h_version_conf_def t2h_rx_flush_def
        t2h_rx_frag_ind_def t2h_rx_addba_def t2h_rx_delba_def t2h_peer_map_def t2h_peer_unmap_def t2h_sec_ind_def
        split: if_splits Option.bind_splits dest!: msgs_kept)
  show ?thesis using assms(2) assms(1)
    by (auto simp: htt_t2h_msg_handler_def adf_nbuf_free_def Let_def t2h_rx_ind_def t2h_rx_pn_ind_def
        split: if_splits Option.bind_splits dest!: msgs_kept lp)
qed

section \<open>Peer ids\<close>

lemma dup_scan_rx:
  assumes "dup_scan v a w cur s = Some r"
  shows "rx (case r of Inl t \<Rightarrow> t | Inr (_, t) \<Rightarrow> t) = rx s"
proof (rule dup_scan.raw_induct [OF _ assms])
  fix f :: "vdev \<Rightarrow> mac_addr \<Rightarrow> bool \<Rightarrow> peer option \<Rightarrow> pdev_state \<Rightarrow> (pdev_state + bool \<times> pdev_state) option"
    and v a w cur s r
  assume IH: "\<And>v a w cur s r. f v a w cur s = Some r \<Longrightarrow> rx (case r of Inl t \<Rightarrow> t | Inr (_, t) \<Rightarrow> t) = rx s"
  assume "(case cur of
        None \<Rightarrow> Some (Inr (w, s))
      | Some c \<Rightarrow>
          (if ol_txrx_peer_find_mac_addr_cmp (pi_mac_addr (pinfo s c)) a = 0
           then if pi_delete_in_progress (pinfo s c)
                then f v a True (tqe_next (peer_list s) c)
                       (upd_vdev v (\<lambda>i. i\<lparr>vd_wait_on_peer_id := pr_local_id (peers (rx s) c),
                                          vd_wait_delete_comp := False\<rparr>) s)
                else Some (Inl s)
           else f v a w (tqe_next (peer_list s) c) s)) = Some r"
  then show "rx (case r of Inl t \<Rightarrow> t | Inr (_, t) \<Rightarrow> t) = rx s"
    by (auto simp: upd_vdev_def split: option.splits if_splits dest!: IH)
qed

lemma peer_new_map:
  assumes "peer_new m h p v a s = Some t"
  shows "peer_id_map (rx t) = peer_id_map (rx s)"
proof -
  have "peer_id_map (rx (peer_new_base p v a s)) = peer_id_map (rx s)"
    by (simp add: peer_new_base_def Let_def upd_vdev_def ol_rx_peer_init_def init_tids_map peer_zero_def)
  moreover obtain s4 s6 where s4: "ol_txrx_peer_state_update (take 6 a) ol_txrx_peer_state_disc (peer_new_base p v a s) = Some s4"
    and s6: "OL_TXRX_LOCAL_PEER_ID_ALLOC p (if m \<and> self_peer s4 = None then s4\<lparr>self_peer := Some p\<rparr> else s4) = Some s6"
    and t: "peer_id_map (rx t) = peer_id_map (rx s6)"
    using assms by (auto simp: peer_new_eq split: option.splits)
  ultimately show ?thesis using alloc_map [OF s6] state_update_rx [OF s4] by simp
qed

lemma attach_map:
  "ol_txrx_peer_attach m (Pair b) (Some p) h v a s = Some (r, t) \<Longrightarrow> peer_id_map (rx t) = peer_id_map (rx s)"
  by (auto simp: ol_txrx_peer_attach_def upd_vdev_def split: option.splits sum.splits if_splits
      dest!: dup_scan_rx peer_new_map)

lemma step_map_length:
  assumes "peer_step opt m c d" and "sys_inv m c ps"
  shows "length (peer_id_map (rx (dev d))) = length (peer_id_map (rx (dev c)))"
  using assms
proof (induction rule: peer_step.induct)
  case (attach p c a in_time h v r t)
  then show ?case using attach_map [OF attach(3)] by simp
next
  case (map_id i c a t)
  then show ?case using map_inv [OF sys_invD(1) [OF map_id(5)] map_id(3) sys_invD(3) [OF map_id(5)] map_id(1,2), of opt] by auto
next
  case (unmap_id i c t)
  then show ?case using unmap_step [OF unmap_id(3,1), of opt] by auto
next
  case (detach p c t)
  then show ?case using detach_step [OF detach(3,1), of opt] by auto
next
  case (lookup a v c p t)
  then have "t = ref_inc p (dev c)"
    using find_inv [OF sys_invD(1) [OF lookup(4)] lookup(1) sys_invD(3) [OF lookup(4)], of v] by auto
  then show ?case by (simp add: ref_inc_def)
next
  case (release c p t)
  then show ?case using release_step [OF release(3,1), of opt] by auto
qed

lemma reach_map_length: "peer_reach opt m max_id s c \<Longrightarrow> length (peer_id_map (rx (dev c))) = Suc (unat max_id)"
proof (induction rule: peer_reach.induct)
  case (start c)
  then have "dev c = snd (ol_txrx_peer_find_attach True True max_id s)" by (simp add: peer_start_def)
  then show ?case
    by (simp add: ol_txrx_peer_find_attach_def ol_txrx_peer_find_map_attach_def
        ol_txrx_peer_find_hash_attach_def Let_def OL_TXRX_LOCAL_PEER_ID_POOL_INIT_def)
next
  case (step c d)
  then show ?case using reach_inv [OF step(1)] step_map_length [OF step(2)] by auto
qed

lemma msg_bytes_length [simp]: "length (msg_bytes ws) = 4 * length ws"
  by (induction ws) (simp_all add: msg_bytes_def)


section \<open>Fields\<close>

lemma htt_masks:
  "(0xff :: u32) = push_bit 0 (Bit_Operations.mask 8)" "(0xff00 :: u32) = push_bit 8 (Bit_Operations.mask 8)"
  "(0xff0000 :: u32) = push_bit 16 (Bit_Operations.mask 8)" "(0xff000000 :: u32) = push_bit 24 (Bit_Operations.mask 8)"
  "(0xffff00 :: u32) = push_bit 8 (Bit_Operations.mask 16)" "(0xffff0000 :: u32) = push_bit 16 (Bit_Operations.mask 16)"
  "(0x7f00 :: u32) = push_bit 8 (Bit_Operations.mask 7)" "(0x8000 :: u32) = push_bit 15 (Bit_Operations.mask 1)"
  "(0xf0000 :: u32) = push_bit 16 (Bit_Operations.mask 4)" "(0xfff00000 :: u32) = push_bit 20 (Bit_Operations.mask 12)"
  by code_simp+

definition flush_words :: "u16 \<Rightarrow> u8 \<Rightarrow> u8 \<Rightarrow> u8 \<Rightarrow> u8 \<Rightarrow> u32 list" where
  "flush_words pid tid status a b =
     [htt_set 24 (ucast tid) (htt_set 8 (ucast pid) (htt_set 0 2 0)),
      htt_set 24 (ucast b) (htt_set 16 (ucast a) (htt_set 8 (ucast status) 0))]"

definition addba_words :: "12 word \<Rightarrow> 4 word \<Rightarrow> u8 \<Rightarrow> u32 list" where
  "addba_words pid tid win = [htt_set 20 (ucast pid) (htt_set 16 (ucast tid) (htt_set 8 (ucast win) (htt_set 0 5 0)))]"

definition delba_words :: "12 word \<Rightarrow> 4 word \<Rightarrow> u32 list" where
  "delba_words pid tid = [htt_set 20 (ucast pid) (htt_set 16 (ucast tid) (htt_set 0 6 0))]"

definition sec_words :: "u16 \<Rightarrow> 7 word \<Rightarrow> 1 word \<Rightarrow> u32 list \<Rightarrow> u32 list" where
  "sec_words pid ty uni ws = htt_set 16 (ucast pid) (htt_set 15 (ucast uni) (htt_set 8 (ucast ty) (htt_set 0 0xb 0))) # ws"

definition pn_words :: "u16 \<Rightarrow> u8 \<Rightarrow> u8 \<Rightarrow> u8 \<Rightarrow> u8 \<Rightarrow> u32 list \<Rightarrow> u32 list" where
  "pn_words pid tid a b cnt ws =
     htt_set 24 (ucast tid) (htt_set 8 (ucast pid) (htt_set 0 0x10 0)) #
     htt_set 16 (ucast cnt) (htt_set 8 (ucast b) (htt_set 0 (ucast a) 0)) # ws"

definition le_word :: "u8 \<Rightarrow> u8 \<Rightarrow> u8 \<Rightarrow> u8 \<Rightarrow> u32" where
  "le_word a b c d = htt_set 24 (ucast d) (htt_set 16 (ucast c) (htt_set 8 (ucast b) (htt_set 0 (ucast a) 0)))"

definition map_words :: "u16 \<Rightarrow> u8 \<Rightarrow> u8 \<Rightarrow> u8 \<Rightarrow> u8 \<Rightarrow> u8 \<Rightarrow> u8 \<Rightarrow> u8 \<Rightarrow> u32 list" where
  "map_words pid vdev_id a b c d e f =
     [htt_set 16 (ucast pid) (htt_set 8 (ucast vdev_id) (htt_set 0 3 0)), le_word a b c d, le_word e f 0 0]"

lemma flush_fields:
  "HTT_T2H_MSG_TYPE_GET (flush_words p t s a b ! 0) = 2" "HTT_RX_FLUSH_PEER_ID_GET (flush_words p t s a b ! 0) = p"
  "HTT_RX_FLUSH_TID_GET (flush_words p t s a b ! 0) = t" "HTT_RX_FLUSH_MPDU_STATUS_GET (flush_words p t s a b ! 1) = ucast s"
  "HTT_RX_FLUSH_SEQ_NUM_START_GET (flush_words p t s a b ! 1) = ucast a"
  "HTT_RX_FLUSH_SEQ_NUM_END_GET (flush_words p t s a b ! 1) = ucast b"
  unfolding htt_gets htt_masks htt_field_bits flush_words_def
  by (simp_all add: htt_fields)

lemma addba_fields:
  "HTT_T2H_MSG_TYPE_GET (addba_words p t w ! 0) = 5" "HTT_RX_ADDBA_PEER_ID_GET (addba_words p t w ! 0) = ucast p"
  "HTT_RX_ADDBA_TID_GET (addba_words p t w ! 0) = ucast t" "HTT_RX_ADDBA_WIN_SIZE_GET (addba_words p t w ! 0) = w"
  "HTT_T2H_MSG_TYPE_GET (delba_words p t ! 0) = 6" "HTT_RX_ADDBA_PEER_ID_GET (delba_words p t ! 0) = ucast p"
  "HTT_RX_ADDBA_TID_GET (delba_words p t ! 0) = ucast t"
  unfolding htt_gets htt_masks htt_field_bits addba_words_def delba_words_def
  by (simp_all add: htt_fields)

lemma sec_fields:
  "HTT_T2H_MSG_TYPE_GET (sec_words p ty u ws ! 0) = 0xb" "HTT_SEC_IND_PEER_ID_GET (sec_words p ty u ws ! 0) = p"
  "HTT_SEC_IND_SEC_TYPE_GET (sec_words p ty u ws ! 0) = ucast ty" "HTT_SEC_IND_UNICAST_GET (sec_words p ty u ws ! 0) = ucast u"
proof -
  show "HTT_T2H_MSG_TYPE_GET (sec_words p ty u ws ! 0) = 0xb" "HTT_SEC_IND_PEER_ID_GET (sec_words p ty u ws ! 0) = p"
    "HTT_SEC_IND_SEC_TYPE_GET (sec_words p ty u ws ! 0) = ucast ty"
    unfolding htt_gets htt_masks htt_field_bits sec_words_def by (simp_all add: htt_fields)
  let ?w = "htt_set 15 (ucast u) (htt_set 8 (ucast ty) (htt_set 0 0xb 0))"
  have "take_bit 1 (drop_bit 15 (htt_set 16 (ucast p) ?w)) = take_bit 1 (drop_bit 15 ?w)" by (rule field_skip) simp
  also have "\<dots> = take_bit 1 (ucast u)" by (rule field_hit) (simp_all add: htt_fields)
  also have "\<dots> = ucast u" by (rule field_ucast) simp
  finally show "HTT_SEC_IND_UNICAST_GET (sec_words p ty u ws ! 0) = ucast u"
    unfolding htt_gets htt_masks htt_field_bits sec_words_def by simp
qed

lemma pn_fields:
  "HTT_T2H_MSG_TYPE_GET (pn_words p t a b c ws ! 0) = 0x10" "HTT_RX_PN_IND_PEER_ID_GET (pn_words p t a b c ws ! 0) = p"
  "HTT_RX_PN_IND_EXT_TID_GET (pn_words p t a b c ws ! 0) = t"
  "HTT_RX_PN_IND_SEQ_NUM_START_GET (pn_words p t a b c ws ! 1) = ucast a"
  "HTT_RX_PN_IND_SEQ_NUM_END_GET (pn_words p t a b c ws ! 1) = ucast b"
  "HTT_RX_PN_IND_PN_IE_CNT_GET (pn_words p t a b c ws ! 1) = c"
  unfolding htt_gets htt_masks htt_field_bits pn_words_def
  by (simp_all add: htt_fields)

lemma le_word_bytes: "msg_bytes [le_word a b c d] = [a, b, c, d]"
proof -
  have byte: "(ucast x :: u8) = y" if "take_bit 8 x = ucast y" for x :: u32 and y
  proof -
    have "(ucast x :: u8) = ucast (take_bit 8 x)" by (rule bit_word_eqI) (simp add: bit_simps)
    then show ?thesis by (simp add: that field_ucast_back)
  qed
  have "msg_bytes [w] = [ucast w, ucast (drop_bit 8 w), ucast (drop_bit 16 w), ucast (drop_bit 24 w)]" for w
    by (simp add: msg_bytes_def)
  moreover have "ucast (le_word a b c d) = a" "ucast (drop_bit 8 (le_word a b c d)) = b"
    "ucast (drop_bit 16 (le_word a b c d)) = c" "ucast (drop_bit 24 (le_word a b c d)) = d"
    by (rule byte; simp add: le_word_def htt_fields)+
  ultimately show ?thesis by simp
qed

lemma map_fields:
  "HTT_T2H_MSG_TYPE_GET (map_words p v a b c d e f ! 0) = 3" "HTT_RX_PEER_MAP_PEER_ID_GET (map_words p v a b c d e f ! 0) = p"
  "take 6 (msg_bytes (drop 1 (map_words p v a b c d e f))) = [a, b, c, d, e, f]"
proof -
  show "HTT_T2H_MSG_TYPE_GET (map_words p v a b c d e f ! 0) = 3" "HTT_RX_PEER_MAP_PEER_ID_GET (map_words p v a b c d e f ! 0) = p"
    unfolding htt_gets htt_masks htt_field_bits map_words_def by (simp_all add: htt_fields)
  have "msg_bytes [x, y] = msg_bytes [x] @ msg_bytes [y]" for x y by (simp add: msg_bytes_def)
  then show "take 6 (msg_bytes (drop 1 (map_words p v a b c d e f))) = [a, b, c, d, e, f]"
    by (simp add: map_words_def le_word_bytes)
qed

section \<open>Dispatch\<close>

lemma ucast_is_one: "ucast (st :: u8) = (1 :: u32) \<longleftrightarrow> st = 1"
  by (simp flip: unat_inject)

text \<open>Which case of the switches a message takes.\<close>

lemma t2h_dispatch:
  assumes "load_at (tm_words m) 0 = Some w0"
  shows "HTT_T2H_MSG_TYPE_GET w0 = 2 \<Longrightarrow> htt_t2h_msg_handler env A_OK m h = map_option (adf_nbuf_free m) (t2h_rx_flush env m w0 h)"
    and "HTT_T2H_MSG_TYPE_GET w0 = 5 \<Longrightarrow> htt_t2h_msg_handler env A_OK m h = map_option (adf_nbuf_free m) (t2h_rx_addba env w0 h)"
    and "HTT_T2H_MSG_TYPE_GET w0 = 6 \<Longrightarrow> htt_t2h_msg_handler env A_OK m h = map_option (adf_nbuf_free m) (t2h_rx_delba w0 h)"
    and "HTT_T2H_MSG_TYPE_GET w0 = 0xb \<Longrightarrow> htt_t2h_msg_handler env A_OK m h = map_option (adf_nbuf_free m) (t2h_sec_ind m w0 h)"
    and "HTT_T2H_MSG_TYPE_GET w0 = 0x10 \<Longrightarrow> htt_t2h_msg_handler env A_OK m h = map_option (adf_nbuf_free m) (t2h_rx_pn_ind env m w0 h)"
    and "HTT_T2H_MSG_TYPE_GET w0 = 3 \<Longrightarrow> htt_t2h_msg_handler env A_OK m h = map_option (adf_nbuf_free m) (t2h_peer_map env m w0 h)"
    and "HTT_T2H_MSG_TYPE_GET w0 = 1 \<Longrightarrow> htt_t2h_msg_handler env A_OK m h = map_option (adf_nbuf_free m) (t2h_rx_ind env m w0 h)"
  using assms by (simp_all add: htt_t2h_msg_handler_def htt_t2h_lp_msg_handler_def Let_def)

lemma flush_dispatch:
  "t2h_rx_flush env (m\<lparr>tm_words := flush_words p t st a b, tm_len := 8\<rparr>) (flush_words p t st a b ! 0) h =
   on_rx (ol_rx_flush_handler (\<lambda>_. ie_opt (te_ind env)) p t (ucast a) (ucast b)
     (if st = 1 then htt_rx_flush_release else htt_rx_flush_discard)) h"
proof -
  have sel: "tm_words (m\<lparr>tm_words := x, tm_len := l\<rparr>) = x" "tm_len (m\<lparr>tm_words := x, tm_len := l\<rparr>) = l" for x l by simp_all
  have one: "load_at (flush_words p t st a b) 1 = Some (flush_words p t st a b ! 1)" by (simp add: flush_words_def)
  show ?thesis unfolding t2h_rx_flush_def sel one Option.bind.simps flush_fields ucast_is_one by simp
qed

lemma pn_dispatch:
  "t2h_rx_pn_ind env (m\<lparr>tm_words := pn_words p t a b cnt ws, tm_len := 8 + ucast cnt\<rparr>) (pn_words p t a b cnt ws ! 0) h =
   on_rx (ol_rx_pn_ind_handler (\<lambda>_. ie_opt (te_ind env)) p t (ucast a) (ucast b) cnt (if cnt = 0 then [] else msg_bytes ws)) h"
proof -
  have sel: "tm_words (m\<lparr>tm_words := x, tm_len := l\<rparr>) = x" "tm_len (m\<lparr>tm_words := x, tm_len := l\<rparr>) = l" for x l by simp_all
  have "unat cnt < 256" using unsigned_less [of cnt, where ?'a = nat] by simp
  then have len: "\<not> 8 + ucast cnt < (8 :: u32)" by (simp add: word_less_nat_alt unat_word_ariths)
  have one: "load_at (pn_words p t a b cnt ws) 1 = Some (pn_words p t a b cnt ws ! 1)" "drop 2 (pn_words p t a b cnt ws) = ws"
    by (simp_all add: pn_words_def)
  show ?thesis unfolding t2h_rx_pn_ind_def sel one Option.bind.simps pn_fields Let_def using len by simp
qed

lemma sec_dispatch:
  "t2h_sec_ind (m\<lparr>tm_words := sec_words p ty uni [k0, k1, n0, n1, n2, n3], tm_len := 28\<rparr>)
     (sec_words p ty uni [k0, k1, n0, n1, n2, n3] ! 0) h =
   Option.bind (htt_sec_type_of (ucast ty)) (\<lambda>sec.
     on_rx (ol_rx_sec_ind_handler p sec (uni = 1) [k0, k1, n0, n1, n2, n3] [n0, n1, n2, n3]) h)"
proof -
  have sel: "tm_words (m\<lparr>tm_words := x, tm_len := l\<rparr>) = x" "tm_len (m\<lparr>tm_words := x, tm_len := l\<rparr>) = l" for x l by simp_all
  have "unat uni < 2" using unsigned_less [of uni, where ?'a = nat] by simp
  then have "unat uni = 0 \<or> unat uni = 1" by linarith
  then have "uni = 0 \<or> uni = 1" using unat_inject [of uni 0] unat_inject [of uni 1] by simp
  then have uni: "uni = 1 \<longleftrightarrow> uni \<noteq> 0" by auto
  have again: "ucast (ucast uni :: u32) = uni" by (simp add: field_ucast_back)
  have zero: "ucast uni = (0 :: u32) \<longleftrightarrow> uni = 0"
  proof
    assume "ucast uni = (0 :: u32)"
    then show "uni = 0" using again by simp
  qed simp
  show ?thesis unfolding t2h_sec_ind_def sel sec_fields zero uni by (simp add: sec_words_def)
qed

text \<open>
  C11. A control message whose fields are set with the macros of the interface reaches the handler of its
  type with exactly these fields, read back at their width: flushes, block-ack agreements and their ends,
  security indications, packet-number indications and peer maps; the message is freed afterwards.
\<close>

theorem t2h_fields_roundtrip:
  "htt_t2h_msg_handler env A_OK (m\<lparr>tm_words := flush_words p t st a b, tm_len := 8\<rparr>) h =
     map_option (adf_nbuf_free m) (on_rx (ol_rx_flush_handler (\<lambda>_. ie_opt (te_ind env)) p t (ucast a) (ucast b)
       (if st = 1 then htt_rx_flush_release else htt_rx_flush_discard)) h) \<and>
   htt_t2h_msg_handler env A_OK (m\<lparr>tm_words := addba_words p12 t4 win\<rparr>) h =
     map_option (adf_nbuf_free m) (on_rx (ol_rx_addba_handler (te_addba_mem env) (ucast p12) (ucast t4) win False) h) \<and>
   htt_t2h_msg_handler env A_OK (m\<lparr>tm_words := delba_words p12 t4\<rparr>) h =
     map_option (adf_nbuf_free m) (on_rx (ol_rx_delba_handler (ucast p12) (ucast t4)) h) \<and>
   htt_t2h_msg_handler env A_OK (m\<lparr>tm_words := sec_words p ty uni [k0, k1, n0, n1, n2, n3], tm_len := 28\<rparr>) h =
     map_option (adf_nbuf_free m) (Option.bind (htt_sec_type_of (ucast ty)) (\<lambda>sec.
       on_rx (ol_rx_sec_ind_handler p sec (uni = 1) [k0, k1, n0, n1, n2, n3] [n0, n1, n2, n3]) h)) \<and>
   htt_t2h_msg_handler env A_OK (m\<lparr>tm_words := pn_words p t a b cnt ws, tm_len := 8 + ucast cnt\<rparr>) h =
     map_option (adf_nbuf_free m) (on_rx (ol_rx_pn_ind_handler (\<lambda>_. ie_opt (te_ind env)) p t (ucast a) (ucast b) cnt
       (if cnt = 0 then [] else msg_bytes ws)) h) \<and>
   htt_t2h_msg_handler env A_OK (m\<lparr>tm_words := map_words p v a0 a1 a2 a3 a4 a5, tm_len := 12\<rparr>) h =
     map_option (adf_nbuf_free m) (if ctrl_max_peer_id h < p then Some h
       else on_pdev (ol_rx_peer_map_handler (ie_opt (te_ind env)) (te_monitor env) p [a0, a1, a2, a3, a4, a5]) h)"
proof -
  have free: "adf_nbuf_free (m\<lparr>tm_words := x, tm_len := l\<rparr>) = adf_nbuf_free m"
    "adf_nbuf_free (m\<lparr>tm_words := x\<rparr>) = adf_nbuf_free m" for x l by (rule ext, simp add: adf_nbuf_free_def)+
  let ?f = "m\<lparr>tm_words := flush_words p t st a b, tm_len := 8\<rparr>" and ?a = "m\<lparr>tm_words := addba_words p12 t4 win\<rparr>"
  let ?d = "m\<lparr>tm_words := delba_words p12 t4\<rparr>" and ?s = "m\<lparr>tm_words := sec_words p ty uni [k0, k1, n0, n1, n2, n3], tm_len := 28\<rparr>"
  let ?p = "m\<lparr>tm_words := pn_words p t a b cnt ws, tm_len := 8 + ucast cnt\<rparr>"
  let ?m = "m\<lparr>tm_words := map_words p v a0 a1 a2 a3 a4 a5, tm_len := 12\<rparr>"
  have at: "load_at (tm_words ?f) 0 = Some (flush_words p t st a b ! 0)" "load_at (tm_words ?a) 0 = Some (addba_words p12 t4 win ! 0)"
    "load_at (tm_words ?d) 0 = Some (delba_words p12 t4 ! 0)"
    "load_at (tm_words ?s) 0 = Some (sec_words p ty uni [k0, k1, n0, n1, n2, n3] ! 0)"
    "load_at (tm_words ?p) 0 = Some (pn_words p t a b cnt ws ! 0)"
    "load_at (tm_words ?m) 0 = Some (map_words p v a0 a1 a2 a3 a4 a5 ! 0)"
    by (simp_all add: flush_words_def addba_words_def delba_words_def sec_words_def pn_words_def map_words_def)
  have "t2h_peer_map env ?m (map_words p v a0 a1 a2 a3 a4 a5 ! 0) h = (if ctrl_max_peer_id h < p then Some h
      else on_pdev (ol_rx_peer_map_handler (ie_opt (te_ind env)) (te_monitor env) p [a0, a1, a2, a3, a4, a5]) h)"
    unfolding t2h_peer_map_def map_fields Let_def using map_fields(3) [of p v a0 a1 a2 a3 a4 a5] by (simp add: map_words_def)
  then show ?thesis
    unfolding t2h_dispatch(1) [OF at(1) flush_fields(1)] t2h_dispatch(2) [OF at(2) addba_fields(1)]
      t2h_dispatch(3) [OF at(3) addba_fields(5)] t2h_dispatch(4) [OF at(4) sec_fields(1)]
      t2h_dispatch(5) [OF at(5) pn_fields(1)] t2h_dispatch(6) [OF at(6) map_fields(1)]
      flush_dispatch sec_dispatch pn_dispatch t2h_rx_addba_def t2h_rx_delba_def addba_fields free
    by (intro conjI refl) simp
qed

section \<open>Security indications\<close>

text \<open>
  C13. A security indication for the group key of a peer also forgets the last packet numbers of its
  pairwise key: whatever number the next unicast MPDU of any TID carries, the replay check keeps it, although
  neither the pairwise cipher nor its key has changed.
\<close>

theorem sec_ind_group_forgets_pairwise_pn:
  assumes find: "ol_txrx_peer_find_by_id pid s = Some (Some p)" and sec: "sec \<noteq> htt_sec_type_wapi"
    and tid: "tid < OL_TXRX_NUM_EXT_TIDS"
    and check: "\<not> fw_pn_check (peers s p)" "pr_opmode (peers s p) \<noteq> wlan_op_mode_ibss"
    and cmp: "rx_pn_cmp (sec_type_ucast (peers s p)) = Some cmp" and ucast: "\<not> d_mcast (nb_desc s b)"
    and list: "lseg (nb_next s) (Some b) mpdu None" "mpdu_ok s mpdu"
  shows "\<exists>s1 q s'. ol_rx_sec_ind_handler pid sec False key pn s = Some s1 \<and>
    sec_type_ucast (peers s1 p) = sec_type_ucast (peers s p) \<and> michael_key_ucast (peers s1 p) = michael_key_ucast (peers s p) \<and>
    ol_rx_pn_check_base junk (p, tid) b s1 = Some (q, s') \<and> lseg (nb_next s') q mpdu None \<and> nb_freed s' = nb_freed s"
proof -
  let ?p = "(peers s p)\<lparr>sec_type_mcast := sec, michael_key_mcast := take 2 key\<rparr>"
  let ?s1 = "s\<lparr>peers := (peers s)(p := ?p),
      tids_last_pn_valid := (\<lambda>k. if k \<in> sec_tids p then False else tids_last_pn_valid s k)\<rparr>"
  have run: "ol_rx_sec_ind_handler pid sec False key pn s = Some ?s1"
    using find sec by (simp add: ol_rx_sec_ind_handler_def Let_def)
  have fst: "\<not> fw_pn_check (peers ?s1 (fst (p, tid)))" "pr_opmode (peers ?s1 (fst (p, tid))) \<noteq> wlan_op_mode_ibss"
    "sec_type_ucast (peers s p) = peer_sec_type (peers ?s1 (fst (p, tid))) (d_mcast (nb_desc ?s1 b))"
    "lseg (nb_next ?s1) (Some b) (concat [mpdu]) None" "\<And>m. m \<in> set [mpdu] \<Longrightarrow> mpdu_ok ?s1 m"
    using check ucast list by (simp_all add: peer_sec_type_def mpdu_ok_def)
  have none: "last_known ?s1 (p, tid) = None" using tid by (simp add: last_known_def sec_tids_def)
  obtain lst where "pn_check_spec junk (p, tid) (sec_type_ucast (peers s p)) cmp (\<not> d_mcast (nb_desc ?s1 b)) ?s1
      (last_known ?s1 (p, tid)) [mpdu] = ([mpdu], [], lst)"
    unfolding none by (cases "mpdu_enc ?s1 mpdu") auto
  from pn_check_refines_filter_aux [OF fst(1-3) cmp fst(4,5) this]
  obtain q s' where "ol_rx_pn_check_base junk (p, tid) b ?s1 = Some (q, s')" "lseg (nb_next s') q mpdu None" "nb_freed s' = nb_freed s"
    by auto
  then show ?thesis using run by (intro exI [of _ ?s1] exI [of _ q] exI [of _ s']) simp
qed

text \<open>Peer 0 last received the number 5, and gets a frame with that number again.\<close>

theorem sec_ind_group_forgets_pairwise_pn_witness:
  "\<exists>(s1 :: rx_state) q s'. tids_last_pn_valid (pn_ex\<lparr>tids_last_pn_valid := (\<lambda>_. True), tids_last_pn := (\<lambda>_. \<lparr>pn128_0 = 9, pn128_1 = 0\<rparr>)\<rparr>) (0, 3) \<and>
     ol_rx_pn_check_base pn_ex_junk (0, 3) 3 s1 = Some (q, s') \<and> lseg (nb_next s') q [3] None \<and> nb_freed s' = []"
proof -
  let ?s = "pn_ex\<lparr>tids_last_pn_valid := (\<lambda>_. True), tids_last_pn := (\<lambda>_. \<lparr>pn128_0 = 9, pn128_1 = 0\<rparr>)\<rparr>"
  have "ol_txrx_peer_find_by_id 0 ?s = Some (Some 0)" "htt_sec_type_tkip \<noteq> htt_sec_type_wapi" "3 < OL_TXRX_NUM_EXT_TIDS"
    "\<not> fw_pn_check (peers ?s 0)" "pr_opmode (peers ?s 0) \<noteq> wlan_op_mode_ibss"
    "rx_pn_cmp (sec_type_ucast (peers ?s 0)) = Some ol_rx_pn_cmp48" "\<not> d_mcast (nb_desc ?s 3)"
    "lseg (nb_next ?s) (Some 3) [3] None" "mpdu_ok ?s [3]" "nb_freed ?s = []"
    by (simp_all add: ol_txrx_peer_find_by_id_def pn_ex_def rx_quiet_defs load_at_def OL_TXRX_NUM_EXT_TIDS_def
        rx_pn_cmp_def mpdu_ok_def)
  from sec_ind_group_forgets_pairwise_pn [OF this(1-9), where key = "[0, 0]" and pn = "[0, 0, 0, 0]" and junk = pn_ex_junk] this(10)
  show ?thesis by auto
qed

section \<open>Receive indications\<close>

text \<open>
  A receive indication for a TID the host has no state for is freed without any other effect.  The
  number that stands for the loss of the reorder state is one of them: the flush it asks for in
  \<open>ol_rx_indication_handler\<close> is never reached from a message.
\<close>

lemma rx_ind_bad_tid_ignored:
  assumes "load_at (tm_words m) 0 = Some w0" and "HTT_T2H_MSG_TYPE_GET w0 = 1"
    and "OL_TXRX_NUM_EXT_TIDS \<le> HTT_RX_IND_EXT_TID_GET w0"
  shows "htt_t2h_msg_handler env A_OK m h = Some (adf_nbuf_free m h) \<and> OL_TXRX_NUM_EXT_TIDS \<le> HTT_INVALID_TID"
  using t2h_dispatch(7) [OF assms(1,2)] assms(3)
  by (simp_all add: t2h_rx_ind_def Let_def HTT_INVALID_TID_def OL_TXRX_NUM_EXT_TIDS_def)

theorem rx_ind_bad_tid_ignored_witness:
  "(\<forall>env. htt_t2h_msg_handler env A_OK \<lparr>tm_id = 4, tm_words = [0x3f01], tm_len = 4\<rparr> ind_ex = Some (ind_ex\<lparr>freed_msgs := [4]\<rparr>)) \<and>
   HTT_RX_IND_EXT_TID_GET 0x3f01 = HTT_INVALID_TID"
proof -
  have "load_at (tm_words \<lparr>tm_id = 4, tm_words = [0x3f01], tm_len = 4\<rparr>) 0 = Some 0x3f01" "HTT_T2H_MSG_TYPE_GET 0x3f01 = 1"
    "OL_TXRX_NUM_EXT_TIDS \<le> HTT_RX_IND_EXT_TID_GET 0x3f01"
    "HTT_RX_IND_EXT_TID_GET 0x3f01 = HTT_INVALID_TID"
    by (code_simp)+
  from rx_ind_bad_tid_ignored [OF this(1-3), where h = ind_ex] this(4) show ?thesis
    by (simp add: adf_nbuf_free_def ind_ex_def)
qed

text \<open>
  C14. The check of a receive indication against the length of the message counts the words up to the ranges
  as bytes: a message of exactly the twelve words of its header, which has no room for a range, is accepted with
  up to nine ranges, and the handler reads past its end.
\<close>

theorem rx_ind_reads_past_message:
  assumes len: "length (tm_words m) = 12" "tm_len m = 48"
    and w0: "HTT_T2H_MSG_TYPE_GET (tm_words m ! 0) = 1" "HTT_RX_IND_EXT_TID_GET (tm_words m ! 0) < OL_TXRX_NUM_EXT_TIDS"
    and desc: "HTT_RX_IND_FW_RX_DESC_BYTES_GET (tm_words m ! 11) = 0"
    and ranges: "HTT_RX_IND_NUM_MPDU_RANGES_GET (tm_words m ! 1) = of_nat (Suc n)" "n < 9"
    and noflush: "htt_rx_ind_flush (tm_words m) = Some 0"
  shows "htt_t2h_msg_handler env A_OK m h = None"
proof -
  have at: "load_at (tm_words m) 0 = Some (tm_words m ! 0)" "load_at (tm_words m) 1 = Some (tm_words m ! 1)"
    "load_at (tm_words m) 11 = Some (tm_words m ! 11)" "load_at (tm_words m) 12 = None"
    using len(1) by (simp_all add: load_at_def)
  let ?h1 = "h\<lparr>rx_mpdu_range_offset_words := 12\<rparr>"
  let ?R = "of_nat (Suc n) :: u32"
  have off: "drop_bit 2 (48 + 0 + 3) = (12 :: u32)" by code_simp
  have nR: "unat ?R = Suc n" using ranges(2) by (simp add: unsigned_of_nat take_bit_nat_eq_self del: of_nat_Suc)
  have "unat (12 + ?R * 4) = 12 + Suc n * 4" using ranges(2) nR by (simp add: unat_word_ariths del: of_nat_Suc)
  then have ok: "\<not> (48 < (12 :: u32) \<or> 12 + ?R * 4 < 12 \<or> 48 < 12 + ?R * 4)"
    using ranges(2) by (simp add: word_less_nat_alt del: of_nat_Suc)
  have "ol_rx_indication_handler (te_ind env) (tm_words m) pid tid (Suc n) ?h1 = None" for pid tid
    using noflush at(4)
    by (auto simp: ol_rx_indication_handler_def Let_def ind_flush_def htt_rx_ind_mpdu_range_info_def split: option.splits)
  then have "t2h_rx_ind env m (tm_words m ! 0) h = None"
    unfolding t2h_rx_ind_def Let_def at Option.bind.simps desc ranges off using w0(2) ok len(2) nR by simp
  then show ?thesis using t2h_dispatch(7) [OF at(1) w0(1)] by simp
qed

theorem rx_ind_reads_past_message_witness:
  "\<forall>env. htt_t2h_msg_handler env A_OK \<lparr>tm_id = 0, tm_words = 1 # 0x9000000 # replicate 10 0, tm_len = 48\<rparr> ind_ex = None"
proof
  fix env
  let ?m = "\<lparr>tm_id = 0, tm_words = 1 # 0x9000000 # replicate 10 0, tm_len = 48\<rparr>"
  have "length (tm_words ?m) = 12" "tm_len ?m = 48" "(8 :: nat) < 9" by simp_all
  moreover have "HTT_T2H_MSG_TYPE_GET (tm_words ?m ! 0) = 1" "HTT_RX_IND_EXT_TID_GET (tm_words ?m ! 0) < OL_TXRX_NUM_EXT_TIDS"
    "HTT_RX_IND_FW_RX_DESC_BYTES_GET (tm_words ?m ! 11) = 0"
    "HTT_RX_IND_NUM_MPDU_RANGES_GET (tm_words ?m ! 1) = of_nat (Suc 8)" "htt_rx_ind_flush (tm_words ?m) = Some 0"
    by (code_simp)+
  ultimately show "htt_t2h_msg_handler env A_OK ?m ind_ex = None" using rx_ind_reads_past_message [of ?m 8] by blast
qed

section \<open>Examples\<close>

definition t2h_ex_env :: t2h_env where
  "t2h_ex_env = \<lparr>te_ind = ind_ex_env (\<lambda>k b s. Some s), te_frag = defrag_ex_env, te_addba_mem = True, te_monitor = False,
     te_other = (\<lambda>ty m h. Some h)\<rparr>"

theorem t2h_message_freed_once_witness:
  "\<exists>h'. htt_t2h_msg_handler t2h_ex_env A_OK \<lparr>tm_id = 7, tm_words = [0x00010200], tm_len = 4\<rparr> ind_ex = Some h' \<and>
     tgt_ver h' = (1, 2) \<and> freed_msgs h' = [7]"
proof -
  let ?m = "\<lparr>tm_id = 7, tm_words = [0x00010200], tm_len = 4\<rparr>"
  have "htt_t2h_msg_handler t2h_ex_env A_OK ?m ind_ex = map_option (adf_nbuf_free ?m) (t2h_version_conf 0x00010200 ind_ex)"
    by (simp add: htt_t2h_msg_handler_def htt_t2h_lp_msg_handler_def HTT_T2H_MSG_TYPE_GET_def htt_field_def Let_def)
  moreover have "t2h_version_conf 0x00010200 ind_ex = Some (ind_ex\<lparr>tgt_ver := (1, 2)\<rparr>)"
    by (simp add: t2h_version_conf_def htt_field_def)
  ultimately obtain h' where h': "htt_t2h_msg_handler t2h_ex_env A_OK ?m ind_ex = Some h'" "tgt_ver h' = (1, 2)"
    by (simp add: adf_nbuf_free_def)
  moreover have "freed_msgs h = freed_msgs g" if "te_other t2h_ex_env ty m g = Some h" for ty m g h
    using that by (simp add: t2h_ex_env_def)
  ultimately show ?thesis using t2h_message_freed_once [OF _ h'(1)] by (simp add: ind_ex_def)
qed


end
