(* ===== verification/Htt_Tx_Pool.thy ===== *)
theory Htt_Tx_Pool
  imports Wlan_Prelude
begin

text \<open>
  The target's transmit descriptors (\<open>htt_tx_attach\<close>, \<open>htt_tx_desc_alloc\<close>, \<open>htt_tx_desc_free\<close>,
  \<open>htt_tx_get_paddr\<close> of \<open>htt_tx.c\<close>, \<open>adf_os_mem_multi_pages_alloc\<close>), low-latency build.  They lie on pages
  of consistent memory and are linked through their first words; the set-up links them by walking over the
  pages, an allocation takes the first and writes the bus address of its fragment table.  The size of a
  page and where the pages lie, for the processor and for the bus, are parameters.  \<open>None\<close> is an access
  outside the pages or past the array of pages; the address 0 is the null pointer.
\<close>

section \<open>State\<close>

record dma_page =
  page_v_addr_start :: nat
  page_p_addr :: u64

record htt_tx_pool =
  hp_size :: nat
  hp_pool_elems :: u16
  hp_alloc_cnt :: u16
  dma_pages :: "dma_page list"
  hp_per_page :: nat
  hp_words :: "nat \<Rightarrow> nat"
  hp_frag_paddr :: "nat \<Rightarrow> u32"
  hp_freelist :: nat

text \<open>The space for the header of the transport below, and the length of the words of the frame.\<close>

definition HTT_TX_DESC_VADDR_OFFSET :: nat where "HTT_TX_DESC_VADDR_OFFSET = 8"
definition HTT_TX_DESC_LEN :: u32 where "HTT_TX_DESC_LEN = 16"

definition on_page :: "nat \<Rightarrow> htt_tx_pool \<Rightarrow> nat \<Rightarrow> bool" where
  "on_page page_size s p \<longleftrightarrow> list_ex (\<lambda>g. page_v_addr_start g \<le> p \<and> p < page_v_addr_start g + page_size) (dma_pages s)"

definition write_link :: "nat \<Rightarrow> nat \<Rightarrow> nat \<Rightarrow> htt_tx_pool \<Rightarrow> htt_tx_pool option" where
  "write_link page_size p v s = (if on_page page_size s p then Some (s\<lparr>hp_words := (hp_words s)(p := v)\<rparr>) else None)"

section \<open>Setting up\<close>

text \<open>
  The two loops of the set-up.  The state of the walk is the descriptor it has got to, the index of its
  page, and the number of links made; \<open>Inl\<close> is the error return.  The inner loop has \<open>n\<close> rounds left.
\<close>

type_synonym link_walk = "nat \<times> nat \<times> u32 \<times> htt_tx_pool"

fun link_page :: "nat \<Rightarrow> nat \<Rightarrow> link_walk \<Rightarrow> (unit + link_walk) option" where
  "link_page page_size 0 w = Some (Inr w)"
| "link_page page_size (Suc n) (p, pg, num_link, s) =
     Option.bind
       (if n = 0
        then Option.bind (load_at (dma_pages s) pg) (\<lambda>g.
               if page_v_addr_start g = 0 then Some None
               else map_option (\<lambda>g'. Some (page_v_addr_start g', Suc pg)) (load_at (dma_pages s) (Suc pg)))
        else Some (Some (p + hp_size s, pg)))
       (\<lambda>r. case r of
          None \<Rightarrow> Some (Inl ())
        | Some (nxt, pg') \<Rightarrow>
            Option.bind (write_link page_size p nxt s) (\<lambda>s'.
              if num_link + 1 = ucast (hp_pool_elems s) - 1 then Some (Inr (nxt, pg', num_link + 1, s'))
              else link_page page_size n (nxt, pg', num_link + 1, s')))"

fun link_pages :: "nat \<Rightarrow> nat \<Rightarrow> link_walk \<Rightarrow> (unit + link_walk) option" where
  "link_pages page_size 0 w = Some (Inr w)"
| "link_pages page_size (Suc i) (p, pg, num_link, s) =
     Option.bind (link_page page_size (hp_per_page s) (p, pg, num_link, s))
       (\<lambda>r. case r of Inl e \<Rightarrow> Some (Inl e) | Inr w \<Rightarrow> link_pages page_size i w)"

text \<open>
  The pages the allocator returned are given; fewer than are needed is a failed allocation, after which
  there are no pages.
\<close>

definition adf_os_mem_multi_pages_alloc :: "nat \<Rightarrow> nat \<Rightarrow> u16 \<Rightarrow> dma_page list \<Rightarrow> dma_page list \<times> nat" where
  "adf_os_mem_multi_pages_alloc page_size element_size element_num avail =
     (let per_page = page_size div element_size;
          num = unat element_num div per_page + (if unat element_num mod per_page \<noteq> 0 then 1 else 0)
      in if per_page = 0 \<or> length avail < num then ([], per_page) else (take num avail, per_page))"

text \<open>The second component is the return value: 0, or an error.\<close>

definition htt_tx_attach :: "nat \<Rightarrow> nat \<Rightarrow> u16 \<Rightarrow> dma_page list \<Rightarrow> htt_tx_pool \<Rightarrow> (bool \<times> htt_tx_pool) option" where
  "htt_tx_attach page_size desc_size desc_pool_elems avail s =
     (let size = (desc_size + 3) div 4 * 4;
          (pages, per_page) = adf_os_mem_multi_pages_alloc page_size size desc_pool_elems avail;
          s1 = s\<lparr>hp_size := size, hp_pool_elems := desc_pool_elems, hp_alloc_cnt := 0, dma_pages := pages, hp_per_page := per_page\<rparr>
      in case pages of
           [] \<Rightarrow> Some (False, s1)
         | g # _ \<Rightarrow>
             (let s2 = s1\<lparr>hp_freelist := page_v_addr_start g\<rparr>
              in Option.bind (link_pages page_size (length pages) (page_v_addr_start g, 0, 0, s2)) (\<lambda>r.
                   case r of
                     Inl _ \<Rightarrow> Some (False, s2\<lparr>dma_pages := []\<rparr>)
                   | Inr (p, _, _, s3) \<Rightarrow> map_option (Pair True) (write_link page_size p 0 s3))))"

section \<open>Addresses\<close>

text \<open>The page of an address is the first whose closed range holds it, or the last one when none does.\<close>

fun find_page :: "nat \<Rightarrow> nat \<Rightarrow> dma_page list \<Rightarrow> dma_page option" where
  "find_page page_size v [] = None"
| "find_page page_size v [g] = Some g"
| "find_page page_size v (g # g' # gs) =
     (if page_v_addr_start g \<le> v \<and> v \<le> page_v_addr_start g + page_size then Some g else find_page page_size v (g' # gs))"

definition htt_tx_get_paddr :: "nat \<Rightarrow> nat \<Rightarrow> htt_tx_pool \<Rightarrow> u64" where
  "htt_tx_get_paddr page_size target_vaddr s =
     (case find_page page_size target_vaddr (dma_pages s) of
        None \<Rightarrow> 0
      | Some g \<Rightarrow> page_p_addr g + (of_nat target_vaddr - of_nat (page_v_addr_start g)))"

section \<open>Descriptors\<close>

text \<open>The descriptor without its headroom, and the bus address of the headroom; no descriptor is \<open>None\<close>.\<close>

definition htt_tx_desc_alloc :: "nat \<Rightarrow> htt_tx_pool \<Rightarrow> (nat \<times> u32) option \<times> htt_tx_pool" where
  "htt_tx_desc_alloc page_size s =
     (let host = hp_freelist s
      in if host = 0 then (None, s)
         else (let desc = host + HTT_TX_DESC_VADDR_OFFSET;
                   s1 = s\<lparr>hp_freelist := hp_words s host, hp_alloc_cnt := hp_alloc_cnt s + 1\<rparr>;
                   s2 = s1\<lparr>hp_frag_paddr := (hp_frag_paddr s1)(desc := ucast (htt_tx_get_paddr page_size desc s1) + HTT_TX_DESC_LEN)\<rparr>
               in (Some (desc, ucast (htt_tx_get_paddr page_size host s2)), s2)))"

definition htt_tx_desc_free :: "nat \<Rightarrow> htt_tx_pool \<Rightarrow> htt_tx_pool" where
  "htt_tx_desc_free desc s =
     (let host = desc - HTT_TX_DESC_VADDR_OFFSET
      in s\<lparr>hp_words := (hp_words s)(host := hp_freelist s), hp_freelist := host, hp_alloc_cnt := hp_alloc_cnt s - 1\<rparr>)"

section \<open>Descriptors by number\<close>

definition helem :: "nat \<Rightarrow> nat \<Rightarrow> dma_page list \<Rightarrow> nat \<Rightarrow> nat" where
  "helem sz per gs j = page_v_addr_start (gs ! (j div per)) + j mod per * sz"

text \<open>The pages lie apart and none is at the null pointer; a page holds \<open>per\<close> descriptors.\<close>

definition pages_apart :: "nat \<Rightarrow> dma_page list \<Rightarrow> bool" where
  "pages_apart page_size gs \<longleftrightarrow> (\<forall>g \<in> set gs. page_v_addr_start g \<noteq> 0) \<and>
     (\<forall>i < length gs. \<forall>j < i. page_v_addr_start (gs ! i) + page_size \<le> page_v_addr_start (gs ! j) \<or>
        page_v_addr_start (gs ! j) + page_size \<le> page_v_addr_start (gs ! i))"

definition pages_ok :: "nat \<Rightarrow> nat \<Rightarrow> nat \<Rightarrow> dma_page list \<Rightarrow> bool" where
  "pages_ok page_size sz per gs \<longleftrightarrow> 0 < per \<and> 0 < sz \<and> per * sz \<le> page_size \<and> pages_apart page_size gs"

lemma pages_apart_same:
  assumes "pages_apart page_size gs" and "i < length gs" "j < length gs"
    and "page_v_addr_start (gs ! i) + x = page_v_addr_start (gs ! j) + y" and "x < page_size" "y < page_size"
  shows "i = j"
proof (rule ccontr)
  assume "i \<noteq> j"
  then consider "j < i" | "i < j" by linarith
  then show False using assms by (cases; fastforce simp: pages_apart_def)
qed

lemma helem_offset: "pages_ok page_size sz per gs \<Longrightarrow> j mod per * sz < page_size"
proof -
  assume ok: "pages_ok page_size sz per gs"
  then have "j mod per * sz < per * sz" by (simp add: pages_ok_def)
  also have "\<dots> \<le> page_size" using ok by (simp add: pages_ok_def)
  finally show ?thesis .
qed

lemma helem_inject:
  assumes ok: "pages_ok page_size sz per gs" and "i < length gs * per" "j < length gs * per"
    and eq: "helem sz per gs i = helem sz per gs j"
  shows "i = j"
proof -
  have "i div per < length gs" "j div per < length gs" using assms by (simp_all add: pages_ok_def less_mult_imp_div_less)
  then have d: "i div per = j div per"
    using pages_apart_same [OF _ _ _ _ helem_offset [OF ok] helem_offset [OF ok]] ok eq unfolding helem_def pages_ok_def by blast
  then have "i mod per = j mod per" using eq ok by (simp add: helem_def pages_ok_def)
  then show ?thesis using d by (metis div_mult_mod_eq)
qed

lemma helem_on_page:
  assumes ok: "pages_ok page_size sz per gs" and "j < length gs * per"
  shows "dma_pages t = gs \<Longrightarrow> on_page page_size t (helem sz per gs j)" and "helem sz per gs j \<noteq> 0"
proof -
  have "j div per < length gs" using assms by (simp add: pages_ok_def less_mult_imp_div_less)
  then have g: "gs ! (j div per) \<in> set gs" by simp
  then show "helem sz per gs j \<noteq> 0" using ok by (auto simp: helem_def pages_ok_def pages_apart_def)
  show "dma_pages t = gs \<Longrightarrow> on_page page_size t (helem sz per gs j)"
    using g helem_offset [OF ok, of j] by (auto simp: on_page_def list_ex_iff helem_def intro!: bexI [of _ "gs ! (j div per)"])
qed

section \<open>The walk over the pages\<close>

text \<open>One link is made: from descriptor \<open>j\<close> to the next.\<close>

definition linked :: "nat \<Rightarrow> nat \<Rightarrow> nat \<Rightarrow> nat \<Rightarrow> htt_tx_pool \<Rightarrow> htt_tx_pool \<Rightarrow> bool" where
  "linked sz per i j s t \<longleftrightarrow> (\<exists>ws. t = s\<lparr>hp_words := ws\<rparr> \<and>
     (\<forall>a. i \<le> a \<and> a < j \<longrightarrow> ws (helem sz per (dma_pages s) a) = helem sz per (dma_pages s) (Suc a)) \<and>
     (\<forall>x. x \<notin> helem sz per (dma_pages s) ` {i ..< j} \<longrightarrow> ws x = hp_words s x))"

lemma linked_refl: "linked sz per i i s s"
  by (auto simp: linked_def intro: exI [of _ "hp_words s"])

lemma linked_fields:
  "linked sz per i j s t \<Longrightarrow> dma_pages t = dma_pages s \<and> hp_size t = hp_size s \<and> hp_per_page t = hp_per_page s \<and>
     hp_pool_elems t = hp_pool_elems s \<and> hp_freelist t = hp_freelist s \<and> hp_alloc_cnt t = hp_alloc_cnt s \<and>
     hp_frag_paddr t = hp_frag_paddr s"
  by (auto simp: linked_def)

lemma linked_trans:
  assumes ok: "pages_ok page_size sz per (dma_pages s)" and "linked sz per i j s t" and "linked sz per j k t u"
    and "i \<le> j" "j \<le> k" "k \<le> length (dma_pages s) * per"
  shows "linked sz per i k s u"
proof -
  obtain ws vs where ws: "t = s\<lparr>hp_words := ws\<rparr>" "u = t\<lparr>hp_words := vs\<rparr>"
    and w: "\<forall>a. i \<le> a \<and> a < j \<longrightarrow> ws (helem sz per (dma_pages s) a) = helem sz per (dma_pages s) (Suc a)"
      "\<forall>x. x \<notin> helem sz per (dma_pages s) ` {i ..< j} \<longrightarrow> ws x = hp_words s x"
    and v: "\<forall>a. j \<le> a \<and> a < k \<longrightarrow> vs (helem sz per (dma_pages s) a) = helem sz per (dma_pages s) (Suc a)"
      "\<forall>x. x \<notin> helem sz per (dma_pages s) ` {j ..< k} \<longrightarrow> vs x = ws x"
    using assms(2,3) by (auto simp: linked_def)
  have "vs (helem sz per (dma_pages s) a) = helem sz per (dma_pages s) (Suc a)" if a: "i \<le> a" "a < k" for a
  proof (cases "j \<le> a")
    case False
    have "helem sz per (dma_pages s) a \<notin> helem sz per (dma_pages s) ` {j ..< k}"
    proof
      assume "helem sz per (dma_pages s) a \<in> helem sz per (dma_pages s) ` {j ..< k}"
      then obtain b where b: "j \<le> b" "b < k" "helem sz per (dma_pages s) a = helem sz per (dma_pages s) b" by auto
      then have "a = b" using helem_inject [OF ok _ _ b(3)] a assms(6) by linarith
      then show False using b False by simp
    qed
    then show ?thesis using v(2) w(1) a False by simp
  qed (use v a in simp)
  moreover have "vs x = hp_words s x" if "x \<notin> helem sz per (dma_pages s) ` {i ..< k}" for x
  proof -
    have "{i ..< k} = {i ..< j} \<union> {j ..< k}" using assms(4,5) by auto
    then show ?thesis using that v(2) w(2) by (simp add: image_Un)
  qed
  ultimately show ?thesis using ws by (auto simp: linked_def)
qed

lemma linked_one:
  assumes "write_link page_size (helem sz per (dma_pages s) j) (helem sz per (dma_pages s) (Suc j)) s = Some t"
  shows "linked sz per j (Suc j) s t"
  using assms by (auto simp: linked_def write_link_def less_Suc_eq_le split: if_splits intro!: exI [of _ "hp_words t"])

lemma helem_Suc:
  assumes "0 < per" and "Suc (j mod per) < per"
  shows "Suc j div per = j div per" and "helem sz per gs (Suc j) = helem sz per gs j + sz"
  using assms by (simp_all add: helem_def div_Suc mod_Suc)

lemma helem_page:
  assumes "0 < per" and "Suc (j mod per) = per"
  shows "Suc j div per = Suc (j div per)" and "helem sz per gs (Suc j) = page_v_addr_start (gs ! Suc (j div per))"
  using assms by (simp_all add: helem_def div_Suc mod_Suc)

text \<open>Where the walk over one page ends, begun at descriptor \<open>j\<close>, when the pool has \<open>N\<close>.\<close>

definition page_end :: "nat \<Rightarrow> nat \<Rightarrow> nat \<Rightarrow> nat" where
  "page_end N j n = (if j < N - 1 \<and> N - 1 \<le> j + n then N - 1 else j + n)"

abbreviation walk_at :: "nat \<Rightarrow> nat \<Rightarrow> nat \<Rightarrow> htt_tx_pool \<Rightarrow> link_walk" where
  "walk_at sz per j s \<equiv> (helem sz per (dma_pages s) j, j div per, of_nat j, s)"

lemma link_page_walk:
  assumes ok: "pages_ok page_size sz per (dma_pages s)" and sz: "hp_size s = sz"
    and "0 < n" "j mod per + n = per" "j div per < length (dma_pages s)"
    and small: "length (dma_pages s) * per < 2 ^ 32" and N: "hp_pool_elems s \<noteq> 0" "unat (hp_pool_elems s) = N"
  shows "if page_end N j n div per < length (dma_pages s)
    then \<exists>t. link_page page_size n (walk_at sz per j s) = Some (Inr (walk_at sz per (page_end N j n) t)) \<and>
      linked sz per j (page_end N j n) s t
    else link_page page_size n (walk_at sz per j s) = None"
  using assms
proof (induction n arbitrary: j s)
  case 0
  then show ?case by simp
next
  case (Suc n)
  let ?gs = "dma_pages s" and ?p = "helem sz per (dma_pages s) j"
  have per: "0 < per" using Suc.prems(1) by (simp add: pages_ok_def)
  have j: "j < length ?gs * per" using Suc.prems(5) per by (simp add: div_less_iff_less_mult)
  have g: "page_v_addr_start (?gs ! (j div per)) \<noteq> 0" using Suc.prems(1,5) by (auto simp: pages_ok_def pages_apart_def)
  have hit: "of_nat j + 1 = (ucast (hp_pool_elems s) - 1 :: u32) \<longleftrightarrow> Suc j = N - 1"
  proof -
    have "unat (of_nat j + 1 :: u32) = Suc j" using j Suc.prems(6) by (simp add: unat_word_ariths unsigned_of_nat take_bit_nat_eq_self)
    moreover have "unat (ucast (hp_pool_elems s) - 1 :: u32) = N - 1"
      using Suc.prems(7,8) unat_minus_one [of "ucast (hp_pool_elems s) :: u32"] by (simp flip: unat_inject)
    ultimately show ?thesis by (metis unat_inject)
  qed
  obtain t where t: "write_link page_size ?p (helem sz per ?gs (Suc j)) s = Some t"
    using helem_on_page(1) [OF Suc.prems(1) j] by (auto simp: write_link_def)
  then have lk: "linked sz per j (Suc j) s t" by (rule linked_one)
  note fields = linked_fields [OF lk]
  show ?case
  proof (cases "n = 0")
    case True
    then have last: "Suc (j mod per) = per" using Suc.prems(4) by simp
    have e: "page_end N j (Suc n) = Suc j" using True by (auto simp: page_end_def)
    show ?thesis using True Suc.prems(5) g t lk hit helem_page [OF per last] fields e
      by (auto simp: load_at_def)
  next
    case False
    then have in_page: "Suc (j mod per) < per" using Suc.prems(4) by simp
    note suc = helem_Suc [OF per in_page]
    have modS: "Suc j mod per = Suc (j mod per)" using in_page by (simp add: mod_Suc)
    have "link_page page_size (Suc n) (walk_at sz per j s) =
        (if of_nat j + 1 = (ucast (hp_pool_elems s) - 1 :: u32) then Some (Inr (walk_at sz per (Suc j) t))
         else link_page page_size n (walk_at sz per (Suc j) t))"
      using False t fields by (simp add: suc Suc.prems(2) add.commute)
    note step = this [unfolded hit]
    show ?thesis
    proof (cases "Suc j = N - 1")
      case True
      then have e: "page_end N j (Suc n) = Suc j" by (auto simp: page_end_def)
      show ?thesis using True step lk Suc.prems(5) suc(1) by (simp add: e)
    next
      case no: False
      then have e: "page_end N j (Suc n) = page_end N (Suc j) n" by (auto simp: page_end_def)
      have ends: "Suc j \<le> page_end N (Suc j) n" by (auto simp: page_end_def)
      have IH: "if page_end N (Suc j) n div per < length (dma_pages t)
        then \<exists>u. link_page page_size n (walk_at sz per (Suc j) t) = Some (Inr (walk_at sz per (page_end N (Suc j) n) u)) \<and>
          linked sz per (Suc j) (page_end N (Suc j) n) t u
        else link_page page_size n (walk_at sz per (Suc j) t) = None"
        using Suc.prems fields False in_page by (intro Suc.IH) (simp_all add: suc modS)
      show ?thesis
      proof (cases "page_end N (Suc j) n div per < length ?gs")
        case True
        then obtain u where u: "link_page page_size n (walk_at sz per (Suc j) t) = Some (Inr (walk_at sz per (page_end N (Suc j) n) u))"
            "linked sz per (Suc j) (page_end N (Suc j) n) t u" using IH fields by auto
        have "page_end N (Suc j) n \<le> length ?gs * per" using True per by (simp add: div_less_iff_less_mult less_imp_le)
        then have "linked sz per j (page_end N (Suc j) n) s u"
          using linked_trans [OF Suc.prems(1) lk u(2)] ends by simp
        then show ?thesis using True u(1) step no by (auto simp: e)
      next
        case out: False
        then show ?thesis using IH fields step no by (simp add: e)
      qed
    qed
  qed
qed

lemma link_pages_walk:
  assumes "pages_ok page_size sz per (dma_pages s)" and "hp_size s = sz" "hp_per_page s = per"
    and "pg + i = length (dma_pages s)" "0 < i"
    and "length (dma_pages s) * per < 2 ^ 32" and "hp_pool_elems s \<noteq> 0" "unat (hp_pool_elems s) = N"
    and "(length (dma_pages s) - 1) * per < N" "N \<le> length (dma_pages s) * per"
  shows "if (N - 1) mod per = 0 then link_pages page_size i (walk_at sz per (pg * per) s) = None
    else \<exists>t. link_pages page_size i (walk_at sz per (pg * per) s) = Some (Inr (walk_at sz per (N - 1) t)) \<and>
      linked sz per (pg * per) (N - 1) s t"
  using assms
proof (induction i arbitrary: pg s)
  case 0
  then show ?case by simp
next
  case (Suc i)
  let ?P = "length (dma_pages s)" and ?j = "pg * per"
  have per: "0 < per" using Suc.prems(1) by (simp add: pages_ok_def)
  have one: "if page_end N ?j per div per < ?P
    then \<exists>t. link_page page_size per (walk_at sz per ?j s) = Some (Inr (walk_at sz per (page_end N ?j per) t)) \<and>
      linked sz per ?j (page_end N ?j per) s t
    else link_page page_size per (walk_at sz per ?j s) = None"
    using Suc.prems per by (intro link_page_walk) simp_all
  have unf: "link_pages page_size (Suc i) (walk_at sz per ?j s) =
      Option.bind (link_page page_size per (walk_at sz per ?j s))
        (\<lambda>r. case r of Inl e \<Rightarrow> Some (Inl ()) | Inr w \<Rightarrow> link_pages page_size i w)"
    using Suc.prems(3) per by simp
  show ?case
  proof (cases "i = 0")
    case True
    then have pg: "pg = ?P - 1" and P: "?P = Suc pg" using Suc.prems(4) by simp_all
    have range: "?j \<le> N - 1" "N - 1 < ?j + per" using Suc.prems(9,10) by (simp_all add: P)
    show ?thesis
    proof (cases "(N - 1) mod per = 0")
      case True
      have "N - 1 = ?j"
      proof -
        have "(N - 1) div per = pg" using range per by (intro div_nat_eqI) (simp_all add: mult.commute)
        then show ?thesis using div_mult_mod_eq [of "N - 1" per] True by simp
      qed
      then have "page_end N ?j per = ?j + per" by (simp add: page_end_def)
      then show ?thesis using one True per unfolding unf by (simp add: P)
    next
      case False
      then have "N - 1 \<noteq> ?j" by auto
      then have e: "page_end N ?j per = N - 1" using range by (simp add: page_end_def)
      have "(N - 1) div per = pg" using range per by (intro div_nat_eqI) (simp_all add: mult.commute)
      then show ?thesis using one False \<open>i = 0\<close> unfolding e unf by (auto simp: P)
    qed
  next
    case False
    have "Suc pg \<le> ?P - 1" using False Suc.prems(4) by simp
    then have "Suc pg * per \<le> (?P - 1) * per" by (rule mult_le_mono1)
    then have "Suc pg * per \<le> N - 1" using Suc.prems(9) by linarith
    then have e: "page_end N ?j per = Suc pg * per" by (auto simp: page_end_def)
    have "Suc pg < ?P" using False Suc.prems(4) by simp
    then obtain t where t: "link_page page_size per (walk_at sz per ?j s) = Some (Inr (walk_at sz per (Suc pg * per) t))"
        "linked sz per ?j (Suc pg * per) s t"
      using one per unfolding e by (auto simp del: mult_Suc)
    note fields = linked_fields [OF t(2)]
    have IH: "if (N - 1) mod per = 0 then link_pages page_size i (walk_at sz per (Suc pg * per) t) = None
      else \<exists>u. link_pages page_size i (walk_at sz per (Suc pg * per) t) = Some (Inr (walk_at sz per (N - 1) u)) \<and>
        linked sz per (Suc pg * per) (N - 1) t u"
      using Suc.prems False fields by (intro Suc.IH) (simp_all del: mult_Suc)
    show ?thesis
    proof (cases "(N - 1) mod per = 0")
      case True
      then show ?thesis using IH t(1) unfolding unf by (simp del: link_pages.simps mult_Suc)
    next
      case no: False
      then obtain u where u: "link_pages page_size i (walk_at sz per (Suc pg * per) t) = Some (Inr (walk_at sz per (N - 1) u))"
          "linked sz per (Suc pg * per) (N - 1) t u" using IH by auto
      have "linked sz per ?j (N - 1) s u"
        using linked_trans [OF Suc.prems(1) t(2) u(2)] \<open>Suc pg * per \<le> N - 1\<close> Suc.prems(10) by simp
      then show ?thesis using no t(1) u(1) fields unfolding unf by (auto simp del: link_pages.simps mult_Suc)
    qed
  qed
qed

section \<open>The free list\<close>

definition nz :: "nat \<Rightarrow> nat option" where
  "nz a = (if a = 0 then None else Some a)"

definition hchain :: "htt_tx_pool \<Rightarrow> nat list \<Rightarrow> bool" where
  "hchain s xs \<longleftrightarrow> lseg (\<lambda>a. nz (hp_words s a)) (nz (hp_freelist s)) xs None"

lemma pages_apart_take: "pages_apart page_size gs \<Longrightarrow> pages_apart page_size (take m gs)"
  by (auto simp: pages_apart_def dest: in_set_takeD)

text \<open>The number of pages, and where in them a pool of \<open>N\<close> descriptors ends.\<close>

definition num_pages_for :: "nat \<Rightarrow> nat \<Rightarrow> nat" where
  "num_pages_for N per = N div per + (if N mod per \<noteq> 0 then 1 else 0)"

lemma num_pages_for:
  assumes "0 < per" "0 < N"
  shows "0 < num_pages_for N per" and "(num_pages_for N per - 1) * per < N" and "N \<le> num_pages_for N per * per"
proof -
  have N: "N = N div per * per + N mod per" and m: "N mod per < per" using assms(1) by simp_all
  show "0 < num_pages_for N per" using assms by (auto simp: num_pages_for_def div_greater_zero_iff mod_less intro: ccontr)
  have "N \<le> N div per * per + per" using N m by linarith
  then show "N \<le> num_pages_for N per * per" using N by (auto simp: num_pages_for_def)
  show "(num_pages_for N per - 1) * per < N"
  proof (cases "N mod per = 0")
    case True
    then have "N div per \<noteq> 0" using N assms(2) by auto
    then have "(N div per - 1) * per < N div per * per" using assms(1) by simp
    also have "\<dots> = N" using True N by simp
    finally show ?thesis by (simp add: num_pages_for_def True)
  next
    case False
    then show ?thesis using N by (simp add: num_pages_for_def) (metis N add_less_same_cancel1 less_add_same_cancel1 not_gr_zero)
  qed
qed

lemma attach_shape:
  fixes desc_size :: nat
  assumes "0 < desc_size" and "(desc_size + 3) div 4 * 4 \<le> page_size"
  shows "0 < (desc_size + 3) div 4 * 4" and "0 < page_size div ((desc_size + 3) div 4 * 4)"
    and "page_size div ((desc_size + 3) div 4 * 4) * ((desc_size + 3) div 4 * 4) \<le> page_size"
  using assms by (simp_all add: div_greater_zero_iff)

text \<open>What the set-up makes of memory whose pages lie apart.\<close>

lemma htt_tx_attach_rep:
  assumes sz: "0 < desc_size" "sz = (desc_size + 3) div 4 * 4" "sz \<le> page_size" and per: "per = page_size div sz"
    and N: "n \<noteq> 0" "N = unat n" and avail: "num_pages_for N per \<le> length avail" "pages_apart page_size avail"
    and small: "num_pages_for N per * per < 2 ^ 32"
  shows "if (N - 1) mod per = 0 then htt_tx_attach page_size desc_size n avail s = None
    else \<exists>t. htt_tx_attach page_size desc_size n avail s = Some (True, t) \<and>
      dma_pages t = take (num_pages_for N per) avail \<and> hp_alloc_cnt t = 0 \<and>
      hchain t (map (helem sz per (dma_pages t)) [0 ..< N])"
proof -
  define G where "G = take (num_pages_for N per) avail"
  have shape: "0 < sz" "0 < per" "per * sz \<le> page_size" using attach_shape [OF sz(1)] sz per by auto
  have pos: "0 < N" using N by (simp add: unat_gt_0)
  note num = num_pages_for [OF shape(2) pos]
  have len: "length G = num_pages_for N per" using avail(1) by (simp add: G_def)
  have alloc: "adf_os_mem_multi_pages_alloc page_size sz n avail = (G, per)"
    using shape(2) avail(1) by (simp add: adf_os_mem_multi_pages_alloc_def Let_def num_pages_for_def N(2) G_def flip: per)
  obtain g gs where g: "G = g # gs" using len num(1) by (cases G) auto
  let ?s = "s\<lparr>hp_size := sz, hp_pool_elems := n, hp_alloc_cnt := 0, dma_pages := G, hp_per_page := per,
      hp_freelist := page_v_addr_start g\<rparr>"
  have ok: "pages_ok page_size sz per (dma_pages ?s)"
    using shape pages_apart_take [OF avail(2)] by (simp add: pages_ok_def G_def)
  have first: "helem sz per G 0 = page_v_addr_start g" by (simp add: helem_def g)
  have walk: "if (N - 1) mod per = 0 then link_pages page_size (length G) (walk_at sz per (0 * per) ?s) = None
    else \<exists>t. link_pages page_size (length G) (walk_at sz per (0 * per) ?s) = Some (Inr (walk_at sz per (N - 1) t)) \<and>
      linked sz per (0 * per) (N - 1) ?s t"
    using ok shape num len N small by (intro link_pages_walk) (simp_all add: len)
  have att: "htt_tx_attach page_size desc_size n avail s =
      Option.bind (link_pages page_size (length G) (page_v_addr_start g, 0, 0, ?s)) (\<lambda>r. case r of
          Inl _ \<Rightarrow> Some (False, ?s\<lparr>dma_pages := []\<rparr>)
        | Inr (p, _, _, s3) \<Rightarrow> map_option (Pair True) (write_link page_size p 0 s3))"
    unfolding htt_tx_attach_def Let_def sz(2) [symmetric] alloc split g list.case by (rule refl)
  show ?thesis
  proof (cases "(N - 1) mod per = 0")
    case True
    then show ?thesis using walk unfolding att by (simp add: first del: link_pages.simps)
  next
    case False
    then obtain t where t: "link_pages page_size (length G) (page_v_addr_start g, 0, 0, ?s) = Some (Inr (walk_at sz per (N - 1) t))"
        "linked sz per 0 (N - 1) ?s t" using walk by (auto simp: first simp del: link_pages.simps)
    note fields = linked_fields [OF t(2)]
    let ?h = "helem sz per G" and ?u = "t\<lparr>hp_words := (hp_words t)(helem sz per G (N - 1) := 0)\<rparr>"
    have bound: "j < length G * per" if "j < N" for j using that num(3) by (simp add: len)
    have on: "on_page page_size t (?h (N - 1))"
      using helem_on_page(1) [OF ok, of "N - 1" t] fields bound [of "N - 1"] pos by simp
    have inj: "?h i = ?h j \<longleftrightarrow> i = j" if "i < N" "j < N" for i j
      using helem_inject [OF ok] bound that by auto
    have nonnull: "?h j \<noteq> 0" if "j < N" for j using helem_on_page(2) [OF ok] bound that by simp
    have links: "hp_words t (?h j) = ?h (Suc j)" if "j < N - 1" for j
      using t(2) that by (auto simp: linked_def)
    have "lseg (\<lambda>a. nz (hp_words ?u a)) (Some (?h 0)) (map ?h [0 ..< N - 1]) (Some (?h (N - 1)))"
      using links nonnull inj by (intro lseg_upt) (auto simp: nz_def)
    moreover have "[0 ..< N] = [0 ..< N - 1] @ [N - 1]" using pos by (cases N) auto
    ultimately have "lseg (\<lambda>a. nz (hp_words ?u a)) (Some (?h 0)) (map ?h [0 ..< N]) None"
      by (auto simp: lseg_append nz_def)
    moreover have "nz (hp_freelist ?u) = Some (?h 0)" using fields nonnull [OF pos] by (simp add: nz_def first)
    ultimately have "hchain ?u (map ?h [0 ..< N])" by (simp add: hchain_def)
    moreover have "htt_tx_attach page_size desc_size n avail s = Some (True, ?u)"
      using t(1) on fields unfolding att by (simp add: write_link_def)
    ultimately show ?thesis using False fields unfolding G_def [symmetric] by (auto intro!: exI [of _ ?u])
  qed
qed

lemma hchain_alloc:
  assumes "hchain s (x # xs)"
  shows "\<exists>t. htt_tx_desc_alloc page_size s = (Some (x + HTT_TX_DESC_VADDR_OFFSET, ucast (htt_tx_get_paddr page_size x s)), t) \<and>
    hchain t xs \<and> dma_pages t = dma_pages s \<and> hp_alloc_cnt t = hp_alloc_cnt s + 1 \<and>
    hp_frag_paddr t = (hp_frag_paddr s)(x + HTT_TX_DESC_VADDR_OFFSET :=
      ucast (htt_tx_get_paddr page_size (x + HTT_TX_DESC_VADDR_OFFSET) s) + HTT_TX_DESC_LEN)"
proof -
  have x: "x = hp_freelist s" "x \<noteq> 0" and xs: "lseg (\<lambda>a. nz (hp_words s a)) (nz (hp_words s x)) xs None"
    using assms by (auto simp: hchain_def nz_def split: if_splits)
  let ?t = "s\<lparr>hp_freelist := hp_words s x, hp_alloc_cnt := hp_alloc_cnt s + 1, hp_frag_paddr := (hp_frag_paddr s)
      (x + HTT_TX_DESC_VADDR_OFFSET := ucast (htt_tx_get_paddr page_size (x + HTT_TX_DESC_VADDR_OFFSET) s) + HTT_TX_DESC_LEN)\<rparr>"
  have "htt_tx_desc_alloc page_size s = (Some (x + HTT_TX_DESC_VADDR_OFFSET, ucast (htt_tx_get_paddr page_size x s)), ?t)"
    using x by (simp add: htt_tx_desc_alloc_def htt_tx_get_paddr_def Let_def)
  moreover have "hchain ?t xs" using xs by (simp add: hchain_def)
  ultimately show ?thesis by (intro exI [of _ ?t]) simp
qed

lemma hchain_alloc_none: "hchain s [] \<Longrightarrow> htt_tx_desc_alloc page_size s = (None, s)"
  by (simp add: hchain_def nz_def htt_tx_desc_alloc_def Let_def split: if_splits)

lemma hchain_free:
  assumes "hchain s xs" and "x \<noteq> 0" "x \<notin> set xs"
  shows "hchain (htt_tx_desc_free (x + HTT_TX_DESC_VADDR_OFFSET) s) (x # xs)"
proof -
  have "(\<lambda>a. nz (((hp_words s)(x := hp_freelist s)) a)) = (\<lambda>a. nz (hp_words s a))(x := nz (hp_freelist s))" by auto
  then show ?thesis using assms by (auto simp: hchain_def htt_tx_desc_free_def Let_def nz_def lseg_frame)
qed

text \<open>Taking descriptors one after another, as the set-up of the other pool does.\<close>

fun htt_allocs :: "nat \<Rightarrow> nat \<Rightarrow> htt_tx_pool \<Rightarrow> (nat \<times> u32) list \<times> htt_tx_pool" where
  "htt_allocs page_size 0 s = ([], s)"
| "htt_allocs page_size (Suc n) s =
     (case htt_tx_desc_alloc page_size s of
        (None, s') \<Rightarrow> ([], s')
      | (Some d, s') \<Rightarrow> (let (ds, s'') = htt_allocs page_size n s' in (d # ds, s'')))"

lemma hchain_allocs:
  assumes "hchain s xs"
  shows "\<exists>t. htt_allocs page_size (length xs) s =
      (map (\<lambda>x. (x + HTT_TX_DESC_VADDR_OFFSET, ucast (htt_tx_get_paddr page_size x s))) xs, t) \<and> hchain t [] \<and>
    dma_pages t = dma_pages s"
  using assms
proof (induction xs arbitrary: s)
  case Nil
  then show ?case by simp
next
  case (Cons x xs)
  obtain t where t: "htt_tx_desc_alloc page_size s = (Some (x + HTT_TX_DESC_VADDR_OFFSET, ucast (htt_tx_get_paddr page_size x s)), t)"
      "hchain t xs" "dma_pages t = dma_pages s" using hchain_alloc [OF Cons.prems] by blast
  have "htt_tx_get_paddr page_size y t = htt_tx_get_paddr page_size y s" for y using t(3) by (simp add: htt_tx_get_paddr_def)
  then show ?case using Cons.IH [OF t(2)] t by auto
qed

section \<open>Bus addresses\<close>

lemma find_page_first:
  assumes "i < length gs" and "\<forall>j < i. \<not> (page_v_addr_start (gs ! j) \<le> v \<and> v \<le> page_v_addr_start (gs ! j) + page_size)"
    and "page_v_addr_start (gs ! i) \<le> v \<and> v \<le> page_v_addr_start (gs ! i) + page_size"
  shows "find_page page_size v gs = Some (gs ! i)"
  using assms
proof (induction page_size v gs arbitrary: i rule: find_page.induct)
  case (3 page_size v g g' gs)
  show ?case
  proof (cases i)
    case 0
    then show ?thesis using "3.prems" by simp
  next
    case (Suc k)
    have "\<not> (page_v_addr_start g \<le> v \<and> v \<le> page_v_addr_start g + page_size)" using "3.prems"(2) Suc by force
    moreover have "\<forall>j < k. \<not> (page_v_addr_start ((g' # gs) ! j) \<le> v \<and> v \<le> page_v_addr_start ((g' # gs) ! j) + page_size)"
      using "3.prems"(2) Suc by (metis Suc_mono nth_Cons_Suc)
    ultimately show ?thesis using "3.IH" [of k] "3.prems"(1,3) Suc by auto
  qed
qed simp_all

text \<open>Only the address just past a page is in the closed range of two.\<close>

lemma pages_apart_range:
  assumes apart: "pages_apart page_size gs" and "i < length gs" "j < i" and "off < page_size"
  shows "page_v_addr_start (gs ! j) \<le> page_v_addr_start (gs ! i) + off \<and>
      page_v_addr_start (gs ! i) + off \<le> page_v_addr_start (gs ! j) + page_size \<longleftrightarrow>
    off = 0 \<and> page_v_addr_start (gs ! j) + page_size = page_v_addr_start (gs ! i)"
proof -
  have "page_v_addr_start (gs ! i) + page_size \<le> page_v_addr_start (gs ! j) \<or>
      page_v_addr_start (gs ! j) + page_size \<le> page_v_addr_start (gs ! i)"
    using assms by (simp add: pages_apart_def)
  then show ?thesis using assms(4) by linarith
qed

text \<open>C40.
  Where the bus finds a descriptor: the page of an address is looked for with both ends of its range
  included.  The address of a descriptor comes out right except for the first one of a page that begins
  where an earlier page of the array ends: its address is taken from the end of that other page.  \<close>

theorem htt_tx_paddr_adjacent:
  assumes "pages_ok page_size sz per (dma_pages s)" and "j < length (dma_pages s) * per"
  shows "let gs = dma_pages s; g = gs ! (j div per); before = (\<lambda>i. i < j div per \<and>
        page_v_addr_start (gs ! i) + page_size = helem sz per gs j)
    in ((\<nexists>i. before i) \<longrightarrow> htt_tx_get_paddr page_size (helem sz per gs j) s = page_p_addr g + of_nat (j mod per * sz)) \<and>
       (\<forall>i. before i \<longrightarrow> j mod per = 0 \<and>
          htt_tx_get_paddr page_size (helem sz per gs j) s = page_p_addr (gs ! i) + of_nat page_size)"
proof -
  let ?gs = "dma_pages s" and ?i = "j div per" and ?off = "j mod per * sz"
  let ?v = "helem sz per ?gs j"
  have i: "?i < length ?gs" using assms by (simp add: pages_ok_def less_mult_imp_div_less)
  note off = helem_offset [OF assms(1), of j]
  have v: "?v = page_v_addr_start (?gs ! ?i) + ?off" by (simp add: helem_def)
  have apart: "pages_apart page_size ?gs" and sz: "0 < sz" using assms(1) by (auto simp: pages_ok_def)
  have range: "page_v_addr_start (?gs ! b) \<le> ?v \<and> ?v \<le> page_v_addr_start (?gs ! b) + page_size \<longleftrightarrow>
      ?off = 0 \<and> page_v_addr_start (?gs ! b) + page_size = page_v_addr_start (?gs ! ?i)" if "b < ?i" for b
    unfolding v by (rule pages_apart_range [OF apart i that off])
  have main: "htt_tx_get_paddr page_size ?v s = page_p_addr (?gs ! ?i) + of_nat ?off"
    if none: "\<not> (\<exists>b < ?i. page_v_addr_start (?gs ! b) + page_size = ?v)"
  proof -
    have "find_page page_size ?v ?gs = Some (?gs ! ?i)"
      using none range off by (intro find_page_first [OF i]) (auto simp: v)
    then show ?thesis by (simp add: htt_tx_get_paddr_def v)
  qed
  have other: "j mod per = 0 \<and> htt_tx_get_paddr page_size ?v s = page_p_addr (?gs ! b) + of_nat page_size"
    if b: "b < ?i" "page_v_addr_start (?gs ! b) + page_size = ?v" for b
  proof -
    have z: "?off = 0" "page_v_addr_start (?gs ! b) + page_size = page_v_addr_start (?gs ! ?i)"
      using range [OF b(1)] b(2) by auto
    have "\<not> (page_v_addr_start (?gs ! c) \<le> ?v \<and> ?v \<le> page_v_addr_start (?gs ! c) + page_size)" if "c < b" for c
    proof
      assume "page_v_addr_start (?gs ! c) \<le> ?v \<and> ?v \<le> page_v_addr_start (?gs ! c) + page_size"
      then have "page_v_addr_start (?gs ! c) + page_size = page_v_addr_start (?gs ! ?i)" using range [of c] that b by simp
      then have "page_v_addr_start (?gs ! c) = page_v_addr_start (?gs ! b)" using z(2) by simp
      then have "c = b" using pages_apart_same [OF apart, of c b 0 0] that b i off by simp
      then show False using that by simp
    qed
    then have "find_page page_size ?v ?gs = Some (?gs ! b)" using b i by (intro find_page_first) auto
    then have "htt_tx_get_paddr page_size ?v s = page_p_addr (?gs ! b) + of_nat page_size"
      using b(2) [symmetric] by (simp add: htt_tx_get_paddr_def)
    then show ?thesis using z(1) sz by simp
  qed
  show ?thesis using main other by (auto simp: Let_def)
qed

text \<open>C39.
  The set-up of the target's descriptors: when the walk over the pages reaches the last descriptor on the
  page it counts on, the pool is the list of all of them in order, each is given out once, with its fragment
  table right behind its words, and then there is none.  But when the last page holds a single descriptor
  (and so also for a pool of one) the walk goes on past the end of the pool and of the array of pages.  \<close>

theorem htt_tx_attach_exact:
  assumes "0 < desc_size" "(desc_size + 3) div 4 * 4 \<le> page_size" and "n \<noteq> 0"
    and "num_pages_for (unat n) (page_size div ((desc_size + 3) div 4 * 4)) \<le> length avail" and "pages_apart page_size avail"
    and "num_pages_for (unat n) (page_size div ((desc_size + 3) div 4 * 4)) * (page_size div ((desc_size + 3) div 4 * 4)) < 2 ^ 32"
  shows "let sz = (desc_size + 3) div 4 * 4; per = page_size div sz
    in if (unat n - 1) mod per = 0 then htt_tx_attach page_size desc_size n avail s = None
       else \<exists>t u. htt_tx_attach page_size desc_size n avail s = Some (True, t) \<and>
         htt_allocs page_size (unat n) t =
           (map (\<lambda>j. (helem sz per (dma_pages t) j + HTT_TX_DESC_VADDR_OFFSET,
              ucast (htt_tx_get_paddr page_size (helem sz per (dma_pages t) j) t))) [0 ..< unat n], u) \<and>
         distinct (map (helem sz per (dma_pages t)) [0 ..< unat n]) \<and>
         htt_tx_desc_alloc page_size u = (None, u)"
proof -
  let ?sz = "(desc_size + 3) div 4 * 4"
  let ?per = "page_size div ?sz"
  show ?thesis
  proof (cases "(unat n - 1) mod ?per = 0")
    case True
    then show ?thesis using htt_tx_attach_rep [OF assms(1) refl assms(2) refl assms(3) refl assms(4-6)] by (simp add: Let_def)
  next
    case False
    then obtain t where t: "htt_tx_attach page_size desc_size n avail s = Some (True, t)"
        "dma_pages t = take (num_pages_for (unat n) ?per) avail" "hchain t (map (helem ?sz ?per (dma_pages t)) [0 ..< unat n])"
      using htt_tx_attach_rep [OF assms(1) refl assms(2) refl assms(3) refl assms(4-6), where s = s]
      unfolding if_not_P [OF False] by blast
    obtain u where "htt_allocs page_size (length (map (helem ?sz ?per (dma_pages t)) [0 ..< unat n])) t =
        (map (\<lambda>x. (x + HTT_TX_DESC_VADDR_OFFSET, ucast (htt_tx_get_paddr page_size x t)))
          (map (helem ?sz ?per (dma_pages t)) [0 ..< unat n]), u)" "hchain u []"
      using hchain_allocs [OF t(3)] by blast
    moreover have "distinct (map (helem ?sz ?per (dma_pages t)) [0 ..< unat n])"
      using t(3) unfolding hchain_def by (rule lseg_acyclic)
    ultimately show ?thesis using False t(1) hchain_alloc_none by (auto simp: Let_def comp_def)
  qed
qed

section \<open>Witnesses\<close>

text \<open>Two pages of 64 bytes, one right behind the other for the processor and far apart for the bus.\<close>

definition demo_pages :: "dma_page list" where
  "demo_pages = [\<lparr>page_v_addr_start = 128, page_p_addr = 0x1000\<rparr>, \<lparr>page_v_addr_start = 192, page_p_addr = 0x9000\<rparr>]"

definition demo_pool :: htt_tx_pool where
  "demo_pool = \<lparr>hp_size = 20, hp_pool_elems = 5, hp_alloc_cnt = 0, dma_pages = demo_pages, hp_per_page = 3,
     hp_words = (\<lambda>_. 0), hp_frag_paddr = (\<lambda>_. 0), hp_freelist = 0\<rparr>"

lemma demo_pages_apart: "pages_apart 64 demo_pages"
  by (auto simp: pages_apart_def demo_pages_def less_Suc_eq)

lemma htt_tx_paddr_adjacent_witness: "htt_tx_get_paddr 64 192 demo_pool = 0x1040"
  using htt_tx_paddr_adjacent [of 64 20 3 demo_pool 3] demo_pages_apart
  by (simp add: pages_ok_def demo_pool_def helem_def) (simp add: demo_pages_def)

lemma htt_tx_attach_exact_witness:
  "htt_tx_attach 64 20 4 demo_pages demo_pool = None \<and> (\<exists>t. htt_tx_attach 64 20 5 demo_pages demo_pool = Some (True, t))"
proof -
  have len: "length demo_pages = 2" by (simp add: demo_pages_def)
  show ?thesis
    using htt_tx_attach_exact [of 20 64 4 demo_pages demo_pool] htt_tx_attach_exact [of 20 64 5 demo_pages demo_pool]
      demo_pages_apart by (auto simp: num_pages_for_def len Let_def)
qed

end
