(* ===== verification/Tx_Desc.thy ===== *)
theory Tx_Desc
  imports Tailq Copy_Engine Htt_Fields
begin

text \<open>
  Transmit buffers and transmit descriptors (\<open>ol_tx_desc.c\<close>, \<open>ol_tx_desc.h\<close>, the set-up in \<open>ol_txrx.c\<close>,
  the descriptor accessors of \<open>ol_htt_tx_api.h\<close>), in the low-latency build of the PCI bus.  The pool is
  spread over pages; a descriptor is named by its page and its place on it.  The first word of a
  descriptor is a union: the next pointer of the free list while the descriptor is free, the frame it
  carries while it is in use.  \<open>None\<close> is an access outside the pages or an array, through a null pointer,
  or a read of the union as what was not last written.
\<close>

section \<open>Buffers\<close>

type_synonym tx_buf = nat
type_synonym desc_ptr = "nat \<times> nat"

text \<open>A fragment the driver puts in front of the frame: where it is for the processor and for the bus.\<close>

record tx_frag =
  fg_vaddr :: nat
  fg_paddr :: u32
  fg_len :: u16

record tx_nbuf =
  tn_next :: "tx_buf option"
  tn_frags :: "tx_frag list"
  tn_wordstream :: u8
  tn_len :: u32
  tn_paddr :: u32
  tn_tid :: u8
  tn_exempt :: u8
  tn_cksum :: u8
  tn_ipa :: bool
  tn_ethertype :: u16

definition CVG_NBUF_MAX_EXTRA_FRAGS :: nat where "CVG_NBUF_MAX_EXTRA_FRAGS = 2"

definition adf_nbuf_len :: "tx_nbuf \<Rightarrow> u32" where
  "adf_nbuf_len n = sum_list (map (\<lambda>f. ucast (fg_len f)) (tn_frags n)) + tn_len n"

definition adf_nbuf_get_num_frags :: "tx_nbuf \<Rightarrow> nat" where
  "adf_nbuf_get_num_frags n = Suc (length (tn_frags n))"

definition adf_nbuf_get_frag_len :: "tx_nbuf \<Rightarrow> nat \<Rightarrow> u32" where
  "adf_nbuf_get_frag_len n i = (if i < length (tn_frags n) then ucast (fg_len (tn_frags n ! i)) else tn_len n)"

definition adf_nbuf_get_frag_paddr_lo :: "tx_nbuf \<Rightarrow> nat \<Rightarrow> u32" where
  "adf_nbuf_get_frag_paddr_lo n i = (if i < length (tn_frags n) then fg_paddr (tn_frags n ! i) else tn_paddr n)"

text \<open>One flag per fragment of the driver and one for the frame itself.\<close>

definition adf_nbuf_get_frag_is_wordstream :: "tx_nbuf \<Rightarrow> nat \<Rightarrow> bool" where
  "adf_nbuf_get_frag_is_wordstream n i =
     bit (tn_wordstream n) (if i < length (tn_frags n) then i else CVG_NBUF_MAX_EXTRA_FRAGS)"

definition adf_nbuf_set_frag_is_wordstream :: "nat \<Rightarrow> bool \<Rightarrow> tx_nbuf \<Rightarrow> tx_nbuf" where
  "adf_nbuf_set_frag_is_wordstream i v n =
     (let k = (if length (tn_frags n) \<le> i then CVG_NBUF_MAX_EXTRA_FRAGS else i)
      in n\<lparr>tn_wordstream := (if v then set_bit k (tn_wordstream n) else unset_bit k (tn_wordstream n))\<rparr>)"

text \<open>The arrays of the fragments have two entries.\<close>

definition adf_nbuf_frag_push_head :: "tx_frag \<Rightarrow> tx_nbuf \<Rightarrow> tx_nbuf option" where
  "adf_nbuf_frag_push_head f n =
     (if CVG_NBUF_MAX_EXTRA_FRAGS \<le> length (tn_frags n) then None else Some (n\<lparr>tn_frags := tn_frags n @ [f]\<rparr>))"

section \<open>State\<close>

text \<open>
  The part of a descriptor the target reads: the header of the transport below, the four words of the
  frame and the list of its fragments.
\<close>

record htt_host_desc =
  hd_htc0 :: u32
  hd_htc1 :: u32
  hd_word0 :: u32
  hd_word1 :: u32
  hd_word2 :: u32
  hd_word3 :: u32
  hd_frags :: "u32 list"

datatype tx_first = First_next "desc_ptr option" | First_netbuf tx_buf

record tx_desc =
  td_first :: tx_first
  htt_tx_desc :: nat
  htt_tx_desc_paddr :: u32
  td_id :: u16
  ref_cnt :: int
  tx_status :: u32
  pkt_type :: u8
  td_vdev :: "nat option"
  td_vdev_id :: u8

text \<open>Notices to the layers above: of a frame they keep, and of a management frame.\<close>

datatype tx_notice = Data_done tx_buf bool | Mgmt_done nat tx_buf bool

record tx_pool =
  tx_bufs :: "tx_buf \<Rightarrow> tx_nbuf"
  dma_maps :: "tx_buf \<Rightarrow> int"
  tx_freed :: "tx_buf list"
  tx_notices :: "tx_notice list"
  data_cb :: bool
  ota_ack_cbs :: "bool list"
  htt_descs :: "nat \<Rightarrow> htt_host_desc"
  desc_mem :: "desc_ptr \<Rightarrow> tx_desc"
  num_pages :: nat
  num_element_per_page :: nat
  page_divider :: nat
  offset_filter :: u32
  pool_size :: u16
  num_free :: u16
  freelist :: "desc_ptr option"

definition ol_tx_frm_std :: u8 where "ol_tx_frm_std = 0"
definition ol_tx_frm_tso :: u8 where "ol_tx_frm_tso = 1"
definition ol_tx_frm_no_free :: u8 where "ol_tx_frm_no_free = 3"
definition ol_tx_frm_freed :: u8 where "ol_tx_frm_freed = 0xff"
definition OL_TXRX_MGMT_TYPE_BASE :: u8 where "OL_TXRX_MGMT_TYPE_BASE = 4"

lemmas tx_frm_types = ol_tx_frm_std_def ol_tx_frm_tso_def ol_tx_frm_no_free_def ol_tx_frm_freed_def OL_TXRX_MGMT_TYPE_BASE_def

definition upd_desc :: "desc_ptr \<Rightarrow> (tx_desc \<Rightarrow> tx_desc) \<Rightarrow> tx_pool \<Rightarrow> tx_pool" where
  "upd_desc d f s = s\<lparr>desc_mem := (desc_mem s)(d := f (desc_mem s d))\<rparr>"

definition upd_buf :: "tx_buf \<Rightarrow> (tx_nbuf \<Rightarrow> tx_nbuf) \<Rightarrow> tx_pool \<Rightarrow> tx_pool" where
  "upd_buf b f s = s\<lparr>tx_bufs := (tx_bufs s)(b := f (tx_bufs s b))\<rparr>"

definition upd_htt :: "nat \<Rightarrow> (htt_host_desc \<Rightarrow> htt_host_desc) \<Rightarrow> tx_pool \<Rightarrow> tx_pool" where
  "upd_htt i f s = s\<lparr>htt_descs := (htt_descs s)(i := f (htt_descs s i))\<rparr>"

text \<open>Reading a netbuf pointer of a descriptor.\<close>

definition desc_netbuf :: "desc_ptr \<Rightarrow> tx_pool \<Rightarrow> tx_buf option" where
  "desc_netbuf d s = (case td_first (desc_mem s d) of First_netbuf b \<Rightarrow> Some b | First_next _ \<Rightarrow> None)"

section \<open>Buffers of the pool\<close>

definition adf_nbuf_map_single :: "bool \<Rightarrow> u32 \<Rightarrow> tx_buf \<Rightarrow> tx_pool \<Rightarrow> bool \<times> tx_pool" where
  "adf_nbuf_map_single ok paddr b s =
     (ok, upd_buf b (\<lambda>n. n\<lparr>tn_paddr := paddr\<rparr>) (if ok then s\<lparr>dma_maps := (dma_maps s)(b := dma_maps s b + 1)\<rparr> else s))"

definition adf_nbuf_unmap_single :: "tx_buf \<Rightarrow> tx_pool \<Rightarrow> tx_pool" where
  "adf_nbuf_unmap_single b s = s\<lparr>dma_maps := (dma_maps s)(b := dma_maps s b - 1)\<rparr>"

definition adf_nbuf_set_next :: "tx_buf \<Rightarrow> tx_buf option \<Rightarrow> tx_pool \<Rightarrow> tx_pool" where
  "adf_nbuf_set_next b n = upd_buf b (\<lambda>nb. nb\<lparr>tn_next := n\<rparr>)"

definition tx_nbuf_free :: "tx_buf \<Rightarrow> tx_pool \<Rightarrow> tx_pool" where
  "tx_nbuf_free b s = s\<lparr>tx_freed := tx_freed s @ [b]\<rparr>"

text \<open>Frees the whole list from a buffer on.\<close>

partial_function (option) adf_nbuf_tx_free :: "tx_buf option \<Rightarrow> tx_pool \<Rightarrow> tx_pool option" where
  "adf_nbuf_tx_free p s =
     (case p of None \<Rightarrow> Some s
      | Some b \<Rightarrow> adf_nbuf_tx_free (tn_next (tx_bufs s b)) (tx_nbuf_free b s))"

section \<open>The pool\<close>

text \<open>The page and the offset come from the bits of the id.\<close>

definition ol_tx_desc_find :: "u16 \<Rightarrow> tx_pool \<Rightarrow> desc_ptr option" where
  "ol_tx_desc_find i s =
     (let d = (unat (drop_bit (page_divider s) i), unat ((ucast i :: u32) AND offset_filter s))
      in if fst d < num_pages s \<and> snd d < num_element_per_page s then Some d else None)"

definition ol_tx_desc_find_check :: "u16 \<Rightarrow> tx_pool \<Rightarrow> desc_ptr option option" where
  "ol_tx_desc_find_check i s =
     (if pool_size s \<le> i then Some None else map_option Some (ol_tx_desc_find i s))"

definition ol_tx_desc_alloc :: "nat \<Rightarrow> u8 \<Rightarrow> tx_pool \<Rightarrow> (desc_ptr option \<times> tx_pool) option" where
  "ol_tx_desc_alloc vdev vdev_id s =
     (case freelist s of
        None \<Rightarrow> Some (None, s)
      | Some d \<Rightarrow>
          (case td_first (desc_mem s d) of
             First_netbuf _ \<Rightarrow> None
           | First_next n \<Rightarrow>
               Some (Some d, upd_desc d (\<lambda>t. t\<lparr>td_vdev := Some vdev, td_vdev_id := vdev_id\<rparr>)
                 (s\<lparr>num_free := num_free s - 1, freelist := n\<rparr>))))"

definition ol_tx_desc_free :: "desc_ptr \<Rightarrow> tx_pool \<Rightarrow> tx_pool" where
  "ol_tx_desc_free d s =
     (upd_desc d (\<lambda>t. t\<lparr>td_first := First_next (freelist s)\<rparr>) s)\<lparr>freelist := Some d, num_free := num_free s + 1\<rparr>"

section \<open>The target's part of a descriptor\<close>

text \<open>What the caller says about a frame.\<close>

record htt_msdu_info =
  mi_l2_hdr_type :: u8
  mi_vdev_id :: u8
  mi_ext_tid :: u8
  mi_cksum_offload :: u8
  mi_do_encrypt :: bool

definition HTT_INVALID_PEER :: u32 where "HTT_INVALID_PEER = 0xffff"
definition HTT_TX_DESC_SIZE :: u16 where "HTT_TX_DESC_SIZE = 24"

definition htt_tx_word0 :: "htt_msdu_info \<Rightarrow> u32" where
  "htt_tx_word0 mi =
     htt_set 10 (if mi_do_encrypt mi then 0 else 1) (htt_set 29 (ucast (mi_cksum_offload mi))
       (htt_set 22 (ucast (mi_ext_tid mi)) (htt_set 16 (ucast (mi_vdev_id mi)) (htt_set 13 (ucast (mi_l2_hdr_type mi))
         (htt_set 0 1 0)))))"

definition htt_tx_word1 :: "u32 \<Rightarrow> u16 \<Rightarrow> u32" where
  "htt_tx_word1 len msdu_id = htt_set 16 (ucast msdu_id) (htt_set 0 len 0)"

definition htt_tx_desc_init :: "nat \<Rightarrow> u32 \<Rightarrow> u16 \<Rightarrow> tx_buf \<Rightarrow> htt_msdu_info \<Rightarrow> tx_pool \<Rightarrow> tx_pool option" where
  "htt_tx_desc_init hdesc paddr_lo msdu_id msdu mi s =
     (let n = tx_bufs s msdu;
          s1 = upd_htt hdesc (\<lambda>h. h\<lparr>hd_word0 := htt_tx_word0 mi, hd_word1 := htt_tx_word1 (adf_nbuf_len n) msdu_id,
                 hd_word3 := HTT_INVALID_PEER\<rparr>) s;
          n1 = adf_nbuf_set_frag_is_wordstream (adf_nbuf_get_num_frags n - 1) False n
      in map_option (\<lambda>n2. upd_buf msdu (\<lambda>_. adf_nbuf_set_frag_is_wordstream 0 True n2) s1)
           (adf_nbuf_frag_push_head \<lparr>fg_vaddr = hdesc, fg_paddr = paddr_lo, fg_len = HTT_TX_DESC_SIZE\<rparr> n1))"

definition htt_tx_desc_num_frags :: "nat \<Rightarrow> nat \<Rightarrow> tx_pool \<Rightarrow> tx_pool option" where
  "htt_tx_desc_num_frags hdesc num_frags s =
     map_option (\<lambda>ws. upd_htt hdesc (\<lambda>h. h\<lparr>hd_frags := ws\<rparr>) s) (store_at (hd_frags (htt_descs s hdesc)) (num_frags * 2) 0)"

definition htt_tx_desc_frag :: "nat \<Rightarrow> nat \<Rightarrow> u32 \<Rightarrow> u16 \<Rightarrow> tx_pool \<Rightarrow> tx_pool option" where
  "htt_tx_desc_frag hdesc frag_num paddr len s =
     Option.bind (store_at (hd_frags (htt_descs s hdesc)) (frag_num * 2) paddr) (\<lambda>ws.
     map_option (\<lambda>ws'. upd_htt hdesc (\<lambda>h. h\<lparr>hd_frags := ws'\<rparr>) s) (store_at ws (frag_num * 2 + 1) (ucast len)))"

text \<open>The fragments from number \<open>i\<close> on, \<open>n\<close> of them.\<close>

fun desc_frags :: "nat \<Rightarrow> nat \<Rightarrow> nat \<Rightarrow> tx_buf \<Rightarrow> tx_pool \<Rightarrow> tx_pool option" where
  "desc_frags 0 i hdesc msdu s = Some s"
| "desc_frags (Suc n) i hdesc msdu s =
     Option.bind (htt_tx_desc_frag hdesc (i - 1) (adf_nbuf_get_frag_paddr_lo (tx_bufs s msdu) i)
         (ucast (adf_nbuf_get_frag_len (tx_bufs s msdu) i)) s)
       (desc_frags n (Suc i) hdesc msdu)"

text \<open>The virtual device is its index, its id and its type.\<close>

record tx_vdev =
  tv_vdev :: nat
  tv_id :: u8

definition ADF_NBUF_EXEMPT_ALWAYS :: u8 where "ADF_NBUF_EXEMPT_ALWAYS = 1"

text \<open>An exemption type of none of the three values leaves the flag as the caller set it.\<close>

definition tx_do_encrypt :: "u8 \<Rightarrow> bool \<Rightarrow> bool" where
  "tx_do_encrypt exempt old =
     (if exempt = 0 \<or> exempt = 2 then True else if exempt = ADF_NBUF_EXEMPT_ALWAYS then False else old)"

text \<open>The caller's record is filled in place, so the next frame of a list finds it so.\<close>

definition tx_info :: "tx_vdev \<Rightarrow> tx_nbuf \<Rightarrow> htt_msdu_info \<Rightarrow> htt_msdu_info" where
  "tx_info vdev n mi = mi\<lparr>mi_vdev_id := tv_id vdev, mi_cksum_offload := tn_cksum n,
     mi_do_encrypt := tx_do_encrypt (tn_exempt n) (mi_do_encrypt mi)\<rparr>"

definition ol_tx_desc_ll :: "tx_vdev \<Rightarrow> tx_buf \<Rightarrow> htt_msdu_info \<Rightarrow> tx_pool \<Rightarrow> (desc_ptr option \<times> tx_pool) option" where
  "ol_tx_desc_ll vdev netbuf mi s =
     (let mi' = tx_info vdev (tx_bufs s netbuf) mi
      in case ol_tx_desc_alloc (tv_vdev vdev) (tv_id vdev) s of
           None \<Rightarrow> None
         | Some (None, s1) \<Rightarrow> Some (None, s1)
         | Some (Some d, s1) \<Rightarrow>
             (let s2 = upd_desc d (\<lambda>t. t\<lparr>td_first := First_netbuf netbuf, pkt_type := ol_tx_frm_std\<rparr>) s1;
                  t = desc_mem s2 d
              in Option.bind (htt_tx_desc_init (htt_tx_desc t) (htt_tx_desc_paddr t) (td_id t) netbuf mi' s2) (\<lambda>s3.
                 let num_frags = min CVG_NBUF_MAX_EXTRA_FRAGS (adf_nbuf_get_num_frags (tx_bufs s3 netbuf))
                 in Option.bind (htt_tx_desc_num_frags (htt_tx_desc t) (num_frags - 1) s3) (\<lambda>s4.
                      map_option (Pair (Some d)) (desc_frags (num_frags - 1) 1 (htt_tx_desc t) netbuf s4)))))"

section \<open>Giving descriptors back with their frames\<close>

text \<open>
  The loop over the local list of completed descriptors; the buffers become a list in the other order.
  The next element is read before the body.
\<close>

partial_function (option) frame_list_loop ::
    "(unit, desc_ptr) tailqs \<Rightarrow> desc_ptr option \<Rightarrow> tx_buf option \<Rightarrow> tx_pool \<Rightarrow> (tx_buf option \<times> tx_pool) option" where
  "frame_list_loop q p msdus s =
     (case p of
        None \<Rightarrow> Some (msdus, s)
      | Some d \<Rightarrow>
          (case desc_netbuf d s of
             None \<Rightarrow> None
           | Some b \<Rightarrow>
               (let s1 = upd_desc d (\<lambda>t. t\<lparr>ref_cnt := 0\<rparr>) s;
                    s2 = (if tn_ipa (tx_bufs s b) then s1 else adf_nbuf_unmap_single b s1)
                in frame_list_loop q (tqe_next q d) (Some b) (adf_nbuf_set_next b msdus (ol_tx_desc_free d s2)))))"

definition ol_tx_desc_frame_list_free :: "(unit, desc_ptr) tailqs \<Rightarrow> tx_pool \<Rightarrow> tx_pool option" where
  "ol_tx_desc_frame_list_free q s =
     Option.bind (frame_list_loop q (tqh_first q ()) None s) (\<lambda>(msdus, s'). adf_nbuf_tx_free msdus s')"

text \<open>The fragment table of a management frame was the frame itself; it is put back.\<close>

definition htt_tx_desc_frags_table_set :: "(nat \<Rightarrow> u32) \<Rightarrow> nat \<Rightarrow> u32 \<Rightarrow> bool \<Rightarrow> tx_pool \<Rightarrow> tx_pool" where
  "htt_tx_desc_frags_table_set table_paddr hdesc paddr reset =
     upd_htt hdesc (\<lambda>h. h\<lparr>hd_word2 := (if reset then table_paddr hdesc else paddr)\<rparr>)"

definition ol_tx_desc_frame_free_nonstd :: "(nat \<Rightarrow> u32) \<Rightarrow> desc_ptr \<Rightarrow> bool \<Rightarrow> tx_pool \<Rightarrow> tx_pool option" where
  "ol_tx_desc_frame_free_nonstd table_paddr d had_error s =
     (case desc_netbuf d s of
        None \<Rightarrow> None
      | Some b \<Rightarrow>
          (let s1 = upd_desc d (\<lambda>t. t\<lparr>ref_cnt := 0\<rparr>) s; ty = pkt_type (desc_mem s d)
           in if ty = ol_tx_frm_no_free \<and> data_cb s
              then (let s2 = adf_nbuf_set_next b None s1
                    in Some (ol_tx_desc_free d (s2\<lparr>tx_notices := tx_notices s2 @ [Data_done b had_error]\<rparr>)))
              else
                (let s2 = adf_nbuf_unmap_single b s1
                 in map_option (ol_tx_desc_free d)
                      (if ty \<noteq> ol_tx_frm_tso \<and> OL_TXRX_MGMT_TYPE_BASE \<le> ty \<and> ty \<noteq> ol_tx_frm_freed
                       then (let s3 = htt_tx_desc_frags_table_set table_paddr (htt_tx_desc (desc_mem s d)) 0 True s2;
                                 m = unat (ty - OL_TXRX_MGMT_TYPE_BASE)
                             in map_option (\<lambda>cb. tx_nbuf_free b
                                   (if cb then s3\<lparr>tx_notices := tx_notices s3 @ [Mgmt_done m b had_error]\<rparr> else s3))
                                  (load_at (ota_ack_cbs s) m))
                       else adf_nbuf_tx_free (Some b) (adf_nbuf_set_next b None s2)))))"

section \<open>Setting up\<close>

text \<open>The number of significant bits, the loop of the set-up.\<close>

partial_function (option) sig_bits :: "nat \<Rightarrow> nat \<Rightarrow> nat option" where
  "sig_bits n sig = (if n = 0 then Some sig else sig_bits (n div 2) (Suc sig))"

definition multi_pages :: "nat \<Rightarrow> nat \<Rightarrow> nat \<Rightarrow> nat \<times> nat" where
  "multi_pages page_size element_size element_num =
     (let per_page = page_size div element_size
      in (element_num div per_page + (if element_num mod per_page \<noteq> 0 then 1 else 0), per_page))"

text \<open>
  The descriptors from number \<open>i\<close> on are linked and numbered, \<open>n\<close> of them; \<open>c\<close> is the element the loop
  has got to, \<open>hts\<close> the target's descriptors it takes.
\<close>

fun pool_init_loop :: "nat \<Rightarrow> u16 \<Rightarrow> desc_ptr option \<Rightarrow> (nat \<times> u32) list \<Rightarrow> tx_pool \<Rightarrow> tx_pool option" where
  "pool_init_loop 0 i c hts s = Some s"
| "pool_init_loop (Suc n) i c hts s =
     (case (c, hts) of
        (Some d, (hdesc, paddr) # hts') \<Rightarrow>
          Option.bind (if i = pool_size s - 1 then Some None else map_option Some (ol_tx_desc_find (i + 1) s)) (\<lambda>nxt.
            pool_init_loop n (i + 1) nxt hts'
              (upd_desc d (\<lambda>t. t\<lparr>td_first := First_next nxt, htt_tx_desc := hdesc, htt_tx_desc_paddr := paddr,
                 td_id := i, ref_cnt := 0\<rparr>) s))
      | _ \<Rightarrow> None)"

definition tx_pool_attach :: "nat \<Rightarrow> nat \<Rightarrow> u16 \<Rightarrow> (nat \<times> u32) list \<Rightarrow> tx_pool \<Rightarrow> tx_pool option" where
  "tx_pool_attach page_size reserved_size desc_pool_size hts s =
     (let (pages, per_page) = multi_pages page_size reserved_size (unat desc_pool_size)
      in Option.bind (sig_bits per_page 0) (\<lambda>sig.
           let s1 = s\<lparr>num_pages := pages, num_element_per_page := per_page, offset_filter := of_nat per_page - 1,
                      page_divider := sig - 1, pool_size := desc_pool_size, freelist := Some (0, 0)\<rparr>
           in map_option (\<lambda>s2. s2\<lparr>num_free := desc_pool_size\<rparr>)
                (pool_init_loop (unat desc_pool_size) 0 (Some (0, 0)) hts s1)))"

end
