(* ===== verification/Tx_Send.thy ===== *)
theory Tx_Send
  imports Tx_Desc
begin

text \<open>
  Sending frames and their completions, low-latency build with compact transmit (\<open>ATH_11AC_TXCOMPACT\<close>):
  the entry \<open>ol_tx_ll\<close> of \<open>ol_tx.c\<close>, the queue and the scheduler of \<open>htt_tx.c\<close>, \<open>HTCSendDataPkt\<close> of
  \<open>htc_send.c\<close>, \<open>HIFSend_head\<close> of \<open>hif_pci.c\<close> with the reaping of \<open>copy_engine.c\<close>, and the completion
  handlers of \<open>ol_tx_send.c\<close>.  In this build the reference counts of descriptors are no-ops.  Traces,
  statistics, the power management of the bus and the flow control of the layers above are not modelled.
\<close>

section \<open>State\<close>

text \<open>
  The pool, the list links of its descriptors, the queue of frames the transport turned away, the end
  point of the transport and the pipe of the bus with its copy engine.
\<close>

record tx_pdev =
  tp :: tx_pool
  tx_links :: "(unit, desc_ptr) tailqs"
  q_head :: "tx_buf option"
  q_tail :: "tx_buf option"
  q_len :: u32
  download_len :: int
  ul_is_polled :: bool
  ep_id :: u32
  seq_no :: u8
  send_cb :: bool
  num_sends_allowed :: int
  tx_ce :: copy_engine

definition upd_tp :: "(tx_pool \<Rightarrow> tx_pool) \<Rightarrow> tx_pdev \<Rightarrow> tx_pdev" where
  "upd_tp f s = s\<lparr>tp := f (tp s)\<rparr>"

definition packet_len :: "tx_buf \<Rightarrow> tx_pdev \<Rightarrow> int" where
  "packet_len b s = sint (adf_nbuf_len (tx_bufs (tp s) b))"

section \<open>The queue of the host\<close>

definition adf_nbuf_queue_add :: "tx_buf \<Rightarrow> tx_pdev \<Rightarrow> tx_pdev option" where
  "adf_nbuf_queue_add b s =
     (let s1 = upd_tp (adf_nbuf_set_next b None) s
      in map_option (\<lambda>s2. s2\<lparr>q_tail := Some b, q_len := q_len s2 + 1\<rparr>)
           (case q_head s of
              None \<Rightarrow> Some (s1\<lparr>q_head := Some b\<rparr>)
            | Some _ \<Rightarrow> (case q_tail s of None \<Rightarrow> None | Some t \<Rightarrow> Some (upd_tp (adf_nbuf_set_next t (Some b)) s1))))"

definition adf_nbuf_queue_insert_head :: "tx_buf \<Rightarrow> tx_pdev \<Rightarrow> tx_pdev" where
  "adf_nbuf_queue_insert_head b s =
     (let s1 = (if q_head s = None then s\<lparr>q_tail := Some b\<rparr> else s)
      in (upd_tp (adf_nbuf_set_next b (q_head s)) s1)\<lparr>q_head := Some b, q_len := q_len s + 1\<rparr>)"

definition adf_nbuf_queue_remove :: "tx_pdev \<Rightarrow> tx_buf option \<times> tx_pdev" where
  "adf_nbuf_queue_remove s =
     (case q_head s of
        None \<Rightarrow> (None, s)
      | Some b \<Rightarrow>
          (let s1 = s\<lparr>q_len := q_len s - 1\<rparr>;
               s2 = (if q_head s = q_tail s then s1\<lparr>q_head := None, q_tail := None\<rparr>
                     else s1\<lparr>q_head := tn_next (tx_bufs (tp s) b)\<rparr>)
           in (Some b, upd_tp (adf_nbuf_set_next b None) s2)))"

section \<open>The bus\<close>

text \<open>
  The items of a frame that is sent up to a length: the last round brings the rest to 0 or below.  The
  list on the stack is not initialized beyond its counter.
\<close>

definition sendlist0 :: ce_sendlist where
  "sendlist0 = CE_sendlist_init \<lparr>num_items = 0, sl_item = replicate CE_SENDLIST_ITEMS_MAX \<lparr>item_data = 0, item_nbytes = 0, item_flags = 0\<rparr>\<rparr>"

partial_function (option) head_items :: "tx_nbuf \<Rightarrow> ce_sendlist \<Rightarrow> nat \<Rightarrow> int \<Rightarrow> (A_STATUS \<times> ce_sendlist \<times> nat) option" where
  "head_items n sl nfrags bytes =
     (let frag_bytes = sint (adf_nbuf_get_frag_len n nfrags)
      in case CE_sendlist_buf_add (adf_nbuf_get_frag_paddr_lo n nfrags)
             (word_of_int (if bytes < frag_bytes then bytes else frag_bytes))
             (if adf_nbuf_get_frag_is_wordstream n nfrags then 0 else CE_SEND_FLAG_SWAP_DISABLE) sl of
           None \<Rightarrow> None
         | Some (status, sl') \<Rightarrow>
             (if status \<noteq> A_OK then Some (status, sl', nfrags)
              else if 0 < bytes - frag_bytes then head_items n sl' (Suc nfrags) (bytes - frag_bytes)
              else Some (A_OK, sl', Suc nfrags)))"

text \<open>The context of the request is the frame itself, named by its address.\<close>

definition HIFSend_head :: "u32 \<Rightarrow> int \<Rightarrow> tx_buf \<Rightarrow> tx_pdev \<Rightarrow> (A_STATUS \<times> tx_pdev) option" where
  "HIFSend_head transfer_id nbytes nbuf s =
     (case head_items (tx_bufs (tp s) nbuf) sendlist0 0 nbytes of
        None \<Rightarrow> None
      | Some (status, sl, nfrags) \<Rightarrow>
          (if status \<noteq> A_OK then Some (status, s)
           else if num_sends_allowed s < int nfrags then Some (A_NO_RESOURCE, s)
           else map_option (\<lambda>(st, c). (st, s\<lparr>num_sends_allowed := num_sends_allowed s - int nfrags, tx_ce := c\<rparr>))
                  (CE_sendlist_send (of_nat nbuf) sl transfer_id (tx_ce s))))"

definition HIFGetFreeQueueNumber :: "tx_pdev \<Rightarrow> u16" where
  "HIFGetFreeQueueNumber s = word_of_int (num_sends_allowed s)"

text \<open>Reaping the sends the device is done with: on the pipe of the data path only their number counts.\<close>

partial_function (option) reap_loop :: "tx_pdev \<Rightarrow> tx_pdev option" where
  "reap_loop s =
     (case CE_completed_send_next_nolock (tx_ce s) of
        None \<Rightarrow> None
      | Some (None, c) \<Rightarrow> Some (s\<lparr>tx_ce := c\<rparr>)
      | Some (Some d, c) \<Rightarrow> reap_loop (s\<lparr>tx_ce := c, num_sends_allowed := num_sends_allowed s + 1\<rparr>))"

definition CE_per_engine_servicereap :: "tx_pdev \<Rightarrow> tx_pdev option" where
  "CE_per_engine_servicereap s = (if send_cb s then reap_loop s else Some s)"

definition HIFSendCompleteCheck :: "bool \<Rightarrow> u32 \<Rightarrow> tx_pdev \<Rightarrow> tx_pdev option" where
  "HIFSendCompleteCheck force src_nentries s =
     (if \<not> force \<and> drop_bit 1 (uint src_nentries) < uint (HIFGetFreeQueueNumber s) then Some s
      else CE_per_engine_servicereap s)"

section \<open>The transport\<close>

definition HTC_DATA_RESOURCE_THRS :: u16 where "HTC_DATA_RESOURCE_THRS = 256"
definition HTC_DATA_MINDESC_PERPACKET :: u16 where "HTC_DATA_MINDESC_PERPACKET = 2"

definition HTCSendDataPkt :: "u32 \<Rightarrow> tx_buf \<Rightarrow> int \<Rightarrow> tx_pdev \<Rightarrow> (A_STATUS \<times> tx_pdev) option" where
  "HTCSendDataPkt src_nentries netbuf actual_length s =
     (let scarce = HIFGetFreeQueueNumber s < HTC_DATA_RESOURCE_THRS
      in Option.bind (if scarce \<and> ul_is_polled s then HIFSendCompleteCheck True src_nentries s else Some s) (\<lambda>s1.
         if scarce \<and> HIFGetFreeQueueNumber s1 < HTC_DATA_MINDESC_PERPACKET then Some (A_ERROR, s1)
         else (case tn_frags (tx_bufs (tp s1) netbuf) of
                 [] \<Rightarrow> None
               | f # _ \<Rightarrow>
                   HIFSend_head (ep_id s1) actual_length netbuf
                     (upd_tp (upd_htt (fg_vaddr f) (\<lambda>h. h\<lparr>
                         hd_htc0 := (push_bit 16 (word_of_int actual_length) AND 0xffff0000) OR (ep_id s1 AND 0xff),
                         hd_htc1 := push_bit 8 (ucast (seq_no s1)) AND 0xff00\<rparr>))
                       (s1\<lparr>seq_no := seq_no s1 + 1\<rparr>)))))"

section \<open>The host's side of the target protocol\<close>

text \<open>The length that is downloaded is carried from one frame of the queue to the next.\<close>

partial_function (option) sched_loop :: "u32 \<Rightarrow> int \<Rightarrow> tx_buf option \<Rightarrow> tx_pdev \<Rightarrow> tx_pdev option" where
  "sched_loop src_nentries len msdu s =
     (case msdu of
        None \<Rightarrow> Some s
      | Some b \<Rightarrow>
          (let len' = (if packet_len b s < len then packet_len b s else len)
           in case HTCSendDataPkt src_nentries b len' s of
                None \<Rightarrow> None
              | Some (status, s1) \<Rightarrow>
                  (if status \<noteq> A_OK then Some (adf_nbuf_queue_insert_head b s1)
                   else sched_loop src_nentries len' (fst (adf_nbuf_queue_remove s1)) (snd (adf_nbuf_queue_remove s1)))))"

definition htt_tx_sched :: "u32 \<Rightarrow> tx_pdev \<Rightarrow> tx_pdev option" where
  "htt_tx_sched src_nentries s =
     sched_loop src_nentries (download_len s) (fst (adf_nbuf_queue_remove s)) (snd (adf_nbuf_queue_remove s))"

text \<open>The return value is always 0.\<close>

definition htt_tx_send_std :: "u32 \<Rightarrow> tx_buf \<Rightarrow> tx_pdev \<Rightarrow> (nat \<times> tx_pdev) option" where
  "htt_tx_send_std src_nentries msdu s =
     (let len = (if packet_len msdu s < download_len s then packet_len msdu s else download_len s)
      in map_option (Pair 0)
           (if 0 < q_len s then Option.bind (adf_nbuf_queue_add msdu s) (htt_tx_sched src_nentries)
            else Option.bind (HTCSendDataPkt src_nentries msdu len s)
                   (\<lambda>(status, s1). if status \<noteq> A_OK then adf_nbuf_queue_add msdu s1 else Some s1)))"

section \<open>The entry of the data path\<close>

definition on_tp :: "(tx_pool \<Rightarrow> tx_pool option) \<Rightarrow> tx_pdev \<Rightarrow> tx_pdev option" where
  "on_tp f s = map_option (\<lambda>p. s\<lparr>tp := p\<rparr>) (f (tp s))"

definition ol_tx_send :: "u32 \<Rightarrow> (nat \<Rightarrow> u32) \<Rightarrow> desc_ptr \<Rightarrow> tx_buf \<Rightarrow> tx_pdev \<Rightarrow> tx_pdev option" where
  "ol_tx_send src_nentries table_paddr d msdu s =
     Option.bind (htt_tx_send_std src_nentries msdu s)
       (\<lambda>(failed, s1). if failed \<noteq> 0 then on_tp (ol_tx_desc_frame_free_nonstd table_paddr d True) s1 else Some s1)"

text \<open>
  What the loop needs besides the frames: the size of the pipe, the addresses of the fragment tables,
  the device of the frames, and the outcome of mapping a frame for the bus with its address.
\<close>

record tx_env =
  te_nentries :: u32
  te_table :: "nat \<Rightarrow> u32"
  te_vdev :: tx_vdev
  te_map :: "tx_buf \<Rightarrow> bool \<times> u32"

text \<open>The first component is the list of frames that were not accepted.\<close>

partial_function (option) ol_tx_ll_loop ::
    "tx_env \<Rightarrow> htt_msdu_info \<Rightarrow> tx_buf option \<Rightarrow> tx_pdev \<Rightarrow> (tx_buf option \<times> tx_pdev) option" where
  "ol_tx_ll_loop e mi msdu s =
     (case msdu of
        None \<Rightarrow> Some (None, s)
      | Some b \<Rightarrow>
          (let n = tx_bufs (tp s) b;
               mi1 = mi\<lparr>mi_ext_tid := tn_tid n\<rparr>;
               (ok, p1) = (if tn_ipa n then (True, tp s) else adf_nbuf_map_single (fst (te_map e b)) (snd (te_map e b)) b (tp s))
           in if \<not> ok then map_option (\<lambda>p. (None, s\<lparr>tp := p\<rparr>)) (adf_nbuf_tx_free (Some b) p1)
              else case ol_tx_desc_ll (te_vdev e) b mi1 p1 of
                     None \<Rightarrow> None
                   | Some (None, p2) \<Rightarrow> Some (Some b, s\<lparr>tp := adf_nbuf_unmap_single b p2\<rparr>)
                   | Some (Some d, p2) \<Rightarrow>
                       (case ol_tx_send (te_nentries e) (te_table e) d b (s\<lparr>tp := p2\<rparr>) of
                          None \<Rightarrow> None
                        | Some s' \<Rightarrow> ol_tx_ll_loop e (tx_info (te_vdev e) (tx_bufs p1 b) mi1) (tn_next (tx_bufs p2 b)) s')))"

text \<open>The record starts with the packet type of the device; its other fields are as on the stack.\<close>

definition ol_tx_ll :: "tx_env \<Rightarrow> htt_msdu_info \<Rightarrow> bool \<Rightarrow> tx_buf option \<Rightarrow> tx_pdev \<Rightarrow> (tx_buf option \<times> tx_pdev) option" where
  "ol_tx_ll e mi adf_ctx msdu_list s = (if \<not> adf_ctx then Some (msdu_list, s) else ol_tx_ll_loop e mi msdu_list s)"

section \<open>Completions\<close>

definition htt_tx_status_ok :: u32 where "htt_tx_status_ok = 0"

text \<open>
  The loop over the ids of a message, from the \<open>i\<close>-th on, \<open>n\<close> of them; the local list is linked through
  the descriptors.  \<open>st\<close> is the status the descriptor records, when it does.
\<close>

fun completion_loop :: "(nat \<Rightarrow> u32) \<Rightarrow> u32 option \<Rightarrow> bool \<Rightarrow> u16 list \<Rightarrow> nat \<Rightarrow> nat \<Rightarrow> tx_pdev \<Rightarrow> tx_pdev option" where
  "completion_loop table st err ids 0 i s = Some s"
| "completion_loop table st err ids (Suc n) i s =
     Option.bind (load_at ids i) (\<lambda>did.
       if pool_size (tp s) \<le> did then completion_loop table st err ids n (Suc i) s
       else Option.bind (ol_tx_desc_find did (tp s)) (\<lambda>d.
         let p = (case st of None \<Rightarrow> tp s | Some status \<Rightarrow> upd_desc d (\<lambda>t. t\<lparr>tx_status := status\<rparr>) (tp s))
         in case desc_netbuf d p of
              None \<Rightarrow> None
            | Some b \<Rightarrow>
                (if pkt_type (desc_mem p d) = ol_tx_frm_std
                 then completion_loop table st err ids n (Suc i) (s\<lparr>tp := p, tx_links := TAILQ_INSERT_TAIL () d (tx_links s)\<rparr>)
                 else Option.bind (ol_tx_desc_frame_free_nonstd table d err p)
                        (\<lambda>p'. completion_loop table st err ids n (Suc i) (s\<lparr>tp := p'\<rparr>)))))"

definition completion_run :: "(nat \<Rightarrow> u32) \<Rightarrow> u32 option \<Rightarrow> bool \<Rightarrow> u16 list \<Rightarrow> nat \<Rightarrow> tx_pdev \<Rightarrow> tx_pdev option" where
  "completion_run table st err ids num_msdus s =
     Option.bind (completion_loop table st err ids num_msdus 0 (s\<lparr>tx_links := TAILQ_INIT () (tx_links s)\<rparr>))
       (\<lambda>s1. on_tp (ol_tx_desc_frame_list_free (tx_links s1)) s1)"

definition ol_tx_completion_handler :: "(nat \<Rightarrow> u32) \<Rightarrow> nat \<Rightarrow> u32 \<Rightarrow> u16 list \<Rightarrow> tx_pdev \<Rightarrow> tx_pdev option" where
  "ol_tx_completion_handler table num_msdus status desc_ids s =
     completion_run table (Some status) (status \<noteq> htt_tx_status_ok) desc_ids num_msdus s"

definition ol_tx_inspect_handler :: "(nat \<Rightarrow> u32) \<Rightarrow> nat \<Rightarrow> u16 list \<Rightarrow> tx_pdev \<Rightarrow> tx_pdev option" where
  "ol_tx_inspect_handler table num_msdus desc_ids s = completion_run table None False desc_ids num_msdus s"

definition ol_tx_single_completion_handler :: "(nat \<Rightarrow> u32) \<Rightarrow> u32 \<Rightarrow> u16 \<Rightarrow> tx_pdev \<Rightarrow> tx_pdev option" where
  "ol_tx_single_completion_handler table status tx_desc_id s =
     (case ol_tx_desc_find_check tx_desc_id (tp s) of
        None \<Rightarrow> None
      | Some None \<Rightarrow> Some s
      | Some (Some d) \<Rightarrow>
          (let p = upd_desc d (\<lambda>t. t\<lparr>tx_status := status\<rparr>) (tp s)
           in case desc_netbuf d p of
                None \<Rightarrow> None
              | Some b \<Rightarrow> map_option (\<lambda>p'. s\<lparr>tp := p'\<rparr>)
                  (ol_tx_desc_frame_free_nonstd table d (status \<noteq> htt_tx_status_ok) p)))"

text \<open>When the target has stopped: every descriptor whose count is not 0 is freed with its frame.\<close>

fun discard_loop :: "(nat \<Rightarrow> u32) \<Rightarrow> nat \<Rightarrow> nat \<Rightarrow> tx_pool \<Rightarrow> tx_pool option" where
  "discard_loop table 0 i s = Some s"
| "discard_loop table (Suc n) i s =
     Option.bind (ol_tx_desc_find (of_nat i) s) (\<lambda>d.
       Option.bind (if ref_cnt (desc_mem s d) \<noteq> 0 then ol_tx_desc_frame_free_nonstd table d True s else Some s)
         (discard_loop table n (Suc i)))"

definition ol_tx_discard_target_frms :: "(nat \<Rightarrow> u32) \<Rightarrow> tx_pdev \<Rightarrow> tx_pdev option" where
  "ol_tx_discard_target_frms table s = on_tp (discard_loop table (unat (pool_size (tp s))) 0) s"

section \<open>The target's messages\<close>

definition HTT_TX_COMPL_IND_STATUS_GET :: "u32 \<Rightarrow> u32" where "HTT_TX_COMPL_IND_STATUS_GET w = htt_field 0x00000700 8 w"
definition HTT_TX_COMPL_IND_NUM_GET :: "u32 \<Rightarrow> u32" where "HTT_TX_COMPL_IND_NUM_GET w = htt_field 0x00ff0000 16 w"
definition HTT_TX_COMPL_HEAD_SZ :: nat where "HTT_TX_COMPL_HEAD_SZ = 4"
definition HTT_TX_COMPL_BYTES_PER_MSDU_ID :: nat where "HTT_TX_COMPL_BYTES_PER_MSDU_ID = 2"
definition HTT_TX_COMPL_INV_MSDU_ID :: u16 where "HTT_TX_COMPL_INV_MSDU_ID = 0xffff"

text \<open>The half words of a message, on a little-endian host.\<close>

definition half_words :: "u32 list \<Rightarrow> u16 list" where
  "half_words ws = concat (map (\<lambda>w. [ucast w, ucast (drop_bit 16 w)]) ws)"

text \<open>The last id of an odd number of them may be in the place after its own.\<close>

definition compl_fixup :: "nat \<Rightarrow> u16 list \<Rightarrow> u16 list option" where
  "compl_fixup num_msdus ids =
     (if odd num_msdus
      then Option.bind (load_at ids num_msdus) (\<lambda>v.
             if v \<noteq> HTT_TX_COMPL_INV_MSDU_ID then store_at ids (num_msdus - 1) v else Some ids)
      else Some ids)"

definition tx_ids_run ::
    "(nat \<Rightarrow> u32 \<Rightarrow> u16 list \<Rightarrow> tx_pdev \<Rightarrow> tx_pdev option) \<Rightarrow> u32 \<Rightarrow> u32 list \<Rightarrow> nat \<Rightarrow> tx_pdev \<Rightarrow> tx_pdev option" where
  "tx_ids_run handler src_nentries msg msg_len s =
     Option.bind (load_at msg 0) (\<lambda>w0.
       let num_msdus = unat (HTT_TX_COMPL_IND_NUM_GET w0)
       in if msg_len < num_msdus * HTT_TX_COMPL_BYTES_PER_MSDU_ID + HTT_TX_COMPL_HEAD_SZ then Some s
          else Option.bind (compl_fixup num_msdus (half_words (drop 1 msg))) (\<lambda>ids.
                 Option.bind (handler num_msdus (HTT_TX_COMPL_IND_STATUS_GET w0) ids s) (htt_tx_sched src_nentries)))"

definition t2h_tx_compl_ind :: "(nat \<Rightarrow> u32) \<Rightarrow> u32 \<Rightarrow> u32 list \<Rightarrow> nat \<Rightarrow> tx_pdev \<Rightarrow> tx_pdev option" where
  "t2h_tx_compl_ind table = tx_ids_run (ol_tx_completion_handler table)"

definition t2h_tx_inspect_ind :: "(nat \<Rightarrow> u32) \<Rightarrow> u32 \<Rightarrow> u32 list \<Rightarrow> nat \<Rightarrow> tx_pdev \<Rightarrow> tx_pdev option" where
  "t2h_tx_inspect_ind table = tx_ids_run (\<lambda>n _. ol_tx_inspect_handler table n)"

text \<open>The length of this message is not checked, and its id is cut to 16 bits.\<close>

definition t2h_mgmt_tx_compl_ind :: "(nat \<Rightarrow> u32) \<Rightarrow> u32 \<Rightarrow> u32 list \<Rightarrow> tx_pdev \<Rightarrow> tx_pdev option" where
  "t2h_mgmt_tx_compl_ind table src_nentries msg s =
     Option.bind (load_at msg 1) (\<lambda>desc_id.
       Option.bind (load_at msg 2) (\<lambda>status.
         Option.bind (ol_tx_single_completion_handler table status (ucast desc_id) s) (htt_tx_sched src_nentries)))"

end
