(* ===== verification/Tx_Desc_Props.thy ===== *)
theory Tx_Desc_Props
  imports Tx_Desc Ring_Count
begin

text \<open>
  The pool of transmit descriptors: every descriptor is either on the free list or carries one frame, and
  its first word says which.  The pages make no difference: descriptor number \<open>i\<close> is the \<open>i\<close>-th.
\<close>

section \<open>Pages\<close>

definition dptr :: "nat \<Rightarrow> nat \<Rightarrow> desc_ptr" where
  "dptr k i = (i div 2 ^ k, i mod 2 ^ k)"

lemma dptr_inject [simp]: "dptr k i = dptr k j \<longleftrightarrow> i = j"
  by (auto simp: dptr_def) (metis div_mult_mod_eq)

lemma dptr_image [simp]: "dptr k i \<in> dptr k ` A \<longleftrightarrow> i \<in> A"
  by auto

definition pool_geom :: "nat \<Rightarrow> tx_pool \<Rightarrow> bool" where
  "pool_geom k s \<longleftrightarrow> num_element_per_page s = 2 ^ k \<and> page_divider s = k \<and>
     unat (offset_filter s) = 2 ^ k - Suc 0 \<and> unat (pool_size s) \<le> num_pages s * 2 ^ k"

lemma desc_find:
  assumes "pool_geom k s" and "unat i < unat (pool_size s)"
  shows "ol_tx_desc_find i s = Some (dptr k (unat i))"
proof -
  have "take_bit 16 (unat i) = unat i" using unsigned_less [of i, where ?'a = nat] by (simp add: take_bit_nat_eq_self)
  then have "unat (drop_bit k i) = unat i div 2 ^ k" by (simp flip: drop_bit_eq_div add: unsigned_drop_bit_eq)
  moreover have "unat ((ucast i :: u32) AND offset_filter s) = unat i mod 2 ^ k"
    using assms(1) by (simp add: unat_and_mask pool_geom_def)
  moreover have "unat i div 2 ^ k < num_pages s"
    using assms by (intro less_mult_imp_div_less) (auto simp: pool_geom_def)
  ultimately show ?thesis using assms(1) by (simp add: ol_tx_desc_find_def dptr_def pool_geom_def Let_def)
qed

section \<open>The representation\<close>

definition free_next :: "tx_pool \<Rightarrow> desc_ptr \<Rightarrow> desc_ptr option" where
  "free_next s d = (case td_first (desc_mem s d) of First_next n \<Rightarrow> n | First_netbuf _ \<Rightarrow> None)"

text \<open>\<open>fl\<close> are the free descriptors in the order of the list, \<open>us\<close> the frames of the others.\<close>

definition pool_rep :: "nat \<Rightarrow> tx_pool \<Rightarrow> nat list \<Rightarrow> (nat \<rightharpoonup> tx_buf) \<Rightarrow> bool" where
  "pool_rep k s fl us \<longleftrightarrow> pool_geom k s \<and> distinct fl \<and> set fl \<inter> dom us = {} \<and>
     set fl \<union> dom us = {..< unat (pool_size s)} \<and> unat (num_free s) = length fl \<and>
     lseg (free_next s) (freelist s) (map (dptr k) fl) None \<and>
     (\<forall>i \<in> set fl. \<exists>n. td_first (desc_mem s (dptr k i)) = First_next n) \<and>
     (\<forall>i b. us i = Some b \<longrightarrow> td_first (desc_mem s (dptr k i)) = First_netbuf b) \<and>
     (\<forall>i < unat (pool_size s). unat (td_id (desc_mem s (dptr k i))) = i) \<and>
     (\<forall>i < unat (pool_size s). length (hd_frags (htt_descs s (htt_tx_desc (desc_mem s (dptr k i))))) = 5)"

text \<open>What no operation on single descriptors changes.\<close>

lemma pool_rep_length: "pool_rep k s fl us \<Longrightarrow> length fl \<le> unat (pool_size s)"
proof -
  assume rep: "pool_rep k s fl us"
  have "length fl = card (set fl)" using rep by (simp add: pool_rep_def distinct_card)
  also have "\<dots> \<le> card {..< unat (pool_size s)}" using rep by (intro card_mono) (auto simp: pool_rep_def)
  finally show ?thesis by simp
qed

lemma pool_rep_use: "pool_rep k s fl us \<Longrightarrow> us i = Some b \<Longrightarrow> desc_netbuf (dptr k i) s = Some b \<and> i < unat (pool_size s) \<and> i \<notin> set fl"
  by (auto simp: pool_rep_def desc_netbuf_def dest!: equalityD1)

lemma pool_rep_cong:
  assumes "pool_rep k s fl us"
    and "\<And>i. i < unat (pool_size s) \<Longrightarrow> td_first (desc_mem t (dptr k i)) = td_first (desc_mem s (dptr k i)) \<and>
      td_id (desc_mem t (dptr k i)) = td_id (desc_mem s (dptr k i)) \<and>
      length (hd_frags (htt_descs t (htt_tx_desc (desc_mem t (dptr k i))))) =
      length (hd_frags (htt_descs s (htt_tx_desc (desc_mem s (dptr k i)))))"
    and "num_pages t = num_pages s" "num_element_per_page t = num_element_per_page s" "page_divider t = page_divider s"
      "offset_filter t = offset_filter s" "pool_size t = pool_size s" "num_free t = num_free s" "freelist t = freelist s"
  shows "pool_rep k t fl us"
proof -
  have fl: "i < unat (pool_size s)" if "i \<in> set fl \<or> us i \<noteq> None" for i using assms(1) that by (auto simp: pool_rep_def)
  have "lseg (free_next t) (freelist t) (map (dptr k) fl) None = lseg (free_next s) (freelist s) (map (dptr k) fl) None"
    unfolding assms(9) using fl assms(2) by (intro lseg_cong) (auto simp: free_next_def)
  then show ?thesis using assms fl by (simp add: pool_rep_def pool_geom_def)
qed

text \<open>Descriptors that carry a frame later did so before, and are of the kind they were; counts are kept or cleared.\<close>

definition kinds_kept :: "tx_pool \<Rightarrow> tx_pool \<Rightarrow> bool" where
  "kinds_kept p q \<longleftrightarrow> (\<forall>d b. td_first (desc_mem q d) = First_netbuf b \<longrightarrow>
     td_first (desc_mem p d) = First_netbuf b \<and> pkt_type (desc_mem q d) = pkt_type (desc_mem p d)) \<and>
     (\<forall>d. ref_cnt (desc_mem q d) = ref_cnt (desc_mem p d) \<or> ref_cnt (desc_mem q d) = 0)"

lemma kinds_kept_refl [simp]: "kinds_kept p p"
  by (simp add: kinds_kept_def)

lemma kinds_kept_trans: "kinds_kept p q \<Longrightarrow> kinds_kept q r \<Longrightarrow> kinds_kept p r"
  unfolding kinds_kept_def by metis

lemma kinds_kept_mem: "kinds_kept p q \<Longrightarrow> desc_mem r = desc_mem q \<Longrightarrow> kinds_kept p r"
  by (simp add: kinds_kept_def)

section \<open>Giving a descriptor back\<close>

lemma pool_rep_free:
  assumes rep: "pool_rep k s fl us" and us: "us i = Some b"
  shows "pool_rep k (ol_tx_desc_free (dptr k i) s) (i # fl) (us(i := None))"
proof -
  let ?t = "ol_tx_desc_free (dptr k i) s"
  have i: "i < unat (pool_size s)" "i \<notin> set fl" using pool_rep_use [OF rep us] by auto
  have "length fl < unat (pool_size s)"
  proof -
    have "length (i # fl) = card (set (i # fl))" using rep i by (simp add: pool_rep_def distinct_card)
    also have "\<dots> \<le> card {..< unat (pool_size s)}" using rep i by (intro card_mono) (auto simp: pool_rep_def)
    finally show ?thesis by simp
  qed
  then have nf: "unat (num_free s + 1) = Suc (length fl)"
    using rep unat_Suc_no_wrap [of "num_free s" "pool_size s"] by (simp add: pool_rep_def word_less_nat_alt)
  have mem: "desc_mem ?t = (desc_mem s)(dptr k i := (desc_mem s (dptr k i))\<lparr>td_first := First_next (freelist s)\<rparr>)"
    and rest: "num_pages ?t = num_pages s" "num_element_per_page ?t = num_element_per_page s" "page_divider ?t = page_divider s"
      "offset_filter ?t = offset_filter s" "pool_size ?t = pool_size s" "num_free ?t = num_free s + 1"
      "freelist ?t = Some (dptr k i)" "htt_descs ?t = htt_descs s"
    by (simp_all add: ol_tx_desc_free_def upd_desc_def)
  have "free_next ?t = (free_next s)(dptr k i := freelist s)" by (auto simp: free_next_def mem)
  then have "lseg (free_next ?t) (freelist ?t) (map (dptr k) (i # fl)) None"
    using rep i by (auto simp: rest pool_rep_def lseg_frame)
  moreover have "set (i # fl) \<inter> dom (us(i := None)) = {}" "set (i # fl) \<union> dom (us(i := None)) = {..< unat (pool_size s)}"
    using rep us i by (auto simp: pool_rep_def)
  moreover have "distinct (i # fl)" using rep i by (auto simp: pool_rep_def)
  moreover have "pool_geom k ?t" using rep by (simp add: pool_rep_def pool_geom_def rest)
  ultimately show ?thesis using rep nf by (simp add: pool_rep_def rest mem)
qed

section \<open>Taking a descriptor\<close>

lemma frags_words: "length (ws :: u32 list) = 5 \<Longrightarrow> hd_frags h = ws \<Longrightarrow> n \<le> 1 \<Longrightarrow>
    store_at (hd_frags h) (n * 2) v = Some (ws[n * 2 := v])"
  by (simp add: store_at_def)

text \<open>What a new descriptor's frame and words become.\<close>

definition tx_prefixed :: "tx_desc \<Rightarrow> tx_nbuf \<Rightarrow> tx_nbuf" where
  "tx_prefixed t n = n\<lparr>tn_frags := [\<lparr>fg_vaddr = htt_tx_desc t, fg_paddr = htt_tx_desc_paddr t, fg_len = HTT_TX_DESC_SIZE\<rparr>],
     tn_wordstream := set_bit 0 (unset_bit 2 (tn_wordstream n))\<rparr>"

definition tx_words :: "tx_vdev \<Rightarrow> tx_desc \<Rightarrow> tx_nbuf \<Rightarrow> htt_msdu_info \<Rightarrow> htt_host_desc \<Rightarrow> htt_host_desc" where
  "tx_words vdev t n mi h = h\<lparr>hd_word0 := htt_tx_word0 (tx_info vdev n mi), hd_word1 := htt_tx_word1 (tn_len n) (td_id t),
     hd_word3 := HTT_INVALID_PEER, hd_frags := (hd_frags h)[2 := 0, 0 := tn_paddr n, 1 := ucast (ucast (tn_len n) :: u16)]\<rparr>"

definition tx_taken :: "tx_vdev \<Rightarrow> tx_buf \<Rightarrow> htt_msdu_info \<Rightarrow> desc_ptr \<Rightarrow> tx_pool \<Rightarrow> tx_pool" where
  "tx_taken vdev b mi d s =
     (let t = desc_mem s d; n = tx_bufs s b
      in s\<lparr>num_free := num_free s - 1, freelist := free_next s d,
           desc_mem := (desc_mem s)(d := t\<lparr>td_vdev := Some (tv_vdev vdev), td_vdev_id := tv_id vdev,
             td_first := First_netbuf b, pkt_type := ol_tx_frm_std\<rparr>),
           tx_bufs := (tx_bufs s)(b := tx_prefixed t n),
           htt_descs := (htt_descs s)(htt_tx_desc t := tx_words vdev t n mi (htt_descs s (htt_tx_desc t)))\<rparr>)"

lemma desc_ll_none:
  "pool_rep k s [] us \<Longrightarrow> ol_tx_desc_ll vdev b mi s = Some (None, s)"
  by (simp add: ol_tx_desc_ll_def ol_tx_desc_alloc_def pool_rep_def Let_def)

lemma desc_ll_eq:
  assumes rep: "pool_rep k s (i # fl) us" and b: "tn_frags (tx_bufs s b) = []"
  shows "ol_tx_desc_ll vdev b mi s = Some (Some (dptr k i), tx_taken vdev b mi (dptr k i) s)"
proof -
  let ?t = "desc_mem s (dptr k i)"
  have i: "i < unat (pool_size s)" using rep by (auto simp: pool_rep_def)
  have len: "length (hd_frags (htt_descs s (htt_tx_desc ?t))) = 5" using rep i by (simp add: pool_rep_def)
  obtain n where n: "td_first ?t = First_next n" using rep by (auto simp: pool_rep_def)
  have fl: "freelist s = Some (dptr k i)" using rep by (simp add: pool_rep_def)
  have alloc: "ol_tx_desc_alloc (tv_vdev vdev) (tv_id vdev) s = Some (Some (dptr k i),
      upd_desc (dptr k i) (\<lambda>t. t\<lparr>td_vdev := Some (tv_vdev vdev), td_vdev_id := tv_id vdev\<rparr>)
        (s\<lparr>num_free := num_free s - 1, freelist := n\<rparr>))"
    by (simp add: ol_tx_desc_alloc_def fl n)
  have nf: "free_next s (dptr k i) = n" by (simp add: free_next_def n)
  show ?thesis
    unfolding ol_tx_desc_ll_def Let_def alloc option.case prod.case
    by (simp add: htt_tx_desc_init_def upd_desc_def upd_htt_def upd_buf_def b len Let_def tx_taken_def nf
        adf_nbuf_frag_push_head_def adf_nbuf_set_frag_is_wordstream_def CVG_NBUF_MAX_EXTRA_FRAGS_def
        adf_nbuf_get_num_frags_def adf_nbuf_get_frag_paddr_lo_def adf_nbuf_get_frag_len_def htt_tx_desc_num_frags_def
        htt_tx_desc_frag_def tx_prefixed_def tx_words_def tx_info_def adf_nbuf_len_def)
qed

lemma pool_rep_take:
  assumes rep: "pool_rep k s (i # fl) us" and b: "tn_frags (tx_bufs s b) = []"
  shows "pool_rep k (tx_taken vdev b mi (dptr k i) s) fl (us(i \<mapsto> b))"
proof -
  let ?t = "tx_taken vdev b mi (dptr k i) s"
  have i: "i < unat (pool_size s)" "i \<notin> set fl" "us i = None" using rep by (auto simp: pool_rep_def)
  have nf: "unat (num_free s - 1) = length fl"
    using rep unat_minus_one [of "num_free s"] by (auto simp: pool_rep_def simp flip: unat_zero_iff)
  have mem: "desc_mem ?t j = (if j = dptr k i then (desc_mem s j)\<lparr>td_vdev := Some (tv_vdev vdev), td_vdev_id := tv_id vdev,
        td_first := First_netbuf b, pkt_type := ol_tx_frm_std\<rparr> else desc_mem s j)"
    and words: "length (hd_frags (htt_descs ?t h)) = length (hd_frags (htt_descs s h))" for j h
    by (auto simp: tx_taken_def tx_words_def Let_def)
  have rest: "num_pages ?t = num_pages s" "num_element_per_page ?t = num_element_per_page s" "page_divider ?t = page_divider s"
      "offset_filter ?t = offset_filter s" "pool_size ?t = pool_size s" "num_free ?t = num_free s - 1"
      "freelist ?t = free_next s (dptr k i)"
    by (simp_all add: tx_taken_def Let_def)
  have "lseg (free_next ?t) (freelist ?t) (map (dptr k) fl) None = lseg (free_next s) (freelist ?t) (map (dptr k) fl) None"
    using i by (intro lseg_cong) (auto simp: free_next_def mem)
  then have "lseg (free_next ?t) (freelist ?t) (map (dptr k) fl) None" using rep by (simp add: pool_rep_def rest)
  moreover have "set fl \<inter> dom (us(i \<mapsto> b)) = {}" "set fl \<union> dom (us(i \<mapsto> b)) = {..< unat (pool_size s)}"
    using rep i by (auto simp: pool_rep_def)
  moreover have "pool_geom k ?t" using rep by (simp add: pool_rep_def pool_geom_def rest)
  ultimately show ?thesis using rep nf i by (auto simp: pool_rep_def rest mem words)
qed

section \<open>Batches\<close>

lemma tx_free_list:
  "lseg (\<lambda>b. tn_next (tx_bufs s b)) p bs None \<Longrightarrow> adf_nbuf_tx_free p s = Some (s\<lparr>tx_freed := tx_freed s @ bs\<rparr>)"
proof (induction bs arbitrary: p s)
  case Nil
  then show ?case by (subst adf_nbuf_tx_free.simps) simp
next
  case (Cons b bs)
  have "lseg (\<lambda>b'. tn_next (tx_bufs (tx_nbuf_free b s) b')) (tn_next (tx_bufs s b)) bs None"
    using Cons.prems by (simp add: tx_nbuf_free_def)
  from Cons.IH [OF this] Cons.prems show ?case
    by (subst adf_nbuf_tx_free.simps) (simp add: tx_nbuf_free_def)
qed

text \<open>One round of the loop over the completed descriptors.\<close>

definition batch_one :: "nat \<Rightarrow> nat \<Rightarrow> tx_buf \<Rightarrow> tx_buf option \<Rightarrow> tx_pool \<Rightarrow> tx_pool" where
  "batch_one k i b msdus s =
     (let s1 = upd_desc (dptr k i) (\<lambda>t. t\<lparr>ref_cnt := 0\<rparr>) s;
          s2 = (if tn_ipa (tx_bufs s b) then s1 else adf_nbuf_unmap_single b s1)
      in adf_nbuf_set_next b msdus (ol_tx_desc_free (dptr k i) s2))"

lemma batch_one_fields:
  "tx_bufs (batch_one k i b m s) = (tx_bufs s)(b := (tx_bufs s b)\<lparr>tn_next := m\<rparr>)"
  "tx_freed (batch_one k i b m s) = tx_freed s" "tx_notices (batch_one k i b m s) = tx_notices s"
  "dma_maps (batch_one k i b m s) = (dma_maps s)(b := dma_maps s b - (if tn_ipa (tx_bufs s b) then 0 else 1))"
  "pool_size (batch_one k i b m s) = pool_size s" "htt_descs (batch_one k i b m s) = htt_descs s"
  "data_cb (batch_one k i b m s) = data_cb s" "ota_ack_cbs (batch_one k i b m s) = ota_ack_cbs s"
  by (auto simp: batch_one_def Let_def upd_desc_def adf_nbuf_unmap_single_def adf_nbuf_set_next_def ol_tx_desc_free_def upd_buf_def)

lemma batch_one_kinds: "kinds_kept s (batch_one k i b m s)"
  by (auto simp: kinds_kept_def batch_one_def Let_def upd_desc_def adf_nbuf_unmap_single_def adf_nbuf_set_next_def ol_tx_desc_free_def
      upd_buf_def split: if_splits)

lemma pool_rep_batch_one:
  assumes "pool_rep k s fl us" and "us i = Some b"
  shows "pool_rep k (batch_one k i b m s) (i # fl) (us(i := None))"
proof -
  let ?s2 = "if tn_ipa (tx_bufs s b) then upd_desc (dptr k i) (\<lambda>t. t\<lparr>ref_cnt := 0\<rparr>) s
      else adf_nbuf_unmap_single b (upd_desc (dptr k i) (\<lambda>t. t\<lparr>ref_cnt := 0\<rparr>) s)"
  have "pool_rep k ?s2 fl us"
    using assms(1) by (rule pool_rep_cong) (auto simp: upd_desc_def adf_nbuf_unmap_single_def)
  from pool_rep_free [OF this assms(2)] have "pool_rep k (ol_tx_desc_free (dptr k i) ?s2) (i # fl) (us(i := None))" .
  then show ?thesis unfolding batch_one_def Let_def
    by (rule pool_rep_cong) (auto simp: adf_nbuf_set_next_def upd_buf_def)
qed

lemma frame_list_loop_rep:
  assumes "pool_rep k s fl us" and "lseg (tqe_next q) p (map (dptr k) ns) None" and "distinct ns"
    and "\<forall>i \<in> set ns. us i \<noteq> None" and "inj_on us (set ns)"
    and "lseg (\<lambda>b. tn_next (tx_bufs s b)) m ms None" and "\<forall>i \<in> set ns. \<forall>b. us i = Some b \<longrightarrow> b \<notin> set ms"
  shows "\<exists>m' s'. frame_list_loop q p m s = Some (m', s') \<and> pool_rep k s' (rev ns @ fl) (us |` (- set ns)) \<and>
    lseg (\<lambda>b. tn_next (tx_bufs s' b)) m' (rev (map (the \<circ> us) ns) @ ms) None \<and>
    tx_freed s' = tx_freed s \<and> tx_notices s' = tx_notices s \<and> pool_size s' = pool_size s \<and> htt_descs s' = htt_descs s \<and>
    data_cb s' = data_cb s \<and> ota_ack_cbs s' = ota_ack_cbs s \<and>
    (\<forall>b. dma_maps s' b = dma_maps s b - (if Some b \<in> us ` set ns \<and> \<not> tn_ipa (tx_bufs s b) then 1 else 0)) \<and>
    (\<forall>b. \<exists>n. tx_bufs s' b = (tx_bufs s b)\<lparr>tn_next := n\<rparr>) \<and>
    (\<forall>b. Some b \<notin> us ` set ns \<longrightarrow> tx_bufs s' b = tx_bufs s b) \<and> kinds_kept s s'"
  using assms
proof (induction ns arbitrary: s fl us p m ms)
  case Nil
  have "\<exists>n. tx_bufs s b = (tx_bufs s b)\<lparr>tn_next := n\<rparr>" for b by (rule exI [of _ "tn_next (tx_bufs s b)"]) simp
  with Nil show ?case by (subst frame_list_loop.simps) (simp add: restrict_map_def)
next
  case (Cons i ns)
  obtain b where b: "us i = Some b" using Cons.prems(4) by auto
  let ?s = "batch_one k i b m s" and ?us = "us(i := None)"
  have p: "p = Some (dptr k i)" and seg: "lseg (tqe_next q) (tqe_next q (dptr k i)) (map (dptr k) ns) None"
    using Cons.prems(2) by auto
  have i: "i \<notin> set ns" "distinct ns" using Cons.prems(3) by auto
  have bm: "b \<notin> set ms" using Cons.prems(7) b by simp
  have other: "us j \<noteq> Some b" if "j \<in> set ns" for j
    using inj_onD [OF Cons.prems(5), of i j] that i b by auto
  have step: "frame_list_loop q p m s = frame_list_loop q (tqe_next q (dptr k i)) (Some b) ?s"
    using pool_rep_use [OF Cons.prems(1) b] by (subst frame_list_loop.simps) (simp add: p batch_one_def Let_def)
  have "lseg (\<lambda>b. tn_next (tx_bufs ?s b)) m ms None = lseg (\<lambda>b. tn_next (tx_bufs s b)) m ms None"
    using bm by (intro lseg_cong) (auto simp: batch_one_fields)
  then have ms: "lseg (\<lambda>b. tn_next (tx_bufs ?s b)) (Some b) (b # ms) None"
    using Cons.prems(6) by (simp add: batch_one_fields)
  have us: "\<forall>j \<in> set ns. ?us j \<noteq> None" using Cons.prems(4) i by auto
  have inj: "inj_on ?us (set ns)" using Cons.prems(5) i by (auto simp: inj_on_def)
  have new: "\<forall>j \<in> set ns. \<forall>c. ?us j = Some c \<longrightarrow> c \<notin> set (b # ms)"
    using Cons.prems(7) other i by auto
  obtain m' s' where s': "frame_list_loop q (tqe_next q (dptr k i)) (Some b) ?s = Some (m', s')"
      "pool_rep k s' (rev ns @ i # fl) (?us |` (- set ns))"
      "lseg (\<lambda>b. tn_next (tx_bufs s' b)) m' (rev (map (the \<circ> ?us) ns) @ b # ms) None"
      "tx_freed s' = tx_freed ?s" "tx_notices s' = tx_notices ?s" "pool_size s' = pool_size ?s" "htt_descs s' = htt_descs ?s"
      "data_cb s' = data_cb ?s" "ota_ack_cbs s' = ota_ack_cbs ?s"
      "\<forall>c. dma_maps s' c = dma_maps ?s c - (if Some c \<in> ?us ` set ns \<and> \<not> tn_ipa (tx_bufs ?s c) then 1 else 0)"
      "\<forall>c. \<exists>n. tx_bufs s' c = (tx_bufs ?s c)\<lparr>tn_next := n\<rparr>" "\<forall>c. Some c \<notin> ?us ` set ns \<longrightarrow> tx_bufs s' c = tx_bufs ?s c"
      "kinds_kept ?s s'"
    using Cons.IH [OF pool_rep_batch_one [OF Cons.prems(1) b] seg i(2) us inj ms new] by blast
  have im: "Some c \<in> ?us ` set ns \<longleftrightarrow> Some c \<in> us ` set ns" for c using i by force
  have split: "Some c \<in> us ` set (i # ns) \<longleftrightarrow> c = b \<or> Some c \<in> us ` set ns" for c using b by auto
  have nb: "Some b \<notin> us ` set ns" using other by (metis imageE)
  have dom: "?us |` (- set ns) = us |` (- set (i # ns))" by (auto simp: restrict_map_def fun_eq_iff)
  have mp: "map (the \<circ> ?us) ns = map (the \<circ> us) ns" using i by auto
  have ipa: "tn_ipa (tx_bufs ?s c) = tn_ipa (tx_bufs s c)" for c by (simp add: batch_one_fields)
  have "\<exists>n. tx_bufs s' c = (tx_bufs s c)\<lparr>tn_next := n\<rparr>" for c
  proof -
    obtain n where "tx_bufs s' c = (tx_bufs ?s c)\<lparr>tn_next := n\<rparr>" using s'(11) by blast
    then show ?thesis by (intro exI [of _ n]) (auto simp: batch_one_fields)
  qed
  moreover have "dma_maps s' c = dma_maps s c - (if Some c \<in> us ` set (i # ns) \<and> \<not> tn_ipa (tx_bufs s c) then 1 else 0)" for c
    using spec [OF s'(10), of c] nb unfolding im split ipa by (auto simp: batch_one_fields)
  moreover have "tx_bufs s' c = tx_bufs s c" if "Some c \<notin> us ` set (i # ns)" for c
    using s'(12) that unfolding im split by (auto simp: batch_one_fields)
  moreover have "lseg (\<lambda>b. tn_next (tx_bufs s' b)) m' (rev (map (the \<circ> us) (i # ns)) @ ms) None"
    using s'(3) unfolding mp by (simp add: b)
  moreover have "pool_rep k s' (rev (i # ns) @ fl) (us |` (- set (i # ns)))" using s'(2) unfolding dom by simp
  moreover have "kinds_kept s s'" by (rule kinds_kept_trans [OF batch_one_kinds s'(13)])
  ultimately show ?case using s'(1,4-9) unfolding step batch_one_fields by blast
qed

lemma frame_list_free_rep:
  assumes rep: "pool_rep k s fl us" and q: "lseg (tqe_next q) (tqh_first q ()) (map (dptr k) ns) None" and "distinct ns"
    and use: "\<forall>i \<in> set ns. us i \<noteq> None" and inj: "inj_on us (set ns)"
  shows "\<exists>s'. ol_tx_desc_frame_list_free q s = Some s' \<and> pool_rep k s' (rev ns @ fl) (us |` (- set ns)) \<and>
    tx_freed s' = tx_freed s @ rev (map (the \<circ> us) ns) \<and> tx_notices s' = tx_notices s \<and> pool_size s' = pool_size s \<and>
    htt_descs s' = htt_descs s \<and> data_cb s' = data_cb s \<and> ota_ack_cbs s' = ota_ack_cbs s \<and>
    (\<forall>b. dma_maps s' b = dma_maps s b - (if Some b \<in> us ` set ns \<and> \<not> tn_ipa (tx_bufs s b) then 1 else 0)) \<and>
    (\<forall>b. \<exists>n. tx_bufs s' b = (tx_bufs s b)\<lparr>tn_next := n\<rparr>) \<and>
    (\<forall>b. Some b \<notin> us ` set ns \<longrightarrow> tx_bufs s' b = tx_bufs s b) \<and> kinds_kept s s'"
proof -
  obtain m t where t: "frame_list_loop q (tqh_first q ()) None s = Some (m, t)" "pool_rep k t (rev ns @ fl) (us |` (- set ns))"
      "lseg (\<lambda>b. tn_next (tx_bufs t b)) m (rev (map (the \<circ> us) ns) @ []) None"
    and rest: "tx_freed t = tx_freed s" "tx_notices t = tx_notices s" "pool_size t = pool_size s" "htt_descs t = htt_descs s"
      "data_cb t = data_cb s" "ota_ack_cbs t = ota_ack_cbs s"
      "\<forall>b. dma_maps t b = dma_maps s b - (if Some b \<in> us ` set ns \<and> \<not> tn_ipa (tx_bufs s b) then 1 else 0)"
      "\<forall>b. \<exists>n. tx_bufs t b = (tx_bufs s b)\<lparr>tn_next := n\<rparr>" "\<forall>b. Some b \<notin> us ` set ns \<longrightarrow> tx_bufs t b = tx_bufs s b"
      "kinds_kept s t"
    using frame_list_loop_rep [OF assms, of None "[]"] by auto
  have "adf_nbuf_tx_free m t = Some (t\<lparr>tx_freed := tx_freed t @ rev (map (the \<circ> us) ns)\<rparr>)"
    using t(3) by (intro tx_free_list) simp
  moreover have "pool_rep k (t\<lparr>tx_freed := x\<rparr>) (rev ns @ fl) (us |` (- set ns))" for x
    using t(2) by (rule pool_rep_cong) auto
  ultimately show ?thesis using t(1) rest by (simp add: ol_tx_desc_frame_list_free_def kinds_kept_def)
qed

section \<open>Single frames\<close>

text \<open>Where the frame of a descriptor goes, by the type of the descriptor.\<close>

definition nonstd_kept :: "desc_ptr \<Rightarrow> tx_pool \<Rightarrow> bool" where
  "nonstd_kept d s \<longleftrightarrow> pkt_type (desc_mem s d) = ol_tx_frm_no_free \<and> data_cb s"

definition nonstd_mgmt :: "desc_ptr \<Rightarrow> tx_pool \<Rightarrow> nat option" where
  "nonstd_mgmt d s = (let ty = pkt_type (desc_mem s d)
     in if OL_TXRX_MGMT_TYPE_BASE \<le> ty \<and> ty \<noteq> ol_tx_frm_freed then Some (unat (ty - OL_TXRX_MGMT_TYPE_BASE)) else None)"

lemma frame_free_nonstd_rep:
  assumes rep: "pool_rep k s fl us" and us: "us i = Some b"
    and mgmt: "case nonstd_mgmt (dptr k i) s of None \<Rightarrow> True | Some m \<Rightarrow> m < length (ota_ack_cbs s)"
  shows "\<exists>s'. ol_tx_desc_frame_free_nonstd table (dptr k i) err s = Some s' \<and> pool_rep k s' (i # fl) (us(i := None)) \<and>
    tx_freed s' = tx_freed s @ (if nonstd_kept (dptr k i) s then [] else [b]) \<and>
    tx_notices s' = tx_notices s @ (if nonstd_kept (dptr k i) s then [Data_done b err]
      else case nonstd_mgmt (dptr k i) s of None \<Rightarrow> [] | Some m \<Rightarrow> if ota_ack_cbs s ! m then [Mgmt_done m b err] else []) \<and>
    dma_maps s' = (dma_maps s)(b := dma_maps s b - (if nonstd_kept (dptr k i) s then 0 else 1)) \<and>
    pool_size s' = pool_size s \<and> data_cb s' = data_cb s \<and> ota_ack_cbs s' = ota_ack_cbs s \<and>
    (\<exists>n. tx_bufs s' = (tx_bufs s)(b := (tx_bufs s b)\<lparr>tn_next := n\<rparr>)) \<and>
    (\<forall>d. d \<noteq> dptr k i \<longrightarrow> desc_mem s' d = desc_mem s d) \<and> kinds_kept s s'"
proof -
  let ?d = "dptr k i"
  have b: "desc_netbuf ?d s = Some b" using pool_rep_use [OF rep us] by simp
  have same: "(tx_bufs s)(b := (tx_bufs s b)\<lparr>tn_next := tn_next (tx_bufs s b)\<rparr>) = tx_bufs s" by (simp add: fun_upd_idem)
  have fields: "pool_rep k (ol_tx_desc_free ?d t) (i # fl) (us(i := None))"
    if "pool_rep k t fl us" for t using pool_rep_free [OF that us] .
  have rep': "pool_rep k (upd_desc ?d (\<lambda>t. t\<lparr>ref_cnt := 0\<rparr>) s) fl us"
    using rep by (rule pool_rep_cong) (auto simp: upd_desc_def)
  note defs = kinds_kept_def ol_tx_desc_frame_free_nonstd_def b Let_def nonstd_kept_def nonstd_mgmt_def adf_nbuf_unmap_single_def adf_nbuf_set_next_def
    ol_tx_desc_free_def upd_desc_def upd_buf_def upd_htt_def tx_nbuf_free_def htt_tx_desc_frags_table_set_def
  let ?kept = "nonstd_kept ?d s"
  consider (kept) "?kept" | (mgmt) m where "\<not> ?kept" "nonstd_mgmt ?d s = Some m" | (reg) "\<not> ?kept" "nonstd_mgmt ?d s = None"
    by (cases "nonstd_mgmt ?d s") auto
  then show ?thesis
  proof cases
    case kept
    let ?t = "(adf_nbuf_set_next b None (upd_desc ?d (\<lambda>t. t\<lparr>ref_cnt := 0\<rparr>) s))\<lparr>tx_notices := tx_notices s @ [Data_done b err]\<rparr>"
    have "pool_rep k ?t fl us"
      using rep' by (rule pool_rep_cong) (auto simp: adf_nbuf_set_next_def upd_buf_def upd_desc_def)
    moreover have "ol_tx_desc_frame_free_nonstd table ?d err s = Some (ol_tx_desc_free ?d ?t)"
      using kept by (simp add: ol_tx_desc_frame_free_nonstd_def b Let_def nonstd_kept_def adf_nbuf_set_next_def upd_buf_def upd_desc_def)
    ultimately show ?thesis using fields [of ?t] kept
      by (intro exI [of _ "ol_tx_desc_free ?d ?t"]) (auto simp: defs)
  next
    case (mgmt m)
    then have m: "m < length (ota_ack_cbs s)" using assms(3) by simp
    let ?s3 = "htt_tx_desc_frags_table_set table (htt_tx_desc (desc_mem s ?d)) 0 True
      (adf_nbuf_unmap_single b (upd_desc ?d (\<lambda>t. t\<lparr>ref_cnt := 0\<rparr>) s))"
    let ?t = "tx_nbuf_free b (if ota_ack_cbs s ! m then ?s3\<lparr>tx_notices := tx_notices ?s3 @ [Mgmt_done m b err]\<rparr> else ?s3)"
    have ty: "pkt_type (desc_mem s ?d) \<noteq> ol_tx_frm_tso"
      using mgmt(2) by (auto simp: nonstd_mgmt_def tx_frm_types Let_def word_le_nat_alt split: if_splits)
    have "pool_rep k ?t fl us"
      using rep' by (rule pool_rep_cong) (auto simp: defs)
    moreover have "ol_tx_desc_frame_free_nonstd table ?d err s = Some (ol_tx_desc_free ?d ?t)"
      using mgmt ty m by (auto simp: defs split: if_splits)
    ultimately show ?thesis using fields [of ?t] mgmt same
      by (intro exI [of _ "ol_tx_desc_free ?d ?t"]) (auto simp: defs intro!: exI [of _ "tn_next (tx_bufs s b)"])
  next
    case reg
    let ?s3 = "adf_nbuf_set_next b None (adf_nbuf_unmap_single b (upd_desc ?d (\<lambda>t. t\<lparr>ref_cnt := 0\<rparr>) s))"
    let ?t = "?s3\<lparr>tx_freed := tx_freed ?s3 @ [b]\<rparr>"
    have free: "adf_nbuf_tx_free (Some b) ?s3 = Some ?t"
      by (rule tx_free_list) (simp add: adf_nbuf_set_next_def upd_buf_def)
    have "pool_rep k ?t fl us"
      using rep' by (rule pool_rep_cong) (auto simp: defs)
    moreover have "ol_tx_desc_frame_free_nonstd table ?d err s = Some (ol_tx_desc_free ?d ?t)"
      using reg free by (auto simp: ol_tx_desc_frame_free_nonstd_def b Let_def nonstd_kept_def nonstd_mgmt_def split: if_splits)
    ultimately show ?thesis using fields [of ?t] reg
      by (intro exI [of _ "ol_tx_desc_free ?d ?t"]) (auto simp: defs)
  qed
qed

section \<open>Setting up\<close>

lemma sig_bits_pow2: "sig_bits (2 ^ k) n = Some (Suc (n + k))"
proof (induction k arbitrary: n)
  case 0
  then show ?case by (simp add: sig_bits.simps)
next
  case (Suc k)
  then show ?case by (subst sig_bits.simps) simp
qed

text \<open>A descriptor the set-up has gone through.\<close>

definition desc_fresh :: "nat \<Rightarrow> nat \<Rightarrow> nat set \<Rightarrow> nat \<Rightarrow> tx_desc \<Rightarrow> bool" where
  "desc_fresh k N hs j t \<longleftrightarrow> td_first t = First_next (if Suc j = N then None else Some (dptr k (Suc j))) \<and>
     unat (td_id t) = j \<and> ref_cnt t = 0 \<and> htt_tx_desc t \<in> hs"

lemma pool_init_loop_rep:
  assumes "pool_geom k s" and "unat i + n = unat (pool_size s)" and "n \<noteq> 0 \<longrightarrow> c = Some (dptr k (unat i))" and "n \<le> length hts"
  shows "\<exists>mem. pool_init_loop n i c hts s = Some (s\<lparr>desc_mem := mem\<rparr>) \<and>
    (\<forall>j < unat i. mem (dptr k j) = desc_mem s (dptr k j)) \<and>
    (\<forall>j. unat i \<le> j \<and> j < unat (pool_size s) \<longrightarrow> desc_fresh k (unat (pool_size s)) (fst ` set hts) j (mem (dptr k j)))"
  using assms
proof (induction n arbitrary: i c hts s)
  case 0
  then show ?case by (intro exI [of _ "desc_mem s"]) auto
next
  case (Suc n)
  obtain h a hts' where hts: "hts = (h, a) # hts'" "n \<le> length hts'" using Suc.prems(4) by (cases hts) auto
  have i: "i < pool_size s" using Suc.prems(2) by (simp add: word_less_nat_alt)
  then have i1: "unat (i + 1) = Suc (unat i)" by (rule unat_Suc_no_wrap)
  have last: "i = pool_size s - 1 \<longleftrightarrow> n = 0"
    using i1 Suc.prems(2) unat_inject [of "i + 1" "pool_size s"] by (auto simp: eq_diff_eq)
  let ?nxt = "if n = 0 then None else Some (dptr k (Suc (unat i)))"
  let ?s = "upd_desc (dptr k (unat i)) (\<lambda>t. t\<lparr>td_first := First_next ?nxt, htt_tx_desc := h, htt_tx_desc_paddr := a,
      td_id := i, ref_cnt := 0\<rparr>) s"
  have nxt: "(if i = pool_size s - 1 then Some None else map_option Some (ol_tx_desc_find (i + 1) s)) = Some ?nxt"
    using desc_find [OF Suc.prems(1), of "i + 1"] Suc.prems(2) by (auto simp: last i1)
  have geom: "pool_geom k ?s" and size: "pool_size ?s = pool_size s" using Suc.prems(1) by (auto simp: pool_geom_def upd_desc_def)
  have "unat (i + 1) + n = unat (pool_size ?s)" "n \<noteq> 0 \<longrightarrow> ?nxt = Some (dptr k (unat (i + 1)))"
    using Suc.prems(2) by (simp_all only: i1 size, simp_all)
  then obtain mem where mem: "pool_init_loop n (i + 1) ?nxt hts' ?s = Some (?s\<lparr>desc_mem := mem\<rparr>)"
      "\<forall>j < Suc (unat i). mem (dptr k j) = desc_mem ?s (dptr k j)"
      "\<forall>j. Suc (unat i) \<le> j \<and> j < unat (pool_size s) \<longrightarrow> desc_fresh k (unat (pool_size s)) (fst ` set hts') j (mem (dptr k j))"
    using Suc.IH [OF geom _ _ hts(2), of "i + 1" ?nxt] unfolding i1 size by blast
  have fresh: "desc_fresh k (unat (pool_size s)) (fst ` set hts) j (mem (dptr k j))"
    if j: "unat i \<le> j" "j < unat (pool_size s)" for j
  proof (cases "j = unat i")
    case True
    then show ?thesis using mem(2) Suc.prems(2) by (auto simp: desc_fresh_def upd_desc_def hts)
  next
    case False
    then show ?thesis using mem(3) j by (auto simp: desc_fresh_def hts)
  qed
  have "pool_init_loop (Suc n) i c hts s = Some (s\<lparr>desc_mem := mem\<rparr>)"
    using mem(1) Suc.prems(3) nxt by (simp add: hts) (simp add: upd_desc_def)
  then show ?case using mem(2) fresh by (intro exI [of _ mem]) (auto simp: upd_desc_def)
qed

lemma page_filter:
  assumes "k \<le> 32"
  shows "unat (of_nat (2 ^ k) - 1 :: u32) = 2 ^ k - Suc 0"
proof (cases "k = 32")
  case True
  then show ?thesis by simp
next
  case False
  then have "k < 32" using assms by simp
  then have t: "take_bit 32 ((2::nat) ^ k) = 2 ^ k"
    using power_strict_increasing [of k 32 "2::nat"] by (intro take_bit_nat_eq_self) simp
  have u: "unat (of_nat (2 ^ k) :: u32) = 2 ^ k" unfolding unsigned_of_nat using t by simp
  then have "of_nat (2 ^ k) \<noteq> (0 :: u32)" by (metis power_not_zero unat_0 zero_neq_numeral)
  from unat_minus_one [OF this] u show ?thesis by simp
qed

lemma fresh_lseg:
  assumes "0 < N" and "\<forall>j < N. desc_fresh k N hs j (desc_mem t (dptr k j))"
  shows "lseg (free_next t) (Some (dptr k 0)) (map (dptr k) [0 ..< N]) None"
proof -
  have "lseg (free_next t) (Some (dptr k 0)) (map (dptr k) [0 ..< N - 1]) (Some (dptr k (N - 1)))"
    using assms by (intro lseg_upt) (auto simp: free_next_def desc_fresh_def)
  moreover have "free_next t (dptr k (N - 1)) = None" using assms by (auto simp: free_next_def desc_fresh_def)
  moreover have "[0 ..< N] = [0 ..< N - 1] @ [N - 1]" using assms(1) by (cases N) auto
  ultimately show ?thesis by (auto simp: lseg_append)
qed

lemma tx_pool_attach_rep:
  assumes page: "page_size div reserved_size = 2 ^ k" "k \<le> 32" and n: "n \<noteq> 0" and hts: "unat n \<le> length hts"
    and words: "\<forall>h \<in> fst ` set hts. length (hd_frags (htt_descs s h)) = 5"
  shows "\<exists>s'. tx_pool_attach page_size reserved_size n hts s = Some s' \<and> pool_rep k s' [0 ..< unat n] Map.empty \<and>
    pool_size s' = n \<and> (\<forall>i < unat n. ref_cnt (desc_mem s' (dptr k i)) = 0 \<and> htt_tx_desc (desc_mem s' (dptr k i)) \<in> fst ` set hts) \<and>
    tx_bufs s' = tx_bufs s \<and> dma_maps s' = dma_maps s \<and> tx_freed s' = tx_freed s \<and> tx_notices s' = tx_notices s \<and>
    htt_descs s' = htt_descs s"
proof -
  let ?N = "unat n"
  define pages where "pages = ?N div 2 ^ k + (if ?N mod 2 ^ k \<noteq> 0 then 1 else 0)"
  have mp: "multi_pages page_size reserved_size ?N = (pages, 2 ^ k)" by (simp add: multi_pages_def page Let_def pages_def)
  have cover: "?N \<le> pages * 2 ^ k"
  proof -
    have "?N = ?N div 2 ^ k * 2 ^ k + ?N mod 2 ^ k" by (rule div_mult_mod_eq [symmetric])
    moreover have "?N mod 2 ^ k < 2 ^ k" by simp
    ultimately show ?thesis by (simp add: pages_def add_mult_distrib del: mod_less_divisor)
  qed
  let ?s1 = "s\<lparr>num_pages := pages, num_element_per_page := 2 ^ k, offset_filter := of_nat (2 ^ k) - 1,
      page_divider := k, pool_size := n, freelist := Some (0, 0)\<rparr>"
  have geom: "pool_geom k ?s1" using cover page_filter [OF page(2)] by (simp add: pool_geom_def del: of_nat_power)
  obtain mem where mem: "pool_init_loop ?N 0 (Some (0, 0)) hts ?s1 = Some (?s1\<lparr>desc_mem := mem\<rparr>)"
      "\<forall>j. j < ?N \<longrightarrow> desc_fresh k ?N (fst ` set hts) j (mem (dptr k j))"
    using pool_init_loop_rep [OF geom, of 0 ?N "Some (0, 0)" hts] hts by (auto simp: dptr_def)
  let ?t = "?s1\<lparr>desc_mem := mem, num_free := n\<rparr>"
  have att: "tx_pool_attach page_size reserved_size n hts s = Some ?t"
    unfolding tx_pool_attach_def mp split sig_bits_pow2 bind.bind_lunit Let_def add_0 diff_Suc_1 mem(1) option.map by (rule refl)
  have pos: "0 < ?N" using n by (simp add: unat_gt_0)
  have fresh: "\<forall>j < ?N. desc_fresh k ?N (fst ` set hts) j (desc_mem ?t (dptr k j))" using mem(2) by simp
  have "lseg (free_next ?t) (freelist ?t) (map (dptr k) [0 ..< ?N]) None"
    using fresh_lseg [OF pos fresh] by (simp add: dptr_def)
  moreover have "pool_geom k ?t" using geom by (simp add: pool_geom_def del: of_nat_power)
  moreover have "\<forall>i \<in> set [0 ..< ?N]. \<exists>n. td_first (desc_mem ?t (dptr k i)) = First_next n"
    "\<forall>i < ?N. unat (td_id (desc_mem ?t (dptr k i))) = i"
    using fresh by (simp_all add: desc_fresh_def)
  moreover have "length (hd_frags (htt_descs s (htt_tx_desc (desc_mem ?t (dptr k i))))) = 5" if "i < ?N" for i
    using fresh that by (intro bspec [OF words]) (simp add: desc_fresh_def)
  ultimately have "pool_rep k ?t [0 ..< ?N] Map.empty" by (simp add: pool_rep_def atLeast0LessThan)
  then show ?thesis using att fresh by (intro exI [of _ ?t]) (simp add: desc_fresh_def)
qed

end
