(* ===== verification/Tx_Send_Props.thy ===== *)
theory Tx_Send_Props
  imports Tx_Send Tx_Desc_Props Ce_Reach Fifo_Queue
begin

text \<open>
  From the entry of the data path to the ring of the copy engine: the count of sends the bus allows is the
  room in the ring, a frame is sent whole or not at all, and frames reach the ring in the order they came.
\<close>

section \<open>Frames\<close>

text \<open>A frame that carries its descriptor's words in front, and its items when \<open>len\<close> bytes are sent.\<close>

definition framed :: "tx_nbuf \<Rightarrow> bool" where
  "framed n \<longleftrightarrow> (\<exists>f. tn_frags n = [f] \<and> fg_len f = HTT_TX_DESC_SIZE) \<and> tn_len n < 2 ^ 30"

definition frame_items :: "tx_nbuf \<Rightarrow> int \<Rightarrow> ce_sendlist_item list" where
  "frame_items n len =
     \<lparr>item_data = fg_paddr (tn_frags n ! 0), item_nbytes = word_of_int (min len 24),
      item_flags = (if bit (tn_wordstream n) 0 then 0 else CE_SEND_FLAG_SWAP_DISABLE)\<rparr> #
     (if len \<le> 24 then []
      else [\<lparr>item_data = tn_paddr n, item_nbytes = word_of_int (len - 24),
             item_flags = (if bit (tn_wordstream n) CVG_NBUF_MAX_EXTRA_FRAGS then 0 else CE_SEND_FLAG_SWAP_DISABLE)\<rparr>])"

lemma framed_next [simp]:
  "framed (n\<lparr>tn_next := m\<rparr>) = framed n" "frame_items (n\<lparr>tn_next := m\<rparr>) len = frame_items n len"
  "adf_nbuf_len (n\<lparr>tn_next := m\<rparr>) = adf_nbuf_len n"
  by (simp_all add: framed_def frame_items_def adf_nbuf_len_def)

lemma sint32_small:
  assumes "(w :: u32) < 2 ^ 31"
  shows "sint w = int (unat w)"
proof -
  have "uint w < 2 ^ 31" using assms by (simp add: word_less_def)
  moreover have "0 \<le> uint w" by simp
  ultimately have "signed_take_bit 31 (uint w) = uint w" unfolding signed_take_bit_int_eq_self_iff by linarith
  then show ?thesis by (simp add: sint_uint)
qed

lemma framed_len:
  assumes "framed n"
  shows "sint (adf_nbuf_len n) = 24 + int (unat (tn_len n))"
proof -
  have small: "unat (tn_len n) < 2 ^ 30" using assms by (simp add: framed_def word_less_nat_alt)
  then have u: "unat (24 + tn_len n) = 24 + unat (tn_len n)" by (simp add: unat_word_ariths)
  then have "sint (24 + tn_len n) = int (unat (24 + tn_len n))"
    using small by (intro sint32_small) (simp add: word_less_nat_alt)
  moreover have "adf_nbuf_len n = 24 + tn_len n" using assms by (auto simp: framed_def adf_nbuf_len_def HTT_TX_DESC_SIZE_def)
  ultimately show ?thesis using u by simp
qed

lemma take_Suc_replicate:
  "0 < n \<Longrightarrow> take (Suc 0) ((replicate n z)[0 := a]) = [a]"
  "1 < n \<Longrightarrow> take (Suc (Suc 0)) ((replicate n z)[0 := a, Suc 0 := b]) = [a, b]"
proof -
  show "0 < n \<Longrightarrow> take (Suc 0) ((replicate n z)[0 := a]) = [a]" by (cases n) auto
  assume "1 < n"
  then obtain m where "n = Suc (Suc m)" by (cases n; cases "n - 1") auto
  then show "take (Suc (Suc 0)) ((replicate n z)[0 := a, Suc 0 := b]) = [a, b]" by simp
qed

lemma head_items_framed:
  assumes n: "framed n" and len: "0 < len" "len \<le> 24 + int (unat (tn_len n))"
  shows "\<exists>sl. head_items n sendlist0 0 len = Some (A_OK, sl, length (frame_items n len)) \<and>
    length (sl_item sl) = CE_SENDLIST_ITEMS_MAX \<and> unat (num_items sl) = length (frame_items n len) \<and>
    take (length (frame_items n len)) (sl_item sl) = frame_items n len"
proof -
  obtain f where f: "tn_frags n = [f]" "fg_len f = 24" using n by (auto simp: framed_def HTT_TX_DESC_SIZE_def)
  have l0: "sint (adf_nbuf_get_frag_len n 0) = 24" and l1: "sint (adf_nbuf_get_frag_len n 1) = int (unat (tn_len n))"
    using n f by (simp_all add: adf_nbuf_get_frag_len_def framed_def sint32_small word_less_nat_alt HTT_TX_DESC_SIZE_def)
  show ?thesis
  proof (cases "len \<le> 24")
    case True
    then show ?thesis using f len l0
      by (subst head_items.simps) (auto simp: take_Suc_replicate Let_def sendlist0_def CE_sendlist_init_def CE_sendlist_buf_add_def frame_items_def
          CE_SENDLIST_ITEMS_MAX_def adf_nbuf_get_frag_paddr_lo_def adf_nbuf_get_frag_is_wordstream_def min_def)
  next
    case False
    have all: "word_of_int len - 24 = tn_len n" if "\<not> len - 24 < uint (tn_len n)"
    proof -
      have "len = 24 + uint (tn_len n)" using that len(2) by simp
      then show ?thesis by simp
    qed
    then show ?thesis using False f len l0 l1
      by (subst head_items.simps, subst head_items.simps) (auto simp: take_Suc_replicate Let_def sendlist0_def CE_sendlist_init_def CE_sendlist_buf_add_def frame_items_def
          CE_SENDLIST_ITEMS_MAX_def adf_nbuf_get_frag_paddr_lo_def adf_nbuf_get_frag_is_wordstream_def min_def)
  qed
qed

section \<open>The bus\<close>

text \<open>
  The pipe agrees with the engine: the count of sends that are allowed is what the entries asked for
  leave besides the requests that have not been reaped.
\<close>

definition ce_ok :: "u32 \<Rightarrow> u32 \<Rightarrow> tx_pdev \<Rightarrow> ce_sys \<Rightarrow> bool" where
  "ce_ok n m s x \<longleftrightarrow> ce_reach n m x \<and> tx_ce s = eng x \<and> unat n \<le> 2 ^ 16 \<and> 0 \<le> num_sends_allowed s \<and>
     num_sends_allowed s = int (unat n) - 1 - int (length (requests x) - length (completions x))"

definition frame_requests :: "u32 \<Rightarrow> tx_buf \<Rightarrow> tx_nbuf \<Rightarrow> int \<Rightarrow> ce_request list" where
  "frame_requests ep b n len = map (ce_gather_request ep) (butlast (frame_items n len)) @
     [ce_item_request (of_nat b) ep 0 (last (frame_items n len))]"

lemma free_number: "ce_ok n m s x \<Longrightarrow> unat (HIFGetFreeQueueNumber s) = nat (num_sends_allowed s)"
proof -
  assume ok: "ce_ok n m s x"
  then have le: "unat n \<le> 65536" and pos: "0 \<le> num_sends_allowed s"
    and eq: "num_sends_allowed s = int (unat n) - 1 - int (length (requests x) - length (completions x))"
    by (auto simp: ce_ok_def)
  have "uint n \<le> 65536" using of_nat_mono [OF le, where ?'a = int] by simp
  then have "0 \<le> num_sends_allowed s" "num_sends_allowed s < 65536" using pos eq by simp_all
  then have "uint (word_of_int (num_sends_allowed s) :: u16) = num_sends_allowed s"
    by (simp add: unsigned_of_int take_bit_int_eq_self_iff)
  then show ?thesis unfolding HIFGetFreeQueueNumber_def by (simp flip: nat_uint_eq)
qed

lemma ce_ok_size: "ce_ok n m s x \<Longrightarrow> unat n \<le> unat (roundup_pwr2 n)"
  using ce_reach_start roundup_pwr2_least by (force simp: ce_ok_def ce_start_def)

text \<open>Reaping ends and gives back what was reaped.\<close>

lemma reap_loop_ok:
  assumes "ce_ok n m s x"
  shows "\<exists>t y. reap_loop s = Some t \<and> ce_ok n m t y \<and> requests y = requests x \<and> num_sends_allowed s \<le> num_sends_allowed t \<and>
    t = s\<lparr>tx_ce := tx_ce t, num_sends_allowed := num_sends_allowed t\<rparr>"
  using assms
proof (induction "length (requests x) - length (completions x)" arbitrary: s x rule: less_induct)
  case less
  have reach: "ce_reach n m x" and ce: "tx_ce s = eng x" using less.prems by (auto simp: ce_ok_def)
  obtain k b h v where rep: "src_rep k b (requests x) (length (completions x)) h (sends_read x) v (eng x)"
    using ce_reach_src [OF reach] .
  obtain t where t: "CE_completed_send_next_nolock (tx_ce s) =
      Some (if length (completions x) < sends_read x
        then Some (ce_request_done (ce_send_context (eng x)) (requests x ! length (completions x))) else None, t)"
    using src_rep_complete [OF rep] ce by auto
  let ?d = "if length (completions x) < sends_read x
        then Some (ce_request_done (ce_send_context (eng x)) (requests x ! length (completions x))) else None"
  let ?y = "x\<lparr>eng := t, completions := completions x @ option_list ?d\<rparr>"
  have reach': "ce_reach n m ?y" using ce_reach.step [OF reach ce_step.complete] t ce by simp
  show ?case
  proof (cases "length (completions x) < sends_read x")
    case False
    then have "ce_ok n m (s\<lparr>tx_ce := t\<rparr>) ?y" using less.prems reach' by (simp add: ce_ok_def option_list_def)
    then show ?thesis using t False by (subst reap_loop.simps) (auto intro!: exI [of _ ?y])
  next
    case True
    let ?s = "s\<lparr>tx_ce := t, num_sends_allowed := num_sends_allowed s + 1\<rparr>"
    have lt: "length (completions x) < length (requests x)" using True src_rep_counts [OF rep] by simp
    have ok: "ce_ok n m ?s ?y" using less.prems reach' True lt by (simp add: ce_ok_def option_list_def)
    have "length (requests ?y) - length (completions ?y) < length (requests x) - length (completions x)"
      using True lt by (simp add: option_list_def)
    from less.hyps [OF this ok] obtain u z where u: "reap_loop ?s = Some u" "ce_ok n m u z" "requests z = requests ?y"
        "num_sends_allowed ?s \<le> num_sends_allowed u" "u = ?s\<lparr>tx_ce := tx_ce u, num_sends_allowed := num_sends_allowed u\<rparr>" by blast
    have "reap_loop s = reap_loop ?s" using t True by (subst reap_loop.simps) simp
    then show ?thesis using u by (intro exI [of _ u] exI [of _ z]) auto
  qed
qed

text \<open>A frame is sent whole; when the count leaves room for it, nothing on the way fails.\<close>

lemma HIFSend_head_ok:
  assumes ok: "ce_ok n m s x" and b: "framed (tx_bufs (tp s) b)" and len: "0 < len" "len \<le> packet_len b s"
    and room: "2 \<le> num_sends_allowed s"
  shows "\<exists>t y. HIFSend_head ep len b s = Some (A_OK, t) \<and> ce_ok n m t y \<and>
    requests y = requests x @ frame_requests ep b (tx_bufs (tp s) b) len \<and>
    t = s\<lparr>tx_ce := tx_ce t, num_sends_allowed := num_sends_allowed t\<rparr>"
proof -
  let ?n = "tx_bufs (tp s) b"
  obtain sl where sl: "head_items ?n sendlist0 0 len = Some (A_OK, sl, length (frame_items ?n len))"
      "length (sl_item sl) = CE_SENDLIST_ITEMS_MAX" "unat (num_items sl) = length (frame_items ?n len)"
      "take (length (frame_items ?n len)) (sl_item sl) = frame_items ?n len"
    using head_items_framed [OF b len(1)] len(2) framed_len [OF b] by (auto simp: packet_len_def)
  let ?k = "length (frame_items ?n len)"
  have k: "0 < ?k" "?k \<le> 2" by (auto simp: frame_items_def)
  have lens: "?k \<le> length (sl_item sl)" using k sl(2) by (simp add: CE_SENDLIST_ITEMS_MAX_def)
  have reach: "ce_reach n m x" and ce: "tx_ce s = eng x" using ok by (auto simp: ce_ok_def)
  have counts: "length (completions x) \<le> length (requests x)" using ce_reach_counts [OF reach] .
  have fits: "length (requests x) - length (completions x) + ?k < unat (roundup_pwr2 n)"
  proof -
    have "num_sends_allowed s = int (unat n) - 1 - int (length (requests x) - length (completions x))"
      using ok unfolding ce_ok_def by blast
    then show ?thesis using k room ce_ok_size [OF ok] by linarith
  qed
  have items: "take (?k - 1) (sl_item sl) = butlast (frame_items ?n len)" "sl_item sl ! (?k - 1) = last (frame_items ?n len)"
  proof -
    have ne: "frame_items ?n len \<noteq> []" using k by auto
    show "take (?k - 1) (sl_item sl) = butlast (frame_items ?n len)"
      using sl(4) lens by (metis butlast_take)
    have "sl_item sl ! (?k - 1) = take ?k (sl_item sl) ! (?k - 1)" using k by simp
    then show "sl_item sl ! (?k - 1) = last (frame_items ?n len)" using sl(4) ne by (simp add: last_conv_nth)
  qed
  have ne: "num_items sl \<noteq> 0" using sl(3) k(1) by auto
  obtain c where c: "CE_sendlist_send (of_nat b) sl ep (eng x) = Some (A_OK, c)"
      "ce_reach n m (x\<lparr>eng := c, requests := requests x @ frame_requests ep b ?n len\<rparr>)"
    using ce_sendlist_all_or_nothing [OF reach ne, of ep "of_nat b"] lens fits items
    by (auto simp: sl(3) Let_def frame_requests_def)
  let ?t = "s\<lparr>num_sends_allowed := num_sends_allowed s - int ?k, tx_ce := c\<rparr>"
  have "HIFSend_head ep len b s = Some (A_OK, ?t)"
    using sl(1) c(1) room k ce by (simp add: HIFSend_head_def)
  moreover have "ce_ok n m ?t (x\<lparr>eng := c, requests := requests x @ frame_requests ep b ?n len\<rparr>)"
    using ok c(2) room k counts by (auto simp: ce_ok_def frame_requests_def)
  ultimately show ?thesis by (intro exI [of _ ?t]) (auto intro!: exI [of _ "x\<lparr>eng := c, requests := requests x @ frame_requests ep b ?n len\<rparr>"])
qed

section \<open>The transport\<close>

text \<open>The pool with the words of the transport's header written.\<close>

definition htc_header :: "tx_buf \<Rightarrow> int \<Rightarrow> tx_pdev \<Rightarrow> tx_pool" where
  "htc_header b len s = upd_htt (fg_vaddr (tn_frags (tx_bufs (tp s) b) ! 0)) (\<lambda>h. h\<lparr>
       hd_htc0 := (push_bit 16 (word_of_int len) AND 0xffff0000) OR (ep_id s AND 0xff),
       hd_htc1 := push_bit 8 (ucast (seq_no s)) AND 0xff00\<rparr>) (tp s)"

lemma HTCSendDataPkt_ok:
  assumes ok: "ce_ok n m s x" and b: "framed (tx_bufs (tp s) b)" and len: "0 < len" "len \<le> packet_len b s"
  shows "\<exists>st t y. HTCSendDataPkt e b len s = Some (st, t) \<and> ce_ok n m t y \<and>
    t = s\<lparr>tx_ce := tx_ce t, num_sends_allowed := num_sends_allowed t, tp := tp t, seq_no := seq_no t\<rparr> \<and>
    (if st = A_OK then tp t = htc_header b len s \<and> requests y = requests x @ frame_requests (ep_id s) b (tx_bufs (tp s) b) len
     else tp t = tp s \<and> requests y = requests x \<and> num_sends_allowed t < 2) \<and>
    (2 \<le> num_sends_allowed s \<longrightarrow> st = A_OK)"
proof -
  let ?scarce = "HIFGetFreeQueueNumber s < HTC_DATA_RESOURCE_THRS"
  obtain s1 x1 where s1: "(if ?scarce \<and> ul_is_polled s then HIFSendCompleteCheck True e s else Some s) = Some s1"
      "ce_ok n m s1 x1" "requests x1 = requests x" "s1 = s\<lparr>tx_ce := tx_ce s1, num_sends_allowed := num_sends_allowed s1\<rparr>"
      "num_sends_allowed s \<le> num_sends_allowed s1"
  proof (cases "?scarce \<and> ul_is_polled s \<and> send_cb s")
    case True
    then show ?thesis using reap_loop_ok [OF ok] that
      by (auto simp: HIFSendCompleteCheck_def CE_per_engine_servicereap_def)
  next
    case False
    show ?thesis using ok False by (intro that [of s x]) (auto simp: HIFSendCompleteCheck_def CE_per_engine_servicereap_def)
  qed
  have same: "tp s1 = tp s" "ep_id s1 = ep_id s" "seq_no s1 = seq_no s"
    by (subst s1(4), simp)+
  note free = free_number [OF ok] free_number [OF s1(2)]
  have pos: "0 \<le> num_sends_allowed s" "0 \<le> num_sends_allowed s1" using ok s1(2) by (auto simp: ce_ok_def)
  have scarce: "?scarce \<longleftrightarrow> num_sends_allowed s < 256"
    and few: "HIFGetFreeQueueNumber s1 < HTC_DATA_MINDESC_PERPACKET \<longleftrightarrow> num_sends_allowed s1 < 2"
    using free pos by (auto simp: word_less_nat_alt HTC_DATA_RESOURCE_THRS_def HTC_DATA_MINDESC_PERPACKET_def)
  obtain f where f: "tn_frags (tx_bufs (tp s1) b) = [f]" using b same by (auto simp: framed_def)
  let ?s2 = "upd_tp (\<lambda>_. htc_header b len s) (s1\<lparr>seq_no := seq_no s1 + 1\<rparr>)"
  have unf: "HTCSendDataPkt e b len s =
      (if num_sends_allowed s < 256 \<and> num_sends_allowed s1 < 2 then Some (A_ERROR, s1) else HIFSend_head (ep_id s) len b ?s2)"
    unfolding HTCSendDataPkt_def Let_def s1(1) bind.bind_lunit unfolding scarce few using f same
    by (simp add: htc_header_def upd_tp_def)
  show ?thesis
  proof (cases "num_sends_allowed s < 256 \<and> num_sends_allowed s1 < 2")
    case True
    then have "\<not> 2 \<le> num_sends_allowed s" using s1(5) by linarith
    moreover have "s1 = s\<lparr>tx_ce := tx_ce s1, num_sends_allowed := num_sends_allowed s1, tp := tp s1, seq_no := seq_no s1\<rparr>"
      using same by (subst s1(4)) simp
    ultimately show ?thesis using True s1(2,3) same by (intro exI [of _ A_ERROR] exI [of _ s1] exI [of _ x1]) (simp add: unf)
  next
    case False
    then have room: "2 \<le> num_sends_allowed s1" using s1(5) by linarith
    have bufs: "tx_bufs (tp ?s2) = tx_bufs (tp s)" by (simp add: upd_tp_def htc_header_def upd_htt_def)
    have ok2: "ce_ok n m ?s2 x1" using s1(2) by (simp add: ce_ok_def upd_tp_def)
    have "framed (tx_bufs (tp ?s2) b)" "len \<le> packet_len b ?s2" "2 \<le> num_sends_allowed ?s2"
      using b len room bufs by (simp_all add: packet_len_def) (simp add: upd_tp_def)
    from HIFSend_head_ok [OF ok2 this(1) len(1) this(2,3), of "ep_id s"] obtain t y where
      t: "HIFSend_head (ep_id s) len b ?s2 = Some (A_OK, t)" "ce_ok n m t y"
        "requests y = requests x1 @ frame_requests (ep_id s) b (tx_bufs (tp ?s2) b) len"
        "t = ?s2\<lparr>tx_ce := tx_ce t, num_sends_allowed := num_sends_allowed t\<rparr>" by blast
    have tp: "tp t = htc_header b len s" by (subst t(4)) (simp add: upd_tp_def)
    have "t = s\<lparr>tx_ce := tx_ce t, num_sends_allowed := num_sends_allowed t, tp := tp t, seq_no := seq_no t\<rparr>"
    proof -
      obtain c k c' k' where "t = ?s2\<lparr>tx_ce := c, num_sends_allowed := k\<rparr>"
        "s1 = s\<lparr>tx_ce := c', num_sends_allowed := k'\<rparr>" using t(4) s1(4) by blast
      then show ?thesis by (simp add: upd_tp_def)
    qed
    then show ?thesis using t(1-3) tp False s1(3) bufs
      by (intro exI [of _ A_OK] exI [of _ t] exI [of _ y]) (simp add: unf)
  qed
qed

section \<open>The queue\<close>

definition queue_rep :: "tx_pdev \<Rightarrow> tx_buf list \<Rightarrow> bool" where
  "queue_rep s qs \<longleftrightarrow> lseg (\<lambda>b. tn_next (tx_bufs (tp s) b)) (q_head s) qs None \<and>
     (qs \<noteq> [] \<longrightarrow> q_tail s = Some (last qs)) \<and> q_len s = of_nat (length qs)"

lemma queue_rep_distinct: "queue_rep s qs \<Longrightarrow> distinct qs"
  unfolding queue_rep_def by (blast intro: lseg_acyclic)

lemma set_next_bufs: "tx_bufs (adf_nbuf_set_next b m p) = (tx_bufs p)(b := (tx_bufs p b)\<lparr>tn_next := m\<rparr>)"
  by (simp add: adf_nbuf_set_next_def upd_buf_def)

lemma set_next_chain:
  "(\<lambda>c. tn_next (tx_bufs (adf_nbuf_set_next b m p) c)) = (\<lambda>c. tn_next (tx_bufs p c))(b := m)"
  by (auto simp: set_next_bufs)

text \<open>What the queue and the transport may change in the pool: links of the frames \<open>A\<close> and the words of the header.\<close>

definition tp_sim :: "tx_buf set \<Rightarrow> tx_pool \<Rightarrow> tx_pool \<Rightarrow> bool" where
  "tp_sim A p p' \<longleftrightarrow> p' = p\<lparr>tx_bufs := tx_bufs p', htt_descs := htt_descs p'\<rparr> \<and>
     (\<forall>b. \<exists>m. tx_bufs p' b = (tx_bufs p b)\<lparr>tn_next := m\<rparr>) \<and> (\<forall>b. b \<notin> A \<longrightarrow> tx_bufs p' b = tx_bufs p b) \<and>
     (\<forall>h. length (hd_frags (htt_descs p' h)) = length (hd_frags (htt_descs p h)))"

lemma nbuf_next_same: "\<exists>m. (n :: tx_nbuf) = n\<lparr>tn_next := m\<rparr>"
  by (rule exI [of _ "tn_next n"]) simp

lemma tp_sim_refl: "tp_sim A p p"
  by (simp add: tp_sim_def nbuf_next_same)

lemma tp_sim_next: "b \<in> A \<Longrightarrow> tp_sim A p (adf_nbuf_set_next b m p)"
  by (auto simp: tp_sim_def adf_nbuf_set_next_def upd_buf_def nbuf_next_same)

lemma tp_sim_header: "tp_sim A (tp s) (htc_header b len s)"
  by (auto simp: tp_sim_def htc_header_def upd_htt_def nbuf_next_same)

lemma tp_sim_trans:
  assumes "tp_sim A p q" "tp_sim B q r"
  shows "tp_sim (A \<union> B) p r"
proof -
  have "r = p\<lparr>tx_bufs := tx_bufs r, htt_descs := htt_descs r\<rparr>"
  proof -
    obtain x y x' y' where "q = p\<lparr>tx_bufs := x, htt_descs := y\<rparr>" "r = q\<lparr>tx_bufs := x', htt_descs := y'\<rparr>"
      using assms unfolding tp_sim_def by blast
    then show ?thesis by simp
  qed
  moreover have "\<exists>m. tx_bufs r b = (tx_bufs p b)\<lparr>tn_next := m\<rparr>" for b
  proof -
    obtain m m' where "tx_bufs q b = (tx_bufs p b)\<lparr>tn_next := m\<rparr>" "tx_bufs r b = (tx_bufs q b)\<lparr>tn_next := m'\<rparr>"
      using assms unfolding tp_sim_def by blast
    then show ?thesis by (intro exI [of _ m']) simp
  qed
  ultimately show ?thesis using assms by (simp add: tp_sim_def)
qed

lemma tp_sim_mono: "tp_sim A p q \<Longrightarrow> A \<subseteq> B \<Longrightarrow> tp_sim B p q"
  by (auto simp: tp_sim_def)

lemma tp_sim_rep: "tp_sim A p q \<Longrightarrow> pool_rep k p fl us \<Longrightarrow> pool_rep k q fl us"
proof -
  assume sim: "tp_sim A p q" and rep: "pool_rep k p fl us"
  obtain bs hs where q: "q = p\<lparr>tx_bufs := bs, htt_descs := hs\<rparr>" using sim unfolding tp_sim_def by blast
  have "\<forall>h. length (hd_frags (hs h)) = length (hd_frags (htt_descs p h))" using sim by (auto simp: tp_sim_def q)
  then show ?thesis by (intro pool_rep_cong [OF rep]) (simp_all add: q)
qed

lemma tp_sim_buf:
  assumes "tp_sim A p q"
  shows "framed (tx_bufs q b) = framed (tx_bufs p b)" and "frame_items (tx_bufs q b) len = frame_items (tx_bufs p b) len"
    and "adf_nbuf_len (tx_bufs q b) = adf_nbuf_len (tx_bufs p b)" and "tn_ipa (tx_bufs q b) = tn_ipa (tx_bufs p b)"
    and "tn_frags (tx_bufs q b) = tn_frags (tx_bufs p b)" and "tn_len (tx_bufs q b) = tn_len (tx_bufs p b)"
proof -
  obtain m where "tx_bufs q b = (tx_bufs p b)\<lparr>tn_next := m\<rparr>" using assms unfolding tp_sim_def by blast
  then show "framed (tx_bufs q b) = framed (tx_bufs p b)" "frame_items (tx_bufs q b) len = frame_items (tx_bufs p b) len"
    "adf_nbuf_len (tx_bufs q b) = adf_nbuf_len (tx_bufs p b)" "tn_ipa (tx_bufs q b) = tn_ipa (tx_bufs p b)"
    "tn_frags (tx_bufs q b) = tn_frags (tx_bufs p b)" "tn_len (tx_bufs q b) = tn_len (tx_bufs p b)" by simp_all
qed

lemma tp_sim_fields:
  "tp_sim A p q \<Longrightarrow> dma_maps q = dma_maps p \<and> tx_freed q = tx_freed p \<and> tx_notices q = tx_notices p \<and>
     data_cb q = data_cb p \<and> ota_ack_cbs q = ota_ack_cbs p \<and> desc_mem q = desc_mem p \<and> pool_size q = pool_size p"
proof -
  assume "tp_sim A p q"
  then obtain bs hs where "q = p\<lparr>tx_bufs := bs, htt_descs := hs\<rparr>" unfolding tp_sim_def by blast
  then show ?thesis by simp
qed

text \<open>What is left alone besides the pool, the queue and the pipe.\<close>

definition tx_kept :: "tx_pdev \<Rightarrow> tx_pdev \<Rightarrow> bool" where
  "tx_kept s t \<longleftrightarrow> tx_links t = tx_links s \<and> download_len t = download_len s \<and> ul_is_polled t = ul_is_polled s \<and>
     ep_id t = ep_id s \<and> send_cb t = send_cb s"

definition bus_kept :: "tx_pdev \<Rightarrow> tx_pdev \<Rightarrow> bool" where
  "bus_kept s t \<longleftrightarrow> tx_kept s t \<and> tx_ce t = tx_ce s \<and> num_sends_allowed t = num_sends_allowed s"

lemma ce_ok_kept: "bus_kept s t \<Longrightarrow> ce_ok n m t x = ce_ok n m s x"
  by (simp add: ce_ok_def bus_kept_def)

lemma queue_add_rep:
  assumes rep: "queue_rep s qs" and b: "b \<notin> set qs"
  shows "\<exists>t. adf_nbuf_queue_add b s = Some t \<and> queue_rep t (qs @ [b]) \<and> tp_sim (insert b (set qs)) (tp s) (tp t) \<and> bus_kept s t"
proof (cases "qs = []")
  case True
  let ?t = "(upd_tp (adf_nbuf_set_next b None) s)\<lparr>q_head := Some b, q_tail := Some b, q_len := q_len s + 1\<rparr>"
  have "adf_nbuf_queue_add b s = Some ?t" using rep True by (simp add: queue_rep_def adf_nbuf_queue_add_def upd_tp_def Let_def)
  then show ?thesis using rep True
    by (intro exI [of _ ?t]) (auto simp: queue_rep_def upd_tp_def set_next_bufs tp_sim_next bus_kept_def tx_kept_def)
next
  case False
  obtain us c where qs: "qs = us @ [c]" using False by (metis append_butlast_last_id)
  let ?p = "adf_nbuf_set_next c (Some b) (adf_nbuf_set_next b None (tp s))"
  let ?t = "s\<lparr>tp := ?p, q_tail := Some b, q_len := q_len s + 1\<rparr>"
  obtain h where h: "q_head s = Some h" using rep False by (cases qs) (auto simp: queue_rep_def)
  have add: "adf_nbuf_queue_add b s = Some ?t"
    using rep h by (simp add: queue_rep_def adf_nbuf_queue_add_def upd_tp_def Let_def qs)
  have seg: "lseg (\<lambda>b. tn_next (tx_bufs (tp s) b)) (q_head s) (us @ [c]) None" using rep by (simp add: queue_rep_def qs)
  have "distinct (us @ [c])" using queue_rep_distinct [OF rep] by (simp add: qs)
  moreover have "lseg ((\<lambda>c. tn_next (tx_bufs (tp s) c))(b := None)) (q_head s) (us @ [c]) None"
    using seg b by (simp add: lseg_frame qs)
  ultimately have "lseg (((\<lambda>c. tn_next (tx_bufs (tp s) c))(b := None))(c := Some b)) (q_head s) (us @ [c]) (Some b)"
    by (rule lseg_relink [rotated])
  moreover have "c \<noteq> b" using b by (auto simp: qs)
  ultimately have "lseg (\<lambda>b. tn_next (tx_bufs ?p b)) (q_head s) ((us @ [c]) @ [b]) None"
    unfolding set_next_chain by (simp add: lseg_append)
  then have "queue_rep ?t (qs @ [b])" using rep by (simp add: queue_rep_def qs)
  moreover have "tp_sim (insert b (set qs)) (tp s) ?p"
    using tp_sim_trans [OF tp_sim_next [of b "insert b (set qs)" "tp s" None] tp_sim_next [of c "insert b (set qs)" _ "Some b"]] by (simp add: qs)
  ultimately show ?thesis using add by (intro exI [of _ ?t]) (simp add: bus_kept_def tx_kept_def)
qed

lemma queue_insert_head_rep:
  assumes rep: "queue_rep s qs" and b: "b \<notin> set qs"
  shows "queue_rep (adf_nbuf_queue_insert_head b s) (b # qs) \<and> tp_sim {b} (tp s) (tp (adf_nbuf_queue_insert_head b s)) \<and>
    bus_kept s (adf_nbuf_queue_insert_head b s)"
proof -
  have bufs: "(\<lambda>c. tn_next (tx_bufs (tp (adf_nbuf_queue_insert_head b s)) c)) = (\<lambda>c. tn_next (tx_bufs (tp s) c))(b := q_head s)"
    by (auto simp: adf_nbuf_queue_insert_head_def upd_tp_def set_next_bufs Let_def)
  have "qs = [] \<longleftrightarrow> q_head s = None" using rep by (cases qs) (auto simp: queue_rep_def)
  moreover have "tp (adf_nbuf_queue_insert_head b s) = adf_nbuf_set_next b (q_head s) (tp s)"
    by (simp add: adf_nbuf_queue_insert_head_def upd_tp_def Let_def)
  moreover have "bus_kept s (adf_nbuf_queue_insert_head b s)"
    by (simp add: adf_nbuf_queue_insert_head_def upd_tp_def Let_def bus_kept_def tx_kept_def)
  moreover have "q_tail (adf_nbuf_queue_insert_head b s) = (if q_head s = None then Some b else q_tail s)"
    "q_len (adf_nbuf_queue_insert_head b s) = q_len s + 1" "q_head (adf_nbuf_queue_insert_head b s) = Some b"
    by (simp_all add: adf_nbuf_queue_insert_head_def upd_tp_def Let_def)
  ultimately show ?thesis using rep b unfolding queue_rep_def bufs by (auto simp: lseg_frame tp_sim_next)
qed

lemma queue_remove_rep:
  assumes rep: "queue_rep s (b # qs)"
  shows "\<exists>t. adf_nbuf_queue_remove s = (Some b, t) \<and> queue_rep t qs \<and> tp_sim {b} (tp s) (tp t) \<and> bus_kept s t"
proof -
  have head: "q_head s = Some b" and seg: "lseg (\<lambda>b. tn_next (tx_bufs (tp s) b)) (tn_next (tx_bufs (tp s) b)) qs None"
    and tail: "q_tail s = Some (last (b # qs))" and len: "q_len s = of_nat (Suc (length qs))"
    using rep by (simp_all add: queue_rep_def)
  have dist: "b \<notin> set qs" using queue_rep_distinct [OF rep] by simp
  have same: "q_head s = q_tail s \<longleftrightarrow> qs = []"
    using head tail dist by (cases qs rule: rev_cases) auto
  let ?t = "(upd_tp (adf_nbuf_set_next b None) (if qs = [] then s\<lparr>q_head := None, q_tail := None\<rparr>
      else s\<lparr>q_head := tn_next (tx_bufs (tp s) b)\<rparr>))\<lparr>q_len := q_len s - 1\<rparr>"
  have "adf_nbuf_queue_remove s = (Some b, ?t)"
    by (simp add: adf_nbuf_queue_remove_def head upd_tp_def Let_def same [unfolded head])
  moreover have "queue_rep ?t qs"
    using seg tail len dist unfolding queue_rep_def by (auto simp: upd_tp_def set_next_chain lseg_frame)
  ultimately show ?thesis by (intro exI [of _ ?t]) (auto simp: upd_tp_def tp_sim_next bus_kept_def tx_kept_def)
qed

lemma queue_remove_none: "queue_rep s [] \<Longrightarrow> adf_nbuf_queue_remove s = (None, s)"
  by (simp add: queue_rep_def adf_nbuf_queue_remove_def)

text \<open>The queue keeps the contract of the pointer queues.\<close>

definition txq_take :: "tx_pdev \<Rightarrow> (tx_buf \<times> tx_pdev) option" where
  "txq_take s = (case adf_nbuf_queue_remove s of (None, _) \<Rightarrow> None | (Some b, t) \<Rightarrow> Some (b, t))"

interpretation txq: fifo_queue queue_rep txq_take adf_nbuf_queue_add "\<lambda>_ _. True"
proof
  show "txq_take s = None" if "queue_rep s []" for s using queue_remove_none [OF that] by (simp add: txq_take_def)
  show "\<exists>s'. txq_take s = Some (x, s') \<and> queue_rep s' xs \<and> (\<lambda>_. True) = (\<lambda>_. True)" if "queue_rep s (x # xs)" for s x xs
    using queue_remove_rep [OF that] by (auto simp: txq_take_def)
  show "\<exists>s'. adf_nbuf_queue_add x s = Some s' \<and> queue_rep s' (xs @ [x]) \<and> (\<lambda>_. True) = (\<lambda>_. True)"
    if "queue_rep s xs" "x \<notin> set xs" for s x xs using queue_add_rep [OF that] by auto
qed

section \<open>Scheduling\<close>

text \<open>
  The requests of the frames of the queue when they are sent one after another: the length that is
  downloaded only goes down.
\<close>

definition plen :: "tx_pool \<Rightarrow> tx_buf \<Rightarrow> int" where
  "plen p b = sint (adf_nbuf_len (tx_bufs p b))"

primrec sched_requests :: "u32 \<Rightarrow> tx_pool \<Rightarrow> int \<Rightarrow> tx_buf list \<Rightarrow> ce_request list" where
  "sched_requests ep p len [] = []"
| "sched_requests ep p len (b # bs) =
     frame_requests ep b (tx_bufs p b) (min (plen p b) len) @ sched_requests ep p (min (plen p b) len) bs"

lemma frame_requests_sim: "tp_sim A p q \<Longrightarrow> frame_requests ep b (tx_bufs q b) len = frame_requests ep b (tx_bufs p b) len"
  by (simp add: frame_requests_def tp_sim_buf(2))

lemma plen_sim: "tp_sim A p q \<Longrightarrow> plen q b = plen p b"
  by (simp add: plen_def tp_sim_buf(3))

lemma sched_requests_sim: "tp_sim A p q \<Longrightarrow> sched_requests ep q len bs = sched_requests ep p len bs"
  by (induction bs arbitrary: len) (simp_all add: frame_requests_sim plen_sim)

lemma tx_kept_trans: "tx_kept s t \<Longrightarrow> tx_kept t u \<Longrightarrow> tx_kept s u"
  by (simp add: tx_kept_def)

lemma queue_rep_sim:
  assumes "queue_rep s qs" and "tx_bufs (tp t) = tx_bufs (tp s)" "q_head t = q_head s" "q_tail t = q_tail s" "q_len t = q_len s"
  shows "queue_rep t qs"
  using assms by (simp add: queue_rep_def)

lemma plen_framed: "framed (tx_bufs p b) \<Longrightarrow> 0 < plen p b"
  by (simp add: plen_def framed_len add_pos_nonneg)

text \<open>One frame: it is put back, or it is sent and the next one taken.\<close>

lemma sched_step:
  assumes ok: "ce_ok n m s x" and q: "queue_rep s qs" and b: "b \<notin> set qs" "framed (tx_bufs (tp s) b)" and len: "0 < len"
  shows "(\<exists>t y. sched_loop e len (Some b) s = Some t \<and> ce_ok n m t y \<and> requests y = requests x \<and> queue_rep t (b # qs) \<and>
      tp_sim {b} (tp s) (tp t) \<and> tx_kept s t \<and> num_sends_allowed t < 2) \<or>
    (\<exists>t y. sched_loop e len (Some b) s = sched_loop e (min (plen (tp s) b) len) (fst (adf_nbuf_queue_remove t)) (snd (adf_nbuf_queue_remove t)) \<and>
      ce_ok n m t y \<and> requests y = requests x @ frame_requests (ep_id s) b (tx_bufs (tp s) b) (min (plen (tp s) b) len) \<and>
      queue_rep t qs \<and> tp_sim {} (tp s) (tp t) \<and> tx_kept s t)"
proof -
  let ?len = "min (plen (tp s) b) len"
  have pos: "0 < ?len" "?len \<le> packet_len b s" using plen_framed [OF b(2)] len by (simp_all add: packet_len_def plen_def)
  obtain st t y where t: "HTCSendDataPkt e b ?len s = Some (st, t)" "ce_ok n m t y"
      "t = s\<lparr>tx_ce := tx_ce t, num_sends_allowed := num_sends_allowed t, tp := tp t, seq_no := seq_no t\<rparr>"
      "if st = A_OK then tp t = htc_header b ?len s \<and> requests y = requests x @ frame_requests (ep_id s) b (tx_bufs (tp s) b) ?len
       else tp t = tp s \<and> requests y = requests x \<and> num_sends_allowed t < 2"
    using HTCSendDataPkt_ok [OF ok b(2) pos, of e] by blast
  have kept: "tx_kept s t" and qf: "q_head t = q_head s" "q_tail t = q_tail s" "q_len t = q_len s"
    by (subst t(3), simp add: tx_kept_def)+
  have min_len: "(if packet_len b s < len then packet_len b s else len) = ?len" by (auto simp: packet_len_def plen_def)
  have unf: "sched_loop e len (Some b) s =
      (if st \<noteq> A_OK then Some (adf_nbuf_queue_insert_head b t)
       else sched_loop e ?len (fst (adf_nbuf_queue_remove t)) (snd (adf_nbuf_queue_remove t)))"
    using t(1) by (subst sched_loop.simps) (simp add: Let_def min_len)
  show ?thesis
  proof (cases "st = A_OK")
    case True
    then have "tp t = htc_header b ?len s" using t(4) by simp
    then have sim: "tp_sim {} (tp s) (tp t)" and bufs: "tx_bufs (tp t) = tx_bufs (tp s)"
      using tp_sim_header by (simp_all add: htc_header_def upd_htt_def)
    have "queue_rep t qs" using queue_rep_sim [OF q bufs qf] .
    then show ?thesis using True t(2,4) sim kept unf by auto
  next
    case False
    have "tp t = tp s" using t(4) False by simp
    then have "queue_rep t qs" using queue_rep_sim [OF q _ qf] by simp
    from queue_insert_head_rep [OF this b(1)] have u: "queue_rep (adf_nbuf_queue_insert_head b t) (b # qs)"
      "tp_sim {b} (tp s) (tp (adf_nbuf_queue_insert_head b t))" "bus_kept t (adf_nbuf_queue_insert_head b t)"
      using \<open>tp t = tp s\<close> by auto
    have "tx_kept s (adf_nbuf_queue_insert_head b t)" "num_sends_allowed (adf_nbuf_queue_insert_head b t) < 2"
      using u(3) kept tx_kept_trans False t(4) by (auto simp: bus_kept_def)
    moreover have "ce_ok n m (adf_nbuf_queue_insert_head b t) y" using t(2) ce_ok_kept [OF u(3)] by simp
    ultimately show ?thesis using False t(4) u(1,2) unf by auto
  qed
qed

lemma sched_loop_ok:
  assumes "ce_ok n m s x" and "queue_rep s qs" and "b \<notin> set qs" and "\<forall>c \<in> insert b (set qs). framed (tx_bufs (tp s) c)" and "0 < len"
  shows "\<exists>t y k. sched_loop e len (Some b) s = Some t \<and> ce_ok n m t y \<and> queue_rep t (drop k (b # qs)) \<and>
    k \<le> Suc (length qs) \<and> requests y = requests x @ sched_requests (ep_id s) (tp s) len (take k (b # qs)) \<and>
    tp_sim (insert b (set qs)) (tp s) (tp t) \<and> tx_kept s t \<and> (k \<le> length qs \<longrightarrow> num_sends_allowed t < 2)"
  using assms
proof (induction qs arbitrary: b s x len)
  case Nil
  have fb: "framed (tx_bufs (tp s) b)" using Nil.prems by simp
  from sched_step [OF Nil.prems(1,2,3) fb Nil.prems(5), where e = e] show ?case
  proof (elim disjE exE conjE)
    fix t y assume "sched_loop e len (Some b) s = Some t" "ce_ok n m t y" "requests y = requests x" "queue_rep t [b]"
      "tp_sim {b} (tp s) (tp t)" "tx_kept s t" "num_sends_allowed t < 2"
    then show ?thesis by (intro exI [of _ t] exI [of _ y] exI [of _ 0]) simp
  next
    fix t y assume t: "sched_loop e len (Some b) s = sched_loop e (min (plen (tp s) b) len) (fst (adf_nbuf_queue_remove t)) (snd (adf_nbuf_queue_remove t))"
      "ce_ok n m t y" "requests y = requests x @ frame_requests (ep_id s) b (tx_bufs (tp s) b) (min (plen (tp s) b) len)"
      "queue_rep t []" "tp_sim {} (tp s) (tp t)" "tx_kept s t"
    then have "sched_loop e len (Some b) s = Some t" by (simp add: queue_remove_none sched_loop.simps)
    then show ?thesis using t tp_sim_mono [OF t(5), of "{b}"] by (intro exI [of _ t] exI [of _ y] exI [of _ 1]) simp
  qed
next
  case (Cons c qs)
  have fb: "framed (tx_bufs (tp s) b)" using Cons.prems by simp
  let ?len = "min (plen (tp s) b) len"
  from sched_step [OF Cons.prems(1,2,3) fb Cons.prems(5), where e = e] show ?case
  proof (elim disjE exE conjE)
    fix t y assume "sched_loop e len (Some b) s = Some t" "ce_ok n m t y" "requests y = requests x" "queue_rep t (b # c # qs)"
      "tp_sim {b} (tp s) (tp t)" "tx_kept s t" "num_sends_allowed t < 2"
    then show ?thesis using tp_sim_mono [of "{b}" "tp s" "tp t" "insert b (set (c # qs))"]
      by (intro exI [of _ t] exI [of _ y] exI [of _ 0]) simp
  next
    fix t y assume t: "sched_loop e len (Some b) s = sched_loop e ?len (fst (adf_nbuf_queue_remove t)) (snd (adf_nbuf_queue_remove t))"
      "ce_ok n m t y" "requests y = requests x @ frame_requests (ep_id s) b (tx_bufs (tp s) b) ?len"
      "queue_rep t (c # qs)" "tp_sim {} (tp s) (tp t)" "tx_kept s t"
    obtain u where u: "adf_nbuf_queue_remove t = (Some c, u)" "queue_rep u qs" "tp_sim {c} (tp t) (tp u)" "bus_kept t u"
      using queue_remove_rep [OF t(4)] by blast
    have sim: "tp_sim {c} (tp s) (tp u)" using tp_sim_trans [OF t(5) u(3)] by simp
    have kept: "tx_kept s u" using t(6) u(4) tx_kept_trans by (auto simp: bus_kept_def)
    have prems: "ce_ok n m u y" "c \<notin> set qs" "\<forall>d \<in> insert c (set qs). framed (tx_bufs (tp u) d)" "0 < ?len"
      using t(2) ce_ok_kept [OF u(4)] queue_rep_distinct [OF t(4)] Cons.prems(4,5) plen_framed [OF fb]
      by (auto simp: tp_sim_buf(1) [OF sim])
    obtain v z k where v: "sched_loop e ?len (Some c) u = Some v" "ce_ok n m v z" "queue_rep v (drop k (c # qs))"
        "k \<le> Suc (length qs)" "requests z = requests y @ sched_requests (ep_id u) (tp u) ?len (take k (c # qs))"
        "tp_sim (insert c (set qs)) (tp u) (tp v)" "tx_kept u v" "k \<le> length qs \<longrightarrow> num_sends_allowed v < 2"
      using Cons.IH [OF prems(1) u(2) prems(2-4)] by blast
    have ep: "ep_id u = ep_id s" using kept by (simp add: tx_kept_def)
    have "tp_sim (insert b (set (c # qs))) (tp s) (tp v)"
      by (rule tp_sim_mono [OF tp_sim_trans [OF sim v(6)]]) auto
    then show ?thesis using t(1,3) u(1) v tx_kept_trans [OF kept v(7)]
      by (intro exI [of _ v] exI [of _ z] exI [of _ "Suc k"]) (simp add: ep sched_requests_sim [OF sim])
  qed
qed

text \<open>The whole run over a queue.\<close>

lemma htt_tx_sched_ok:
  assumes ok: "ce_ok n m s x" and q: "queue_rep s qs" and fr: "\<forall>c \<in> set qs. framed (tx_bufs (tp s) c)" and len: "0 < download_len s"
  shows "\<exists>t y k. htt_tx_sched e s = Some t \<and> ce_ok n m t y \<and> queue_rep t (drop k qs) \<and>
    k \<le> length qs \<and> requests y = requests x @ sched_requests (ep_id s) (tp s) (download_len s) (take k qs) \<and>
    tp_sim (set qs) (tp s) (tp t) \<and> tx_kept s t \<and> (k < length qs \<longrightarrow> num_sends_allowed t < 2)"
proof (cases qs)
  case Nil
  then show ?thesis using q ok
    by (intro exI [of _ s] exI [of _ x] exI [of _ 0]) (simp add: htt_tx_sched_def queue_remove_none sched_loop.simps tp_sim_refl tx_kept_def)
next
  case (Cons b bs)
  obtain t where t: "adf_nbuf_queue_remove s = (Some b, t)" "queue_rep t bs" "tp_sim {b} (tp s) (tp t)" "bus_kept s t"
    using queue_remove_rep q Cons by blast
  have kept: "tx_kept s t" using t(4) by (simp add: bus_kept_def)
  have prems: "ce_ok n m t x" "b \<notin> set bs" "\<forall>c \<in> insert b (set bs). framed (tx_bufs (tp t) c)"
    using ok ce_ok_kept [OF t(4)] queue_rep_distinct [OF q] fr Cons by (auto simp: tp_sim_buf(1) [OF t(3)])
  obtain u y k where u: "sched_loop e (download_len s) (Some b) t = Some u" "ce_ok n m u y" "queue_rep u (drop k (b # bs))"
      "k \<le> Suc (length bs)" "requests y = requests x @ sched_requests (ep_id t) (tp t) (download_len s) (take k (b # bs))"
      "tp_sim (insert b (set bs)) (tp t) (tp u)" "tx_kept t u" "k \<le> length bs \<longrightarrow> num_sends_allowed u < 2"
    using sched_loop_ok [OF prems(1) t(2) prems(2,3) len, of e] by blast
  have "tp_sim (set qs) (tp s) (tp u)" using tp_sim_mono [OF tp_sim_trans [OF t(3) u(6)]] Cons by auto
  moreover have "ep_id t = ep_id s" using kept by (simp add: tx_kept_def)
  ultimately show ?thesis using t(1) u tx_kept_trans [OF kept u(7)] Cons
    by (intro exI [of _ u] exI [of _ y] exI [of _ k]) (simp add: htt_tx_sched_def sched_requests_sim [OF t(3)])
qed

text \<open>One new frame: behind the queue when there is one, else straight to the transport.\<close>

lemma htt_tx_send_std_ok:
  assumes ok: "ce_ok n m s x" and q: "queue_rep s qs" and small: "length qs < 2 ^ 32 - 1" and b: "b \<notin> set qs"
    and fr: "\<forall>c \<in> insert b (set qs). framed (tx_bufs (tp s) c)" and len: "0 < download_len s"
  shows "\<exists>t y k. htt_tx_send_std e b s = Some (0, t) \<and> ce_ok n m t y \<and> queue_rep t (drop k (qs @ [b])) \<and>
    k \<le> Suc (length qs) \<and> requests y = requests x @ sched_requests (ep_id s) (tp s) (download_len s) (take k (qs @ [b])) \<and>
    tp_sim (insert b (set qs)) (tp s) (tp t) \<and> tx_kept s t \<and> (k \<le> length qs \<longrightarrow> num_sends_allowed t < 2)"
proof (cases qs)
  case Nil
  let ?len = "min (plen (tp s) b) (download_len s)"
  have fb: "framed (tx_bufs (tp s) b)" using fr by simp
  have pos: "0 < ?len" "?len \<le> packet_len b s" using plen_framed [OF fb] len by (simp_all add: packet_len_def plen_def)
  have min_len: "(if packet_len b s < download_len s then packet_len b s else download_len s) = ?len"
    by (auto simp: packet_len_def plen_def)
  obtain st t y where t: "HTCSendDataPkt e b ?len s = Some (st, t)" "ce_ok n m t y"
      "t = s\<lparr>tx_ce := tx_ce t, num_sends_allowed := num_sends_allowed t, tp := tp t, seq_no := seq_no t\<rparr>"
      "if st = A_OK then tp t = htc_header b ?len s \<and> requests y = requests x @ frame_requests (ep_id s) b (tx_bufs (tp s) b) ?len
       else tp t = tp s \<and> requests y = requests x \<and> num_sends_allowed t < 2"
    using HTCSendDataPkt_ok [OF ok fb pos, of e] by blast
  have kept: "tx_kept s t" and qf: "q_head t = q_head s" "q_tail t = q_tail s" "q_len t = q_len s"
    by (subst t(3), simp add: tx_kept_def)+
  have "\<not> 0 < q_len s" using q Nil by (simp add: queue_rep_def)
  then have unf: "htt_tx_send_std e b s =
      map_option (Pair 0) (if st \<noteq> A_OK then adf_nbuf_queue_add b t else Some t)"
    using t(1) by (simp add: htt_tx_send_std_def min_len Let_def)
  show ?thesis
  proof (cases "st = A_OK")
    case True
    then have tp: "tp t = htc_header b ?len s" using t(4) by simp
    then have "tx_bufs (tp t) = tx_bufs (tp s)" by (simp add: htc_header_def upd_htt_def)
    then have "queue_rep t []" using queue_rep_sim [OF q _ qf] Nil by simp
    then show ?thesis using True t(2,4) kept unf tp tp_sim_header Nil
      by (intro exI [of _ t] exI [of _ y] exI [of _ 1]) simp
  next
    case False
    have same: "tp t = tp s" using t(4) False by simp
    then have "queue_rep t []" using queue_rep_sim [OF q _ qf] Nil by simp
    from queue_add_rep [OF this, of b] obtain u where u: "adf_nbuf_queue_add b t = Some u" "queue_rep u [b]"
        "tp_sim {b} (tp t) (tp u)" "bus_kept t u" by auto
    have "tx_kept s u" "num_sends_allowed u < 2" using u(4) kept tx_kept_trans False t(4) by (auto simp: bus_kept_def)
    then show ?thesis using False t(2,4) u ce_ok_kept [OF u(4)] unf same Nil
      by (intro exI [of _ u] exI [of _ y] exI [of _ 0]) simp
  qed
next
  case (Cons c cs)
  have "unat (q_len s) = length qs" using q small by (simp add: queue_rep_def unsigned_of_nat take_bit_nat_eq_self)
  then have "0 < q_len s" using Cons by (simp add: word_less_nat_alt)
  obtain t where t: "adf_nbuf_queue_add b s = Some t" "queue_rep t (qs @ [b])" "tp_sim (insert b (set qs)) (tp s) (tp t)" "bus_kept s t"
    using queue_add_rep [OF q b] by blast
  have kept: "tx_kept s t" using t(4) by (simp add: bus_kept_def)
  have prems: "ce_ok n m t x" "\<forall>c \<in> set (qs @ [b]). framed (tx_bufs (tp t) c)" "0 < download_len t"
    using ok ce_ok_kept [OF t(4)] fr len kept by (auto simp: tp_sim_buf(1) [OF t(3)] tx_kept_def)
  obtain u y k where u: "htt_tx_sched e t = Some u" "ce_ok n m u y" "queue_rep u (drop k (qs @ [b]))" "k \<le> length (qs @ [b])"
      "requests y = requests x @ sched_requests (ep_id t) (tp t) (download_len t) (take k (qs @ [b]))"
      "tp_sim (set (qs @ [b])) (tp t) (tp u)" "tx_kept t u" "k < length (qs @ [b]) \<longrightarrow> num_sends_allowed u < 2"
    using htt_tx_sched_ok [OF prems(1) t(2) prems(2,3), of e] by blast
  have "tp_sim (insert b (set qs)) (tp s) (tp u)" by (rule tp_sim_mono [OF tp_sim_trans [OF t(3) u(6)]]) auto
  moreover have "htt_tx_send_std e b s = Some (0, u)"
    using t(1) u(1) \<open>0 < q_len s\<close> by (simp add: htt_tx_send_std_def Let_def)
  ultimately show ?thesis using u(2-5,8) tx_kept_trans [OF kept u(7)] kept
    by (intro exI [of _ u] exI [of _ y] exI [of _ k]) (auto simp: tx_kept_def sched_requests_sim [OF t(3)])
qed

end
