(* ===== verification/Tx_Reach.thy ===== *)
theory Tx_Reach
  imports Tx_Send_Props "HOL-Library.Multiset"
begin

text \<open>
  The transmit path as a whole: frames are handed to it, the device reads the ring, the target reports
  completions.  The invariant ties the pool, the queue and the pipe together; the properties say that no
  handler goes wrong, that descriptors are what they are used as, that every frame is freed once and is
  mapped for the bus exactly while it is in flight, and that frames go down in the order they came.
\<close>

section \<open>The invariant\<close>

text \<open>The frames the engine has been given, by their contexts: the last item of each.\<close>

definition sent :: "ce_sys \<Rightarrow> u64 list" where
  "sent x = map rq_context (filter (\<lambda>q. rq_flags q AND CE_SEND_FLAG_GATHER = 0) (requests x))"

text \<open>
  Frames wait in the queue only while fewer than two entries are known to be free, and no frame takes more
  than two.
\<close>

definition tx_inv ::
    "nat \<Rightarrow> u32 \<Rightarrow> u32 \<Rightarrow> tx_pdev \<Rightarrow> ce_sys \<Rightarrow> nat list \<Rightarrow> (nat \<rightharpoonup> tx_buf) \<Rightarrow> tx_buf list \<Rightarrow> bool" where
  "tx_inv k n m s x fl us qs \<longleftrightarrow> pool_rep k (tp s) fl us \<and> ce_ok n m s x \<and> queue_rep s qs \<and> inj_on us (dom us) \<and>
     set qs \<subseteq> ran us \<and> (\<forall>b \<in> ran us. framed (tx_bufs (tp s) b)) \<and> 0 < download_len s \<and>
     (qs \<noteq> [] \<longrightarrow> num_sends_allowed s < 2) \<and> length (requests x) \<le> 2 * length (sent x)"

lemma ce_ok_tp [simp]: "ce_ok n m (s\<lparr>tp := p\<rparr>) x = ce_ok n m s x" "ce_ok n m (s\<lparr>tp := p, tx_links := l\<rparr>) x = ce_ok n m s x"
  by (simp_all add: ce_ok_def)

lemma inj_ran_card: "finite (dom us) \<Longrightarrow> inj_on us (dom us) \<Longrightarrow> card (ran us) = card (dom us)"
proof -
  assume "finite (dom us)" "inj_on us (dom us)"
  then have "card (us ` dom us) = card (dom us)" by (simp add: card_image)
  moreover have "us ` dom us = Some ` ran us" by (force simp: ran_def dom_def)
  ultimately show ?thesis by (simp add: card_image)
qed

lemma tx_inv_small: "tx_inv k n m s x fl us qs \<Longrightarrow> length qs < 2 ^ 16"
proof -
  assume inv: "tx_inv k n m s x fl us qs"
  have dom: "dom us \<subseteq> {..< unat (pool_size (tp s))}" using inv by (auto simp: tx_inv_def pool_rep_def)
  then have fin: "finite (dom us)" by (rule finite_subset) simp
  then have fin_ran: "finite (ran us)" by (simp add: finite_ran)
  have "queue_rep s qs" using inv by (simp add: tx_inv_def)
  then have "length qs = card (set qs)" by (simp add: distinct_card queue_rep_distinct)
  also have "\<dots> \<le> card (ran us)" using inv fin_ran by (intro card_mono) (auto simp: tx_inv_def)
  also have "\<dots> \<le> unat (pool_size (tp s))" using inv inj_ran_card [OF fin] card_mono [OF _ dom] by (simp add: tx_inv_def)
  also have "\<dots> < 2 ^ 16" using unsigned_less [of "pool_size (tp s)", where ?'a = nat] by simp
  finally show ?thesis .
qed

section \<open>A frame goes down\<close>

lemma tx_taken_bufs:
  "tx_bufs (tx_taken vdev b mi d p) = (tx_bufs p)(b := tx_prefixed (desc_mem p d) (tx_bufs p b))"
  "dma_maps (tx_taken vdev b mi d p) = dma_maps p" "tx_freed (tx_taken vdev b mi d p) = tx_freed p"
  "tx_notices (tx_taken vdev b mi d p) = tx_notices p" "pool_size (tx_taken vdev b mi d p) = pool_size p"
  "data_cb (tx_taken vdev b mi d p) = data_cb p" "ota_ack_cbs (tx_taken vdev b mi d p) = ota_ack_cbs p"
  by (simp_all add: tx_taken_def Let_def)

lemma tx_prefixed_simps:
  "tn_next (tx_prefixed d n) = tn_next n" "tn_ipa (tx_prefixed d n) = tn_ipa n" "tn_len (tx_prefixed d n) = tn_len n"
  "framed (tx_prefixed d n) \<longleftrightarrow> tn_len n < 2 ^ 30"
  by (simp_all add: tx_prefixed_def framed_def)

lemma sent_frame:
  assumes "requests y = requests x @ frame_requests ep b nb len"
  shows "sent y = sent x @ [of_nat b]"
proof -
  have flags: "item_flags it = 0 \<or> item_flags it = CE_SEND_FLAG_SWAP_DISABLE" if "it \<in> set (frame_items nb len)" for it
    using that by (auto simp: frame_items_def split: if_splits)
  have ne: "frame_items nb len \<noteq> []" by (simp add: frame_items_def)
  have "rq_flags (ce_gather_request ep it) AND CE_SEND_FLAG_GATHER \<noteq> 0" if "it \<in> set (butlast (frame_items nb len))" for it
    using flags [OF in_set_butlastD [OF that]] by (auto simp: ce_item_request_def CE_SEND_FLAG_SWAP_DISABLE_def CE_SEND_FLAG_GATHER_def)
  then have "filter (\<lambda>q. rq_flags q AND CE_SEND_FLAG_GATHER = 0) (map (ce_gather_request ep) (butlast (frame_items nb len))) = []"
    by (auto simp: filter_empty_conv)
  moreover have "rq_flags (ce_item_request (of_nat b) ep 0 (last (frame_items nb len))) AND CE_SEND_FLAG_GATHER = 0"
    using flags [OF last_in_set [OF ne]] by (auto simp: ce_item_request_def CE_SEND_FLAG_SWAP_DISABLE_def CE_SEND_FLAG_GATHER_def)
  ultimately show ?thesis using assms by (simp add: sent_def frame_requests_def ce_item_request_def)
qed

lemma sent_sched: "requests y = requests x @ sched_requests ep p len bs \<Longrightarrow> sent y = sent x @ map of_nat bs"
proof (induction bs arbitrary: x len)
  case Nil
  then show ?case by (simp add: sent_def)
next
  case (Cons b bs)
  let ?z = "x\<lparr>requests := requests x @ frame_requests ep b (tx_bufs p b) (min (plen p b) len)\<rparr>"
  have "sent ?z = sent x @ [of_nat b]" by (rule sent_frame) simp
  moreover have "sent y = sent ?z @ map of_nat bs" using Cons.prems by (intro Cons.IH) simp
  ultimately show ?case by simp
qed

lemma sched_requests_length: "length (sched_requests ep p len bs) \<le> 2 * length bs"
proof (induction bs arbitrary: len)
  case Nil
  then show ?case by simp
next
  case (Cons b bs)
  have "length (frame_requests ep b (tx_bufs p b) l) \<le> 2" for l by (simp add: frame_requests_def frame_items_def)
  from add_mono [OF this Cons.IH] show ?case by simp
qed

lemma sent_length:
  assumes "length (requests x) \<le> 2 * length (sent x)" and "requests y = requests x @ sched_requests ep p len bs"
  shows "length (requests y) \<le> 2 * length (sent y)"
  using assms(1) sent_sched [OF assms(2)] sched_requests_length [of ep p len bs] by (simp add: assms(2))

text \<open>What the sender may assume of the next frame: it is not in the driver and no fragment precedes it.\<close>

definition fresh :: "tx_pool \<Rightarrow> (nat \<rightharpoonup> tx_buf) \<Rightarrow> tx_buf \<Rightarrow> bool" where
  "fresh p us b \<longleftrightarrow> b \<notin> ran us \<and> tn_frags (tx_bufs p b) = [] \<and> tn_len (tx_bufs p b) < 2 ^ 30"

lemma ol_tx_send_ok:
  assumes inv: "tx_inv k n m s x (i # fl) us qs" and b: "fresh (tp s) us b"
  shows "\<exists>t y qs'. ol_tx_send e tbl (dptr k i) b (s\<lparr>tp := tx_taken vdev b mi (dptr k i) (tp s)\<rparr>) = Some t \<and>
    tx_inv k n m t y fl (us(i \<mapsto> b)) qs' \<and> sent y @ map of_nat qs' = sent x @ map of_nat (qs @ [b]) \<and>
    tp_sim (insert b (set qs)) (tx_taken vdev b mi (dptr k i) (tp s)) (tp t) \<and> tx_kept s t \<and> set qs' \<subseteq> insert b (set qs)"
proof -
  let ?p = "tx_taken vdev b mi (dptr k i) (tp s)"
  let ?s = "s\<lparr>tp := ?p\<rparr>"
  have rep: "pool_rep k (tp s) (i # fl) us" using inv by (simp add: tx_inv_def)
  have us: "us i = None" using rep by (auto simp: pool_rep_def)
  have bq: "b \<notin> set qs" using inv b by (auto simp: tx_inv_def fresh_def)
  have rep': "pool_rep k ?p fl (us(i \<mapsto> b))" using pool_rep_take [OF rep] b by (simp add: fresh_def)
  have ok: "ce_ok n m ?s x" using inv by (simp add: tx_inv_def)
  have "lseg (\<lambda>c. tn_next (tx_bufs ?p c)) (q_head s) qs None = lseg (\<lambda>c. tn_next (tx_bufs (tp s) c)) (q_head s) qs None"
    by (intro lseg_cong) (auto simp: tx_taken_bufs tx_prefixed_simps)
  then have q: "queue_rep ?s qs" using inv by (simp add: tx_inv_def queue_rep_def)
  have fr: "\<forall>c \<in> ran (us(i \<mapsto> b)). framed (tx_bufs ?p c)"
    using inv b us by (auto simp: tx_inv_def tx_taken_bufs tx_prefixed_simps fresh_def)
  have ran: "ran (us(i \<mapsto> b)) = insert b (ran us)" using us by simp
  have frq: "\<forall>c \<in> insert b (set qs). framed (tx_bufs (tp ?s) c)" using fr inv unfolding ran by (auto simp: tx_inv_def)
  have len: "0 < download_len ?s" using inv by (simp add: tx_inv_def)
  obtain t y j where t: "htt_tx_send_std e b ?s = Some (0, t)" "ce_ok n m t y" "queue_rep t (drop j (qs @ [b]))"
      "j \<le> Suc (length qs)" "requests y = requests x @ sched_requests (ep_id ?s) (tp ?s) (download_len ?s) (take j (qs @ [b]))"
      "tp_sim (insert b (set qs)) (tp ?s) (tp t)" "tx_kept ?s t" "j \<le> length qs \<longrightarrow> num_sends_allowed t < 2"
    using htt_tx_send_std_ok [OF ok q _ bq frq len, of e] tx_inv_small [OF inv] by auto
  have sim: "tp_sim (insert b (set qs)) ?p (tp t)" using t(6) by simp
  have "inj_on (us(i \<mapsto> b)) (dom (us(i \<mapsto> b)))"
    using inv b us by (auto simp: tx_inv_def inj_on_def fresh_def ran_def)
  moreover have "set (drop j (qs @ [b])) \<subseteq> ran (us(i \<mapsto> b))"
    using inv set_drop_subset [of j "qs @ [b]"] unfolding ran by (auto simp: tx_inv_def)
  moreover have "drop j (qs @ [b]) \<noteq> [] \<longrightarrow> num_sends_allowed t < 2" using t(8) by (cases "j \<le> length qs") simp_all
  moreover have "length (requests y) \<le> 2 * length (sent y)" using inv sent_length [OF _ t(5)] by (simp add: tx_inv_def)
  ultimately have "tx_inv k n m t y fl (us(i \<mapsto> b)) (drop j (qs @ [b]))"
    using t(2,3,7) tp_sim_rep [OF sim rep'] fr len by (simp add: tx_inv_def tp_sim_buf(1) [OF sim] tx_kept_def)
  moreover have "sent y @ map of_nat (drop j (qs @ [b])) = sent x @ map of_nat (qs @ [b])"
    using sent_sched [OF t(5)] by (metis append.assoc append_take_drop_id map_append)
  moreover have "ol_tx_send e tbl (dptr k i) b ?s = Some t" using t(1) by (simp add: ol_tx_send_def)
  moreover have "tx_kept s t" using t(7) by (simp add: tx_kept_def)
  moreover have "set (drop j (qs @ [b])) \<subseteq> insert b (set qs)" using set_drop_subset [of j "qs @ [b]"] by auto
  ultimately show ?thesis using sim by blast
qed

section \<open>A list of frames\<close>

definition map_ok :: "tx_env \<Rightarrow> tx_pool \<Rightarrow> tx_buf \<Rightarrow> bool" where
  "map_ok e p b \<longleftrightarrow> tn_ipa (tx_bufs p b) \<or> fst (te_map e b)"

text \<open>Buffers that were not handed in, and the fields the path does not write, stay.\<close>

definition bufs_kept :: "tx_buf set \<Rightarrow> tx_pool \<Rightarrow> tx_pool \<Rightarrow> bool" where
  "bufs_kept A p q \<longleftrightarrow> (\<forall>b. b \<notin> A \<longrightarrow> tx_bufs q b = tx_bufs p b) \<and>
     (\<forall>b. tn_ipa (tx_bufs q b) = tn_ipa (tx_bufs p b) \<and> tn_len (tx_bufs q b) = tn_len (tx_bufs p b))"

lemma bufs_kept_trans: "bufs_kept A p q \<Longrightarrow> bufs_kept B q r \<Longrightarrow> bufs_kept (A \<union> B) p r"
  by (simp add: bufs_kept_def)

lemma bufs_kept_mono: "bufs_kept A p q \<Longrightarrow> A \<subseteq> B \<Longrightarrow> bufs_kept B p q"
  by (auto simp: bufs_kept_def)

lemma bufs_kept_sim: "tp_sim A p q \<Longrightarrow> bufs_kept A p q"
  by (simp add: bufs_kept_def tp_sim_buf) (simp add: tp_sim_def)

text \<open>The frame has been mapped: only its address and the count of its mappings change.\<close>

definition mapped :: "tx_env \<Rightarrow> tx_buf \<Rightarrow> tx_pool \<Rightarrow> tx_pool" where
  "mapped e b p = (if tn_ipa (tx_bufs p b) then p else snd (adf_nbuf_map_single (fst (te_map e b)) (snd (te_map e b)) b p))"

lemma mapped_fields:
  "tx_bufs (mapped e b p) c = (if c = b \<and> \<not> tn_ipa (tx_bufs p b) then (tx_bufs p b)\<lparr>tn_paddr := snd (te_map e b)\<rparr> else tx_bufs p c)"
  "tx_freed (mapped e b p) = tx_freed p" "tx_notices (mapped e b p) = tx_notices p" "pool_size (mapped e b p) = pool_size p"
  "data_cb (mapped e b p) = data_cb p" "ota_ack_cbs (mapped e b p) = ota_ack_cbs p" "desc_mem (mapped e b p) = desc_mem p"
  "dma_maps (mapped e b p) c = dma_maps p c + (if c = b \<and> \<not> tn_ipa (tx_bufs p b) \<and> fst (te_map e b) then 1 else 0)"
  by (auto simp: mapped_def adf_nbuf_map_single_def upd_buf_def)

lemma mapped_next: "(\<lambda>c. tn_next (tx_bufs (mapped e b p) c)) = (\<lambda>c. tn_next (tx_bufs p c))"
  by (auto simp: mapped_fields)

lemma mapped_kept: "bufs_kept {b} p (mapped e b p)"
  by (simp add: bufs_kept_def mapped_fields)

lemma mapped_inv:
  assumes "tx_inv k n m s x fl us qs" and "b \<notin> ran us"
  shows "tx_inv k n m (s\<lparr>tp := mapped e b (tp s)\<rparr>) x fl us qs"
proof -
  have "pool_rep k (mapped e b (tp s)) fl us"
    using assms(1) unfolding tx_inv_def
    by (elim conjE) (erule pool_rep_cong, auto simp: mapped_def adf_nbuf_map_single_def upd_buf_def)
  moreover have "queue_rep (s\<lparr>tp := mapped e b (tp s)\<rparr>) qs"
    using assms(1) by (simp add: tx_inv_def queue_rep_def mapped_next)
  moreover have "framed (tx_bufs (mapped e b (tp s)) c)" if "c \<in> ran us" for c
    using assms that by (auto simp: tx_inv_def mapped_fields)
  ultimately show ?thesis using assms(1) by (simp add: tx_inv_def)
qed

text \<open>All frames are plain, the only kind this entry hands down, and no descriptor is counted.\<close>

definition all_std :: "nat \<Rightarrow> tx_pool \<Rightarrow> bool" where
  "all_std k p \<longleftrightarrow> (\<forall>i < unat (pool_size p). ref_cnt (desc_mem p (dptr k i)) = 0 \<and>
     (\<forall>b. td_first (desc_mem p (dptr k i)) = First_netbuf b \<longrightarrow> pkt_type (desc_mem p (dptr k i)) = ol_tx_frm_std))"

lemma all_std_cong: "all_std k p \<Longrightarrow> desc_mem q = desc_mem p \<Longrightarrow> pool_size q = pool_size p \<Longrightarrow> all_std k q"
  by (simp add: all_std_def)

lemma all_std_kinds: "all_std k p \<Longrightarrow> kinds_kept p q \<Longrightarrow> pool_size q = pool_size p \<Longrightarrow> all_std k q"
  unfolding all_std_def kinds_kept_def by metis

lemma all_std_taken: "all_std k p \<Longrightarrow> all_std k (tx_taken vdev b mi d p)"
  by (auto simp: all_std_def tx_taken_def Let_def)

text \<open>
  Where the loop stops: at the first frame that could not be mapped, or for which there is no descriptor
  left; the frames before are in the descriptors in the order of the free list.
\<close>

definition ll_stop :: "(tx_buf \<Rightarrow> bool) \<Rightarrow> nat list \<Rightarrow> tx_buf list \<Rightarrow> nat" where
  "ll_stop ok fl bs = min (length fl) (length (takeWhile ok bs))"

definition ll_result :: "tx_env \<Rightarrow> tx_pdev \<Rightarrow> ce_sys \<Rightarrow> nat list \<Rightarrow> (nat \<rightharpoonup> tx_buf) \<Rightarrow> tx_buf list \<Rightarrow> tx_buf list \<Rightarrow>
    nat \<Rightarrow> u32 \<Rightarrow> u32 \<Rightarrow> tx_buf option \<Rightarrow> tx_pdev \<Rightarrow> bool" where
  "ll_result e s x fl us qs bs k n m ret t \<longleftrightarrow>
     (\<exists>y us' qs'. let j = ll_stop (map_ok e (tp s)) fl bs; rejected = j < length bs \<and> map_ok e (tp s) (bs ! j)
      in tx_inv k n m t y (drop j fl) us' qs' \<and> ran us' = ran us \<union> set (take j bs) \<and>
         sent y @ map of_nat qs' = sent x @ map of_nat (qs @ take j bs) \<and>
         ret = (if rejected then Some (bs ! j) else None) \<and>
         (rejected \<longrightarrow> lseg (\<lambda>b. tn_next (tx_bufs (tp t) b)) ret (drop j bs) None) \<and>
         tx_freed (tp t) = tx_freed (tp s) @ (if rejected then [] else drop j bs) \<and>
         (\<forall>c. dma_maps (tp t) c = dma_maps (tp s) c + (if c \<in> set (take j bs) \<and> \<not> tn_ipa (tx_bufs (tp s) c) then 1 else 0)
            - (if ret = Some c \<and> tn_ipa (tx_bufs (tp s) c) then 1 else 0)) \<and>
         bufs_kept (set qs \<union> set bs) (tp s) (tp t) \<and> tx_kept s t \<and> (all_std k (tp s) \<longrightarrow> all_std k (tp t)) \<and>
         tx_notices (tp t) = tx_notices (tp s) \<and>
         pool_size (tp t) = pool_size (tp s) \<and> data_cb (tp t) = data_cb (tp s) \<and> ota_ack_cbs (tp t) = ota_ack_cbs (tp s))"

lemma ol_tx_ll_step:
  "ol_tx_ll_loop e mi (Some b) s =
     (if \<not> map_ok e (tp s) b then map_option (\<lambda>p. (None, s\<lparr>tp := p\<rparr>)) (adf_nbuf_tx_free (Some b) (mapped e b (tp s)))
      else case ol_tx_desc_ll (te_vdev e) b (mi\<lparr>mi_ext_tid := tn_tid (tx_bufs (tp s) b)\<rparr>) (mapped e b (tp s)) of
             None \<Rightarrow> None
           | Some (None, p2) \<Rightarrow> Some (Some b, s\<lparr>tp := adf_nbuf_unmap_single b p2\<rparr>)
           | Some (Some d, p2) \<Rightarrow>
               (case ol_tx_send (te_nentries e) (te_table e) d b (s\<lparr>tp := p2\<rparr>) of
                  None \<Rightarrow> None
                | Some s' \<Rightarrow> ol_tx_ll_loop e (tx_info (te_vdev e) (tx_bufs (mapped e b (tp s)) b) (mi\<lparr>mi_ext_tid := tn_tid (tx_bufs (tp s) b)\<rparr>))
                    (tn_next (tx_bufs p2 b)) s'))"
  by (subst ol_tx_ll_loop.simps)
    (simp add: Let_def map_ok_def mapped_def adf_nbuf_map_single_def cong del: option.case_cong_weak)

lemma ll_resultI:
  assumes "j = ll_stop (map_ok e (tp s)) fl bs" and "rejected \<longleftrightarrow> j < length bs \<and> map_ok e (tp s) (bs ! j)"
    and "tx_inv k n m t y (drop j fl) us' qs'" and "ran us' = ran us \<union> set (take j bs)"
    and "sent y @ map of_nat qs' = sent x @ map of_nat (qs @ take j bs)"
    and "ret = (if rejected then Some (bs ! j) else None)"
    and "rejected \<longrightarrow> lseg (\<lambda>b. tn_next (tx_bufs (tp t) b)) ret (drop j bs) None"
    and "tx_freed (tp t) = tx_freed (tp s) @ (if rejected then [] else drop j bs)"
    and "\<And>c. dma_maps (tp t) c = dma_maps (tp s) c + (if c \<in> set (take j bs) \<and> \<not> tn_ipa (tx_bufs (tp s) c) then 1 else 0)
            - (if ret = Some c \<and> tn_ipa (tx_bufs (tp s) c) then 1 else 0)"
    and "bufs_kept (set qs \<union> set bs) (tp s) (tp t)" and "tx_kept s t" and "all_std k (tp s) \<longrightarrow> all_std k (tp t)"
    and "tx_notices (tp t) = tx_notices (tp s) \<and> pool_size (tp t) = pool_size (tp s) \<and> data_cb (tp t) = data_cb (tp s) \<and>
      ota_ack_cbs (tp t) = ota_ack_cbs (tp s)"
  shows "ll_result e s x fl us qs bs k n m ret t"
  unfolding ll_result_def Let_def assms(1) [symmetric] assms(2) [symmetric]
  by (intro exI [of _ y] exI [of _ us'] exI [of _ qs'] conjI allI assms(3-12)) (use assms(13) in simp_all)

lemma ol_tx_ll_ok:
  assumes "tx_inv k n m s x fl us qs" and "lseg (\<lambda>b. tn_next (tx_bufs (tp s) b)) msdu bs None"
    and "\<forall>b \<in> set bs. fresh (tp s) us b"
  shows "\<exists>ret t. ol_tx_ll_loop e mi msdu s = Some (ret, t) \<and> ll_result e s x fl us qs bs k n m ret t"
  using assms
proof (induction bs arbitrary: s x fl us qs msdu mi)
  case Nil
  have "ll_result e s x fl us qs [] k n m None s"
    using Nil.prems(1) by (intro ll_resultI [of 0 _ _ _ _ False _ _ _ _ x us qs]) (simp_all add: ll_stop_def bufs_kept_def tx_kept_def)
  then show ?case using Nil.prems(2) by (intro exI [of _ None] exI [of _ s]) (simp add: ol_tx_ll_loop.simps)
next
  case (Cons b bs)
  let ?p = "mapped e b (tp s)" and ?mi = "mi\<lparr>mi_ext_tid := tn_tid (tx_bufs (tp s) b)\<rparr>"
  have msdu: "msdu = Some b" and seg: "lseg (\<lambda>b. tn_next (tx_bufs (tp s) b)) (tn_next (tx_bufs (tp s) b)) bs None"
    using Cons.prems(2) by auto
  have dist: "b \<notin> set bs" using lseg_acyclic [OF Cons.prems(2)] by simp
  have b: "fresh (tp s) us b" using Cons.prems(3) by simp
  have bran: "b \<notin> ran us" using b by (simp add: fresh_def)
  note inv1 = mapped_inv [OF Cons.prems(1) bran, of e]
  have rep1: "pool_rep k ?p fl us" using inv1 by (simp add: tx_inv_def)
  have fresh1: "fresh ?p us b" using b by (simp add: fresh_def mapped_fields)
  have chain1: "lseg (\<lambda>b. tn_next (tx_bufs ?p b)) msdu (b # bs) None" using Cons.prems(2) by (simp add: mapped_next)
  show ?case
  proof (cases "map_ok e (tp s) b")
    case False
    let ?t = "s\<lparr>tp := ?p\<lparr>tx_freed := tx_freed ?p @ b # bs\<rparr>\<rparr>"
    have run: "ol_tx_ll_loop e mi msdu s = Some (None, ?t)"
      using False tx_free_list [OF chain1] by (simp add: msdu ol_tx_ll_step)
    have ipa: "\<not> tn_ipa (tx_bufs (tp s) b)" "\<not> fst (te_map e b)" using False by (auto simp: map_ok_def)
    have "pool_rep k (?p\<lparr>tx_freed := tx_freed ?p @ b # bs\<rparr>) fl us"
      by (rule pool_rep_cong [OF rep1]) simp_all
    then have "tx_inv k n m ?t x fl us qs" using inv1 by (simp add: tx_inv_def queue_rep_def)
    moreover have "bufs_kept (set qs \<union> set (b # bs)) (tp s) (tp ?t)"
      using mapped_kept [of b "tp s" e] by (auto simp: bufs_kept_def)
    ultimately have "ll_result e s x fl us qs (b # bs) k n m None ?t"
      using False ipa by (intro ll_resultI [of 0 _ _ _ _ False _ _ _ _ x us qs])
        (simp_all add: ll_stop_def mapped_fields tx_kept_def all_std_def)
    then show ?thesis using run by blast
  next
    case True
    show ?thesis
    proof (cases fl)
      case Nil
      have none: "ol_tx_desc_ll (te_vdev e) b ?mi ?p = Some (None, ?p)"
        by (rule desc_ll_none [OF rep1 [unfolded Nil]])
      let ?t = "s\<lparr>tp := adf_nbuf_unmap_single b ?p\<rparr>"
      have run: "ol_tx_ll_loop e mi msdu s = Some (Some b, ?t)"
        using True none by (simp add: msdu ol_tx_ll_step)
      have "pool_rep k (adf_nbuf_unmap_single b ?p) fl us"
        by (rule pool_rep_cong [OF rep1]) (simp_all add: adf_nbuf_unmap_single_def)
      then have "tx_inv k n m ?t x fl us qs"
        using inv1 by (simp add: tx_inv_def queue_rep_def adf_nbuf_unmap_single_def)
      moreover have "bufs_kept (set qs \<union> set (b # bs)) (tp s) (tp ?t)"
        using mapped_kept [of b "tp s" e] by (auto simp: bufs_kept_def adf_nbuf_unmap_single_def)
      moreover have "lseg (\<lambda>b. tn_next (tx_bufs (tp ?t) b)) (Some b) (b # bs) None"
        using chain1 by (simp add: msdu adf_nbuf_unmap_single_def)
      moreover have "dma_maps (tp ?t) c = dma_maps (tp s) c - (if c = b \<and> tn_ipa (tx_bufs (tp s) c) then 1 else 0)" for c
        using True by (auto simp: adf_nbuf_unmap_single_def mapped_fields map_ok_def)
      moreover have "tx_freed (tp ?t) = tx_freed (tp s)" "tx_kept s ?t" "tx_notices (tp ?t) = tx_notices (tp s) \<and>
          pool_size (tp ?t) = pool_size (tp s) \<and> data_cb (tp ?t) = data_cb (tp s) \<and> ota_ack_cbs (tp ?t) = ota_ack_cbs (tp s)"
        by (simp_all add: mapped_fields tx_kept_def adf_nbuf_unmap_single_def)
      moreover have "all_std k (tp s) \<longrightarrow> all_std k (tp ?t)"
        by (intro impI, erule all_std_cong) (simp_all add: mapped_fields adf_nbuf_unmap_single_def)
      ultimately have "ll_result e s x fl us qs (b # bs) k n m (Some b) ?t"
        using True Nil by (intro ll_resultI [of 0 _ _ _ _ True _ _ _ _ x us qs]) (auto simp: ll_stop_def)
      then show ?thesis using run by blast
    next
      case fl: (Cons i fl')
      let ?q = "tx_taken (te_vdev e) b ?mi (dptr k i) ?p"
      have take: "ol_tx_desc_ll (te_vdev e) b ?mi ?p = Some (Some (dptr k i), ?q)"
        using rep1 fresh1 by (intro desc_ll_eq) (simp_all add: fl fresh_def)
      obtain t y qs' where t: "ol_tx_send (te_nentries e) (te_table e) (dptr k i) b (s\<lparr>tp := ?q\<rparr>) = Some t"
          "tx_inv k n m t y fl' (us(i \<mapsto> b)) qs'" "sent y @ map of_nat qs' = sent x @ map of_nat (qs @ [b])"
          "tp_sim (insert b (set qs)) ?q (tp t)" "tx_kept s t" "set qs' \<subseteq> insert b (set qs)"
        using ol_tx_send_ok [OF inv1 [unfolded fl], of b "te_nentries e" "te_table e" "te_vdev e" ?mi] fresh1
        by (auto simp: tx_kept_def)
      have keptq: "bufs_kept {b} (tp s) ?q"
        using mapped_kept [of b "tp s" e] by (auto simp: bufs_kept_def tx_taken_bufs tx_prefixed_simps)
      have kept: "bufs_kept (insert b (set qs)) (tp s) (tp t)"
        using bufs_kept_mono [OF bufs_kept_trans [OF keptq bufs_kept_sim [OF t(4)]]] by auto
      have same: "tx_bufs (tp t) c = tx_bufs (tp s) c" if "c \<in> set bs" for c
      proof -
        have "c \<noteq> b" "c \<notin> set qs" using that dist Cons.prems(1,3) by (auto simp: fresh_def tx_inv_def)
        then show ?thesis using kept by (simp add: bufs_kept_def)
      qed
      have us: "us i = None" using rep1 by (auto simp: fl pool_rep_def)
      then have ran: "ran (us(i \<mapsto> b)) = insert b (ran us)" by simp
      have chain: "lseg (\<lambda>b. tn_next (tx_bufs (tp t) b)) (tn_next (tx_bufs (tp s) b)) bs None"
        using seg same by (simp cong: lseg_cong)
      have fresh: "\<forall>c \<in> set bs. fresh (tp t) (us(i \<mapsto> b)) c"
        using Cons.prems(3) dist same by (auto simp: fresh_def ran)
      have nxt: "tn_next (tx_bufs ?q b) = tn_next (tx_bufs (tp s) b)"
        by (simp add: tx_taken_bufs tx_prefixed_simps mapped_fields)
      obtain ret u where u: "ol_tx_ll_loop e (tx_info (te_vdev e) (tx_bufs ?p b) ?mi) (tn_next (tx_bufs (tp s) b)) t = Some (ret, u)"
          "ll_result e t y fl' (us(i \<mapsto> b)) qs' bs k n m ret u"
        using Cons.IH [OF t(2) chain fresh] by blast
      have run: "ol_tx_ll_loop e mi msdu s = Some (ret, u)"
        using True take t(1) u(1) nxt by (simp add: msdu ol_tx_ll_step)
      have ok: "map_ok e (tp t) = map_ok e (tp s)" using kept by (simp add: map_ok_def bufs_kept_def fun_eq_iff)
      have ipa: "tn_ipa (tx_bufs (tp t) c) = tn_ipa (tx_bufs (tp s) c)" for c using kept by (simp add: bufs_kept_def)
      note f = tp_sim_fields [OF t(4)]
      let ?j = "ll_stop (map_ok e (tp s)) fl' bs"
      let ?rej = "?j < length bs \<and> map_ok e (tp s) (bs ! ?j)"
      obtain z us2 qs2 where z: "tx_inv k n m u z (drop ?j fl') us2 qs2" "ran us2 = ran (us(i \<mapsto> b)) \<union> set (take ?j bs)"
          "sent z @ map of_nat qs2 = sent y @ map of_nat (qs' @ take ?j bs)" "ret = (if ?rej then Some (bs ! ?j) else None)"
          "?rej \<longrightarrow> lseg (\<lambda>b. tn_next (tx_bufs (tp u) b)) ret (drop ?j bs) None"
          "tx_freed (tp u) = tx_freed (tp t) @ (if ?rej then [] else drop ?j bs)"
          "\<forall>c. dma_maps (tp u) c = dma_maps (tp t) c + (if c \<in> set (take ?j bs) \<and> \<not> tn_ipa (tx_bufs (tp t) c) then 1 else 0)
            - (if ret = Some c \<and> tn_ipa (tx_bufs (tp t) c) then 1 else 0)"
          "bufs_kept (set qs' \<union> set bs) (tp t) (tp u)" "tx_kept t u" "all_std k (tp t) \<longrightarrow> all_std k (tp u)" "tx_notices (tp u) = tx_notices (tp t)"
          "pool_size (tp u) = pool_size (tp t)" "data_cb (tp u) = data_cb (tp t)" "ota_ack_cbs (tp u) = ota_ack_cbs (tp t)"
        using u(2) unfolding ll_result_def Let_def ok by blast
      have j: "ll_stop (map_ok e (tp s)) fl (b # bs) = Suc ?j" using True by (simp add: ll_stop_def fl)
      have keptu: "bufs_kept (set qs \<union> set (b # bs)) (tp s) (tp u)"
        by (rule bufs_kept_mono [OF bufs_kept_trans [OF kept z(8)]]) (use t(6) in auto)
      have dma: "dma_maps (tp t) c = dma_maps (tp s) c + (if c = b \<and> \<not> tn_ipa (tx_bufs (tp s) c) then 1 else 0)" for c
        using f True by (auto simp: tx_taken_bufs mapped_fields map_ok_def)
      have dmau: "dma_maps (tp u) c = dma_maps (tp s) c + (if c \<in> set (take (Suc ?j) (b # bs)) \<and> \<not> tn_ipa (tx_bufs (tp s) c) then 1 else 0)
            - (if ret = Some c \<and> tn_ipa (tx_bufs (tp s) c) then 1 else 0)" for c
        using z(7) dist by (auto simp: dma ipa dest: in_set_takeD)
      have "all_std k (tp t)" if "all_std k (tp s)"
      proof -
        have "all_std k ?p" by (rule all_std_cong [OF that]) (simp_all add: mapped_fields)
        from all_std_cong [OF all_std_taken [OF this]] f show ?thesis by simp
      qed
      then have std: "all_std k (tp s) \<longrightarrow> all_std k (tp u)" using z(10) by blast
      have "ll_result e s x fl us qs (b # bs) k n m ret u"
        by (rule ll_resultI [of "Suc ?j" _ _ _ _ ?rej _ _ _ _ z us2 qs2])
          (use j z(1-9,11-) t(3,5) keptu dmau f tx_kept_trans [OF t(5) z(9)] in \<open>simp_all add: std fl ran tx_taken_bufs mapped_fields\<close>)
      then show ?thesis using run by blast
    qed
  qed
qed

end
