(* ===== verification/Tx_Compl.thy ===== *)
theory Tx_Compl
  imports Tx_Reach
begin

text \<open>
  Completions: the ids of a message name descriptors in use; the plain ones are put on a list and given
  back together, the others one by one.  What is shown is where every frame goes, and that the pool, the
  queue and the pipe stay consistent; also what a wrong id does.
\<close>

section \<open>The loop as a recursion over the ids\<close>

primrec comp_ids :: "(nat \<Rightarrow> u32) \<Rightarrow> u32 option \<Rightarrow> bool \<Rightarrow> u16 list \<Rightarrow> tx_pdev \<Rightarrow> tx_pdev option" where
  "comp_ids table st err [] s = Some s"
| "comp_ids table st err (did # ids) s =
     (if pool_size (tp s) \<le> did then comp_ids table st err ids s
      else Option.bind (ol_tx_desc_find did (tp s)) (\<lambda>d.
        let p = (case st of None \<Rightarrow> tp s | Some status \<Rightarrow> upd_desc d (\<lambda>t. t\<lparr>tx_status := status\<rparr>) (tp s))
        in case desc_netbuf d p of
             None \<Rightarrow> None
           | Some b \<Rightarrow>
               (if pkt_type (desc_mem p d) = ol_tx_frm_std
                then comp_ids table st err ids (s\<lparr>tp := p, tx_links := TAILQ_INSERT_TAIL () d (tx_links s)\<rparr>)
                else Option.bind (ol_tx_desc_frame_free_nonstd table d err p)
                       (\<lambda>p'. comp_ids table st err ids (s\<lparr>tp := p'\<rparr>)))))"

lemma completion_loop_ids:
  "i + n \<le> length ids \<Longrightarrow> completion_loop table st err ids n i s = comp_ids table st err (take n (drop i ids)) s"
proof (induction n arbitrary: i s)
  case 0
  then show ?case by simp
next
  case (Suc n)
  have "take (Suc n) (drop i ids) = ids ! i # take n (drop (Suc i) ids)"
    using Suc.prems by (simp add: Cons_nth_drop_Suc [symmetric])
  moreover have "completion_loop table st err ids n (Suc i) t = comp_ids table st err (take n (drop (Suc i) ids)) t" for t
    using Suc.IH [of "Suc i" t] Suc.prems by simp
  ultimately show ?case using Suc.prems by (simp add: Let_def cong: if_cong cong del: option.case_cong_weak)
qed

section \<open>Kinds of descriptors\<close>

definition valid_ids :: "tx_pool \<Rightarrow> u16 list \<Rightarrow> nat list" where
  "valid_ids p ids = map unat (filter (\<lambda>did. did < pool_size p) ids)"

definition is_std :: "nat \<Rightarrow> tx_pool \<Rightarrow> nat \<Rightarrow> bool" where
  "is_std k p j \<longleftrightarrow> pkt_type (desc_mem p (dptr k j)) = ol_tx_frm_std"

definition mgmt_ok :: "nat \<Rightarrow> tx_pool \<Rightarrow> nat \<Rightarrow> bool" where
  "mgmt_ok k p j \<longleftrightarrow> (case nonstd_mgmt (dptr k j) p of None \<Rightarrow> True | Some m \<Rightarrow> m < length (ota_ack_cbs p))"

text \<open>What the completion of a descriptor that is not plain frees and reports.\<close>

definition frees :: "nat \<Rightarrow> tx_pool \<Rightarrow> (nat \<rightharpoonup> tx_buf) \<Rightarrow> nat \<Rightarrow> tx_buf list" where
  "frees k p us j = (if nonstd_kept (dptr k j) p then [] else [the (us j)])"

definition reports :: "nat \<Rightarrow> tx_pool \<Rightarrow> (nat \<rightharpoonup> tx_buf) \<Rightarrow> bool \<Rightarrow> nat \<Rightarrow> tx_notice list" where
  "reports k p us err j = (if nonstd_kept (dptr k j) p then [Data_done (the (us j)) err]
     else case nonstd_mgmt (dptr k j) p of None \<Rightarrow> [] | Some m \<Rightarrow> if ota_ack_cbs p ! m then [Mgmt_done m (the (us j)) err] else [])"

text \<open>Pools in which the descriptors of a set are of the same kinds.\<close>

definition same_kinds :: "nat \<Rightarrow> nat set \<Rightarrow> tx_pool \<Rightarrow> tx_pool \<Rightarrow> bool" where
  "same_kinds k J p q \<longleftrightarrow> data_cb q = data_cb p \<and> ota_ack_cbs q = ota_ack_cbs p \<and> pool_size q = pool_size p \<and>
     (\<forall>j \<in> J. pkt_type (desc_mem q (dptr k j)) = pkt_type (desc_mem p (dptr k j)))"

lemma same_kinds_simps:
  assumes "same_kinds k J p q" and "j \<in> J"
  shows "is_std k q j = is_std k p j" and "mgmt_ok k q j = mgmt_ok k p j" and "frees k q us j = frees k p us j"
    and "reports k q us err j = reports k p us err j" and "nonstd_kept (dptr k j) q = nonstd_kept (dptr k j) p"
  using assms by (simp_all add: same_kinds_def is_std_def mgmt_ok_def nonstd_mgmt_def frees_def reports_def nonstd_kept_def
      cong del: option.case_cong_weak)

lemma same_kinds_trans: "same_kinds k J p q \<Longrightarrow> same_kinds k J q r \<Longrightarrow> same_kinds k J p r"
  by (simp add: same_kinds_def)

lemma same_kinds_mono: "same_kinds k J p q \<Longrightarrow> I \<subseteq> J \<Longrightarrow> same_kinds k I p q"
  by (auto simp: same_kinds_def)

text \<open>Recording the status.\<close>

definition with_status :: "u32 option \<Rightarrow> desc_ptr \<Rightarrow> tx_pool \<Rightarrow> tx_pool" where
  "with_status st d p = (case st of None \<Rightarrow> p | Some status \<Rightarrow> upd_desc d (\<lambda>t. t\<lparr>tx_status := status\<rparr>) p)"

lemma with_status_fields:
  "tx_bufs (with_status st d p) = tx_bufs p" "dma_maps (with_status st d p) = dma_maps p"
  "tx_freed (with_status st d p) = tx_freed p" "tx_notices (with_status st d p) = tx_notices p"
  "td_first (desc_mem (with_status st d p) d') = td_first (desc_mem p d')"
  by (auto simp: with_status_def upd_desc_def split: option.splits)

lemma with_status_kept: "kinds_kept p (with_status st d p)"
  by (auto simp: kinds_kept_def with_status_def upd_desc_def split: option.splits)

lemma with_status_rep: "pool_rep k p fl us \<Longrightarrow> pool_rep k (with_status st d p) fl us"
  by (erule pool_rep_cong) (auto simp: with_status_def upd_desc_def split: option.splits)

lemma with_status_kinds: "same_kinds k J p (with_status st d p)"
  by (auto simp: same_kinds_def with_status_def upd_desc_def split: option.splits)

section \<open>The loop\<close>

text \<open>
  From a pool, the list of the plain descriptors met so far and the ids to come: the descriptors that are
  not plain are given back at once, the plain ones put on the list.
\<close>

lemma comp_ids_ok:
  assumes "pool_rep k (tp s) fl us" and "tailq_rep () (tx_links s) (map (dptr k) acc)"
    and "js = valid_ids (tp s) ids" and "distinct (acc @ js)" and "set js \<subseteq> dom us"
    and "\<forall>j \<in> set js. mgmt_ok k (tp s) j" and "inj_on us (dom us)"
  shows "\<exists>t. let non = filter (\<lambda>j. \<not> is_std k (tp s) j) js
    in comp_ids table st err ids s = Some t \<and> pool_rep k (tp t) (rev non @ fl) (us |` (- set non)) \<and>
      tailq_rep () (tx_links t) (map (dptr k) (acc @ filter (is_std k (tp s)) js)) \<and>
      tx_freed (tp t) = tx_freed (tp s) @ concat (map (frees k (tp s) us) non) \<and>
      tx_notices (tp t) = tx_notices (tp s) @ concat (map (reports k (tp s) us err) non) \<and>
      (\<forall>c. dma_maps (tp t) c = dma_maps (tp s) c - (if \<exists>j \<in> set non. us j = Some c \<and> \<not> nonstd_kept (dptr k j) (tp s) then 1 else 0)) \<and>
      (\<forall>c. \<exists>nx. tx_bufs (tp t) c = (tx_bufs (tp s) c)\<lparr>tn_next := nx\<rparr>) \<and>
      (\<forall>c. Some c \<notin> us ` set non \<longrightarrow> tx_bufs (tp t) c = tx_bufs (tp s) c) \<and>
      t = s\<lparr>tp := tp t, tx_links := tx_links t\<rparr> \<and> kinds_kept (tp s) (tp t) \<and>
      pool_size (tp t) = pool_size (tp s) \<and> data_cb (tp t) = data_cb (tp s) \<and> ota_ack_cbs (tp t) = ota_ack_cbs (tp s)"
  using assms
proof (induction ids arbitrary: s fl us acc js)
  case Nil
  then show ?case by (intro exI [of _ s]) (simp add: valid_ids_def nbuf_next_same restrict_map_def)
next
  case (Cons did ids)
  show ?case
  proof (cases "did < pool_size (tp s)")
    case False
    then have "js = valid_ids (tp s) ids" using Cons.prems(3) by (simp add: valid_ids_def)
    from Cons.IH [OF Cons.prems(1,2) this Cons.prems(4-7)] show ?thesis using False by (simp add: Let_def not_less)
  next
    case True
    let ?j = "unat did" and ?js = "valid_ids (tp s) ids"
    let ?d = "dptr k ?j"
    let ?p = "with_status st ?d (tp s)"
    have js: "js = ?j # ?js" using Cons.prems(3) True by (simp add: valid_ids_def)
    obtain b where b: "us ?j = Some b" using Cons.prems(5) js by auto
    have le: "\<not> pool_size (tp s) \<le> did" using True by (simp add: not_le)
    have find: "ol_tx_desc_find did (tp s) = Some ?d"
      using desc_find Cons.prems(1) True by (simp add: pool_rep_def word_less_nat_alt)
    note rep = with_status_rep [OF Cons.prems(1), of st ?d]
    note kinds = with_status_kinds [of k UNIV "tp s" st ?d]
    have nb: "desc_netbuf ?d ?p = Some b" using pool_rep_use [OF rep b] by simp
    have unf: "comp_ids table st err (did # ids) s =
        (if is_std k (tp s) ?j then comp_ids table st err ids (s\<lparr>tp := ?p, tx_links := TAILQ_INSERT_TAIL () ?d (tx_links s)\<rparr>)
         else Option.bind (ol_tx_desc_frame_free_nonstd table ?d err ?p) (\<lambda>p'. comp_ids table st err ids (s\<lparr>tp := p'\<rparr>)))"
      using le find nb same_kinds_simps(1) [OF kinds, of ?j] by (simp add: with_status_def [symmetric] is_std_def)
    show ?thesis
    proof (cases "is_std k (tp s) ?j")
      case std: True
      let ?s = "s\<lparr>tp := ?p, tx_links := TAILQ_INSERT_TAIL () ?d (tx_links s)\<rparr>"
      have q: "tailq_rep () (tx_links ?s) (map (dptr k) (acc @ [?j]))"
        using tailq_insert_tail [OF Cons.prems(2), of ?d] Cons.prems(4) by (simp add: js)
      have eqs: "is_std k ?p = is_std k (tp s)" "frees k ?p us = frees k (tp s) us"
          "reports k ?p us err = reports k (tp s) us err" "\<And>i. nonstd_kept (dptr k i) ?p = nonstd_kept (dptr k i) (tp s)"
          "mgmt_ok k ?p = mgmt_ok k (tp s)"
        using same_kinds_simps [OF kinds] by (simp_all add: fun_eq_iff)
      have size: "pool_size ?p = pool_size (tp s)" "data_cb ?p = data_cb (tp s)" "ota_ack_cbs ?p = ota_ack_cbs (tp s)"
        using kinds by (simp_all add: same_kinds_def)
      have v: "?js = valid_ids (tp ?s) ids" by (simp add: valid_ids_def size)
      have rest: "distinct ((acc @ [?j]) @ ?js)" "set ?js \<subseteq> dom us" "\<forall>i \<in> set ?js. mgmt_ok k (tp ?s) i"
        using Cons.prems(4-6) by (simp_all add: js eqs)
      have rep': "pool_rep k (tp ?s) fl us" using rep by simp
      obtain t where "let non = filter (\<lambda>j. \<not> is_std k (tp ?s) j) ?js
        in comp_ids table st err ids ?s = Some t \<and> pool_rep k (tp t) (rev non @ fl) (us |` (- set non)) \<and>
          tailq_rep () (tx_links t) (map (dptr k) ((acc @ [?j]) @ filter (is_std k (tp ?s)) ?js)) \<and>
          tx_freed (tp t) = tx_freed (tp ?s) @ concat (map (frees k (tp ?s) us) non) \<and>
          tx_notices (tp t) = tx_notices (tp ?s) @ concat (map (reports k (tp ?s) us err) non) \<and>
          (\<forall>c. dma_maps (tp t) c = dma_maps (tp ?s) c - (if \<exists>j \<in> set non. us j = Some c \<and> \<not> nonstd_kept (dptr k j) (tp ?s) then 1 else 0)) \<and>
          (\<forall>c. \<exists>nx. tx_bufs (tp t) c = (tx_bufs (tp ?s) c)\<lparr>tn_next := nx\<rparr>) \<and>
          (\<forall>c. Some c \<notin> us ` set non \<longrightarrow> tx_bufs (tp t) c = tx_bufs (tp ?s) c) \<and>
          t = ?s\<lparr>tp := tp t, tx_links := tx_links t\<rparr> \<and> kinds_kept (tp ?s) (tp t) \<and>
          pool_size (tp t) = pool_size (tp ?s) \<and> data_cb (tp t) = data_cb (tp ?s) \<and> ota_ack_cbs (tp t) = ota_ack_cbs (tp ?s)"
        using Cons.IH [OF rep' q v rest Cons.prems(7)] by blast
      then show ?thesis using std unf
        by (intro exI [of _ t])
          (auto simp: Let_def eqs size js with_status_fields intro: kinds_kept_trans [OF with_status_kept])
    next
      case False
      have mg: "mgmt_ok k ?p ?j" using Cons.prems(6) js same_kinds_simps(2) [OF kinds, of ?j] by simp
      have m: "case nonstd_mgmt ?d ?p of None \<Rightarrow> True | Some m \<Rightarrow> m < length (ota_ack_cbs ?p)"
        using mg by (simp add: mgmt_ok_def)
      have fr: "(if nonstd_kept ?d ?p then [] else [b]) = frees k (tp s) us ?j"
        "(if nonstd_kept ?d ?p then [Data_done b err] else case nonstd_mgmt ?d ?p of None \<Rightarrow> []
          | Some m \<Rightarrow> if ota_ack_cbs ?p ! m then [Mgmt_done m b err] else []) = reports k (tp s) us err ?j"
        unfolding same_kinds_simps(3,4) [OF kinds UNIV_I, symmetric] by (simp_all add: frees_def reports_def b split: option.split)
      obtain p1 nx where p1: "ol_tx_desc_frame_free_nonstd table ?d err ?p = Some p1" "pool_rep k p1 (?j # fl) (us(?j := None))"
          "tx_freed p1 = tx_freed ?p @ frees k (tp s) us ?j" "tx_notices p1 = tx_notices ?p @ reports k (tp s) us err ?j"
          "dma_maps p1 = (dma_maps ?p)(b := dma_maps ?p b - (if nonstd_kept ?d ?p then 0 else 1))"
          "pool_size p1 = pool_size ?p" "data_cb p1 = data_cb ?p" "ota_ack_cbs p1 = ota_ack_cbs ?p"
          "tx_bufs p1 = (tx_bufs ?p)(b := (tx_bufs ?p b)\<lparr>tn_next := nx\<rparr>)" "\<forall>d. d \<noteq> ?d \<longrightarrow> desc_mem p1 d = desc_mem ?p d"
          "kinds_kept ?p p1"
        using frame_free_nonstd_rep [OF rep b m, of table err] unfolding fr by blast
      let ?s = "s\<lparr>tp := p1\<rparr>" and ?us = "us(?j := None)"
      have out: "?j \<notin> set ?js" using Cons.prems(4) js by simp
      have "desc_mem p1 (dptr k i) = desc_mem ?p (dptr k i)" if "i \<in> set ?js" for i
        using p1(10) out that dptr_inject by metis
      then have "same_kinds k (set ?js) ?p p1" using p1(6-8) by (simp add: same_kinds_def)
      then have sk: "same_kinds k (set ?js) (tp s) p1"
        using same_kinds_mono [OF kinds, of "set ?js"] same_kinds_trans by blast
      have size: "pool_size p1 = pool_size (tp s)" "data_cb p1 = data_cb (tp s)" "ota_ack_cbs p1 = ota_ack_cbs (tp s)"
        using sk by (simp_all add: same_kinds_def)
      let ?non = "filter (\<lambda>j. \<not> is_std k (tp s) j) ?js"
      have us': "?us i = us i" if "i \<in> set ?js" for i using out that by auto
      have eqs: "is_std k p1 i = is_std k (tp s) i" "frees k p1 ?us i = frees k (tp s) us i"
          "reports k p1 ?us err i = reports k (tp s) us err i" "nonstd_kept (dptr k i) p1 = nonstd_kept (dptr k i) (tp s)"
          "mgmt_ok k p1 i = mgmt_ok k (tp s) i" if "i \<in> set ?js" for i
        unfolding same_kinds_simps [OF sk that] using us' [OF that]
        by (simp_all add: frees_def reports_def split: option.split)
      have non: "filter (\<lambda>j. \<not> is_std k p1 j) ?js = ?non" "filter (is_std k p1) ?js = filter (is_std k (tp s)) ?js"
          "map (frees k p1 ?us) ?non = map (frees k (tp s) us) ?non"
          "map (reports k p1 ?us err) ?non = map (reports k (tp s) us err) ?non"
        using eqs by (auto intro!: filter_cong)
      have q: "tailq_rep () (tx_links ?s) (map (dptr k) acc)" using Cons.prems(2) by simp
      have v: "?js = valid_ids (tp ?s) ids" by (simp add: valid_ids_def size)
      have rest: "distinct (acc @ ?js)" "set ?js \<subseteq> dom ?us" "\<forall>i \<in> set ?js. mgmt_ok k (tp ?s) i" "inj_on ?us (dom ?us)"
        using Cons.prems(4-7) out by (auto simp: js eqs inj_on_def)
      have rep': "pool_rep k (tp ?s) (?j # fl) ?us" using p1(2) by simp
      obtain t where t: "comp_ids table st err ids ?s = Some t" "pool_rep k (tp t) (rev ?non @ ?j # fl) (?us |` (- set ?non))"
          "tailq_rep () (tx_links t) (map (dptr k) (acc @ filter (is_std k (tp s)) ?js))"
          "tx_freed (tp t) = tx_freed p1 @ concat (map (frees k (tp s) us) ?non)"
          "tx_notices (tp t) = tx_notices p1 @ concat (map (reports k (tp s) us err) ?non)"
          "\<forall>c. dma_maps (tp t) c = dma_maps p1 c - (if \<exists>j \<in> set ?non. ?us j = Some c \<and> \<not> nonstd_kept (dptr k j) p1 then 1 else 0)"
          "\<forall>c. \<exists>nx. tx_bufs (tp t) c = (tx_bufs p1 c)\<lparr>tn_next := nx\<rparr>"
          "\<forall>c. Some c \<notin> ?us ` set ?non \<longrightarrow> tx_bufs (tp t) c = tx_bufs p1 c"
          "t = ?s\<lparr>tp := tp t, tx_links := tx_links t\<rparr>"
          "pool_size (tp t) = pool_size p1" "data_cb (tp t) = data_cb p1" "ota_ack_cbs (tp t) = ota_ack_cbs p1" "kinds_kept p1 (tp t)"
        using Cons.IH [OF rep' q v rest] unfolding Let_def tx_pdev.simps non by (auto simp: non)
      let ?non' = "filter (\<lambda>j. \<not> is_std k (tp s) j) js"
      have n': "?non' = ?j # ?non" and s': "filter (is_std k (tp s)) js = filter (is_std k (tp s)) ?js"
        using False by (simp_all add: js)
      have im: "?us ` set ?non = us ` set ?non" using out by force
      have nb: "Some b \<notin> us ` set ?non"
        using inj_onD [OF Cons.prems(7), of ?j] b out Cons.prems(5) js by auto
      have "comp_ids table st err (did # ids) s = Some t" using unf False p1(1) t(1) by simp
      moreover have "pool_rep k (tp t) (rev ?non' @ fl) (us |` (- set ?non'))"
      proof -
        have "?us |` (- set ?non) = us |` (- set ?non')" unfolding n' by (auto simp: restrict_map_def fun_eq_iff)
        then show ?thesis using t(2) unfolding n' by simp
      qed
      moreover have "dma_maps (tp t) c = dma_maps (tp s) c - (if \<exists>j \<in> set ?non'. us j = Some c \<and> \<not> nonstd_kept (dptr k j) (tp s) then 1 else 0)" for c
      proof -
        have ex: "(\<exists>j \<in> set ?non. ?us j = Some c \<and> \<not> nonstd_kept (dptr k j) p1) =
            (\<exists>j \<in> set ?non. us j = Some c \<and> \<not> nonstd_kept (dptr k j) (tp s))"
          using us' eqs(4) by (intro bex_cong) auto
        have kept: "nonstd_kept ?d ?p = nonstd_kept ?d (tp s)" by (rule same_kinds_simps(5) [OF kinds UNIV_I])
        show ?thesis
        proof (cases "c = b")
          case True
          then have "\<not> (\<exists>j \<in> set ?non. us j = Some c \<and> \<not> nonstd_kept (dptr k j) (tp s))" using nb by (auto simp: image_iff)
          then show ?thesis using spec [OF t(6), of c] True unfolding ex n' p1(5) kept by (simp add: b with_status_fields)
        next
          case False
          then show ?thesis using spec [OF t(6), of c] unfolding ex n' p1(5) by (simp add: b with_status_fields)
        qed
      qed
      moreover have "\<exists>nx. tx_bufs (tp t) c = (tx_bufs (tp s) c)\<lparr>tn_next := nx\<rparr>" for c
      proof -
        obtain n where "tx_bufs (tp t) c = (tx_bufs p1 c)\<lparr>tn_next := n\<rparr>" using t(7) by blast
        then show ?thesis unfolding p1(9) by (intro exI [of _ n]) (simp add: with_status_fields)
      qed
      moreover have "tx_bufs (tp t) c = tx_bufs (tp s) c" if "Some c \<notin> us ` set ?non'" for c
        using t(8) that b unfolding im n' p1(9) by (simp add: with_status_fields)
      moreover have "tx_freed (tp t) = tx_freed (tp s) @ concat (map (frees k (tp s) us) ?non')"
        "tx_notices (tp t) = tx_notices (tp s) @ concat (map (reports k (tp s) us err) ?non')"
        unfolding t(4,5) p1(3,4) n' by (simp_all add: with_status_fields)
      moreover have "t = s\<lparr>tp := tp t, tx_links := tx_links t\<rparr>" using t(9) by simp
      moreover have "kinds_kept (tp s) (tp t)"
        using kinds_kept_trans [OF kinds_kept_trans [OF with_status_kept p1(11)] t(13)] .
      ultimately show ?thesis using t(3,10-12) unfolding Let_def s' size by blast
    qed
  qed
qed

section \<open>A completion message\<close>

text \<open>The frames a message takes out of the driver, and whether their mapping for the bus is ended.\<close>

definition unmaps :: "nat \<Rightarrow> tx_pool \<Rightarrow> (nat \<rightharpoonup> tx_buf) \<Rightarrow> nat \<Rightarrow> bool" where
  "unmaps k p us j \<longleftrightarrow> (if is_std k p j then \<not> tn_ipa (tx_bufs p (the (us j))) else \<not> nonstd_kept (dptr k j) p)"

lemma completion_run_ok:
  assumes inv: "tx_inv k n m s x fl us qs" and num: "num \<le> length ids"
    and js: "js = valid_ids (tp s) (take num ids)" "distinct js" "set js \<subseteq> dom us"
    and mg: "\<forall>j \<in> set js. mgmt_ok k (tp s) j" and down: "\<forall>j \<in> set js. the (us j) \<notin> set qs"
  shows "\<exists>t. let std = filter (is_std k (tp s)) js; non = filter (\<lambda>j. \<not> is_std k (tp s) j) js
    in completion_run table st err ids num s = Some t \<and> tx_inv k n m t x (rev std @ rev non @ fl) (us |` (- set js)) qs \<and>
      tx_freed (tp t) = tx_freed (tp s) @ concat (map (frees k (tp s) us) non) @ rev (map (the \<circ> us) std) \<and>
      tx_notices (tp t) = tx_notices (tp s) @ concat (map (reports k (tp s) us err) non) \<and>
      (\<forall>c. dma_maps (tp t) c = dma_maps (tp s) c - (if \<exists>j \<in> set js. us j = Some c \<and> unmaps k (tp s) us j then 1 else 0)) \<and>
      bufs_kept ((the \<circ> us) ` set js) (tp s) (tp t) \<and> t = s\<lparr>tp := tp t, tx_links := tx_links t\<rparr> \<and>
      pool_size (tp t) = pool_size (tp s) \<and> kinds_kept (tp s) (tp t)"
proof -
  let ?s = "s\<lparr>tx_links := TAILQ_INIT () (tx_links s)\<rparr>"
  let ?std = "filter (is_std k (tp s)) js" and ?non = "filter (\<lambda>j. \<not> is_std k (tp s) j) js"
  have rep: "pool_rep k (tp ?s) fl us" and inj: "inj_on us (dom us)" using inv by (simp_all add: tx_inv_def)
  have q: "tailq_rep () (tx_links ?s) (map (dptr k) [])" by (simp add: tailq_rep_init)
  have v: "js = valid_ids (tp ?s) (take num ids)" "distinct ([] @ js)" "\<forall>j \<in> set js. mgmt_ok k (tp ?s) j"
    using js mg by simp_all
  have use: "us j \<noteq> None" if "j \<in> set js" for j using js(3) that by auto
  obtain t where t: "comp_ids table st err (take num ids) ?s = Some t" "pool_rep k (tp t) (rev ?non @ fl) (us |` (- set ?non))"
      "tailq_rep () (tx_links t) (map (dptr k) ?std)"
      "tx_freed (tp t) = tx_freed (tp s) @ concat (map (frees k (tp s) us) ?non)"
      "tx_notices (tp t) = tx_notices (tp s) @ concat (map (reports k (tp s) us err) ?non)"
      "\<forall>c. dma_maps (tp t) c = dma_maps (tp s) c - (if \<exists>j \<in> set ?non. us j = Some c \<and> \<not> nonstd_kept (dptr k j) (tp s) then 1 else 0)"
      "\<forall>c. \<exists>nx. tx_bufs (tp t) c = (tx_bufs (tp s) c)\<lparr>tn_next := nx\<rparr>"
      "\<forall>c. Some c \<notin> us ` set ?non \<longrightarrow> tx_bufs (tp t) c = tx_bufs (tp s) c"
      "t = ?s\<lparr>tp := tp t, tx_links := tx_links t\<rparr>" "pool_size (tp t) = pool_size (tp s)"
      "kinds_kept (tp s) (tp t)"
    using comp_ids_ok [OF rep q v(1,2) js(3) v(3) inj, of table st err] unfolding Let_def by auto
  let ?us = "us |` (- set ?non)"
  have us': "?us j = us j" if "j \<in> set ?std" for j using that by (simp add: restrict_map_def)
  have ns: "lseg (tqe_next (tx_links t)) (tqh_first (tx_links t) ()) (map (dptr k) ?std) None" "distinct ?std"
    using t(3) js(2) by (simp_all add: tailq_rep_def)
  have std_use: "\<forall>j \<in> set ?std. ?us j \<noteq> None" using us' use by simp
  have std_inj: "inj_on ?us (set ?std)"
    using inj_on_subset [OF inj js(3)] us' by (simp add: inj_on_def)
  obtain p where p: "ol_tx_desc_frame_list_free (tx_links t) (tp t) = Some p"
      "pool_rep k p (rev ?std @ rev ?non @ fl) (?us |` (- set ?std))"
      "tx_freed p = tx_freed (tp t) @ rev (map (the \<circ> ?us) ?std)" "tx_notices p = tx_notices (tp t)" "pool_size p = pool_size (tp t)"
      "\<forall>b. dma_maps p b = dma_maps (tp t) b - (if Some b \<in> ?us ` set ?std \<and> \<not> tn_ipa (tx_bufs (tp t) b) then 1 else 0)"
      "\<forall>b. \<exists>n. tx_bufs p b = (tx_bufs (tp t) b)\<lparr>tn_next := n\<rparr>"
      "\<forall>b. Some b \<notin> ?us ` set ?std \<longrightarrow> tx_bufs p b = tx_bufs (tp t) b" "kinds_kept (tp t) p"
    using frame_list_free_rep [OF t(2) ns std_use std_inj] by blast
  let ?t = "t\<lparr>tp := p\<rparr>"
  have run: "completion_run table st err ids num s = Some ?t"
    using completion_loop_ids [of 0 num ids table st err ?s] num t(1) p(1) by (simp add: completion_run_def on_tp_def)
  have dom: "?us |` (- set ?std) = us |` (- set js)" by (auto simp: restrict_map_def fun_eq_iff)
  have im: "?us ` set ?std = us ` set ?std" using us' by (intro image_cong) simp_all
  have mp: "map (the \<circ> ?us) ?std = map (the \<circ> us) ?std" using us' by simp
  have fields: "\<exists>nx. tx_bufs p c = (tx_bufs (tp s) c)\<lparr>tn_next := nx\<rparr>" for c
  proof -
    obtain a where "tx_bufs p c = (tx_bufs (tp t) c)\<lparr>tn_next := a\<rparr>" using p(7) by blast
    moreover obtain b where "tx_bufs (tp t) c = (tx_bufs (tp s) c)\<lparr>tn_next := b\<rparr>" using t(7) by blast
    ultimately show ?thesis by (intro exI [of _ a]) simp
  qed
  have split: "set js = set ?std \<union> set ?non" by auto
  have same: "tx_bufs p c = tx_bufs (tp s) c" if "Some c \<notin> us ` set js" for c
    using that p(8) t(8) unfolding im split image_Un by simp
  have kept: "bufs_kept ((the \<circ> us) ` set js) (tp s) p"
  proof -
    have "tx_bufs p c = tx_bufs (tp s) c" if "c \<notin> (the \<circ> us) ` set js" for c
      using that by (intro same) (metis comp_apply imageE imageI option.sel)
    moreover have "tn_ipa (tx_bufs p c) = tn_ipa (tx_bufs (tp s) c) \<and> tn_len (tx_bufs p c) = tn_len (tx_bufs (tp s) c)" for c
      using fields [of c] by auto
    ultimately show ?thesis by (simp add: bufs_kept_def)
  qed
  have ipa: "tn_ipa (tx_bufs (tp t) c) = tn_ipa (tx_bufs (tp s) c)" for c
  proof -
    obtain b where "tx_bufs (tp t) c = (tx_bufs (tp s) c)\<lparr>tn_next := b\<rparr>" using t(7) by blast
    then show ?thesis by simp
  qed
  have dma: "dma_maps p c = dma_maps (tp s) c - (if \<exists>j \<in> set js. us j = Some c \<and> unmaps k (tp s) us j then 1 else 0)" for c
  proof -
    let ?A = "Some c \<in> us ` set ?std \<and> \<not> tn_ipa (tx_bufs (tp s) c)"
    let ?B = "\<exists>j \<in> set ?non. us j = Some c \<and> \<not> nonstd_kept (dptr k j) (tp s)"
    have "dma_maps p c = dma_maps (tp s) c - (if ?B then 1 else 0) - (if ?A then 1 else 0)"
      using spec [OF t(6), of c] spec [OF p(6), of c] unfolding im ipa by simp
    moreover have "\<not> (?A \<and> ?B)"
    proof
      assume "?A \<and> ?B"
      then obtain i j where "i \<in> set ?std" "j \<in> set ?non" "us i = us j" by auto
      moreover from this have "i = j" using inj_onD [OF inj_on_subset [OF inj js(3)]] by auto
      ultimately show False by auto
    qed
    moreover have "(\<exists>j \<in> set js. us j = Some c \<and> unmaps k (tp s) us j) \<longleftrightarrow> ?A \<or> ?B"
    proof -
      have im: "Some c \<in> us ` set ?std \<longleftrightarrow> (\<exists>j \<in> set ?std. us j = Some c)" by (blast intro: sym)
      show ?thesis unfolding im by (auto simp: unmaps_def)
    qed
    ultimately show ?thesis by auto
  qed
  have tf: "q_head t = q_head s" "q_tail t = q_tail s" "q_len t = q_len s" "tx_ce t = tx_ce s"
      "num_sends_allowed t = num_sends_allowed s" "download_len t = download_len s"
    using arg_cong [OF t(9), of q_head] arg_cong [OF t(9), of q_tail] arg_cong [OF t(9), of q_len] arg_cong [OF t(9), of tx_ce]
      arg_cong [OF t(9), of num_sends_allowed] arg_cong [OF t(9), of download_len] by simp_all
  have "queue_rep ?t qs"
  proof -
    have "tx_bufs p c = tx_bufs (tp s) c" if "c \<in> set qs" for c
      using that down by (intro same) (metis imageE option.sel)
    then have "lseg (\<lambda>c. tn_next (tx_bufs p c)) (q_head s) qs None = lseg (\<lambda>c. tn_next (tx_bufs (tp s) c)) (q_head s) qs None"
      by (intro lseg_cong) simp
    then show ?thesis using inv by (simp add: tx_inv_def queue_rep_def tf)
  qed
  moreover have "set qs \<subseteq> ran (us |` (- set js))"
  proof
    fix c assume c: "c \<in> set qs"
    then obtain i where i: "us i = Some c" using inv by (auto simp: tx_inv_def ran_def)
    then have "i \<notin> set js" using down c by auto
    with i show "c \<in> ran (us |` (- set js))" by (auto simp: ran_def restrict_map_def)
  qed
  moreover have "framed (tx_bufs p c)" if "c \<in> ran (us |` (- set js))" for c
  proof -
    have "c \<in> ran us" using that by (auto simp: ran_def restrict_map_def split: if_splits)
    then have "framed (tx_bufs (tp s) c)" using inv by (simp add: tx_inv_def)
    then show ?thesis using fields [of c] by (auto simp: framed_def)
  qed
  moreover have "inj_on (us |` (- set js)) (dom (us |` (- set js)))"
  proof -
    have "inj_on us (dom (us |` (- set js)))" by (rule inj_on_subset [OF inj]) (auto simp: restrict_map_def split: if_splits)
    then show ?thesis by (simp add: inj_on_def)
  qed
  moreover have "ce_ok n m ?t x \<longleftrightarrow> ce_ok n m s x" by (simp add: ce_ok_def tf)
  moreover have "0 < download_len ?t" "qs \<noteq> [] \<longrightarrow> num_sends_allowed ?t < 2" "length (requests x) \<le> 2 * length (sent x)"
    "ce_ok n m s x"
    using inv by (simp_all add: tx_inv_def tf)
  ultimately have inv': "tx_inv k n m ?t x (rev ?std @ rev ?non @ fl) (us |` (- set js)) qs"
    using p(2) unfolding dom by (simp add: tx_inv_def)
  have "?t = s\<lparr>tp := p, tx_links := tx_links ?t\<rparr>"
    using arg_cong [OF t(9), of "\<lambda>t. t\<lparr>tp := p\<rparr>"] by simp
  then show ?thesis using run inv' dma kept t(4,5,10) p(3-5) kinds_kept_trans [OF t(11) p(9)] unfolding mp Let_def
    by (intro exI [of _ ?t]) simp
qed

end
