(* ===== verification/Tx_System.thy ===== *)
theory Tx_System
  imports Tx_Compl
begin

text \<open>
  The transmit path under any order of events: the network stack fills buffers and hands lists of frames
  down, the device reads the ring, the target completes frames it was given or says what it wants them
  for.  The properties say where every frame is.
\<close>

section \<open>What the state says\<close>

text \<open>The frames in flight, by the number of their descriptor.\<close>

definition frames_of :: "tx_pdev \<Rightarrow> nat \<rightharpoonup> tx_buf" where
  "frames_of s i = (if i < unat (pool_size (tp s))
     then Option.bind (ol_tx_desc_find (of_nat i) (tp s)) (\<lambda>d. desc_netbuf d (tp s)) else None)"

primrec chain_items :: "(tx_buf \<Rightarrow> tx_buf option) \<Rightarrow> nat \<Rightarrow> tx_buf option \<Rightarrow> tx_buf list" where
  "chain_items nx 0 p = []"
| "chain_items nx (Suc n) p = (case p of None \<Rightarrow> [] | Some b \<Rightarrow> b # chain_items nx n (nx b))"

definition host_queue :: "tx_pdev \<Rightarrow> tx_buf list" where
  "host_queue s = chain_items (\<lambda>b. tn_next (tx_bufs (tp s) b)) (unat (q_len s)) (q_head s)"

lemma chain_items_lseg: "lseg nx p bs None \<Longrightarrow> chain_items nx (length bs) p = bs"
  by (induction bs arbitrary: p) auto

lemma frames_of_rep:
  assumes rep: "pool_rep k (tp s) fl us"
  shows "frames_of s = us"
proof
  fix i
  show "frames_of s i = us i"
  proof (cases "i < unat (pool_size (tp s))")
    case True
    have "i < 2 ^ 16" using True unsigned_less [of "pool_size (tp s)", where ?'a = nat] by simp
    then have u: "unat (of_nat i :: u16) = i" by (simp add: unat_of_nat take_bit_nat_eq_self)
    have find: "ol_tx_desc_find (of_nat i) (tp s) = Some (dptr k i)"
      using desc_find [of k "tp s" "of_nat i"] rep True by (simp add: pool_rep_def u)
    show ?thesis
    proof (cases "us i")
      case None
      then have "i \<in> set fl" using rep True by (auto simp: pool_rep_def)
      then have "desc_netbuf (dptr k i) (tp s) = None" using rep by (auto simp: pool_rep_def desc_netbuf_def)
      then show ?thesis using True find None by (simp add: frames_of_def)
    next
      case (Some b)
      then show ?thesis using True find pool_rep_use [OF rep Some] by (simp add: frames_of_def)
    qed
  next
    case False
    then have "us i = None" using rep by (auto simp: pool_rep_def)
    then show ?thesis using False by (simp add: frames_of_def)
  qed
qed

lemma host_queue_rep:
  assumes inv: "tx_inv k n m s x fl us qs"
  shows "host_queue s = qs"
proof -
  have "q_len s = of_nat (length qs)" and "lseg (\<lambda>b. tn_next (tx_bufs (tp s) b)) (q_head s) qs None"
    using inv by (simp_all add: tx_inv_def queue_rep_def)
  moreover have "unat (of_nat (length qs) :: u32) = length qs"
    using tx_inv_small [OF inv] by (simp add: unat_of_nat take_bit_nat_eq_self)
  ultimately show ?thesis by (simp add: host_queue_def chain_items_lseg)
qed

section \<open>Events\<close>

text \<open>\<open>handed\<close> and \<open>returned\<close> are the histories of the frames handed down and of those handed back at once.\<close>

record tx_world =
  drv :: tx_pdev
  handed :: "tx_buf list"
  returned :: "tx_buf list"

text \<open>The state after the set-up: pages of \<open>page_size\<close> bytes, target descriptors \<open>hts\<close>, an engine just set up.\<close>

definition tx_start :: "u32 \<Rightarrow> u32 \<Rightarrow> tx_world \<Rightarrow> bool" where
  "tx_start n m w \<longleftrightarrow>
     (\<exists>page_size reserved_size k sz hts p x. page_size div reserved_size = 2 ^ k \<and> k \<le> 32 \<and> sz \<noteq> 0 \<and> unat sz \<le> length hts \<and>
        (\<forall>h \<in> fst ` set hts. length (hd_frags (htt_descs p h)) = 5) \<and>
        tx_pool_attach page_size reserved_size sz hts p = Some (tp (drv w)) \<and>
        (\<forall>b. dma_maps p b = 0 \<and> \<not> tn_ipa (tx_bufs p b)) \<and> tx_freed p = [] \<and> tx_notices p = [] \<and>
        ce_start n m x \<and> tx_ce (drv w) = eng x) \<and>
     unat n \<le> 2 ^ 16 \<and> num_sends_allowed (drv w) = int (unat n) - 1 \<and> q_head (drv w) = None \<and> q_len (drv w) = 0 \<and>
     0 < download_len (drv w) \<and> handed w = [] \<and> returned w = []"

text \<open>
  What the driver relies on: a frame handed down is not in flight and brings no fragments of its own; a
  message names descriptors in use, each once, whose frames have gone down.
\<close>

definition frames_ready :: "tx_pdev \<Rightarrow> tx_buf list \<Rightarrow> bool" where
  "frames_ready s bs \<longleftrightarrow> (\<forall>b \<in> set bs. fresh (tp s) (frames_of s) b)"

definition ids_valid :: "tx_pdev \<Rightarrow> u16 list \<Rightarrow> bool" where
  "ids_valid s ids \<longleftrightarrow> (let js = valid_ids (tp s) ids
     in distinct js \<and> (\<forall>j \<in> set js. case frames_of s j of None \<Rightarrow> False | Some b \<Rightarrow> b \<notin> set (host_queue s)))"

inductive tx_reach :: "u32 \<Rightarrow> u32 \<Rightarrow> tx_world \<Rightarrow> bool" for n m where
  start: "tx_start n m w \<Longrightarrow> tx_reach n m w"
| fill: "tx_reach n m w \<Longrightarrow> b \<notin> ran (frames_of (drv w)) \<Longrightarrow> \<not> tn_ipa f \<Longrightarrow>
    tx_reach n m (w\<lparr>drv := upd_tp (\<lambda>p. p\<lparr>tx_bufs := (tx_bufs p)(b := f)\<rparr>) (drv w)\<rparr>)"
| send: "tx_reach n m w \<Longrightarrow> lseg (\<lambda>b. tn_next (tx_bufs (tp (drv w)) b)) msdus bs None \<Longrightarrow> frames_ready (drv w) bs \<Longrightarrow>
    ol_tx_ll e mi True msdus (drv w) = Some (ret, t) \<Longrightarrow> lseg (\<lambda>b. tn_next (tx_bufs (tp t) b)) ret rs None \<Longrightarrow>
    tx_reach n m (w\<lparr>drv := t, handed := handed w @ bs, returned := returned w @ rs\<rparr>)"
| device: "tx_reach n m w \<Longrightarrow> reg_src_read (tx_ce (drv w)) \<noteq> reg_src_write (tx_ce (drv w)) \<Longrightarrow>
    tx_reach n m (w\<lparr>drv := (drv w)\<lparr>tx_ce := ce_src_device (tx_ce (drv w))\<rparr>\<rparr>)"
| complete: "tx_reach n m w \<Longrightarrow> num \<le> length ids \<Longrightarrow> ids_valid (drv w) (take num ids) \<Longrightarrow>
    ol_tx_completion_handler table num status ids (drv w) = Some s \<Longrightarrow> htt_tx_sched e s = Some t \<Longrightarrow> tx_reach n m (w\<lparr>drv := t\<rparr>)"
| inspect: "tx_reach n m w \<Longrightarrow> num \<le> length ids \<Longrightarrow> ids_valid (drv w) (take num ids) \<Longrightarrow>
    ol_tx_inspect_handler table num ids (drv w) = Some s \<Longrightarrow> htt_tx_sched e s = Some t \<Longrightarrow> tx_reach n m (w\<lparr>drv := t\<rparr>)"

section \<open>The invariant\<close>

definition world_ok :: "u32 \<Rightarrow> u32 \<Rightarrow> tx_world \<Rightarrow> nat \<Rightarrow> ce_sys \<Rightarrow> nat list \<Rightarrow> (nat \<rightharpoonup> tx_buf) \<Rightarrow> tx_buf list \<Rightarrow> bool" where
  "world_ok n m w k x fl us qs \<longleftrightarrow> tx_inv k n m (drv w) x fl us qs \<and> all_std k (tp (drv w)) \<and>
     (\<forall>b. \<not> tn_ipa (tx_bufs (tp (drv w)) b)) \<and> (\<forall>b. dma_maps (tp (drv w)) b = (if b \<in> ran us then 1 else 0)) \<and>
     mset (handed w) = mset (returned w) + mset (tx_freed (tp (drv w))) + mset_set (ran us)"

lemma tx_inv_finite: "tx_inv k n m s x fl us qs \<Longrightarrow> finite (ran us)"
proof -
  assume inv: "tx_inv k n m s x fl us qs"
  have "dom us \<subseteq> {..< unat (pool_size (tp s))}" using inv by (auto simp: tx_inv_def pool_rep_def)
  then have "finite (dom us)" by (rule finite_subset) simp
  then show ?thesis by (simp add: finite_ran)
qed

lemma start_ok: "tx_start n m w \<Longrightarrow> \<exists>k x sz. ce_start n m x \<and> world_ok n m w k x [0 ..< sz] Map.empty []"
proof -
  assume w: "tx_start n m w"
  then obtain ps rs k sz hts p x where p: "ps div rs = 2 ^ k" "k \<le> 32" "sz \<noteq> 0" "unat sz \<le> length hts"
      "\<forall>h \<in> fst ` set hts. length (hd_frags (htt_descs p h)) = 5" "tx_pool_attach ps rs sz hts p = Some (tp (drv w))"
      "\<forall>b. dma_maps p b = 0 \<and> \<not> tn_ipa (tx_bufs p b)" "tx_freed p = []" "tx_notices p = []" and x: "ce_start n m x" "tx_ce (drv w) = eng x"
    unfolding tx_start_def by (elim exE conjE) (rule that, assumption+)
  have rest: "unat n \<le> 2 ^ 16" "num_sends_allowed (drv w) = int (unat n) - 1" "q_head (drv w) = None" "q_len (drv w) = 0"
      "0 < download_len (drv w)" "handed w = []" "returned w = []"
    using w by (simp_all add: tx_start_def)
  have att: "pool_rep k (tp (drv w)) [0 ..< unat sz] Map.empty" "pool_size (tp (drv w)) = sz"
      "\<forall>i < unat sz. ref_cnt (desc_mem (tp (drv w)) (dptr k i)) = 0" "tx_bufs (tp (drv w)) = tx_bufs p"
      "dma_maps (tp (drv w)) = dma_maps p" "tx_freed (tp (drv w)) = tx_freed p"
    using tx_pool_attach_rep [OF p(1-5)] p(6) by auto
  have n: "0 < unat n" "requests x = []" using x by (auto simp: ce_start_def unat_gt_0)
  have "int 0 < int (unat n)" using n(1) by (simp only: of_nat_less_iff)
  then have "ce_ok n m (drv w) x" using x n rest by (simp add: ce_ok_def ce_reach.start)
  moreover have "queue_rep (drv w) []" using rest by (simp add: queue_rep_def)
  ultimately have "tx_inv k n m (drv w) x [0 ..< unat sz] Map.empty []" using att(1) rest n(2) by (simp add: tx_inv_def)
  moreover have "all_std k (tp (drv w))"
  proof -
    have "td_first (desc_mem (tp (drv w)) (dptr k i)) \<noteq> First_netbuf b" if i: "i < unat sz" for i b
    proof -
      have "\<forall>i \<in> set [0 ..< unat sz]. \<exists>n. td_first (desc_mem (tp (drv w)) (dptr k i)) = First_next n"
        using att(1) unfolding pool_rep_def by blast
      then obtain n' where "td_first (desc_mem (tp (drv w)) (dptr k i)) = First_next n'" using i by (elim ballE) auto
      then show ?thesis by simp
    qed
    then show ?thesis using att(3) by (simp add: all_std_def att(2))
  qed
  ultimately have "world_ok n m w k x [0 ..< unat sz] Map.empty []"
    using p(7,8) rest by (simp add: world_ok_def att(4-6))
  then show ?thesis using x(1) by blast
qed

lemma fill_ok:
  assumes ok: "world_ok n m w k x fl us qs" and b: "b \<notin> ran us" "\<not> tn_ipa f"
  shows "world_ok n m (w\<lparr>drv := upd_tp (\<lambda>p. p\<lparr>tx_bufs := (tx_bufs p)(b := f)\<rparr>) (drv w)\<rparr>) k x fl us qs"
proof -
  let ?s = "upd_tp (\<lambda>p. p\<lparr>tx_bufs := (tx_bufs p)(b := f)\<rparr>) (drv w)"
  have inv: "tx_inv k n m (drv w) x fl us qs" using ok by (simp add: world_ok_def)
  have rep: "pool_rep k (tp (drv w)) fl us" using inv by (simp add: tx_inv_def)
  have "pool_rep k (tp ?s) fl us" by (rule pool_rep_cong [OF rep]) (simp_all add: upd_tp_def)
  moreover have "queue_rep ?s qs"
  proof -
    have "c \<noteq> b" if "c \<in> set qs" for c using that inv b by (auto simp: tx_inv_def)
    then have "lseg (\<lambda>c. tn_next (tx_bufs (tp ?s) c)) (q_head (drv w)) qs None =
        lseg (\<lambda>c. tn_next (tx_bufs (tp (drv w)) c)) (q_head (drv w)) qs None"
      by (intro lseg_cong) (simp add: upd_tp_def)
    then show ?thesis using inv by (simp add: tx_inv_def queue_rep_def upd_tp_def)
  qed
  moreover have "framed (tx_bufs (tp ?s) c)" if "c \<in> ran us" for c
    using that b inv by (auto simp: tx_inv_def upd_tp_def)
  ultimately have "tx_inv k n m ?s x fl us qs" using inv by (simp add: tx_inv_def upd_tp_def)
  moreover have "all_std k (tp ?s)" using ok by (simp add: world_ok_def all_std_def upd_tp_def)
  ultimately show ?thesis using ok b by (simp add: world_ok_def upd_tp_def)
qed

lemma device_ok:
  assumes ok: "world_ok n m w k x fl us qs" and reg: "reg_src_read (tx_ce (drv w)) \<noteq> reg_src_write (tx_ce (drv w))"
  shows "\<exists>y. world_ok n m (w\<lparr>drv := (drv w)\<lparr>tx_ce := ce_src_device (tx_ce (drv w))\<rparr>\<rparr>) k y fl us qs"
proof -
  let ?y = "x\<lparr>eng := ce_src_device (eng x), sends_read := Suc (sends_read x)\<rparr>"
  have x: "ce_ok n m (drv w) x" using ok by (simp add: world_ok_def tx_inv_def)
  then have "ce_step x ?y" using reg by (intro ce_step.device_send) (simp add: ce_ok_def)
  then have "ce_reach n m ?y" using x by (auto simp: ce_ok_def intro: ce_reach.step)
  then have "ce_ok n m ((drv w)\<lparr>tx_ce := ce_src_device (tx_ce (drv w))\<rparr>) ?y" using x by (simp add: ce_ok_def)
  then have "world_ok n m (w\<lparr>drv := (drv w)\<lparr>tx_ce := ce_src_device (tx_ce (drv w))\<rparr>\<rparr>) k ?y fl us qs"
    using ok by (simp add: world_ok_def tx_inv_def queue_rep_def sent_def)
  then show ?thesis by blast
qed

lemma mset_ran_split: "finite A \<Longrightarrow> distinct bs \<Longrightarrow> A \<inter> set bs = {} \<Longrightarrow> mset_set (A \<union> set bs) = mset_set A + mset bs"
  by (simp add: mset_set_Union mset_set_set)

lemma fresh_frames: "tx_inv k n m s x fl us qs \<Longrightarrow> frames_of s = us"
  by (rule frames_of_rep [of k _ fl]) (simp add: tx_inv_def)

lemma send_ok:
  assumes ok: "world_ok n m w k x fl us qs" and seg: "lseg (\<lambda>b. tn_next (tx_bufs (tp (drv w)) b)) msdus bs None"
    and ready: "frames_ready (drv w) bs" and run: "ol_tx_ll e mi True msdus (drv w) = Some (ret, t)"
    and chain: "lseg (\<lambda>b. tn_next (tx_bufs (tp t) b)) ret rs None"
  shows "\<exists>y fl' us' qs'. world_ok n m (w\<lparr>drv := t, handed := handed w @ bs, returned := returned w @ rs\<rparr>) k y fl' us' qs'"
proof -
  have inv: "tx_inv k n m (drv w) x fl us qs" using ok by (simp add: world_ok_def)
  have fr: "\<forall>b \<in> set bs. fresh (tp (drv w)) us b" using ready by (simp add: frames_ready_def fresh_frames [OF inv])
  have "ll_result e (drv w) x fl us qs bs k n m ret t"
    using ol_tx_ll_ok [OF inv seg fr, of e mi] run by (auto simp: ol_tx_ll_def)
  then obtain y us' qs' j rej where j: "j = ll_stop (map_ok e (tp (drv w))) fl bs" "rej \<longleftrightarrow> j < length bs \<and> map_ok e (tp (drv w)) (bs ! j)"
    and r: "tx_inv k n m t y (drop j fl) us' qs'" "ran us' = ran us \<union> set (take j bs)"
      "ret = (if rej then Some (bs ! j) else None)"
      "rej \<longrightarrow> lseg (\<lambda>b. tn_next (tx_bufs (tp t) b)) ret (drop j bs) None"
      "tx_freed (tp t) = tx_freed (tp (drv w)) @ (if rej then [] else drop j bs)"
      "\<forall>c. dma_maps (tp t) c = dma_maps (tp (drv w)) c + (if c \<in> set (take j bs) \<and> \<not> tn_ipa (tx_bufs (tp (drv w)) c) then 1 else 0)
            - (if ret = Some c \<and> tn_ipa (tx_bufs (tp (drv w)) c) then 1 else 0)"
      "bufs_kept (set qs \<union> set bs) (tp (drv w)) (tp t)" "all_std k (tp (drv w)) \<longrightarrow> all_std k (tp t)"
    unfolding ll_result_def Let_def by blast
  have dist: "distinct bs" using seg by (rule lseg_acyclic)
  have disj: "ran us \<inter> set (take j bs) = {}" using fr by (auto simp: fresh_def dest: in_set_takeD)
  have rs: "rs = (if rej then drop j bs else [])"
  proof (cases rej)
    case True
    then have "lseg (\<lambda>b. tn_next (tx_bufs (tp t) b)) ret (drop j bs) None" using r(4) by blast
    from lseg_det [OF chain this] True show ?thesis by simp
  next
    case False
    then have "ret = None" using r(3) by simp
    then show ?thesis using chain False by simp
  qed
  have "mset bs = mset (take j bs) + mset (drop j bs)" by (metis append_take_drop_id mset_append)
  moreover have "mset_set (ran us') = mset_set (ran us) + mset (take j bs)"
    unfolding r(2) using tx_inv_finite [OF inv] dist disj by (intro mset_ran_split) simp_all
  ultimately have "mset (handed w @ bs) = mset (returned w @ rs) + mset (tx_freed (tp t)) + mset_set (ran us')"
    using ok by (simp add: world_ok_def rs r(5))
  moreover have "dma_maps (tp t) c = (if c \<in> ran us' then 1 else 0)" for c
    using ok spec [OF r(6), of c] disj unfolding r(2) by (auto simp: world_ok_def)
  moreover have "\<not> tn_ipa (tx_bufs (tp t) c)" for c using ok r(7) by (simp add: world_ok_def bufs_kept_def)
  ultimately have "world_ok n m (w\<lparr>drv := t, handed := handed w @ bs, returned := returned w @ rs\<rparr>) k y (drop j fl) us' qs'"
    using ok r(1,8) by (simp add: world_ok_def)
  then show ?thesis by blast
qed

text \<open>After a message the queue is sent on, as far as there is room.\<close>

lemma sched_ok:
  assumes inv: "tx_inv k n m s x fl us qs"
  shows "\<exists>t y j. htt_tx_sched e s = Some t \<and> tx_inv k n m t y fl us (drop j qs) \<and> j \<le> length qs \<and>
    requests y = requests x @ sched_requests (ep_id s) (tp s) (download_len s) (take j qs) \<and>
    tp_sim (set qs) (tp s) (tp t) \<and> tx_kept s t \<and> (j < length qs \<longrightarrow> num_sends_allowed t < 2)"
proof -
  have parts: "ce_ok n m s x" "queue_rep s qs" "\<forall>c \<in> set qs. framed (tx_bufs (tp s) c)" "0 < download_len s"
    using inv by (auto simp: tx_inv_def)
  obtain t y j where t: "htt_tx_sched e s = Some t" "ce_ok n m t y" "queue_rep t (drop j qs)" "j \<le> length qs"
      "requests y = requests x @ sched_requests (ep_id s) (tp s) (download_len s) (take j qs)"
      "tp_sim (set qs) (tp s) (tp t)" "tx_kept s t" "j < length qs \<longrightarrow> num_sends_allowed t < 2"
    using htt_tx_sched_ok [OF parts, of e] by blast
  have "pool_rep k (tp t) fl us" using inv by (intro tp_sim_rep [OF t(6)]) (simp add: tx_inv_def)
  moreover have "drop j qs \<noteq> [] \<longrightarrow> num_sends_allowed t < 2" using t(4,8) by (cases "j < length qs") simp_all
  moreover have "set (drop j qs) \<subseteq> ran us" using inv set_drop_subset [of j qs] by (auto simp: tx_inv_def)
  moreover have "length (requests y) \<le> 2 * length (sent y)" using inv sent_length [OF _ t(5)] by (simp add: tx_inv_def)
  ultimately have "tx_inv k n m t y fl us (drop j qs)"
    using t(2,3,7) inv by (simp add: tx_inv_def tp_sim_buf(1) [OF t(6)] tx_kept_def)
  then show ?thesis using t by blast
qed

lemma ids_plain:
  assumes ok: "world_ok n m w k x fl us qs" and ids: "ids_valid (drv w) (take num ids)"
  defines "js \<equiv> valid_ids (tp (drv w)) (take num ids)"
  shows "distinct js" "set js \<subseteq> dom us" "\<forall>j \<in> set js. the (us j) \<notin> set qs" "\<forall>j \<in> set js. is_std k (tp (drv w)) j"
proof -
  have inv: "tx_inv k n m (drv w) x fl us qs" and std: "all_std k (tp (drv w))" and rep: "pool_rep k (tp (drv w)) fl us"
    using ok by (simp_all add: world_ok_def tx_inv_def)
  show js: "distinct js" "set js \<subseteq> dom us" "\<forall>j \<in> set js. the (us j) \<notin> set qs"
    using ids unfolding js_def
    by (auto simp: ids_valid_def Let_def fresh_frames [OF inv] host_queue_rep [OF inv] split: option.splits)
  show "\<forall>j \<in> set js. is_std k (tp (drv w)) j"
  proof
    fix j assume j: "j \<in> set js"
    obtain b where "us j = Some b" using js(2) j by auto
    then show "is_std k (tp (drv w)) j"
      using std rep pool_rep_use [OF rep] by (auto simp: all_std_def is_std_def pool_rep_def)
  qed
qed

lemma completed_run:
  assumes ok: "world_ok n m w k x fl us qs" and num: "num \<le> length ids" and ids: "ids_valid (drv w) (take num ids)"
  defines "js \<equiv> valid_ids (tp (drv w)) (take num ids)"
  shows "\<exists>s. completion_run table st err ids num (drv w) = Some s \<and> tx_inv k n m s x (rev js @ fl) (us |` (- set js)) qs \<and>
    tx_freed (tp s) = tx_freed (tp (drv w)) @ rev (map (the \<circ> us) js) \<and>
    (\<forall>c. dma_maps (tp s) c = dma_maps (tp (drv w)) c - (if \<exists>j \<in> set js. us j = Some c \<and> unmaps k (tp (drv w)) us j then 1 else 0)) \<and>
    bufs_kept ((the \<circ> us) ` set js) (tp (drv w)) (tp s) \<and> pool_size (tp s) = pool_size (tp (drv w)) \<and>
    kinds_kept (tp (drv w)) (tp s)"
proof -
  have inv: "tx_inv k n m (drv w) x fl us qs" using ok by (simp add: world_ok_def)
  note js = ids_plain [OF ok ids, folded js_def]
  have mg: "\<forall>j \<in> set js. mgmt_ok k (tp (drv w)) j"
    using js(4) by (auto simp: mgmt_ok_def nonstd_mgmt_def is_std_def tx_frm_types Let_def)
  have flt: "filter (is_std k (tp (drv w))) js = js" "filter (\<lambda>j. \<not> is_std k (tp (drv w)) j) js = []"
    using js(4) by (auto simp: filter_empty_conv intro: filter_True)
  show ?thesis
    using completion_run_ok [OF inv num js_def [THEN meta_eq_to_obj_eq] js(1,2) mg js(3), of table st err] unfolding Let_def flt by auto
qed

lemma completed_ok:
  assumes ok: "world_ok n m w k x fl us qs" and num: "num \<le> length ids" and ids: "ids_valid (drv w) (take num ids)"
    and run: "completion_run table st err ids num (drv w) = Some s" "htt_tx_sched e s = Some t"
  shows "\<exists>y fl' us' qs'. world_ok n m (w\<lparr>drv := t\<rparr>) k y fl' us' qs'"
proof -
  have inv: "tx_inv k n m (drv w) x fl us qs" and std: "all_std k (tp (drv w))" using ok by (simp_all add: world_ok_def)
  let ?js = "valid_ids (tp (drv w)) (take num ids)"
  note js = ids_plain [OF ok ids]
  have plain: "is_std k (tp (drv w)) j" if "j \<in> set ?js" for j using js(4) that by blast
  have s: "tx_inv k n m s x (rev ?js @ fl) (us |` (- set ?js)) qs"
      "tx_freed (tp s) = tx_freed (tp (drv w)) @ rev (map (the \<circ> us) ?js)"
      "\<forall>c. dma_maps (tp s) c = dma_maps (tp (drv w)) c - (if \<exists>j \<in> set ?js. us j = Some c \<and> unmaps k (tp (drv w)) us j then 1 else 0)"
      "bufs_kept ((the \<circ> us) ` set ?js) (tp (drv w)) (tp s)" "pool_size (tp s) = pool_size (tp (drv w))"
      "kinds_kept (tp (drv w)) (tp s)"
    using completed_run [OF ok num ids, of table st err] run(1) by auto
  let ?us = "us |` (- set ?js)"
  obtain y j where t: "tx_inv k n m t y (rev ?js @ fl) ?us (drop j qs)" "tp_sim (set qs) (tp s) (tp t)"
    using sched_ok [OF s(1), of e] run(2) by auto
  have "all_std k (tp s)" using all_std_kinds [OF std s(6,5)] .
  then have std': "all_std k (tp t)" using tp_sim_fields [OF t(2)] by (simp add: all_std_def)
  have inj: "inj_on us (dom us)" using inv by (simp add: tx_inv_def)
  let ?bs = "map (the \<circ> us) ?js"
  have some: "us j = Some (the (us j))" if j: "j \<in> set ?js" for j using js(2) j by auto
  have ran: "ran us = ran ?us \<union> set ?bs"
  proof -
    have "b \<in> ran us \<longleftrightarrow> b \<in> ran ?us \<or> (\<exists>j \<in> set ?js. us j = Some b)" for b by (auto simp: ran_def restrict_map_def)
    moreover have "b \<in> set ?bs \<longleftrightarrow> (\<exists>j \<in> set ?js. us j = Some b)" for b using some by force
    ultimately show ?thesis by blast
  qed
  have one: "i = j" if "us i = Some b" "us j = Some b" for i j b using inj_onD [OF inj, of i j] that by auto
  have disj: "ran ?us \<inter> set ?bs = {}"
  proof -
    have "us i \<noteq> Some (the (us j))" if "i \<notin> set ?js" "j \<in> set ?js" for i j using one some that by metis
    then show ?thesis by (auto simp: ran_def restrict_map_def)
  qed
  have dist: "distinct ?bs"
  proof -
    have "inj_on (the \<circ> us) (set ?js)" using one some unfolding inj_on_def comp_def by metis
    then show ?thesis using js(1) by (simp add: distinct_map)
  qed
  note f = tp_sim_fields [OF t(2)]
  have ipa: "\<not> tn_ipa (tx_bufs (tp t) c)" for c
    using ok s(4) bufs_kept_sim [OF t(2)] by (simp add: world_ok_def bufs_kept_def)
  have hit: "(\<exists>j \<in> set ?js. us j = Some c \<and> unmaps k (tp (drv w)) us j) \<longleftrightarrow> c \<in> set ?bs" for c
    using ok plain some by (force simp: unmaps_def world_ok_def)
  have dma: "dma_maps (tp t) c = (if c \<in> ran ?us then 1 else 0)" for c
    using ok s(3) f disj unfolding hit by (auto simp: world_ok_def ran)
  have "mset (handed w) = mset (returned w) + mset (tx_freed (tp t)) + mset_set (ran ?us)"
    using ok s(2) f mset_ran_split [OF tx_inv_finite [OF s(1)] dist disj] by (simp add: world_ok_def ran)
  then have "world_ok n m (w\<lparr>drv := t\<rparr>) k y (rev ?js @ fl) ?us (drop j qs)"
    using t(1) std' ipa dma by (simp add: world_ok_def)
  then show ?thesis by blast
qed

lemma reach_ok: "tx_reach n m w \<Longrightarrow> \<exists>k x fl us qs. world_ok n m w k x fl us qs"
proof (induction rule: tx_reach.induct)
  case (start w)
  then show ?case using start_ok by blast
next
  case (fill w b f)
  then obtain k x fl us qs where ok: "world_ok n m w k x fl us qs" by blast
  then have "tx_inv k n m (drv w) x fl us qs" by (simp add: world_ok_def)
  then have "b \<notin> ran us" using fill.hyps(2) by (simp add: fresh_frames)
  from fill_ok [OF ok this fill.hyps(3)] show ?case by blast
next
  case (send w msdus bs e mi ret t rs)
  then show ?case using send_ok [OF _ send.hyps(2-5)] by blast
next
  case (device w)
  then show ?case using device_ok [OF _ device.hyps(2)] by blast
next
  case (complete w num ids table status s e t)
  then show ?case using completed_ok [OF _ complete.hyps(2,3) _ complete.hyps(5)] complete.hyps(4)
    unfolding ol_tx_completion_handler_def by blast
next
  case (inspect w num ids table s e t)
  then show ?case using completed_ok [OF _ inspect.hyps(2,3) _ inspect.hyps(5)] inspect.hyps(4)
    unfolding ol_tx_inspect_handler_def by blast
qed

end
