(* ===== verification/Tx_Props.thy ===== *)
theory Tx_Props
  imports Tx_System
begin

text \<open>
  The properties of the transmit path: over all reachable states where every frame and every mapping is,
  that no handler goes wrong on valid input, what each of them does, and where the code does not do what
  it means to.
\<close>

section \<open>A concrete driver\<close>

text \<open>
  Two descriptors on one page, a ring of four entries; frames of 100 bytes, of which 64 are downloaded,
  take two entries each.  Frames 0, 1 and 2 are linked.
\<close>

definition tx_demo_buf :: tx_nbuf where
  "tx_demo_buf = \<lparr>tn_next = None, tn_frags = [], tn_wordstream = 0, tn_len = 100, tn_paddr = 0x8000, tn_tid = 0, tn_exempt = 0,
     tn_cksum = 0, tn_ipa = False, tn_ethertype = 0x0800\<rparr>"

definition tx_demo_hdesc :: htt_host_desc where
  "tx_demo_hdesc = \<lparr>hd_htc0 = 0, hd_htc1 = 0, hd_word0 = 0, hd_word1 = 0, hd_word2 = 0, hd_word3 = 0, hd_frags = replicate 5 0\<rparr>"

definition tx_demo_desc :: tx_desc where
  "tx_demo_desc = \<lparr>td_first = First_next None, htt_tx_desc = 0, htt_tx_desc_paddr = 0, td_id = 0, ref_cnt = 77,
     tx_status = 0, pkt_type = 9, td_vdev = None, td_vdev_id = 0\<rparr>"

definition tx_demo_memory :: tx_pool where
  "tx_demo_memory = \<lparr>tx_bufs = (\<lambda>_. tx_demo_buf)(0 := tx_demo_buf\<lparr>tn_next := Some 1\<rparr>, 1 := tx_demo_buf\<lparr>tn_next := Some 2\<rparr>),
     dma_maps = (\<lambda>_. 0), tx_freed = [], tx_notices = [], data_cb = False, ota_ack_cbs = [], htt_descs = (\<lambda>_. tx_demo_hdesc),
     desc_mem = (\<lambda>_. tx_demo_desc), num_pages = 0, num_element_per_page = 0, page_divider = 0, offset_filter = 0,
     pool_size = 0, num_free = 0, freelist = None\<rparr>"

definition tx_demo_pool :: tx_pool where
  "tx_demo_pool = the (tx_pool_attach 4096 2048 2 [(0, 0x1000), (1, 0x1100)] tx_demo_memory)"

definition tx_demo :: tx_world where
  "tx_demo = \<lparr>drv = \<lparr>tp = tx_demo_pool,
       tx_links = \<lparr>tqh_first = (\<lambda>_. None), tqh_last = (\<lambda>_. HeadFirst ()), tqe_next = (\<lambda>_. None), tqe_prev = (\<lambda>_. None)\<rparr>,
       q_head = None, q_tail = None, q_len = 0, download_len = 64, ul_is_polled = True, ep_id = 1, seq_no = 0, send_cb = True,
       num_sends_allowed = 3, tx_ce = eng ce_demo\<rparr>, handed = [], returned = []\<rparr>"

definition tx_demo_env :: tx_env where
  "tx_demo_env = \<lparr>te_nentries = 4, te_table = (\<lambda>_. 0), te_vdev = \<lparr>tv_vdev = 0, tv_id = 0\<rparr>, te_map = (\<lambda>_. (True, 0x8000))\<rparr>"

definition tx_demo_info :: htt_msdu_info where
  "tx_demo_info = \<lparr>mi_l2_hdr_type = 0, mi_vdev_id = 0, mi_ext_tid = 0, mi_cksum_offload = 0, mi_do_encrypt = False\<rparr>"

definition tx_demo_sent :: "tx_buf option \<times> tx_pdev" where
  "tx_demo_sent = the (ol_tx_ll tx_demo_env tx_demo_info True (Some 0) (drv tx_demo))"

declare sig_bits.simps [code] head_items.simps [code] reap_loop.simps [code] sched_loop.simps [code] ol_tx_ll_loop.simps [code]
  adf_nbuf_tx_free.simps [code] frame_list_loop.simps [code]

text \<open>Frame 0 has gone down with two entries; frame 1 needs two and waits.\<close>

lemma tx_demo_sent_queue: "host_queue (snd tx_demo_sent) = [1]"
  by code_simp

lemma tx_demo_attach:
  "tx_pool_attach 4096 2048 2 [(0, 0x1000), (1, 0x1100)] tx_demo_memory = Some tx_demo_pool \<and>
   pool_rep 1 tx_demo_pool [0, 1] Map.empty \<and> tx_bufs tx_demo_pool = tx_bufs tx_demo_memory"
proof -
  have "\<forall>h \<in> fst ` set [(0, 0x1000 :: u32), (1, 0x1100)]. length (hd_frags (htt_descs tx_demo_memory h)) = 5"
    by (simp add: tx_demo_memory_def tx_demo_hdesc_def)
  from tx_pool_attach_rep [OF _ _ _ _ this, of 4096 2048 1 2] show ?thesis by (auto simp: tx_demo_pool_def upt_rec)
qed

lemma tx_demo_start: "tx_start 4 3 tx_demo"
proof -
  have "ce_start 4 3 ce_demo"
    unfolding ce_start_def
    by (intro conjI exI [of _ ce_demo_engine] exI [of _ "replicate 4 ce_desc_zero"])
      (simp_all add: ce_demo_def ce_demo_engine_def ce_demo_sizes ce_init_dest_def ce_init_src_def Let_def)
  then show ?thesis unfolding tx_start_def using tx_demo_attach
    by (intro conjI exI [of _ 4096] exI [of _ 2048] exI [of _ 1] exI [of _ 2] exI [of _ "[(0, 0x1000), (1, 0x1100)]"]
        exI [of _ tx_demo_memory] exI [of _ ce_demo])
      (simp_all add: tx_demo_def tx_demo_memory_def tx_demo_hdesc_def tx_demo_buf_def)
qed

lemmas tx_demo_reach = tx_reach.start [OF tx_demo_start]

lemma tx_demo_frames: "frames_of (drv tx_demo) = Map.empty" "num_free (tp (drv tx_demo)) = 2" "pool_size (tp (drv tx_demo)) = 2"
proof -
  have rep: "pool_rep 1 (tp (drv tx_demo)) [0, 1] Map.empty" using tx_demo_attach by (simp add: tx_demo_def)
  then show "frames_of (drv tx_demo) = Map.empty" by (rule frames_of_rep)
  have "unat (num_free (tp (drv tx_demo))) = unat (2 :: u16)" using rep by (simp add: pool_rep_def)
  then show "num_free (tp (drv tx_demo)) = 2" by (simp only: word_unat_eq_iff)
  have "{0, 1} = {..< unat (pool_size (tp (drv tx_demo)))}" using rep by (simp add: pool_rep_def)
  then have "unat (pool_size (tp (drv tx_demo))) = 2" by (metis card_lessThan card_2_iff zero_neq_one)
  then have "unat (pool_size (tp (drv tx_demo))) = unat (2 :: u16)" by simp
  then show "pool_size (tp (drv tx_demo)) = 2" by (simp only: word_unat_eq_iff)
qed

lemma tx_demo_ready: "frames_ready (drv tx_demo) bs"
  using tx_demo_attach
  by (simp add: frames_ready_def fresh_def tx_demo_frames) (simp add: tx_demo_def tx_demo_memory_def tx_demo_buf_def)

lemma tx_demo_chain: "lseg (\<lambda>b. tn_next (tx_bufs (tp (drv tx_demo)) b)) (Some 0) [0, 1, 2] None"
  using tx_demo_attach by (simp add: tx_demo_def tx_demo_memory_def tx_demo_buf_def)

lemma tx_demo_map: "map_ok tx_demo_env p b"
  by (simp add: map_ok_def tx_demo_env_def)

section \<open>Where every frame is\<close>

text \<open>
  C1. In every reachable state of the transmit path each frame that was handed down is in exactly one place:
  handed back at once, freed, or in flight; no frame is carried by two descriptors, and the frames that
  wait in the host's queue are in flight and wait once.  A frame is mapped for the bus once while it is in
  flight, and not at all otherwise (frames of the micro controller's path aside).
\<close>

theorem tx_frames_conserved:
  assumes "tx_reach n m w"
  shows "mset (handed w) = mset (returned w) + mset (tx_freed (tp (drv w))) + mset_set (ran (frames_of (drv w))) \<and>
    inj_on (frames_of (drv w)) (dom (frames_of (drv w))) \<and>
    distinct (host_queue (drv w)) \<and> set (host_queue (drv w)) \<subseteq> ran (frames_of (drv w)) \<and>
    (\<forall>b. dma_maps (tp (drv w)) b = (if b \<in> ran (frames_of (drv w)) then 1 else 0))"
proof -
  obtain k x fl us qs where ok: "world_ok n m w k x fl us qs" using reach_ok [OF assms] by blast
  then have inv: "tx_inv k n m (drv w) x fl us qs" by (simp add: world_ok_def)
  then have "distinct qs" by (auto simp: tx_inv_def intro: queue_rep_distinct)
  then show ?thesis using ok inv unfolding fresh_frames [OF inv] host_queue_rep [OF inv] by (simp add: world_ok_def tx_inv_def)
qed

text \<open>
  C2. In every reachable state the first word of a descriptor is read as what it was written: the free
  descriptors form the free list and hold its links, every other descriptor of the pool holds a frame
  with one prefixed fragment, and the counter of free descriptors is exact.
\<close>

theorem tx_descriptors_typed:
  assumes "tx_reach n m w"
  defines "p \<equiv> tp (drv w)"
  shows "\<exists>k fl. distinct fl \<and> lseg (free_next p) (freelist p) (map (dptr k) fl) None \<and> unat (num_free p) = length fl \<and>
    set fl \<subseteq> {..< unat (pool_size p)} \<and>
    (\<forall>i < unat (pool_size p). ol_tx_desc_find (of_nat i) p = Some (dptr k i) \<and> unat (td_id (desc_mem p (dptr k i))) = i \<and>
       (case td_first (desc_mem p (dptr k i)) of
          First_next _ \<Rightarrow> i \<in> set fl
        | First_netbuf b \<Rightarrow> i \<notin> set fl \<and> frames_of (drv w) i = Some b \<and> length (tn_frags (tx_bufs p b)) = 1))"
proof -
  obtain k x fl us qs where ok: "world_ok n m w k x fl us qs" using reach_ok [OF assms(1)] by blast
  then have inv: "tx_inv k n m (drv w) x fl us qs" by (simp add: world_ok_def)
  then have rep: "pool_rep k p fl us" and fr: "\<forall>b \<in> ran us. framed (tx_bufs p b)" by (simp_all add: tx_inv_def p_def)
  have "ol_tx_desc_find (of_nat i) p = Some (dptr k i) \<and> unat (td_id (desc_mem p (dptr k i))) = i \<and>
       (case td_first (desc_mem p (dptr k i)) of
          First_next _ \<Rightarrow> i \<in> set fl
        | First_netbuf b \<Rightarrow> i \<notin> set fl \<and> us i = Some b \<and> length (tn_frags (tx_bufs p b)) = 1)"
    if i: "i < unat (pool_size p)" for i
  proof -
    have "i < 2 ^ 16" using i unsigned_less [of "pool_size p", where ?'a = nat] by simp
    then have u: "unat (of_nat i :: u16) = i" by (simp add: unat_of_nat take_bit_nat_eq_self)
    have "ol_tx_desc_find (of_nat i) p = Some (dptr k i)"
      using desc_find [of k p "of_nat i"] rep i by (simp add: pool_rep_def u)
    moreover have "unat (td_id (desc_mem p (dptr k i))) = i" using rep i by (simp add: pool_rep_def)
    moreover have "i \<in> set fl \<and> us i = None \<and> (\<exists>n. td_first (desc_mem p (dptr k i)) = First_next n) \<or>
      i \<notin> set fl \<and> (\<exists>b. us i = Some b \<and> td_first (desc_mem p (dptr k i)) = First_netbuf b)"
    proof (cases "us i")
      case None
      have "i \<in> set fl \<union> dom us" using rep i by (simp add: pool_rep_def)
      then have "i \<in> set fl" using None by auto
      then show ?thesis using rep None by (simp add: pool_rep_def)
    next
      case (Some b)
      then show ?thesis using rep by (auto simp: pool_rep_def)
    qed
    ultimately show ?thesis using fr by (auto simp: framed_def ran_def)
  qed
  moreover have "set fl \<subseteq> {..< unat (pool_size p)}" using rep by (auto simp: pool_rep_def)
  ultimately show ?thesis using rep unfolding fresh_frames [OF inv] pool_rep_def by blast
qed


section \<open>What the handlers do\<close>

lemma half_words_length: "length (half_words ws) = 2 * length ws"
  by (induction ws) (simp_all add: half_words_def)

text \<open>The ids the handler reads: the last of an odd number of them may be in the place after its own.\<close>

definition compl_ids :: "nat \<Rightarrow> u16 list \<Rightarrow> u16 list" where
  "compl_ids num hs = take num (if odd num \<and> hs ! num \<noteq> 0xffff then hs[num - 1 := hs ! num] else hs)"

lemma compl_fixup_ids:
  assumes "num \<le> 2 * length ws"
  shows "\<exists>ids. compl_fixup num (half_words ws) = Some ids \<and> num \<le> length ids \<and> take num ids = compl_ids num (half_words ws)"
proof (cases "odd num")
  case True
  then have "num \<noteq> 2 * length ws" by auto
  then have "num < length (half_words ws)" using assms by (simp add: half_words_length)
  then show ?thesis using True by (auto simp: compl_fixup_def compl_ids_def load_at_def store_at_def HTT_TX_COMPL_INV_MSDU_ID_def)
next
  case False
  then show ?thesis using assms by (simp add: compl_fixup_def compl_ids_def half_words_length)
qed

text \<open>
  C3. A list of frames handed down is taken up to the first that cannot be mapped or for which no descriptor
  is free, the descriptors in use growing by just those; they follow the frames already waiting, in order,
  to the engine or into the queue.  If a descriptor was missing the rest of the list is handed back, linked;
  if a frame could not be mapped it and all frames after it are freed.
\<close>

theorem tx_list_taken:
  fixes e :: tx_env
  assumes "tx_reach n m w" and "lseg (\<lambda>b. tn_next (tx_bufs (tp (drv w)) b)) msdus bs None" and "frames_ready (drv w) bs"
  defines "s \<equiv> drv w"
  defines "j \<equiv> min (unat (num_free (tp s))) (length (takeWhile (map_ok e (tp s)) bs))"
  defines "rejected \<equiv> j < length bs \<and> map_ok e (tp s) (bs ! j)"
  shows "\<exists>ret t x y. ol_tx_ll e mi True msdus s = Some (ret, t) \<and>
    ran (frames_of t) = ran (frames_of s) \<union> set (take j bs) \<and> unat (num_free (tp t)) = unat (num_free (tp s)) - j \<and>
    ce_reach n m x \<and> eng x = tx_ce s \<and> ce_reach n m y \<and> eng y = tx_ce t \<and>
    sent y @ map of_nat (host_queue t) = sent x @ map of_nat (host_queue s @ take j bs) \<and>
    (if rejected then lseg (\<lambda>b. tn_next (tx_bufs (tp t) b)) ret (drop j bs) None \<and> tx_freed (tp t) = tx_freed (tp s)
     else ret = None \<and> tx_freed (tp t) = tx_freed (tp s) @ drop j bs)"
proof -
  obtain k x fl us qs where ok: "world_ok n m w k x fl us qs" using reach_ok [OF assms(1)] by blast
  then have inv: "tx_inv k n m s x fl us qs" by (simp add: world_ok_def s_def)
  have fr: "\<forall>b \<in> set bs. fresh (tp s) us b"
    using assms(3) unfolding frames_ready_def s_def [symmetric] fresh_frames [OF inv] by blast
  have free: "unat (num_free (tp s)) = length fl" using inv by (simp add: tx_inv_def pool_rep_def)
  have j: "ll_stop (map_ok e (tp s)) fl bs = j" by (simp add: ll_stop_def j_def free)
  obtain ret t where run: "ol_tx_ll_loop e mi msdus s = Some (ret, t)" and res: "ll_result e s x fl us qs bs k n m ret t"
    using ol_tx_ll_ok [OF inv assms(2) [folded s_def] fr] by blast
  obtain y us' qs' where r: "tx_inv k n m t y (drop j fl) us' qs'" "ran us' = ran us \<union> set (take j bs)"
      "sent y @ map of_nat qs' = sent x @ map of_nat (qs @ take j bs)" "ret = (if rejected then Some (bs ! j) else None)"
      "rejected \<longrightarrow> lseg (\<lambda>b. tn_next (tx_bufs (tp t) b)) ret (drop j bs) None"
      "tx_freed (tp t) = tx_freed (tp s) @ (if rejected then [] else drop j bs)"
    using res unfolding ll_result_def Let_def j rejected_def [symmetric] by blast
  have "unat (num_free (tp t)) = unat (num_free (tp s)) - j" using r(1) free by (simp add: tx_inv_def pool_rep_def)
  moreover have "ce_ok n m s x" "ce_ok n m t y" using inv r(1) by (simp_all add: tx_inv_def)
  then have "ce_reach n m x \<and> eng x = tx_ce s \<and> ce_reach n m y \<and> eng y = tx_ce t" by (simp add: ce_ok_def)
  moreover have "ol_tx_ll e mi True msdus s = Some (ret, t)" using run by (simp add: ol_tx_ll_def)
  moreover have "if rejected then lseg (\<lambda>b. tn_next (tx_bufs (tp t) b)) ret (drop j bs) None \<and> tx_freed (tp t) = tx_freed (tp s)
     else ret = None \<and> tx_freed (tp t) = tx_freed (tp s) @ drop j bs"
    using r(4-6) by simp
  moreover have "ran (frames_of t) = ran (frames_of s) \<union> set (take j bs)"
    "sent y @ map of_nat (host_queue t) = sent x @ map of_nat (host_queue s @ take j bs)"
    unfolding fresh_frames [OF inv] host_queue_rep [OF inv] fresh_frames [OF r(1)] host_queue_rep [OF r(1)] by (fact r)+
  ultimately show ?thesis by (intro exI [of _ ret] exI [of _ t] exI [of _ x] exI [of _ y]) simp
qed

text \<open>
  C4. A completion message whose ids name frames that went down frees exactly those frames, in the reverse
  order of the message, and returns their descriptors; then the queue is sent on.  The last id of an odd
  number of them may be in the place after its own.
\<close>

theorem tx_completion_frees:
  assumes "tx_reach n m w" and "HTT_TX_COMPL_IND_NUM_GET w0 = num" and "unat num * 2 + 4 \<le> msg_len"
    and "unat num \<le> 2 * length ws" and "ids_valid (drv w) (compl_ids (unat num) (half_words ws))"
  defines "s \<equiv> drv w"
  defines "js \<equiv> valid_ids (tp s) (compl_ids (unat num) (half_words ws))"
  shows "\<exists>t j. t2h_tx_compl_ind table e (w0 # ws) msg_len s = Some t \<and>
    frames_of t = frames_of s |` (- set js) \<and> tx_freed (tp t) = tx_freed (tp s) @ rev (map (the \<circ> frames_of s) js) \<and>
    unat (num_free (tp t)) = unat (num_free (tp s)) + length js \<and>
    j \<le> length (host_queue s) \<and> host_queue t = drop j (host_queue s) \<and> (host_queue t \<noteq> [] \<longrightarrow> num_sends_allowed t < 2)"
proof -
  obtain k x fl us qs where ok: "world_ok n m w k x fl us qs" using reach_ok [OF assms(1)] by blast
  then have inv: "tx_inv k n m s x fl us qs" by (simp add: world_ok_def s_def)
  obtain ids where ids: "compl_fixup (unat num) (half_words ws) = Some ids" "unat num \<le> length ids"
      "take (unat num) ids = compl_ids (unat num) (half_words ws)"
    using compl_fixup_ids [OF assms(4)] by blast
  have valid: "ids_valid (drv w) (take (unat num) ids)" using assms(5) ids(3) by simp
  obtain v where v: "completion_run table (Some (HTT_TX_COMPL_IND_STATUS_GET w0)) (HTT_TX_COMPL_IND_STATUS_GET w0 \<noteq> htt_tx_status_ok)
      ids (unat num) s = Some v" "tx_inv k n m v x (rev js @ fl) (us |` (- set js)) qs"
      "tx_freed (tp v) = tx_freed (tp s) @ rev (map (the \<circ> us) js)"
    using completed_run [OF ok ids(2) valid] unfolding js_def s_def ids(3) by blast
  obtain t y j where t: "htt_tx_sched e v = Some t" "tx_inv k n m t y (rev js @ fl) (us |` (- set js)) (drop j qs)" "j \<le> length qs"
      "tp_sim (set qs) (tp v) (tp t)"
    using sched_ok [OF v(2), of e] by blast
  have "t2h_tx_compl_ind table e (w0 # ws) msg_len s = Some t"
    using assms(2,3) ids(1) v(1) t(1)
    by (simp add: t2h_tx_compl_ind_def tx_ids_run_def load_at_def HTT_TX_COMPL_BYTES_PER_MSDU_ID_def HTT_TX_COMPL_HEAD_SZ_def
        ol_tx_completion_handler_def)
  moreover have "unat (num_free (tp t)) = unat (num_free (tp s)) + length js"
    using t(2) inv by (simp add: tx_inv_def pool_rep_def)
  moreover have "tx_freed (tp t) = tx_freed (tp v)" using tp_sim_fields [OF t(4)] by simp
  moreover have "drop j qs \<noteq> [] \<longrightarrow> num_sends_allowed t < 2" using t(2) by (simp add: tx_inv_def)
  ultimately show ?thesis using v(3) t(3) fresh_frames [OF t(2)] host_queue_rep [OF t(2)]
    unfolding fresh_frames [OF inv] host_queue_rep [OF inv] by auto
qed

section \<open>Where the code goes wrong\<close>

text \<open>The length that is downloaded of each frame of the queue.\<close>

lemma sched_requests_lens:
  "sched_requests ep p len bs = concat (map (\<lambda>i. frame_requests ep (bs ! i) (tx_bufs p (bs ! i))
     (Min (insert len (plen p ` set (take (Suc i) bs))))) [0 ..< length bs])"
proof (induction bs arbitrary: len)
  case Nil
  then show ?case by simp
next
  case (Cons b bs)
  have upt: "[0 ..< length (b # bs)] = 0 # map Suc [0 ..< length bs]" by (simp add: upt_conv_Cons map_Suc_upt del: upt_Suc)
  have "Min (insert len (insert (plen p b) S)) = Min (insert (min (plen p b) len) S)" if "finite S" for S
    using that by (cases "S = {}") (simp_all add: ac_simps)
  then show ?case unfolding upt by (simp add: Cons.IH comp_def min.commute)
qed


lemma desc_find_mem: "ol_tx_desc_find i (upd_desc d f p) = ol_tx_desc_find i p"
  by (simp add: ol_tx_desc_find_def upd_desc_def)

text \<open>A list on which a descriptor is linked to itself is read again after the descriptor was freed.\<close>

lemma frame_list_self:
  assumes "tqe_next q d = Some d" and "td_first (desc_mem p d) = First_netbuf b"
  shows "frame_list_loop q (Some d) ms p = None"
proof -
  have "desc_netbuf d p = Some b" using assms(2) by (simp add: desc_netbuf_def)
  moreover have "desc_netbuf d (adf_nbuf_set_next b ms (ol_tx_desc_free d p')) = None" for p'
    by (simp add: desc_netbuf_def ol_tx_desc_free_def upd_desc_def adf_nbuf_set_next_def upd_buf_def)
  then have "frame_list_loop q (Some d) ms' (adf_nbuf_set_next b ms (ol_tx_desc_free d p')) = None" for p' ms'
    by (subst frame_list_loop.simps) simp
  ultimately show ?thesis using assms(1) by (subst frame_list_loop.simps) simp
qed

text \<open>
  C37. When the target has stopped, the frames it was given and never completed are to be freed; as no
  descriptor is counted in this build the pass over the pool does nothing, whatever is in flight.
\<close>

theorem tx_discard_does_nothing:
  assumes "tx_reach n m w"
  shows "ol_tx_discard_target_frms table (drv w) = Some (drv w)"
proof -
  obtain k x fl us qs where ok: "world_ok n m w k x fl us qs" using reach_ok [OF assms] by blast
  let ?p = "tp (drv w)"
  have std: "all_std k ?p" and geom: "pool_geom k ?p" using ok by (simp_all add: world_ok_def tx_inv_def pool_rep_def)
  have "discard_loop table n' i ?p = Some ?p" if "i + n' \<le> unat (pool_size ?p)" for n' i
    using that
  proof (induction n' arbitrary: i)
    case 0
    then show ?case by simp
  next
    case (Suc n')
    have "i < 2 ^ 16" using Suc.prems unsigned_less [of "pool_size ?p", where ?'a = nat] by simp
    then have u: "unat (of_nat i :: u16) = i" by (simp add: unat_of_nat take_bit_nat_eq_self)
    have "ol_tx_desc_find (of_nat i) ?p = Some (dptr k i)" using desc_find [OF geom, of "of_nat i"] Suc.prems by (simp add: u)
    moreover have "ref_cnt (desc_mem ?p (dptr k i)) = 0" using std Suc.prems by (simp add: all_std_def)
    ultimately show ?case using Suc.IH [of "Suc i"] Suc.prems by simp
  qed
  from this [of 0 "unat (pool_size ?p)"] show ?thesis by (simp add: ol_tx_discard_target_frms_def on_tp_def)
qed


section \<open>The concrete driver again\<close>

text \<open>After the three frames were handed down: two are in flight, the third came back.\<close>

definition tx_demo_after :: tx_world where
  "tx_demo_after = \<lparr>drv = snd tx_demo_sent, handed = [0, 1, 2], returned = [2]\<rparr>"

lemma tx_demo_sent_inv:
  "\<exists>k y fl us qs. tx_inv k 4 3 (snd tx_demo_sent) y fl us qs \<and> ran us = {0, 1} \<and> sent y @ map of_nat qs = [0, 1] \<and>
     ol_tx_ll tx_demo_env tx_demo_info True (Some 0) (drv tx_demo) = Some (Some 2, snd tx_demo_sent) \<and>
     lseg (\<lambda>b. tn_next (tx_bufs (tp (snd tx_demo_sent)) b)) (Some 2) [2] None"
proof -
  let ?s = "drv tx_demo"
  obtain k x sz where x: "ce_start 4 3 x" "world_ok 4 3 tx_demo k x [0 ..< sz] Map.empty []"
    using start_ok [OF tx_demo_start] by blast
  then have inv: "tx_inv k 4 3 ?s x [0 ..< sz] Map.empty []" by (simp add: world_ok_def)
  have "unat (num_free (tp ?s)) = sz" using inv by (simp add: tx_inv_def pool_rep_def)
  then have sz: "sz = 2" by (simp add: tx_demo_frames)
  have fr: "\<forall>b \<in> set [0, 1, 2]. fresh (tp ?s) Map.empty b"
    using tx_demo_ready [of "[0, 1, 2]"] unfolding frames_ready_def fresh_frames [OF inv] .
  have "takeWhile (map_ok tx_demo_env (tp ?s)) [0, 1, 2] = [0, 1, 2]" by (simp add: tx_demo_map)
  then have j: "ll_stop (map_ok tx_demo_env (tp ?s)) [0 ..< sz] [0, 1, 2] = 2" by (simp add: ll_stop_def sz)
  have sx: "sent x = []" using x(1) by (simp add: ce_start_def sent_def)
  obtain ret t where run: "ol_tx_ll_loop tx_demo_env tx_demo_info (Some 0) ?s = Some (ret, t)"
    and res: "ll_result tx_demo_env ?s x [0 ..< sz] Map.empty [] [0, 1, 2] k 4 3 ret t"
    using ol_tx_ll_ok [OF inv tx_demo_chain fr] by blast
  obtain y us qs where r: "tx_inv k 4 3 t y (drop 2 [0 ..< sz]) us qs" "ran us = {0, 1}" "sent y @ map of_nat qs = [0, 1]"
      "ret = Some 2" "lseg (\<lambda>b. tn_next (tx_bufs (tp t) b)) ret [2] None"
    using res unfolding ll_result_def Let_def j sx by (auto simp: tx_demo_map numeral_2_eq_2)
  have ll: "ol_tx_ll tx_demo_env tx_demo_info True (Some 0) ?s = Some (ret, t)" using run by (simp add: ol_tx_ll_def)
  then have "snd tx_demo_sent = t" by (simp add: tx_demo_sent_def)
  then show ?thesis using r ll by blast
qed

lemma tx_demo_after_reach: "tx_reach 4 3 tx_demo_after"
proof -
  have "tx_reach 4 3 (tx_demo\<lparr>drv := snd tx_demo_sent, handed := handed tx_demo @ [0, 1, 2], returned := returned tx_demo @ [2]\<rparr>)"
    using tx_demo_sent_inv by (intro tx_reach.send [OF tx_demo_reach tx_demo_chain tx_demo_ready]) blast+
  then show ?thesis by (simp add: tx_demo_def tx_demo_after_def)
qed

lemma tx_demo_after_frames: "ran (frames_of (drv tx_demo_after)) = {0, 1}"
  using tx_demo_sent_inv by (auto simp: tx_demo_after_def dest!: fresh_frames)

lemma tx_demo_after_sent: "0 \<notin> set (host_queue (drv tx_demo_after))"
  by (simp add: tx_demo_after_def tx_demo_sent_queue)

lemma tx_frames_conserved_witness:
  "mset [0, 1, 2] = mset [2] + mset (tx_freed (tp (snd tx_demo_sent))) + mset_set (ran (frames_of (snd tx_demo_sent))) \<and>
   dma_maps (tp (snd tx_demo_sent)) 0 = 1 \<and> dma_maps (tp (snd tx_demo_sent)) 2 = 0 \<and>
   ran (frames_of (snd tx_demo_sent)) = {0, 1}"
  using tx_frames_conserved [OF tx_demo_after_reach] tx_demo_after_frames by (simp add: tx_demo_after_def)



lemma tx_discard_does_nothing_witness:
  "ol_tx_discard_target_frms (\<lambda>_. 0) (snd tx_demo_sent) = Some (snd tx_demo_sent) \<and> ran (frames_of (snd tx_demo_sent)) = {0, 1}"
  using tx_discard_does_nothing [OF tx_demo_after_reach] tx_demo_after_frames by (simp add: tx_demo_after_def)

text \<open>The descriptor of frame 0.\<close>

lemma tx_demo_after_id: "\<exists>did. frames_of (drv tx_demo_after) (unat did) = Some 0 \<and> did < pool_size (tp (drv tx_demo_after))"
proof -
  obtain i where i: "frames_of (drv tx_demo_after) i = Some 0" using tx_demo_after_frames by (auto simp: ran_def)
  then have lt: "i < unat (pool_size (tp (drv tx_demo_after)))" by (simp add: frames_of_def split: if_splits)
  then have "i < 2 ^ 16" using unsigned_less [of "pool_size (tp (drv tx_demo_after))", where ?'a = nat] by simp
  then have "unat (of_nat i :: u16) = i" by (simp add: unat_of_nat take_bit_nat_eq_self)
  then show ?thesis using i lt by (intro exI [of _ "of_nat i"]) (simp add: word_less_nat_alt)
qed


lemma tx_list_taken_witness:
  "\<exists>ret t. ol_tx_ll tx_demo_env tx_demo_info True (Some 0) (drv tx_demo) = Some (ret, t) \<and> ran (frames_of t) = {0, 1} \<and>
     lseg (\<lambda>b. tn_next (tx_bufs (tp t) b)) ret [2] None"
proof -
  have j: "min (unat (num_free (tp (drv tx_demo)))) (length (takeWhile (map_ok tx_demo_env (tp (drv tx_demo))) [0, 1, 2])) = 2"
    by (simp add: tx_demo_frames tx_demo_map)
  show ?thesis
    using tx_list_taken [OF tx_demo_reach tx_demo_chain tx_demo_ready, of tx_demo_env tx_demo_info] unfolding j
    by (auto simp: tx_demo_map tx_demo_frames)
qed

lemma tx_descriptors_typed_witness:
  "\<exists>k fl. unat (num_free (tp (snd tx_demo_sent))) = length fl \<and>
    lseg (free_next (tp (snd tx_demo_sent))) (freelist (tp (snd tx_demo_sent))) (map (dptr k) fl) None"
  using tx_descriptors_typed [OF tx_demo_after_reach] by (auto simp: tx_demo_after_def)

lemma tx_completion_frees_witness:
  "\<exists>did t. t2h_tx_compl_ind (\<lambda>_. 0) 4 [0x00010000, 0xffff0000 OR ucast (did :: u16)] 8 (snd tx_demo_sent) = Some t \<and>
     frames_of (snd tx_demo_sent) (unat did) = Some 0 \<and> tx_freed (tp t) = tx_freed (tp (snd tx_demo_sent)) @ [0]"
proof -
  obtain did where did: "frames_of (drv tx_demo_after) (unat did) = Some 0" "did < pool_size (tp (drv tx_demo_after))"
    using tx_demo_after_id by blast
  let ?w = "0xffff0000 OR ucast did :: u32"
  have half: "half_words [?w] = [did, 0xffff]"
  proof -
    have c: "(0xffff0000 :: u32) = push_bit 16 (mask 16)" "(0xffff :: u16) = mask 16" by code_simp+
    show ?thesis unfolding half_words_def c
      by (simp, intro conjI bit_word_eqI) (auto simp: bit_simps dest: bit_imp_le_length)
  qed
  have num: "HTT_TX_COMPL_IND_NUM_GET 0x00010000 = 1" by code_simp
  have js: "valid_ids (tp (drv tx_demo_after)) [did] = [unat did]" using did(2) by (simp add: valid_ids_def)
  have ids: "compl_ids (unat (1 :: u32)) (half_words [?w]) = [did]" unfolding half by (simp add: compl_ids_def)
  have ok: "ids_valid (drv tx_demo_after) (compl_ids (unat (1 :: u32)) (half_words [?w]))"
    unfolding ids using did tx_demo_after_sent by (simp add: ids_valid_def js)
  have drv: "drv tx_demo_after = snd tx_demo_sent" by (simp add: tx_demo_after_def)
  obtain t where "t2h_tx_compl_ind (\<lambda>_. 0) 4 [0x00010000, ?w] 8 (snd tx_demo_sent) = Some t"
      "tx_freed (tp t) = tx_freed (tp (snd tx_demo_sent)) @ [0]"
    using tx_completion_frees [OF tx_demo_after_reach num _ _ ok, of 8 "\<lambda>_. 0" 4] did(1) js unfolding drv ids by auto
  then show ?thesis using did(1) unfolding drv by blast
qed

end
